(* ===== verification/Prelude.thy ===== *)
theory Prelude
  imports Main "HOL-Library.Word" "HOL-Library.Multiset"
begin

text \<open>
  Shared vocabulary of the development: the machine types of the C++ code, the arithmetic
  of \<open>size_t\<close>, the theorem collections the component theories fill, and a few facts on
  lists and options that several components use.
\<close>

unbundle bit_operations_syntax

section \<open>Theorem collections\<close>

text \<open>
  \<open>step_defs\<close> collects the definitions of a component's operations, \<open>inv_intros\<close> the
  preservation lemmas of its invariant, \<open>codec_simps\<close> the reading equations of the
  serialisation components.
\<close>

named_theorems step_defs "definitions of the operations of a component"
named_theorems inv_intros "operations preserve the invariant"
named_theorems codec_simps "a reader applied to the output of its writer"

section \<open>Machine types\<close>

type_synonym u8 = "8 word"
type_synonym bytes = "u8 list"

text \<open>
  Object identities: a pointer to an operation or to a list node is modelled by a number.
\<close>

type_synonym ident = nat

section \<open>Arithmetic of an unsigned 64-bit size_t\<close>

definition size_max :: nat where
  "size_max = 2 ^ 64 - 1"

definition sz_add :: "nat \<Rightarrow> nat \<Rightarrow> nat" where
  "sz_add a b = (a + b) mod 2 ^ 64"

definition sz_sub :: "nat \<Rightarrow> nat \<Rightarrow> nat" where
  "sz_sub a b = (a + (2 ^ 64 - b)) mod 2 ^ 64"

definition sz_mul :: "nat \<Rightarrow> nat \<Rightarrow> nat" where
  "sz_mul a b = (a * b) mod 2 ^ 64"

lemma sz_add_exact [simp]: "a + b < 2 ^ 64 \<Longrightarrow> sz_add a b = a + b"
  by (simp add: sz_add_def)

lemma sz_add_less: "sz_add a b < 2 ^ 64"
  by (simp add: sz_add_def)

lemma sz_sub_exact [simp]:
  assumes "b \<le> a" and "a < 2 ^ 64"
  shows "sz_sub a b = a - b"
proof -
  have "a + (2 ^ 64 - b) = (a - b) + 2 ^ 64"
    using assms by simp
  then have "sz_sub a b = (a - b + 2 ^ 64) mod 2 ^ 64"
    by (simp add: sz_sub_def)
  also have "\<dots> = a - b"
    using assms by (simp only: mod_add_self2) simp
  finally show ?thesis .
qed

lemma sz_sub_less: "sz_sub a b < 2 ^ 64"
  by (simp add: sz_sub_def)

lemma sz_mul_exact [simp]: "a * b < 2 ^ 64 \<Longrightarrow> sz_mul a b = a * b"
  by (simp add: sz_mul_def)

section \<open>Lists and options\<close>

text \<open>The values of the present entries of a list of options, in order.\<close>

definition somes :: "'a option list \<Rightarrow> 'a list" where
  "somes xs = List.map_filter (\<lambda>x. x) xs"

lemma somes_simps [simp]:
  "somes [] = []"
  "somes (None # xs) = somes xs"
  "somes (Some x # xs) = x # somes xs"
  by (simp_all add: somes_def List.map_filter_simps)

lemma somes_append [simp]: "somes (xs @ ys) = somes xs @ somes ys"
  by (induction xs rule: list.induct) (auto simp: somes_def List.map_filter_def)

lemma set_somes [simp]: "x \<in> set (somes xs) \<longleftrightarrow> Some x \<in> set xs"
  by (induction xs) (auto simp: somes_def List.map_filter_def)

lemma somes_eq_Nil: "somes xs = [] \<longleftrightarrow> (\<forall>x \<in> set xs. x = None)"
  by (induction xs) (auto simp: somes_def List.map_filter_def)

lemma length_somes_le: "length (somes xs) \<le> length xs"
  by (auto simp: somes_def List.map_filter_def)

text \<open>The sum of a measure over a list in which one element changes.\<close>

lemma sum_list_update_nat:
  "i < length xs \<Longrightarrow> sum_list (map f (xs[i := x])) + f (xs ! i) = sum_list (map f xs) + (f x :: nat)"
proof (induction xs arbitrary: i)
  case Nil
  then show ?case by simp
next
  case (Cons y ys)
  then show ?case by (cases i) (auto simp: add.assoc add.left_commute)
qed

end
