(* ===== verification/Err.thy ===== *)
theory Err
  imports Prelude
begin

text \<open>
  The error vocabulary of the library: \<open>include/dsk/err.hpp\<close> (the enumeration
  \<open>errc\<close>, its category's messages, the queries on values that may hold an error) and
  \<open>include/dsk/expected.hpp\<close> (results that hold a value or an error).

  An \<open>errc\<close> variable of the code may also hold the value 0, written \<open>errc{}\<close>, which means
  "no error": such a variable is an \<open>errc option\<close> here. An \<open>expected<T, E>\<close> is the sum
  \<open>'e + 't\<close>, with the error on the left.
\<close>

section \<open>The error enumeration\<close>

datatype errc =
    errc_failed
  | errc_parse_failed
  | errc_bad_num_cast
  | errc_type_mismatch
  | errc_size_mismatch
  | errc_out_of_bound
  | errc_out_of_capacity
  | errc_end_reached
  | errc_not_found
  | errc_timeout
  | errc_file_exists
  | errc_canceled
  | errc_allocation_failed
  | errc_one_or_more_ops_failed
  | errc_one_or_more_cleanup_ops_failed
  | errc_resource_unavailable
  | errc_invalid_size
  | errc_invalid_input
  | errc_input_not_fully_consumed
  | errc_unknown_size
  | errc_unknown_exception
  | errc_unsupported_op
  | errc_unsupported_type
  | errc_none_err

text \<open>The enumerators in declaration order; the first has the value 1.\<close>

definition errc_list :: "errc list" where
  "errc_list =
     [errc_failed, errc_parse_failed, errc_bad_num_cast, errc_type_mismatch,
      errc_size_mismatch, errc_out_of_bound, errc_out_of_capacity, errc_end_reached,
      errc_not_found, errc_timeout, errc_file_exists, errc_canceled,
      errc_allocation_failed, errc_one_or_more_ops_failed,
      errc_one_or_more_cleanup_ops_failed, errc_resource_unavailable,
      errc_invalid_size, errc_invalid_input, errc_input_not_fully_consumed,
      errc_unknown_size, errc_unknown_exception, errc_unsupported_op,
      errc_unsupported_type, errc_none_err]"

fun errc_value :: "errc \<Rightarrow> u8" where
  "errc_value errc_failed = 1"
| "errc_value errc_parse_failed = 2"
| "errc_value errc_bad_num_cast = 3"
| "errc_value errc_type_mismatch = 4"
| "errc_value errc_size_mismatch = 5"
| "errc_value errc_out_of_bound = 6"
| "errc_value errc_out_of_capacity = 7"
| "errc_value errc_end_reached = 8"
| "errc_value errc_not_found = 9"
| "errc_value errc_timeout = 10"
| "errc_value errc_file_exists = 11"
| "errc_value errc_canceled = 12"
| "errc_value errc_allocation_failed = 13"
| "errc_value errc_one_or_more_ops_failed = 14"
| "errc_value errc_one_or_more_cleanup_ops_failed = 15"
| "errc_value errc_resource_unavailable = 16"
| "errc_value errc_invalid_size = 17"
| "errc_value errc_invalid_input = 18"
| "errc_value errc_input_not_fully_consumed = 19"
| "errc_value errc_unknown_size = 20"
| "errc_value errc_unknown_exception = 21"
| "errc_value errc_unsupported_op = 22"
| "errc_value errc_unsupported_type = 23"
| "errc_value errc_none_err = 24"

text \<open>\<open>static_cast<errc>(condition)\<close> of a code that some enumerator has.\<close>

definition errc_of_value :: "int \<Rightarrow> errc option" where
  "errc_of_value c = find (\<lambda>e. uint (errc_value e) = c) errc_list"

fun errc_message :: "errc \<Rightarrow> string" where
  "errc_message errc_failed = ''operation failed''"
| "errc_message errc_parse_failed = ''parse failed''"
| "errc_message errc_bad_num_cast = ''bad numeric cast''"
| "errc_message errc_type_mismatch = ''type mismatch''"
| "errc_message errc_size_mismatch = ''size mismatch''"
| "errc_message errc_out_of_bound = ''out of bound''"
| "errc_message errc_out_of_capacity = ''out of capacity''"
| "errc_message errc_end_reached = ''end reached''"
| "errc_message errc_not_found = ''not found''"
| "errc_message errc_timeout = ''operation timeout''"
| "errc_message errc_file_exists = ''file exists''"
| "errc_message errc_canceled = ''operation canceled''"
| "errc_message errc_allocation_failed = ''allocation failed''"
| "errc_message errc_one_or_more_ops_failed = ''one or more ops failed''"
| "errc_message errc_one_or_more_cleanup_ops_failed = ''one or more cleanup ops failed''"
| "errc_message errc_resource_unavailable = ''resource unavailable''"
| "errc_message errc_invalid_size = ''invalid size''"
| "errc_message errc_invalid_input = ''invalid input''"
| "errc_message errc_input_not_fully_consumed = ''input is not fully consumed''"
| "errc_message errc_unknown_size = ''unknown size''"
| "errc_message errc_unknown_exception = ''unknown exception''"
| "errc_message errc_unsupported_op = ''unsupported operation''"
| "errc_message errc_unsupported_type = ''unsupported type''"
| "errc_message errc_none_err = ''none error''"

text \<open>
  \<open>generic_err_category::message\<close>. The enumeration's underlying type is \<open>uint8_t\<close>, so
  \<open>static_cast<errc>(condition)\<close> keeps the low byte of the \<open>int\<close>.
\<close>

definition category_message :: "int \<Rightarrow> string" where
  "category_message condition =
     (case errc_of_value (condition mod 256) of
        Some e \<Rightarrow> errc_message e
      | None \<Rightarrow> ''undefined'')"

instantiation errc :: linorder
begin

definition less_eq_errc :: "errc \<Rightarrow> errc \<Rightarrow> bool" where
  "less_eq_errc a b \<longleftrightarrow> errc_value a \<le> errc_value b"

definition less_errc :: "errc \<Rightarrow> errc \<Rightarrow> bool" where
  "less_errc a b \<longleftrightarrow> errc_value a < errc_value b"

instance
proof
  fix x y z :: errc
  show "(x < y) = (x \<le> y \<and> \<not> y \<le> x)"
    by (auto simp: less_eq_errc_def less_errc_def)
  show "x \<le> x"
    by (simp add: less_eq_errc_def)
  show "x \<le> y \<Longrightarrow> y \<le> z \<Longrightarrow> x \<le> z"
    by (simp add: less_eq_errc_def)
  show "x \<le> y \<Longrightarrow> y \<le> x \<Longrightarrow> x = y"
    by (simp add: less_eq_errc_def, cases x; cases y; simp)
  show "x \<le> y \<or> y \<le> x"
    by (auto simp: less_eq_errc_def)
qed

end

section \<open>Values that may hold an error\<close>

text \<open>\<open>has_err\<close> and \<open>get_err\<close> on an \<open>errc\<close> and on an \<open>expected\<close>.\<close>

definition has_err_code :: "'e option \<Rightarrow> bool" where
  "has_err_code e = (e \<noteq> None)"

definition has_err :: "'e + 'a \<Rightarrow> bool" where
  "has_err r = (case r of Inl _ \<Rightarrow> True | Inr _ \<Rightarrow> False)"

text \<open>\<open>get_err\<close> asserts \<open>has_err\<close>: its result is present only then.\<close>

definition get_err :: "'e + 'a \<Rightarrow> 'e option" where
  "get_err r = (case r of Inl e \<Rightarrow> Some e | Inr _ \<Rightarrow> None)"

definition get_val :: "'e + 'a \<Rightarrow> 'a option" where
  "get_val r = (case r of Inl _ \<Rightarrow> None | Inr v \<Rightarrow> Some v)"

definition get_err_or_default :: "'e + 'a \<Rightarrow> 'e option" where
  "get_err_or_default r = (if has_err r then get_err r else None)"

definition is_err :: "'e + 'a \<Rightarrow> 'e \<Rightarrow> bool" where
  "is_err r e = (has_err r \<and> get_err r = Some e)"

definition is_oneof_errs :: "'e + 'a \<Rightarrow> 'e list \<Rightarrow> bool" where
  "is_oneof_errs r es =
     (if es \<noteq> [] \<and> has_err r then (\<exists>e \<in> set es. get_err r = Some e) else False)"

definition make_expected_if_no :: "'e option \<Rightarrow> 'a \<Rightarrow> 'e + 'a" where
  "make_expected_if_no err v = (case err of None \<Rightarrow> Inr v | Some e \<Rightarrow> Inl e)"

text \<open>The generator runs only when there is no error.\<close>

definition gen_expected_if_no :: "'e option \<Rightarrow> (unit \<Rightarrow> 'a) \<Rightarrow> 'e + 'a" where
  "gen_expected_if_no err gen = (if \<not> has_err_code err then Inr (gen ()) else Inl (the err))"

text \<open>
  \<open>DSK_E_TRY(v, r)\<close>: return the error of \<open>r\<close>, or go on with its value. \<open>DSK_E_TRY_ONLY\<close>
  on an \<open>errc\<close> goes on when there is none.
\<close>

fun e_try :: "'e + 'a \<Rightarrow> ('a \<Rightarrow> 'e + 'b) \<Rightarrow> 'e + 'b" where
  "e_try (Inl e) k = Inl e"
| "e_try (Inr v) k = k v"

fun e_try_only :: "'e option \<Rightarrow> 'e option \<Rightarrow> 'e option" where
  "e_try_only (Some e) k = Some e"
| "e_try_only None k = k"

text \<open>\<open>foreach_elms_until_err\<close>: apply \<open>f\<close> to the elements in order, up to the first error.\<close>

fun foreach_elms_until_err :: "('a \<Rightarrow> 'e option) \<Rightarrow> 'a list \<Rightarrow> 'e option" where
  "foreach_elms_until_err f [] = None"
| "foreach_elms_until_err f (x # xs) =
     (let e = f x in if has_err_code e then e else foreach_elms_until_err f xs)"

section \<open>Lemmas\<close>

lemma errc_list_complete: "e \<in> set errc_list"
  by (cases e) (simp_all add: errc_list_def)

lemma errc_value_inj: "errc_value a = errc_value b \<Longrightarrow> a = b"
  by (cases a; cases b; simp)

lemma errc_value_bounds: "1 \<le> uint (errc_value e) \<and> uint (errc_value e) \<le> 24"
  by (cases e) simp_all

lemma errc_of_value_value [simp]: "errc_of_value (uint (errc_value e)) = Some e"
  by (cases e) (simp_all add: errc_of_value_def errc_list_def)

lemma errc_of_value_Some: "errc_of_value c = Some e \<Longrightarrow> uint (errc_value e) = c"
  by (auto simp: errc_of_value_def find_Some_iff)

lemma errc_message_inj: "errc_message a = errc_message b \<Longrightarrow> a = b"
  by (cases a; cases b; simp)

lemma category_message_value [simp]:
  "category_message (uint (errc_value e)) = errc_message e"
proof -
  have "uint (errc_value e) mod 256 = uint (errc_value e)"
    using errc_value_bounds [of e] by simp
  then show ?thesis by (simp add: category_message_def)
qed

lemma has_err_simps [simp]:
  "has_err (Inl e)" "\<not> has_err (Inr v)"
  "has_err_code (Some e)" "\<not> has_err_code None"
  by (simp_all add: has_err_def has_err_code_def)

lemma get_err_simps [simp]:
  "get_err (Inl e) = Some e" "get_err (Inr v) = None"
  "get_val (Inl e) = None" "get_val (Inr v) = Some v"
  by (simp_all add: get_err_def get_val_def)

lemma has_err_iff: "has_err r \<longleftrightarrow> (\<exists>e. r = Inl e)"
  by (cases r) auto

lemma e_try_Inr: "e_try r k = Inr w \<longleftrightarrow> (\<exists>v. r = Inr v \<and> k v = Inr w)"
  by (cases r) auto

lemma e_try_assoc: "e_try (e_try r k) h = e_try r (\<lambda>v. e_try (k v) h)"
  by (cases r) auto

lemma foreach_elms_until_err_None:
  "foreach_elms_until_err f xs = None \<longleftrightarrow> (\<forall>x \<in> set xs. f x = None)"
  by (induction xs) (auto simp: Let_def has_err_code_def)

lemma foreach_elms_until_err_append:
  "foreach_elms_until_err f (xs @ ys) =
     e_try_only (foreach_elms_until_err f xs) (foreach_elms_until_err f ys)"
  by (induction xs) (auto simp: Let_def has_err_code_def)

end
