(* ===== verification/Waiter_Queue.thy ===== *)
theory Waiter_Queue
  imports Prelude
begin

text \<open>
  Queues of suspended operations, as \<open>include/dsk/res_queue.hpp\<close> (struct
  \<open>waiter_queue\<close>) and \<open>include/dsk/res_pool.hpp\<close> (\<open>_waiterQueue\<close>) keep them: a deque of
  pointers in which a cancelled operation leaves a null pointer behind, popped later.

  The locale \<open>waiter_fifo\<close> is the interface the two components rely on; its lemmas say that
  live waiters are served first come first served whatever is cancelled in between.
\<close>

section \<open>The interface\<close>

locale waiter_fifo =
  fixes add :: "'q \<Rightarrow> ident \<Rightarrow> 'q"
    and take_oldest :: "'q \<Rightarrow> ident option \<times> 'q"
    and erase :: "'q \<Rightarrow> ident \<Rightarrow> bool \<times> 'q"
    and live :: "'q \<Rightarrow> ident list"
    and empty :: "'q \<Rightarrow> bool"
  assumes live_add: "live (add q w) = live q @ [w]"
    and take_oldest_first:
      "fst (take_oldest q) = (case live q of [] \<Rightarrow> None | w # ws \<Rightarrow> Some w)"
    and take_oldest_rest: "live (snd (take_oldest q)) = tl (live q)"
    and take_oldest_exhausts: "fst (take_oldest q) = None \<Longrightarrow> empty (snd (take_oldest q))"
    and erase_found: "fst (erase q w) \<longleftrightarrow> w \<in> set (live q)"
    and erase_live: "live (snd (erase q w)) = remove1 w (live q)"
    and empty_live: "empty q \<Longrightarrow> live q = []"
begin

lemma take_oldest_None_iff: "fst (take_oldest q) = None \<longleftrightarrow> live q = []"
  by (simp add: take_oldest_first split: list.splits)

lemma take_oldest_SomeD:
  "take_oldest q = (Some w, q') \<Longrightarrow> live q = w # live q'"
  using take_oldest_first [of q] take_oldest_rest [of q] by (auto split: list.splits)

lemma take_oldest_NoneD:
  "take_oldest q = (None, q') \<Longrightarrow> live q = [] \<and> live q' = [] \<and> empty q'"
  using take_oldest_first [of q] take_oldest_rest [of q] take_oldest_exhausts [of q]
  by (auto split: list.splits)

lemma take_oldest_distinct:
  "distinct (live q) \<Longrightarrow> take_oldest q = (Some w, q') \<Longrightarrow> w \<notin> set (live q') \<and> distinct (live q')"
  by (drule take_oldest_SomeD) simp

lemma take_oldest_subset: "set (live (snd (take_oldest q))) \<subseteq> set (live q)"
  by (simp add: take_oldest_rest) (cases "live q"; auto)

lemma erase_subset: "set (live (snd (erase q w))) \<subseteq> set (live q)"
  by (simp add: erase_live set_remove1_subset)

lemma erase_gone: "distinct (live q) \<Longrightarrow> w \<notin> set (live (snd (erase q w)))"
  by (simp add: erase_live)

text \<open>Taking repeatedly yields the oldest live waiters in the order they were added.\<close>

primrec take_n :: "nat \<Rightarrow> 'q \<Rightarrow> ident list \<times> 'q" where
  "take_n 0 q = ([], q)"
| "take_n (Suc n) q =
     (case take_oldest q of
        (None, q') \<Rightarrow> ([], q')
      | (Some w, q') \<Rightarrow> (case take_n n q' of (ws, q'') \<Rightarrow> (w # ws, q'')))"

lemma take_n_serves: "fst (take_n n q) = take n (live q) \<and> live (snd (take_n n q)) = drop n (live q)"
proof (induction n arbitrary: q)
  case 0
  then show ?case by simp
next
  case (Suc n)
  show ?case
  proof (cases "take_oldest q")
    case (Pair w q')
    then show ?thesis
      using Suc.IH [of q'] by (cases w) (auto dest: take_oldest_SomeD take_oldest_NoneD split: prod.splits)
  qed
qed

end

section \<open>The deque of res_queue\<close>

type_synonym waiter_deque = "ident option list"

text \<open>\<open>waiter_queue::add\<close>\<close>

definition wq_add :: "waiter_deque \<Rightarrow> ident \<Rightarrow> waiter_deque" where
  "wq_add q w = q @ [Some w]"

text \<open>The loop of \<open>take_oldest\<close>: drop the items marked as deleted, then pop the front.\<close>

fun wq_take_oldest :: "waiter_deque \<Rightarrow> ident option \<times> waiter_deque" where
  "wq_take_oldest [] = (None, [])"
| "wq_take_oldest (None # q) = wq_take_oldest q"
| "wq_take_oldest (Some w # q) = (Some w, q)"

text \<open>\<open>waiter_queue::take_all\<close>: the whole deque, null pointers included.\<close>

definition wq_take_all :: "waiter_deque \<Rightarrow> ident option list \<times> waiter_deque" where
  "wq_take_all q = (q, [])"

text \<open>\<open>waiter_queue::erase\<close>: the first matching item becomes a null pointer.\<close>

fun wq_erase :: "waiter_deque \<Rightarrow> ident \<Rightarrow> bool \<times> waiter_deque" where
  "wq_erase [] w = (False, [])"
| "wq_erase (x # q) w =
     (if x = Some w then (True, None # q)
      else (case wq_erase q w of (found, q') \<Rightarrow> (found, x # q')))"

definition wq_empty :: "waiter_deque \<Rightarrow> bool" where
  "wq_empty q = (q = [])"

lemma wq_take_oldest_cases:
  "wq_take_oldest q = (case somes q of [] \<Rightarrow> (None, []) | w # ws \<Rightarrow> (Some w, snd (wq_take_oldest q)))"
  by (induction q rule: wq_take_oldest.induct) (auto split: list.splits)

lemma wq_take_oldest_live: "somes (snd (wq_take_oldest q)) = tl (somes q)"
  by (induction q rule: wq_take_oldest.induct) auto

lemma wq_erase_found: "fst (wq_erase q w) \<longleftrightarrow> w \<in> set (somes q)"
  by (induction q w rule: wq_erase.induct) (auto split: prod.splits)

lemma wq_erase_live: "somes (snd (wq_erase q w)) = remove1 w (somes q)"
proof (induction q w rule: wq_erase.induct)
  case (1 w)
  then show ?case by simp
next
  case (2 x q w)
  then show ?case by (cases x) (auto split: prod.splits)
qed

interpretation wq: waiter_fifo wq_add wq_take_oldest wq_erase somes wq_empty
proof unfold_locales
  fix q :: waiter_deque and w :: ident
  show "somes (wq_add q w) = somes q @ [w]"
    by (simp add: wq_add_def)
  show "fst (wq_take_oldest q) = (case somes q of [] \<Rightarrow> None | w # ws \<Rightarrow> Some w)"
    by (subst wq_take_oldest_cases) (simp split: list.splits)
  show "somes (snd (wq_take_oldest q)) = tl (somes q)"
    by (rule wq_take_oldest_live)
  show "fst (wq_take_oldest q) = None \<Longrightarrow> wq_empty (snd (wq_take_oldest q))"
    by (induction q rule: wq_take_oldest.induct) (auto simp: wq_empty_def)
  show "fst (wq_erase q w) \<longleftrightarrow> w \<in> set (somes q)"
    by (rule wq_erase_found)
  show "somes (snd (wq_erase q w)) = remove1 w (somes q)"
    by (rule wq_erase_live)
  show "wq_empty q \<Longrightarrow> somes q = []"
    by (simp add: wq_empty_def)
qed

text \<open>Erasing keeps the deque's length: what is cancelled stays as a null pointer.\<close>

lemma wq_erase_length: "length (snd (wq_erase q w)) = length q"
  by (induction q w rule: wq_erase.induct) (auto split: prod.splits)

lemma wq_erase_Nil_iff: "snd (wq_erase q w) = [] \<longleftrightarrow> q = []"
  using wq_erase_length [of q w] by (metis length_0_conv)

lemma wq_take_oldest_length: "length (snd (wq_take_oldest q)) \<le> length q"
  by (induction q rule: wq_take_oldest.induct) auto

lemma wq_take_oldest_shorter: "wq_take_oldest q = (Some w, q') \<Longrightarrow> length q' < length q"
  by (induction q rule: wq_take_oldest.induct) auto

lemma wq_take_oldest_set: "set (snd (wq_take_oldest q)) \<subseteq> set q"
  by (induction q rule: wq_take_oldest.induct) auto

text \<open>What erasing changes, as multisets.\<close>

lemma wq_erase_none: "w \<notin> set (somes q) \<Longrightarrow> wq_erase q w = (False, q)"
  by (induction q w rule: wq_erase.induct) auto

lemma wq_erase_takes:
  assumes "wq_erase q w = (True, q')"
  shows "mset (somes q) = add_mset w (mset (somes q'))"
    and "set (somes q') \<subseteq> set (somes q)" and "w \<in> set (somes q)" and "q' = [] \<longleftrightarrow> q = []"
proof -
  have w: "w \<in> set (somes q)"
    using assms wq_erase_found [of q w] by simp
  moreover have l: "somes q' = remove1 w (somes q)"
    using assms wq_erase_live [of q w] by simp
  ultimately show "mset (somes q) = add_mset w (mset (somes q'))"
    by (simp del: set_somes)
  show "set (somes q') \<subseteq> set (somes q)"
    unfolding l by (rule set_remove1_subset)
  show "w \<in> set (somes q)" by (rule w)
  show "q' = [] \<longleftrightarrow> q = []"
    using assms wq_erase_Nil_iff [of q w] by simp
qed

end
