(* ===== verification/Res_Queue.thy ===== *)
theory Res_Queue
  imports Err Waiter_Queue
begin

text \<open>
  The bounded asynchronous queue of \<open>include/dsk/res_queue.hpp\<close>. Every public operation and
  the start (\<open>initiate\<close>) and stop callback of the two asynchronous operations are functions on
  the state of the queue together with the operation objects it points to. Each holds
  \<open>_mtx\<close> for its whole state change, so an execution is a sequence of these functions.

  \<open>rq_ok\<close> records whether every \<open>DSK_ASSERT\<close> passed so far held; \<open>rq_resumed\<close> is the list of
  operations whose continuation was resumed, in order.
\<close>

section \<open>State\<close>

text \<open>An \<open>async_enqueue_op\<close>: its value, its result \<open>_r\<close>, whether a stop callback is set.\<close>

record 'v enq_op =
  e_v :: 'v
  e_r :: "(errc + unit) option"
  e_scb :: bool

record 'v deq_op =
  d_r :: "(errc + 'v) option"
  d_scb :: bool

datatype waiter_ref = Enq ident | Deq ident

record res_queue_stats =
  enqueueTotal :: nat
  enqueueWait :: nat
  dequeueTotal :: nat
  dequeueWait :: nat

definition stats_reset :: res_queue_stats where
  "stats_reset = \<lparr>enqueueTotal = 0, enqueueWait = 0, dequeueTotal = 0, dequeueWait = 0\<rparr>"

text \<open>\<open>enqueue_no_wait\<close> and \<open>dequeue_no_wait\<close>: an unsigned subtraction, then a double.\<close>

definition enqueue_no_wait :: "res_queue_stats \<Rightarrow> nat" where
  "enqueue_no_wait st = sz_sub (enqueueTotal st) (enqueueWait st)"

definition dequeue_no_wait :: "res_queue_stats \<Rightarrow> nat" where
  "dequeue_no_wait st = sz_sub (dequeueTotal st) (dequeueWait st)"

record 'v res_queue =
  rq_cap :: nat
  rq_endMarked :: bool
  rq_res :: "'v list"
  rq_enqW :: waiter_deque
  rq_deqW :: waiter_deque
  rq_stats :: res_queue_stats
  rq_enqs :: "ident \<rightharpoonup> 'v enq_op"
  rq_deqs :: "ident \<rightharpoonup> 'v deq_op"
  rq_resumed :: "waiter_ref list"
  rq_ok :: bool

definition rq_new :: "nat \<Rightarrow> 'v res_queue" where
  "rq_new cap =
     \<lparr>rq_cap = cap, rq_endMarked = False, rq_res = [], rq_enqW = [], rq_deqW = [],
      rq_stats = stats_reset, rq_enqs = Map.empty, rq_deqs = Map.empty, rq_resumed = [],
      rq_ok = (cap > 0)\<rparr>"

definition rq_assert :: "bool \<Rightarrow> 'v res_queue \<Rightarrow> 'v res_queue" where
  "rq_assert P s = s\<lparr>rq_ok := rq_ok s \<and> P\<rparr>"

text \<open>\<open>integrity_assert_no_lock\<close>: one of the two waiter deques is empty.\<close>

definition rq_integrity :: "'v res_queue \<Rightarrow> 'v res_queue" where
  "rq_integrity s =
     rq_assert (if rq_res s = [] then rq_enqW s = [] else rq_deqW s = []) s"

section \<open>Operation objects\<close>

definition enq_set_r :: "ident \<Rightarrow> errc + unit \<Rightarrow> 'v res_queue \<Rightarrow> 'v res_queue" where
  "enq_set_r i r s =
     s\<lparr>rq_enqs := (rq_enqs s)(i := map_option (\<lambda>o'. o'\<lparr>e_r := Some r\<rparr>) (rq_enqs s i))\<rparr>"

definition deq_set_r :: "ident \<Rightarrow> errc + 'v \<Rightarrow> 'v res_queue \<Rightarrow> 'v res_queue" where
  "deq_set_r i r s =
     s\<lparr>rq_deqs := (rq_deqs s)(i := map_option (\<lambda>o'. o'\<lparr>d_r := Some r\<rparr>) (rq_deqs s i))\<rparr>"

definition rq_resume :: "waiter_ref \<Rightarrow> 'v res_queue \<Rightarrow> 'v res_queue" where
  "rq_resume w s = s\<lparr>rq_resumed := rq_resumed s @ [w]\<rparr>"

definition enq_pending :: "ident \<Rightarrow> 'v res_queue \<Rightarrow> bool" where
  "enq_pending i s = (case rq_enqs s i of None \<Rightarrow> False | Some o' \<Rightarrow> e_r o' = None)"

definition deq_pending :: "ident \<Rightarrow> 'v res_queue \<Rightarrow> bool" where
  "deq_pending i s = (case rq_deqs s i of None \<Rightarrow> False | Some o' \<Rightarrow> d_r o' = None)"

lemma enq_pending_iff: "enq_pending i s \<longleftrightarrow> (\<exists>o'. rq_enqs s i = Some o' \<and> e_r o' = None)"
  by (auto simp: enq_pending_def split: option.splits)

lemma deq_pending_iff: "deq_pending i s \<longleftrightarrow> (\<exists>o'. rq_deqs s i = Some o' \<and> d_r o' = None)"
  by (auto simp: deq_pending_def split: option.splits)

text \<open>\<open>complete\<close> and \<open>complete_with_err\<close>: assert \<open>! _r\<close>, set the result, resume.\<close>

definition enq_finish :: "ident \<Rightarrow> errc + unit \<Rightarrow> 'v res_queue \<Rightarrow> 'v res_queue" where
  "enq_finish i r s = rq_resume (Enq i) (enq_set_r i r (rq_assert (enq_pending i s) s))"

definition deq_finish :: "ident \<Rightarrow> errc + 'v \<Rightarrow> 'v res_queue \<Rightarrow> 'v res_queue" where
  "deq_finish i r s = rq_resume (Deq i) (deq_set_r i r (rq_assert (deq_pending i s) s))"

definition enq_value :: "ident \<Rightarrow> 'v res_queue \<Rightarrow> 'v" where
  "enq_value i s = e_v (the (rq_enqs s i))"

section \<open>Operations under the lock\<close>

definition stat_enqueue :: "'v res_queue \<Rightarrow> 'v res_queue" where
  "stat_enqueue s = s\<lparr>rq_stats := (rq_stats s)\<lparr>enqueueTotal := sz_add (enqueueTotal (rq_stats s)) 1\<rparr>\<rparr>"

definition stat_enqueue_wait :: "'v res_queue \<Rightarrow> 'v res_queue" where
  "stat_enqueue_wait s = s\<lparr>rq_stats := (rq_stats s)\<lparr>enqueueWait := sz_add (enqueueWait (rq_stats s)) 1\<rparr>\<rparr>"

definition stat_dequeue :: "'v res_queue \<Rightarrow> 'v res_queue" where
  "stat_dequeue s = s\<lparr>rq_stats := (rq_stats s)\<lparr>dequeueTotal := sz_add (dequeueTotal (rq_stats s)) 1\<rparr>\<rparr>"

definition stat_dequeue_wait :: "'v res_queue \<Rightarrow> 'v res_queue" where
  "stat_dequeue_wait s = s\<lparr>rq_stats := (rq_stats s)\<lparr>dequeueWait := sz_add (dequeueWait (rq_stats s)) 1\<rparr>\<rparr>"

definition try_enqueue_no_lock :: "'v \<Rightarrow> 'v res_queue \<Rightarrow> (errc + ident option) \<times> 'v res_queue" where
  "try_enqueue_no_lock v s0 =
     (let s = rq_integrity s0 in
      if rq_endMarked s then (Inl errc_end_reached, s)
      else
        (let s = stat_enqueue s in
         if length (rq_res s) \<ge> rq_cap s then (Inl errc_out_of_capacity, stat_enqueue_wait s)
         else
           (case wq_take_oldest (rq_deqW s) of
              (Some w, q) \<Rightarrow> (Inr (Some w), s\<lparr>rq_deqW := q\<rparr>)
            | (None, q) \<Rightarrow> (Inr None, s\<lparr>rq_deqW := q, rq_res := rq_res s @ [v]\<rparr>))))"

definition try_dequeue_no_lock :: "'v res_queue \<Rightarrow> (errc + ident option \<times> 'v) \<times> 'v res_queue" where
  "try_dequeue_no_lock s0 =
     (let s = stat_dequeue (rq_integrity s0) in
      case rq_res s of
        [] \<Rightarrow> (Inl (if rq_endMarked s then errc_end_reached else errc_resource_unavailable),
               stat_dequeue_wait s)
      | v # vs \<Rightarrow>
          (case wq_take_oldest (rq_enqW s) of
             (Some w, q) \<Rightarrow>
               (Inr (Some w, v), s\<lparr>rq_enqW := q, rq_res := vs @ [enq_value w s]\<rparr>)
           | (None, q) \<Rightarrow> (Inr (None, v), s\<lparr>rq_enqW := q, rq_res := vs\<rparr>)))"

section \<open>The asynchronous operations\<close>

text \<open>
  \<open>initiate\<close> of an enqueue: \<open>False\<close> when the operation finished at once, \<open>True\<close> when it
  waits. \<open>stopReq\<close> and \<open>stopPoss\<close> are \<open>stop_requested(ctx)\<close> and \<open>stop_possible(ctx)\<close>.
\<close>

definition enq_initiate :: "ident \<Rightarrow> bool \<Rightarrow> bool \<Rightarrow> 'v res_queue \<Rightarrow> bool \<times> 'v res_queue" where
  "enq_initiate i stopReq stopPoss s0 =
     (let s = rq_assert (enq_pending i s0) s0 in
      if stopReq then (False, enq_set_r i (Inl errc_canceled) s)
      else
        (case try_enqueue_no_lock (enq_value i s) s of
           (Inr w, s) \<Rightarrow>
             (False, enq_set_r i (Inr ())
                (case w of None \<Rightarrow> s | Some d \<Rightarrow> deq_finish d (Inr (enq_value i s)) s))
         | (Inl e, s) \<Rightarrow>
             if e \<noteq> errc_out_of_capacity then (False, enq_set_r i (Inl e) s)
             else
               (True, s\<lparr>rq_enqs := (rq_enqs s)(i := map_option (\<lambda>o'. o'\<lparr>e_scb := stopPoss\<rparr>) (rq_enqs s i)),
                        rq_enqW := wq_add (rq_enqW s) i\<rparr>)))"

definition deq_initiate :: "ident \<Rightarrow> bool \<Rightarrow> bool \<Rightarrow> 'v res_queue \<Rightarrow> bool \<times> 'v res_queue" where
  "deq_initiate i stopReq stopPoss s0 =
     (let s = rq_assert (deq_pending i s0) s0 in
      if stopReq then (False, deq_set_r i (Inl errc_canceled) s)
      else
        (case try_dequeue_no_lock s of
           (Inr (w, v), s) \<Rightarrow>
             (False, deq_set_r i (Inr v)
                (case w of None \<Rightarrow> s | Some e \<Rightarrow> enq_finish e (Inr ()) s))
         | (Inl e, s) \<Rightarrow>
             if e \<noteq> errc_resource_unavailable then (False, deq_set_r i (Inl e) s)
             else
               (True, s\<lparr>rq_deqs := (rq_deqs s)(i := map_option (\<lambda>o'. o'\<lparr>d_scb := stopPoss\<rparr>) (rq_deqs s i)),
                        rq_deqW := wq_add (rq_deqW s) i\<rparr>)))"

text \<open>The stop callbacks: erase the operation from its waiters; if it was there, cancel it.\<close>

definition enq_cancel :: "ident \<Rightarrow> 'v res_queue \<Rightarrow> 'v res_queue" where
  "enq_cancel i s =
     (case wq_erase (rq_enqW s) i of
        (found, q) \<Rightarrow>
          if found then enq_finish i (Inl errc_canceled) (s\<lparr>rq_enqW := q\<rparr>) else s\<lparr>rq_enqW := q\<rparr>)"

definition deq_cancel :: "ident \<Rightarrow> 'v res_queue \<Rightarrow> 'v res_queue" where
  "deq_cancel i s =
     (case wq_erase (rq_deqW s) i of
        (found, q) \<Rightarrow>
          if found then deq_finish i (Inl errc_canceled) (s\<lparr>rq_deqW := q\<rparr>) else s\<lparr>rq_deqW := q\<rparr>)"

section \<open>The synchronous operations\<close>

definition rq_capacity :: "'v res_queue \<Rightarrow> nat" where
  "rq_capacity s = rq_cap s"

definition rq_increase_capacity :: "nat \<Rightarrow> 'v res_queue \<Rightarrow> 'v res_queue" where
  "rq_increase_capacity n s =
     (let s = rq_assert (sz_sub size_max (rq_cap s) \<ge> n) s
      in s\<lparr>rq_cap := sz_add (rq_cap s) n\<rparr>)"

definition rq_clear :: "'v res_queue \<Rightarrow> 'v res_queue" where
  "rq_clear s = s\<lparr>rq_res := []\<rparr>"

text \<open>\<open>mark_end\<close>: the first call resumes every dequeue waiter with \<open>end_reached\<close>.\<close>

fun finish_all_deq :: "ident option list \<Rightarrow> 'v res_queue \<Rightarrow> 'v res_queue" where
  "finish_all_deq [] s = s"
| "finish_all_deq (None # ws) s = finish_all_deq ws s"
| "finish_all_deq (Some w # ws) s = finish_all_deq ws (deq_finish w (Inl errc_end_reached) s)"

definition rq_mark_end :: "'v res_queue \<Rightarrow> bool \<times> 'v res_queue" where
  "rq_mark_end s0 =
     (let s = rq_integrity s0 in
      if \<not> rq_endMarked s
      then (case wq_take_all (rq_deqW s) of
              (ws, q) \<Rightarrow> (True, finish_all_deq ws (s\<lparr>rq_endMarked := True, rq_deqW := q\<rparr>)))
      else (False, s))"

definition rq_clear_end_mark :: "'v res_queue \<Rightarrow> 'v res_queue" where
  "rq_clear_end_mark s = s\<lparr>rq_endMarked := False\<rparr>"

definition rq_try_enqueue :: "'v \<Rightarrow> 'v res_queue \<Rightarrow> errc option \<times> 'v res_queue" where
  "rq_try_enqueue v s0 =
     (case try_enqueue_no_lock v s0 of
        (Inl e, s) \<Rightarrow> (Some e, s)
      | (Inr w, s) \<Rightarrow> (None, (case w of None \<Rightarrow> s | Some d \<Rightarrow> deq_finish d (Inr v) s)))"

definition rq_try_dequeue :: "'v res_queue \<Rightarrow> (errc + 'v) \<times> 'v res_queue" where
  "rq_try_dequeue s0 =
     (case try_dequeue_no_lock s0 of
        (Inl e, s) \<Rightarrow> (Inl e, s)
      | (Inr (w, v), s) \<Rightarrow> (Inr v, (case w of None \<Rightarrow> s | Some e \<Rightarrow> enq_finish e (Inr ()) s)))"

text \<open>
  \<open>force_enqueue_range\<close> hands the front items to the oldest waiters until either runs out.
  The range is not empty, so the queue never is when \<open>front()\<close> is taken.
\<close>

fun hand_out :: "waiter_deque \<Rightarrow> 'v list \<Rightarrow> (ident \<times> 'v) list \<times> waiter_deque \<times> 'v list" where
  "hand_out q [] = ([], q, [])"
| "hand_out q (v # vs) =
     (case wq_take_oldest q of
        (None, q') \<Rightarrow> ([], q', v # vs)
      | (Some w, q') \<Rightarrow>
          if vs = [] then ([(w, v)], q', [])
          else (case hand_out q' vs of (ws, q'', rs) \<Rightarrow> ((w, v) # ws, q'', rs)))"

fun finish_all_values :: "(ident \<times> 'v) list \<Rightarrow> 'v res_queue \<Rightarrow> 'v res_queue" where
  "finish_all_values [] s = s"
| "finish_all_values ((w, v) # ws) s = finish_all_values ws (deq_finish w (Inr v) s)"

definition rq_force_enqueue_range :: "'v list \<Rightarrow> 'v res_queue \<Rightarrow> errc option \<times> 'v res_queue" where
  "rq_force_enqueue_range r s0 =
     (if r = [] then (None, s0)
      else
        (let s = rq_integrity s0 in
         if rq_endMarked s then (Some errc_end_reached, s)
         else
           (let s = stat_enqueue s in
            case hand_out (rq_deqW s) (rq_res s @ r) of
              (ws, q, rs) \<Rightarrow>
                (None, finish_all_values ws (s\<lparr>rq_deqW := q, rq_res := rs\<rparr>)))))"

text \<open>
  \<open>force_dequeue_all\<close> moves all items out, then refills from the enqueue waiters up to the
  capacity.
\<close>

function refill :: "nat \<Rightarrow> (ident \<Rightarrow> 'v) \<Rightarrow> waiter_deque \<Rightarrow> 'v list \<Rightarrow> ident list \<times> waiter_deque \<times> 'v list" where
  "refill cap val q rs =
     (case wq_take_oldest q of
        (None, q') \<Rightarrow> ([], q', rs)
      | (Some w, q') \<Rightarrow>
          if length (rs @ [val w]) \<ge> cap then ([w], q', rs @ [val w])
          else (case refill cap val q' (rs @ [val w]) of (ws, q'', rs') \<Rightarrow> (w # ws, q'', rs')))"
  by pat_completeness auto
termination
  by (relation "measure (\<lambda>(cap, val, q, rs). length q)")
    (auto dest: wq_take_oldest_shorter [OF sym])

declare refill.simps [simp del]

fun finish_all_enq :: "ident list \<Rightarrow> 'v res_queue \<Rightarrow> 'v res_queue" where
  "finish_all_enq [] s = s"
| "finish_all_enq (w # ws) s = finish_all_enq ws (enq_finish w (Inr ()) s)"

definition rq_force_dequeue_all :: "'v res_queue \<Rightarrow> (errc + 'v list) \<times> 'v res_queue" where
  "rq_force_dequeue_all s0 =
     (let s = rq_integrity s0 in
      if rq_res s = []
      then ((if rq_endMarked s then Inl errc_end_reached else Inr []), s)
      else
        (let s = stat_dequeue s; out = rq_res s in
         case refill (rq_cap s) (\<lambda>w. enq_value w s) (rq_enqW s) [] of
           (ws, q, rs) \<Rightarrow> (Inr out, finish_all_enq ws (s\<lparr>rq_enqW := q, rq_res := rs\<rparr>))))"


section \<open>What the operations change\<close>

lemma rq_integrity_id:
  assumes "rq_ok s" and "rq_res s = [] \<Longrightarrow> rq_enqW s = []" and "rq_res s \<noteq> [] \<Longrightarrow> rq_deqW s = []"
  shows "rq_integrity s = s"
  using assms by (simp add: rq_integrity_def rq_assert_def)

lemma enq_finish_fields [simp]:
  "rq_cap (enq_finish i r s) = rq_cap s" "rq_endMarked (enq_finish i r s) = rq_endMarked s"
  "rq_res (enq_finish i r s) = rq_res s" "rq_enqW (enq_finish i r s) = rq_enqW s"
  "rq_deqW (enq_finish i r s) = rq_deqW s" "rq_deqs (enq_finish i r s) = rq_deqs s"
  "rq_resumed (enq_finish i r s) = rq_resumed s @ [Enq i]"
  "rq_ok (enq_finish i r s) \<longleftrightarrow> rq_ok s \<and> enq_pending i s"
  "rq_stats (enq_finish i r s) = rq_stats s"
  by (simp_all add: enq_finish_def rq_resume_def enq_set_r_def rq_assert_def enq_pending_iff)

lemma deq_finish_fields [simp]:
  "rq_cap (deq_finish i r s) = rq_cap s" "rq_endMarked (deq_finish i r s) = rq_endMarked s"
  "rq_res (deq_finish i r s) = rq_res s" "rq_enqW (deq_finish i r s) = rq_enqW s"
  "rq_deqW (deq_finish i r s) = rq_deqW s" "rq_enqs (deq_finish i r s) = rq_enqs s"
  "rq_resumed (deq_finish i r s) = rq_resumed s @ [Deq i]"
  "rq_ok (deq_finish i r s) \<longleftrightarrow> rq_ok s \<and> deq_pending i s"
  "rq_stats (deq_finish i r s) = rq_stats s"
  by (simp_all add: deq_finish_def rq_resume_def deq_set_r_def rq_assert_def deq_pending_iff)

lemma enq_finish_pending [simp]:
  "enq_pending j (enq_finish i r s) \<longleftrightarrow> j \<noteq> i \<and> enq_pending j s"
  "deq_pending j (enq_finish i r s) = deq_pending j s"
  "dom (rq_enqs (enq_finish i r s)) = dom (rq_enqs s)"
  by (auto simp: enq_finish_def rq_resume_def enq_set_r_def rq_assert_def enq_pending_iff deq_pending_iff
      split: if_splits)

lemma deq_finish_pending [simp]:
  "deq_pending j (deq_finish i r s) \<longleftrightarrow> j \<noteq> i \<and> deq_pending j s"
  "enq_pending j (deq_finish i r s) = enq_pending j s"
  "dom (rq_deqs (deq_finish i r s)) = dom (rq_deqs s)"
  by (auto simp: deq_finish_def rq_resume_def deq_set_r_def rq_assert_def enq_pending_iff deq_pending_iff
      split: if_splits)

lemma enq_finish_value [simp]:
  "enq_value j (enq_finish i r s) = enq_value j s"
  "enq_value j (deq_finish i r' s) = enq_value j s"
  "enq_value j (enq_set_r i r s) = enq_value j s"
  "enq_value j (deq_set_r i r' s) = enq_value j s"
  by (auto simp: enq_finish_def deq_finish_def rq_resume_def enq_set_r_def deq_set_r_def rq_assert_def
      enq_value_def map_option_case split: option.splits)

lemma hand_out_spec:
  assumes "hand_out q vs = (ws, q', rs)"
  shows "somes q = map fst ws @ somes q' \<and> vs = map snd ws @ rs \<and> (rs \<noteq> [] \<longrightarrow> q' = [])"
  using assms
proof (induction q vs arbitrary: ws q' rs rule: hand_out.induct)
  case (1 q)
  then show ?case by simp
next
  case (2 q v vs)
  obtain w q1 where t: "wq_take_oldest q = (w, q1)"
    by fastforce
  show ?case
  proof (cases w)
    case None
    then have "somes q = [] \<and> somes q1 = [] \<and> q1 = []"
      using wq.take_oldest_NoneD [of q q1] t by (simp add: wq_empty_def)
    then show ?thesis
      using 2(2) None t by auto
  next
    case (Some i)
    then have l: "somes q = i # somes q1"
      using wq.take_oldest_SomeD [of q i q1] t by simp
    obtain ws1 q2 rs1 where h: "hand_out q1 vs = (ws1, q2, rs1)"
      by (metis prod_cases3)
    show ?thesis
    proof (cases "vs = []")
      case True
      then show ?thesis
        using 2(2) Some t l by auto
    next
      case False
      then show ?thesis
        using 2(2) Some t l h 2(1) [OF t [symmetric] Some False h] by auto
    qed
  qed
qed

lemma refill_spec:
  assumes "refill cap val q rs = (ws, q', rs')"
  shows "somes q = ws @ somes q' \<and> rs' = rs @ map val ws \<and> (q' = [] \<or> (ws \<noteq> [] \<and> cap \<le> length rs'))"
  using assms
proof (induction cap val q rs arbitrary: ws q' rs' rule: refill.induct)
  case (1 cap val q rs)
  obtain w q1 where t: "wq_take_oldest q = (w, q1)"
    by fastforce
  show ?case
  proof (cases w)
    case None
    then have n: "somes q = [] \<and> q1 = []"
      using wq.take_oldest_NoneD [of q q1] t by (simp add: wq_empty_def)
    then show ?thesis
      using 1(2) None t by (subst (asm) refill.simps) auto
  next
    case (Some i)
    then have l: "somes q = i # somes q1"
      using wq.take_oldest_SomeD [of q i q1] t by simp
    obtain ws1 q2 rs1 where h: "refill cap val q1 (rs @ [val i]) = (ws1, q2, rs1)"
      by (metis prod_cases3)
    show ?thesis
    proof (cases "length (rs @ [val i]) \<ge> cap")
      case True
      then show ?thesis
        using 1(2) Some t l by (subst (asm) refill.simps) auto
    next
      case False
      have IH: "somes q1 = ws1 @ somes q2 \<and> rs1 = (rs @ [val i]) @ map val ws1 \<and>
          (q2 = [] \<or> (ws1 \<noteq> [] \<and> cap \<le> length rs1))"
        by (rule 1(1) [OF t [symmetric] Some False h])
      show ?thesis
        using 1(2) Some t l h IH False by (subst (asm) refill.simps) auto
    qed
  qed
qed

section \<open>The invariant\<close>

text \<open>
  \<open>P\<close> lists the operations that were parked so far; \<open>E\<close> and \<open>D\<close> are the waiters that a
  locked section has taken from the deques and whose \<open>complete\<close> is still to be called, which the
  code does after it has released the mutex.
\<close>

definition rq_inv :: "'v res_queue \<Rightarrow> waiter_ref list \<Rightarrow> ident list \<Rightarrow> ident list \<Rightarrow> bool" where
  "rq_inv s P E D \<longleftrightarrow>
     rq_ok s \<and> 0 < rq_cap s \<and>
     (rq_res s = [] \<longrightarrow> rq_enqW s = []) \<and> (rq_res s \<noteq> [] \<longrightarrow> rq_deqW s = []) \<and>
     (rq_endMarked s \<longrightarrow> rq_deqW s = []) \<and>
     distinct P \<and>
     mset P = mset (rq_resumed s) + mset (map Enq (E @ somes (rq_enqW s)))
                + mset (map Deq (D @ somes (rq_deqW s))) \<and>
     (\<forall>i \<in> set (E @ somes (rq_enqW s)). enq_pending i s) \<and>
     (\<forall>i \<in> set (D @ somes (rq_deqW s)). deq_pending i s) \<and>
     (\<forall>i. Enq i \<in> set P \<longrightarrow> i \<in> dom (rq_enqs s)) \<and>
     (\<forall>i. Deq i \<in> set P \<longrightarrow> i \<in> dom (rq_deqs s))"

lemma rq_inv_integrity: "rq_inv s P E D \<Longrightarrow> rq_integrity s = s"
  by (rule rq_integrity_id) (auto simp: rq_inv_def)

lemma rq_inv_distinct:
  assumes "rq_inv s P E D"
  shows "distinct (rq_resumed s @ map Enq (E @ somes (rq_enqW s)) @ map Deq (D @ somes (rq_deqW s)))"
proof -
  have "mset P = mset (rq_resumed s @ map Enq (E @ somes (rq_enqW s)) @ map Deq (D @ somes (rq_deqW s)))"
    using assms by (simp add: rq_inv_def ac_simps)
  moreover have "distinct P"
    using assms by (simp add: rq_inv_def)
  ultimately show ?thesis
    using mset_eq_imp_distinct_iff by metis
qed

lemma rq_inv_distinct_live:
  assumes "rq_inv s P E D"
  shows "distinct (E @ somes (rq_enqW s))" and "distinct (D @ somes (rq_deqW s))"
proof -
  have "distinct (map Enq (E @ somes (rq_enqW s)))" "distinct (map Deq (D @ somes (rq_deqW s)))"
    using rq_inv_distinct [OF assms] by (simp_all only: distinct_append)
  then show "distinct (E @ somes (rq_enqW s))" "distinct (D @ somes (rq_deqW s))"
    by (simp_all only: distinct_map)
qed

lemma rq_inv_stats:
  "rq_inv (stat_enqueue s) P E D = rq_inv s P E D"
  "rq_inv (stat_enqueue_wait s) P E D = rq_inv s P E D"
  "rq_inv (stat_dequeue s) P E D = rq_inv s P E D"
  "rq_inv (stat_dequeue_wait s) P E D = rq_inv s P E D"
  by (simp_all add: rq_inv_def stat_enqueue_def stat_enqueue_wait_def stat_dequeue_def
      stat_dequeue_wait_def enq_pending_iff deq_pending_iff)

text \<open>Completing a waiter that was taken.\<close>

lemma rq_inv_deq_finish:
  assumes "rq_inv s P E (w # D)"
  shows "rq_inv (deq_finish w r s) P E D"
proof -
  have "distinct (w # D @ somes (rq_deqW s))"
    using rq_inv_distinct_live [OF assms] by simp
  then show ?thesis
    using assms by (auto simp: rq_inv_def simp del: set_somes)
qed

lemma rq_inv_enq_finish:
  assumes "rq_inv s P (w # E) D"
  shows "rq_inv (enq_finish w r s) P E D"
proof -
  have "distinct (w # E @ somes (rq_enqW s))"
    using rq_inv_distinct_live [OF assms] by simp
  then show ?thesis
    using assms by (auto simp: rq_inv_def simp del: set_somes)
qed

lemma rq_inv_finish_all_deq:
  "rq_inv s P E (somes ws @ D) \<Longrightarrow> rq_inv (finish_all_deq ws s) P E D"
  by (induction ws s rule: finish_all_deq.induct) (auto intro: rq_inv_deq_finish)

lemma rq_inv_finish_all_values:
  "rq_inv s P E (map fst ws @ D) \<Longrightarrow> rq_inv (finish_all_values ws s) P E D"
  by (induction ws s rule: finish_all_values.induct) (auto intro: rq_inv_deq_finish)

lemma rq_inv_finish_all_enq:
  "rq_inv s P (ws @ E) D \<Longrightarrow> rq_inv (finish_all_enq ws s) P E D"
  by (induction ws s rule: finish_all_enq.induct) (auto intro: rq_inv_enq_finish)

text \<open>Locked sections: the queue after them, with the waiters they took.\<close>

lemma try_enqueue_no_lock_inv:
  assumes "rq_inv s P [] []" and "try_enqueue_no_lock v s = (r, s')"
  shows "rq_inv s' P [] (case r of Inr (Some w) \<Rightarrow> [w] | _ \<Rightarrow> [])"
    and "rq_enqs s' = rq_enqs s" and "rq_deqs s' = rq_deqs s"
    and "r = Inl errc_out_of_capacity \<Longrightarrow> rq_res s' \<noteq> []"
proof -
  note i = rq_inv_integrity [OF assms(1)]
  have c: "rq_inv s P [] []" by (rule assms(1))
  obtain w q where t: "wq_take_oldest (rq_deqW s) = (w, q)"
    by fastforce
  have n: "w = None \<Longrightarrow> somes (rq_deqW s) = [] \<and> q = []"
    using wq.take_oldest_NoneD [of "rq_deqW s" q] t by (simp add: wq_empty_def)
  have m: "w = Some d \<Longrightarrow> somes (rq_deqW s) = d # somes q" for d
    using wq.take_oldest_SomeD [of "rq_deqW s" d q] t by simp
  have e: "w = Some d \<Longrightarrow> rq_deqW s \<noteq> []" for d
    using t by auto
  show "rq_inv s' P [] (case r of Inr (Some w) \<Rightarrow> [w] | _ \<Rightarrow> [])"
    using assms(2) t n m e c
    by (auto simp: try_enqueue_no_lock_def i Let_def stat_enqueue_def stat_enqueue_wait_def rq_inv_def
        enq_pending_iff deq_pending_iff
        simp del: set_somes split: if_splits option.splits)
  show "rq_enqs s' = rq_enqs s" "rq_deqs s' = rq_deqs s"
    using assms(2) t
    by (auto simp: try_enqueue_no_lock_def i Let_def stat_enqueue_def stat_enqueue_wait_def
        split: if_splits option.splits)
  show "r = Inl errc_out_of_capacity \<Longrightarrow> rq_res s' \<noteq> []"
    using assms(2) t c
    by (auto simp: try_enqueue_no_lock_def i Let_def stat_enqueue_def stat_enqueue_wait_def rq_inv_def
        split: if_splits option.splits)
qed

lemma try_dequeue_no_lock_inv:
  assumes "rq_inv s P [] []" and "try_dequeue_no_lock s = (r, s')"
  shows "rq_inv s' P (case r of Inr (Some w, v) \<Rightarrow> [w] | _ \<Rightarrow> []) []"
    and "rq_enqs s' = rq_enqs s" and "rq_deqs s' = rq_deqs s"
    and "r = Inl errc_resource_unavailable \<Longrightarrow> rq_res s' = [] \<and> \<not> rq_endMarked s'"
proof -
  note i = rq_inv_integrity [OF assms(1)]
  have c: "rq_inv s P [] []" by (rule assms(1))
  obtain w q where t: "wq_take_oldest (rq_enqW s) = (w, q)"
    by fastforce
  have n: "w = None \<Longrightarrow> somes (rq_enqW s) = [] \<and> q = []"
    using wq.take_oldest_NoneD [of "rq_enqW s" q] t by (simp add: wq_empty_def)
  have m: "w = Some d \<Longrightarrow> somes (rq_enqW s) = d # somes q" for d
    using wq.take_oldest_SomeD [of "rq_enqW s" d q] t by simp
  show "rq_inv s' P (case r of Inr (Some w, v) \<Rightarrow> [w] | _ \<Rightarrow> []) []"
    using assms(2) t n m c
    by (auto simp: try_dequeue_no_lock_def i Let_def stat_dequeue_def stat_dequeue_wait_def rq_inv_def
        enq_pending_iff deq_pending_iff
        simp del: set_somes split: if_splits option.splits list.splits)
  show "rq_enqs s' = rq_enqs s" "rq_deqs s' = rq_deqs s"
    using assms(2) t
    by (auto simp: try_dequeue_no_lock_def i Let_def stat_dequeue_def stat_dequeue_wait_def
        split: if_splits option.splits list.splits)
  show "r = Inl errc_resource_unavailable \<Longrightarrow> rq_res s' = [] \<and> \<not> rq_endMarked s'"
    using assms(2) t c
    by (auto simp: try_dequeue_no_lock_def i Let_def stat_dequeue_def stat_dequeue_wait_def rq_inv_def
        split: if_splits option.splits list.splits)
qed

section \<open>Executions\<close>

text \<open>
  An event is a whole public call, or the start or the stop callback of an operation. An
  operation object is created and started once: \<open>initiate\<close> asserts that it has no result.
\<close>

datatype 'v rq_event =
    EvEnq ident 'v bool bool
  | EvDeq ident bool bool
  | EvEnqStop ident
  | EvDeqStop ident
  | EvTryEnq 'v
  | EvTryDeq
  | EvForceEnq "'v list"
  | EvForceDeq
  | EvMarkEnd
  | EvClearEnd
  | EvGrow nat
  | EvClear

definition enq_create :: "ident \<Rightarrow> 'v \<Rightarrow> 'v res_queue \<Rightarrow> 'v res_queue" where
  "enq_create i v s = s\<lparr>rq_enqs := (rq_enqs s)(i \<mapsto> \<lparr>e_v = v, e_r = None, e_scb = False\<rparr>)\<rparr>"

definition deq_create :: "ident \<Rightarrow> 'v res_queue \<Rightarrow> 'v res_queue" where
  "deq_create i s = s\<lparr>rq_deqs := (rq_deqs s)(i \<mapsto> \<lparr>d_r = None, d_scb = False\<rparr>)\<rparr>"

text \<open>The state after an event, the operations it parked, and the values its caller got.\<close>

fun rq_step :: "'v rq_event \<Rightarrow> 'v res_queue \<Rightarrow> 'v res_queue \<times> waiter_ref list \<times> 'v list" where
  "rq_step (EvEnq i v sr sp) s =
     (case enq_initiate i sr sp (enq_create i v s) of
        (parked, s') \<Rightarrow> (s', if parked then [Enq i] else [], []))"
| "rq_step (EvDeq i sr sp) s =
     (case deq_initiate i sr sp (deq_create i s) of
        (parked, s') \<Rightarrow> (s', if parked then [Deq i] else [],
           case d_r (the (rq_deqs s' i)) of Some (Inr v) \<Rightarrow> [v] | _ \<Rightarrow> []))"
| "rq_step (EvEnqStop i) s = (enq_cancel i s, [], [])"
| "rq_step (EvDeqStop i) s = (deq_cancel i s, [], [])"
| "rq_step (EvTryEnq v) s = (snd (rq_try_enqueue v s), [], [])"
| "rq_step EvTryDeq s =
     (case rq_try_dequeue s of (r, s') \<Rightarrow> (s', [], case r of Inl e \<Rightarrow> [] | Inr v \<Rightarrow> [v]))"
| "rq_step (EvForceEnq r) s = (snd (rq_force_enqueue_range r s), [], [])"
| "rq_step EvForceDeq s =
     (case rq_force_dequeue_all s of (r, s') \<Rightarrow> (s', [], case r of Inl e \<Rightarrow> [] | Inr vs \<Rightarrow> vs))"
| "rq_step EvMarkEnd s = (snd (rq_mark_end s), [], [])"
| "rq_step EvClearEnd s = (rq_clear_end_mark s, [], [])"
| "rq_step (EvGrow n) s = (rq_increase_capacity n s, [], [])"
| "rq_step EvClear s = (rq_clear s, [], [])"

text \<open>
  What a caller must respect: operation objects are fresh, \<open>increase_capacity\<close> does not
  overflow, and \<open>clear\<close> is called when no enqueue waits (see \<open>clear_breaks_integrity\<close> for the
  reason).
\<close>

fun rq_allowed :: "'v rq_event \<Rightarrow> 'v res_queue \<Rightarrow> bool" where
  "rq_allowed (EvEnq i v sr sp) s \<longleftrightarrow> rq_enqs s i = None"
| "rq_allowed (EvDeq i sr sp) s \<longleftrightarrow> rq_deqs s i = None"
| "rq_allowed (EvGrow n) s \<longleftrightarrow> rq_cap s + n \<le> size_max"
| "rq_allowed EvClear s \<longleftrightarrow> rq_enqW s = []"
| "rq_allowed _ s \<longleftrightarrow> True"

text \<open>The values an event brings in, hands out (to its caller or to resumed waiters), and drops.\<close>

fun rq_accepted :: "'v rq_event \<Rightarrow> 'v res_queue \<Rightarrow> 'v list" where
  "rq_accepted (EvEnq i v sr sp) s =
     (case map_option e_r (rq_enqs (fst (rq_step (EvEnq i v sr sp) s)) i) of
        Some (Some (Inl e)) \<Rightarrow> []
      | _ \<Rightarrow> [v])"
| "rq_accepted (EvTryEnq v) s = (if fst (rq_try_enqueue v s) = None then [v] else [])"
| "rq_accepted (EvForceEnq r) s = (if fst (rq_force_enqueue_range r s) = None then r else [])"
| "rq_accepted _ s = []"

definition deq_got :: "waiter_ref \<Rightarrow> 'v res_queue \<Rightarrow> 'v list" where
  "deq_got w s =
     (case w of
        Enq i \<Rightarrow> []
      | Deq i \<Rightarrow> (case map_option d_r (rq_deqs s i) of Some (Some (Inr v)) \<Rightarrow> [v] | _ \<Rightarrow> []))"

definition rq_delivered :: "'v rq_event \<Rightarrow> 'v res_queue \<Rightarrow> 'v list" where
  "rq_delivered ev s =
     (case rq_step ev s of (s', parked, out) \<Rightarrow>
        concat (map (\<lambda>w. deq_got w s') (drop (length (rq_resumed s)) (rq_resumed s'))) @ out)"

fun rq_dropped :: "'v rq_event \<Rightarrow> 'v res_queue \<Rightarrow> 'v list" where
  "rq_dropped (EvEnqStop i) s = (if i \<in> set (somes (rq_enqW s)) then [enq_value i s] else [])"
| "rq_dropped EvClear s = rq_res s"
| "rq_dropped _ s = []"

text \<open>
  Reachable states under a discipline \<open>A\<close>, with the operations parked and the values
  accepted, delivered and dropped so far.
\<close>

inductive rq_reach ::
  "('v rq_event \<Rightarrow> 'v res_queue \<Rightarrow> bool) \<Rightarrow> nat \<Rightarrow> 'v res_queue \<Rightarrow> waiter_ref list \<Rightarrow>
   'v list \<Rightarrow> 'v list \<Rightarrow> 'v list \<Rightarrow> bool"
  for A cap where
  rq_start: "0 < cap \<Longrightarrow> rq_reach A cap (rq_new cap) [] [] [] []"
| rq_event: "rq_reach A cap s P ins outs drops \<Longrightarrow> A ev s \<Longrightarrow> rq_step ev s = (s', parked, out) \<Longrightarrow>
             rq_reach A cap s' (P @ parked) (ins @ rq_accepted ev s) (outs @ rq_delivered ev s)
               (drops @ rq_dropped ev s)"

lemma rq_inv_new: "0 < cap \<Longrightarrow> rq_inv (rq_new cap) [] [] []"
  by (simp add: rq_inv_def rq_new_def)

lemma rq_inv_enq_create:
  assumes "rq_inv s P [] []" and "i \<notin> dom (rq_enqs s)"
  shows "rq_inv (enq_create i v s) P [] []" and "enq_pending i (enq_create i v s)"
    and "Enq i \<notin> set P"
  using assms by (auto simp: rq_inv_def enq_create_def enq_pending_iff deq_pending_iff)

lemma rq_inv_deq_create:
  assumes "rq_inv s P [] []" and "i \<notin> dom (rq_deqs s)"
  shows "rq_inv (deq_create i s) P [] []" and "deq_pending i (deq_create i s)"
    and "Deq i \<notin> set P"
  using assms by (auto simp: rq_inv_def deq_create_def enq_pending_iff deq_pending_iff)

text \<open>An operation that is not in the queue may get any result.\<close>

lemma rq_inv_enq_set_r:
  assumes "rq_inv s P [] D" and "Enq i \<notin> set P"
  shows "rq_inv (enq_set_r i r s) P [] D"
proof -
  have "i \<notin> set (somes (rq_enqW s))"
  proof
    assume "i \<in> set (somes (rq_enqW s))"
    then have "Enq i \<in># mset P"
      using assms(1) by (simp add: rq_inv_def)
    then show False
      using assms(2) by simp
  qed
  then show ?thesis
    using assms by (auto simp: rq_inv_def enq_set_r_def enq_pending_iff deq_pending_iff)
qed

lemma rq_inv_deq_set_r:
  assumes "rq_inv s P E []" and "Deq i \<notin> set P"
  shows "rq_inv (deq_set_r i r s) P E []"
proof -
  have "i \<notin> set (somes (rq_deqW s))"
  proof
    assume "i \<in> set (somes (rq_deqW s))"
    then have "Deq i \<in># mset P"
      using assms(1) by (simp add: rq_inv_def)
    then show False
      using assms(2) by simp
  qed
  then show ?thesis
    using assms by (auto simp: rq_inv_def deq_set_r_def enq_pending_iff deq_pending_iff)
qed

lemma rq_assert_id: "rq_ok s \<Longrightarrow> b \<Longrightarrow> rq_assert b s = s"
  by (simp add: rq_assert_def)

lemma rq_inv_okD: "rq_inv s P E D \<Longrightarrow> rq_ok s"
  by (simp add: rq_inv_def)

lemma enq_initiate_inv:
  assumes inv: "rq_inv s P [] []" and pend: "enq_pending i s" and new: "Enq i \<notin> set P"
    and step: "enq_initiate i sr sp s = (parked, s')"
  shows "rq_inv s' (P @ (if parked then [Enq i] else [])) [] []"
proof -
  note a = rq_assert_id [OF rq_inv_okD [OF inv] pend]
  obtain r s1 where t: "try_enqueue_no_lock (enq_value i s) s = (r, s1)"
    by fastforce
  note l = try_enqueue_no_lock_inv [OF inv t]
  show ?thesis
  proof (cases sr)
    case True
    then show ?thesis
      using step inv new by (auto simp: enq_initiate_def a Let_def intro: rq_inv_enq_set_r)
  next
    case nsr: False
    show ?thesis
    proof (cases r)
      case (Inr w)
      then have "rq_inv (case w of None \<Rightarrow> s1 | Some d \<Rightarrow> deq_finish d (Inr (enq_value i s1)) s1) P [] []"
        using l(1) by (auto split: option.splits intro: rq_inv_deq_finish)
      then show ?thesis
        using step nsr Inr t new by (auto simp: enq_initiate_def a Let_def intro: rq_inv_enq_set_r)
    next
      case (Inl e)
      show ?thesis
      proof (cases "e = errc_out_of_capacity")
        case False
        then show ?thesis
          using step nsr Inl t new l(1) by (auto simp: enq_initiate_def a Let_def intro: rq_inv_enq_set_r)
      next
        case True
        then have "rq_res s1 \<noteq> []" "rq_inv s1 P [] []"
          using l(1,4) Inl by simp_all
        moreover have "enq_pending i s1"
          using pend l(2) by (simp add: enq_pending_iff)
        moreover have "parked" and "s' = s1\<lparr>rq_enqs := (rq_enqs s1)(i := map_option (\<lambda>o'. o'\<lparr>e_scb := sp\<rparr>) (rq_enqs s1 i)),
            rq_enqW := rq_enqW s1 @ [Some i]\<rparr>"
          using step nsr Inl t True by (simp_all add: enq_initiate_def a Let_def wq_add_def)
        ultimately show ?thesis
          using new by (auto simp: rq_inv_def enq_pending_iff deq_pending_iff)
      qed
    qed
  qed
qed

lemma deq_initiate_inv:
  assumes inv: "rq_inv s P [] []" and pend: "deq_pending i s" and new: "Deq i \<notin> set P"
    and step: "deq_initiate i sr sp s = (parked, s')"
  shows "rq_inv s' (P @ (if parked then [Deq i] else [])) [] []"
proof -
  note a = rq_assert_id [OF rq_inv_okD [OF inv] pend]
  obtain r s1 where t: "try_dequeue_no_lock s = (r, s1)"
    by fastforce
  note l = try_dequeue_no_lock_inv [OF inv t]
  show ?thesis
  proof (cases sr)
    case True
    then show ?thesis
      using step inv new by (auto simp: deq_initiate_def a Let_def intro: rq_inv_deq_set_r)
  next
    case nsr: False
    show ?thesis
    proof (cases r)
      case (Inr wv)
      obtain w v where wv: "wv = (w, v)"
        by fastforce
      have "rq_inv (case w of None \<Rightarrow> s1 | Some d \<Rightarrow> enq_finish d (Inr ()) s1) P [] []"
        using l(1) Inr wv by (auto split: option.splits intro: rq_inv_enq_finish)
      then show ?thesis
        using step nsr Inr t new wv by (auto simp: deq_initiate_def a Let_def intro: rq_inv_deq_set_r)
    next
      case (Inl e)
      show ?thesis
      proof (cases "e = errc_resource_unavailable")
        case False
        then show ?thesis
          using step nsr Inl t new l(1) by (auto simp: deq_initiate_def a Let_def intro: rq_inv_deq_set_r)
      next
        case True
        then have "rq_res s1 = []" "\<not> rq_endMarked s1" "rq_inv s1 P [] []"
          using l(1,4) Inl by simp_all
        moreover have "deq_pending i s1"
          using pend l(3) by (simp add: deq_pending_iff)
        moreover have "parked" and "s' = s1\<lparr>rq_deqs := (rq_deqs s1)(i := map_option (\<lambda>o'. o'\<lparr>d_scb := sp\<rparr>) (rq_deqs s1 i)),
            rq_deqW := rq_deqW s1 @ [Some i]\<rparr>"
          using step nsr Inl t True by (simp_all add: deq_initiate_def a Let_def wq_add_def)
        ultimately show ?thesis
          using new by (auto simp: rq_inv_def enq_pending_iff deq_pending_iff)
      qed
    qed
  qed
qed

lemma enq_cancel_inv:
  assumes "rq_inv s P [] []"
  shows "rq_inv (enq_cancel i s) P [] []"
proof (cases "i \<in> set (somes (rq_enqW s))")
  case True
  obtain q where e: "wq_erase (rq_enqW s) i = (True, q)"
    using True wq_erase_found [of "rq_enqW s" i] by (cases "wq_erase (rq_enqW s) i") simp
  note sp = wq_erase_takes [OF e]
  have "rq_inv (s\<lparr>rq_enqW := q\<rparr>) P [i] []"
    using assms sp by (auto simp: rq_inv_def enq_pending_iff deq_pending_iff simp del: set_somes)
  then show ?thesis
    using e by (simp add: enq_cancel_def rq_inv_enq_finish)
next
  case False
  then show ?thesis
    using assms by (simp add: enq_cancel_def wq_erase_none del: set_somes)
qed

lemma deq_cancel_inv:
  assumes "rq_inv s P [] []"
  shows "rq_inv (deq_cancel i s) P [] []"
proof (cases "i \<in> set (somes (rq_deqW s))")
  case True
  obtain q where e: "wq_erase (rq_deqW s) i = (True, q)"
    using True wq_erase_found [of "rq_deqW s" i] by (cases "wq_erase (rq_deqW s) i") simp
  note sp = wq_erase_takes [OF e]
  have "rq_inv (s\<lparr>rq_deqW := q\<rparr>) P [] [i]"
    using assms sp by (auto simp: rq_inv_def enq_pending_iff deq_pending_iff simp del: set_somes)
  then show ?thesis
    using e by (simp add: deq_cancel_def rq_inv_deq_finish)
next
  case False
  then show ?thesis
    using assms by (simp add: deq_cancel_def wq_erase_none del: set_somes)
qed

lemma rq_try_enqueue_inv:
  assumes "rq_inv s P [] []"
  shows "rq_inv (snd (rq_try_enqueue v s)) P [] []"
proof -
  obtain r s1 where t: "try_enqueue_no_lock v s = (r, s1)"
    by fastforce
  show ?thesis
    using try_enqueue_no_lock_inv(1) [OF assms t] t
    by (auto simp: rq_try_enqueue_def intro: rq_inv_deq_finish split: sum.splits option.splits)
qed

lemma rq_try_dequeue_inv:
  assumes "rq_inv s P [] []"
  shows "rq_inv (snd (rq_try_dequeue s)) P [] []"
proof -
  obtain r s1 where t: "try_dequeue_no_lock s = (r, s1)"
    by fastforce
  show ?thesis
    using try_dequeue_no_lock_inv(1) [OF assms t] t
    by (auto simp: rq_try_dequeue_def intro: rq_inv_enq_finish split: sum.splits option.splits prod.splits)
qed

lemma rq_force_enqueue_range_inv:
  assumes "rq_inv s P [] []"
  shows "rq_inv (snd (rq_force_enqueue_range r s)) P [] []"
proof (cases "r = [] \<or> rq_endMarked s")
  case True
  then show ?thesis
    using assms by (auto simp: rq_force_enqueue_range_def rq_inv_integrity [OF assms])
next
  case False
  obtain ws q rs where h: "hand_out (rq_deqW s) (rq_res s @ r) = (ws, q, rs)"
    by (metis prod_cases3)
  note sp = hand_out_spec [OF h]
  have w: "rq_res s \<noteq> [] \<Longrightarrow> ws = []"
    using assms sp by (auto simp: rq_inv_def)
  have "rq_inv ((stat_enqueue s)\<lparr>rq_deqW := q, rq_res := rs\<rparr>) P [] (map fst ws)"
    using assms sp False w
    by (auto simp: rq_inv_def stat_enqueue_def enq_pending_iff deq_pending_iff simp del: set_somes)
  then show ?thesis
    using False h
    by (simp add: rq_force_enqueue_range_def rq_inv_integrity [OF assms] Let_def stat_enqueue_def
        rq_inv_finish_all_values)
qed

lemma rq_force_dequeue_all_inv:
  assumes "rq_inv s P [] []"
  shows "rq_inv (snd (rq_force_dequeue_all s)) P [] []"
proof (cases "rq_res s = []")
  case True
  then show ?thesis
    using assms by (auto simp: rq_force_dequeue_all_def rq_inv_integrity [OF assms])
next
  case False
  obtain ws q rs where h: "refill (rq_cap s) (\<lambda>w. enq_value w (stat_dequeue s)) (rq_enqW s) [] = (ws, q, rs)"
    by (metis prod_cases3)
  note sp = refill_spec [OF h]
  have "rq_inv ((stat_dequeue s)\<lparr>rq_enqW := q, rq_res := rs\<rparr>) P ws []"
    using assms sp False
    by (auto simp: rq_inv_def stat_dequeue_def enq_pending_iff deq_pending_iff simp del: set_somes)
  then show ?thesis
    using False h
    by (simp add: rq_force_dequeue_all_def rq_inv_integrity [OF assms] Let_def stat_dequeue_def
        rq_inv_finish_all_enq)
qed

lemma rq_mark_end_inv:
  assumes "rq_inv s P [] []"
  shows "rq_inv (snd (rq_mark_end s)) P [] []"
proof (cases "rq_endMarked s")
  case True
  then show ?thesis
    using assms by (simp add: rq_mark_end_def rq_inv_integrity [OF assms])
next
  case False
  have "rq_inv (s\<lparr>rq_endMarked := True, rq_deqW := []\<rparr>) P [] (somes (rq_deqW s) @ [])"
    using assms by (auto simp: rq_inv_def enq_pending_iff deq_pending_iff)
  then show ?thesis
    using False
    by (auto simp: rq_mark_end_def rq_inv_integrity [OF assms] wq_take_all_def
        intro!: rq_inv_finish_all_deq)
qed

lemma rq_increase_capacity_inv:
  assumes "rq_inv s P [] []" and "rq_cap s + n \<le> size_max"
  shows "rq_inv (rq_increase_capacity n s) P [] []"
proof -
  have "sz_sub size_max (rq_cap s) = size_max - rq_cap s" "sz_add (rq_cap s) n = rq_cap s + n"
    using assms(2) by (simp_all add: size_max_def)
  then show ?thesis
    using assms
    by (auto simp: rq_increase_capacity_def rq_assert_def rq_inv_def enq_pending_iff deq_pending_iff)
qed

lemmas rq_op_inv = enq_cancel_inv deq_cancel_inv rq_try_enqueue_inv rq_try_dequeue_inv
  rq_force_enqueue_range_inv rq_force_dequeue_all_inv rq_mark_end_inv rq_increase_capacity_inv

lemma rq_step_inv:
  assumes inv: "rq_inv s P [] []" and al: "rq_allowed ev s" and st: "rq_step ev s = (s', parked, out)"
  shows "rq_inv s' (P @ parked) [] []"
proof (cases ev)
  case (EvEnq i v sr sp)
  then have "i \<notin> dom (rq_enqs s)"
    using al by (simp add: domIff)
  note c = rq_inv_enq_create [OF inv this]
  obtain p s1 where e: "enq_initiate i sr sp (enq_create i v s) = (p, s1)"
    by fastforce
  show ?thesis
    using enq_initiate_inv [OF c e] st EvEnq e by auto
next
  case (EvDeq i sr sp)
  then have "i \<notin> dom (rq_deqs s)"
    using al by (simp add: domIff)
  note c = rq_inv_deq_create [OF inv this]
  obtain p s1 where e: "deq_initiate i sr sp (deq_create i s) = (p, s1)"
    by fastforce
  show ?thesis
    using deq_initiate_inv [OF c e] st EvDeq e by auto
next
  case EvTryDeq
  then show ?thesis
    using st rq_try_dequeue_inv [OF inv] by (auto split: prod.splits)
next
  case EvForceDeq
  then show ?thesis
    using st rq_force_dequeue_all_inv [OF inv] by (auto split: prod.splits)
next
  case EvClear
  then show ?thesis
    using st inv al by (auto simp: rq_clear_def rq_inv_def enq_pending_iff deq_pending_iff)
next
  case EvClearEnd
  then show ?thesis
    using st inv by (auto simp: rq_clear_end_mark_def rq_inv_def enq_pending_iff deq_pending_iff)
qed (use st inv al rq_op_inv in auto)

lemma rq_reach_inv:
  assumes "rq_reach A cap s P ins outs drops" and "\<And>ev s. A ev s \<Longrightarrow> rq_allowed ev s"
  shows "rq_inv s P [] []"
  using assms(1)
proof (induction rule: rq_reach.induct)
  case rq_start
  then show ?case by (rule rq_inv_new)
next
  case (rq_event s P ins outs drops ev s' parked out)
  then show ?case
    using rq_step_inv assms(2) by blast
qed

section \<open>Order and conservation of the values\<close>

text \<open>
  The values a consumer will still see: the queue's own, then those of the blocked producers, oldest
  first.
\<close>

definition rq_blocked :: "'v res_queue \<Rightarrow> 'v list" where
  "rq_blocked s = map (\<lambda>i. enq_value i s) (somes (rq_enqW s))"

definition rq_items :: "'v res_queue \<Rightarrow> 'v list" where
  "rq_items s = rq_res s @ rq_blocked s"

text \<open>Producers wait only while the queue is full (until \<open>increase_capacity\<close> is called).\<close>

definition rq_full :: "'v res_queue \<Rightarrow> bool" where
  "rq_full s \<longleftrightarrow> (somes (rq_enqW s) \<noteq> [] \<longrightarrow> rq_cap s \<le> length (rq_res s))"

definition rq_new_got :: "'v res_queue \<Rightarrow> 'v res_queue \<Rightarrow> 'v list" where
  "rq_new_got s s' = concat (map (\<lambda>w. deq_got w s') (drop (length (rq_resumed s)) (rq_resumed s')))"

lemma rq_new_got_one:
  "rq_resumed s' = rq_resumed s @ [w] \<Longrightarrow> rq_new_got s s' = deq_got w s'"
  "rq_resumed s' = rq_resumed s \<Longrightarrow> rq_new_got s s' = []"
  "rq_resumed s' = rq_resumed s @ ws \<Longrightarrow> rq_new_got s s' = concat (map (\<lambda>w. deq_got w s') ws)"
  by (simp_all add: rq_new_got_def)

lemma deq_got_simps [simp]:
  "deq_got (Enq i) s = []"
  "deq_pending w s \<Longrightarrow> deq_got (Deq w) (deq_finish w (Inr v) s) = [v]"
  "deq_got (Deq w) (deq_finish w (Inl e) s) = []"
  "deq_got x (enq_set_r i' r s) = deq_got x s"
  by (auto simp: deq_got_def deq_pending_iff deq_finish_def rq_resume_def deq_set_r_def rq_assert_def
      enq_set_r_def split: waiter_ref.splits option.splits)

lemma rq_blocked_simps [simp]:
  "rq_blocked (enq_finish i r s) = rq_blocked s"
  "rq_blocked (deq_finish i r' s) = rq_blocked s"
  "rq_blocked (enq_set_r i r s) = rq_blocked s"
  "rq_blocked (deq_set_r i r' s) = rq_blocked s"
  by (simp_all add: rq_blocked_def enq_set_r_def [THEN arg_cong [where f = rq_enqW]]
      deq_set_r_def [THEN arg_cong [where f = rq_enqW]])

lemma set_r_fields [simp]:
  "rq_res (enq_set_r i r s) = rq_res s" "rq_res (deq_set_r i r' s) = rq_res s"
  "rq_resumed (enq_set_r i r s) = rq_resumed s" "rq_resumed (deq_set_r i r' s) = rq_resumed s"
  "rq_cap (enq_set_r i r s) = rq_cap s" "rq_cap (deq_set_r i r' s) = rq_cap s"
  "rq_enqW (enq_set_r i r s) = rq_enqW s" "rq_enqW (deq_set_r i r' s) = rq_enqW s"
  "rq_deqs (enq_set_r i r s) = rq_deqs s" "rq_enqs (deq_set_r i r' s) = rq_enqs s"
  by (simp_all add: enq_set_r_def deq_set_r_def)

lemma stat_fields [simp]:
  "rq_res (stat_enqueue s) = rq_res s" "rq_res (stat_enqueue_wait s) = rq_res s"
  "rq_res (stat_dequeue s) = rq_res s" "rq_res (stat_dequeue_wait s) = rq_res s"
  "rq_enqW (stat_enqueue s) = rq_enqW s" "rq_enqW (stat_enqueue_wait s) = rq_enqW s"
  "rq_enqW (stat_dequeue s) = rq_enqW s" "rq_enqW (stat_dequeue_wait s) = rq_enqW s"
  "rq_deqW (stat_enqueue s) = rq_deqW s" "rq_deqW (stat_enqueue_wait s) = rq_deqW s"
  "rq_deqW (stat_dequeue s) = rq_deqW s" "rq_deqW (stat_dequeue_wait s) = rq_deqW s"
  "rq_cap (stat_enqueue s) = rq_cap s" "rq_cap (stat_enqueue_wait s) = rq_cap s"
  "rq_cap (stat_dequeue s) = rq_cap s" "rq_cap (stat_dequeue_wait s) = rq_cap s"
  "rq_endMarked (stat_enqueue s) = rq_endMarked s" "rq_endMarked (stat_dequeue s) = rq_endMarked s"
  "rq_resumed (stat_enqueue s) = rq_resumed s" "rq_resumed (stat_enqueue_wait s) = rq_resumed s"
  "rq_resumed (stat_dequeue s) = rq_resumed s" "rq_resumed (stat_dequeue_wait s) = rq_resumed s"
  "enq_value i (stat_enqueue s) = enq_value i s" "enq_value i (stat_enqueue_wait s) = enq_value i s"
  "enq_value i (stat_dequeue s) = enq_value i s" "enq_value i (stat_dequeue_wait s) = enq_value i s"
  by (simp_all add: stat_enqueue_def stat_enqueue_wait_def stat_dequeue_def stat_dequeue_wait_def
      enq_value_def)

text \<open>The branches of the two locked sections.\<close>

lemma try_enqueue_no_lock_shape:
  assumes "rq_inv s P [] []" and "try_enqueue_no_lock v s = (r, s')"
  shows "rq_cap s' = rq_cap s" and "rq_resumed s' = rq_resumed s" and "rq_enqW s' = rq_enqW s"
    and "rq_enqs s' = rq_enqs s"
    and "r = Inr None \<Longrightarrow> rq_res s' = rq_res s @ [v] \<and> length (rq_res s) < rq_cap s"
    and "r = Inr (Some w) \<Longrightarrow> rq_res s = [] \<and> rq_res s' = [] \<and> rq_enqW s = [] \<and> deq_pending w s'"
    and "r = Inl e \<Longrightarrow> rq_res s' = rq_res s"
    and "r = Inl errc_out_of_capacity \<Longrightarrow> rq_cap s \<le> length (rq_res s)"
proof -
  note i = rq_inv_integrity [OF assms(1)]
  obtain w' q where t: "wq_take_oldest (rq_deqW s) = (w', q)"
    by fastforce
  show "rq_cap s' = rq_cap s" "rq_resumed s' = rq_resumed s" "rq_enqW s' = rq_enqW s"
    "rq_enqs s' = rq_enqs s"
    "r = Inr None \<Longrightarrow> rq_res s' = rq_res s @ [v] \<and> length (rq_res s) < rq_cap s"
    "r = Inl e \<Longrightarrow> rq_res s' = rq_res s"
    "r = Inl errc_out_of_capacity \<Longrightarrow> rq_cap s \<le> length (rq_res s)"
    using assms(2) t try_enqueue_no_lock_inv(2) [OF assms]
    by (auto simp: try_enqueue_no_lock_def i Let_def split: if_splits option.splits)
  assume r: "r = Inr (Some w)"
  have "rq_deqW s \<noteq> []" "rq_res s' = rq_res s"
    using assms(2) t r by (auto simp: try_enqueue_no_lock_def i Let_def split: if_splits option.splits)
  moreover have "deq_pending w s'"
    using try_enqueue_no_lock_inv(1) [OF assms] r by (simp add: rq_inv_def)
  ultimately show "rq_res s = [] \<and> rq_res s' = [] \<and> rq_enqW s = [] \<and> deq_pending w s'"
    using assms(1) by (auto simp: rq_inv_def)
qed

lemma try_dequeue_no_lock_shape:
  assumes "rq_inv s P [] []" and "try_dequeue_no_lock s = (r, s')"
  shows "rq_cap s' = rq_cap s" and "rq_resumed s' = rq_resumed s"
    and "r = Inr (w, v) \<Longrightarrow> v # rq_items s' = rq_items s"
    and "r = Inl e \<Longrightarrow> rq_items s' = rq_items s \<and> rq_items s = []"
    and "rq_full s \<Longrightarrow> rq_full s'"
proof -
  note i = rq_inv_integrity [OF assms(1)]
  obtain w' q where t: "wq_take_oldest (rq_enqW s) = (w', q)"
    by fastforce
  have n: "w' = None \<Longrightarrow> somes (rq_enqW s) = [] \<and> q = []"
    using wq.take_oldest_NoneD [of "rq_enqW s" q] t by (simp add: wq_empty_def)
  have m: "w' = Some d \<Longrightarrow> somes (rq_enqW s) = d # somes q" for d
    using wq.take_oldest_SomeD [of "rq_enqW s" d q] t by simp
  have v: "enq_value j s' = enq_value j s" for j
    using try_dequeue_no_lock_inv(2) [OF assms] by (simp add: enq_value_def)
  show "rq_cap s' = rq_cap s" "rq_resumed s' = rq_resumed s"
    using assms(2) t
    by (auto simp: try_dequeue_no_lock_def i Let_def split: if_splits option.splits list.splits)
  show "r = Inr (w, v) \<Longrightarrow> v # rq_items s' = rq_items s"
    using assms(2) t n m v
    by (auto simp: try_dequeue_no_lock_def i Let_def rq_items_def rq_blocked_def
        simp del: set_somes split: if_splits option.splits list.splits)
  show "r = Inl e \<Longrightarrow> rq_items s' = rq_items s \<and> rq_items s = []"
    using assms t n m v
    by (auto simp: try_dequeue_no_lock_def i Let_def rq_items_def rq_blocked_def rq_inv_def
        simp del: set_somes split: if_splits option.splits list.splits)
  show "rq_full s \<Longrightarrow> rq_full s'"
    using assms(2) t n m
    by (auto simp: try_dequeue_no_lock_def i Let_def rq_full_def
        simp del: set_somes split: if_splits option.splits list.splits)
qed

lemma finish_all_values_fields [simp]:
  "rq_cap (finish_all_values ws s) = rq_cap s" "rq_res (finish_all_values ws s) = rq_res s"
  "rq_enqW (finish_all_values ws s) = rq_enqW s" "rq_blocked (finish_all_values ws s) = rq_blocked s"
  "rq_resumed (finish_all_values ws s) = rq_resumed s @ map (Deq \<circ> fst) ws"
  by (induction ws s rule: finish_all_values.induct) auto

lemma finish_all_deq_fields [simp]:
  "rq_cap (finish_all_deq ws s) = rq_cap s" "rq_res (finish_all_deq ws s) = rq_res s"
  "rq_enqW (finish_all_deq ws s) = rq_enqW s" "rq_blocked (finish_all_deq ws s) = rq_blocked s"
  "rq_resumed (finish_all_deq ws s) = rq_resumed s @ map Deq (somes ws)"
  by (induction ws s rule: finish_all_deq.induct) auto

lemma finish_all_enq_fields [simp]:
  "rq_cap (finish_all_enq ws s) = rq_cap s" "rq_res (finish_all_enq ws s) = rq_res s"
  "rq_enqW (finish_all_enq ws s) = rq_enqW s" "rq_blocked (finish_all_enq ws s) = rq_blocked s"
  "rq_resumed (finish_all_enq ws s) = rq_resumed s @ map Enq ws"
  by (induction ws s rule: finish_all_enq.induct) auto

lemma deq_finish_other: "j \<noteq> i \<Longrightarrow> rq_deqs (deq_finish i r s) j = rq_deqs s j"
  by (simp add: deq_finish_def rq_resume_def deq_set_r_def rq_assert_def)

lemma finish_all_values_other:
  "j \<notin> fst ` set ws \<Longrightarrow> rq_deqs (finish_all_values ws s) j = rq_deqs s j"
  by (induction ws s rule: finish_all_values.induct) (auto simp: deq_finish_other)

lemma finish_all_deq_other:
  "j \<notin> set (somes ws) \<Longrightarrow> rq_deqs (finish_all_deq ws s) j = rq_deqs s j"
  by (induction ws s rule: finish_all_deq.induct) (auto simp: deq_finish_other)

lemma deq_got_cong: "rq_deqs s i = rq_deqs s' i \<Longrightarrow> deq_got (Deq i) s = deq_got (Deq i) s'"
  by (simp add: deq_got_def)

lemma finish_all_values_got:
  assumes "distinct (map fst ws)" and "\<And>w. w \<in> fst ` set ws \<Longrightarrow> deq_pending w s"
  shows "concat (map (\<lambda>w. deq_got (Deq (fst w)) (finish_all_values ws s)) ws) = map snd ws"
  using assms
proof (induction ws s rule: finish_all_values.induct)
  case (1 s)
  then show ?case by simp
next
  case (2 w v ws s)
  let ?s1 = "deq_finish w (Inr v) s"
  have "deq_got (Deq w) (finish_all_values ws ?s1) = deq_got (Deq w) ?s1"
    using 2(2) by (intro deq_got_cong finish_all_values_other) simp
  moreover have "deq_got (Deq w) ?s1 = [v]"
    using 2(3) by simp
  moreover have "concat (map (\<lambda>w. deq_got (Deq (fst w)) (finish_all_values ws ?s1)) ws) = map snd ws"
    using 2 by auto
  ultimately show ?case by simp
qed

lemma finish_all_deq_got:
  assumes "distinct (somes ws)"
  shows "concat (map (\<lambda>w. deq_got (Deq w) (finish_all_deq ws s)) (somes ws)) = []"
  using assms
proof (induction ws s rule: finish_all_deq.induct)
  case (3 w ws s)
  let ?s1 = "deq_finish w (Inl errc_end_reached) s"
  have "deq_got (Deq w) (finish_all_deq ws ?s1) = deq_got (Deq w) ?s1"
    using 3(2) by (intro deq_got_cong finish_all_deq_other) simp
  then show ?case
    using 3 by simp
qed auto

text \<open>
  One equation for every event but a cancelled producer and \<open>clear\<close>: what is delivered, and what
  is left, is what was there, with the new values behind the queue's own or behind the blocked ones.
\<close>

definition rq_shape :: "'v rq_event \<Rightarrow> 'v res_queue \<Rightarrow> 'v list \<Rightarrow> 'v list \<Rightarrow> bool" where
  "rq_shape ev s ready blocked \<longleftrightarrow>
     rq_delivered ev s @ rq_items (fst (rq_step ev s)) = rq_res s @ ready @ rq_blocked s @ blocked"

lemma rq_delivered_eq:
  "rq_step ev s = (s', parked, out) \<Longrightarrow> rq_delivered ev s = rq_new_got s s' @ out"
  by (simp add: rq_delivered_def rq_new_got_def)

lemma rq_shape_try_enq:
  assumes inv: "rq_inv s P [] []"
  shows "rq_shape (EvTryEnq v) s (rq_accepted (EvTryEnq v) s) []"
    and "rq_full s \<Longrightarrow> rq_full (snd (rq_try_enqueue v s))"
    and "rq_full s \<Longrightarrow> rq_accepted (EvTryEnq v) s \<noteq> [] \<Longrightarrow> rq_blocked s = []"
proof -
  obtain r s1 where t: "try_enqueue_no_lock v s = (r, s1)"
    by fastforce
  note sh = try_enqueue_no_lock_shape [OF inv t]
  have v: "enq_value j s1 = enq_value j s" for j
    using sh(4) by (simp add: enq_value_def)
  have nb: "rq_full s \<Longrightarrow> r = Inr x \<Longrightarrow> rq_blocked s = []" for x
    using sh(5) sh(6) by (cases x) (auto simp: rq_full_def rq_blocked_def)
  have d: "rq_delivered (EvTryEnq v) s = rq_new_got s (snd (rq_try_enqueue v s))"
    by (subst rq_delivered_eq [OF rq_step.simps(5)]) simp
  show "rq_shape (EvTryEnq v) s (rq_accepted (EvTryEnq v) s) []"
  proof (cases r)
    case (Inl e)
    then show ?thesis
      using sh t v d by (simp add: rq_shape_def rq_try_enqueue_def rq_items_def rq_blocked_def rq_new_got_one)
  next
    case (Inr w)
    show ?thesis
    proof (cases w)
      case None
      then show ?thesis
        using sh t v d Inr
        by (simp add: rq_shape_def rq_try_enqueue_def rq_items_def rq_blocked_def rq_new_got_one)
    next
      case (Some x)
      then show ?thesis
        using sh(2,3) sh(6) [of x] t v d Inr
        by (simp add: rq_shape_def rq_try_enqueue_def rq_items_def rq_blocked_def rq_new_got_one)
    qed
  qed
  show "rq_full s \<Longrightarrow> rq_full (snd (rq_try_enqueue v s))"
    using sh t
    by (auto simp: rq_full_def rq_try_enqueue_def simp del: set_somes split: sum.splits option.splits)
  show "rq_full s \<Longrightarrow> rq_accepted (EvTryEnq v) s \<noteq> [] \<Longrightarrow> rq_blocked s = []"
    using nb t by (auto simp: rq_try_enqueue_def split: sum.splits if_splits)
qed

lemma enq_create_fields [simp]:
  "rq_res (enq_create i v s) = rq_res s" "rq_enqW (enq_create i v s) = rq_enqW s"
  "rq_cap (enq_create i v s) = rq_cap s" "rq_resumed (enq_create i v s) = rq_resumed s"
  "rq_endMarked (enq_create i v s) = rq_endMarked s"
  "rq_deqs (enq_create i v s) = rq_deqs s"
  "enq_value i (enq_create i v s) = v"
  "rq_full (enq_create i v s) = rq_full s"
  by (simp_all add: enq_create_def enq_value_def rq_full_def)

lemma rq_blocked_enq_create:
  assumes "rq_inv s P [] []" and "i \<notin> dom (rq_enqs s)"
  shows "rq_blocked (enq_create i v s) = rq_blocked s"
  using assms by (auto simp: rq_blocked_def rq_inv_def enq_pending_iff enq_create_def enq_value_def)

lemma deq_create_fields [simp]:
  "rq_res (deq_create i s) = rq_res s" "rq_enqW (deq_create i s) = rq_enqW s"
  "rq_cap (deq_create i s) = rq_cap s" "rq_resumed (deq_create i s) = rq_resumed s"
  "rq_items (deq_create i s) = rq_items s" "rq_blocked (deq_create i s) = rq_blocked s"
  "rq_full (deq_create i s) = rq_full s"
  by (simp_all add: deq_create_def rq_items_def rq_blocked_def enq_value_def rq_full_def)

text \<open>The start of an enqueue: refused, handed on or stored, or parked behind the others.\<close>

lemma enq_initiate_shape:
  assumes inv: "rq_inv s P [] []" and pend: "enq_pending i s"
    and step: "enq_initiate i sr sp s = (parked, s')"
  shows "\<not> parked \<Longrightarrow> map_option e_r (rq_enqs s' i) = Some (Some (Inl e)) \<Longrightarrow>
      rq_items s' = rq_items s \<and> rq_new_got s s' = [] \<and> (rq_full s \<longrightarrow> rq_full s')"
    and "\<not> parked \<Longrightarrow> map_option e_r (rq_enqs s' i) = Some (Some (Inr u)) \<Longrightarrow>
      rq_new_got s s' @ rq_res s' = rq_res s @ [enq_value i s] \<and> rq_blocked s' = rq_blocked s \<and>
      (rq_full s \<longrightarrow> rq_full s' \<and> rq_blocked s = [])"
    and "parked \<Longrightarrow> rq_res s' = rq_res s \<and> rq_blocked s' = rq_blocked s @ [enq_value i s] \<and>
      rq_new_got s s' = [] \<and> map_option e_r (rq_enqs s' i) = Some None \<and> (rq_full s \<longrightarrow> rq_full s')"
    and "\<not> parked \<Longrightarrow> map_option e_r (rq_enqs s' i) \<noteq> Some None \<and> rq_enqs s' i \<noteq> None"
proof -
  note a = rq_assert_id [OF rq_inv_okD [OF inv] pend]
  obtain r s1 where t: "try_enqueue_no_lock (enq_value i s) s = (r, s1)"
    by fastforce
  note sh = try_enqueue_no_lock_shape [OF inv t]
  obtain o' where o': "rq_enqs s i = Some o'" "e_r o' = None"
    using pend by (auto simp: enq_pending_iff)
  have v: "enq_value j s1 = enq_value j s" for j
    using sh(4) by (simp add: enq_value_def)
  have b: "rq_blocked s1 = rq_blocked s"
    using sh(3) v by (simp add: rq_blocked_def)
  have set: "rq_enqs (enq_set_r i r x) i = map_option (\<lambda>o'. o'\<lparr>e_r := Some r\<rparr>) (rq_enqs x i)"
    for r and x :: "'a res_queue"
    by (simp add: enq_set_r_def)
  have park: "s' = s1\<lparr>rq_enqs := (rq_enqs s1)(i := map_option (\<lambda>o'. o'\<lparr>e_scb := sp\<rparr>) (rq_enqs s1 i)),
      rq_enqW := rq_enqW s1 @ [Some i]\<rparr>" and park': "r = Inl errc_out_of_capacity" if "parked"
    using step t a that by (auto simp: enq_initiate_def Let_def wq_add_def split: if_splits sum.splits)
  have val: "enq_value j s' = enq_value j s" if "parked" for j
    using park [OF that] v [of j] by (auto simp: enq_value_def o' sh(4))
  show "parked \<Longrightarrow> rq_res s' = rq_res s \<and> rq_blocked s' = rq_blocked s @ [enq_value i s] \<and>
      rq_new_got s s' = [] \<and> map_option e_r (rq_enqs s' i) = Some None \<and> (rq_full s \<longrightarrow> rq_full s')"
    using park park' val sh o' by (simp add: rq_blocked_def rq_new_got_one rq_full_def)
  have np: "s' = (if sr then enq_set_r i (Inl errc_canceled) s
      else case r of Inr None \<Rightarrow> enq_set_r i (Inr ()) s1
        | Inr (Some d) \<Rightarrow> enq_set_r i (Inr ()) (deq_finish d (Inr (enq_value i s)) s1)
        | Inl e \<Rightarrow> enq_set_r i (Inl e) s1)" if "\<not> parked"
    using step t a that v
    by (auto simp: enq_initiate_def Let_def split: if_splits sum.splits option.splits)
  show "\<not> parked \<Longrightarrow> map_option e_r (rq_enqs s' i) = Some (Some (Inl e)) \<Longrightarrow>
      rq_items s' = rq_items s \<and> rq_new_got s s' = [] \<and> (rq_full s \<longrightarrow> rq_full s')"
    using np sh(1-4,7) o' b
    by (auto simp: set rq_items_def rq_new_got_one rq_full_def simp del: set_somes
        split: if_splits sum.splits option.splits)
  show "\<not> parked \<Longrightarrow> map_option e_r (rq_enqs s' i) = Some (Some (Inr u)) \<Longrightarrow>
      rq_new_got s s' @ rq_res s' = rq_res s @ [enq_value i s] \<and> rq_blocked s' = rq_blocked s \<and>
      (rq_full s \<longrightarrow> rq_full s' \<and> rq_blocked s = [])"
    using np sh(1-6) o' b
    by (auto simp: set rq_new_got_one rq_full_def rq_blocked_def simp del: set_somes
        split: if_splits sum.splits option.splits)
  show "\<not> parked \<Longrightarrow> map_option e_r (rq_enqs s' i) \<noteq> Some None \<and> rq_enqs s' i \<noteq> None"
    using np sh(4) o' by (auto simp: set split: if_splits sum.splits option.splits)
qed

lemma deq_initiate_shape:
  assumes inv: "rq_inv s P [] []" and pend: "deq_pending i s" and new: "Deq i \<notin> set P"
    and step: "deq_initiate i sr sp s = (parked, s')"
  shows "(case d_r (the (rq_deqs s' i)) of Some (Inr v) \<Rightarrow> [v] | _ \<Rightarrow> []) @ rq_items s' = rq_items s"
    and "rq_new_got s s' = []" and "rq_full s \<Longrightarrow> rq_full s'"
proof -
  note a = rq_assert_id [OF rq_inv_okD [OF inv] pend]
  obtain r s1 where t: "try_dequeue_no_lock s = (r, s1)"
    by fastforce
  note sh = try_dequeue_no_lock_shape [OF inv t]
  have d1: "rq_deqs s1 = rq_deqs s"
    by (rule try_dequeue_no_lock_inv(3) [OF inv t])
  obtain o' where o': "rq_deqs s i = Some o'" "d_r o' = None"
    using pend by (auto simp: deq_pending_iff)
  have set: "rq_deqs (deq_set_r i r x) i = map_option (\<lambda>o'. o'\<lparr>d_r := Some r\<rparr>) (rq_deqs x i)"
    "rq_items (deq_set_r i r x) = rq_items x" "rq_full (deq_set_r i r x) = rq_full x"
    for r and x :: "'a res_queue"
    by (simp_all add: deq_set_r_def rq_items_def rq_blocked_def enq_value_def rq_full_def)
  have fin: "rq_items (enq_finish w u x) = rq_items x" "rq_full (enq_finish w u x) = rq_full x"
    for w u and x :: "'a res_queue"
    by (simp_all add: rq_items_def rq_full_def)
  define s2 where "s2 = s1\<lparr>rq_deqs := (rq_deqs s1)(i := map_option (\<lambda>o'. o'\<lparr>d_scb := sp\<rparr>) (rq_deqs s1 i)),
      rq_deqW := wq_add (rq_deqW s1) i\<rparr>"
  have s2: "rq_items s2 = rq_items s1" "rq_resumed s2 = rq_resumed s1" "rq_full s2 = rq_full s1"
    "d_r (the (rq_deqs s2 i)) = None"
    using d1 o' by (simp_all add: s2_def rq_items_def rq_blocked_def enq_value_def rq_full_def)
  have s': "s' = (if sr then deq_set_r i (Inl errc_canceled) s
      else case r of Inr (w, v) \<Rightarrow> deq_set_r i (Inr v) (case w of None \<Rightarrow> s1 | Some e \<Rightarrow> enq_finish e (Inr ()) s1)
        | Inl e \<Rightarrow> if e = errc_resource_unavailable then s2 else deq_set_r i (Inl e) s1)"
    using step t a by (auto simp: deq_initiate_def Let_def s2_def split: if_splits sum.splits prod.splits)
  show "(case d_r (the (rq_deqs s' i)) of Some (Inr v) \<Rightarrow> [v] | _ \<Rightarrow> []) @ rq_items s' = rq_items s"
    unfolding s' using sh(3,4) s2 o' d1 by (auto simp: set fin split: sum.splits prod.splits option.splits)
  show "rq_new_got s s' = []"
    unfolding s' using sh(2) s2 by (auto simp: rq_new_got_one split: sum.splits prod.splits option.splits)
  show "rq_full s \<Longrightarrow> rq_full s'"
    unfolding s' using sh(5) s2 by (auto simp: set fin split: sum.splits prod.splits option.splits)
qed

lemma rq_force_enqueue_range_shape:
  assumes inv: "rq_inv s P [] []"
  shows "rq_shape (EvForceEnq r) s (rq_accepted (EvForceEnq r) s) []"
    and "rq_full s \<Longrightarrow> rq_full (snd (rq_force_enqueue_range r s))"
proof -
  let ?s' = "snd (rq_force_enqueue_range r s)"
  have d: "rq_delivered (EvForceEnq r) s = rq_new_got s ?s'"
    by (subst rq_delivered_eq [OF rq_step.simps(7)]) simp
  have "rq_new_got s ?s' @ rq_items ?s' =
      rq_res s @ rq_accepted (EvForceEnq r) s @ rq_blocked s \<and> (rq_full s \<longrightarrow> rq_full ?s')"
  proof (cases "r = [] \<or> rq_endMarked s")
    case True
    then show ?thesis
      by (auto simp: rq_force_enqueue_range_def rq_inv_integrity [OF inv] rq_items_def rq_new_got_one)
  next
    case False
    obtain ws q rs where h: "hand_out (rq_deqW s) (rq_res s @ r) = (ws, q, rs)"
      by (metis prod_cases3)
    note sp = hand_out_spec [OF h]
    have w: "rq_res s \<noteq> [] \<Longrightarrow> ws = []"
      using inv sp by (auto simp: rq_inv_def)
    let ?s1 = "(stat_enqueue s)\<lparr>rq_deqW := q, rq_res := rs\<rparr>"
    have s': "?s' = finish_all_values ws ?s1" and acc: "fst (rq_force_enqueue_range r s) = None"
      using False h
      by (simp_all add: rq_force_enqueue_range_def rq_inv_integrity [OF inv] Let_def stat_enqueue_def)
    have "distinct (map fst ws)" "\<And>w. w \<in> fst ` set ws \<Longrightarrow> deq_pending w ?s1"
      using rq_inv_distinct_live(2) [OF inv] inv sp
      by (auto simp: rq_inv_def deq_pending_iff stat_enqueue_def simp del: set_somes)
    then have "rq_new_got s ?s' = map snd ws"
      unfolding s' using finish_all_values_got [of ws ?s1]
      by (subst rq_new_got_one(3) [where ws = "map (Deq \<circ> fst) ws"]) (simp_all add: comp_def)
    moreover have "rq_blocked ?s1 = rq_blocked s"
      by (simp add: rq_blocked_def stat_enqueue_def enq_value_def)
    moreover have "rq_res s = [] \<Longrightarrow> rq_blocked s = [] \<and> somes (rq_enqW s) = []"
      using inv by (simp add: rq_inv_def rq_blocked_def)
    moreover have "rq_full ?s1" if "rq_full s"
    proof (cases "rq_res s = []")
      case True
      then show ?thesis
        using inv by (simp add: rq_full_def rq_inv_def)
    next
      case False
      then have "rs = rq_res s @ r"
        using w sp by simp
      then show ?thesis
        using that by (auto simp: rq_full_def)
    qed
    ultimately show ?thesis
      unfolding s' using sp w acc by (auto simp: rq_items_def rq_full_def simp del: set_somes)
  qed
  then show "rq_shape (EvForceEnq r) s (rq_accepted (EvForceEnq r) s) []"
    and "rq_full s \<Longrightarrow> rq_full (snd (rq_force_enqueue_range r s))"
    using d by (simp_all add: rq_shape_def)
qed

lemma rq_force_dequeue_all_shape:
  assumes inv: "rq_inv s P [] []"
  shows "rq_shape EvForceDeq s [] []"
    and "rq_full s \<Longrightarrow> rq_full (snd (rq_force_dequeue_all s))"
proof -
  obtain r s' where r: "rq_force_dequeue_all s = (r, s')"
    by fastforce
  have d: "rq_delivered EvForceDeq s = rq_new_got s s' @ (case r of Inl e \<Rightarrow> [] | Inr vs \<Rightarrow> vs)"
    by (rule rq_delivered_eq) (simp add: r)
  have "rq_new_got s s' @ (case r of Inl e \<Rightarrow> [] | Inr vs \<Rightarrow> vs) @ rq_items s' = rq_items s \<and>
      (rq_full s \<longrightarrow> rq_full s')"
  proof (cases "rq_res s = []")
    case True
    then show ?thesis
      using r by (auto simp: rq_force_dequeue_all_def rq_inv_integrity [OF inv] rq_new_got_one
          split: if_splits)
  next
    case False
    obtain ws q rs where h: "refill (rq_cap s) (\<lambda>w. enq_value w (stat_dequeue s)) (rq_enqW s) [] = (ws, q, rs)"
      by (metis prod_cases3)
    note sp = refill_spec [OF h]
    let ?s1 = "(stat_dequeue s)\<lparr>rq_enqW := q, rq_res := rs\<rparr>"
    have s': "s' = finish_all_enq ws ?s1" and out: "r = Inr (rq_res s)"
      using False h r
      by (auto simp: rq_force_dequeue_all_def rq_inv_integrity [OF inv] Let_def)
    have v: "enq_value i ?s1 = enq_value i s" for i
      by (simp add: stat_dequeue_def enq_value_def)
    have "rq_new_got s s' = []"
      unfolding s' by (subst rq_new_got_one(3) [where ws = "map Enq ws"]) (auto simp: stat_dequeue_def)
    moreover have "rq_blocked ?s1 = map (\<lambda>i. enq_value i s) (somes q)"
      using v by (simp add: rq_blocked_def)
    moreover have "rq_blocked s = map (\<lambda>i. enq_value i s) ws @ map (\<lambda>i. enq_value i s) (somes q)"
      using sp by (simp add: rq_blocked_def)
    ultimately show ?thesis
      unfolding s' out using sp by (auto simp: rq_items_def rq_full_def)
  qed
  then show "rq_shape EvForceDeq s [] []" "rq_full s \<Longrightarrow> rq_full (snd (rq_force_dequeue_all s))"
    using d r by (simp_all add: rq_shape_def rq_items_def)
qed

lemma rq_mark_end_shape:
  assumes inv: "rq_inv s P [] []"
  shows "rq_shape EvMarkEnd s [] []"
    and "rq_full s \<Longrightarrow> rq_full (snd (rq_mark_end s))"
proof -
  let ?s' = "snd (rq_mark_end s)"
  have d: "rq_delivered EvMarkEnd s = rq_new_got s ?s'"
    by (subst rq_delivered_eq [OF rq_step.simps(9)]) simp
  have "rq_new_got s ?s' = [] \<and> rq_items ?s' = rq_items s \<and> (rq_full s \<longrightarrow> rq_full ?s')"
  proof (cases "rq_endMarked s")
    case True
    then show ?thesis
      by (simp add: rq_mark_end_def rq_inv_integrity [OF inv] rq_new_got_one)
  next
    case False
    let ?s1 = "s\<lparr>rq_endMarked := True, rq_deqW := []\<rparr>"
    have s': "?s' = finish_all_deq (rq_deqW s) ?s1"
      using False by (simp add: rq_mark_end_def rq_inv_integrity [OF inv] wq_take_all_def)
    have "rq_new_got s ?s' = []"
      unfolding s' using finish_all_deq_got [of "rq_deqW s" ?s1] rq_inv_distinct_live(2) [OF inv]
      by (subst rq_new_got_one(3) [where ws = "map Deq (somes (rq_deqW s))"])
        (simp_all add: comp_def del: set_somes)
    then show ?thesis
      unfolding s' by (simp add: rq_items_def rq_full_def) (simp add: rq_blocked_def enq_value_def)
  qed
  then show "rq_shape EvMarkEnd s [] []" "rq_full s \<Longrightarrow> rq_full (snd (rq_mark_end s))"
    using d by (simp_all add: rq_shape_def rq_items_def)
qed

text \<open>The start events.\<close>

lemma rq_shape_enq:
  assumes inv: "rq_inv s P [] []" and fresh: "i \<notin> dom (rq_enqs s)"
    and st: "rq_step (EvEnq i v sr sp) s = (s', parked, out)"
  shows "rq_shape (EvEnq i v sr sp) s (if parked = [] then rq_accepted (EvEnq i v sr sp) s else [])
      (if parked = [] then [] else rq_accepted (EvEnq i v sr sp) s)"
    and "rq_full s \<Longrightarrow> rq_full s'"
    and "rq_full s \<Longrightarrow> parked = [] \<Longrightarrow> rq_accepted (EvEnq i v sr sp) s \<noteq> [] \<Longrightarrow> rq_blocked s = []"
proof -
  let ?ev = "EvEnq i v sr sp"
  let ?s0 = "enq_create i v s"
  note c = rq_inv_enq_create [OF inv fresh]
  obtain p s1 where e: "enq_initiate i sr sp ?s0 = (p, s1)"
    by fastforce
  have eq: "s' = s1" "parked = (if p then [Enq i] else [])" "out = []"
    using st e by auto
  have b: "rq_blocked ?s0 = rq_blocked s"
    by (rule rq_blocked_enq_create [OF inv fresh])
  have g: "rq_new_got ?s0 s1 = rq_new_got s s1"
    by (simp add: rq_new_got_def)
  have items: "rq_items ?s0 = rq_items s"
    using b by (simp add: rq_items_def)
  have d: "rq_delivered ?ev s = rq_new_got s s1"
    using rq_delivered_eq [OF st] eq by simp
  have acc: "rq_accepted ?ev s = (case map_option e_r (rq_enqs s1 i) of Some (Some (Inl e)) \<Rightarrow> [] | _ \<Rightarrow> [v])"
    using st eq by simp
  note sh = enq_initiate_shape [OF c(1) c(2) e]
  have "rq_new_got s s1 @ rq_items s1 = rq_res s @ (if parked = [] then rq_accepted ?ev s else []) @
      rq_blocked s @ (if parked = [] then [] else rq_accepted ?ev s) \<and> (rq_full s \<longrightarrow> rq_full s1) \<and>
      (rq_full s \<longrightarrow> parked = [] \<longrightarrow> rq_accepted ?ev s \<noteq> [] \<longrightarrow> rq_blocked s = [])"
  proof (cases p)
    case True
    have m: "map_option e_r (rq_enqs s1 i) = Some None"
      using sh(3) [OF True] by blast
    have "rq_accepted ?ev s = [v]"
      unfolding acc m by simp
    then show ?thesis
      using sh(3) [OF True] b g eq True by (simp add: rq_items_def del: rq_accepted.simps)
  next
    case False
    obtain ro where ro: "map_option e_r (rq_enqs s1 i) = Some (Some ro)"
      using sh(4) [OF False] by (cases "rq_enqs s1 i"; cases "e_r (the (rq_enqs s1 i))") auto
    show ?thesis
    proof (cases ro)
      case (Inl e')
      have "rq_accepted ?ev s = []"
        unfolding acc ro Inl by simp
      then show ?thesis
        using sh(1) [OF False, of e'] ro Inl b g eq items False
        by (simp add: rq_items_def del: rq_accepted.simps)
    next
      case (Inr u)
      then have "rq_new_got s s1 @ rq_res s1 = rq_res s @ [v] \<and> rq_blocked s1 = rq_blocked s \<and>
          (rq_full s \<longrightarrow> rq_full s1 \<and> rq_blocked s = [])"
        using sh(2) [OF False] ro b g by simp
      moreover have "rq_accepted ?ev s = [v]"
        unfolding acc ro Inr by simp
      ultimately show ?thesis
        using eq False by (simp add: rq_items_def del: rq_accepted.simps)
    qed
  qed
  then show "rq_shape ?ev s (if parked = [] then rq_accepted ?ev s else [])
      (if parked = [] then [] else rq_accepted ?ev s)"
    and "rq_full s \<Longrightarrow> rq_full s'"
    and "rq_full s \<Longrightarrow> parked = [] \<Longrightarrow> rq_accepted ?ev s \<noteq> [] \<Longrightarrow> rq_blocked s = []"
    using d st eq by (simp_all add: rq_shape_def)
qed

lemma rq_shape_deq:
  assumes inv: "rq_inv s P [] []" and fresh: "i \<notin> dom (rq_deqs s)"
    and st: "rq_step (EvDeq i sr sp) s = (s', parked, out)"
  shows "rq_shape (EvDeq i sr sp) s [] []" and "rq_full s \<Longrightarrow> rq_full s'"
proof -
  note c = rq_inv_deq_create [OF inv fresh]
  obtain p s1 where e: "deq_initiate i sr sp (deq_create i s) = (p, s1)"
    by fastforce
  note sh = deq_initiate_shape [OF c e]
  have eq: "s' = s1" "out = (case d_r (the (rq_deqs s1 i)) of Some (Inr v) \<Rightarrow> [v] | _ \<Rightarrow> [])"
    using st e by auto
  have "rq_new_got s s1 = []"
    using sh(2) by (simp add: rq_new_got_def)
  then have "rq_delivered (EvDeq i sr sp) s = out"
    using rq_delivered_eq [OF st] eq by simp
  then show "rq_shape (EvDeq i sr sp) s [] []" "rq_full s \<Longrightarrow> rq_full s'"
    using sh(1,3) eq st by (simp_all add: rq_shape_def rq_items_def)
qed

lemma rq_shape_try_deq:
  assumes inv: "rq_inv s P [] []" and st: "rq_step EvTryDeq s = (s', parked, out)"
  shows "rq_shape EvTryDeq s [] []" and "rq_full s \<Longrightarrow> rq_full s'"
proof -
  obtain r s1 where t: "try_dequeue_no_lock s = (r, s1)"
    by fastforce
  note sh = try_dequeue_no_lock_shape [OF inv t]
  have "rq_new_got s s' @ out @ rq_items s' = rq_items s \<and> (rq_full s \<longrightarrow> rq_full s')"
  proof (cases r)
    case (Inl e)
    then show ?thesis
      using st t sh by (auto simp: rq_try_dequeue_def rq_new_got_one)
  next
    case (Inr wv)
    obtain w v where wv: "wv = (w, v)"
      by fastforce
    have "s' = (case w of None \<Rightarrow> s1 | Some e \<Rightarrow> enq_finish e (Inr ()) s1)" "out = [v]"
      using st t Inr wv by (auto simp: rq_try_dequeue_def)
    then show ?thesis
      using sh(2,3,5) Inr wv
      by (auto simp: rq_new_got_one rq_items_def rq_full_def simp del: set_somes split: option.splits)
  qed
  then show "rq_shape EvTryDeq s [] []" "rq_full s \<Longrightarrow> rq_full s'"
    using rq_delivered_eq [OF st] st by (auto simp: rq_shape_def rq_items_def)
qed

lemma rq_shape_deq_stop:
  shows "rq_shape (EvDeqStop i) s [] []" and "rq_full s \<Longrightarrow> rq_full (deq_cancel i s)"
proof -
  have "rq_delivered (EvDeqStop i) s = rq_new_got s (deq_cancel i s)"
    by (subst rq_delivered_eq [OF rq_step.simps(4)]) simp
  moreover have "rq_new_got s (deq_cancel i s) = [] \<and> rq_items (deq_cancel i s) = rq_items s \<and>
      rq_full (deq_cancel i s) = rq_full s"
    by (auto simp: deq_cancel_def rq_new_got_one rq_items_def rq_blocked_def enq_value_def rq_full_def
        split: prod.splits)
  ultimately show "rq_shape (EvDeqStop i) s [] []" "rq_full s \<Longrightarrow> rq_full (deq_cancel i s)"
    by (simp_all add: rq_shape_def rq_items_def)
qed

text \<open>The events that leave every value where it is.\<close>

lemma rq_shape_idle:
  "rq_shape EvClearEnd s [] []" "rq_shape (EvGrow n) s [] []"
  "rq_full s \<Longrightarrow> rq_full (rq_clear_end_mark s)"
proof -
  have d: "rq_delivered EvClearEnd s = []" "rq_delivered (EvGrow n) s = []"
    by (simp_all add: rq_delivered_def rq_clear_end_mark_def rq_increase_capacity_def rq_assert_def Let_def)
  show "rq_shape EvClearEnd s [] []"
    using d(1) by (simp add: rq_shape_def rq_items_def rq_clear_end_mark_def rq_blocked_def enq_value_def)
  show "rq_shape (EvGrow n) s [] []"
    using d(2) by (simp add: rq_shape_def rq_items_def rq_increase_capacity_def rq_assert_def Let_def
        rq_blocked_def enq_value_def)
  show "rq_full s \<Longrightarrow> rq_full (rq_clear_end_mark s)"
    by (simp add: rq_full_def rq_clear_end_mark_def)
qed

section \<open>First in, first out\<close>

text \<open>
  The discipline under which the queue is a FIFO channel: no blocked producer is cancelled, the
  capacity is not increased, nothing is cleared, and \<open>force_enqueue_range\<close> (which bypasses the
  capacity, and so the blocked producers) is used only when no producer waits.
\<close>

fun rq_fifo_allowed :: "'v rq_event \<Rightarrow> 'v res_queue \<Rightarrow> bool" where
  "rq_fifo_allowed (EvEnqStop i) s \<longleftrightarrow> False"
| "rq_fifo_allowed (EvGrow n) s \<longleftrightarrow> False"
| "rq_fifo_allowed EvClear s \<longleftrightarrow> False"
| "rq_fifo_allowed (EvForceEnq r) s \<longleftrightarrow> somes (rq_enqW s) = []"
| "rq_fifo_allowed ev s \<longleftrightarrow> rq_allowed ev s"

lemma rq_fifo_allowed_allowed: "rq_fifo_allowed ev s \<Longrightarrow> rq_allowed ev s"
  by (cases ev) auto

lemma rq_step_fifo:
  assumes inv: "rq_inv s P [] []" and full: "rq_full s" and al: "rq_fifo_allowed ev s"
    and st: "rq_step ev s = (s', parked, out)"
  shows "rq_full s' \<and> rq_delivered ev s @ rq_items s' = rq_items s @ rq_accepted ev s"
proof (cases ev)
  case (EvEnq i v sr sp)
  then have fr: "i \<notin> dom (rq_enqs s)"
    using al by (simp add: domIff)
  have st': "rq_step (EvEnq i v sr sp) s = (s', parked, out)"
    using st EvEnq by simp
  note sh = rq_shape_enq [OF inv fr st']
  show ?thesis
    using sh(1) sh(2) [OF full] sh(3) [OF full] st' EvEnq
    by (cases "rq_accepted (EvEnq i v sr sp) s = []"; cases "parked = []")
      (simp_all add: rq_shape_def rq_items_def del: rq_step.simps rq_accepted.simps)
next
  case (EvDeq i sr sp)
  then have fr: "i \<notin> dom (rq_deqs s)"
    using al by (simp add: domIff)
  have st': "rq_step (EvDeq i sr sp) s = (s', parked, out)"
    using st EvDeq by simp
  show ?thesis
    using rq_shape_deq [OF inv fr st'] full st' EvDeq
    by (simp add: rq_shape_def rq_items_def del: rq_step.simps)
next
  case (EvTryEnq v)
  show ?thesis
    using rq_shape_try_enq [OF inv, of v] full st EvTryEnq
    by (cases "rq_accepted (EvTryEnq v) s = []")
      (auto simp: rq_shape_def rq_items_def simp del: rq_accepted.simps)
next
  case (EvForceEnq r)
  moreover have "rq_blocked s = []"
    using al EvForceEnq by (simp add: rq_blocked_def)
  ultimately show ?thesis
    using rq_force_enqueue_range_shape [OF inv, of r] full st
    by (auto simp: rq_shape_def rq_items_def simp del: rq_accepted.simps)
next
  case EvTryDeq
  then show ?thesis
    using rq_shape_try_deq [OF inv, of s' parked out] full st
    by (simp add: rq_shape_def rq_items_def del: rq_step.simps)
next
  case EvForceDeq
  then show ?thesis
    using rq_force_dequeue_all_shape [OF inv] full st
    by (auto simp: rq_shape_def rq_items_def split: prod.splits)
next
  case EvMarkEnd
  then show ?thesis
    using rq_mark_end_shape [OF inv] full st by (auto simp: rq_shape_def rq_items_def)
next
  case (EvDeqStop i)
  then show ?thesis
    using rq_shape_deq_stop full st by (auto simp: rq_shape_def rq_items_def)
next
  case EvClearEnd
  then show ?thesis
    using rq_shape_idle full st by (auto simp: rq_shape_def rq_items_def)
qed (use al in auto)

lemma rq_reach_fifo:
  assumes "rq_reach rq_fifo_allowed cap s P ins outs drops"
  shows "rq_full s \<and> outs @ rq_items s = ins"
  using assms
proof (induction rule: rq_reach.induct)
  case rq_start
  then show ?case by (simp add: rq_full_def rq_items_def rq_blocked_def rq_new_def)
next
  case (rq_event s P ins outs drops ev s' parked out)
  have "rq_inv s P [] []"
    by (rule rq_reach_inv [OF rq_event(1)]) (rule rq_fifo_allowed_allowed)
  from rq_step_fifo [OF this _ rq_event(2,3)] rq_event.IH show ?case
    by (metis append_assoc)
qed

lemma conserves_idle:
  assumes "rq_delivered ev s @ rq_items s' = rq_items s" and "rq_accepted ev s = []" and "rq_dropped ev s = []"
  shows "mset (rq_delivered ev s) + mset (rq_dropped ev s) + mset (rq_items s') =
    mset (rq_items s) + mset (rq_accepted ev s)"
  using arg_cong [OF assms(1), of mset] assms(2,3) by simp

lemma rq_step_conserves:
  assumes inv: "rq_inv s P [] []" and al: "rq_allowed ev s" and st: "rq_step ev s = (s', parked, out)"
  shows "mset (rq_delivered ev s) + mset (rq_dropped ev s) + mset (rq_items s') =
    mset (rq_items s) + mset (rq_accepted ev s)"
proof (cases ev)
  case (EvEnq i v sr sp)
  then have fr: "i \<notin> dom (rq_enqs s)"
    using al by (simp add: domIff)
  have st': "rq_step (EvEnq i v sr sp) s = (s', parked, out)"
    using st EvEnq by simp
  have "mset (rq_delivered ev s @ rq_items s') = mset (rq_items s) + mset (rq_accepted ev s)"
    using rq_shape_enq(1) [OF inv fr st'] st' EvEnq
    by (auto simp: rq_shape_def rq_items_def simp del: rq_step.simps rq_accepted.simps mset_append
        split: if_splits) (auto simp del: rq_step.simps rq_accepted.simps)
  then show ?thesis
    using EvEnq by simp
next
  case (EvDeq i sr sp)
  then have fr: "i \<notin> dom (rq_deqs s)"
    using al by (simp add: domIff)
  have st': "rq_step (EvDeq i sr sp) s = (s', parked, out)"
    using st EvDeq by simp
  have "rq_delivered ev s @ rq_items s' = rq_items s"
    using rq_shape_deq(1) [OF inv fr st'] st' EvDeq
    by (simp add: rq_shape_def rq_items_def del: rq_step.simps)
  then show ?thesis
    by (rule conserves_idle) (simp_all add: EvDeq)
next
  case (EvEnqStop i)
  have d: "rq_delivered ev s = rq_new_got s (enq_cancel i s)" "s' = enq_cancel i s"
    using rq_delivered_eq [OF st] st EvEnqStop by auto
  show ?thesis
  proof (cases "i \<in> set (somes (rq_enqW s))")
    case True
    obtain q where e: "wq_erase (rq_enqW s) i = (True, q)"
      using True wq_erase_found [of "rq_enqW s" i] by (cases "wq_erase (rq_enqW s) i") simp
    let ?s1 = "s\<lparr>rq_enqW := q\<rparr>"
    have "enq_cancel i s = enq_finish i (Inl errc_canceled) ?s1"
      using e by (simp add: enq_cancel_def)
    moreover have "mset (rq_blocked s) = add_mset (enq_value i s) (mset (rq_blocked ?s1))"
      using wq_erase_takes(1) [OF e] by (simp add: rq_blocked_def enq_value_def)
    ultimately show ?thesis
      using d True EvEnqStop by (simp add: rq_new_got_one rq_items_def)
  next
    case False
    then show ?thesis
      using d EvEnqStop by (simp add: enq_cancel_def wq_erase_none rq_new_got_one del: set_somes)
  qed
next
  case (EvTryEnq v)
  have "mset (rq_delivered ev s @ rq_items s') = mset (rq_items s) + mset (rq_accepted ev s)"
    using rq_shape_try_enq(1) [OF inv, of v] st EvTryEnq
    by (simp add: rq_shape_def rq_items_def del: rq_accepted.simps mset_append)
      (simp del: rq_accepted.simps)
  then show ?thesis
    using EvTryEnq by simp
next
  case (EvForceEnq r)
  have "mset (rq_delivered ev s @ rq_items s') = mset (rq_items s) + mset (rq_accepted ev s)"
    using rq_force_enqueue_range_shape(1) [OF inv, of r] st EvForceEnq
    by (simp add: rq_shape_def rq_items_def del: rq_accepted.simps mset_append)
      (simp del: rq_accepted.simps)
  then show ?thesis
    using EvForceEnq by simp
next
  case EvClear
  then have "rq_delivered ev s = []" "rq_items s' = rq_blocked s"
    using st by (auto simp: rq_delivered_def rq_clear_def rq_items_def rq_blocked_def enq_value_def)
  then show ?thesis
    using EvClear by (simp add: rq_items_def)
next
  case EvTryDeq
  then have "rq_delivered ev s @ rq_items s' = rq_items s"
    using rq_shape_try_deq [OF inv, of s' parked out] st
    by (simp add: rq_shape_def rq_items_def del: rq_step.simps)
  then show ?thesis
    by (rule conserves_idle) (simp_all add: EvTryDeq)
next
  case EvForceDeq
  then have "rq_delivered ev s @ rq_items s' = rq_items s"
    using rq_force_dequeue_all_shape [OF inv] st
    by (auto simp: rq_shape_def rq_items_def split: prod.splits)
  then show ?thesis
    by (rule conserves_idle) (simp_all add: EvForceDeq)
next
  case EvMarkEnd
  then have "rq_delivered ev s @ rq_items s' = rq_items s"
    using rq_mark_end_shape [OF inv] st by (auto simp: rq_shape_def rq_items_def)
  then show ?thesis
    by (rule conserves_idle) (simp_all add: EvMarkEnd)
next
  case (EvDeqStop i)
  then have "rq_delivered ev s @ rq_items s' = rq_items s"
    using rq_shape_deq_stop st by (auto simp: rq_shape_def rq_items_def)
  then show ?thesis
    by (rule conserves_idle) (simp_all add: EvDeqStop)
next
  case EvClearEnd
  then have "rq_delivered ev s @ rq_items s' = rq_items s"
    using rq_shape_idle st by (auto simp: rq_shape_def rq_items_def)
  then show ?thesis
    by (rule conserves_idle) (simp_all add: EvClearEnd)
next
  case (EvGrow n)
  then have "rq_delivered ev s @ rq_items s' = rq_items s"
    using rq_shape_idle st by (auto simp: rq_shape_def rq_items_def)
  then show ?thesis
    by (rule conserves_idle) (simp_all add: EvGrow)
qed

lemma rq_reach_conserves:
  assumes "rq_reach A cap s P ins outs drops" and A: "\<And>ev s. A ev s \<Longrightarrow> rq_allowed ev s"
  shows "mset ins = mset outs + mset drops + mset (rq_items s)"
  using assms(1)
proof (induction rule: rq_reach.induct)
  case rq_start
  then show ?case by (simp add: rq_items_def rq_blocked_def rq_new_def)
next
  case (rq_event s P ins outs drops ev s' parked out)
  have "rq_inv s P [] []"
    by (rule rq_reach_inv [OF rq_event(1) A])
  from rq_step_conserves [OF this A [OF rq_event(2)] rq_event(3)] rq_event.IH show ?case
    by (simp add: ac_simps)
qed

text \<open>Running a list of events, and the reachable state it gives.\<close>

fun rq_exec ::
  "('v rq_event \<Rightarrow> 'v res_queue \<Rightarrow> bool) \<Rightarrow> 'v rq_event list \<Rightarrow>
   'v res_queue \<times> waiter_ref list \<times> 'v list \<times> 'v list \<times> 'v list \<Rightarrow>
   ('v res_queue \<times> waiter_ref list \<times> 'v list \<times> 'v list \<times> 'v list) option" where
  "rq_exec A [] st = Some st"
| "rq_exec A (ev # evs) (s, P, ins, outs, drops) =
     (if A ev s
      then (case rq_step ev s of (s', parked, out) \<Rightarrow>
              rq_exec A evs (s', P @ parked, ins @ rq_accepted ev s, outs @ rq_new_got s s' @ out,
                drops @ rq_dropped ev s))
      else None)"

lemma rq_exec_reach:
  "rq_exec A evs (s, P, ins, outs, drops) = Some (s', P', ins', outs', drops') \<Longrightarrow>
   rq_reach A cap s P ins outs drops \<Longrightarrow> rq_reach A cap s' P' ins' outs' drops'"
proof (induction evs arbitrary: s P ins outs drops)
  case Nil
  then show ?case by simp
next
  case (Cons ev evs)
  obtain s1 p1 o1 where st: "rq_step ev s = (s1, p1, o1)"
    by (metis prod_cases3)
  have al: "A ev s" and ex: "rq_exec A evs (s1, P @ p1, ins @ rq_accepted ev s,
      outs @ rq_delivered ev s, drops @ rq_dropped ev s) = Some (s', P', ins', outs', drops')"
    using Cons.prems(1) st rq_delivered_eq [OF st] by (auto split: if_splits)
  show ?case
    by (rule Cons.IH [OF ex]) (rule rq_event [OF Cons.prems(2) al st])
qed

definition rq_init :: "nat \<Rightarrow> 'v res_queue \<times> waiter_ref list \<times> 'v list \<times> 'v list \<times> 'v list" where
  "rq_init cap = (rq_new cap, [], [], [], [])"

lemma rq_exec_init:
  "0 < cap \<Longrightarrow> rq_exec A evs (rq_init cap) = Some (s, P, ins, outs, drops) \<Longrightarrow>
   rq_reach A cap s P ins outs drops"
  unfolding rq_init_def by (erule rq_exec_reach) (rule rq_start)


text \<open>What a run shows: the observations of the state it ends in.\<close>

definition rq_obs :: "'v res_queue \<Rightarrow> 'v list \<times> waiter_ref list \<times> ident list \<times> ident list \<times> bool \<times> bool" where
  "rq_obs s = (rq_items s, rq_resumed s, somes (rq_enqW s), somes (rq_deqW s), rq_endMarked s, rq_ok s)"

definition rq_trace ::
  "('v rq_event \<Rightarrow> 'v res_queue \<Rightarrow> bool) \<Rightarrow> nat \<Rightarrow> 'v rq_event list \<Rightarrow>
   (waiter_ref list \<times> 'v list \<times> 'v list \<times> 'v list \<times>
    ('v list \<times> waiter_ref list \<times> ident list \<times> ident list \<times> bool \<times> bool)) option" where
  "rq_trace A cap evs =
     map_option (\<lambda>(s, P, ins, outs, drops). (P, ins, outs, drops, rq_obs s)) (rq_exec A evs (rq_init cap))"

lemma rq_trace_reach:
  assumes "rq_trace A cap evs = Some (P, ins, outs, drops, ob)" and "0 < cap"
  obtains s where "rq_reach A cap s P ins outs drops" and "rq_obs s = ob"
  using assms by (auto simp: rq_trace_def dest: rq_exec_init)


lemmas rq_eval = rq_trace_def rq_obs_def rq_new_got_def rq_init_def enq_pending_def deq_pending_def
  rq_new_def stats_reset_def enq_create_def deq_create_def
  enq_initiate_def deq_initiate_def rq_assert_def
  try_enqueue_no_lock_def try_dequeue_no_lock_def rq_integrity_def stat_enqueue_def
  stat_enqueue_wait_def stat_dequeue_def stat_dequeue_wait_def wq_add_def enq_set_r_def deq_set_r_def
  enq_finish_def deq_finish_def rq_resume_def enq_value_def deq_got_def
  rq_try_enqueue_def rq_try_dequeue_def enq_cancel_def deq_cancel_def rq_clear_def
  rq_increase_capacity_def rq_items_def rq_blocked_def rq_mark_end_def wq_take_all_def

end
