(* ===== verification/Res_Queue_Props.thy ===== *)
theory Res_Queue_Props
  imports Res_Queue
begin

text \<open>
  The properties of the asynchronous queue (\<open>Res_Queue\<close>): safety of the assertions, exactly-once
  resumption, order and conservation of the values, the end mark, and two concrete executions in
  which \<open>clear\<close> and \<open>increase_capacity\<close> meet waiting producers.
\<close>

section \<open>Properties\<close>

text \<open>
  C1: In every execution that respects the preconditions, every assertion of the code holds (the
  integrity check, \<open>! _r\<close> at each completion, the capacity checks), and no waiter is
  stranded: consumers wait only while the queue holds nothing and is not marked as ended, and
  producers wait only while it holds something.
\<close>

theorem res_queue_assertions_hold:
  assumes "rq_reach rq_allowed cap s P ins outs drops"
  shows "rq_ok s \<and> (somes (rq_deqW s) \<noteq> [] \<longrightarrow> rq_res s = [] \<and> \<not> rq_endMarked s) \<and>
    (somes (rq_enqW s) \<noteq> [] \<longrightarrow> rq_res s \<noteq> [])"
  using rq_reach_inv [OF assms] by (auto simp: rq_inv_def)

theorem res_queue_assertions_hold_witness:
  "\<exists>s :: nat res_queue. rq_obs s = ([], [Enq 1], [], [0], False, True) \<and>
     rq_ok s \<and> somes (rq_deqW s) = [0] \<and> rq_res s = [] \<and> \<not> rq_endMarked s"
proof -
  have "rq_trace rq_allowed 1 [EvEnq 0 (7::nat) False True, EvEnq 1 8 False True, EvEnqStop 1, EvTryDeq,
        EvDeq 0 False True] =
      Some ([Enq 1, Deq 0], [7, 8], [7], [8], ([], [Enq 1], [], [0], False, True))"
    by (simp add: rq_eval)
  then obtain s where "rq_reach rq_allowed 1 s [Enq 1, Deq 0] [7::nat, 8] [7] [8]"
    and o: "rq_obs s = ([], [Enq 1], [], [0], False, True)"
    by (rule rq_trace_reach) simp
  from res_queue_assertions_hold [OF this(1)] o show ?thesis
    by (auto simp: rq_obs_def)
qed



text \<open>
  C2: The queue is first in, first out: as long as no blocked producer is cancelled, the capacity is
  not increased, nothing is cleared and \<open>force_enqueue_range\<close> does not pass waiting producers, the
  delivered values followed by the values still inside (the queue's own, then those of the blocked
  producers) are the accepted values in the order in which they were accepted; and producers wait
  only while the queue is full.
\<close>

theorem res_queue_fifo:
  assumes "rq_reach rq_fifo_allowed cap s P ins outs drops"
  shows "outs @ rq_items s = ins \<and> (somes (rq_enqW s) \<noteq> [] \<longrightarrow> rq_cap s \<le> length (rq_res s))"
  using rq_reach_fifo [OF assms] by (simp add: rq_full_def)

theorem res_queue_fifo_witness:
  "\<exists>s :: nat res_queue. rq_obs s = ([8], [Enq 1, Enq 2], [], [], False, True) \<and> [7, 5] @ rq_items s = [7, 5, 8]"
proof -
  have "rq_trace rq_fifo_allowed 1 [EvEnq 0 (7::nat) False True, EvEnq 1 5 False True, EvTryEnq 9, EvTryDeq,
        EvEnq 2 8 False True, EvDeq 0 False True] =
      Some ([Enq 1, Enq 2], [7, 5, 8], [7, 5], [], ([8], [Enq 1, Enq 2], [], [], False, True))"
    by (simp add: rq_eval)
  then obtain s where "rq_reach rq_fifo_allowed 1 s [Enq 1, Enq 2] [7::nat, 5, 8] [7, 5] []"
    and o: "rq_obs s = ([8], [Enq 1, Enq 2], [], [], False, True)"
    by (rule rq_trace_reach) simp
  from res_queue_fifo [OF this(1)] o show ?thesis
    by (auto simp: rq_obs_def)
qed

text \<open>
  C3: No value is lost or duplicated: whatever the clients do within the preconditions, the accepted
  values are, as a multiset, the delivered ones, the ones dropped by a cancelled producer or by
  \<open>clear\<close>, and the ones still inside.
\<close>

theorem res_queue_conserves_values:
  assumes "rq_reach rq_allowed cap s P ins outs drops"
  shows "mset ins = mset outs + mset drops + mset (rq_items s)"
  by (rule rq_reach_conserves [OF assms])

theorem res_queue_conserves_values_witness:
  "\<exists>s :: nat res_queue. rq_items s = [6] \<and> mset [7, 8, 9, 6] = mset [7] + mset [8, 9] + mset (rq_items s)"
proof -
  have "rq_trace rq_allowed 1 [EvEnq 0 (7::nat) False True, EvEnq 1 8 False True, EvEnqStop 1, EvTryDeq,
        EvEnq 2 9 False True, EvClear, EvTryEnq 6] =
      Some ([Enq 1], [7, 8, 9, 6], [7], [8, 9], ([6], [Enq 1], [], [], False, True))"
    by (simp add: rq_eval)
  then obtain s where "rq_reach rq_allowed 1 s [Enq 1] [7::nat, 8, 9, 6] [7] [8, 9]"
    and o: "rq_obs s = ([6], [Enq 1], [], [], False, True)"
    by (rule rq_trace_reach) simp
  from res_queue_conserves_values [OF this(1)] o show ?thesis
    by (auto simp: rq_obs_def)
qed

text \<open>
  After \<open>mark_end\<close> and until \<open>clear_end_mark\<close>, no enqueue is accepted, a consumer still gets
  the values left inside in order, and fails with \<open>end_reached\<close> once nothing is left: never
  before (the comment on \<open>mark_end\<close> has it the other way round), and it never waits.
\<close>

theorem res_queue_end_drains:
  assumes "rq_reach rq_allowed cap s P ins outs drops" and "rq_endMarked s"
  shows "fst (rq_try_enqueue v s) = Some errc_end_reached \<and>
    fst (rq_try_dequeue s) = (case rq_items s of [] \<Rightarrow> Inl errc_end_reached | x # xs \<Rightarrow> Inr x) \<and>
    rq_items (snd (rq_try_dequeue s)) = tl (rq_items s)"
proof -
  have inv: "rq_inv s P [] []"
    by (rule rq_reach_inv [OF assms(1)])
  obtain r s1 where t: "try_dequeue_no_lock s = (r, s1)"
    by fastforce
  note sh = try_dequeue_no_lock_shape [OF inv t]
  have "fst (rq_try_enqueue v s) = Some errc_end_reached"
    using assms(2) by (simp add: rq_try_enqueue_def try_enqueue_no_lock_def rq_inv_integrity [OF inv])
  moreover have "r = Inl e \<Longrightarrow> e = errc_end_reached" for e
    using t assms(2)
    by (auto simp: try_dequeue_no_lock_def rq_inv_integrity [OF inv] stat_dequeue_def Let_def
        split: list.splits option.splits prod.splits)
  ultimately show ?thesis
    using sh(3,4) t
    by (auto simp: rq_try_dequeue_def rq_items_def split: sum.splits prod.splits option.splits)
      (metis list.sel(3) list.simps(5))+
qed

theorem res_queue_end_drains_witness:
  "\<exists>s :: nat res_queue. rq_items s = [7, 8] \<and> fst (rq_try_dequeue s) = Inr 7 \<and>
     fst (rq_try_enqueue 0 s) = Some errc_end_reached"
proof -
  have "rq_trace rq_allowed 1 [EvTryEnq (7::nat), EvEnq 1 8 False True, EvMarkEnd] =
      Some ([Enq 1], [7, 8], [], [], ([7, 8], [], [1], [], True, True))"
    by (simp add: rq_eval)
  then obtain s where "rq_reach rq_allowed 1 s [Enq 1] [7::nat, 8] [] []"
    and o: "rq_obs s = ([7, 8], [], [1], [], True, True)"
    by (rule rq_trace_reach) simp
  then have "rq_endMarked s"
    by (simp add: rq_obs_def)
  from res_queue_end_drains [OF \<open>rq_reach rq_allowed 1 s [Enq 1] [7, 8] [] []\<close> this, of 0] o show ?thesis
    by (auto simp: rq_obs_def)
qed

text \<open>
  \<open>clear\<close> does not look at the waiters. Called while a producer waits, it leaves a producer
  waiting on an empty queue: the next call fails the integrity assertion, and without assertions a
  consumer that then arrives waits as well, each of the two waiting for the other.
\<close>

theorem res_queue_clear_strands_producer:
  "rq_trace (\<lambda>ev s. True) 1
     [EvEnq 0 (7::nat) False False, EvEnq 1 8 False False, EvClear, EvDeq 0 False False] =
   Some ([Enq 1, Deq 0], [7, 8], [], [7], ([8], [], [1], [0], False, False))"
  by (simp add: rq_eval)

text \<open>
  \<open>increase_capacity\<close> does not resume the producers that the new capacity could admit, and a
  later enqueue passes them: 9, enqueued after the blocked 8, is delivered before it.
\<close>

theorem res_queue_grow_breaks_fifo:
  "rq_trace rq_allowed 1
     [EvTryEnq (7::nat), EvEnq 1 8 False False, EvGrow 1, EvTryEnq 9, EvTryDeq] =
   Some ([Enq 1], [7, 8, 9], [7], [], ([9, 8], [Enq 1], [], [], False, True))"
  by (simp add: rq_eval size_max_def sz_sub_def)

end
