(* ===== verification/Res_Pool.thy ===== *)
theory Res_Pool
  imports Err Waiter_Queue
begin

text \<open>
  The asynchronous resource pool of \<open>include/dsk/res_pool.hpp\<close>: \<open>res_pool\<close>, its references
  \<open>res_ref\<close>, the operation \<open>async_acquire_op\<close>, and \<open>res_pool_map\<close>. The class has a variant with
  resources and one that only counts (\<open>T = void\<close>), told apart by \<open>if constexpr(has_res)\<close>; here
  \<open>rp_has_res\<close> is a field. A resource is a node of the lists \<open>_inuse\<close> and \<open>_unused\<close>, an iterator
  to it is the identity of the node; an invalid \<open>res_ref\<close> is \<open>None\<close>. The creator and the recycler
  are the user's: the creator makes the value of the n-th resource, the recycler changes the value.

  Each operation changes the pool while it holds the mutex, so operations are atomic steps here. In
  \<open>recycle\<close> the recycler runs before the mutex is taken, on a resource only its holder refers to, and
  the waiter is completed after it is released, when the waiter is in no queue any more. \<open>rp_ok\<close> records whether every \<open>DSK_ASSERT\<close> passed so far held.
\<close>

section \<open>The waiter queue\<close>

definition pw_add :: "waiter_deque \<Rightarrow> ident \<Rightarrow> waiter_deque" where
  "pw_add q w = q @ [Some w]"

text \<open>In \<open>recycle\<close>: pop the null pointers in front, then take the front, if any.\<close>

definition pw_take_oldest :: "waiter_deque \<Rightarrow> ident option \<times> waiter_deque" where
  "pw_take_oldest q =
     (case dropWhile (\<lambda>w. w = None) q of
        [] \<Rightarrow> (None, [])
      | w # q' \<Rightarrow> (w, q'))"

text \<open>In \<open>cancel\<close>: \<open>find\<close>, then overwrite with a null pointer.\<close>

fun find_waiter :: "waiter_deque \<Rightarrow> ident \<Rightarrow> nat option" where
  "find_waiter [] w = None"
| "find_waiter (x # q) w = (if x = Some w then Some 0 else map_option Suc (find_waiter q w))"

definition pw_erase :: "waiter_deque \<Rightarrow> ident \<Rightarrow> bool \<times> waiter_deque" where
  "pw_erase q w = (case find_waiter q w of None \<Rightarrow> (False, q) | Some i \<Rightarrow> (True, q[i := None]))"

definition pw_empty :: "waiter_deque \<Rightarrow> bool" where
  "pw_empty q = (q = [])"

lemma pw_take_oldest_eq: "pw_take_oldest q = wq_take_oldest q"
  by (induction q rule: wq_take_oldest.induct) (simp_all add: pw_take_oldest_def)

lemma pw_erase_eq: "pw_erase q w = wq_erase q w"
proof (induction q)
  case Nil
  then show ?case by (simp add: pw_erase_def)
next
  case (Cons x q)
  then show ?case
    by (cases "find_waiter q w") (auto simp: pw_erase_def split: prod.splits)
qed

text \<open>The two deques keep the same contract.\<close>

interpretation pw: waiter_fifo pw_add pw_take_oldest pw_erase somes pw_empty
proof unfold_locales
  fix q :: waiter_deque and w :: ident
  show "somes (pw_add q w) = somes q @ [w]"
    by (simp add: pw_add_def)
  show "fst (pw_take_oldest q) = (case somes q of [] \<Rightarrow> None | w # ws \<Rightarrow> Some w)"
    unfolding pw_take_oldest_eq by (rule wq.take_oldest_first)
  show "somes (snd (pw_take_oldest q)) = tl (somes q)"
    unfolding pw_take_oldest_eq by (rule wq.take_oldest_rest)
  show "fst (pw_take_oldest q) = None \<Longrightarrow> pw_empty (snd (pw_take_oldest q))"
    using wq.take_oldest_exhausts [of q] by (simp add: pw_take_oldest_eq pw_empty_def wq_empty_def)
  show "fst (pw_erase q w) \<longleftrightarrow> w \<in> set (somes q)"
    unfolding pw_erase_eq by (rule wq.erase_found)
  show "somes (snd (pw_erase q w)) = remove1 w (somes q)"
    unfolding pw_erase_eq by (rule wq.erase_live)
  show "pw_empty q \<Longrightarrow> somes q = []"
    by (simp add: pw_empty_def)
qed

section \<open>State\<close>

text \<open>An \<open>async_acquire_op\<close>: its result \<open>_r\<close> (an error, or a reference), its stop callback.\<close>

record acq_op =
  aq_r :: "(errc + ident) option"
  aq_scb :: bool

record 't res_pool =
  rp_has_res :: bool
  rp_cap :: nat
  rp_size :: nat
  rp_inuse :: "(ident \<times> 't) list"
  rp_unused :: "(ident \<times> 't) list"
  rp_creator :: "nat \<Rightarrow> 't"
  rp_recycler :: "'t \<Rightarrow> 't"
  rp_made :: nat
  rp_waiters :: waiter_deque
  rp_ops :: "ident \<rightharpoonup> acq_op"
  rp_resumed :: "ident list"
  rp_ok :: bool

definition rp_assert :: "bool \<Rightarrow> 't res_pool \<Rightarrow> 't res_pool" where
  "rp_assert P s = s\<lparr>rp_ok := rp_ok s \<and> P\<rparr>"

definition rp_new :: "bool \<Rightarrow> nat \<Rightarrow> (nat \<Rightarrow> 't) \<Rightarrow> ('t \<Rightarrow> 't) \<Rightarrow> 't res_pool" where
  "rp_new has_res cap creator recycler =
     \<lparr>rp_has_res = has_res, rp_cap = cap, rp_size = 0, rp_inuse = [], rp_unused = [],
      rp_creator = creator, rp_recycler = recycler, rp_made = 0, rp_waiters = [],
      rp_ops = Map.empty, rp_resumed = [], rp_ok = (cap > 0)\<rparr>"

section \<open>Acquiring and recycling\<close>

definition occupied_cap_nolock :: "'t res_pool \<Rightarrow> nat" where
  "occupied_cap_nolock s =
     (if rp_has_res s then length (rp_unused s) + length (rp_inuse s) else rp_size s)"

text \<open>\<open>_creator(res_front_emplacer(_unused))\<close>: a fresh node at the front.\<close>

definition rp_create :: "'t res_pool \<Rightarrow> 't res_pool" where
  "rp_create s =
     s\<lparr>rp_unused := (rp_made s, rp_creator s (rp_made s)) # rp_unused s, rp_made := Suc (rp_made s)\<rparr>"

text \<open>Splice the first unused node to the front of \<open>_inuse\<close> and refer to it.\<close>

definition rp_use_front :: "'t res_pool \<Rightarrow> (errc + ident) \<times> 't res_pool" where
  "rp_use_front s =
     (case rp_unused s of
        [] \<Rightarrow> (Inl errc_failed, rp_assert False s)
      | x # xs \<Rightarrow> (Inr (fst x), s\<lparr>rp_inuse := x # rp_inuse s, rp_unused := xs\<rparr>))"

definition rp_try_acquire :: "'t res_pool \<Rightarrow> (errc + ident) \<times> 't res_pool" where
  "rp_try_acquire s =
     (if rp_has_res s
      then
        (if rp_unused s = []
         then (if length (rp_inuse s) < rp_cap s then rp_use_front (rp_create s)
               else (Inl errc_resource_unavailable, s))
         else rp_use_front s)
      else
        (if rp_size s < rp_cap s then (Inr (Suc (rp_size s)), s\<lparr>rp_size := Suc (rp_size s)\<rparr>)
         else (Inl errc_resource_unavailable, s)))"

definition acq_pending :: "ident \<Rightarrow> 't res_pool \<Rightarrow> bool" where
  "acq_pending i s = (case rp_ops s i of None \<Rightarrow> False | Some o' \<Rightarrow> aq_r o' = None)"

definition acq_set_r :: "ident \<Rightarrow> errc + ident \<Rightarrow> 't res_pool \<Rightarrow> 't res_pool" where
  "acq_set_r i r s =
     s\<lparr>rp_ops := (rp_ops s)(i := map_option (\<lambda>o'. o'\<lparr>aq_r := Some r\<rparr>) (rp_ops s i))\<rparr>"

text \<open>\<open>complete\<close> and \<open>complete_on_cancellation\<close>.\<close>

definition acq_finish :: "ident \<Rightarrow> errc + ident \<Rightarrow> 't res_pool \<Rightarrow> 't res_pool" where
  "acq_finish i r s =
     (let s1 = acq_set_r i r (rp_assert (acq_pending i s) s)
      in s1\<lparr>rp_resumed := rp_resumed s1 @ [i]\<rparr>)"

text \<open>\<open>initiate\<close>: \<open>False\<close> when finished at once, \<open>True\<close> when waiting.\<close>

definition acq_initiate :: "ident \<Rightarrow> bool \<Rightarrow> bool \<Rightarrow> 't res_pool \<Rightarrow> bool \<times> 't res_pool" where
  "acq_initiate i stopReq stopPoss s0 =
     (let s = rp_assert (acq_pending i s0) s0 in
      if stopReq then (False, acq_set_r i (Inl errc_canceled) s)
      else
        (case rp_try_acquire s of
           (Inr it, s1) \<Rightarrow> (False, acq_set_r i (Inr it) s1)
         | (Inl e, s1) \<Rightarrow>
             (True, s1\<lparr>rp_ops := (rp_ops s1)(i := map_option (\<lambda>o'. o'\<lparr>aq_scb := stopPoss\<rparr>) (rp_ops s1 i)),
                       rp_waiters := pw_add (rp_waiters s1) i\<rparr>)))"

definition rp_cancel :: "ident \<Rightarrow> 't res_pool \<Rightarrow> 't res_pool" where
  "rp_cancel i s =
     (case pw_erase (rp_waiters s) i of
        (found, q) \<Rightarrow>
          if found then acq_finish i (Inl errc_canceled) (s\<lparr>rp_waiters := q\<rparr>) else s)"

text \<open>\<open>_recycler(rr.get())\<close> on the node of the reference; a dangling one fails.\<close>

definition rp_run_recycler :: "ident \<Rightarrow> 't res_pool \<Rightarrow> 't res_pool" where
  "rp_run_recycler it s =
     (if rp_has_res s
      then rp_assert (it \<in> fst ` set (rp_inuse s))
             (s\<lparr>rp_inuse := map (\<lambda>x. if fst x = it then (it, rp_recycler s (snd x)) else x) (rp_inuse s)\<rparr>)
      else s)"

text \<open>Back to the pool, when no one waits.\<close>

definition rp_put_back :: "ident \<Rightarrow> 't res_pool \<Rightarrow> 't res_pool" where
  "rp_put_back it s =
     (if rp_has_res s
      then s\<lparr>rp_unused := filter (\<lambda>x. fst x = it) (rp_inuse s) @ rp_unused s,
             rp_inuse := filter (\<lambda>x. fst x \<noteq> it) (rp_inuse s)\<rparr>
      else (rp_assert (rp_size s > 0) s)\<lparr>rp_size := rp_size s - 1\<rparr>)"

definition rp_recycle :: "ident \<Rightarrow> 't res_pool \<Rightarrow> 't res_pool" where
  "rp_recycle it s0 =
     (let s = rp_run_recycler it s0 in
      case pw_take_oldest (rp_waiters s) of
        (None, q) \<Rightarrow> rp_put_back it (s\<lparr>rp_waiters := q\<rparr>)
      | (Some w, q) \<Rightarrow> acq_finish w (Inr it) (s\<lparr>rp_waiters := q\<rparr>))"

section \<open>References\<close>

type_synonym res_ref = "ident option"

definition rr_valid :: "res_ref \<Rightarrow> bool" where
  "rr_valid r = (r \<noteq> None)"

text \<open>\<open>release\<close>: the iterator, and the reference after it.\<close>

definition rr_release :: "res_ref \<Rightarrow> res_ref \<times> res_ref" where
  "rr_release r = (r, None)"

text \<open>\<open>recycle\<close> (and the destructor): only a valid reference gives something back.\<close>

definition rr_recycle :: "res_ref \<Rightarrow> 't res_pool \<Rightarrow> res_ref \<times> 't res_pool" where
  "rr_recycle r s = (case r of None \<Rightarrow> (None, s) | Some it \<Rightarrow> (None, rp_recycle it s))"

text \<open>The move assignment \<open>a = move(b)\<close> of two different references: both after it, and the pool.\<close>

definition rr_assign :: "res_ref \<Rightarrow> res_ref \<Rightarrow> 't res_pool \<Rightarrow> res_ref \<times> res_ref \<times> 't res_pool" where
  "rr_assign a b s =
     (case rr_recycle a s of (_, s1) \<Rightarrow> case rr_release b of (it, b') \<Rightarrow> (it, b', s1))"

section \<open>Configuration\<close>

definition rp_created_count :: "'t res_pool \<Rightarrow> nat" where
  "rp_created_count s = length (rp_unused s) + length (rp_inuse s)"

definition rp_in_use_count :: "'t res_pool \<Rightarrow> nat" where
  "rp_in_use_count s = (if rp_has_res s then length (rp_inuse s) else rp_size s)"

definition rp_unused_count :: "'t res_pool \<Rightarrow> nat" where
  "rp_unused_count s = (if rp_has_res s then length (rp_unused s) else sz_sub (rp_cap s) (rp_size s))"

definition rp_capacity :: "'t res_pool \<Rightarrow> nat" where
  "rp_capacity s = rp_cap s"

definition rp_set_creator :: "(nat \<Rightarrow> 't) \<Rightarrow> 't res_pool \<Rightarrow> 't res_pool" where
  "rp_set_creator f s = s\<lparr>rp_creator := f\<rparr>"

definition rp_set_recycler :: "('t \<Rightarrow> 't) \<Rightarrow> 't res_pool \<Rightarrow> 't res_pool" where
  "rp_set_recycler f s = s\<lparr>rp_recycler := f\<rparr>"

definition rp_set_capacity :: "nat \<Rightarrow> 't res_pool \<Rightarrow> 't res_pool" where
  "rp_set_capacity n s = (rp_assert (n \<ge> occupied_cap_nolock s) s)\<lparr>rp_cap := n\<rparr>"

definition rp_reserve :: "nat \<Rightarrow> 't res_pool \<Rightarrow> 't res_pool" where
  "rp_reserve n s = (if n > occupied_cap_nolock s then s\<lparr>rp_cap := n\<rparr> else s)"

text \<open>
  \<open>reserve_by\<close>: the ratio is a \<open>double\<close>; \<open>scaled c\<close> is \<open>floor(c * ratio)\<close>, computed in floating
  point, and \<open>positive\<close> is the asserted \<open>ratio > 0\<close>.
\<close>

definition rp_reserve_by :: "bool \<Rightarrow> (nat \<Rightarrow> nat) \<Rightarrow> nat \<Rightarrow> 't res_pool \<Rightarrow> 't res_pool" where
  "rp_reserve_by positive scaled maxCap s0 =
     (let s = rp_assert positive s0; newCap = min maxCap (scaled (rp_cap s)) in
      if newCap > occupied_cap_nolock s then s\<lparr>rp_cap := newCap\<rparr> else s)"

definition rp_clear_unused :: "'t res_pool \<Rightarrow> 't res_pool" where
  "rp_clear_unused s = s\<lparr>rp_unused := []\<rparr>"

definition rp_create_all :: "'t res_pool \<Rightarrow> 't res_pool" where
  "rp_create_all s0 =
     (let s = rp_assert (rp_cap s0 \<ge> occupied_cap_nolock s0) s0
      in (rp_create ^^ (rp_cap s - occupied_cap_nolock s)) s)"

text \<open>The assertion of the destructor.\<close>

definition rp_may_destroy :: "'t res_pool \<Rightarrow> bool" where
  "rp_may_destroy s \<longleftrightarrow>
     (if rp_has_res s then rp_inuse s = [] \<and> rp_waiters s = [] else rp_size s = 0 \<and> rp_waiters s = [])"

section \<open>A map of pools\<close>

record ('k, 't) res_pool_map =
  pm_pools :: "'k \<rightharpoonup> 't res_pool"
  pm_has_res :: bool
  pm_auto_add :: bool
  pm_cap :: nat
  pm_creator :: "nat \<Rightarrow> 't"
  pm_recycler :: "'t \<Rightarrow> 't"
  pm_ok :: bool

definition pm_new :: "bool \<Rightarrow> bool \<Rightarrow> nat \<Rightarrow> (nat \<Rightarrow> 't) \<Rightarrow> ('t \<Rightarrow> 't) \<Rightarrow> ('k, 't) res_pool_map" where
  "pm_new has_res auto_add cap creator recycler =
     \<lparr>pm_pools = Map.empty, pm_has_res = has_res, pm_auto_add = auto_add, pm_cap = cap,
      pm_creator = creator, pm_recycler = recycler, pm_ok = (cap > 0)\<rparr>"

definition pm_set_default_capacity :: "nat \<Rightarrow> ('k, 't) res_pool_map \<Rightarrow> ('k, 't) res_pool_map" where
  "pm_set_default_capacity n m = m\<lparr>pm_cap := n, pm_ok := pm_ok m \<and> n > 0\<rparr>"

definition pm_set_default_creator :: "(nat \<Rightarrow> 't) \<Rightarrow> ('k, 't) res_pool_map \<Rightarrow> ('k, 't) res_pool_map" where
  "pm_set_default_creator f m = m\<lparr>pm_creator := f\<rparr>"

definition pm_set_default_recycler :: "('t \<Rightarrow> 't) \<Rightarrow> ('k, 't) res_pool_map \<Rightarrow> ('k, 't) res_pool_map" where
  "pm_set_default_recycler f m = m\<lparr>pm_recycler := f\<rparr>"

definition pm_get_pool :: "'k \<Rightarrow> ('k, 't) res_pool_map \<Rightarrow> 't res_pool option" where
  "pm_get_pool k m = pm_pools m k"

text \<open>
  \<open>try_emplace_pool(k, args...)\<close>: the arguments given, completed by the last defaults; a pool that
  exists is left as it is. \<open>True\<close> when a pool was made.
\<close>

definition pm_try_emplace_pool ::
  "'k \<Rightarrow> nat option \<Rightarrow> (nat \<Rightarrow> 't) option \<Rightarrow> ('t \<Rightarrow> 't) option \<Rightarrow>
   ('k, 't) res_pool_map \<Rightarrow> ('t res_pool \<times> bool) \<times> ('k, 't) res_pool_map" where
  "pm_try_emplace_pool k cap creator recycler m =
     (case pm_pools m k of
        Some p \<Rightarrow> ((p, False), m)
      | None \<Rightarrow>
          (let p = rp_new (pm_has_res m)
                     (case cap of None \<Rightarrow> pm_cap m | Some n \<Rightarrow> n)
                     (case creator of None \<Rightarrow> pm_creator m | Some f \<Rightarrow> f)
                     (case recycler of None \<Rightarrow> pm_recycler m | Some f \<Rightarrow> f)
           in ((p, True), m\<lparr>pm_pools := (pm_pools m)(k \<mapsto> p)\<rparr>)))"

text \<open>The pool an acquisition uses: made when missing if \<open>AutoAddPool\<close>, else \<open>not_found\<close>.\<close>

definition pm_pool_for :: "'k \<Rightarrow> ('k, 't) res_pool_map \<Rightarrow> (errc + 't res_pool) \<times> ('k, 't) res_pool_map" where
  "pm_pool_for k m =
     (if pm_auto_add m
      then (case pm_try_emplace_pool k None None None m of ((p, _), m') \<Rightarrow> (Inr p, m'))
      else (case pm_get_pool k m of None \<Rightarrow> (Inl errc_not_found, m) | Some p \<Rightarrow> (Inr p, m)))"

definition pm_try_acquire :: "'k \<Rightarrow> ('k, 't) res_pool_map \<Rightarrow> (errc + ident) \<times> ('k, 't) res_pool_map" where
  "pm_try_acquire k m =
     (case pm_pool_for k m of
        (Inl e, m') \<Rightarrow> (Inl e, m')
      | (Inr p, m') \<Rightarrow>
          (case rp_try_acquire p of (r, p') \<Rightarrow> (r, m'\<lparr>pm_pools := (pm_pools m')(k \<mapsto> p')\<rparr>)))"

text \<open>
  \<open>rpm_async_acquire_op::initiate\<close>. The operation object is created with its start; its result,
  when it has one at once, is returned beside the map.
\<close>

definition pm_acquire ::
  "'k \<Rightarrow> ident \<Rightarrow> bool \<Rightarrow> bool \<Rightarrow> ('k, 't) res_pool_map \<Rightarrow>
   (bool \<times> (errc + ident) option) \<times> ('k, 't) res_pool_map" where
  "pm_acquire k i stopReq stopPoss m =
     (if stopReq then ((False, Some (Inl errc_canceled)), m)
      else
        (case pm_pool_for k m of
           (Inl e, m') \<Rightarrow> ((False, Some (Inl e)), m')
         | (Inr p, m') \<Rightarrow>
             (case acq_initiate i False stopPoss
                     (p\<lparr>rp_ops := (rp_ops p)(i \<mapsto> \<lparr>aq_r = None, aq_scb = False\<rparr>)\<rparr>) of
                (waits, p') \<Rightarrow>
                  ((waits, aq_r (the (rp_ops p' i))), m'\<lparr>pm_pools := (pm_pools m')(k \<mapsto> p')\<rparr>))))"


section \<open>Executions\<close>

datatype rp_event =
    RpAcquire ident bool bool
  | RpTry
  | RpRecycle ident
  | RpStop ident
  | RpSetCapacity nat
  | RpReserve nat
  | RpClearUnused
  | RpCreateAll

definition acq_create :: "ident \<Rightarrow> 't res_pool \<Rightarrow> 't res_pool" where
  "acq_create i s = s\<lparr>rp_ops := (rp_ops s)(i \<mapsto> \<lparr>aq_r = None, aq_scb = False\<rparr>)\<rparr>"

text \<open>
  One event on the pool, the references \<open>H\<close> that clients hold (a completed operation holds its
  result), and the operations \<open>P\<close> that were parked. A recycled reference goes to the waiter that was
  resumed, if one was.
\<close>

fun rp_step ::
  "rp_event \<Rightarrow> 't res_pool \<times> ident list \<times> ident list \<Rightarrow> 't res_pool \<times> ident list \<times> ident list" where
  "rp_step (RpAcquire i sr sp) (s, H, P) =
     (case acq_initiate i sr sp (acq_create i s) of
        (waits, s') \<Rightarrow>
          (s', H @ (case aq_r (the (rp_ops s' i)) of Some (Inr it) \<Rightarrow> [it] | _ \<Rightarrow> []),
           P @ (if waits then [i] else [])))"
| "rp_step RpTry (s, H, P) =
     (case rp_try_acquire s of (r, s') \<Rightarrow> (s', H @ (case r of Inl e \<Rightarrow> [] | Inr it \<Rightarrow> [it]), P))"
| "rp_step (RpRecycle it) (s, H, P) =
     (let s' = rp_recycle it s
      in (s', remove1 it H @ (if length (rp_resumed s) < length (rp_resumed s') then [it] else []), P))"
| "rp_step (RpStop i) (s, H, P) = (rp_cancel i s, H, P)"
| "rp_step (RpSetCapacity n) (s, H, P) = (rp_set_capacity n s, H, P)"
| "rp_step (RpReserve n) (s, H, P) = (rp_reserve n s, H, P)"
| "rp_step RpClearUnused (s, H, P) = (rp_clear_unused s, H, P)"
| "rp_step RpCreateAll (s, H, P) = (rp_create_all s, H, P)"

text \<open>
  What a client must respect: operation objects are fresh, only held references are recycled, the
  capacity is positive and not set below what is occupied, the members of the other variant are not
  called.
\<close>

fun rp_allowed :: "rp_event \<Rightarrow> 't res_pool \<times> ident list \<times> ident list \<Rightarrow> bool" where
  "rp_allowed (RpAcquire i sr sp) (s, H, P) \<longleftrightarrow> rp_ops s i = None"
| "rp_allowed (RpRecycle it) (s, H, P) \<longleftrightarrow> it \<in> set H"
| "rp_allowed (RpSetCapacity n) (s, H, P) \<longleftrightarrow> 0 < n \<and> occupied_cap_nolock s \<le> n"
| "rp_allowed RpClearUnused (s, H, P) \<longleftrightarrow> rp_has_res s"
| "rp_allowed RpCreateAll (s, H, P) \<longleftrightarrow> rp_has_res s"
| "rp_allowed _ _ \<longleftrightarrow> True"

inductive rp_reach ::
  "(rp_event \<Rightarrow> 't res_pool \<times> ident list \<times> ident list \<Rightarrow> bool) \<Rightarrow> 't res_pool \<Rightarrow>
   't res_pool \<times> ident list \<times> ident list \<Rightarrow> bool"
  for A s0 where
  rp_start: "rp_reach A s0 (s0, [], [])"
| rp_event: "rp_reach A s0 x \<Longrightarrow> A ev x \<Longrightarrow> rp_reach A s0 (rp_step ev x)"

section \<open>Invariant\<close>

text \<open>The held references are exactly the resources in use; a resource is in one list only.\<close>

definition rp_held :: "'t res_pool \<Rightarrow> ident list \<Rightarrow> bool" where
  "rp_held s H \<longleftrightarrow>
     (if rp_has_res s
      then distinct (map fst (rp_inuse s) @ map fst (rp_unused s)) \<and>
        (\<forall>i \<in> set (map fst (rp_inuse s) @ map fst (rp_unused s)). i < rp_made s) \<and>
        mset H = mset (map fst (rp_inuse s))
      else length H = rp_size s \<and> rp_inuse s = [] \<and> rp_unused s = [])"

lemma rp_held_update [simp]:
  "rp_held (s\<lparr>rp_ops := x1\<rparr>) H = rp_held s H"
  "rp_held (s\<lparr>rp_waiters := x2\<rparr>) H = rp_held s H"
  "rp_held (s\<lparr>rp_resumed := x3\<rparr>) H = rp_held s H"
  "rp_held (s\<lparr>rp_ok := x4\<rparr>) H = rp_held s H"
  "rp_held (s\<lparr>rp_cap := x5\<rparr>) H = rp_held s H"
  by (simp_all add: rp_held_def)

lemma occupied_cap_update [simp]:
  "occupied_cap_nolock (s\<lparr>rp_ops := x1\<rparr>) = occupied_cap_nolock s"
  "occupied_cap_nolock (s\<lparr>rp_waiters := x2\<rparr>) = occupied_cap_nolock s"
  "occupied_cap_nolock (s\<lparr>rp_resumed := x3\<rparr>) = occupied_cap_nolock s"
  "occupied_cap_nolock (s\<lparr>rp_ok := x4\<rparr>) = occupied_cap_nolock s"
  "occupied_cap_nolock (s\<lparr>rp_cap := x5\<rparr>) = occupied_cap_nolock s"
  by (simp_all add: occupied_cap_nolock_def)

lemma rp_in_use_update [simp]:
  "rp_in_use_count (s\<lparr>rp_ops := x1\<rparr>) = rp_in_use_count s"
  "rp_in_use_count (s\<lparr>rp_waiters := x2\<rparr>) = rp_in_use_count s"
  "rp_in_use_count (s\<lparr>rp_resumed := x3\<rparr>) = rp_in_use_count s"
  "rp_in_use_count (s\<lparr>rp_ok := x4\<rparr>) = rp_in_use_count s"
  "rp_in_use_count (s\<lparr>rp_cap := x5\<rparr>) = rp_in_use_count s"
  by (simp_all add: rp_in_use_count_def)

definition rp_inv :: "'t res_pool \<Rightarrow> ident list \<Rightarrow> ident list \<Rightarrow> ident list \<Rightarrow> bool" where
  "rp_inv s H P D \<longleftrightarrow>
     rp_ok s \<and> 0 < rp_cap s \<and> occupied_cap_nolock s \<le> rp_cap s \<and> rp_held s H \<and>
     distinct P \<and> mset P = mset (rp_resumed s) + mset (D @ somes (rp_waiters s)) \<and>
     (\<forall>i \<in> set (D @ somes (rp_waiters s)). acq_pending i s) \<and>
     (\<forall>i \<in> set P. i \<in> dom (rp_ops s))"

text \<open>Someone waits only when everything is in use.\<close>

definition rp_busy :: "'t res_pool \<Rightarrow> bool" where
  "rp_busy s \<longleftrightarrow> (somes (rp_waiters s) \<noteq> [] \<longrightarrow> rp_cap s \<le> rp_in_use_count s)"

lemma rp_inv_new: "0 < cap \<Longrightarrow> rp_inv (rp_new has_res cap f g) [] [] []"
  by (simp add: rp_inv_def rp_held_def rp_new_def occupied_cap_nolock_def)

lemma acq_pending_iff: "acq_pending i s \<longleftrightarrow> (\<exists>o'. rp_ops s i = Some o' \<and> aq_r o' = None)"
  by (auto simp: acq_pending_def split: option.splits)

lemma rp_inv_distinct:
  assumes "rp_inv s H P D"
  shows "distinct (rp_resumed s @ D @ somes (rp_waiters s))"
proof -
  have "mset P = mset (rp_resumed s @ D @ somes (rp_waiters s))"
    using assms by (simp add: rp_inv_def)
  moreover have "distinct P"
    using assms by (simp add: rp_inv_def)
  ultimately show ?thesis
    using mset_eq_imp_distinct_iff by metis
qed

lemma rp_inv_held_le: "rp_inv s H P D \<Longrightarrow> length H = rp_in_use_count s \<and> rp_in_use_count s \<le> rp_cap s"
  using mset_eq_length [of H "map fst (rp_inuse s)"]
  by (auto simp: rp_inv_def rp_held_def rp_in_use_count_def occupied_cap_nolock_def split: if_splits)

lemma acq_finish_inv:
  assumes "rp_inv s H P (w # D)"
  shows "rp_inv (acq_finish w r s) H P D"
  using assms rp_inv_distinct [OF assms]
  by (auto simp: rp_inv_def acq_finish_def acq_set_r_def rp_assert_def Let_def acq_pending_iff
      simp del: set_somes)

lemma acq_set_r_inv:
  assumes "rp_inv s H P D" and "i \<notin> set P"
  shows "rp_inv (acq_set_r i r s) H P D"
proof -
  have "set P = set_mset (mset (rp_resumed s) + mset (D @ somes (rp_waiters s)))"
    using assms(1) by (metis rp_inv_def set_mset_mset)
  then have "i \<notin> set (D @ somes (rp_waiters s))"
    using assms(2) by auto
  then show ?thesis
    using assms by (auto simp: rp_inv_def acq_set_r_def acq_pending_iff simp del: set_somes)
qed

lemma rp_use_front_inv:
  assumes "rp_inv s H P D" and "rp_has_res s" and "rp_unused s \<noteq> []"
  shows "\<exists>it. fst (rp_use_front s) = Inr it \<and> rp_inv (snd (rp_use_front s)) (H @ [it]) P D"
proof -
  obtain x xs where u: "rp_unused s = x # xs"
    using assms(3) by (cases "rp_unused s") auto
  have "rp_inv (s\<lparr>rp_inuse := x # rp_inuse s, rp_unused := xs\<rparr>) (H @ [fst x]) P D"
    using assms(1,2) u by (auto simp: rp_inv_def rp_held_def acq_pending_iff occupied_cap_nolock_def simp del: set_somes)
  then show ?thesis
    using u by (simp add: rp_use_front_def)
qed

lemma rp_create_held:
  assumes "rp_held s H" and "rp_has_res s"
  shows "rp_held (rp_create s) H"
proof -
  let ?ks = "map fst (rp_inuse s)" and ?us = "map fst (rp_unused s)"
  have "\<forall>i \<in> set (?ks @ ?us). i < rp_made s" and d: "distinct (?ks @ ?us)"
    using assms by (simp_all add: rp_held_def)
  then have "rp_made s \<notin> set (?ks @ ?us)" and "\<forall>i \<in> set (?ks @ ?us). i < Suc (rp_made s)"
    using less_SucI by blast+
  moreover have "map fst (rp_inuse (rp_create s)) = ?ks" "set (map fst (rp_unused (rp_create s))) = insert (rp_made s) (set ?us)"
    "distinct (map fst (rp_unused (rp_create s))) \<longleftrightarrow> distinct ?us \<and> rp_made s \<notin> set ?us"
    "rp_made (rp_create s) = Suc (rp_made s)" "rp_has_res (rp_create s)"
    using assms(2) by (auto simp: rp_create_def)
  ultimately show ?thesis
    using assms d by (simp add: rp_held_def del: set_map)
qed

lemma rp_create_inv:
  assumes "rp_inv s H P D" and "rp_has_res s" and "occupied_cap_nolock s < rp_cap s"
  shows "rp_inv (rp_create s) H P D"
proof -
  have "rp_held (rp_create s) H"
    using assms rp_create_held [of s H] by (simp add: rp_inv_def)
  then show ?thesis
    using assms by (simp add: rp_inv_def acq_pending_iff occupied_cap_nolock_def rp_create_def del: set_somes)
qed

lemma rp_try_acquire_inv:
  assumes "rp_inv s H P D"
  shows "rp_inv (snd (rp_try_acquire s)) (H @ (case fst (rp_try_acquire s) of Inl e \<Rightarrow> [] | Inr it \<Rightarrow> [it])) P D"
proof (cases "rp_has_res s")
  case True
  show ?thesis
  proof (cases "rp_unused s = []")
    case e: True
    show ?thesis
    proof (cases "length (rp_inuse s) < rp_cap s")
      case l: True
      have "rp_inv (rp_create s) H P D"
        by (rule rp_create_inv [OF assms True]) (use e l True in \<open>simp add: occupied_cap_nolock_def\<close>)
      from rp_use_front_inv [OF this] show ?thesis
        using True e l by (auto simp: rp_try_acquire_def rp_create_def)
    next
      case False
      then show ?thesis
        using assms True e by (simp add: rp_try_acquire_def)
    qed
  next
    case False
    from rp_use_front_inv [OF assms True False] show ?thesis
      using True False by (auto simp: rp_try_acquire_def)
  qed
next
  case False
  then show ?thesis
    using assms by (auto simp: rp_try_acquire_def rp_inv_def rp_held_def acq_pending_iff occupied_cap_nolock_def simp del: set_somes)
qed

lemma rp_try_acquire_fields:
  "rp_cap (snd (rp_try_acquire s)) = rp_cap s" "rp_waiters (snd (rp_try_acquire s)) = rp_waiters s"
  "rp_ops (snd (rp_try_acquire s)) = rp_ops s" "rp_resumed (snd (rp_try_acquire s)) = rp_resumed s"
  by (auto simp: rp_try_acquire_def rp_use_front_def rp_create_def rp_assert_def split: list.splits)

lemma rp_try_acquire_fails:
  "fst (rp_try_acquire s) = Inl e \<Longrightarrow> rp_unused s = [] \<or> \<not> rp_has_res s \<Longrightarrow>
   rp_cap s \<le> rp_in_use_count s \<and> snd (rp_try_acquire s) = s"
  by (auto simp: rp_try_acquire_def rp_use_front_def rp_create_def rp_in_use_count_def
      split: if_splits list.splits)

lemma rp_try_acquire_in_use: "rp_in_use_count s \<le> rp_in_use_count (snd (rp_try_acquire s))"
  by (auto simp: rp_try_acquire_def rp_use_front_def rp_create_def rp_in_use_count_def rp_assert_def
      split: list.splits)

lemma rp_try_acquire_error:
  assumes "fst (rp_try_acquire s) = Inl e" and "rp_ok (snd (rp_try_acquire s))"
  shows "e = errc_resource_unavailable \<and> rp_cap s \<le> rp_in_use_count s \<and> snd (rp_try_acquire s) = s"
  using assms by (auto simp: rp_try_acquire_def rp_use_front_def rp_create_def rp_in_use_count_def rp_assert_def
      split: if_splits list.splits)

lemma acq_create_inv:
  assumes "rp_inv s H P D" and "rp_ops s i = None"
  shows "rp_inv (acq_create i s) H P D" and "i \<notin> set P" and "acq_pending i (acq_create i s)"
  using assms by (auto simp: rp_inv_def acq_create_def acq_pending_iff)

lemma acq_initiate_inv:
  assumes inv: "rp_inv s H P []" and new: "i \<notin> set P" and pend: "acq_pending i s"
    and st: "acq_initiate i sr sp s = (waits, s')"
  shows "rp_inv s' (H @ (case aq_r (the (rp_ops s' i)) of Some (Inr it) \<Rightarrow> [it] | _ \<Rightarrow> []))
      (P @ (if waits then [i] else [])) []"
    and "rp_busy s \<Longrightarrow> rp_busy s'"
proof -
  have a: "rp_assert (acq_pending i s) s = s"
    using inv pend by (simp add: rp_assert_def rp_inv_def)
  obtain r s1 where t: "rp_try_acquire s = (r, s1)"
    by fastforce
  note T = rp_try_acquire_inv [OF inv] rp_try_acquire_fields [of s] rp_try_acquire_in_use [of s]
  obtain o' where o': "rp_ops s i = Some o'" "aq_r o' = None"
    using pend by (auto simp: acq_pending_iff)
  have setr: "aq_r (the (rp_ops (acq_set_r i r x) i)) = Some r" if "rp_ops x i = Some o'"
    for r and x :: "'a res_pool"
    using that by (simp add: acq_set_r_def)
  have "rp_inv s' (H @ (case aq_r (the (rp_ops s' i)) of Some (Inr it) \<Rightarrow> [it] | _ \<Rightarrow> []))
      (P @ (if waits then [i] else [])) [] \<and> (rp_busy s \<longrightarrow> rp_busy s')"
  proof (cases sr)
    case True
    then have "s' = acq_set_r i (Inl errc_canceled) s" "\<not> waits"
      using st a by (auto simp: acq_initiate_def)
    then show ?thesis
      using acq_set_r_inv [OF inv new] setr [OF o'(1)]
      by (simp add: rp_busy_def acq_set_r_def rp_in_use_count_def)
  next
    case False
    show ?thesis
    proof (cases r)
      case (Inr it)
      then have s': "s' = acq_set_r i (Inr it) s1" "\<not> waits"
        using st a t False by (auto simp: acq_initiate_def)
      have "rp_inv s1 (H @ [it]) P []"
        using T(1) t Inr by simp
      then show ?thesis
        using acq_set_r_inv [of s1 "H @ [it]" P "[]" i "Inr it"] new s' setr [of s1 "Inr it"] T t o'
        by (auto simp: rp_busy_def acq_set_r_def rp_in_use_count_def)
    next
      case (Inl e)
      have i1: "rp_inv s1 H P []"
        using T(1) t Inl by simp
      then have "rp_ok s1"
        by (simp add: rp_inv_def)
      then have full: "rp_cap s \<le> rp_in_use_count s" and s1: "s1 = s"
        using rp_try_acquire_error [of s e] t Inl by simp_all
      have s': "s' = s\<lparr>rp_ops := (rp_ops s)(i := map_option (\<lambda>o'. o'\<lparr>aq_scb := sp\<rparr>) (rp_ops s i)),
          rp_waiters := rp_waiters s @ [Some i]\<rparr>" and w: "waits"
        using st a t False Inl s1 by (auto simp: acq_initiate_def pw_add_def Let_def)
      show ?thesis
        using inv new o' full w unfolding s'
        by (auto simp: rp_inv_def acq_pending_iff rp_busy_def simp del: set_somes)
    qed
  qed
  then show "rp_inv s' (H @ (case aq_r (the (rp_ops s' i)) of Some (Inr it) \<Rightarrow> [it] | _ \<Rightarrow> []))
      (P @ (if waits then [i] else [])) []" and "rp_busy s \<Longrightarrow> rp_busy s'"
    by blast+
qed

lemma filter_keys:
  assumes "distinct (map fst xs)" and "it \<in> fst ` set xs"
  shows "map fst (filter (\<lambda>x. fst x \<noteq> it) xs) = remove1 it (map fst xs)"
    and "map fst (filter (\<lambda>x. fst x = it) xs) = [it]"
proof -
  have "map fst (filter (\<lambda>x. fst x \<noteq> it) xs) = filter (\<lambda>i. it \<noteq> i) (map fst xs)"
    by (simp add: filter_map comp_def) (metis (mono_tags, lifting) filter_cong)
  then show "map fst (filter (\<lambda>x. fst x \<noteq> it) xs) = remove1 it (map fst xs)"
    by (simp only: distinct_remove1_removeAll [OF assms(1)] removeAll_filter_not_eq)
  show "map fst (filter (\<lambda>x. fst x = it) xs) = [it]"
    using assms
  proof (induction xs)
    case Nil
    then show ?case by simp
  next
    case (Cons x xs)
    then show ?case
      by (cases "fst x = it") (auto simp: filter_empty_conv rev_image_eqI)
  qed
qed

lemma rp_run_recycler_keys:
  "map fst (rp_inuse (rp_run_recycler it s)) = map fst (rp_inuse s)"
  "rp_unused (rp_run_recycler it s) = rp_unused s" "rp_made (rp_run_recycler it s) = rp_made s"
  "rp_size (rp_run_recycler it s) = rp_size s" "rp_has_res (rp_run_recycler it s) = rp_has_res s"
  "length (rp_inuse (rp_run_recycler it s)) = length (rp_inuse s)"
  "rp_inuse s = [] \<Longrightarrow> rp_inuse (rp_run_recycler it s) = []"
  by (simp_all add: rp_run_recycler_def rp_assert_def)

lemma rp_run_recycler_fields:
  "rp_cap (rp_run_recycler it s) = rp_cap s" "rp_waiters (rp_run_recycler it s) = rp_waiters s"
  "rp_resumed (rp_run_recycler it s) = rp_resumed s" "rp_ops (rp_run_recycler it s) = rp_ops s"
  "rp_in_use_count (rp_run_recycler it s) = rp_in_use_count s"
  "occupied_cap_nolock (rp_run_recycler it s) = occupied_cap_nolock s"
  by (simp_all add: rp_run_recycler_def rp_assert_def rp_in_use_count_def occupied_cap_nolock_def)

lemma rp_run_recycler_inv:
  assumes "rp_inv s H P D" and "it \<in> set H"
  shows "rp_inv (rp_run_recycler it s) H P D"
    and "rp_has_res s \<Longrightarrow> it \<in> set (map fst (rp_inuse (rp_run_recycler it s)))"
proof -
  have in_use: "rp_has_res s \<Longrightarrow> it \<in> set (map fst (rp_inuse s))"
    using assms mset_eq_setD [of H "map fst (rp_inuse s)"] by (simp add: rp_inv_def rp_held_def)
  then show "rp_has_res s \<Longrightarrow> it \<in> set (map fst (rp_inuse (rp_run_recycler it s)))"
    by (simp only: rp_run_recycler_keys)
  have "rp_ok (rp_run_recycler it s)"
    using assms(1) in_use by (auto simp: rp_inv_def rp_run_recycler_def rp_assert_def)
  moreover have "rp_held (rp_run_recycler it s) H"
    using assms(1) by (simp add: rp_inv_def rp_held_def rp_run_recycler_keys del: set_map map_append split: if_splits)
  ultimately show "rp_inv (rp_run_recycler it s) H P D"
    using assms(1) by (simp add: rp_inv_def rp_run_recycler_fields acq_pending_iff)
qed

lemma rp_put_back_held:
  assumes "rp_held s H" and "it \<in> set H"
  shows "rp_held (rp_put_back it s) (remove1 it H)"
proof (cases "rp_has_res s")
  case True
  have d: "distinct (map fst (rp_inuse s))" and m: "mset H = mset (map fst (rp_inuse s))"
    using assms(1) True by (simp_all add: rp_held_def)
  have i: "it \<in> fst ` set (rp_inuse s)"
    using assms(2) mset_eq_setD [OF m] by simp
  note k = filter_keys [OF d i]
  have "distinct (remove1 it (map fst (rp_inuse s)) @ [it] @ map fst (rp_unused s))"
    using assms(1) True i by (auto simp: rp_held_def)
  moreover have "set (remove1 it (map fst (rp_inuse s)) @ [it]) \<subseteq> set (map fst (rp_inuse s))"
    using i set_remove1_subset [of it "map fst (rp_inuse s)"] by auto
  ultimately show ?thesis
    using assms(1) True m k by (auto simp: rp_held_def rp_put_back_def)
next
  case False
  have "0 < length H"
    using assms(2) by (cases H) auto
  then show ?thesis
    using False assms by (simp add: rp_held_def rp_put_back_def rp_assert_def length_remove1)
qed

lemma rp_put_back_inv:
  assumes "rp_inv s H P D" and "it \<in> set H"
  shows "rp_inv (rp_put_back it s) (remove1 it H) P D"
proof -
  have h: "rp_held (rp_put_back it s) (remove1 it H)"
    using assms rp_put_back_held [of s H it] by (simp add: rp_inv_def)
  have len: "length (filter (\<lambda>x. fst x = it) (rp_inuse s)) + length (filter (\<lambda>x. fst x \<noteq> it) (rp_inuse s)) =
      length (rp_inuse s)"
    by (rule sum_length_filter_compl)
  have "\<not> rp_has_res s \<longrightarrow> length H = rp_size s" and "0 < length H"
    using assms by (auto simp: rp_inv_def rp_held_def)
  then have "\<not> rp_has_res s \<longrightarrow> 0 < rp_size s"
    by metis
  then show ?thesis
    using assms(1) h len
    by (auto simp: rp_inv_def rp_held_def rp_put_back_def rp_assert_def acq_pending_iff occupied_cap_nolock_def
        simp del: set_somes split: if_splits)
qed

lemma rp_inv_mset:
  assumes "rp_inv s H P D" and "mset H' = mset H"
  shows "rp_inv s H' P D"
proof -
  have "rp_held s H' = rp_held s H"
    using mset_eq_length [OF assms(2)] by (simp only: rp_held_def assms(2))
  then show ?thesis
    using assms(1) by (simp add: rp_inv_def)
qed

lemma rp_put_back_fields:
  "rp_waiters (rp_put_back it s) = rp_waiters s" "rp_resumed (rp_put_back it s) = rp_resumed s"
  by (simp_all add: rp_put_back_def rp_assert_def)

lemma acq_finish_fields:
  "rp_waiters (acq_finish i r s) = rp_waiters s" "rp_resumed (acq_finish i r s) = rp_resumed s @ [i]"
  "rp_cap (acq_finish i r s) = rp_cap s" "rp_in_use_count (acq_finish i r s) = rp_in_use_count s"
  by (simp_all add: acq_finish_def acq_set_r_def rp_assert_def Let_def rp_in_use_count_def)

lemma rp_recycle_inv:
  assumes inv: "rp_inv s H P []" and h: "it \<in> set H"
  shows "rp_inv (rp_recycle it s)
      (remove1 it H @ (if length (rp_resumed s) < length (rp_resumed (rp_recycle it s)) then [it] else [])) P []"
    and "rp_busy s \<Longrightarrow> rp_busy (rp_recycle it s)"
proof -
  let ?s = "rp_run_recycler it s"
  note R = rp_run_recycler_inv [OF inv h]
  obtain w q where t: "pw_take_oldest (rp_waiters s) = (w, q)"
    by fastforce
  have "rp_inv (rp_recycle it s)
      (remove1 it H @ (if length (rp_resumed s) < length (rp_resumed (rp_recycle it s)) then [it] else [])) P [] \<and>
      (rp_busy s \<longrightarrow> rp_busy (rp_recycle it s))"
  proof (cases w)
    case None
    then have n: "somes (rp_waiters s) = [] \<and> somes q = []"
      using pw.take_oldest_NoneD [of "rp_waiters s" q] t by simp
    let ?s1 = "?s\<lparr>rp_waiters := q\<rparr>"
    have 1: "rp_inv ?s1 H P []"
      using R(1) n by (simp add: rp_inv_def acq_pending_iff rp_run_recycler_fields del: set_somes)
    have 2: "rp_recycle it s = rp_put_back it ?s1"
      using t None by (simp add: rp_recycle_def rp_run_recycler_fields)
    have "rp_inv (rp_put_back it ?s1) (remove1 it H) P []"
      by (rule rp_put_back_inv [OF 1 h])
    then show ?thesis
      using 2 n by (simp add: rp_put_back_fields rp_run_recycler_fields rp_busy_def)
  next
    case (Some i)
    then have l: "somes (rp_waiters s) = i # somes q"
      using pw.take_oldest_SomeD [of "rp_waiters s" i q] t by simp
    let ?s1 = "?s\<lparr>rp_waiters := q\<rparr>"
    have 1: "rp_inv ?s1 H P [i]"
      using R(1) l by (simp add: rp_inv_def acq_pending_iff rp_run_recycler_fields del: set_somes)
    have 2: "rp_recycle it s = acq_finish i (Inr it) ?s1"
      using t Some by (simp add: rp_recycle_def rp_run_recycler_fields)
    have m: "mset (remove1 it H @ [it]) = mset H"
      using h by simp
    have "rp_inv (acq_finish i (Inr it) ?s1) (remove1 it H @ [it]) P []"
      by (rule rp_inv_mset [OF acq_finish_inv [OF 1] m])
    moreover have "rp_busy s \<longrightarrow> rp_busy (acq_finish i (Inr it) ?s1)"
      using l rp_run_recycler_fields(5) [of it s]
      by (simp add: rp_busy_def acq_finish_fields rp_run_recycler_fields del: set_somes)
    ultimately show ?thesis
      using 2 by (simp add: acq_finish_fields rp_run_recycler_fields)
  qed
  then show "rp_inv (rp_recycle it s)
      (remove1 it H @ (if length (rp_resumed s) < length (rp_resumed (rp_recycle it s)) then [it] else [])) P []"
    and "rp_busy s \<Longrightarrow> rp_busy (rp_recycle it s)"
    by blast+
qed

lemma rp_cancel_inv:
  assumes inv: "rp_inv s H P []"
  shows "rp_inv (rp_cancel i s) H P []" and "rp_busy s \<Longrightarrow> rp_busy (rp_cancel i s)"
proof -
  have "rp_inv (rp_cancel i s) H P [] \<and> (rp_busy s \<longrightarrow> rp_busy (rp_cancel i s))"
  proof (cases "i \<in> set (somes (rp_waiters s))")
    case True
    obtain q where e: "pw_erase (rp_waiters s) i = (True, q)"
      using True pw.erase_found [of "rp_waiters s" i] by (cases "pw_erase (rp_waiters s) i") simp
    note sp = wq_erase_takes [of "rp_waiters s" i q] e [unfolded pw_erase_eq]
    have "rp_inv (s\<lparr>rp_waiters := q\<rparr>) H P [i]"
      using inv sp by (auto simp: rp_inv_def acq_pending_iff simp del: set_somes)
    moreover have "rp_busy s \<longrightarrow> rp_busy (acq_finish i (Inl errc_canceled) (s\<lparr>rp_waiters := q\<rparr>))"
      using True by (auto simp: rp_busy_def acq_finish_fields simp del: set_somes)
    ultimately show ?thesis
      using e by (simp add: rp_cancel_def acq_finish_inv)
  next
    case False
    then have "fst (pw_erase (rp_waiters s) i) = False"
      using pw.erase_found [of "rp_waiters s" i] by simp
    then have "rp_cancel i s = s"
      by (cases "pw_erase (rp_waiters s) i") (simp add: rp_cancel_def)
    then show ?thesis
      using inv by simp
  qed
  then show "rp_inv (rp_cancel i s) H P []" "rp_busy s \<Longrightarrow> rp_busy (rp_cancel i s)"
    by blast+
qed

lemma rp_create_fields:
  "occupied_cap_nolock (rp_create s) = (if rp_has_res s then Suc (occupied_cap_nolock s) else occupied_cap_nolock s)"
  "rp_cap (rp_create s) = rp_cap s" "rp_has_res (rp_create s) = rp_has_res s"
  "rp_waiters (rp_create s) = rp_waiters s" "rp_in_use_count (rp_create s) = rp_in_use_count s"
  by (simp_all add: rp_create_def occupied_cap_nolock_def rp_in_use_count_def)

lemma rp_create_all_inv:
  assumes "rp_inv s H P D" and "rp_has_res s"
  shows "rp_inv (rp_create_all s) H P D" and "rp_busy s \<Longrightarrow> rp_busy (rp_create_all s)"
proof -
  have a: "rp_assert (rp_cap s \<ge> occupied_cap_nolock s) s = s"
    using assms(1) by (simp add: rp_inv_def rp_assert_def)
  have loop: "n \<le> rp_cap s - occupied_cap_nolock s \<Longrightarrow>
      rp_inv ((rp_create ^^ n) s) H P D \<and> rp_has_res ((rp_create ^^ n) s) \<and>
      rp_cap ((rp_create ^^ n) s) = rp_cap s \<and>
      occupied_cap_nolock ((rp_create ^^ n) s) = occupied_cap_nolock s + n \<and>
      rp_waiters ((rp_create ^^ n) s) = rp_waiters s \<and>
      rp_in_use_count ((rp_create ^^ n) s) = rp_in_use_count s" for n
  proof (induction n)
    case 0
    then show ?case using assms by simp
  next
    case (Suc n)
    then show ?case
      using rp_create_inv [of "(rp_create ^^ n) s" H P D] by (simp add: rp_create_fields)
  qed
  show "rp_inv (rp_create_all s) H P D" "rp_busy s \<Longrightarrow> rp_busy (rp_create_all s)"
    using loop [OF order_refl] a by (simp_all add: rp_create_all_def rp_busy_def)
qed

lemma rp_clear_unused_fields:
  "rp_in_use_count (rp_clear_unused s) = rp_in_use_count s" "rp_cap (rp_clear_unused s) = rp_cap s"
  "rp_waiters (rp_clear_unused s) = rp_waiters s" "rp_resumed (rp_clear_unused s) = rp_resumed s"
  "rp_ops (rp_clear_unused s) = rp_ops s" "rp_ok (rp_clear_unused s) = rp_ok s"
  "occupied_cap_nolock (rp_clear_unused s) \<le> occupied_cap_nolock s"
  by (simp_all add: rp_clear_unused_def rp_in_use_count_def occupied_cap_nolock_def)

lemma rp_clear_unused_inv:
  assumes "rp_inv s H P D" and "rp_has_res s"
  shows "rp_inv (rp_clear_unused s) H P D"
proof -
  have "rp_held (rp_clear_unused s) H"
    using assms by (simp add: rp_inv_def rp_held_def rp_clear_unused_def ball_Un)
  then show ?thesis
    using assms le_trans [OF rp_clear_unused_fields(7) [of s], of "rp_cap s"]
    by (simp add: rp_inv_def acq_pending_iff rp_clear_unused_fields)
qed

lemma rp_step_inv:
  assumes inv: "rp_inv s H P []" and al: "rp_allowed ev (s, H, P)" and st: "rp_step ev (s, H, P) = (s', H', P')"
  shows "rp_inv s' H' P' []"
proof (cases ev)
  case (RpAcquire i sr sp)
  then have "rp_ops s i = None"
    using al by simp
  note c = acq_create_inv [OF inv this]
  obtain w s1 where e: "acq_initiate i sr sp (acq_create i s) = (w, s1)"
    by fastforce
  show ?thesis
    using acq_initiate_inv(1) [OF c e] st RpAcquire e by auto
next
  case RpTry
  then show ?thesis
    using st rp_try_acquire_inv [OF inv] by (auto split: prod.splits)
next
  case (RpRecycle it)
  then show ?thesis
    using st al rp_recycle_inv(1) [OF inv, of it] by (auto simp: Let_def)
next
  case (RpStop i)
  then show ?thesis
    using st rp_cancel_inv(1) [OF inv] by auto
next
  case (RpSetCapacity n)
  then show ?thesis
    using st al inv
    by (auto simp: rp_set_capacity_def rp_assert_def rp_inv_def acq_pending_iff simp del: set_somes)
next
  case (RpReserve n)
  then show ?thesis
    using st inv
    by (cases "occupied_cap_nolock s < n") (auto simp: rp_reserve_def rp_inv_def acq_pending_iff simp del: set_somes)
next
  case RpClearUnused
  then show ?thesis
    using st al rp_clear_unused_inv [OF inv] by auto
next
  case RpCreateAll
  then show ?thesis
    using st al rp_create_all_inv(1) [OF inv] by auto
qed

lemma rp_reach_inv:
  assumes "rp_reach A (rp_new has_res cap f g) x" and "0 < cap" and A: "\<And>ev x. A ev x \<Longrightarrow> rp_allowed ev x"
  shows "rp_inv (fst x) (fst (snd x)) (snd (snd x)) []"
  using assms(1)
proof (induction rule: rp_reach.induct)
  case rp_start
  then show ?case
    using rp_inv_new [OF assms(2)] by simp
next
  case (rp_event x ev)
  obtain s H P where x: "x = (s, H, P)"
    by (metis prod_cases3)
  obtain s' H' P' where y: "rp_step ev (s, H, P) = (s', H', P')"
    by (metis prod_cases3)
  show ?case
    using rp_step_inv [OF _ _ y] rp_event A x y by auto
qed

text \<open>The discipline under which nobody waits beside an idle resource: no growth while someone waits.\<close>

fun rp_no_growth :: "rp_event \<Rightarrow> 't res_pool \<times> ident list \<times> ident list \<Rightarrow> bool" where
  "rp_no_growth (RpSetCapacity n) (s, H, P) \<longleftrightarrow>
     rp_allowed (RpSetCapacity n) (s, H, P) \<and> (somes (rp_waiters s) = [] \<or> n \<le> rp_cap s)"
| "rp_no_growth (RpReserve n) (s, H, P) \<longleftrightarrow> somes (rp_waiters s) = [] \<or> n \<le> rp_cap s"
| "rp_no_growth ev x \<longleftrightarrow> rp_allowed ev x"

lemma rp_no_growth_allowed: "rp_no_growth ev x \<Longrightarrow> rp_allowed ev x"
  by (cases x; cases ev) auto

lemma rp_step_busy:
  assumes inv: "rp_inv s H P []" and b: "rp_busy s" and al: "rp_no_growth ev (s, H, P)"
    and st: "rp_step ev (s, H, P) = (s', H', P')"
  shows "rp_busy s'"
proof (cases ev)
  case (RpAcquire i sr sp)
  then have "rp_ops s i = None"
    using al by simp
  note c = acq_create_inv [OF inv this]
  obtain w s1 where e: "acq_initiate i sr sp (acq_create i s) = (w, s1)"
    by fastforce
  have "rp_busy (acq_create i s)"
    using b by (simp add: rp_busy_def acq_create_def)
  then show ?thesis
    using acq_initiate_inv(2) [OF c e] st RpAcquire e by auto
next
  case RpTry
  then have "s' = snd (rp_try_acquire s)"
    using st by (auto split: prod.splits)
  then show ?thesis
    using b rp_try_acquire_in_use [of s] by (auto simp: rp_busy_def rp_try_acquire_fields)
next
  case (RpRecycle it)
  then show ?thesis
    using st al rp_recycle_inv(2) [OF inv _ b, of it] by (auto simp: Let_def)
next
  case (RpStop i)
  then show ?thesis
    using st rp_cancel_inv(2) [OF inv b] by auto
next
  case (RpSetCapacity n)
  then show ?thesis
    using st al b by (auto simp: rp_set_capacity_def rp_assert_def rp_busy_def simp del: set_somes)
next
  case (RpReserve n)
  then show ?thesis
    using st al b by (cases "occupied_cap_nolock s < n") (auto simp: rp_reserve_def rp_busy_def simp del: set_somes)
next
  case RpClearUnused
  then show ?thesis
    using st b by (auto simp: rp_busy_def rp_clear_unused_fields)
next
  case RpCreateAll
  then show ?thesis
    using st al rp_create_all_inv(2) [OF inv _ b] by auto
qed

lemma rp_reach_busy:
  assumes "rp_reach rp_no_growth (rp_new has_res cap f g) x" and "0 < cap"
  shows "rp_busy (fst x)"
  using assms(1)
proof (induction rule: rp_reach.induct)
  case rp_start
  then show ?case by (simp add: rp_busy_def rp_new_def)
next
  case (rp_event x ev)
  obtain s H P where x: "x = (s, H, P)"
    by (metis prod_cases3)
  obtain s' H' P' where y: "rp_step ev (s, H, P) = (s', H', P')"
    by (metis prod_cases3)
  have "rp_inv s H P []"
    using rp_reach_inv [OF rp_event(1) assms(2) rp_no_growth_allowed] x by simp
  then show ?case
    using rp_step_busy [OF _ _ _ y] rp_event x y by auto
qed
end
