(* ===== verification/Res_Pool_Props.thy ===== *)
theory Res_Pool_Props
  imports Res_Pool
begin

text \<open>
  The properties of the asynchronous resource pool (\<open>Res_Pool\<close>): exclusive use within the
  capacity, exactly-once resumption, direct hand-over to the oldest waiter, no waiting beside an idle
  resource, the counting variant as an abstraction of the one with resources, and the map of pools.
\<close>

section \<open>Executions as event lists\<close>

fun rp_exec ::
  "(rp_event \<Rightarrow> 't res_pool \<times> ident list \<times> ident list \<Rightarrow> bool) \<Rightarrow> rp_event list \<Rightarrow>
   't res_pool \<times> ident list \<times> ident list \<Rightarrow> ('t res_pool \<times> ident list \<times> ident list) option" where
  "rp_exec A [] x = Some x"
| "rp_exec A (ev # evs) x = (if A ev x then rp_exec A evs (rp_step ev x) else None)"

lemma rp_exec_reach_from:
  "rp_exec A evs x = Some y \<Longrightarrow> rp_reach A s0 x \<Longrightarrow> rp_reach A s0 y"
  by (induction A evs x rule: rp_exec.induct) (auto intro: rp_event split: if_splits)

lemma rp_exec_reach: "rp_exec A evs (s0, [], []) = Some y \<Longrightarrow> rp_reach A s0 y"
  by (erule rp_exec_reach_from) (rule rp_start)

text \<open>What the witnesses look at in the outcome of an execution.\<close>

definition rp_obs ::
  "'t res_pool \<times> ident list \<times> ident list \<Rightarrow>
   ident list \<times> ident list \<times> ident list \<times> waiter_deque \<times> nat \<times> nat \<times> bool" where
  "rp_obs x = (case x of (s, H, P) \<Rightarrow>
     (H, P, rp_resumed s, rp_waiters s, rp_in_use_count s, rp_created_count s, rp_has_res s))"

lemma rp_trace_reach:
  assumes "map_option rp_obs (rp_exec A evs (s0, [], [])) = Some ob"
  obtains s H P where "rp_reach A s0 (s, H, P)" and "rp_obs (s, H, P) = ob"
proof -
  obtain y where y: "rp_exec A evs (s0, [], []) = Some y" "rp_obs y = ob"
    using assms by auto
  then show ?thesis
    using that rp_exec_reach [OF y(1)] by (cases y) auto
qed

lemmas rp_eval = rp_new_def rp_try_acquire_def rp_use_front_def rp_create_def acq_initiate_def
  acq_create_def acq_pending_def acq_set_r_def acq_finish_def rp_assert_def Let_def pw_add_def
  rp_recycle_def rp_run_recycler_def rp_put_back_def pw_take_oldest_def rp_cancel_def pw_erase_def
  rp_set_capacity_def rp_reserve_def rp_clear_unused_def rp_create_all_def occupied_cap_nolock_def
  rp_obs_def rp_in_use_count_def rp_created_count_def numeral_2_eq_2

section \<open>Properties\<close>

text \<open>
  C7: In every execution that respects the preconditions, every assertion of the code holds, as many
  references are held as resources are in use, never more than the capacity, and a pool with
  resources never has created more than the capacity and never gives one resource to two holders.
\<close>

theorem res_pool_exclusive:
  assumes "rp_reach rp_allowed (rp_new has_res cap creator recycler) (s, H, P)" and "0 < cap"
  shows "rp_ok s \<and> length H = rp_in_use_count s \<and> rp_in_use_count s \<le> rp_cap s \<and>
    rp_created_count s \<le> rp_cap s \<and>
    (rp_has_res s \<longrightarrow> distinct H \<and> set H = fst ` set (rp_inuse s) \<and> set H \<inter> fst ` set (rp_unused s) = {})"
proof -
  have inv: "rp_inv s H P []"
    using rp_reach_inv [OF assms] by simp
  have "rp_has_res s \<longrightarrow> distinct H \<and> set H = fst ` set (rp_inuse s)"
  proof
    assume "rp_has_res s"
    then have m: "mset H = mset (map fst (rp_inuse s))" and d: "distinct (map fst (rp_inuse s))"
      using inv by (simp_all add: rp_inv_def rp_held_def)
    show "distinct H \<and> set H = fst ` set (rp_inuse s)"
      using d mset_eq_imp_distinct_iff [OF m] mset_eq_setD [OF m] by simp
  qed
  moreover have "rp_has_res s \<longrightarrow> fst ` set (rp_inuse s) \<inter> fst ` set (rp_unused s) = {}"
    using inv by (cases "rp_has_res s") (simp_all add: rp_inv_def rp_held_def)
  moreover have "rp_ok s" "rp_created_count s \<le> rp_cap s"
    using inv by (auto simp: rp_inv_def rp_created_count_def occupied_cap_nolock_def rp_held_def split: if_splits)
  ultimately show ?thesis
    using rp_inv_held_le [OF inv] by auto
qed

theorem res_pool_exclusive_witness:
  "\<exists>s :: nat res_pool. rp_obs (s, [1, 2, 0], [8, 9]) = ([1, 2, 0], [8, 9], [9, 8], [None], 3, 3, True) \<and>
     rp_ok s \<and> rp_in_use_count s \<le> rp_cap s \<and> fst ` set (rp_inuse s) = {0, 1, 2}"
proof -
  have "map_option rp_obs (rp_exec rp_allowed
          [RpTry, RpAcquire 7 False True, RpSetCapacity 3, RpTry, RpAcquire 8 False True, RpAcquire 9 False True,
           RpStop 9, RpRecycle 0] (rp_new True 2 (\<lambda>n. 10 * n) Suc, [], [])) =
      Some ([1, 2, 0], [8, 9], [9, 8], [None], 3, 3, True)"
    by (simp add: rp_eval)
  then obtain s H P where r: "rp_reach rp_allowed (rp_new True 2 (\<lambda>n. 10 * n) Suc) (s, H, P)"
    and o: "rp_obs (s, H, P) = ([1, 2, 0], [8, 9], [9, 8], [None], 3, 3, True)"
    by (rule rp_trace_reach)
  from res_pool_exclusive [OF r] o have
    "rp_obs (s, [1, 2, 0], [8, 9]) = ([1, 2, 0], [8, 9], [9, 8], [None], 3, 3, True) \<and>
     rp_ok s \<and> rp_in_use_count s \<le> rp_cap s \<and> fst ` set (rp_inuse s) = {0, 1, 2}"
    by (auto simp: rp_obs_def)
  then show ?thesis by blast
qed

text \<open>
  C10: An acquisition that was parked is resumed exactly once or still waits, with no result yet:
  whatever mixture of recycling and cancellation happens.
\<close>

theorem res_pool_resumes_once:
  assumes "rp_reach rp_allowed (rp_new has_res cap creator recycler) (s, H, P)" and "0 < cap"
  shows "distinct (rp_resumed s @ somes (rp_waiters s)) \<and>
    set P = set (rp_resumed s) \<union> set (somes (rp_waiters s)) \<and>
    (\<forall>i \<in> set (somes (rp_waiters s)). acq_pending i s)"
proof -
  have inv: "rp_inv s H P []"
    using rp_reach_inv [OF assms] by simp
  have "set_mset (mset P) = set_mset (mset (rp_resumed s) + mset (somes (rp_waiters s)))"
    using inv by (simp add: rp_inv_def)
  then have "set P = set (rp_resumed s) \<union> set (somes (rp_waiters s))"
    by (simp del: set_somes)
  then show ?thesis
    using inv rp_inv_distinct [OF inv] by (simp add: rp_inv_def del: set_somes)
qed

theorem res_pool_resumes_once_witness:
  "\<exists>s :: nat res_pool. rp_obs (s, [1], [5, 6, 7]) = ([1], [5, 6, 7], [6, 5], [None, Some 7], 1, 0, False) \<and>
     distinct (rp_resumed s @ somes (rp_waiters s)) \<and> acq_pending 7 s"
proof -
  have "map_option rp_obs (rp_exec rp_allowed
          [RpTry, RpAcquire 5 False True, RpAcquire 6 False True, RpAcquire 7 False False, RpStop 6, RpRecycle 1]
          (rp_new False 1 (\<lambda>n. n::nat) id, [], [])) =
      Some ([1], [5, 6, 7], [6, 5], [None, Some 7], 1, 0, False)"
    by (simp add: rp_eval)
  then obtain s H P where r: "rp_reach rp_allowed (rp_new False 1 (\<lambda>n. n::nat) id) (s, H, P)"
    and o: "rp_obs (s, H, P) = ([1], [5, 6, 7], [6, 5], [None, Some 7], 1, 0, False)"
    by (rule rp_trace_reach)
  from res_pool_resumes_once [OF r] o have
    "rp_obs (s, [1], [5, 6, 7]) = ([1], [5, 6, 7], [6, 5], [None, Some 7], 1, 0, False) \<and>
     distinct (rp_resumed s @ somes (rp_waiters s)) \<and> acq_pending 7 s"
    by (auto simp: rp_obs_def)
  then show ?thesis by blast
qed

text \<open>
  C9: While no capacity is added under a waiter, an acquisition waits only when the whole capacity
  is in use, and then no created resource is idle.
\<close>

theorem res_pool_no_idle_resource:
  assumes "rp_reach rp_no_growth (rp_new has_res cap creator recycler) (s, H, P)" and "0 < cap"
    and "somes (rp_waiters s) \<noteq> []"
  shows "rp_in_use_count s = rp_cap s \<and> (rp_has_res s \<longrightarrow> rp_unused s = [])"
proof -
  have inv: "rp_inv s H P []"
    using rp_reach_inv [OF assms(1,2) rp_no_growth_allowed] by simp
  have "rp_cap s \<le> rp_in_use_count s"
    using rp_reach_busy [OF assms(1,2)] assms(3) by (simp add: rp_busy_def)
  moreover have "occupied_cap_nolock s \<le> rp_cap s"
    using inv by (simp add: rp_inv_def)
  ultimately show ?thesis
    by (cases "rp_unused s") (auto simp: occupied_cap_nolock_def rp_in_use_count_def split: if_splits)
qed

theorem res_pool_no_idle_resource_witness:
  "\<exists>s :: nat res_pool. rp_obs (s, [1, 0], [4]) = ([1, 0], [4], [], [Some 4], 2, 2, True) \<and>
     rp_cap s = 2 \<and> rp_unused s = []"
proof -
  have "map_option rp_obs (rp_exec rp_no_growth
          [RpReserve 2, RpCreateAll, RpTry, RpAcquire 3 False True, RpAcquire 4 False True]
          (rp_new True 1 (\<lambda>n. n::nat) id, [], [])) =
      Some ([1, 0], [4], [], [Some 4], 2, 2, True)"
    by (simp add: rp_eval)
  then obtain s H P where r: "rp_reach rp_no_growth (rp_new True 1 (\<lambda>n. n::nat) id) (s, H, P)"
    and o: "rp_obs (s, H, P) = ([1, 0], [4], [], [Some 4], 2, 2, True)"
    by (rule rp_trace_reach)
  from res_pool_no_idle_resource [OF r] o have
    "rp_obs (s, [1, 0], [4]) = ([1, 0], [4], [], [Some 4], 2, 2, True) \<and> rp_cap s = 2 \<and> rp_unused s = []"
    by (auto simp: rp_obs_def)
  then show ?thesis by blast
qed

text \<open>
  Growing the capacity does not serve the waiters: an acquisition parked on a full pool of
  capacity 1 still waits after \<open>set_capacity(2)\<close>, although one resource may be created, and a
  later \<open>try_acquire\<close> overtakes it.
\<close>

theorem res_pool_growth_strands_waiter:
  "map_option rp_obs (rp_exec rp_allowed [RpTry, RpAcquire 5 False True, RpSetCapacity 2]
      (rp_new True 1 (\<lambda>n. n::nat) id, [], [])) = Some ([0], [5], [], [Some 5], 1, 1, True) \<and>
   map_option rp_obs (rp_exec rp_allowed [RpTry, RpAcquire 5 False True, RpSetCapacity 2, RpTry]
      (rp_new True 1 (\<lambda>n. n::nat) id, [], [])) = Some ([0, 1], [5], [], [Some 5], 2, 2, True)"
  by (simp add: rp_eval)

text \<open>
  A recycled reference goes directly to the acquisition that waits longest: it is resumed with
  that reference, the other waiters keep their order, and the pool's lists keep their nodes, so no
  later \<open>try_acquire\<close> can take the resource in between.
\<close>

theorem res_pool_hands_to_oldest:
  assumes "somes (rp_waiters s) = w # ws" and "acq_pending w s"
  shows "rp_resumed (rp_recycle it s) = rp_resumed s @ [w] \<and>
    map_option aq_r (rp_ops (rp_recycle it s) w) = Some (Some (Inr it)) \<and>
    somes (rp_waiters (rp_recycle it s)) = ws \<and>
    map fst (rp_inuse (rp_recycle it s)) = map fst (rp_inuse s) \<and>
    rp_unused (rp_recycle it s) = rp_unused s \<and> rp_size (rp_recycle it s) = rp_size s"
proof -
  obtain q where t: "pw_take_oldest (rp_waiters s) = (Some w, q)"
    using assms(1) pw.take_oldest_first [of "rp_waiters s"] by (cases "pw_take_oldest (rp_waiters s)") simp
  then have "somes q = ws"
    using assms(1) pw.take_oldest_SomeD by fastforce
  moreover have "rp_recycle it s = acq_finish w (Inr it) (rp_run_recycler it s\<lparr>rp_waiters := q\<rparr>)"
    using t by (simp add: rp_recycle_def rp_run_recycler_fields)
  ultimately show ?thesis
    using assms(2) rp_run_recycler_keys [where s = s and it = it] rp_run_recycler_fields [where s = s and it = it]
    by (auto simp: acq_finish_def acq_set_r_def rp_assert_def Let_def acq_pending_iff)
qed

theorem res_pool_hands_to_oldest_witness:
  "rp_resumed (rp_recycle 0 (fst (rp_step (RpStop 5) (rp_step (RpAcquire 6 False True)
      (rp_step (RpAcquire 5 False True) (rp_step RpTry (rp_new True 1 (\<lambda>n. n::nat) id, [], []))))))) = [5, 6]"
proof -
  let ?s = "fst (rp_step (RpStop 5) (rp_step (RpAcquire 6 False True)
      (rp_step (RpAcquire 5 False True) (rp_step RpTry (rp_new True 1 (\<lambda>n. n::nat) id, [], [])))))"
  have "somes (rp_waiters ?s) = [6]" "acq_pending 6 ?s" "rp_resumed ?s = [5]"
    by (simp_all add: rp_eval)
  then show ?thesis
    using res_pool_hands_to_oldest [of ?s 6 "[]" 0] by simp
qed

section \<open>The counting variant abstracts the one with resources\<close>

text \<open>What both variants show to their clients, references aside.\<close>

definition rp_outcome :: "acq_op \<Rightarrow> (errc + unit) option \<times> bool" where
  "rp_outcome o' = (map_option (map_sum id (\<lambda>_. ())) (aq_r o'), aq_scb o')"

definition rp_shape ::
  "'t res_pool \<Rightarrow> nat \<times> nat \<times> waiter_deque \<times> ident list \<times> (ident \<rightharpoonup> (errc + unit) option \<times> bool)" where
  "rp_shape s =
     (rp_in_use_count s, rp_cap s, rp_waiters s, rp_resumed s, \<lambda>i. map_option rp_outcome (rp_ops s i))"

text \<open>
  The second list has the events of the first, but for the references that are recycled and for the
  events that only change the stock of unused resources.
\<close>

fun rp_match :: "rp_event list \<Rightarrow> rp_event list \<Rightarrow> bool" where
  "rp_match [] fs = (fs = [])"
| "rp_match (RpClearUnused # es) fs = rp_match es fs"
| "rp_match (RpCreateAll # es) fs = rp_match es fs"
| "rp_match (RpRecycle it # es) (RpRecycle it' # fs) = rp_match es fs"
| "rp_match (RpAcquire i sr sp # es) (f # fs) = (f = RpAcquire i sr sp \<and> rp_match es fs)"
| "rp_match (RpTry # es) (f # fs) = (f = RpTry \<and> rp_match es fs)"
| "rp_match (RpStop i # es) (f # fs) = (f = RpStop i \<and> rp_match es fs)"
| "rp_match (RpSetCapacity n # es) (f # fs) = (f = RpSetCapacity n \<and> rp_match es fs)"
| "rp_match _ _ = False"

lemma rp_try_acquire_shape:
  assumes "rp_inv s H P D"
  shows "(if rp_in_use_count s < rp_cap s
      then (\<exists>it. fst (rp_try_acquire s) = Inr it) \<and>
        rp_in_use_count (snd (rp_try_acquire s)) = Suc (rp_in_use_count s)
      else fst (rp_try_acquire s) = Inl errc_resource_unavailable \<and> snd (rp_try_acquire s) = s)"
proof -
  have "occupied_cap_nolock s \<le> rp_cap s"
    using assms by (simp add: rp_inv_def)
  then show ?thesis
    by (cases "rp_unused s")
      (auto simp: rp_try_acquire_def rp_use_front_def rp_create_def rp_in_use_count_def occupied_cap_nolock_def
        split: if_splits)
qed

lemma rp_shape_try_acquire:
  assumes "rp_inv s H P D" and "rp_inv t K Q E" and "rp_shape s = rp_shape t"
  shows "map_sum id (\<lambda>_. ()) (fst (rp_try_acquire s)) = map_sum id (\<lambda>_. ()) (fst (rp_try_acquire t)) \<and>
    rp_shape (snd (rp_try_acquire s)) = rp_shape (snd (rp_try_acquire t))"
  using rp_try_acquire_shape [OF assms(1)] rp_try_acquire_shape [OF assms(2)] assms(3)
  by (auto simp: rp_shape_def rp_try_acquire_fields split: if_splits)

lemma rp_shape_set_r:
  assumes "rp_shape s = rp_shape t" and "map_sum id (\<lambda>_. ()) r = map_sum id (\<lambda>_. ()) q"
  shows "rp_shape (acq_set_r i r s) = rp_shape (acq_set_r i q t)"
proof -
  have "map_option rp_outcome (rp_ops s j) = map_option rp_outcome (rp_ops t j)" for j
    using assms(1) by (simp add: rp_shape_def fun_eq_iff)
  from this [of i] have "map_option (\<lambda>o'. rp_outcome (o'\<lparr>aq_r := Some r\<rparr>)) (rp_ops s i) =
      map_option (\<lambda>o'. rp_outcome (o'\<lparr>aq_r := Some q\<rparr>)) (rp_ops t i)"
    using assms(2) by (cases "rp_ops s i"; cases "rp_ops t i") (auto simp: rp_outcome_def)
  then show ?thesis
    using assms(1) by (auto simp: rp_shape_def acq_set_r_def fun_eq_iff option.map_comp comp_def)
qed

lemma rp_shape_acq_pending: "rp_shape s = rp_shape t \<Longrightarrow> acq_pending i s = acq_pending i t"
proof -
  assume "rp_shape s = rp_shape t"
  then have "map_option rp_outcome (rp_ops s i) = map_option rp_outcome (rp_ops t i)"
    by (simp add: rp_shape_def fun_eq_iff)
  then show ?thesis
    by (cases "rp_ops s i"; cases "rp_ops t i") (auto simp: acq_pending_def rp_outcome_def)
qed

lemma rp_shape_update:
  "rp_shape (rp_assert b s) = rp_shape s"
  "rp_shape s = rp_shape t \<Longrightarrow> rp_shape (s\<lparr>rp_waiters := q\<rparr>) = rp_shape (t\<lparr>rp_waiters := q\<rparr>)"
  "rp_shape s = rp_shape t \<Longrightarrow> rp_shape (rp_set_capacity n s) = rp_shape (rp_set_capacity n t)"
  "rp_shape (rp_run_recycler it s) = rp_shape s"
  "rp_shape s = rp_shape t \<Longrightarrow> rp_shape (acq_create i s) = rp_shape (acq_create i t)"
  by (simp_all add: rp_shape_def rp_assert_def rp_set_capacity_def rp_run_recycler_fields acq_create_def fun_eq_iff)

lemma rp_shape_finish:
  assumes "rp_shape s = rp_shape t" and "map_sum id (\<lambda>_. ()) r = map_sum id (\<lambda>_. ()) q"
  shows "rp_shape (acq_finish i r s) = rp_shape (acq_finish i q t)"
proof -
  have "rp_shape (acq_set_r i r (rp_assert b s)) = rp_shape (acq_set_r i q (rp_assert b' t))" for b b'
    by (rule rp_shape_set_r) (simp_all add: rp_shape_update assms)
  then show ?thesis
    by (auto simp: acq_finish_def Let_def rp_shape_def)
qed

lemma rp_shape_cancel: "rp_shape s = rp_shape t \<Longrightarrow> rp_shape (rp_cancel i s) = rp_shape (rp_cancel i t)"
proof -
  assume h: "rp_shape s = rp_shape t"
  then have "rp_waiters s = rp_waiters t"
    by (simp add: rp_shape_def)
  then show ?thesis
    using h rp_shape_finish [OF rp_shape_update(2) [OF h], of "Inl errc_canceled" "Inl errc_canceled"]
    by (auto simp: rp_cancel_def split: prod.splits)
qed

lemma rp_put_back_count:
  assumes "rp_inv s H P D" and "it \<in> set H"
  shows "Suc (rp_in_use_count (rp_put_back it s)) = rp_in_use_count s"
  using rp_inv_held_le [OF rp_put_back_inv [OF assms]] rp_inv_held_le [OF assms(1)] assms(2)
    length_pos_if_in_set [OF assms(2)] length_remove1 [of it H] by (simp only: assms(2) if_True) arith

lemma rp_put_back_keeps: "rp_cap (rp_put_back it s) = rp_cap s" "rp_ops (rp_put_back it s) = rp_ops s"
  by (simp_all add: rp_put_back_def rp_assert_def)

lemma rp_shape_recycle:
  assumes "rp_inv s H P []" and "rp_inv t K Q []" and "rp_shape s = rp_shape t" and "it \<in> set H" and "it' \<in> set K"
  shows "rp_shape (rp_recycle it s) = rp_shape (rp_recycle it' t)"
proof -
  have w: "rp_waiters s = rp_waiters t"
    using assms(3) by (simp add: rp_shape_def)
  have r: "rp_shape (rp_run_recycler it s) = rp_shape (rp_run_recycler it' t)"
    using assms(3) by (simp add: rp_shape_update)
  obtain x q where t: "pw_take_oldest (rp_waiters t) = (x, q)"
    by fastforce
  show ?thesis
  proof (cases x)
    case (Some i)
    then show ?thesis
      using t w rp_shape_finish [OF rp_shape_update(2) [OF r], of "Inr it" "Inr it'"]
      by (simp add: rp_recycle_def rp_run_recycler_fields)
  next
    case None
    then have l: "somes (rp_waiters t) = [] \<and> somes q = []"
      using pw.take_oldest_NoneD [of "rp_waiters t" q] t by simp
    have inv: "rp_inv (rp_run_recycler it s\<lparr>rp_waiters := q\<rparr>) H P []"
      "rp_inv (rp_run_recycler it' t\<lparr>rp_waiters := q\<rparr>) K Q []"
      using rp_run_recycler_inv(1) [OF assms(1,4)] rp_run_recycler_inv(1) [OF assms(2,5)] l w
      by (simp_all add: rp_inv_def acq_pending_iff rp_run_recycler_fields del: set_somes)
    show ?thesis
      using t w None r rp_shape_update(2) [OF r, of q] rp_put_back_count [OF inv(1) assms(4)]
        rp_put_back_count [OF inv(2) assms(5)]
      by (simp add: rp_recycle_def rp_run_recycler_fields rp_put_back_fields rp_put_back_keeps rp_shape_def)
  qed
qed

lemma rp_shape_stock:
  "rp_shape (rp_clear_unused s) = rp_shape s" "rp_shape (rp_create_all s) = rp_shape s"
proof -
  have c: "rp_shape (rp_create u) = rp_shape u" for u :: "'a res_pool"
    by (simp add: rp_shape_def rp_create_def rp_in_use_count_def)
  have "rp_shape ((rp_create ^^ n) u) = rp_shape u" for n and u :: "'a res_pool"
    by (induction n) (simp_all add: c)
  then show "rp_shape (rp_create_all s) = rp_shape s"
    by (simp add: rp_create_all_def Let_def rp_shape_update)
  show "rp_shape (rp_clear_unused s) = rp_shape s"
    by (simp add: rp_shape_def rp_clear_unused_def rp_in_use_count_def)
qed

lemma rp_shape_initiate:
  assumes s: "rp_inv s H P []" and t: "rp_inv t K Q []" and h: "rp_shape s = rp_shape t" and i: "rp_ops s i = None"
  shows "fst (acq_initiate i sr sp (acq_create i s)) = fst (acq_initiate i sr sp (acq_create i t)) \<and>
    rp_shape (snd (acq_initiate i sr sp (acq_create i s))) = rp_shape (snd (acq_initiate i sr sp (acq_create i t)))"
proof -
  let ?s = "acq_create i s" and ?t = "acq_create i t"
  have "map_option rp_outcome (rp_ops s i) = map_option rp_outcome (rp_ops t i)"
    using h by (simp add: rp_shape_def fun_eq_iff)
  then have ti: "rp_ops t i = None"
    using i by simp
  note cs = acq_create_inv [OF s i] and ct = acq_create_inv [OF t ti]
  have a: "rp_assert (acq_pending i ?s) ?s = ?s" "rp_assert (acq_pending i ?t) ?t = ?t"
    using cs ct by (simp_all add: rp_assert_def rp_inv_def)
  have hc: "rp_shape ?s = rp_shape ?t"
    by (rule rp_shape_update(5) [OF h])
  obtain r s1 q t1 where e: "rp_try_acquire ?s = (r, s1)" "rp_try_acquire ?t = (q, t1)"
    by fastforce
  note st = rp_shape_try_acquire [OF cs(1) ct(1) hc, unfolded e fst_conv snd_conv]
  show ?thesis
  proof (cases sr)
    case True
    then show ?thesis
      using a rp_shape_set_r [OF hc, of "Inl errc_canceled" "Inl errc_canceled" i] by (simp add: acq_initiate_def)
  next
    case False
    show ?thesis
    proof (cases r)
      case (Inr it)
      then obtain it' where "q = Inr it'"
        using st by (cases q) auto
      then show ?thesis
        using a e Inr False st rp_shape_set_r [of s1 t1 "Inr it" "Inr it'" i] by (simp add: acq_initiate_def)
    next
      case (Inl x)
      then have q: "q = Inl x"
        using st by (cases q) auto
      have o1: "map_option rp_outcome (rp_ops s1 j) = map_option rp_outcome (rp_ops t1 j)" for j
        using st by (simp add: rp_shape_def fun_eq_iff)
      have "map_option (\<lambda>o'. rp_outcome (o'\<lparr>aq_scb := sp\<rparr>)) (rp_ops s1 i) =
          map_option (\<lambda>o'. rp_outcome (o'\<lparr>aq_scb := sp\<rparr>)) (rp_ops t1 i)"
        using o1 [of i] by (cases "rp_ops s1 i"; cases "rp_ops t1 i") (auto simp: rp_outcome_def)
      then show ?thesis
        using a e Inl q False st o1
        by (auto simp: acq_initiate_def rp_shape_def fun_eq_iff option.map_comp comp_def)
    qed
  qed
qed

lemma rp_match_shape:
  assumes "rp_match es fs" and "rp_inv s H P []" and "rp_inv t K P []" and "rp_shape s = rp_shape t"
    and "rp_exec rp_allowed es (s, H, P) = Some (s', H', P')" and "rp_exec rp_allowed fs (t, K, P) = Some (t', K', Q')"
  shows "rp_shape s' = rp_shape t' \<and> P' = Q'"
  using assms
proof (induction es fs arbitrary: s H P t K rule: rp_match.induct)
  case (1 fs)
  then show ?case by simp
next
  case (2 es fs)
  then have al: "rp_allowed RpClearUnused (s, H, P)"
    by (auto split: if_splits)
  have e: "rp_step RpClearUnused (s, H, P) = (rp_clear_unused s, H, P)"
    by simp
  show ?case
    using 2 al by (intro "2.IH" [OF _ rp_step_inv [OF _ al e]]) (auto simp: rp_shape_stock split: if_splits)
next
  case (3 es fs)
  then have al: "rp_allowed RpCreateAll (s, H, P)"
    by (auto split: if_splits)
  have e: "rp_step RpCreateAll (s, H, P) = (rp_create_all s, H, P)"
    by simp
  show ?case
    using 3 al by (intro "3.IH" [OF _ rp_step_inv [OF _ al e]]) (auto simp: rp_shape_stock split: if_splits)
next
  case (4 it es it' fs)
  then have al: "rp_allowed (RpRecycle it) (s, H, P)" "rp_allowed (RpRecycle it') (t, K, P)"
    by (auto split: if_splits)
  obtain s1 H1 P1 where e1: "rp_step (RpRecycle it) (s, H, P) = (s1, H1, P1)"
    by (metis prod_cases3)
  obtain t1 K1 Q1 where e2: "rp_step (RpRecycle it') (t, K, P) = (t1, K1, Q1)"
    by (metis prod_cases3)
  have P: "P1 = P" "Q1 = P" "s1 = rp_recycle it s" "t1 = rp_recycle it' t"
    using e1 e2 by (auto simp: Let_def)
  have i1: "rp_inv s1 H1 P []" and i2: "rp_inv t1 K1 P []"
    using rp_step_inv [OF "4.prems"(2) al(1) e1] rp_step_inv [OF "4.prems"(3) al(2) e2] P by simp_all
  have "rp_shape s1 = rp_shape t1"
    using rp_shape_recycle [OF "4.prems"(2,3,4), of it it'] al P by simp
  then show ?case
    using "4.prems" al e1 e2 P by (intro "4.IH" [OF _ i1 i2]) simp_all
next
  case (5 i sr sp es f fs)
  then have al: "rp_allowed (RpAcquire i sr sp) (s, H, P)" "rp_allowed (RpAcquire i sr sp) (t, K, P)"
    by (auto split: if_splits)
  obtain s1 H1 P1 where e1: "rp_step (RpAcquire i sr sp) (s, H, P) = (s1, H1, P1)"
    by (metis prod_cases3)
  obtain t1 K1 Q1 where e2: "rp_step (RpAcquire i sr sp) (t, K, P) = (t1, K1, Q1)"
    by (metis prod_cases3)
  have n: "rp_ops s i = None"
    using al by simp
  have P: "P1 = Q1" and h: "rp_shape s1 = rp_shape t1"
    using e1 e2 rp_shape_initiate [OF "5.prems"(2,3,4) n, of sr sp] by (auto split: prod.splits)
  have i1: "rp_inv s1 H1 P1 []" and i2: "rp_inv t1 K1 P1 []"
    using rp_step_inv [OF "5.prems"(2) al(1) e1] rp_step_inv [OF "5.prems"(3) al(2) e2] P by simp_all
  show ?case
    using "5.prems" al e1 e2 P h by (intro "5.IH" [OF _ i1 i2]) (simp_all del: rp_step.simps)
next
  case (6 es f fs)
  obtain s1 H1 P1 where e1: "rp_step RpTry (s, H, P) = (s1, H1, P1)"
    by (metis prod_cases3)
  obtain t1 K1 Q1 where e2: "rp_step RpTry (t, K, P) = (t1, K1, Q1)"
    by (metis prod_cases3)
  have P: "P1 = P" "Q1 = P" "s1 = snd (rp_try_acquire s)" "t1 = snd (rp_try_acquire t)"
    using e1 e2 by (auto split: prod.splits)
  have i1: "rp_inv s1 H1 P []" and i2: "rp_inv t1 K1 P []"
    using rp_step_inv [OF "6.prems"(2) _ e1] rp_step_inv [OF "6.prems"(3) _ e2] P by simp_all
  show ?case
    using "6.prems" e1 e2 P rp_shape_try_acquire [OF "6.prems"(2,3,4)]
    by (intro "6.IH" [OF _ i1 i2]) (simp_all del: rp_step.simps)
next
  case (7 i es f fs)
  have i1: "rp_inv (rp_cancel i s) H P []" and i2: "rp_inv (rp_cancel i t) K P []"
    using rp_cancel_inv(1) "7.prems" by blast+
  show ?case
    using "7.prems" rp_shape_cancel [OF "7.prems"(4), of i] by (intro "7.IH" [OF _ i1 i2]) simp_all
next
  case (8 n es f fs)
  then have al: "rp_allowed (RpSetCapacity n) (s, H, P)" "rp_allowed (RpSetCapacity n) (t, K, P)"
    by (auto split: if_splits)
  have i1: "rp_inv (rp_set_capacity n s) H P []" and i2: "rp_inv (rp_set_capacity n t) K P []"
    using rp_step_inv [OF "8.prems"(2) al(1)] rp_step_inv [OF "8.prems"(3) al(2)] by simp_all
  show ?case
    using "8.prems" al rp_shape_update(3) [OF "8.prems"(4), of n] by (intro "8.IH" [OF _ i1 i2]) simp_all
qed simp_all



text \<open>
  The map of pools: an acquisition for a key without pool fails with \<open>not_found\<close> and changes
  nothing, unless pools are added automatically, when a pool with the default settings is made and
  gives its first reference; no call touches the pool of another key.
\<close>

theorem res_pool_map_acquire:
  assumes "pm_acquire k i False stopPoss m = ((waits, r), m')"
  shows "(\<forall>k'. k' \<noteq> k \<longrightarrow> pm_pools m' k' = pm_pools m k') \<and>
    (pm_pools m k = None \<and> \<not> pm_auto_add m \<longrightarrow> \<not> waits \<and> r = Some (Inl errc_not_found) \<and> m' = m) \<and>
    (pm_pools m k = None \<and> pm_auto_add m \<and> 0 < pm_cap m \<longrightarrow>
       \<not> waits \<and> (\<exists>it. r = Some (Inr it)) \<and>
       (\<exists>p. pm_pools m' k = Some p \<and> rp_cap p = pm_cap m \<and> rp_in_use_count p = 1))"
  using assms
  by (auto simp: pm_acquire_def pm_pool_for_def pm_try_emplace_pool_def pm_get_pool_def acq_initiate_def
      rp_new_def rp_try_acquire_def rp_use_front_def rp_create_def acq_set_r_def rp_assert_def acq_pending_def
      rp_in_use_count_def Let_def split: if_splits option.splits prod.splits sum.splits)

theorem res_pool_map_acquire_witness:
  "pm_pools (snd (pm_acquire ''b'' 1 False True
      (snd (pm_acquire ''a'' 0 False True (pm_new True True 1 (\<lambda>n. n::nat) id))))) ''a'' =
   pm_pools (snd (pm_acquire ''a'' 0 False True (pm_new True True 1 (\<lambda>n. n::nat) id))) ''a''"
proof -
  let ?m = "snd (pm_acquire ''a'' 0 False True (pm_new True True 1 (\<lambda>n. n::nat) id))"
  obtain waits r m' where "pm_acquire ''b'' 1 False True ?m = ((waits, r), m')"
    by (metis surj_pair)
  from res_pool_map_acquire [OF this] this show ?thesis
    by simp
qed

end
