(* ===== verification/Lru_Cache.thy ===== *)
theory Lru_Cache
  imports Prelude
begin

text \<open>
  The LRU cache of \<open>include/dsk/util/lru_cache.hpp\<close>. The list \<open>_items\<close> holds its nodes
  from the most to the least recently used; \<open>_iterMap\<close> maps a key to its node. A list
  iterator is modelled by the identity of its node, so the agreement between the map and the
  list is an invariant to be proved. Calls of the user's deleter are recorded in order.

  What the C++ leaves undefined (\<open>back()\<close> of an empty list, a dangling iterator) is the
  result \<open>Inl undefined_behaviour\<close>.
\<close>

section \<open>State\<close>

record ('k, 't) item_t =
  it_cost :: nat
  it_k :: 'k
  it_t :: 't

record ('k, 't) lru_cache =
  lru_items :: "(ident \<times> ('k, 't) item_t) list"
  lru_iterMap :: "'k \<rightharpoonup> ident"
  lru_cost :: nat
  lru_cap :: nat
  lru_dels :: "'t list"
  lru_hit :: nat
  lru_total :: nat
  lru_next :: ident

datatype lru_fault = item_too_large | undefined_behaviour

text \<open>The constructor \<open>lru_cache(cap)\<close>.\<close>

definition lru_new :: "nat \<Rightarrow> ('k, 't) lru_cache" where
  "lru_new cap =
     \<lparr>lru_items = [], lru_iterMap = Map.empty, lru_cost = 0, lru_cap = cap, lru_dels = [],
      lru_hit = 0, lru_total = 0, lru_next = 0\<rparr>"

section \<open>Operations\<close>

text \<open>\<open>touch\<close>: splice the node to the front of the list.\<close>

definition lru_touch :: "ident \<Rightarrow> ('k, 't) lru_cache \<Rightarrow> lru_fault + ('k, 't) lru_cache" where
  "lru_touch i c =
     (case map_of (lru_items c) i of
        None \<Rightarrow> Inl undefined_behaviour
      | Some it \<Rightarrow>
          Inr (c\<lparr>lru_items := (i, it) # filter (\<lambda>n. fst n \<noteq> i) (lru_items c)\<rparr>))"

text \<open>\<open>preseve_cap\<close>: while over capacity, drop the least recently used item.\<close>

function preseve_cap :: "('k, 't) lru_cache \<Rightarrow> lru_fault + ('k, 't) lru_cache" where
  "preseve_cap c =
     (if lru_cost c > lru_cap c
      then (if lru_items c = [] then Inl undefined_behaviour
            else (let lru = snd (last (lru_items c)) in
                  preseve_cap
                    (c\<lparr>lru_dels := lru_dels c @ [it_t lru],
                       lru_cost := sz_sub (lru_cost c) (it_cost lru),
                       lru_iterMap := (lru_iterMap c)(it_k lru := None),
                       lru_items := butlast (lru_items c)\<rparr>)))
      else Inr c)"
  by pat_completeness auto
termination
  by (relation "measure (\<lambda>c. length (lru_items c))") auto

declare preseve_cap.simps [simp del]

definition lru_used :: "('k, 't) lru_cache \<Rightarrow> nat" where
  "lru_used c = lru_cost c"

definition lru_capacity :: "('k, 't) lru_cache \<Rightarrow> nat" where
  "lru_capacity c = lru_cap c"

definition lru_set_capacity :: "nat \<Rightarrow> ('k, 't) lru_cache \<Rightarrow> lru_fault + ('k, 't) lru_cache" where
  "lru_set_capacity cap c = preseve_cap (c\<lparr>lru_cap := cap\<rparr>)"

definition lru_item_count :: "('k, 't) lru_cache \<Rightarrow> nat" where
  "lru_item_count c = length (lru_items c)"

definition lru_contains :: "'k \<Rightarrow> ('k, 't) lru_cache \<Rightarrow> bool" where
  "lru_contains k c = (lru_iterMap c k \<noteq> None)"

definition lru_clear :: "('k, 't) lru_cache \<Rightarrow> ('k, 't) lru_cache" where
  "lru_clear c =
     c\<lparr>lru_dels := lru_dels c @ map (\<lambda>n. it_t (snd n)) (lru_items c),
       lru_items := [], lru_iterMap := Map.empty, lru_cost := 0\<rparr>"

definition lru_remove :: "'k \<Rightarrow> ('k, 't) lru_cache \<Rightarrow> lru_fault + ('k, 't) lru_cache" where
  "lru_remove k c =
     (case lru_iterMap c k of
        None \<Rightarrow> Inr c
      | Some i \<Rightarrow>
          (case map_of (lru_items c) i of
             None \<Rightarrow> Inl undefined_behaviour
           | Some it \<Rightarrow>
               Inr (c\<lparr>lru_dels := lru_dels c @ [it_t it],
                      lru_cost := sz_sub (lru_cost c) (it_cost it),
                      lru_items := filter (\<lambda>n. fst n \<noteq> i) (lru_items c),
                      lru_iterMap := (lru_iterMap c)(k := None)\<rparr>)))"

text \<open>\<open>take\<close>: move the value out; \<open>T()\<close>, here \<open>dflt\<close>, when the key is absent.\<close>

definition lru_take :: "'t \<Rightarrow> 'k \<Rightarrow> ('k, 't) lru_cache \<Rightarrow> lru_fault + ('t \<times> ('k, 't) lru_cache)" where
  "lru_take dflt k c =
     (case lru_iterMap c k of
        None \<Rightarrow> Inr (dflt, c)
      | Some i \<Rightarrow>
          (case map_of (lru_items c) i of
             None \<Rightarrow> Inl undefined_behaviour
           | Some it \<Rightarrow>
               Inr (it_t it,
                    c\<lparr>lru_cost := sz_sub (lru_cost c) (it_cost it),
                      lru_items := filter (\<lambda>n. fst n \<noteq> i) (lru_items c),
                      lru_iterMap := (lru_iterMap c)(k := None)\<rparr>)))"

text \<open>The assignments \<open>lit->cost = itemCost; lit->t = T(args...)\<close> to one node.\<close>

definition lru_reassign :: "ident \<Rightarrow> nat \<Rightarrow> 't \<Rightarrow> ident \<times> ('k, 't) item_t \<Rightarrow> ident \<times> ('k, 't) item_t" where
  "lru_reassign i w v n = (if fst n = i then (i, (snd n)\<lparr>it_cost := w, it_t := v\<rparr>) else n)"

text \<open>
  \<open>add\<close>: a new key gets a fresh node at the front; an existing one is updated and touched.
  The returned reference is to the node whose identity is returned.
\<close>

definition lru_add :: "nat \<Rightarrow> 'k \<Rightarrow> 't \<Rightarrow> ('k, 't) lru_cache \<Rightarrow> lru_fault + (ident \<times> ('k, 't) lru_cache)" where
  "lru_add itemCost k v c =
     (if itemCost > lru_cap c then Inl item_too_large
      else
        (let placed =
           (case lru_iterMap c k of
              None \<Rightarrow>
                Inr (lru_next c,
                     c\<lparr>lru_items :=
                         (lru_next c, \<lparr>it_cost = itemCost, it_k = k, it_t = v\<rparr>) # lru_items c,
                       lru_iterMap := (lru_iterMap c)(k \<mapsto> lru_next c),
                       lru_next := Suc (lru_next c)\<rparr>)
            | Some i \<Rightarrow>
                (case lru_touch i
                        (c\<lparr>lru_items :=
                            map (lru_reassign i itemCost v) (lru_items c)\<rparr>) of
                   Inl e \<Rightarrow> Inl e
                 | Inr c' \<Rightarrow> Inr (i, c')))
         in case placed of
              Inl e \<Rightarrow> Inl e
            | Inr (i, c') \<Rightarrow>
                (case preseve_cap (c'\<lparr>lru_cost := sz_add (lru_cost c') itemCost\<rparr>) of
                   Inl e \<Rightarrow> Inl e
                 | Inr c'' \<Rightarrow> Inr (i, c''))))"

text \<open>\<open>get\<close>: a pointer to the value, null when the key is absent; a hit touches the node.\<close>

definition lru_get :: "'k \<Rightarrow> ('k, 't) lru_cache \<Rightarrow> lru_fault + ('t option \<times> ('k, 't) lru_cache)" where
  "lru_get k c =
     (let c1 = c\<lparr>lru_total := sz_add (lru_total c) 1\<rparr> in
      case lru_iterMap c1 k of
        None \<Rightarrow> Inr (None, c1)
      | Some i \<Rightarrow>
          (case lru_touch i c1 of
             Inl e \<Rightarrow> Inl e
           | Inr c2 \<Rightarrow>
               Inr (map_option it_t (map_of (lru_items c2) i),
                    c2\<lparr>lru_hit := sz_add (lru_hit c2) 1\<rparr>)))"

definition lru_value :: "'t \<Rightarrow> 'k \<Rightarrow> ('k, 't) lru_cache \<Rightarrow> lru_fault + ('t \<times> ('k, 't) lru_cache)" where
  "lru_value dflt k c =
     (case lru_get k c of
        Inl e \<Rightarrow> Inl e
      | Inr (p, c') \<Rightarrow> Inr ((case p of None \<Rightarrow> dflt | Some v \<Rightarrow> v), c'))"

section \<open>Invariant and abstract view\<close>

text \<open>The cached entries from the most to the least recently used, without node identities.\<close>

definition lru_view :: "('k, 't) lru_cache \<Rightarrow> ('k, 't) item_t list" where
  "lru_view c = map snd (lru_items c)"

definition lru_sum :: "('k, 't) lru_cache \<Rightarrow> nat" where
  "lru_sum c = sum_list (map it_cost (lru_view c))"

text \<open>The map and the list agree: same keys, unique keys and nodes, iterators valid.\<close>

definition node_keys :: "(ident \<times> ('k, 't) item_t) list \<Rightarrow> (ident \<times> 'k) set" where
  "node_keys xs = (\<lambda>n. (fst n, it_k (snd n))) ` set xs"

definition linked ::
  "(ident \<times> ('k, 't) item_t) list \<Rightarrow> ('k \<rightharpoonup> ident) \<Rightarrow> ident \<Rightarrow> bool" where
  "linked xs m nx \<longleftrightarrow>
     distinct (map fst xs) \<and> distinct (map (\<lambda>n. it_k (snd n)) xs) \<and>
     (\<forall>k i. m k = Some i \<longleftrightarrow> (i, k) \<in> node_keys xs) \<and>
     (\<forall>n \<in> set xs. fst n < nx)"

definition lru_linked :: "('k, 't) lru_cache \<Rightarrow> bool" where
  "lru_linked c \<longleftrightarrow> linked (lru_items c) (lru_iterMap c) (lru_next c)"

text \<open>
  The accounting: \<open>_cost\<close> is at least the sum of the items' costs (it is larger after an
  existing key has been added again) and within a capacity small enough not to wrap.
\<close>

definition lru_inv :: "('k, 't) lru_cache \<Rightarrow> bool" where
  "lru_inv c \<longleftrightarrow>
     lru_linked c \<and> lru_sum c \<le> lru_cost c \<and> lru_cost c \<le> lru_cap c \<and> lru_cap c \<le> 2 ^ 62"

text \<open>What \<open>_cost\<close> counts beyond the items present.\<close>

definition lru_phantom :: "('k, 't) lru_cache \<Rightarrow> nat" where
  "lru_phantom c = lru_cost c - lru_sum c"

text \<open>The longest prefix of the entries that fits a budget.\<close>

fun lru_fit :: "nat \<Rightarrow> ('n \<times> ('k, 't) item_t) list \<Rightarrow> ('n \<times> ('k, 't) item_t) list" where
  "lru_fit b [] = []"
| "lru_fit b (x # xs) =
     (if it_cost (snd x) \<le> b then x # lru_fit (b - it_cost (snd x)) xs else [])"

abbreviation node_sum :: "('n \<times> ('k, 't) item_t) list \<Rightarrow> nat" where
  "node_sum xs \<equiv> sum_list (map (\<lambda>n. it_cost (snd n)) xs)"

lemma lru_sum_alt: "lru_sum c = node_sum (lru_items c)"
  by (simp add: lru_sum_def lru_view_def o_def)

lemma lru_fit_all: "node_sum xs \<le> b \<Longrightarrow> lru_fit b xs = xs"
  by (induction xs arbitrary: b) auto

lemma lru_fit_butlast: "b < node_sum (xs @ [x]) \<Longrightarrow> lru_fit b (xs @ [x]) = lru_fit b xs"
  by (induction xs arbitrary: b) auto

lemma lru_fit_sum: "node_sum (lru_fit b xs) \<le> b"
proof (induction xs arbitrary: b)
  case Nil
  then show ?case by simp
next
  case (Cons x xs)
  have "node_sum (lru_fit (b - it_cost (snd x)) xs) \<le> b - it_cost (snd x)"
    by (rule Cons.IH)
  then show ?case by auto
qed

lemma lru_fit_prefix: "\<exists>ys. xs = lru_fit b xs @ ys"
  by (induction xs arbitrary: b) auto

lemma lru_fit_maximal:
  "xs = lru_fit b xs @ y # ys \<Longrightarrow> b < node_sum (lru_fit b xs) + it_cost (snd y)"
proof (induction xs arbitrary: b)
  case Nil
  then show ?case by simp
next
  case (Cons x xs)
  show ?case
  proof (cases "it_cost (snd x) \<le> b")
    case True
    with Cons.prems have "xs = lru_fit (b - it_cost (snd x)) xs @ y # ys" by simp
    then have "b - it_cost (snd x) < node_sum (lru_fit (b - it_cost (snd x)) xs) + it_cost (snd y)"
      by (rule Cons.IH)
    with True show ?thesis by simp
  next
    case False
    with Cons.prems show ?thesis by simp
  qed
qed

lemma lru_fit_first: "it_cost (snd x) \<le> b \<Longrightarrow> hd (lru_fit b (x # xs)) = x \<and> lru_fit b (x # xs) \<noteq> []"
  by simp

section \<open>The map and the list stay linked\<close>

lemma node_keys_simps [simp]:
  "node_keys [] = {}"
  "node_keys (n # xs) = insert (fst n, it_k (snd n)) (node_keys xs)"
  "node_keys (xs @ ys) = node_keys xs \<union> node_keys ys"
  by (auto simp: node_keys_def)

lemma linked_lookup:
  assumes "linked xs m nx" and "m k = Some i"
  shows "\<exists>it. map_of xs i = Some it \<and> (i, it) \<in> set xs \<and> it_k it = k"
proof -
  from assms obtain it where "(i, it) \<in> set xs" "it_k it = k"
    by (auto simp: linked_def node_keys_def)
  moreover from this have "map_of xs i = Some it"
    using assms by (simp add: linked_def)
  ultimately show ?thesis by blast
qed

lemma linked_node: "linked xs m nx \<Longrightarrow> n \<in> set xs \<Longrightarrow> m (it_k (snd n)) = Some (fst n)"
  by (simp add: linked_def node_keys_def)

lemma linked_absent: "linked xs m nx \<Longrightarrow> m k = None \<Longrightarrow> n \<in> set xs \<Longrightarrow> it_k (snd n) \<noteq> k"
  using linked_node by fastforce

lemma linked_empty: "linked [] Map.empty nx"
  by (simp add: linked_def)

lemma linked_perm:
  assumes "mset xs = mset ys"
  shows "linked xs m nx \<longleftrightarrow> linked ys m nx"
proof -
  have "set xs = set ys" using assms by (rule mset_eq_setD)
  moreover have "mset (map fst xs) = mset (map fst ys)"
    and "mset (map (\<lambda>n. it_k (snd n)) xs) = mset (map (\<lambda>n. it_k (snd n)) ys)"
    using assms by simp_all
  then have "distinct (map fst xs) = distinct (map fst ys)"
    and "distinct (map (\<lambda>n. it_k (snd n)) xs) = distinct (map (\<lambda>n. it_k (snd n)) ys)"
    by (metis mset_eq_imp_distinct_iff)+
  ultimately show ?thesis
    by (simp only: linked_def node_keys_def)
qed

lemma linked_insert:
  assumes "linked xs m nx" and "m (it_k it) = None"
  shows "linked ((nx, it) # xs) (m(it_k it \<mapsto> nx)) (Suc nx)"
proof -
  have key: "it_k it \<notin> (\<lambda>n. it_k (snd n)) ` set xs"
    using linked_absent [OF assms] by fastforce
  have fresh: "nx \<notin> fst ` set xs"
    using assms(1) by (auto simp: linked_def)
  have "(m(it_k it \<mapsto> nx)) k = Some i \<longleftrightarrow> (i, k) \<in> node_keys ((nx, it) # xs)" for k i
    using assms(1) key by (auto simp: linked_def node_keys_def)
  then show ?thesis
    using assms(1) key fresh unfolding linked_def by (auto simp: less_Suc_eq)
qed

lemma linked_butlast:
  assumes "linked (xs @ [n]) m nx"
  shows "linked xs (m(it_k (snd n) := None)) nx"
proof -
  have key: "it_k (snd n) \<notin> (\<lambda>n. it_k (snd n)) ` set xs"
    using assms by (auto simp: linked_def)
  have "(m(it_k (snd n) := None)) k = Some i \<longleftrightarrow> (i, k) \<in> node_keys xs" for k i
    using assms key by (auto simp: linked_def node_keys_def)
  then show ?thesis
    using assms unfolding linked_def by auto
qed

lemma filter_node:
  assumes "distinct (map fst xs)" and "n \<in> set xs"
  shows "filter (\<lambda>m. fst m = fst n) xs = [n]"
  using assms
proof (induction xs)
  case (Cons x xs)
  have none: "filter (\<lambda>m. fst m = fst x) xs = []"
    using Cons.prems(1) by (force simp: filter_empty_conv image_iff)
  show ?case
  proof (cases "n = x")
    case True
    with none show ?thesis by simp
  next
    case False
    with Cons.prems have "n \<in> set xs" and "fst x \<noteq> fst n" by auto
    with Cons show ?thesis by simp
  qed
qed simp

lemma mset_filter_node:
  assumes "distinct (map fst xs)" and "(i, it) \<in> set xs"
  shows "mset ((i, it) # filter (\<lambda>n. fst n \<noteq> i) xs) = mset xs"
proof -
  have "filter (\<lambda>n. fst n = i) xs = [(i, it)]"
    using filter_node [OF assms] by simp
  then have "mset (filter (\<lambda>n. fst n = i) xs) = {#(i, it)#}" by simp
  then show ?thesis
    using multiset_partition [of "mset xs" "\<lambda>n. fst n = i"] by simp
qed

lemma linked_touch:
  assumes "linked xs m nx" and "(i, it) \<in> set xs"
  shows "linked ((i, it) # filter (\<lambda>n. fst n \<noteq> i) xs) m nx"
proof -
  have "mset ((i, it) # filter (\<lambda>n. fst n \<noteq> i) xs) = mset xs"
    using assms by (intro mset_filter_node) (simp_all add: linked_def)
  from linked_perm [OF this] assms(1) show ?thesis by (rule iffD2)
qed

lemma linked_filter:
  assumes "linked xs m nx" and "(i, it) \<in> set xs"
  shows "linked (filter (\<lambda>n. fst n \<noteq> i) xs) (m(it_k it := None)) nx"
proof -
  have "mset (filter (\<lambda>n. fst n \<noteq> i) xs @ [(i, it)]) = mset xs"
    using mset_filter_node [of xs i it] assms by (simp add: linked_def)
  then have "linked (filter (\<lambda>n. fst n \<noteq> i) xs @ [(i, it)]) m nx"
    using assms(1) linked_perm by metis
  from linked_butlast [OF this] show ?thesis by simp
qed

lemma node_sum_mset: "node_sum xs = (\<Sum>n \<in># mset xs. it_cost (snd n))"
  by (induction xs) auto

lemma node_sum_filter:
  assumes "linked xs m nx" and "(i, it) \<in> set xs"
  shows "node_sum xs = it_cost it + node_sum (filter (\<lambda>n. fst n \<noteq> i) xs)"
proof -
  have "mset xs = mset ((i, it) # filter (\<lambda>n. fst n \<noteq> i) xs)"
    using mset_filter_node [of xs i it] assms by (simp add: linked_def)
  then have "node_sum xs = node_sum ((i, it) # filter (\<lambda>n. fst n \<noteq> i) xs)"
    by (simp only: node_sum_mset)
  then show ?thesis by simp
qed

lemma lru_reassign_simps [simp]:
  "fst (lru_reassign i w v n) = fst n"
  "it_k (snd (lru_reassign i w v n)) = it_k (snd n)"
  by (auto simp: lru_reassign_def)

lemma linked_update:
  assumes "linked xs m nx"
  shows "linked (map (lru_reassign i w v) xs) m nx"
proof -
  have "node_keys (map (lru_reassign i w v) xs) = node_keys xs"
    by (simp add: node_keys_def image_image)
  moreover have "map fst (map (lru_reassign i w v) xs) = map fst xs"
    "map (\<lambda>n. it_k (snd n)) (map (lru_reassign i w v) xs) = map (\<lambda>n. it_k (snd n)) xs"
    by simp_all
  ultimately show ?thesis
    using assms unfolding linked_def by (simp del: map_map)
qed

section \<open>Dropping down to the capacity\<close>

lemma preseve_cap_fits: "lru_cost c \<le> lru_cap c \<Longrightarrow> preseve_cap c = Inr c"
  by (simp add: preseve_cap.simps)

text \<open>
  What \<open>preseve_cap\<close> leaves: the longest prefix (most recently used first) that fits the
  capacity less the phantom cost; and it never pops an empty list as long as the phantom
  cost itself fits.
\<close>

lemma preseve_cap_spec:
  assumes "linked (lru_items c) (lru_iterMap c) (lru_next c)"
    and "lru_cost c = p + node_sum (lru_items c)"
    and "lru_cost c < 2 ^ 64" and "p \<le> lru_cap c"
  shows "\<exists>c'. preseve_cap c = Inr c' \<and> linked (lru_items c') (lru_iterMap c') (lru_next c') \<and>
      lru_items c' = lru_fit (lru_cap c - p) (lru_items c) \<and>
      lru_cost c' = p + node_sum (lru_items c') \<and> lru_cost c' \<le> lru_cap c' \<and>
      lru_cap c' = lru_cap c \<and> lru_next c' = lru_next c \<and>
      lru_hit c' = lru_hit c \<and> lru_total c' = lru_total c"
  using assms
proof (induction c rule: preseve_cap.induct)
  case (1 c)
  show ?case
  proof (cases "lru_cost c > lru_cap c")
    case False
    then show ?thesis
      using "1.prems" by (auto simp: preseve_cap_fits lru_fit_all)
  next
    case over: True
    have ne: "lru_items c \<noteq> []"
      using over "1.prems" by auto
    then obtain xs n where xs: "lru_items c = xs @ [n]"
      using rev_exhaust by blast
    define c1 where "c1 = c\<lparr>lru_dels := lru_dels c @ [it_t (snd n)],
       lru_cost := sz_sub (lru_cost c) (it_cost (snd n)),
       lru_iterMap := (lru_iterMap c)(it_k (snd n) := None), lru_items := xs\<rparr>"
    have step: "preseve_cap c = preseve_cap c1"
      using over ne xs by (subst preseve_cap.simps) (simp add: c1_def Let_def)
    have cost: "lru_cost c1 = p + node_sum (lru_items c1)"
      using "1.prems" xs by (simp add: c1_def)
    have fit: "lru_fit (lru_cap c - p) (xs @ [n]) = lru_fit (lru_cap c - p) xs"
      using over "1.prems" xs by (intro lru_fit_butlast) simp
    have "\<exists>c'. preseve_cap c1 = Inr c' \<and> linked (lru_items c') (lru_iterMap c') (lru_next c') \<and>
      lru_items c' = lru_fit (lru_cap c1 - p) (lru_items c1) \<and>
      lru_cost c' = p + node_sum (lru_items c') \<and> lru_cost c' \<le> lru_cap c' \<and>
      lru_cap c' = lru_cap c1 \<and> lru_next c' = lru_next c1 \<and>
      lru_hit c' = lru_hit c1 \<and> lru_total c' = lru_total c1"
    proof (rule "1.IH" [OF over ne refl, of, unfolded xs last_snoc butlast_snoc, folded c1_def])
      show "linked (lru_items c1) (lru_iterMap c1) (lru_next c1)"
        using linked_butlast [of xs n] "1.prems"(1) xs by (simp add: c1_def)
      show "lru_cost c1 = p + node_sum (lru_items c1)" by (rule cost)
      show "lru_cost c1 < 2 ^ 64"
        using sz_sub_less [of "lru_cost c" "it_cost (snd n)"] by (simp add: c1_def)
      show "p \<le> lru_cap c1" using "1.prems" by (simp add: c1_def)
    qed
    then show ?thesis
      unfolding step xs fit by (simp add: c1_def)
  qed
qed

text \<open>When the phantom cost exceeds the capacity, the loop runs past the empty list.\<close>

lemma preseve_cap_overrun:
  assumes "lru_cost c = p + node_sum (lru_items c)"
    and "lru_cost c < 2 ^ 64" and "lru_cap c < p"
  shows "preseve_cap c = Inl undefined_behaviour"
  using assms
proof (induction c rule: preseve_cap.induct)
  case (1 c)
  have over: "lru_cost c > lru_cap c" using "1.prems" by simp
  show ?case
  proof (cases "lru_items c = []")
    case True
    with over show ?thesis by (subst preseve_cap.simps) simp
  next
    case ne: False
    then obtain xs n where xs: "lru_items c = xs @ [n]"
      using rev_exhaust by blast
    define c1 where "c1 = c\<lparr>lru_dels := lru_dels c @ [it_t (snd n)],
       lru_cost := sz_sub (lru_cost c) (it_cost (snd n)),
       lru_iterMap := (lru_iterMap c)(it_k (snd n) := None), lru_items := xs\<rparr>"
    have step: "preseve_cap c = preseve_cap c1"
      using over ne xs by (subst preseve_cap.simps) (simp add: c1_def Let_def)
    have "preseve_cap c1 = Inl undefined_behaviour"
    proof (rule "1.IH" [OF over ne refl, of, unfolded xs last_snoc butlast_snoc, folded c1_def])
      show "lru_cost c1 = p + node_sum (lru_items c1)"
        using "1.prems" xs by (simp add: c1_def)
      show "lru_cost c1 < 2 ^ 64"
        using sz_sub_less [of "lru_cost c" "it_cost (snd n)"] by (simp add: c1_def)
      show "lru_cap c1 < p" using "1.prems" by (simp add: c1_def)
    qed
    with step show ?thesis by simp
  qed
qed

section \<open>The operations on a well-formed cache\<close>

lemma lru_inv_new: "cap \<le> 2 ^ 62 \<Longrightarrow> lru_inv (lru_new cap)"
  by (simp add: lru_inv_def lru_new_def lru_linked_def linked_empty lru_sum_def lru_view_def)

lemma lru_invD:
  assumes "lru_inv c"
  shows "linked (lru_items c) (lru_iterMap c) (lru_next c)"
    and "lru_cost c = lru_phantom c + node_sum (lru_items c)"
    and "lru_cost c \<le> lru_cap c" and "lru_cap c \<le> 2 ^ 62"
  using assms by (auto simp: lru_inv_def lru_linked_def lru_phantom_def lru_sum_alt)

lemma lru_invI:
  assumes "linked (lru_items c) (lru_iterMap c) (lru_next c)"
    and "lru_cost c = p + node_sum (lru_items c)"
    and "lru_cost c \<le> lru_cap c" and "lru_cap c \<le> 2 ^ 62"
  shows "lru_inv c"
  using assms by (auto simp: lru_inv_def lru_linked_def lru_sum_alt)

text \<open>The node of a key that is present.\<close>

lemma lru_hit_node:
  assumes "lru_inv c" and "lru_iterMap c k = Some i"
  obtains it where "map_of (lru_items c) i = Some it" "(i, it) \<in> set (lru_items c)" "it_k it = k"
  using linked_lookup [OF lru_invD(1) [OF assms(1)] assms(2)] by blast

lemma lru_touch_node:
  "map_of (lru_items c) i = Some it \<Longrightarrow>
     lru_touch i c = Inr (c\<lparr>lru_items := (i, it) # filter (\<lambda>n. fst n \<noteq> i) (lru_items c)\<rparr>)"
  by (simp add: lru_touch_def)

lemma lru_get_miss:
  "lru_iterMap c k = None \<Longrightarrow> lru_get k c = Inr (None, c\<lparr>lru_total := sz_add (lru_total c) 1\<rparr>)"
  by (simp add: lru_get_def Let_def)

lemma lru_get_hit:
  assumes "lru_inv c" and "lru_iterMap c k = Some i"
    and "map_of (lru_items c) i = Some it"
  shows "lru_get k c =
     Inr (Some (it_t it),
          c\<lparr>lru_total := sz_add (lru_total c) 1, lru_hit := sz_add (lru_hit c) 1,
            lru_items := (i, it) # filter (\<lambda>n. fst n \<noteq> i) (lru_items c)\<rparr>)"
  using assms by (simp add: lru_get_def Let_def lru_touch_def)

lemma lru_get_inv [inv_intros]:
  assumes "lru_inv c"
  shows "\<exists>r c'. lru_get k c = Inr (r, c') \<and> lru_inv c'"
proof (cases "lru_iterMap c k")
  case None
  then show ?thesis
    using assms by (simp add: lru_get_miss lru_inv_def lru_linked_def lru_sum_alt)
next
  case (Some i)
  with assms obtain it where it: "map_of (lru_items c) i = Some it" "(i, it) \<in> set (lru_items c)"
    by (rule lru_hit_node)
  have "lru_inv (c\<lparr>lru_total := t, lru_hit := h,
      lru_items := (i, it) # filter (\<lambda>n. fst n \<noteq> i) (lru_items c)\<rparr>)" for t h
    by (rule lru_invI [where p = "lru_phantom c"])
      (use lru_invD [OF assms] linked_touch [OF lru_invD(1) [OF assms] it(2)]
        node_sum_filter [OF lru_invD(1) [OF assms] it(2)] in auto)
  with lru_get_hit [OF assms Some it(1)] show ?thesis by blast
qed

lemma lru_drop_inv:
  assumes "lru_inv c" and "lru_iterMap c k = Some i" and "map_of (lru_items c) i = Some it"
  shows "lru_inv (c\<lparr>lru_dels := d, lru_cost := sz_sub (lru_cost c) (it_cost it),
      lru_items := filter (\<lambda>n. fst n \<noteq> i) (lru_items c),
      lru_iterMap := (lru_iterMap c)(k := None)\<rparr>)"
proof -
  have it: "(i, it) \<in> set (lru_items c)" "it_k it = k"
    using lru_hit_node [OF assms(1,2)] assms(3) by (metis option.inject)+
  note D = lru_invD [OF assms(1)]
  have sum: "node_sum (lru_items c) = it_cost it + node_sum (filter (\<lambda>n. fst n \<noteq> i) (lru_items c))"
    by (rule node_sum_filter [OF D(1) it(1)])
  have cost: "sz_sub (lru_cost c) (it_cost it) = lru_cost c - it_cost it"
    using D sum by (intro sz_sub_exact) auto
  show ?thesis
    by (rule lru_invI [where p = "lru_phantom c"])
      (use D sum cost linked_filter [OF D(1) it(1)] it(2) in auto)
qed

lemma lru_remove_inv [inv_intros]:
  assumes "lru_inv c"
  shows "\<exists>c'. lru_remove k c = Inr c' \<and> lru_inv c'"
proof (cases "lru_iterMap c k")
  case None
  then show ?thesis using assms by (simp add: lru_remove_def)
next
  case (Some i)
  with assms obtain it where it: "map_of (lru_items c) i = Some it"
    by (rule lru_hit_node)
  with lru_drop_inv [OF assms Some it] Some show ?thesis
    by (simp add: lru_remove_def)
qed

lemma lru_take_inv [inv_intros]:
  assumes "lru_inv c"
  shows "\<exists>r c'. lru_take dflt k c = Inr (r, c') \<and> lru_inv c'"
proof (cases "lru_iterMap c k")
  case None
  then show ?thesis using assms by (simp add: lru_take_def)
next
  case (Some i)
  with assms obtain it where it: "map_of (lru_items c) i = Some it"
    by (rule lru_hit_node)
  with lru_drop_inv [OF assms Some it, where d = "lru_dels c"] Some show ?thesis
    by (simp add: lru_take_def)
qed

lemma lru_clear_inv [inv_intros]: "lru_inv c \<Longrightarrow> lru_inv (lru_clear c)"
  by (simp add: lru_inv_def lru_clear_def lru_linked_def linked_empty lru_sum_def lru_view_def)

lemma lru_add_new_spec:
  assumes "lru_inv c" and "lru_iterMap c k = None" and "w \<le> lru_cap c"
  shows "\<exists>c'. lru_add w k v c = Inr (lru_next c, c') \<and> lru_inv c' \<and>
     lru_phantom c' = lru_phantom c \<and> lru_cap c' = lru_cap c \<and>
     lru_items c' = lru_fit (lru_cap c - lru_phantom c)
       ((lru_next c, \<lparr>it_cost = w, it_k = k, it_t = v\<rparr>) # lru_items c)"
proof -
  note D = lru_invD [OF assms(1)]
  let ?it = "\<lparr>it_cost = w, it_k = k, it_t = v\<rparr>"
  define c1 where "c1 = c\<lparr>lru_items := (lru_next c, ?it) # lru_items c,
     lru_iterMap := (lru_iterMap c)(k \<mapsto> lru_next c), lru_next := Suc (lru_next c),
     lru_cost := sz_add (lru_cost c) w\<rparr>"
  have cost: "lru_cost c1 = lru_cost c + w" "lru_cost c + w < 2 ^ 64"
    using D assms(3) by (simp_all add: c1_def)
  have "\<exists>c'. preseve_cap c1 = Inr c' \<and> linked (lru_items c') (lru_iterMap c') (lru_next c') \<and>
      lru_items c' = lru_fit (lru_cap c1 - lru_phantom c) (lru_items c1) \<and>
      lru_cost c' = lru_phantom c + node_sum (lru_items c') \<and> lru_cost c' \<le> lru_cap c' \<and>
      lru_cap c' = lru_cap c1 \<and> lru_next c' = lru_next c1 \<and>
      lru_hit c' = lru_hit c1 \<and> lru_total c' = lru_total c1"
    by (rule preseve_cap_spec)
      (use D cost linked_insert [OF D(1), of ?it] assms(2) in \<open>auto simp: c1_def\<close>)
  then obtain c' where c': "preseve_cap c1 = Inr c'" "linked (lru_items c') (lru_iterMap c') (lru_next c')"
    "lru_items c' = lru_fit (lru_cap c - lru_phantom c) ((lru_next c, ?it) # lru_items c)"
    "lru_cost c' = lru_phantom c + node_sum (lru_items c')" "lru_cost c' \<le> lru_cap c'"
    "lru_cap c' = lru_cap c"
    by (auto simp: c1_def)
  have "lru_inv c'"
    using c' D(4) by (intro lru_invI [where p = "lru_phantom c"]) auto
  moreover have "lru_phantom c' = lru_phantom c"
    using c'(4) by (simp add: lru_phantom_def lru_sum_alt)
  moreover have "lru_add w k v c = Inr (lru_next c, c')"
    using assms(2,3) c'(1) by (simp add: lru_add_def c1_def)
  ultimately show ?thesis using c' by blast
qed

lemma lru_add_old_spec:
  assumes "lru_inv c" and "lru_iterMap c k = Some i" and "map_of (lru_items c) i = Some it"
    and "w \<le> lru_cap c"
  shows "\<exists>c'. lru_add w k v c = Inr (i, c') \<and> lru_inv c' \<and> lru_cap c' = lru_cap c \<and>
     lru_phantom c' = lru_phantom c + it_cost it \<and>
     lru_items c' = lru_fit (lru_cap c - (lru_phantom c + it_cost it))
       ((i, it\<lparr>it_cost := w, it_t := v\<rparr>) # filter (\<lambda>n. fst n \<noteq> i) (lru_items c))"
proof -
  note D = lru_invD [OF assms(1)]
  have it: "(i, it) \<in> set (lru_items c)"
    using assms(3) by (rule map_of_SomeD)
  let ?it = "it\<lparr>it_cost := w, it_t := v\<rparr>"
  let ?rest = "filter (\<lambda>n. fst n \<noteq> i) (lru_items c)"
  let ?xs = "map (lru_reassign i w v) (lru_items c)"
  have rest: "filter (\<lambda>n. fst n \<noteq> i) ?xs = ?rest"
    by (simp add: filter_map o_def) (rule map_idI, simp add: lru_reassign_def)
  have mem: "(i, ?it) \<in> set ?xs"
    using it by (force simp: lru_reassign_def image_iff)
  have linked: "linked ?xs (lru_iterMap c) (lru_next c)"
    using D(1) by (rule linked_update)
  have at: "map_of ?xs i = Some ?it"
    using linked mem by (simp add: linked_def)
  have sum: "node_sum (lru_items c) = it_cost it + node_sum ?rest"
    by (rule node_sum_filter [OF D(1) it])
  define c1 where "c1 = c\<lparr>lru_items := (i, ?it) # ?rest, lru_cost := sz_add (lru_cost c) w\<rparr>"
  have cost: "lru_cost c1 = lru_cost c + w" "lru_cost c + w < 2 ^ 64"
    using D assms(4) by (simp_all add: c1_def)
  have "\<exists>c'. preseve_cap c1 = Inr c' \<and> linked (lru_items c') (lru_iterMap c') (lru_next c') \<and>
      lru_items c' = lru_fit (lru_cap c1 - (lru_phantom c + it_cost it)) (lru_items c1) \<and>
      lru_cost c' = (lru_phantom c + it_cost it) + node_sum (lru_items c') \<and> lru_cost c' \<le> lru_cap c' \<and>
      lru_cap c' = lru_cap c1 \<and> lru_next c' = lru_next c1 \<and>
      lru_hit c' = lru_hit c1 \<and> lru_total c' = lru_total c1"
    by (rule preseve_cap_spec)
      (use D cost sum linked_touch [OF linked mem] rest in \<open>auto simp: c1_def\<close>)
  then obtain c' where c': "preseve_cap c1 = Inr c'" "linked (lru_items c') (lru_iterMap c') (lru_next c')"
    "lru_items c' = lru_fit (lru_cap c - (lru_phantom c + it_cost it)) ((i, ?it) # ?rest)"
    "lru_cost c' = (lru_phantom c + it_cost it) + node_sum (lru_items c')" "lru_cost c' \<le> lru_cap c'"
    "lru_cap c' = lru_cap c"
    by (auto simp: c1_def)
  have "lru_inv c'"
    using c' D(4) by (intro lru_invI [where p = "lru_phantom c + it_cost it"]) auto
  moreover have "lru_phantom c' = lru_phantom c + it_cost it"
    using c'(4) by (simp add: lru_phantom_def lru_sum_alt)
  moreover have "lru_add w k v c = Inr (i, c')"
    using assms(2,4) c'(1) at rest by (simp add: lru_add_def lru_touch_def c1_def)
  ultimately show ?thesis using c' by blast
qed

lemma lru_add_inv [inv_intros]:
  assumes "lru_inv c" and "w \<le> lru_cap c"
  shows "\<exists>i c'. lru_add w k v c = Inr (i, c') \<and> lru_inv c'"
proof (cases "lru_iterMap c k")
  case None
  from lru_add_new_spec [OF assms(1) this assms(2), of v] show ?thesis by blast
next
  case (Some i)
  with assms(1) obtain it where it: "map_of (lru_items c) i = Some it"
    by (rule lru_hit_node)
  from lru_add_old_spec [OF assms(1) Some it assms(2), of v] show ?thesis by blast
qed

section \<open>Runs\<close>

datatype ('k, 't) lru_op =
    Lru_add nat 'k 't
  | Lru_get 'k
  | Lru_remove 'k
  | Lru_take 'k
  | Lru_clear

text \<open>One call; \<open>add\<close> of an item that is too large throws before it changes anything.\<close>

fun lru_step :: "('k, 't) lru_op \<Rightarrow> ('k, 't::zero) lru_cache \<Rightarrow> lru_fault + ('k, 't) lru_cache" where
  "lru_step (Lru_add w k v) c =
     (case lru_add w k v c of
        Inl item_too_large \<Rightarrow> Inr c
      | Inl undefined_behaviour \<Rightarrow> Inl undefined_behaviour
      | Inr r \<Rightarrow> Inr (snd r))"
| "lru_step (Lru_get k) c = map_sum id snd (lru_get k c)"
| "lru_step (Lru_remove k) c = lru_remove k c"
| "lru_step (Lru_take k) c = map_sum id snd (lru_take 0 k c)"
| "lru_step Lru_clear c = Inr (lru_clear c)"

fun lru_run :: "('k, 't) lru_op list \<Rightarrow> ('k, 't::zero) lru_cache \<Rightarrow> lru_fault + ('k, 't) lru_cache" where
  "lru_run [] c = Inr c"
| "lru_run (x # xs) c = (case lru_step x c of Inl e \<Rightarrow> Inl e | Inr c' \<Rightarrow> lru_run xs c')"

lemma lru_step_inv: "lru_inv c \<Longrightarrow> \<exists>c'. lru_step x c = Inr c' \<and> lru_inv c'"
proof (cases x)
  case (Lru_add w k v)
  assume "lru_inv c"
  then show ?thesis
    using lru_add_inv [of c w k v] Lru_add by (cases "w \<le> lru_cap c") (auto simp: lru_add_def)
next
  case (Lru_get k)
  assume "lru_inv c"
  with lru_get_inv [of c k] Lru_get show ?thesis by auto
next
  case (Lru_remove k)
  assume "lru_inv c"
  with lru_remove_inv [of c k] Lru_remove show ?thesis by auto
next
  case (Lru_take k)
  assume "lru_inv c"
  with lru_take_inv [of c 0 k] Lru_take show ?thesis by auto
next
  case Lru_clear
  assume "lru_inv c"
  with lru_clear_inv Lru_clear show ?thesis by auto
qed

lemma lru_run_inv: "lru_inv c \<Longrightarrow> \<exists>c'. lru_run xs c = Inr c' \<and> lru_inv c'"
proof (induction xs arbitrary: c)
  case (Cons x xs)
  with lru_step_inv [OF Cons.prems, of x] show ?case by auto
qed simp

end
