(* ===== verification/Lru_Props.thy ===== *)
theory Lru_Props
  imports Lru_Cache
begin

text \<open>
  The properties of the LRU cache (\<open>Lru_Cache\<close>): memory safety and accounting over any
  sequence of calls, what \<open>add\<close> keeps and evicts, what \<open>get\<close> returns and reorders, and the
  accounting of a key that is added twice.
\<close>

lemma lru_fit_is_take: "lru_fit b xs = take (length (lru_fit b xs)) xs"
  by (metis append_eq_conv_conj lru_fit_prefix)

lemma lru_view_fit:
  "lru_items c' = lru_fit b xs \<Longrightarrow> lru_view c' = take (length (lru_view c')) (map snd xs)"
  by (metis lru_fit_is_take length_map lru_view_def take_map)

lemma node_sum_view: "node_sum xs = sum_list (map it_cost (map snd xs))"
  by (simp add: comp_def)

lemma lru_fit_over:
  assumes "length (lru_fit b xs) < length xs"
  shows "b < node_sum (take (Suc (length (lru_fit b xs))) xs)"
proof -
  let ?n = "length (lru_fit b xs)"
  have s: "xs = lru_fit b xs @ xs ! ?n # drop (Suc ?n) xs"
    using assms lru_fit_is_take [of b xs] by (metis id_take_nth_drop)
  have "take (Suc ?n) xs = lru_fit b xs @ [xs ! ?n]"
    using assms lru_fit_is_take [of b xs] by (metis take_Suc_conv_app_nth)
  then show ?thesis
    using lru_fit_maximal [OF s] by simp
qed

text \<open>The entries of the list are what the map finds.\<close>

lemma lru_contains_view:
  assumes "lru_inv c"
  shows "lru_contains k c \<longleftrightarrow> k \<in> it_k ` set (lru_view c)"
proof -
  have "(\<exists>i. lru_iterMap c k = Some i) \<longleftrightarrow> k \<in> snd ` node_keys (lru_items c)"
    using lru_invD(1) [OF assms] by (force simp: linked_def)
  then show ?thesis
    by (simp add: lru_contains_def lru_view_def node_keys_def image_image)
qed

lemma lru_view_keys: "lru_inv c \<Longrightarrow> distinct (map it_k (lru_view c))"
  by (auto simp: lru_view_def linked_def comp_def dest!: lru_invD(1))

section \<open>Properties\<close>



text \<open>
  C27: Adding a new key puts it first and keeps, of the entries in order of use, the longest prefix
  whose cost fits the capacity: exactly the least recently used entries are evicted, and no more of
  them than needed. (Stated for a cache whose accounting is exact, see
  \<open>lru_readd_counts_twice\<close>.)
\<close>

theorem lru_add_evicts_least_recent:
  assumes "lru_inv c" and "lru_used c = lru_sum c" and "\<not> lru_contains k c" and "w \<le> lru_capacity c"
  shows "\<exists>i c' n. lru_add w k v c = Inr (i, c') \<and> lru_used c' = lru_sum c' \<and> 0 < n \<and>
    lru_view c' = take n (\<lparr>it_cost = w, it_k = k, it_t = v\<rparr> # lru_view c) \<and>
    sum_list (map it_cost (lru_view c')) \<le> lru_capacity c \<and>
    (n \<le> length (lru_view c) \<longrightarrow>
       lru_capacity c < sum_list (map it_cost (take (Suc n) (\<lparr>it_cost = w, it_k = k, it_t = v\<rparr> # lru_view c))))"
proof -
  let ?it = "\<lparr>it_cost = w, it_k = k, it_t = v\<rparr>"
  let ?xs = "(lru_next c, ?it) # lru_items c"
  have p: "lru_phantom c = 0"
    using assms(2) by (simp add: lru_phantom_def lru_used_def)
  have k: "lru_iterMap c k = None" and w: "w \<le> lru_cap c"
    using assms(3,4) by (auto simp: lru_contains_def lru_capacity_def)
  obtain c' where c': "lru_add w k v c = Inr (lru_next c, c')" "lru_inv c'" "lru_phantom c' = 0"
    "lru_items c' = lru_fit (lru_cap c) ?xs"
    using lru_add_new_spec [OF assms(1) k w, of v] p by auto
  let ?n = "length (lru_view c')"
  have view: "lru_view c' = take ?n (?it # lru_view c)"
  proof -
    have "map snd ?xs = ?it # lru_view c"
      by (simp add: lru_view_def)
    then show ?thesis
      using lru_view_fit [OF c'(4)] by (simp only:)
  qed
  have sum: "sum_list (map it_cost (lru_view c')) \<le> lru_cap c"
    using lru_fit_sum [of "lru_cap c" ?xs] c'(4) by (simp add: lru_view_def comp_def)
  have "lru_cap c < sum_list (map it_cost (take (Suc ?n) (?it # lru_view c)))" if "?n \<le> length (lru_view c)"
  proof -
    have l: "?n = length (lru_fit (lru_cap c) ?xs)"
      using c'(4) by (simp add: lru_view_def)
    have "lru_cap c < node_sum (take (Suc ?n) ?xs)"
      unfolding l by (rule lru_fit_over) (use that l in \<open>simp add: lru_view_def\<close>)
    then show ?thesis
      unfolding node_sum_view by (simp add: lru_view_def take_map)
  qed
  moreover have "0 < ?n"
    using c'(4) w by (simp add: lru_view_def)
  moreover have "lru_used c' = lru_sum c'"
    using lru_invD(2) [OF c'(2)] c'(3) by (simp add: lru_used_def lru_sum_alt)
  ultimately show ?thesis
    using c'(1) view sum by (auto simp: lru_capacity_def)
qed

theorem lru_add_evicts_least_recent_witness:
  "\<exists>i c'. lru_add 3 (7::nat) (70::nat) (lru_new 5) = Inr (i, c') \<and>
    lru_view c' = [\<lparr>it_cost = 3, it_k = 7, it_t = 70\<rparr>] \<and> lru_used c' = lru_sum c'"
proof -
  have "lru_inv (lru_new 5 :: (nat, nat) lru_cache)"
    by (rule lru_inv_new) simp
  then obtain i c' n where a: "lru_add 3 (7::nat) (70::nat) (lru_new 5) = Inr (i, c')" "lru_used c' = lru_sum c'"
      "0 < n" "lru_view c' = take n (\<lparr>it_cost = 3, it_k = 7, it_t = 70\<rparr> # lru_view (lru_new 5))"
    using lru_add_evicts_least_recent [of "lru_new 5 :: (nat, nat) lru_cache" 7 3 70]
    by (auto simp: lru_new_def lru_used_def lru_sum_def lru_view_def lru_contains_def lru_capacity_def)
  have "lru_view c' = [\<lparr>it_cost = 3, it_k = 7, it_t = 70\<rparr>]"
    using a(3,4) by (cases n) (simp_all add: lru_new_def lru_view_def)
  with a(1,2) show ?thesis
    by blast
qed

text \<open>
  \<open>get\<close> finds exactly the cached value of the key, makes its entry the most recently used
  one, keeps the order of the others, and counts one access, and one hit when it found something.
\<close>

theorem lru_get_finds_and_touches:
  assumes "lru_inv c"
  shows "\<exists>r c'. lru_get k c = Inr (r, c') \<and>
    r = map_option it_t (find (\<lambda>e. it_k e = k) (lru_view c)) \<and>
    lru_view c' = filter (\<lambda>e. it_k e = k) (lru_view c) @ filter (\<lambda>e. it_k e \<noteq> k) (lru_view c) \<and>
    lru_total c' = sz_add (lru_total c) 1 \<and>
    lru_hit c' = (if r = None then lru_hit c else sz_add (lru_hit c) 1)"
proof (cases "lru_iterMap c k")
  case None
  then have "k \<notin> it_k ` set (lru_view c)"
    using lru_contains_view [OF assms, of k] by (simp add: lru_contains_def)
  then have "find (\<lambda>e. it_k e = k) (lru_view c) = None" "filter (\<lambda>e. it_k e = k) (lru_view c) = []"
    "filter (\<lambda>e. it_k e \<noteq> k) (lru_view c) = lru_view c"
    by (auto simp: find_None_iff filter_empty_conv intro!: filter_True)
  then show ?thesis
    using lru_get_miss [of c k] None by (simp add: lru_view_def)
next
  case (Some i)
  note L = lru_invD(1) [OF assms]
  obtain it where it: "map_of (lru_items c) i = Some it" "(i, it) \<in> set (lru_items c)" "it_k it = k"
    by (rule lru_hit_node [OF assms Some])
  have same: "fst n = i \<longleftrightarrow> it_k (snd n) = k" if "n \<in> set (lru_items c)" for n
    using linked_node [OF L that] Some L that it
    by (metis (no_types, lifting) linked_def map_of_is_SomeI option.inject prod.collapse)
  have d: "distinct (map fst (lru_items c))"
    using L by (simp add: linked_def)
  have one: "filter (\<lambda>n. fst n = i) (lru_items c) = [(i, it)]"
    using filter_node [OF d it(2)] by simp
  have f1: "filter (\<lambda>n. it_k (snd n) = k) (lru_items c) = [(i, it)]"
    using one same by (simp cong: filter_cong)
  then have v1: "filter (\<lambda>e. it_k e = k) (lru_view c) = [it]"
    by (simp add: lru_view_def filter_map comp_def)
  have v2: "filter (\<lambda>e. it_k e \<noteq> k) (lru_view c) = map snd (filter (\<lambda>n. fst n \<noteq> i) (lru_items c))"
    using same by (simp add: lru_view_def filter_map comp_def cong: filter_cong)
  have "find (\<lambda>e. it_k e = k) (lru_view c) = Some it"
  proof -
    obtain e where e: "find (\<lambda>e. it_k e = k) (lru_view c) = Some e"
      using it by (cases "find (\<lambda>e. it_k e = k) (lru_view c)") (auto simp: find_None_iff lru_view_def)
    then have "e \<in> set (filter (\<lambda>e. it_k e = k) (lru_view c))"
      by (auto simp: find_Some_iff)
    then show ?thesis
      using v1 e by simp
  qed
  then show ?thesis
    using lru_get_hit [OF assms Some it(1)] v1 v2 by (simp add: lru_view_def)
qed

theorem lru_get_finds_and_touches_witness:
  "\<exists>c r c'. lru_run [Lru_add 2 (1::nat) (10::nat), Lru_add 2 2 20] (lru_new 5) = Inr c \<and>
    lru_get 1 c = Inr (r, c') \<and> r = Some 10 \<and> lru_view c' = [\<lparr>it_cost = 2, it_k = 1, it_t = 10\<rparr>, \<lparr>it_cost = 2, it_k = 2, it_t = 20\<rparr>]"
proof -
  have "lru_inv (lru_new 5 :: (nat, nat) lru_cache)"
    by (rule lru_inv_new) simp
  from lru_run_inv [OF this, of "[Lru_add 2 1 10, Lru_add 2 2 20]"]
  obtain c :: "(nat, nat) lru_cache" where
    c: "lru_run [Lru_add 2 1 10, Lru_add 2 2 20] (lru_new 5) = Inr c" "lru_inv c" by blast
  have "lru_view c = [\<lparr>it_cost = 2, it_k = 2, it_t = 20\<rparr>, \<lparr>it_cost = 2, it_k = 1, it_t = 10\<rparr>]"
    using c(1) by (simp add: lru_add_def lru_new_def preseve_cap.simps lru_view_def)
      (drule sym, simp)
  then have "\<exists>r c'. lru_get 1 c = Inr (r, c') \<and> r = Some 10 \<and>
      lru_view c' = [\<lparr>it_cost = 2, it_k = 1, it_t = 10\<rparr>, \<lparr>it_cost = 2, it_k = 2, it_t = 20\<rparr>]"
    using lru_get_finds_and_touches [OF c(2), of 1] by auto
  with c(1) show ?thesis
    by blast
qed

text \<open>
  Adding a key that is cached adds the new cost without giving back the old one. With capacity 5,
  adding key 1 twice with cost 5 evicts the entry just added (the reference \<open>add\<close> returns is to a
  destroyed node) and leaves a cost of 5 for no entry at all: nothing can be cached until \<open>clear\<close>,
  and lowering the capacity pops from an empty list.
\<close>

theorem lru_readd_counts_twice:
  "\<exists>c. lru_run [Lru_add 5 (1::nat) (10::nat), Lru_add 5 1 11] (lru_new 5) = Inr c \<and>
    lru_view c = [] \<and> lru_used c = 5 \<and>
    (\<exists>c'. lru_run [Lru_add 1 2 12] c = Inr c' \<and> lru_view c' = []) \<and>
    lru_set_capacity 4 c = Inl undefined_behaviour"
  by (simp add: lru_add_def lru_new_def preseve_cap.simps lru_view_def lru_touch_def lru_reassign_def
      lru_set_capacity_def lru_used_def)

end
