(* ===== verification/C_Types.thy ===== *)
theory C_Types
  imports Err
begin

text \<open>
  The arithmetic types of C++ and the typed byte access of \<open>include/dsk/util/endian.hpp\<close>.

  A C++ arithmetic value is an \<open>int\<close>; a floating point value is its bit pattern. A conversion to
  a type is \<open>c_cast\<close>, which wraps. The byte order functions of Boost (\<open>endian_store\<close> and
  \<open>endian_load\<close>) are not part of the repository: they are the fields of \<open>endian_codec\<close>, and
  \<open>endian_ok\<close> states what their documentation promises.
\<close>

section \<open>Arithmetic types\<close>

datatype c_type =
    C_bool | C_uint8 | C_uint16 | C_uint32 | C_uint64
  | C_int8 | C_int16 | C_int32 | C_int64
  | C_float | C_double

fun c_sizeof :: "c_type \<Rightarrow> nat" where
  "c_sizeof C_bool = 1"
| "c_sizeof C_uint8 = 1"
| "c_sizeof C_uint16 = 2"
| "c_sizeof C_uint32 = 4"
| "c_sizeof C_uint64 = 8"
| "c_sizeof C_int8 = 1"
| "c_sizeof C_int16 = 2"
| "c_sizeof C_int32 = 4"
| "c_sizeof C_int64 = 8"
| "c_sizeof C_float = 4"
| "c_sizeof C_double = 8"

fun c_signed :: "c_type \<Rightarrow> bool" where
  "c_signed C_int8 = True"
| "c_signed C_int16 = True"
| "c_signed C_int32 = True"
| "c_signed C_int64 = True"
| "c_signed _ = False"

text \<open>The number of values of a type, the stored pattern of a value, and the value of a pattern.\<close>

definition c_range :: "c_type \<Rightarrow> int" where
  "c_range T = 2 ^ (8 * c_sizeof T)"

definition c_pattern :: "c_type \<Rightarrow> int \<Rightarrow> int" where
  "c_pattern T v = v mod c_range T"

definition c_value :: "c_type \<Rightarrow> int \<Rightarrow> int" where
  "c_value T u = (if c_signed T \<and> c_range T \<le> 2 * u then u - c_range T else u)"

definition c_cast :: "c_type \<Rightarrow> int \<Rightarrow> int" where
  "c_cast T v = c_value T (c_pattern T v)"

definition c_in :: "c_type \<Rightarrow> int \<Rightarrow> bool" where
  "c_in T v \<longleftrightarrow>
     (if c_signed T then - c_range T \<le> 2 * v \<and> 2 * v < c_range T else 0 \<le> v \<and> v < c_range T)"

definition c_fp :: "c_type \<Rightarrow> bool" where
  "c_fp T \<longleftrightarrow> T = C_float \<or> T = C_double"

lemma c_in_cases:
  "c_in C_uint8 v \<longleftrightarrow> 0 \<le> v \<and> v < 2 ^ 8" "c_in C_uint16 v \<longleftrightarrow> 0 \<le> v \<and> v < 2 ^ 16"
  "c_in C_uint32 v \<longleftrightarrow> 0 \<le> v \<and> v < 2 ^ 32" "c_in C_uint64 v \<longleftrightarrow> 0 \<le> v \<and> v < 2 ^ 64"
  "c_in C_int8 v \<longleftrightarrow> - (2 ^ 7) \<le> v \<and> v < 2 ^ 7" "c_in C_int16 v \<longleftrightarrow> - (2 ^ 15) \<le> v \<and> v < 2 ^ 15"
  "c_in C_int32 v \<longleftrightarrow> - (2 ^ 31) \<le> v \<and> v < 2 ^ 31" "c_in C_int64 v \<longleftrightarrow> - (2 ^ 63) \<le> v \<and> v < 2 ^ 63"
  by (auto simp: c_in_def c_range_def)

lemma c_range_pos [simp]: "0 < c_range T"
  by (simp add: c_range_def)

lemma c_pattern_bounds: "0 \<le> c_pattern T v" "c_pattern T v < c_range T"
  by (simp_all add: c_pattern_def)

lemma c_cast_in [simp]:
  assumes "c_in T v"
  shows "c_cast T v = v"
proof (cases "0 \<le> v")
  case True
  then have "v mod c_range T = v"
    using assms by (intro mod_pos_pos_trivial) (auto simp: c_in_def split: if_splits)
  then show ?thesis
    using assms True by (auto simp: c_cast_def c_value_def c_pattern_def c_in_def)
next
  case False
  then have s: "c_signed T" "- c_range T \<le> 2 * v"
    using assms by (auto simp: c_in_def split: if_splits)
  have "v mod c_range T = (v + c_range T) mod c_range T"
    by simp
  also have "\<dots> = v + c_range T"
    using False s c_range_pos [of T] by (intro mod_pos_pos_trivial) auto
  finally show ?thesis
    using False s c_range_pos [of T] by (simp add: c_cast_def c_value_def c_pattern_def)
qed

lemma c_value_pattern: "c_value T (c_pattern T v) = c_cast T v"
  by (simp add: c_cast_def)

section \<open>Typed access to bytes\<close>

record endian_codec =
  endian_store :: "nat \<Rightarrow> int \<Rightarrow> bytes"
  endian_load :: "nat \<Rightarrow> bytes \<Rightarrow> int"

text \<open>
  What Boost documents for one byte order: a store of N bytes writes N bytes, a load of N bytes is
  an N byte number and inverts the store; a single byte is itself.
\<close>

definition endian_ok :: "endian_codec \<Rightarrow> bool" where
  "endian_ok E \<longleftrightarrow>
     (\<forall>n \<in> {1, 2, 4, 8}. \<forall>u. 0 \<le> u \<and> u < 2 ^ (8 * n) \<longrightarrow>
        length (endian_store E n u) = n \<and> endian_load E n (endian_store E n u) = u) \<and>
     (\<forall>u. 0 \<le> u \<and> u < 256 \<longrightarrow> endian_store E 1 u = [word_of_int u])"

text \<open>\<open>store_xe\<close> and \<open>load_xe\<close>: a bool is the letter T or F, anything else goes to Boost.\<close>

definition store_xe :: "endian_codec \<Rightarrow> c_type \<Rightarrow> int \<Rightarrow> bytes" where
  "store_xe E T v =
     (if T = C_bool then [if v \<noteq> 0 then 0x54 else 0x46]
      else endian_store E (c_sizeof T) (c_pattern T v))"

definition load_xe :: "endian_codec \<Rightarrow> c_type \<Rightarrow> bytes \<Rightarrow> int" where
  "load_xe E T bs =
     (if T = C_bool then (if take 1 bs = [0x54] then 1 else 0)
      else c_value T (endian_load E (c_sizeof T) (take (c_sizeof T) bs)))"

lemma c_sizeof_cases: "c_sizeof T \<in> {1, 2, 4, 8}"
  by (cases T) simp_all

lemma store_xe_length: "endian_ok E \<Longrightarrow> length (store_xe E T v) = c_sizeof T"
  using c_sizeof_cases [of T] c_pattern_bounds [of T v]
  by (auto simp: store_xe_def endian_ok_def c_range_def)

lemma load_store_xe:
  assumes "endian_ok E" and "c_in T v" and "T = C_bool \<Longrightarrow> v \<in> {0, 1}"
  shows "load_xe E T (store_xe E T v @ rest) = v"
proof (cases "T = C_bool")
  case True
  then show ?thesis
    using assms(3) by (auto simp: store_xe_def load_xe_def)
next
  case False
  have "endian_load E (c_sizeof T) (endian_store E (c_sizeof T) (c_pattern T v)) = c_pattern T v"
    using assms(1) c_sizeof_cases [of T] c_pattern_bounds [of T v]
    unfolding endian_ok_def c_range_def by blast
  moreover have "take (c_sizeof T) (store_xe E T v @ rest) = store_xe E T v"
    using store_xe_length [OF assms(1), of T v] by simp
  ultimately show ?thesis
    using False assms(2) by (simp add: store_xe_def load_xe_def c_value_pattern)
qed

text \<open>Big endian order, an instance of the parameter.\<close>

fun be_store :: "nat \<Rightarrow> int \<Rightarrow> bytes" where
  "be_store 0 u = []"
| "be_store (Suc n) u = be_store n (u div 256) @ [word_of_int (u mod 256)]"

definition be_load :: "nat \<Rightarrow> bytes \<Rightarrow> int" where
  "be_load n bs = foldl (\<lambda>a b. a * 256 + uint b) 0 bs"

definition big_endian :: endian_codec where
  "big_endian = \<lparr>endian_store = be_store, endian_load = be_load\<rparr>"

lemma be_store_length: "length (be_store n u) = n"
  by (induction n arbitrary: u) auto

lemma be_load_store: "0 \<le> u \<Longrightarrow> u < 2 ^ (8 * n) \<Longrightarrow> be_load m (be_store n u) = u"
proof (induction n arbitrary: u)
  case 0
  then show ?case by (simp add: be_load_def)
next
  case (Suc n)
  have "u div 256 < 2 ^ (8 * n)"
    using Suc.prems by (simp add: div_less_iff_less_mult power_add mult.commute)
  then have "be_load m (be_store n (u div 256)) = u div 256"
    using Suc by simp
  then show ?case
    by (simp add: be_load_def uint_word_of_int)
qed

lemma big_endian_ok: "endian_ok big_endian"
  using be_store_length be_load_store
  by (auto simp: endian_ok_def big_endian_def numeral_eq_Suc)

end
