(* ===== verification/Msgpack_Fmt.thy ===== *)
theory Msgpack_Fmt
  imports C_Types
begin

text \<open>
  The formats and error codes of the MessagePack codec (\<open>include/dsk/jser/msgpack/fmt.hpp\<close>,
  \<open>err.hpp\<close>).
\<close>

section \<open>Formats\<close>

record msgpack_fmt =
  fmt_tag :: int
  fmt_type :: c_type

definition msgpack_posi8 :: msgpack_fmt where "msgpack_posi8 = \<lparr>fmt_tag = 0xcc, fmt_type = C_uint8\<rparr>"
definition msgpack_posi16 :: msgpack_fmt where "msgpack_posi16 = \<lparr>fmt_tag = 0xcd, fmt_type = C_uint16\<rparr>"
definition msgpack_posi32 :: msgpack_fmt where "msgpack_posi32 = \<lparr>fmt_tag = 0xce, fmt_type = C_uint32\<rparr>"
definition msgpack_posi64 :: msgpack_fmt where "msgpack_posi64 = \<lparr>fmt_tag = 0xcf, fmt_type = C_uint64\<rparr>"
definition msgpack_negi8 :: msgpack_fmt where "msgpack_negi8 = \<lparr>fmt_tag = 0xd0, fmt_type = C_int8\<rparr>"
definition msgpack_negi16 :: msgpack_fmt where "msgpack_negi16 = \<lparr>fmt_tag = 0xd1, fmt_type = C_int16\<rparr>"
definition msgpack_negi32 :: msgpack_fmt where "msgpack_negi32 = \<lparr>fmt_tag = 0xd2, fmt_type = C_int32\<rparr>"
definition msgpack_negi64 :: msgpack_fmt where "msgpack_negi64 = \<lparr>fmt_tag = 0xd3, fmt_type = C_int64\<rparr>"
definition msgpack_float :: msgpack_fmt where "msgpack_float = \<lparr>fmt_tag = 0xca, fmt_type = C_float\<rparr>"
definition msgpack_double :: msgpack_fmt where "msgpack_double = \<lparr>fmt_tag = 0xcb, fmt_type = C_double\<rparr>"
definition msgpack_arr16 :: msgpack_fmt where "msgpack_arr16 = \<lparr>fmt_tag = 0xdc, fmt_type = C_uint16\<rparr>"
definition msgpack_arr32 :: msgpack_fmt where "msgpack_arr32 = \<lparr>fmt_tag = 0xdd, fmt_type = C_uint32\<rparr>"
definition msgpack_map16 :: msgpack_fmt where "msgpack_map16 = \<lparr>fmt_tag = 0xde, fmt_type = C_uint16\<rparr>"
definition msgpack_map32 :: msgpack_fmt where "msgpack_map32 = \<lparr>fmt_tag = 0xdf, fmt_type = C_uint32\<rparr>"
definition msgpack_str8 :: msgpack_fmt where "msgpack_str8 = \<lparr>fmt_tag = 0xd9, fmt_type = C_uint8\<rparr>"
definition msgpack_str16 :: msgpack_fmt where "msgpack_str16 = \<lparr>fmt_tag = 0xda, fmt_type = C_uint16\<rparr>"
definition msgpack_str32 :: msgpack_fmt where "msgpack_str32 = \<lparr>fmt_tag = 0xdb, fmt_type = C_uint32\<rparr>"
definition msgpack_bin8 :: msgpack_fmt where "msgpack_bin8 = \<lparr>fmt_tag = 0xc4, fmt_type = C_uint8\<rparr>"
definition msgpack_bin16 :: msgpack_fmt where "msgpack_bin16 = \<lparr>fmt_tag = 0xc5, fmt_type = C_uint16\<rparr>"
definition msgpack_bin32 :: msgpack_fmt where "msgpack_bin32 = \<lparr>fmt_tag = 0xc6, fmt_type = C_uint32\<rparr>"
definition msgpack_ext8 :: msgpack_fmt where "msgpack_ext8 = \<lparr>fmt_tag = 0xc7, fmt_type = C_uint8\<rparr>"
definition msgpack_ext16 :: msgpack_fmt where "msgpack_ext16 = \<lparr>fmt_tag = 0xc8, fmt_type = C_uint16\<rparr>"
definition msgpack_ext32 :: msgpack_fmt where "msgpack_ext32 = \<lparr>fmt_tag = 0xc9, fmt_type = C_uint32\<rparr>"

lemmas fmt_defs =
  msgpack_posi8_def msgpack_posi16_def msgpack_posi32_def msgpack_posi64_def
  msgpack_negi8_def msgpack_negi16_def msgpack_negi32_def msgpack_negi64_def
  msgpack_float_def msgpack_double_def msgpack_arr16_def msgpack_arr32_def
  msgpack_map16_def msgpack_map32_def msgpack_str8_def msgpack_str16_def msgpack_str32_def
  msgpack_bin8_def msgpack_bin16_def msgpack_bin32_def
  msgpack_ext8_def msgpack_ext16_def msgpack_ext32_def

definition msgpack_tag_fixext1 :: int where "msgpack_tag_fixext1 = 0xd4"
definition msgpack_tag_fixext2 :: int where "msgpack_tag_fixext2 = 0xd5"
definition msgpack_tag_fixext4 :: int where "msgpack_tag_fixext4 = 0xd6"
definition msgpack_tag_fixext8 :: int where "msgpack_tag_fixext8 = 0xd7"
definition msgpack_tag_fixext16 :: int where "msgpack_tag_fixext16 = 0xd8"
definition msgpack_nil :: int where "msgpack_nil = 0xc0"
definition msgpack_false :: int where "msgpack_false = 0xc2"
definition msgpack_true :: int where "msgpack_true = 0xc3"

lemmas tag_defs =
  msgpack_tag_fixext1_def msgpack_tag_fixext2_def msgpack_tag_fixext4_def msgpack_tag_fixext8_def
  msgpack_tag_fixext16_def msgpack_nil_def msgpack_false_def msgpack_true_def

text \<open>\<open>msgpack_packed_arr_of\<close>: the extension tag of an element type, none when unsupported.\<close>

fun msgpack_packed_arr_of :: "c_type \<Rightarrow> int option" where
  "msgpack_packed_arr_of C_uint8 = Some 60"
| "msgpack_packed_arr_of C_uint16 = Some 61"
| "msgpack_packed_arr_of C_uint32 = Some 62"
| "msgpack_packed_arr_of C_uint64 = Some 63"
| "msgpack_packed_arr_of C_int8 = Some 64"
| "msgpack_packed_arr_of C_int16 = Some 65"
| "msgpack_packed_arr_of C_int32 = Some 66"
| "msgpack_packed_arr_of C_int64 = Some 67"
| "msgpack_packed_arr_of C_float = Some 68"
| "msgpack_packed_arr_of C_double = Some 69"
| "msgpack_packed_arr_of C_bool = None"

lemma packed_arr_tag_inj:
  "msgpack_packed_arr_of S = Some t \<Longrightarrow> msgpack_packed_arr_of T = Some t \<Longrightarrow> S = T"
  by (cases S; cases T) auto

section \<open>Errors\<close>

datatype msgpack_errc =
    not_enough_input_to_read | tag_mismatch | seek_failed | unget_failed
  | posi_overflow | buf_mismatch | invalid_ext_size | ext_type_mismatch

fun msgpack_errc_value :: "msgpack_errc \<Rightarrow> int" where
  "msgpack_errc_value not_enough_input_to_read = 1"
| "msgpack_errc_value tag_mismatch = 2"
| "msgpack_errc_value seek_failed = 3"
| "msgpack_errc_value unget_failed = 4"
| "msgpack_errc_value posi_overflow = 5"
| "msgpack_errc_value buf_mismatch = 6"
| "msgpack_errc_value invalid_ext_size = 7"
| "msgpack_errc_value ext_type_mismatch = 8"

definition msgpack_errc_message :: "int \<Rightarrow> string" where
  "msgpack_errc_message c =
     (if c = 1 then ''not enough input to read''
      else if c = 2 then ''tag mismatch''
      else if c = 3 then ''seek failed''
      else if c = 4 then ''unget failed''
      else if c = 5 then ''positive integer overflow when converting to signed type''
      else if c = 6 then ''buffer size mismatch''
      else if c = 7 then ''invalid ext size''
      else if c = 8 then ''ext type mismatch''
      else ''undefined'')"

end
