(* ===== verification/Msgpack_Writer.thy ===== *)
theory Msgpack_Writer
  imports Msgpack_Fmt
begin

text \<open>
  The MessagePack writer, \<open>include/dsk/jser/msgpack/writer.hpp\<close>. Every operation appends to the
  byte buffer \<open>_b\<close> and is a function from the buffer to the buffer; \<open>E\<close> is the byte order the
  options choose. A callback is a function on the buffer as well.
\<close>

section \<open>Output primitives\<close>

definition to_byte :: "int \<Rightarrow> u8" where
  "to_byte v = word_of_int v"

text \<open>\<open>write_lsb\<close>, \<open>write<Fmt>(v)\<close>, and the header writer \<open>write<Fmt>(h, n)\<close>.\<close>

definition write_lsb :: "int \<Rightarrow> bytes \<Rightarrow> bytes" where
  "write_lsb v b = b @ [to_byte v]"

definition mp_header :: "endian_codec \<Rightarrow> msgpack_fmt \<Rightarrow> int \<Rightarrow> bytes" where
  "mp_header E f n = to_byte (fmt_tag f) # store_xe E (fmt_type f) n"

definition mp_write :: "endian_codec \<Rightarrow> msgpack_fmt \<Rightarrow> int \<Rightarrow> bytes \<Rightarrow> bytes" where
  "mp_write E f v b = b @ (to_byte (fmt_tag f) # store_xe E (fmt_type f) v)"

definition mp_append :: "bytes \<Rightarrow> bytes \<Rightarrow> bytes \<Rightarrow> bytes" where
  "mp_append h v b = b @ h @ v"

section \<open>Integers\<close>

definition mpw_uint8 :: "endian_codec \<Rightarrow> int \<Rightarrow> bytes \<Rightarrow> bytes" where
  "mpw_uint8 E v =
     (if v < 2 ^ 7 then write_lsb v else mp_write E msgpack_posi8 v)"

definition mpw_uint16 :: "endian_codec \<Rightarrow> int \<Rightarrow> bytes \<Rightarrow> bytes" where
  "mpw_uint16 E v =
     (if v < 2 ^ 7 then write_lsb v
      else if v < 2 ^ 8 then mp_write E msgpack_posi8 v
      else mp_write E msgpack_posi16 v)"

definition mpw_uint32 :: "endian_codec \<Rightarrow> int \<Rightarrow> bytes \<Rightarrow> bytes" where
  "mpw_uint32 E v =
     (if v < 2 ^ 8 then mpw_uint8 E v
      else if v < 2 ^ 16 then mp_write E msgpack_posi16 v
      else mp_write E msgpack_posi32 v)"

definition mpw_uint64 :: "endian_codec \<Rightarrow> int \<Rightarrow> bytes \<Rightarrow> bytes" where
  "mpw_uint64 E v =
     (if v < 2 ^ 8 then mpw_uint8 E v
      else if v < 2 ^ 16 then mp_write E msgpack_posi16 v
      else if v < 2 ^ 32 then mp_write E msgpack_posi32 v
      else mp_write E msgpack_posi64 v)"

definition mpw_int8 :: "endian_codec \<Rightarrow> int \<Rightarrow> bytes \<Rightarrow> bytes" where
  "mpw_int8 E v =
     (if v < - (2 ^ 5) then mp_write E msgpack_negi8 v else write_lsb v)"

definition mpw_int16 :: "endian_codec \<Rightarrow> int \<Rightarrow> bytes \<Rightarrow> bytes" where
  "mpw_int16 E v =
     (if v < - (2 ^ 5)
      then (if v < - (2 ^ 7) then mp_write E msgpack_negi16 v else mp_write E msgpack_negi8 v)
      else if v < 2 ^ 7 then write_lsb v
      else if v < 2 ^ 8 then mp_write E msgpack_posi8 v
      else mp_write E msgpack_posi16 v)"

definition mpw_int32 :: "endian_codec \<Rightarrow> int \<Rightarrow> bytes \<Rightarrow> bytes" where
  "mpw_int32 E v =
     (if v < - (2 ^ 5)
      then (if v < - (2 ^ 15) then mp_write E msgpack_negi32 v
            else if v < - (2 ^ 7) then mp_write E msgpack_negi16 v
            else mp_write E msgpack_negi8 v)
      else if v < 2 ^ 7 then write_lsb v
      else if v < 2 ^ 8 then mp_write E msgpack_posi8 v
      else if v < 2 ^ 16 then mp_write E msgpack_posi16 v
      else mp_write E msgpack_posi32 v)"

definition mpw_int64 :: "endian_codec \<Rightarrow> int \<Rightarrow> bytes \<Rightarrow> bytes" where
  "mpw_int64 E v =
     (if v < - (2 ^ 5)
      then (if v < - (2 ^ 15)
            then (if v < - (2 ^ 31) then mp_write E msgpack_negi64 v else mp_write E msgpack_negi32 v)
            else (if v < - (2 ^ 7) then mp_write E msgpack_negi16 v else mp_write E msgpack_negi8 v))
      else if v < 2 ^ 7 then write_lsb v
      else if v < 2 ^ 16
      then (if v < 2 ^ 8 then mp_write E msgpack_posi8 v else mp_write E msgpack_posi16 v)
      else (if v < 2 ^ 32 then mp_write E msgpack_posi32 v else mp_write E msgpack_posi64 v))"

section \<open>Scalars and byte strings\<close>

definition mpw_float :: "endian_codec \<Rightarrow> int \<Rightarrow> bytes \<Rightarrow> bytes" where
  "mpw_float E v = mp_write E msgpack_float v"

definition mpw_double :: "endian_codec \<Rightarrow> int \<Rightarrow> bytes \<Rightarrow> bytes" where
  "mpw_double E v = mp_write E msgpack_double v"

definition mpw_nil :: "bytes \<Rightarrow> bytes" where
  "mpw_nil = write_lsb msgpack_nil"

definition mpw_bool :: "bool \<Rightarrow> bytes \<Rightarrow> bytes" where
  "mpw_bool v = write_lsb (if v then msgpack_true else msgpack_false)"

definition str_header :: "endian_codec \<Rightarrow> int \<Rightarrow> bytes" where
  "str_header E n =
     (if n < 32 then [to_byte (0xa0 OR n)]
      else if n < 256 then mp_header E msgpack_str8 n
      else if n < 65536 then mp_header E msgpack_str16 n
      else mp_header E msgpack_str32 n)"

definition mpw_str :: "endian_codec \<Rightarrow> bytes \<Rightarrow> bytes \<Rightarrow> bytes" where
  "mpw_str E s = mp_append (str_header E (int (length s))) s"

definition bin_header :: "endian_codec \<Rightarrow> int \<Rightarrow> bytes" where
  "bin_header E n =
     (if n < 256 then mp_header E msgpack_bin8 n
      else if n < 65536 then mp_header E msgpack_bin16 n
      else mp_header E msgpack_bin32 n)"

definition mpw_bin :: "endian_codec \<Rightarrow> bytes \<Rightarrow> bytes \<Rightarrow> bytes" where
  "mpw_bin E v = mp_append (bin_header E (int (length v))) v"

text \<open>\<open>begin_arr\<close> and \<open>begin_map\<close> take a \<open>uint32_t\<close>: an argument is converted by its caller.\<close>

definition mpw_begin_arr :: "endian_codec \<Rightarrow> int \<Rightarrow> bytes \<Rightarrow> bytes" where
  "mpw_begin_arr E n =
     (if n < 16 then write_lsb (0x90 OR n)
      else if n < 65536 then mp_write E msgpack_arr16 n
      else mp_write E msgpack_arr32 n)"

definition mpw_begin_map :: "endian_codec \<Rightarrow> int \<Rightarrow> bytes \<Rightarrow> bytes" where
  "mpw_begin_map E n =
     (if n < 16 then write_lsb (0x80 OR n)
      else if n < 65536 then mp_write E msgpack_map16 n
      else mp_write E msgpack_map32 n)"

section \<open>Extensions\<close>

text \<open>\<open>fixext\<close> compiles only for the sizes 1, 2, 4, 8 and 16.\<close>

definition mpw_fixext :: "int \<Rightarrow> bytes \<Rightarrow> bytes \<Rightarrow> bytes option" where
  "mpw_fixext tag v b =
     map_option (\<lambda>t. mp_append [to_byte t, to_byte tag] v b)
       (if length v = 1 then Some msgpack_tag_fixext1
        else if length v = 2 then Some msgpack_tag_fixext2
        else if length v = 4 then Some msgpack_tag_fixext4
        else if length v = 8 then Some msgpack_tag_fixext8
        else if length v = 16 then Some msgpack_tag_fixext16
        else None)"

definition ext_header :: "endian_codec \<Rightarrow> int \<Rightarrow> bytes" where
  "ext_header E n =
     (if n < 256 then mp_header E msgpack_ext8 n
      else if n < 65536 then mp_header E msgpack_ext16 n
      else mp_header E msgpack_ext32 n)"

definition mpw_ext :: "endian_codec \<Rightarrow> int \<Rightarrow> bytes \<Rightarrow> bytes \<Rightarrow> bytes" where
  "mpw_ext E tag v = mp_append (ext_header E (int (length v)) @ [to_byte tag]) v"

text \<open>
  \<open>begin_ext\<close>: reserve \<open>6 + nBytes\<close> (unsigned 32-bit arithmetic), write the header there, shrink
  to what is used; the caller fills the reserved part, whose position is returned.
\<close>

definition resize_to :: "nat \<Rightarrow> bytes \<Rightarrow> bytes" where
  "resize_to n b = take n b @ replicate (n - length b) 0"

definition overwrite :: "nat \<Rightarrow> bytes \<Rightarrow> bytes \<Rightarrow> bytes" where
  "overwrite i h b = take i b @ h @ drop (i + length h) b"

definition mpw_begin_ext :: "endian_codec \<Rightarrow> nat \<Rightarrow> int \<Rightarrow> bytes \<Rightarrow> nat \<times> bytes" where
  "mpw_begin_ext E nBytes tag b =
     (let os = length b;
          b1 = resize_to (os + (6 + nBytes) mod 2 ^ 32) b;
          h = ext_header E (int nBytes) @ [to_byte tag];
          b2 = overwrite os h b1
      in (os + length h, resize_to (os + length h + nBytes) b2))"

section \<open>The interface of jwrite\<close>

text \<open>\<open>arithmetic\<close> dispatches on the type of its argument.\<close>

fun mpw_arithmetic :: "endian_codec \<Rightarrow> c_type \<Rightarrow> int \<Rightarrow> bytes \<Rightarrow> bytes" where
  "mpw_arithmetic E C_bool v = mpw_bool (v \<noteq> 0)"
| "mpw_arithmetic E C_float v = mpw_float E v"
| "mpw_arithmetic E C_double v = mpw_double E v"
| "mpw_arithmetic E C_uint8 v = mpw_uint8 E v"
| "mpw_arithmetic E C_uint16 v = mpw_uint16 E v"
| "mpw_arithmetic E C_uint32 v = mpw_uint32 E v"
| "mpw_arithmetic E C_uint64 v = mpw_uint64 E v"
| "mpw_arithmetic E C_int8 v = mpw_int8 E v"
| "mpw_arithmetic E C_int16 v = mpw_int16 E v"
| "mpw_arithmetic E C_int32 v = mpw_int32 E v"
| "mpw_arithmetic E C_int64 v = mpw_int64 E v"

definition mpw_arr_scope :: "endian_codec \<Rightarrow> nat \<Rightarrow> (bytes \<Rightarrow> bytes) \<Rightarrow> bytes \<Rightarrow> bytes" where
  "mpw_arr_scope E n f b = f (mpw_begin_arr E (int n mod 2 ^ 32) b)"

definition mpw_elm_scope :: "(bytes \<Rightarrow> bytes) \<Rightarrow> bytes \<Rightarrow> bytes" where
  "mpw_elm_scope ef b = ef b"

text \<open>
  \<open>obj_scope\<close>: reserve a header wide enough for \<open>maxCnt\<close>, let the callback write the fields and
  count them, then fill in the header. \<open>None\<close> is a failed \<open>DSK_ASSERT\<close>.
\<close>

definition mpw_obj_scope ::
  "endian_codec \<Rightarrow> nat \<Rightarrow> (bytes \<Rightarrow> nat \<times> bytes) \<Rightarrow> bytes \<Rightarrow> bytes option" where
  "mpw_obj_scope E maxCnt f b =
     (let os = length b;
          b1 = b @ replicate (if maxCnt < 16 then 1 else if maxCnt < 65536 then 3 else 5) 0
      in case f b1 of
           (n, b2) \<Rightarrow>
             (if n \<le> maxCnt
              then Some (overwrite os
                     (if maxCnt < 16 then [to_byte (0x80 OR int n)]
                      else if maxCnt < 65536 then mp_header E msgpack_map16 (int n)
                      else mp_header E msgpack_map32 (int n)) b2)
              else None))"

text \<open>A key is a string or an arithmetic value; \<open>fld_scope\<close> writes it and then the value.\<close>

datatype mp_key = Key_str bytes | Key_arith c_type int

definition mpw_fld_scope :: "endian_codec \<Rightarrow> mp_key \<Rightarrow> (bytes \<Rightarrow> bytes) \<Rightarrow> bytes \<Rightarrow> bytes" where
  "mpw_fld_scope E k vf b =
     vf (case k of Key_str s \<Rightarrow> mpw_str E s b | Key_arith T v \<Rightarrow> mpw_arithmetic E T v b)"

text \<open>
  \<open>packed_arr_scope\<close>: the element writer stores each value at \<open>_d\<close> and advances it; a store past
  the reserved part is out of bounds (\<open>None\<close>).
\<close>

fun packed_store :: "endian_codec \<Rightarrow> c_type \<Rightarrow> int list \<Rightarrow> nat \<Rightarrow> bytes \<Rightarrow> bytes option" where
  "packed_store E T [] d b = Some b"
| "packed_store E T (v # vs) d b =
     (if d + c_sizeof T \<le> length b
      then packed_store E T vs (d + c_sizeof T) (overwrite d (store_xe E T v) b)
      else None)"

definition mpw_packed_arr :: "endian_codec \<Rightarrow> c_type \<Rightarrow> nat \<Rightarrow> int list \<Rightarrow> bytes \<Rightarrow> bytes option" where
  "mpw_packed_arr E T n vs b =
     (case msgpack_packed_arr_of T of
        None \<Rightarrow> None
      | Some tag \<Rightarrow>
          (case mpw_begin_ext E ((n * c_sizeof T) mod 2 ^ 32) tag b of
             (d, b') \<Rightarrow> packed_store E T vs d b'))"

section \<open>What is appended\<close>

text \<open>
  The reference encoding of an integer: the shortest format that holds it (\<open>writer.hpp\<close>, the note
  above \<open>uint8\<close>).
\<close>

definition mp_int_enc :: "endian_codec \<Rightarrow> int \<Rightarrow> bytes" where
  "mp_int_enc E v =
     (if - 32 \<le> v \<and> v < 128 then [to_byte v]
      else mp_header E
        (if v < 0
         then (if - 128 \<le> v then msgpack_negi8 else if - 32768 \<le> v then msgpack_negi16
               else if - 2147483648 \<le> v then msgpack_negi32 else msgpack_negi64)
         else (if v < 256 then msgpack_posi8 else if v < 65536 then msgpack_posi16
               else if v < 4294967296 then msgpack_posi32 else msgpack_posi64)) v)"

lemma mp_write_header: "mp_write E f v b = b @ mp_header E f v"
  by (simp add: mp_write_def mp_header_def)

lemma mpw_unsigned:
  assumes "0 \<le> v"
  shows "v < 2 ^ 8 \<Longrightarrow> mpw_uint8 E v b = b @ mp_int_enc E v"
    and "v < 2 ^ 16 \<Longrightarrow> mpw_uint16 E v b = b @ mp_int_enc E v"
    and "v < 2 ^ 32 \<Longrightarrow> mpw_uint32 E v b = b @ mp_int_enc E v"
    and "v < 2 ^ 64 \<Longrightarrow> mpw_uint64 E v b = b @ mp_int_enc E v"
  using assms
  by (auto simp: mpw_uint8_def mpw_uint16_def mpw_uint32_def mpw_uint64_def mp_int_enc_def write_lsb_def
      mp_write_header)

lemma mpw_signed:
  shows "- (2 ^ 7) \<le> v \<Longrightarrow> v < 2 ^ 7 \<Longrightarrow> mpw_int8 E v b = b @ mp_int_enc E v"
    and "- (2 ^ 15) \<le> v \<Longrightarrow> v < 2 ^ 15 \<Longrightarrow> mpw_int16 E v b = b @ mp_int_enc E v"
    and "- (2 ^ 31) \<le> v \<Longrightarrow> v < 2 ^ 31 \<Longrightarrow> mpw_int32 E v b = b @ mp_int_enc E v"
    and "- (2 ^ 63) \<le> v \<Longrightarrow> v < 2 ^ 63 \<Longrightarrow> mpw_int64 E v b = b @ mp_int_enc E v"
  by (auto simp: mpw_int8_def mpw_int16_def mpw_int32_def mpw_int64_def mp_int_enc_def write_lsb_def
      mp_write_header)

definition c_integral :: "c_type \<Rightarrow> bool" where
  "c_integral T \<longleftrightarrow> T \<notin> {C_bool, C_float, C_double}"

lemma mpw_arithmetic_int:
  assumes "c_integral T" and "c_in T v"
  shows "mpw_arithmetic E T v b = b @ mp_int_enc E v"
  using assms mpw_unsigned [of v E b] mpw_signed [of v E b]
  by (cases T) (auto simp: c_integral_def c_in_def c_range_def)

lemma mpw_str_append: "mpw_str E s b = b @ str_header E (int (length s)) @ s"
  by (simp add: mpw_str_def mp_append_def)

lemma mpw_bin_append: "mpw_bin E s b = b @ bin_header E (int (length s)) @ s"
  by (simp add: mpw_bin_def mp_append_def)

lemma mpw_ext_append: "mpw_ext E tag s b = b @ ext_header E (int (length s)) @ [to_byte tag] @ s"
  by (simp add: mpw_ext_def mp_append_def)

definition arr_header :: "endian_codec \<Rightarrow> int \<Rightarrow> bytes" where
  "arr_header E n = mpw_begin_arr E n []"

definition map_header :: "endian_codec \<Rightarrow> int \<Rightarrow> bytes" where
  "map_header E n = mpw_begin_map E n []"

lemma mpw_begin_arr_append: "mpw_begin_arr E n b = b @ arr_header E n"
  by (simp add: arr_header_def mpw_begin_arr_def write_lsb_def mp_write_def)

lemma mpw_begin_map_append: "mpw_begin_map E n b = b @ map_header E n"
  by (simp add: map_header_def mpw_begin_map_def write_lsb_def mp_write_def)

lemma mp_header_length: "endian_ok E \<Longrightarrow> length (mp_header E f n) = 1 + c_sizeof (fmt_type f)"
  by (simp add: mp_header_def store_xe_length)

lemma overwrite_length: "i + length h \<le> length b \<Longrightarrow> length (overwrite i h b) = length b"
  by (simp add: overwrite_def)

lemma overwrite_reserved:
  "length h \<le> k \<Longrightarrow> overwrite (length b) h (b @ replicate k 0 @ c) = b @ h @ replicate (k - length h) 0 @ c"
  by (simp add: overwrite_def)

text \<open>\<open>begin_ext\<close> leaves the header and room for the payload.\<close>

lemma mpw_begin_ext_spec:
  assumes "endian_ok E" and "nBytes + 6 < 2 ^ 32"
  shows "mpw_begin_ext E nBytes tag b =
    (length b + length (ext_header E (int nBytes)) + 1,
     b @ ext_header E (int nBytes) @ [to_byte tag] @ replicate nBytes 0)"
proof -
  let ?h = "ext_header E (int nBytes) @ [to_byte tag]"
  have l: "length ?h \<le> 6"
    using mp_header_length [OF assms(1)] by (simp add: ext_header_def fmt_defs)
  have "resize_to (length b + (6 + nBytes) mod 2 ^ 32) b = b @ replicate (6 + nBytes) 0 @ []"
    using assms(2) by (simp add: resize_to_def)
  then have o: "overwrite (length b) ?h (resize_to (length b + (6 + nBytes) mod 2 ^ 32) b) =
      b @ ?h @ replicate (6 + nBytes - length ?h) 0"
    using overwrite_reserved [of ?h "6 + nBytes" b "[]"] l by simp
  have "resize_to (length b + length ?h + nBytes) (b @ ?h @ replicate (6 + nBytes - length ?h) 0) =
      b @ ?h @ replicate nBytes 0"
    using l by (simp add: resize_to_def)
  then show ?thesis
    using o by (simp add: mpw_begin_ext_def Let_def)
qed

lemma packed_store_spec:
  assumes "endian_ok E"
  shows "packed_store E T vs (length b) (b @ replicate (length vs * c_sizeof T) 0 @ c) =
    Some (b @ concat (map (store_xe E T) vs) @ c)"
proof (induction vs arbitrary: b)
  case Nil
  then show ?case by simp
next
  case (Cons v vs)
  have l: "length (store_xe E T v) = c_sizeof T"
    by (rule store_xe_length [OF assms])
  have "overwrite (length b) (store_xe E T v) (b @ replicate (length (v # vs) * c_sizeof T) 0 @ c) =
      (b @ store_xe E T v) @ replicate (length vs * c_sizeof T) 0 @ c"
    using overwrite_reserved [of "store_xe E T v" "length (v # vs) * c_sizeof T" b c] l by simp
  then show ?case
    using Cons.IH [of "b @ store_xe E T v"] l by simp
qed

lemma mpw_packed_arr_spec:
  assumes "endian_ok E" and "msgpack_packed_arr_of T = Some tag" and "length vs * c_sizeof T + 6 < 2 ^ 32"
  shows "mpw_packed_arr E T (length vs) vs b =
    Some (b @ ext_header E (int (length vs * c_sizeof T)) @ [to_byte tag] @ concat (map (store_xe E T) vs))"
proof -
  let ?n = "length vs * c_sizeof T"
  let ?h = "ext_header E (int ?n) @ [to_byte tag]"
  have "(length vs * c_sizeof T) mod 2 ^ 32 = ?n"
    using assms(3) by simp
  moreover have "packed_store E T vs (length (b @ ?h)) ((b @ ?h) @ replicate ?n 0 @ []) =
      Some ((b @ ?h) @ concat (map (store_xe E T) vs) @ [])"
    by (rule packed_store_spec [OF assms(1)])
  ultimately show ?thesis
    using mpw_begin_ext_spec [OF assms(1,3), of tag b] assms(2)
    by (simp add: mpw_packed_arr_def)
qed

end
