(* ===== verification/Jser_Err.thy ===== *)
theory Jser_Err
  imports C_Types
begin

text \<open>
  The errors of structured data, \<open>include/dsk/jser/err.hpp\<close>.
\<close>

section \<open>Errors\<close>

datatype jerrc =
    jerrc_out_of_bound | jerrc_not_a_string | jerrc_not_a_primitive | jerrc_duplicated_key
  | jerrc_field_not_found | jerrc_non_nullable_field | jerrc_user_conv_failed | jerrc_user_check_failed
  | jerrc_user_exam_failed | jerrc_invalid_elm_cnt | jerrc_invalid_sub_elm_cnt

fun jerrc_value :: "jerrc \<Rightarrow> int" where
  "jerrc_value jerrc_out_of_bound = 1"
| "jerrc_value jerrc_not_a_string = 2"
| "jerrc_value jerrc_not_a_primitive = 3"
| "jerrc_value jerrc_duplicated_key = 4"
| "jerrc_value jerrc_field_not_found = 5"
| "jerrc_value jerrc_non_nullable_field = 6"
| "jerrc_value jerrc_user_conv_failed = 7"
| "jerrc_value jerrc_user_check_failed = 8"
| "jerrc_value jerrc_user_exam_failed = 9"
| "jerrc_value jerrc_invalid_elm_cnt = 10"
| "jerrc_value jerrc_invalid_sub_elm_cnt = 11"

fun jerrc_text :: "jerrc \<Rightarrow> string" where
  "jerrc_text jerrc_out_of_bound = ''out of array bound''"
| "jerrc_text jerrc_not_a_string = ''value is not a string''"
| "jerrc_text jerrc_not_a_primitive = ''value is not a primitive''"
| "jerrc_text jerrc_duplicated_key = ''duplicated key''"
| "jerrc_text jerrc_field_not_found = ''field not found''"
| "jerrc_text jerrc_non_nullable_field = ''non nullable field is null''"
| "jerrc_text jerrc_user_conv_failed = ''user conversion(e.g.: jconv) failed''"
| "jerrc_text jerrc_user_check_failed = ''user check failed''"
| "jerrc_text jerrc_user_exam_failed = ''user exam failed''"
| "jerrc_text jerrc_invalid_elm_cnt = ''invalid element count''"
| "jerrc_text jerrc_invalid_sub_elm_cnt = ''invalid sub element count''"

definition jerr_message :: "int \<Rightarrow> string" where
  "jerr_message condition =
     (case List.find (\<lambda>e. jerrc_value e = condition)
        [jerrc_out_of_bound, jerrc_not_a_string, jerrc_not_a_primitive, jerrc_duplicated_key,
         jerrc_field_not_found, jerrc_non_nullable_field, jerrc_user_conv_failed, jerrc_user_check_failed,
         jerrc_user_exam_failed, jerrc_invalid_elm_cnt, jerrc_invalid_sub_elm_cnt] of
        None \<Rightarrow> ''undefined''
      | Some e \<Rightarrow> jerrc_text e)"

end
