(* ===== verification/Msgpack_Reader.thy ===== *)
theory Msgpack_Reader
  imports Msgpack_Writer Jser_Err
begin

text \<open>
  The MessagePack reader, \<open>include/dsk/jser/msgpack/reader.hpp\<close>. A \<open>msgpack_value\<close> is a position
  \<open>_p\<close> and an end \<open>_e\<close> in a buffer; here both are indices into \<open>mv_buf\<close>. Every read is checked
  against \<open>_e\<close> by the code; that it is also inside the buffer is checked by the model, which
  answers \<open>Out_of_bounds\<close> where the C++ would read outside it. A method is a function of the value
  to a result and the value after it, and \<open>mp_bind\<close> is the early return of \<open>DSK_E_TRY\<close>.
\<close>

section \<open>Positions and primitive reads\<close>

record msgpack_value =
  mv_buf :: bytes
  mv_p :: nat
  mv_e :: nat

text \<open>An \<open>error_code\<close> of the reader, or of the jser functions that are called back.\<close>

datatype mp_fault = Mp_err msgpack_errc | Mp_jerr jerrc | Out_of_bounds

type_synonym 'a mp = "msgpack_value \<Rightarrow> (mp_fault + 'a) \<times> msgpack_value"

definition mp_return :: "'a \<Rightarrow> 'a mp" where
  "mp_return a s = (Inr a, s)"

definition mp_fail :: "msgpack_errc \<Rightarrow> 'a mp" where
  "mp_fail e s = (Inl (Mp_err e), s)"

definition mp_bind :: "'a mp \<Rightarrow> ('a \<Rightarrow> 'b mp) \<Rightarrow> 'b mp" where
  "mp_bind m f s = (case m s of (Inl e, s') \<Rightarrow> (Inl e, s') | (Inr a, s') \<Rightarrow> f a s')"

text \<open>
  The constructor. \<open>_e\<close> is initialised from the member \<open>_p\<close>, which already includes the offset.
  \<open>None\<close> is the failed \<open>DSK_ASSERT\<close>.
\<close>

definition mp_value_new :: "bytes \<Rightarrow> nat \<Rightarrow> msgpack_value option" where
  "mp_value_new b offset =
     (if offset \<le> length b then Some \<lparr>mv_buf = b, mv_p = offset, mv_e = offset + length b\<rparr> else None)"

definition has_more :: "nat \<Rightarrow> msgpack_value \<Rightarrow> bool" where
  "has_more n s \<longleftrightarrow> mv_p s + n \<le> mv_e s"

definition mv_advance :: "nat \<Rightarrow> msgpack_value \<Rightarrow> msgpack_value" where
  "mv_advance n s = s\<lparr>mv_p := mv_p s + n\<rparr>"

text \<open>The bytes at the current position, when they are inside the buffer.\<close>

definition mv_bytes :: "nat \<Rightarrow> msgpack_value \<Rightarrow> mp_fault + bytes" where
  "mv_bytes n s =
     (if mv_p s + n \<le> length (mv_buf s) then Inr (take n (drop (mv_p s) (mv_buf s))) else Inl Out_of_bounds)"

definition mp_read :: "endian_codec \<Rightarrow> c_type \<Rightarrow> int mp" where
  "mp_read E T s =
     (if (if c_sizeof T = 1 then mv_p s < mv_e s else has_more (c_sizeof T) s)
      then (case mv_bytes (c_sizeof T) s of
              Inl e \<Rightarrow> (Inl e, s)
            | Inr bs \<Rightarrow>
                (Inr (if c_sizeof T = 1 then c_cast T (uint (hd bs)) else load_xe E T bs),
                 mv_advance (c_sizeof T) s))
      else (Inl (Mp_err not_enough_input_to_read), s))"

text \<open>\<open>read(d, n)\<close> and \<open>read_buf(n, d)\<close>: the bytes stored to the destination.\<close>

definition mp_read_bytes :: "nat \<Rightarrow> bytes mp" where
  "mp_read_bytes n s =
     (if has_more n s
      then (case mv_bytes n s of Inl e \<Rightarrow> (Inl e, s) | Inr bs \<Rightarrow> (Inr bs, mv_advance n s))
      else (Inl (Mp_err not_enough_input_to_read), s))"

definition mp_advance :: "nat \<Rightarrow> unit mp" where
  "mp_advance n s =
     (if has_more n s then (Inr (), mv_advance n s) else (Inl (Mp_err not_enough_input_to_read), s))"

definition mp_peek_uint8 :: "int mp" where
  "mp_peek_uint8 s =
     (if mv_p s < mv_e s
      then (case mv_bytes 1 s of Inl e \<Rightarrow> (Inl e, s) | Inr bs \<Rightarrow> (Inr (uint (hd bs)), s))
      else (Inl (Mp_err not_enough_input_to_read), s))"

section \<open>Scalars\<close>

text \<open>\<open>uint<T>\<close>; the result is converted to \<open>T\<close>.\<close>

definition mp_uint :: "endian_codec \<Rightarrow> c_type \<Rightarrow> int mp" where
  "mp_uint E T =
     mp_bind (mp_read E C_uint8) (\<lambda>t.
       if t \<le> 0x7f then mp_return (c_cast T t)
       else if t = fmt_tag msgpack_posi8 then mp_bind (mp_read E C_uint8) (\<lambda>v. mp_return (c_cast T v))
       else if 2 \<le> c_sizeof T \<and> t = fmt_tag msgpack_posi16
         then mp_bind (mp_read E C_uint16) (\<lambda>v. mp_return (c_cast T v))
       else if 4 \<le> c_sizeof T \<and> t = fmt_tag msgpack_posi32
         then mp_bind (mp_read E C_uint32) (\<lambda>v. mp_return (c_cast T v))
       else if c_sizeof T = 8 \<and> t = fmt_tag msgpack_posi64
         then mp_bind (mp_read E C_uint64) (\<lambda>v. mp_return (c_cast T v))
       else mp_fail tag_mismatch)"

definition mp_int :: "endian_codec \<Rightarrow> c_type \<Rightarrow> int mp" where
  "mp_int E T =
     mp_bind (mp_read E C_uint8) (\<lambda>t.
       if t \<le> 0x7f then mp_return (c_cast T t)
       else if t \<ge> 0xe0 then mp_return (c_cast T (c_cast C_int8 t))
       else if t = fmt_tag msgpack_negi8 then mp_bind (mp_read E C_int8) (\<lambda>v. mp_return (c_cast T v))
       else if t = fmt_tag msgpack_posi8 then mp_bind (mp_read E C_uint8) (\<lambda>v. mp_return (c_cast T v))
       else if 2 \<le> c_sizeof T \<and> t = fmt_tag msgpack_negi16
         then mp_bind (mp_read E C_int16) (\<lambda>v. mp_return (c_cast T v))
       else if 2 \<le> c_sizeof T \<and> t = fmt_tag msgpack_posi16
         then mp_bind (mp_read E C_uint16) (\<lambda>v. mp_return (c_cast T v))
       else if 4 \<le> c_sizeof T \<and> t = fmt_tag msgpack_negi32
         then mp_bind (mp_read E C_int32) (\<lambda>v. mp_return (c_cast T v))
       else if 4 \<le> c_sizeof T \<and> t = fmt_tag msgpack_posi32
         then mp_bind (mp_read E C_uint32) (\<lambda>v. mp_return (c_cast T v))
       else if c_sizeof T = 8 \<and> t = fmt_tag msgpack_negi64
         then mp_bind (mp_read E C_int64) (\<lambda>v. mp_return (c_cast T v))
       else if c_sizeof T = 8 \<and> t = fmt_tag msgpack_posi64
         then mp_bind (mp_read E C_uint64) (\<lambda>u.
                let v = c_cast T u in if v \<ge> 0 then mp_return v else mp_fail posi_overflow)
       else mp_fail tag_mismatch)"

definition mp_float :: "endian_codec \<Rightarrow> int mp" where
  "mp_float E =
     mp_bind (mp_read E C_uint8) (\<lambda>t.
       if t = fmt_tag msgpack_float then mp_read E C_float else mp_fail tag_mismatch)"

text \<open>The result of \<open>double_\<close>: a double, or a float that is converted exactly.\<close>

datatype fp_value = Of_double int | Of_float int

definition mp_double :: "endian_codec \<Rightarrow> fp_value mp" where
  "mp_double E =
     mp_bind (mp_read E C_uint8) (\<lambda>t.
       if t = fmt_tag msgpack_double then mp_bind (mp_read E C_double) (\<lambda>v. mp_return (Of_double v))
       else if t = fmt_tag msgpack_float then mp_bind (mp_read E C_float) (\<lambda>v. mp_return (Of_float v))
       else mp_fail tag_mismatch)"

definition mp_nil :: "endian_codec \<Rightarrow> unit mp" where
  "mp_nil E =
     mp_bind (mp_read E C_uint8) (\<lambda>t. if t = msgpack_nil then mp_return () else mp_fail tag_mismatch)"

definition mp_check_nil :: "endian_codec \<Rightarrow> bool mp" where
  "mp_check_nil E =
     mp_bind (mp_read E C_uint8) (\<lambda>t s.
       if t = msgpack_nil then (Inr True, s) else (Inr False, s\<lparr>mv_p := mv_p s - 1\<rparr>))"

definition mp_bool :: "endian_codec \<Rightarrow> bool mp" where
  "mp_bool E =
     mp_bind (mp_read E C_uint8) (\<lambda>t.
       if t = msgpack_true then mp_return True
       else if t = msgpack_false then mp_return False
       else mp_fail tag_mismatch)"

datatype mp_arith = A_bool bool | A_float int | A_double fp_value | A_int int

definition mp_arithmetic :: "endian_codec \<Rightarrow> c_type \<Rightarrow> mp_arith mp" where
  "mp_arithmetic E T =
     (if T = C_bool then mp_bind (mp_bool E) (\<lambda>v. mp_return (A_bool v))
      else if T = C_float then mp_bind (mp_float E) (\<lambda>v. mp_return (A_float v))
      else if T = C_double then mp_bind (mp_double E) (\<lambda>v. mp_return (A_double v))
      else if c_signed T then mp_bind (mp_int E T) (\<lambda>v. mp_return (A_int v))
      else mp_bind (mp_uint E T) (\<lambda>v. mp_return (A_int v)))"

section \<open>Byte strings\<close>

definition mp_get_str :: "endian_codec \<Rightarrow> bytes mp" where
  "mp_get_str E =
     mp_bind (mp_read E C_uint8) (\<lambda>t.
       mp_bind
         (if t AND 0xe0 = 0xa0 then mp_return (t AND 0x1f)
          else if t = fmt_tag msgpack_str8 then mp_read E C_uint8
          else if t = fmt_tag msgpack_str16 then mp_read E C_uint16
          else if t = fmt_tag msgpack_str32 then mp_read E C_uint32
          else mp_fail tag_mismatch)
         (\<lambda>n. mp_read_bytes (nat n)))"

definition bin_size :: "endian_codec \<Rightarrow> int mp" where
  "bin_size E =
     mp_bind (mp_read E C_uint8) (\<lambda>t.
       if t = fmt_tag msgpack_bin8 then mp_read E C_uint8
       else if t = fmt_tag msgpack_bin16 then mp_read E C_uint16
       else if t = fmt_tag msgpack_bin32 then mp_read E C_uint32
       else mp_fail tag_mismatch)"

definition mp_get_bin :: "endian_codec \<Rightarrow> bytes mp" where
  "mp_get_bin E = mp_bind (bin_size E) (\<lambda>n. mp_read_bytes (nat n))"

text \<open>\<open>get_bin(d, s)\<close>: into a buffer of \<open>s\<close> bytes.\<close>

definition mp_get_bin_to :: "endian_codec \<Rightarrow> nat \<Rightarrow> bytes mp" where
  "mp_get_bin_to E sz =
     mp_bind (bin_size E) (\<lambda>n. if nat n = sz then mp_read_bytes (nat n) else mp_fail buf_mismatch)"

section \<open>Skipping\<close>

text \<open>
  One round of \<open>skip\<close> after its tag \<open>t\<close>: how far to advance and how many more values to skip.
  \<open>m * 2\<close> is unsigned 32-bit arithmetic for map32, and \<open>int\<close> otherwise.
\<close>

definition skip_item :: "endian_codec \<Rightarrow> int \<Rightarrow> (nat \<times> nat) mp" where
  "skip_item E t =
     (if t \<le> 0x7f \<or> t \<ge> 0xe0 \<or> t = msgpack_nil \<or> t = msgpack_false \<or> t = msgpack_true then mp_return (0, 0)
      else if t = fmt_tag msgpack_posi8 \<or> t = fmt_tag msgpack_negi8 then mp_return (1, 0)
      else if t = fmt_tag msgpack_posi16 \<or> t = fmt_tag msgpack_negi16 then mp_return (2, 0)
      else if t = fmt_tag msgpack_posi32 \<or> t = fmt_tag msgpack_negi32 \<or> t = fmt_tag msgpack_float
        then mp_return (4, 0)
      else if t = fmt_tag msgpack_posi64 \<or> t = fmt_tag msgpack_negi64 \<or> t = fmt_tag msgpack_double
        then mp_return (8, 0)
      else if t AND 0xe0 = 0xa0 then mp_return (nat (t AND 0x1f), 0)
      else if t AND 0xf0 = 0x90 then mp_return (0, nat (t AND 0x0f))
      else if t AND 0xf0 = 0x80 then mp_return (0, nat (t AND 0x0f) * 2)
      else if t = fmt_tag msgpack_str8 \<or> t = fmt_tag msgpack_bin8
        then mp_bind (mp_read E C_uint8) (\<lambda>n. mp_return (nat n, 0))
      else if t = fmt_tag msgpack_str16 \<or> t = fmt_tag msgpack_bin16
        then mp_bind (mp_read E C_uint16) (\<lambda>n. mp_return (nat n, 0))
      else if t = fmt_tag msgpack_str32 \<or> t = fmt_tag msgpack_bin32
        then mp_bind (mp_read E C_uint32) (\<lambda>n. mp_return (nat n, 0))
      else if t = fmt_tag msgpack_arr16 then mp_bind (mp_read E C_uint16) (\<lambda>m. mp_return (0, nat m))
      else if t = fmt_tag msgpack_map16 then mp_bind (mp_read E C_uint16) (\<lambda>m. mp_return (0, nat m * 2))
      else if t = fmt_tag msgpack_arr32 then mp_bind (mp_read E C_uint32) (\<lambda>m. mp_return (0, nat m))
      else if t = fmt_tag msgpack_map32
        then mp_bind (mp_read E C_uint32) (\<lambda>m. mp_return (0, (nat m * 2) mod 2 ^ 32))
      else if t = fmt_tag msgpack_ext8 then mp_bind (mp_read E C_uint8) (\<lambda>n. mp_return (nat n + 1, 0))
      else if t = fmt_tag msgpack_ext16 then mp_bind (mp_read E C_uint16) (\<lambda>n. mp_return (nat n + 1, 0))
      else if t = fmt_tag msgpack_ext32 then mp_bind (mp_read E C_uint32) (\<lambda>n. mp_return (nat n + 1, 0))
      else if t = msgpack_tag_fixext1 then mp_return (1 + 1, 0)
      else if t = msgpack_tag_fixext2 then mp_return (1 + 2, 0)
      else if t = msgpack_tag_fixext4 then mp_return (1 + 4, 0)
      else if t = msgpack_tag_fixext8 then mp_return (1 + 8, 0)
      else if t = msgpack_tag_fixext16 then mp_return (1 + 16, 0)
      else mp_fail tag_mismatch)"

text \<open>No read moves backwards or changes the end.\<close>

definition mp_forward :: "'a mp \<Rightarrow> bool" where
  "mp_forward m \<longleftrightarrow> (\<forall>s r s'. m s = (r, s') \<longrightarrow> mv_p s \<le> mv_p s' \<and> mv_e s' = mv_e s)"

lemma mp_forward_read: "mp_forward (mp_read E T)"
  by (auto simp: mp_forward_def mp_read_def mv_advance_def split: if_splits sum.splits)

lemma mp_forward_return: "mp_forward (mp_return a)"
  by (simp add: mp_forward_def mp_return_def)

lemma mp_forward_fail: "mp_forward (mp_fail e)"
  by (simp add: mp_forward_def mp_fail_def)

lemma mp_forward_bind:
  assumes "mp_forward m" and "\<And>a. mp_forward (f a)"
  shows "mp_forward (mp_bind m f)"
  unfolding mp_forward_def
proof (intro allI impI)
  fix s r s'
  assume b: "mp_bind m f s = (r, s')"
  obtain r1 s1 where m: "m s = (r1, s1)"
    by fastforce
  have 1: "mv_p s \<le> mv_p s1 \<and> mv_e s1 = mv_e s"
    using assms(1) m by (auto simp: mp_forward_def)
  show "mv_p s \<le> mv_p s' \<and> mv_e s' = mv_e s"
  proof (cases r1)
    case (Inl e)
    then show ?thesis
      using b m 1 by (simp add: mp_bind_def)
  next
    case (Inr a)
    then have "f a s1 = (r, s')"
      using b m by (simp add: mp_bind_def)
    then have "mv_p s1 \<le> mv_p s' \<and> mv_e s' = mv_e s1"
      using assms(2) [of a] by (simp add: mp_forward_def)
    then show ?thesis
      using 1 by simp
  qed
qed

lemma mp_forward_if: "mp_forward a \<Longrightarrow> mp_forward b \<Longrightarrow> mp_forward (if c then a else b)"
  by simp

lemmas mp_forwards = mp_forward_if mp_forward_read mp_forward_return mp_forward_fail mp_forward_bind

lemma mp_forward_skip_item: "mp_forward (skip_item E t)"
  unfolding skip_item_def by (intro mp_forwards)

lemma mp_read_uint8_progress:
  "mp_read E C_uint8 s = (Inr t, s1) \<Longrightarrow> mv_p s < mv_p s1 \<and> mv_p s < mv_e s \<and> mv_e s1 = mv_e s"
  by (auto simp: mp_read_def mv_advance_def split: if_splits sum.splits)

function mp_skip :: "endian_codec \<Rightarrow> nat \<Rightarrow> unit mp" where
  "mp_skip E cnt s =
     (if cnt = 0 then (Inr (), s)
      else
        (case mp_read E C_uint8 s of
           (Inl e, s1) \<Rightarrow> (Inl e, s1)
         | (Inr t, s1) \<Rightarrow>
             (case skip_item E t s1 of
                (Inl e, s2) \<Rightarrow> (Inl e, s2)
              | (Inr (n, k), s2) \<Rightarrow>
                  mp_skip E (sz_add (cnt - 1) k) (mv_advance n s2))))"
  by pat_completeness auto

termination
proof (relation "measure (\<lambda>(E, cnt, s). mv_e s - mv_p s)", goal_cases)
  case 1
  then show ?case by simp
next
  case (2 E cnt s z s1 t z2 s2 nm n k)
  have "mv_p s < mv_p s1 \<and> mv_p s < mv_e s \<and> mv_e s1 = mv_e s"
    using mp_read_uint8_progress [of E s t s1] 2 by simp
  moreover have "mv_p s1 \<le> mv_p s2 \<and> mv_e s2 = mv_e s1"
    using mp_forward_skip_item [of E t] 2(4) [symmetric] 2(5) by (simp add: mp_forward_def)
  ultimately show ?case
    by (auto simp: mv_advance_def)
qed

declare mp_skip.simps [simp del]

section \<open>Iterators\<close>

text \<open>The plain iterator is its remaining count \<open>_n\<close>, a \<open>uint32_t\<close>.\<close>

definition iter_bool :: "nat \<Rightarrow> bool" where
  "iter_bool n \<longleftrightarrow> n \<noteq> 0"

definition iter_next :: "nat \<Rightarrow> nat" where
  "iter_next n = (n + (2 ^ 32 - 1)) mod 2 ^ 32"

definition iter_skip_remains :: "endian_codec \<Rightarrow> nat \<Rightarrow> unit mp" where
  "iter_skip_remains E n = mp_skip E n"

definition mp_map_iter :: "endian_codec \<Rightarrow> nat mp" where
  "mp_map_iter E =
     mp_bind (mp_read E C_uint8) (\<lambda>t.
       if t AND 0xf0 = 0x80 then mp_return (nat (t AND 0x0f))
       else if t = fmt_tag msgpack_map16 then mp_bind (mp_read E C_uint16) (\<lambda>n. mp_return (nat n))
       else if t = fmt_tag msgpack_map32 then mp_bind (mp_read E C_uint32) (\<lambda>n. mp_return (nat n))
       else mp_fail tag_mismatch)"

definition mp_arr_iter :: "endian_codec \<Rightarrow> nat mp" where
  "mp_arr_iter E =
     mp_bind (mp_read E C_uint8) (\<lambda>t.
       if t AND 0xf0 = 0x90 then mp_return (nat (t AND 0x0f))
       else if t = fmt_tag msgpack_arr16 then mp_bind (mp_read E C_uint16) (\<lambda>n. mp_return (nat n))
       else if t = fmt_tag msgpack_arr32 then mp_bind (mp_read E C_uint32) (\<lambda>n. mp_return (nat n))
       else mp_fail tag_mismatch)"

text \<open>The looping iterator also keeps where the container starts and two counters.\<close>

record loop_iterator =
  li_n :: nat
  li_p :: nat
  li_i :: nat
  li_j :: nat

definition loop_new :: "nat \<Rightarrow> msgpack_value \<Rightarrow> loop_iterator" where
  "loop_new n s = \<lparr>li_n = n, li_p = mv_p s, li_i = 0, li_j = 0\<rparr>"

definition mp_map_loop_iter :: "endian_codec \<Rightarrow> loop_iterator mp" where
  "mp_map_loop_iter E = mp_bind (mp_map_iter E) (\<lambda>n s. (Inr (loop_new n s), s))"

definition mp_arr_loop_iter :: "endian_codec \<Rightarrow> loop_iterator mp" where
  "mp_arr_loop_iter E = mp_bind (mp_arr_iter E) (\<lambda>n s. (Inr (loop_new n s), s))"

definition loop_start :: "loop_iterator \<Rightarrow> loop_iterator" where
  "loop_start it = it\<lparr>li_j := 0\<rparr>"

text \<open>
  \<open>next\<close>: \<open>True\<close> when it returned the value. The counters are compared before they are
  incremented, and are 32 bits wide.
\<close>

definition u32_inc :: "nat \<Rightarrow> nat" where
  "u32_inc n = (n + 1) mod 2 ^ 32"

definition loop_next :: "loop_iterator \<Rightarrow> msgpack_value \<Rightarrow> bool \<times> loop_iterator \<times> msgpack_value" where
  "loop_next it s =
     (let j = li_j it; it1 = it\<lparr>li_j := u32_inc j\<rparr> in
      if j < li_n it1
      then (let i = li_i it1; it2 = it1\<lparr>li_i := u32_inc i\<rparr> in
            if i = li_n it2
            then (True, it2\<lparr>li_i := 0\<rparr>, s\<lparr>mv_p := li_p it2\<rparr>)
            else (True, it2, s))
      else (False, it1, s))"

definition loop_skip_remains :: "endian_codec \<Rightarrow> loop_iterator \<Rightarrow> unit mp" where
  "loop_skip_remains E it = mp_skip E ((li_n it + (2 ^ 32 - li_i it)) mod 2 ^ 32)"

section \<open>Packed arrays\<close>

text \<open>\<open>packed_arr<T>\<close>: the number of elements, checked against the size and the tag.\<close>

definition mp_packed_arr :: "endian_codec \<Rightarrow> c_type \<Rightarrow> nat mp" where
  "mp_packed_arr E T =
     mp_bind (mp_read E C_uint8) (\<lambda>t.
       mp_bind
         (if t = fmt_tag msgpack_ext8 then mp_read E C_uint8
          else if t = fmt_tag msgpack_ext16 then mp_read E C_uint16
          else if t = fmt_tag msgpack_ext32 then mp_read E C_uint32
          else mp_fail tag_mismatch)
         (\<lambda>nByte.
            if nat nByte mod c_sizeof T \<noteq> 0 then mp_fail invalid_ext_size
            else
              mp_bind (mp_read E C_uint8) (\<lambda>vt.
                if Some vt \<noteq> msgpack_packed_arr_of T then mp_fail ext_type_mismatch
                else mp_return (nat nByte div c_sizeof T))))"

text \<open>\<open>get_arithmetic\<close> on the packed array: one element; the count is decremented.\<close>

definition packed_get :: "endian_codec \<Rightarrow> c_type \<Rightarrow> nat \<Rightarrow> (int \<times> nat) mp" where
  "packed_get E T n = mp_bind (mp_read E T) (\<lambda>t. mp_return (t, n - 1))"

definition packed_skip_remains :: "c_type \<Rightarrow> nat \<Rightarrow> unit mp" where
  "packed_skip_remains T n = mp_advance (n * c_sizeof T)"

text \<open>
  \<open>memcpy_to\<close> a buffer of \<open>k\<close> elements, which asserts \<open>_n >= k\<close> but copies \<open>_n\<close> elements: a copy
  past the end of the destination is \<open>Out_of_bounds\<close>.
\<close>

definition packed_memcpy_to :: "c_type \<Rightarrow> nat \<Rightarrow> nat \<Rightarrow> (bytes \<times> nat) mp" where
  "packed_memcpy_to T n k =
     mp_bind (mp_read_bytes (n * c_sizeof T)) (\<lambda>bs s.
       if length bs \<le> k * c_sizeof T then (Inr (bs, n - k), s) else (Inl Out_of_bounds, s))"

text \<open>Reading all elements the way the jser array reader drives the iterator.\<close>

fun packed_get_all :: "endian_codec \<Rightarrow> c_type \<Rightarrow> nat \<Rightarrow> int list mp" where
  "packed_get_all E T 0 = mp_return []"
| "packed_get_all E T (Suc n) =
     mp_bind (packed_get E T (Suc n)) (\<lambda>(v, m).
       mp_bind (packed_get_all E T n) (\<lambda>vs. mp_return (v # vs)))"

section \<open>Objects\<close>

text \<open>A key is read as a string or as an arithmetic value, as the field type says.\<close>

datatype key_kind = Kind_str | Kind_uint c_type

definition mp_read_key :: "endian_codec \<Rightarrow> key_kind \<Rightarrow> mp_key mp" where
  "mp_read_key E k =
     (case k of
        Kind_str \<Rightarrow> mp_bind (mp_get_str E) (\<lambda>x. mp_return (Key_str x))
      | Kind_uint T \<Rightarrow> mp_bind (mp_uint E T) (\<lambda>v. mp_return (Key_arith T v)))"

text \<open>\<open>foreach_jfld\<close>: the handler reads the value and threads a state of its own.\<close>

type_synonym 'a jfld_handler = "mp_key \<Rightarrow> 'a \<Rightarrow> 'a mp"

fun foreach_jfld :: "endian_codec \<Rightarrow> key_kind \<Rightarrow> 'a jfld_handler \<Rightarrow> nat \<Rightarrow> 'a \<Rightarrow> 'a mp" where
  "foreach_jfld E kk h 0 a = mp_return a"
| "foreach_jfld E kk h (Suc n) a =
     mp_bind (mp_read_key E kk) (\<lambda>k. mp_bind (h k a) (\<lambda>a'. foreach_jfld E kk h n a'))"

text \<open>
  \<open>foreach_found_jval\<close>: look in the object for the keys not found yet. \<open>find_key\<close> is the inner
  \<open>foreach_elms_until_err\<close>: the index of the first unmatched key that equals \<open>fk\<close>.
\<close>

type_synonym matched_keys = "(bool \<times> mp_key) list"

fun find_key :: "mp_key \<Rightarrow> matched_keys \<Rightarrow> nat option" where
  "find_key fk [] = None"
| "find_key fk ((matched, k) # mks) =
     (if \<not> matched \<and> fk = k then Some 0 else map_option Suc (find_key fk mks))"

definition unmatched_keys :: "matched_keys \<Rightarrow> nat" where
  "unmatched_keys mks = length (filter (\<lambda>mk. \<not> fst mk) mks)"

text \<open>
  The loop runs at most \<open>_n\<close> times (\<open>_j\<close> counts), which is the fuel. \<open>unmatched\<close> starts as the
  number of all keys.
\<close>

fun found_loop ::
  "endian_codec \<Rightarrow> key_kind \<Rightarrow> (nat \<Rightarrow> 'a \<Rightarrow> 'a mp) \<Rightarrow> nat \<Rightarrow>
   loop_iterator \<Rightarrow> matched_keys \<Rightarrow> nat \<Rightarrow> 'a \<Rightarrow> msgpack_value \<Rightarrow>
   (mp_fault + nat) \<times> loop_iterator \<times> matched_keys \<times> 'a \<times> msgpack_value" where
  "found_loop E kk h 0 it mks unmatched a s = (Inr unmatched, it, mks, a, s)"
| "found_loop E kk h (Suc fuel) it mks unmatched a s =
     (case loop_next it s of
        (False, it1, s1) \<Rightarrow> (Inr unmatched, it1, mks, a, s1)
      | (True, it1, s1) \<Rightarrow>
          (case mp_read_key E kk s1 of
             (Inl e, s2) \<Rightarrow> (Inl e, it1, mks, a, s2)
           | (Inr fk, s2) \<Rightarrow>
               (case find_key fk mks of
                  None \<Rightarrow>
                    (case mp_skip E 1 s2 of
                       (Inl e, s3) \<Rightarrow> (Inl e, it1, mks, a, s3)
                     | (Inr u, s3) \<Rightarrow> found_loop E kk h fuel it1 mks unmatched a s3)
                | Some I \<Rightarrow>
                    (case h I a s2 of
                       (Inl e, s3) \<Rightarrow> (Inl e, it1, mks, a, s3)
                     | (Inr a', s3) \<Rightarrow>
                         (let mks' = mks[I := (True, snd (mks ! I))]; unmatched' = unmatched - 1 in
                          if unmatched' = 0 then (Inr 0, it1, mks', a', s3)
                          else found_loop E kk h fuel it1 mks' unmatched' a' s3)))))"

definition foreach_found_jval ::
  "endian_codec \<Rightarrow> key_kind \<Rightarrow> (nat \<Rightarrow> 'a \<Rightarrow> 'a mp) \<Rightarrow>
   loop_iterator \<Rightarrow> matched_keys \<Rightarrow> 'a \<Rightarrow> msgpack_value \<Rightarrow>
   (mp_fault + nat) \<times> loop_iterator \<times> matched_keys \<times> 'a \<times> msgpack_value" where
  "foreach_found_jval E kk h it mks a s =
     found_loop E kk h (Suc (li_n it)) (loop_start it) mks (length mks) a s"

section \<open>Variants\<close>

text \<open>
  \<open>get_jval_matched_type\<close>: the index of the first alternative that the tag of the next value
  fits, nothing being consumed.
\<close>

datatype jtype = J_null | J_arith c_type | J_str | J_obj | J_arr

fun type_matches :: "int \<Rightarrow> jtype \<Rightarrow> bool" where
  "type_matches t J_null \<longleftrightarrow> t = msgpack_nil"
| "type_matches t (J_arith T) \<longleftrightarrow>
     (if T = C_bool then t = msgpack_true \<or> t = msgpack_false
      else if T = C_float then t = fmt_tag msgpack_float
      else if T = C_double then t = fmt_tag msgpack_double \<or> t = fmt_tag msgpack_float
      else if \<not> c_signed T
      then t \<le> 0x7f \<or>
        (if c_sizeof T = 1 then t = fmt_tag msgpack_posi8
         else if c_sizeof T = 2 then t = fmt_tag msgpack_posi8 \<or> t = fmt_tag msgpack_posi16
         else if c_sizeof T = 4 then fmt_tag msgpack_posi8 \<le> t \<and> t \<le> fmt_tag msgpack_posi32
         else fmt_tag msgpack_posi8 \<le> t \<and> t \<le> fmt_tag msgpack_posi64)
      else t \<le> 0x7f \<or> t \<ge> 0xe0 \<or>
        (if c_sizeof T \<le> 2
         then t = fmt_tag msgpack_posi8 \<or> t = fmt_tag msgpack_negi8 \<or>
           c_sizeof T = 2 \<and> (t = fmt_tag msgpack_posi16 \<or> t = fmt_tag msgpack_negi16)
         else (fmt_tag msgpack_posi8 \<le> t \<and> t \<le> fmt_tag msgpack_posi64) \<and>
           (c_sizeof T = 4 \<longrightarrow> t \<noteq> fmt_tag msgpack_posi64 \<and> t \<noteq> fmt_tag msgpack_negi64)))"
| "type_matches t J_str \<longleftrightarrow>
     t AND 0xe0 = 0xa0 \<or> (fmt_tag msgpack_str8 \<le> t \<and> t \<le> fmt_tag msgpack_str32)"
| "type_matches t J_obj \<longleftrightarrow> t AND 0xf0 = 0x80 \<or> t = fmt_tag msgpack_map16 \<or> t = fmt_tag msgpack_map32"
| "type_matches t J_arr \<longleftrightarrow> t AND 0xf0 = 0x90 \<or> t = fmt_tag msgpack_arr16 \<or> t = fmt_tag msgpack_arr32"

fun first_index :: "('a \<Rightarrow> bool) \<Rightarrow> 'a list \<Rightarrow> nat option" where
  "first_index P [] = None"
| "first_index P (x # xs) = (if P x then Some 0 else map_option Suc (first_index P xs))"

definition get_jval_matched_type :: "jtype list \<Rightarrow> nat mp" where
  "get_jval_matched_type ts =
     mp_bind mp_peek_uint8 (\<lambda>t.
       case first_index (type_matches t) ts of
         None \<Rightarrow> mp_fail tag_mismatch
       | Some i \<Rightarrow> mp_return i)"

text \<open>\<open>msgpack_reader_t::read\<close>: the offset after the last byte read.\<close>

definition msgpack_reader_read :: "bytes \<Rightarrow> unit mp \<Rightarrow> nat \<Rightarrow> (mp_fault + nat) option" where
  "msgpack_reader_read b f offset =
     map_option (\<lambda>v. case f v of (Inl e, v') \<Rightarrow> Inl e | (Inr u, v') \<Rightarrow> Inr (mv_p v'))
       (mp_value_new b offset)"

end
