(* ===== verification/Msgpack_Codec.thy ===== *)
theory Msgpack_Codec
  imports Msgpack_Reader
begin

text \<open>
  The laws that relate the MessagePack reader to the writer. \<open>reads m bs a\<close>: wherever the bytes
  \<open>bs\<close> are next, the reader \<open>m\<close> consumes exactly them and returns \<open>a\<close>. \<open>mp_safe m\<close>: \<open>m\<close> reads
  inside the buffer whenever the end \<open>_e\<close> is inside it.
\<close>

section \<open>Reading what is next\<close>

definition mv_at :: "msgpack_value \<Rightarrow> bytes \<Rightarrow> bool" where
  "mv_at s bs \<longleftrightarrow>
     mv_e s = length (mv_buf s) \<and> mv_p s \<le> length (mv_buf s) \<and> drop (mv_p s) (mv_buf s) = bs"

definition reads :: "'a mp \<Rightarrow> bytes \<Rightarrow> 'a \<Rightarrow> bool" where
  "reads m bs a \<longleftrightarrow> (\<forall>s rest. mv_at s (bs @ rest) \<longrightarrow> m s = (Inr a, mv_advance (length bs) s))"

lemma readsD: "reads m bs a \<Longrightarrow> mv_at s (bs @ rest) \<Longrightarrow> m s = (Inr a, mv_advance (length bs) s)"
  unfolding reads_def by blast

lemma mv_at_length: "mv_at s bs \<Longrightarrow> mv_p s + length bs = length (mv_buf s)"
  by (auto simp: mv_at_def)

lemma mv_at_advance:
  assumes "mv_at s (bs @ rest)"
  shows "mv_at (mv_advance (length bs) s) rest"
proof -
  have "drop (length bs) (drop (mv_p s) (mv_buf s)) = rest"
    using assms by (simp add: mv_at_def)
  then show ?thesis
    using assms mv_at_length [OF assms] by (simp add: mv_at_def mv_advance_def add.commute)
qed

lemma mv_at_bytes: "mv_at s (bs @ rest) \<Longrightarrow> mv_bytes (length bs) s = Inr bs \<and> has_more (length bs) s"
  using mv_at_length [of s "bs @ rest"] by (simp add: mv_bytes_def mv_at_def has_more_def)

lemma mv_at_new: "\<exists>s. mp_value_new b 0 = Some s \<and> mv_at s b"
  by (simp add: mp_value_new_def mv_at_def)

lemma reads_return: "reads (mp_return a) [] a"
  by (simp add: reads_def mp_return_def mv_advance_def)

lemma reads_bind:
  assumes "reads m bs a" and "reads (f a) cs c"
  shows "reads (mp_bind m f) (bs @ cs) c"
  unfolding reads_def
proof (intro allI impI)
  fix s rest
  assume "mv_at s ((bs @ cs) @ rest)"
  then have at: "mv_at s (bs @ (cs @ rest))"
    by simp
  have "m s = (Inr a, mv_advance (length bs) s)"
    using assms(1) at unfolding reads_def by blast
  moreover have "f a (mv_advance (length bs) s) = (Inr c, mv_advance (length cs) (mv_advance (length bs) s))"
    using assms(2) mv_at_advance [OF at] unfolding reads_def by blast
  ultimately show "mp_bind m f s = (Inr c, mv_advance (length (bs @ cs)) s)"
    by (simp add: mp_bind_def mv_advance_def)
qed

lemma reads_bind_return: "reads m bs a \<Longrightarrow> reads (mp_bind m (\<lambda>x. mp_return (g x))) bs (g a)"
  using reads_bind [OF _ reads_return, of m bs a "\<lambda>x. g x"] by simp

lemma reads_bytes: "reads (mp_read_bytes (length bs)) bs bs"
  unfolding reads_def mp_read_bytes_def by (auto dest: mv_at_bytes)

lemma to_byte_uint: "0 \<le> t \<Longrightarrow> t < 256 \<Longrightarrow> uint (to_byte t) = t"
  by (simp add: to_byte_def uint_word_of_int)

lemma reads_byte:
  assumes "0 \<le> t" and "t < 256"
  shows "reads (mp_read E C_uint8) [to_byte t] t"
  unfolding reads_def
proof (intro allI impI)
  fix s rest
  assume at: "mv_at s ([to_byte t] @ rest)"
  have "mv_p s < mv_e s"
    using mv_at_length [OF at] at by (simp add: mv_at_def)
  moreover have "c_cast C_uint8 t = t"
    by (rule c_cast_in) (use assms in \<open>simp add: c_in_def c_range_def\<close>)
  ultimately show "mp_read E C_uint8 s = (Inr t, mv_advance (length [to_byte t]) s)"
    using mv_at_bytes [OF at] to_byte_uint [OF assms] by (simp add: mp_read_def)
qed

lemma reads_tag:
  assumes "0 \<le> t" and "t < 256" and "reads (f t) cs c"
  shows "reads (mp_bind (mp_read E C_uint8) f) (to_byte t # cs) c"
  using reads_bind [where f = f, OF reads_byte [OF assms(1,2), of E] assms(3)] by simp

lemma reads_read:
  assumes ok: "endian_ok E" and v: "c_in T v" and T: "T \<noteq> C_bool"
  shows "reads (mp_read E T) (store_xe E T v) v"
proof (cases "c_sizeof T = 1")
  case True
  then have r: "c_range T = 256"
    by (simp add: c_range_def)
  then have "store_xe E T v = [to_byte (c_pattern T v)]"
    using ok c_pattern_bounds [of T v] T True by (simp add: store_xe_def endian_ok_def to_byte_def)
  moreover have "reads (mp_read E T) [to_byte (c_pattern T v)] v"
    unfolding reads_def
  proof (intro allI impI)
    fix s rest
    assume at: "mv_at s ([to_byte (c_pattern T v)] @ rest)"
    have "mv_p s < mv_e s"
      using mv_at_length [OF at] at by (simp add: mv_at_def)
    moreover have "c_cast T (c_pattern T v) = v"
      using c_cast_in [OF v] by (simp add: c_cast_def c_pattern_def)
    moreover have "uint (to_byte (c_pattern T v)) = c_pattern T v"
      by (rule to_byte_uint) (use c_pattern_bounds [of T v] r in simp_all)
    ultimately show "mp_read E T s = (Inr v, mv_advance (length [to_byte (c_pattern T v)]) s)"
      using mv_at_bytes [OF at] True by (simp add: mp_read_def)
  qed
  ultimately show ?thesis by simp
next
  case False
  have l: "length (store_xe E T v) = c_sizeof T"
    by (rule store_xe_length [OF ok])
  have "load_xe E T (store_xe E T v) = v"
    using load_store_xe [OF ok v, of "[]"] T by simp
  then show ?thesis
    using False l mv_at_bytes unfolding reads_def mp_read_def by fastforce
qed

text \<open>A tagged header, followed by what the reader does with the number in it.\<close>

lemma reads_header:
  assumes "endian_ok E" and "0 \<le> fmt_tag f" "fmt_tag f < 256" and "c_in (fmt_type f) n" "fmt_type f \<noteq> C_bool"
    and "g (fmt_tag f) = mp_bind (mp_read E (fmt_type f)) h" and "reads (h n) cs c"
  shows "reads (mp_bind (mp_read E C_uint8) g) (mp_header E f n @ cs) c"
  using reads_tag [of "fmt_tag f" g "store_xe E (fmt_type f) n @ cs" c E]
    reads_bind [OF reads_read [OF assms(1,4,5)], of h cs c] assms
  by (simp add: mp_header_def)

section \<open>Tags with a number in them\<close>

lemma fixstr_bits:
  assumes "0 \<le> n" "n < (32::int)"
  shows "160 OR n = 160 + n" and "(160 + n) AND 224 = 160" and "(160 + n) AND 31 = n"
proof -
  have "\<forall>n \<in> set [0..31]. (160::int) OR n = 160 + n \<and> (160 + n) AND 224 = 160 \<and> (160 + n) AND 31 = n"
    by code_simp
  moreover have "n \<in> set [0..31]"
    using assms by simp
  ultimately show "160 OR n = 160 + n" "(160 + n) AND 224 = 160" "(160 + n) AND 31 = n"
    by blast+
qed

lemma fixarr_bits:
  assumes "0 \<le> n" "n < (16::int)"
  shows "144 OR n = 144 + n" and "(144 + n) AND 240 = 144" and "(144 + n) AND 15 = n"
    and "(144 + n) AND 224 \<noteq> 160"
proof -
  have "\<forall>n \<in> set [0..15]. (144::int) OR n = 144 + n \<and> (144 + n) AND 240 = 144 \<and> (144 + n) AND 15 = n \<and>
      (144 + n) AND 224 \<noteq> 160"
    by code_simp
  moreover have "n \<in> set [0..15]"
    using assms by simp
  ultimately show "144 OR n = 144 + n" "(144 + n) AND 240 = 144" "(144 + n) AND 15 = n" "(144 + n) AND 224 \<noteq> 160"
    by blast+
qed

lemma fixmap_bits:
  assumes "0 \<le> n" "n < (16::int)"
  shows "128 OR n = 128 + n" and "(128 + n) AND 240 = 128" and "(128 + n) AND 15 = n"
    and "(128 + n) AND 224 \<noteq> 160"
proof -
  have "\<forall>n \<in> set [0..15]. (128::int) OR n = 128 + n \<and> (128 + n) AND 240 = 128 \<and> (128 + n) AND 15 = n \<and>
      (128 + n) AND 224 \<noteq> 160"
    by code_simp
  moreover have "n \<in> set [0..15]"
    using assms by simp
  ultimately show "128 OR n = 128 + n" "(128 + n) AND 240 = 128" "(128 + n) AND 15 = n" "(128 + n) AND 224 \<noteq> 160"
    by blast+
qed

section \<open>Scalars\<close>

lemma to_byte_neg: "to_byte v = to_byte (v + 256)"
  by (simp add: to_byte_def word_of_int_eq_iff)

lemma c_int8_fixneg: "- 32 \<le> v \<Longrightarrow> v < 0 \<Longrightarrow> c_cast C_int8 (v + 256) = v"
proof -
  assume "- 32 \<le> v" "v < 0"
  then have "(v + 256) mod 256 = v + 256"
    by (intro mod_pos_pos_trivial) auto
  then show ?thesis
    using \<open>v < 0\<close> \<open>- 32 \<le> v\<close> by (simp add: c_cast_def c_value_def c_pattern_def c_range_def del: mod_add_self2)
qed

lemma reads_int:
  assumes ok: "endian_ok E" and T: "c_signed T" and v: "c_in T v"
  shows "reads (mp_int E T) (mp_int_enc E v) v"
proof -
  note C = c_cast_in [OF v]
  note h = reads_header [where cs = "[]", OF ok]
  note r = reads_bind_return reads_return
  have bound: "- (2 ^ 63) \<le> v \<and> v < 2 ^ 63"
    using v T by (cases T) (auto simp: c_in_def c_range_def)
  consider "- 32 \<le> v" "v < 0" | "0 \<le> v" "v < 128" | "v < - 32" | "128 \<le> v"
    by linarith
  then show ?thesis
  proof cases
    case 1
    have "reads (mp_int E T) (to_byte (v + 256) # []) v"
      unfolding mp_int_def
      by (rule reads_tag) (use 1 in \<open>simp_all add: c_int8_fixneg C reads_return\<close>)
    then show ?thesis
      using 1 to_byte_neg [of v] by (simp add: mp_int_enc_def)
  next
    case 2
    have "reads (mp_int E T) (to_byte v # []) v"
      unfolding mp_int_def
      by (rule reads_tag) (use 2 in \<open>simp_all add: C reads_return\<close>)
    then show ?thesis
      using 2 by (simp add: mp_int_enc_def)
  next
    case 3
    have size: "(v < - 128 \<longrightarrow> 2 \<le> c_sizeof T) \<and> (v < - 32768 \<longrightarrow> 4 \<le> c_sizeof T) \<and>
        (v < - 2147483648 \<longrightarrow> c_sizeof T = 8)"
      using v T by (cases T) (auto simp: c_in_def c_range_def)
    let ?f = "if - 128 \<le> v then msgpack_negi8 else if - 32768 \<le> v then msgpack_negi16
               else if - 2147483648 \<le> v then msgpack_negi32 else msgpack_negi64"
    have "reads (mp_int E T) (mp_header E ?f v @ []) v"
      unfolding mp_int_def
      by (rule h [where h = "\<lambda>v. mp_return (c_cast T v)"])
        (use 3 bound size in \<open>auto simp: fmt_defs c_in_def c_range_def C reads_return\<close>)
    then show ?thesis
      using 3 by (simp add: mp_int_enc_def)
  next
    case 4
    have size: "(256 \<le> v \<longrightarrow> 2 \<le> c_sizeof T) \<and> (65536 \<le> v \<longrightarrow> 4 \<le> c_sizeof T) \<and>
        (4294967296 \<le> v \<longrightarrow> c_sizeof T = 8)"
      using v T by (cases T) (auto simp: c_in_def c_range_def)
    show ?thesis
    proof (cases "v < 4294967296")
      case True
      let ?f = "if v < 256 then msgpack_posi8 else if v < 65536 then msgpack_posi16 else msgpack_posi32"
      have "reads (mp_int E T) (mp_header E ?f v @ []) v"
        unfolding mp_int_def
        by (rule h [where h = "\<lambda>v. mp_return (c_cast T v)"])
          (use 4 True size in \<open>auto simp: fmt_defs c_in_def c_range_def C reads_return\<close>)
      then show ?thesis
        using 4 True by (auto simp: mp_int_enc_def split: if_splits)
    next
      case False
      have "reads (mp_int E T) (mp_header E msgpack_posi64 v @ []) v"
        unfolding mp_int_def
        by (rule h [where h = "\<lambda>u. let v = c_cast T u in if v \<ge> 0 then mp_return v else mp_fail posi_overflow"])
          (use 4 False size bound in \<open>auto simp: fmt_defs c_in_def c_range_def C reads_return Let_def\<close>)
      then show ?thesis
        using 4 False by (simp add: mp_int_enc_def)
    qed
  qed
qed

lemma reads_uint:
  assumes ok: "endian_ok E" and T: "c_integral T" "\<not> c_signed T" and v: "c_in T v"
  shows "reads (mp_uint E T) (mp_int_enc E v) v"
proof -
  note C = c_cast_in [OF v]
  note h = reads_header [where cs = "[]", OF ok]
  have bound: "0 \<le> v \<and> v < 2 ^ 64"
    using v T by (cases T) (auto simp: c_in_def c_range_def c_integral_def)
  show ?thesis
  proof (cases "v < 128")
    case True
    have "reads (mp_uint E T) (to_byte v # []) v"
      unfolding mp_uint_def
      by (rule reads_tag) (use True bound in \<open>simp_all add: C reads_return\<close>)
    then show ?thesis
      using True bound by (simp add: mp_int_enc_def)
  next
    case False
    have size: "(256 \<le> v \<longrightarrow> 2 \<le> c_sizeof T) \<and> (65536 \<le> v \<longrightarrow> 4 \<le> c_sizeof T) \<and>
        (4294967296 \<le> v \<longrightarrow> c_sizeof T = 8)"
      using v T by (cases T) (auto simp: c_in_def c_range_def c_integral_def)
    let ?f = "if v < 256 then msgpack_posi8 else if v < 65536 then msgpack_posi16
              else if v < 4294967296 then msgpack_posi32 else msgpack_posi64"
    have "reads (mp_uint E T) (mp_header E ?f v @ []) v"
      unfolding mp_uint_def
      by (rule h [where h = "\<lambda>v. mp_return (c_cast T v)"])
        (use False bound size in \<open>auto simp: fmt_defs c_in_def c_range_def C reads_return\<close>)
    then show ?thesis
      using False bound by (simp add: mp_int_enc_def)
  qed
qed


lemma reads_float:
  assumes "endian_ok E" and "c_in C_float v"
  shows "reads (mp_float E) (mp_header E msgpack_float v) v"
proof -
  have "reads (mp_float E) (to_byte 0xca # store_xe E C_float v) v"
    unfolding mp_float_def
    by (rule reads_tag) (use reads_read [OF assms] in \<open>simp_all add: fmt_defs\<close>)
  then show ?thesis
    by (simp add: mp_header_def fmt_defs)
qed

lemma reads_double:
  assumes "endian_ok E"
  shows "c_in C_double v \<Longrightarrow> reads (mp_double E) (mp_header E msgpack_double v) (Of_double v)"
    and "c_in C_float v \<Longrightarrow> reads (mp_double E) (mp_header E msgpack_float v) (Of_float v)"
proof -
  show "reads (mp_double E) (mp_header E msgpack_double v) (Of_double v)" if v: "c_in C_double v"
  proof -
    have "reads (mp_read E C_double) (store_xe E C_double v) v"
      by (rule reads_read [OF assms v]) simp
    then have "reads (mp_double E) (to_byte 0xcb # store_xe E C_double v) (Of_double v)"
      unfolding mp_double_def by (intro reads_tag) (simp_all add: fmt_defs reads_bind_return)
    then show ?thesis
      by (simp add: mp_header_def fmt_defs)
  qed
  show "reads (mp_double E) (mp_header E msgpack_float v) (Of_float v)" if v: "c_in C_float v"
  proof -
    have "reads (mp_read E C_float) (store_xe E C_float v) v"
      by (rule reads_read [OF assms v]) simp
    then have "reads (mp_double E) (to_byte 0xca # store_xe E C_float v) (Of_float v)"
      unfolding mp_double_def by (intro reads_tag) (simp_all add: fmt_defs reads_bind_return)
    then show ?thesis
      by (simp add: mp_header_def fmt_defs)
  qed
qed

lemma reads_nil: "reads (mp_nil E) (mpw_nil []) ()"
  using reads_tag [of msgpack_nil _ "[]" "()" E]
  by (simp add: mp_nil_def mpw_nil_def write_lsb_def tag_defs reads_return)

lemma reads_bool: "reads (mp_bool E) (mpw_bool v []) v"
  using reads_tag [of "if v then msgpack_true else msgpack_false" _ "[]" v E]
  by (simp add: mp_bool_def mpw_bool_def write_lsb_def tag_defs reads_return)

section \<open>Byte strings and headers\<close>

lemma reads_str:
  assumes ok: "endian_ok E" and l: "length x < 2 ^ 32"
  shows "reads (mp_get_str E) (str_header E (int (length x)) @ x) x"
proof (cases "length x < 32")
  case True
  let ?n = "int (length x)"
  have n: "0 \<le> ?n" "?n < 32"
    using True by simp_all
  have "reads (mp_get_str E) (to_byte (160 + ?n) # x) x"
    unfolding mp_get_str_def
    by (rule reads_tag)
      (use n fixstr_bits [OF n] reads_bind [of "mp_return ?n" "[]" ?n "\<lambda>n. mp_read_bytes (nat n)" x x]
          reads_return [of ?n] reads_bytes [of x]
        in \<open>simp_all\<close>)
  then show ?thesis
    using True fixstr_bits [OF n] by (simp add: str_header_def)
next
  case False
  let ?n = "int (length x)"
  let ?f = "if ?n < 256 then msgpack_str8 else if ?n < 65536 then msgpack_str16 else msgpack_str32"
  have "reads (mp_get_str E) (mp_header E ?f ?n @ x) x"
    unfolding mp_get_str_def
    by (rule reads_header [where h = "\<lambda>n. mp_read_bytes (nat n)", OF ok])
      (use l False reads_bytes [of x] in \<open>auto simp: fmt_defs c_in_def c_range_def\<close>)
  then show ?thesis
    using False by (auto simp: str_header_def split: if_splits)
qed

lemma reads_bin_size:
  assumes ok: "endian_ok E" and l: "n < 2 ^ 32"
  shows "reads (bin_size E) (bin_header E (int n)) (int n)"
proof -
  let ?n = "int n"
  let ?f = "if ?n < 256 then msgpack_bin8 else if ?n < 65536 then msgpack_bin16 else msgpack_bin32"
  have n: "c_in (fmt_type ?f) ?n"
    using l by (auto simp: fmt_defs c_in_def c_range_def)
  have "reads (bin_size E) (to_byte (fmt_tag ?f) # store_xe E (fmt_type ?f) ?n) ?n"
    unfolding bin_size_def
    by (rule reads_tag) (use reads_read [OF ok n] in \<open>auto simp: fmt_defs\<close>)
  then show ?thesis
    by (auto simp: bin_header_def mp_header_def)
qed

lemma reads_bin:
  assumes ok: "endian_ok E" and l: "length x < 2 ^ 32"
  shows "reads (mp_get_bin E) (bin_header E (int (length x)) @ x) x"
    and "reads (mp_get_bin_to E (length x)) (bin_header E (int (length x)) @ x) x"
  unfolding mp_get_bin_def mp_get_bin_to_def
  using reads_bind [OF reads_bin_size [OF ok l], of "\<lambda>n. mp_read_bytes (nat n)" x x]
    reads_bind [OF reads_bin_size [OF ok l],
      of "\<lambda>n. if nat n = length x then mp_read_bytes (nat n) else mp_fail buf_mismatch" x x] reads_bytes [of x]
  by simp_all

lemma reads_arr_iter:
  assumes ok: "endian_ok E" and l: "n < 2 ^ 32"
  shows "reads (mp_arr_iter E) (arr_header E (int n)) n"
proof (cases "n < 16")
  case True
  then have n: "0 \<le> int n" "int n < 16" by simp_all
  have "reads (mp_arr_iter E) (to_byte (144 + int n) # []) n"
    unfolding mp_arr_iter_def
    by (rule reads_tag) (use n fixarr_bits [OF n] reads_return [of n] in \<open>simp_all\<close>)
  then show ?thesis
    using True fixarr_bits [OF n] by (simp add: arr_header_def mpw_begin_arr_def write_lsb_def)
next
  case False
  let ?f = "if n < 65536 then msgpack_arr16 else msgpack_arr32"
  have "reads (mp_arr_iter E) (mp_header E ?f (int n) @ []) n"
    unfolding mp_arr_iter_def
    by (rule reads_header [where h = "\<lambda>n. mp_return (nat n)", OF ok])
      (use l False reads_return [of n] in \<open>auto simp: fmt_defs c_in_def c_range_def\<close>)
  then show ?thesis
    using False by (auto simp: arr_header_def mpw_begin_arr_def mp_write_header split: if_splits)
qed

lemma reads_map_iter:
  assumes ok: "endian_ok E" and l: "n < 2 ^ 32"
  shows "reads (mp_map_iter E) (map_header E (int n)) n"
proof (cases "n < 16")
  case True
  then have n: "0 \<le> int n" "int n < 16" by simp_all
  have "reads (mp_map_iter E) (to_byte (128 + int n) # []) n"
    unfolding mp_map_iter_def
    by (rule reads_tag) (use n fixmap_bits [OF n] reads_return [of n] in \<open>simp_all\<close>)
  then show ?thesis
    using True fixmap_bits [OF n] by (simp add: map_header_def mpw_begin_map_def write_lsb_def)
next
  case False
  let ?f = "if n < 65536 then msgpack_map16 else msgpack_map32"
  have "reads (mp_map_iter E) (mp_header E ?f (int n) @ []) n"
    unfolding mp_map_iter_def
    by (rule reads_header [where h = "\<lambda>n. mp_return (nat n)", OF ok])
      (use l False reads_return [of n] in \<open>auto simp: fmt_defs c_in_def c_range_def\<close>)
  then show ?thesis
    using False by (auto simp: map_header_def mpw_begin_map_def mp_write_header split: if_splits)
qed

section \<open>Packed arrays\<close>

lemma reads_packed_elements:
  assumes "endian_ok E" and "\<And>v. v \<in> set vs \<Longrightarrow> c_in T v" and "T \<noteq> C_bool"
  shows "reads (packed_get_all E T (length vs)) (concat (map (store_xe E T) vs)) vs"
  using assms(2)
proof (induction vs)
  case Nil
  then show ?case by (simp add: reads_return)
next
  case (Cons v vs)
  have "reads (packed_get E T (Suc (length vs))) (store_xe E T v) (v, length vs)"
    unfolding packed_get_def
    using reads_bind_return [OF reads_read [OF assms(1) _ assms(3)], of v "\<lambda>t. (t, Suc (length vs) - 1)"] Cons.prems
    by simp
  moreover have "reads (mp_bind (packed_get_all E T (length vs)) (\<lambda>vs. mp_return (v # vs)))
      (concat (map (store_xe E T) vs)) (v # vs)"
    using reads_bind_return [OF Cons.IH, of "\<lambda>vs. v # vs"] Cons.prems by simp
  ultimately show ?case
    using reads_bind [of "packed_get E T (Suc (length vs))" "store_xe E T v" "(v, length vs)"
        "\<lambda>(v, m). mp_bind (packed_get_all E T (length vs)) (\<lambda>vs. mp_return (v # vs))"]
    by simp
qed

lemma reads_packed_header:
  assumes ok: "endian_ok E" and T: "msgpack_packed_arr_of T = Some tag" and l: "n * c_sizeof T < 2 ^ 32"
  shows "reads (mp_packed_arr E T) (ext_header E (int (n * c_sizeof T)) @ [to_byte tag]) n"
proof -
  let ?n = "int (n * c_sizeof T)"
  let ?f = "if ?n < 256 then msgpack_ext8 else if ?n < 65536 then msgpack_ext16 else msgpack_ext32"
  have tag: "0 \<le> tag \<and> tag < 256"
    using T by (cases T) auto
  have s: "0 < c_sizeof T"
    by (cases T) simp_all
  let ?g = "\<lambda>nByte. if nat nByte mod c_sizeof T \<noteq> 0 then mp_fail invalid_ext_size
            else
              mp_bind (mp_read E C_uint8) (\<lambda>vt.
                if Some vt \<noteq> msgpack_packed_arr_of T then mp_fail ext_type_mismatch
                else mp_return (nat nByte div c_sizeof T))"
  have e: "nat ?n mod c_sizeof T = 0" "nat ?n div c_sizeof T = n"
    using s by (simp_all del: of_nat_mult)
  have 1: "reads (?g ?n) [to_byte tag] n"
    unfolding e using reads_tag [of tag "\<lambda>vt. if Some vt \<noteq> msgpack_packed_arr_of T then mp_fail ext_type_mismatch
                else mp_return n" "[]" n E] tag T s reads_return [of n]
    by simp
  have "reads (mp_packed_arr E T) (mp_header E ?f ?n @ [to_byte tag]) n"
    unfolding mp_packed_arr_def
    by (rule reads_header [where h = ?g, OF ok])
      (use l 1 in \<open>auto simp: fmt_defs c_in_def c_range_def simp del: of_nat_mult\<close>)
  then show ?thesis
    by (auto simp: ext_header_def simp del: of_nat_mult split: if_splits)
qed

end
