(* ===== verification/Msgpack_Props.thy ===== *)
theory Msgpack_Props
  imports Msgpack_Codec
begin

text \<open>
  The properties of the MessagePack codec: round trips of every kind of value, the minimal and
  type independent encoding of integers, \<open>skip\<close> on well formed values of any nesting, memory safety
  of the reader, and the places where the reader departs from what the writer produces.
\<close>

section \<open>Values of any nesting\<close>

text \<open>
  A value a writer can produce: the tree of the calls that write it. \<open>mp_put\<close> makes those calls.
\<close>

datatype mp_val =
    V_nil | V_bool bool | V_int int | V_float int | V_double int
  | V_str bytes | V_bin bytes | V_ext int bytes
  | V_arr "mp_val list" | V_map "(mp_val \<times> mp_val) list"

fun mp_put :: "endian_codec \<Rightarrow> mp_val \<Rightarrow> bytes \<Rightarrow> bytes" where
  "mp_put E V_nil b = mpw_nil b"
| "mp_put E (V_bool x) b = mpw_bool x b"
| "mp_put E (V_int i) b = (if i < 0 then mpw_int64 E i b else mpw_uint64 E i b)"
| "mp_put E (V_float f) b = mpw_float E f b"
| "mp_put E (V_double d) b = mpw_double E d b"
| "mp_put E (V_str x) b = mpw_str E x b"
| "mp_put E (V_bin x) b = mpw_bin E x b"
| "mp_put E (V_ext t x) b = mpw_ext E t x b"
| "mp_put E (V_arr vs) b = fold (mp_put E) vs (mpw_begin_arr E (int (length vs)) b)"
| "mp_put E (V_map kvs) b =
     fold (\<lambda>(k, v) b. mp_put E v (mp_put E k b)) kvs (mpw_begin_map E (int (length kvs)) b)"

fun mp_enc :: "endian_codec \<Rightarrow> mp_val \<Rightarrow> bytes" where
  "mp_enc E V_nil = mpw_nil []"
| "mp_enc E (V_bool x) = mpw_bool x []"
| "mp_enc E (V_int i) = mp_int_enc E i"
| "mp_enc E (V_float f) = mp_header E msgpack_float f"
| "mp_enc E (V_double d) = mp_header E msgpack_double d"
| "mp_enc E (V_str x) = str_header E (int (length x)) @ x"
| "mp_enc E (V_bin x) = bin_header E (int (length x)) @ x"
| "mp_enc E (V_ext t x) = ext_header E (int (length x)) @ [to_byte t] @ x"
| "mp_enc E (V_arr vs) = arr_header E (int (length vs)) @ concat (map (mp_enc E) vs)"
| "mp_enc E (V_map kvs) = map_header E (int (length kvs)) @ concat (map (\<lambda>(k, v). mp_enc E k @ mp_enc E v) kvs)"

text \<open>What the formats can hold; a map of \<open>2 ^ 31\<close> or more fields overflows in \<open>skip\<close>.\<close>

fun mp_wf :: "mp_val \<Rightarrow> bool" where
  "mp_wf (V_int i) \<longleftrightarrow> - (2 ^ 63) \<le> i \<and> i < 2 ^ 64"
| "mp_wf (V_str x) \<longleftrightarrow> length x < 2 ^ 32"
| "mp_wf (V_bin x) \<longleftrightarrow> length x < 2 ^ 32"
| "mp_wf (V_ext t x) \<longleftrightarrow> length x < 2 ^ 32"
| "mp_wf (V_arr vs) \<longleftrightarrow> length vs < 2 ^ 32 \<and> (\<forall>v \<in> set vs. mp_wf v)"
| "mp_wf (V_map kvs) \<longleftrightarrow> length kvs < 2 ^ 31 \<and> (\<forall>kv \<in> set kvs. mp_wf (fst kv) \<and> mp_wf (snd kv))"
| "mp_wf _ \<longleftrightarrow> True"

lemma fold_append:
  assumes "\<And>x b. x \<in> set xs \<Longrightarrow> f x b = b @ g x"
  shows "fold f xs b = b @ concat (map g xs)"
  using assms by (induction xs arbitrary: b) auto

lemma mp_put_enc: "mp_wf v \<Longrightarrow> mp_put E v b = b @ mp_enc E v"
proof (induction v arbitrary: b)
  case V_nil
  then show ?case by (simp add: mpw_nil_def write_lsb_def)
next
  case (V_bool x)
  then show ?case by (simp add: mpw_bool_def write_lsb_def)
next
  case (V_int i)
  then show ?case
    using mpw_unsigned(4) [of i E b] mpw_signed(4) [of i E b] by auto
next
  case (V_float f)
  then show ?case by (simp add: mpw_float_def mp_write_header)
next
  case (V_double d)
  then show ?case by (simp add: mpw_double_def mp_write_header)
next
  case (V_arr vs)
  then have "fold (mp_put E) vs c = c @ concat (map (mp_enc E) vs)" for c
    by (intro fold_append) auto
  then show ?case
    by (simp add: mpw_begin_arr_append)
next
  case (V_map kvs)
  have "fold (\<lambda>(k, v) b. mp_put E v (mp_put E k b)) kvs c =
      c @ concat (map (\<lambda>(k, v). mp_enc E k @ mp_enc E v) kvs)" for c
  proof (rule fold_append)
    fix kv b
    assume kv: "kv \<in> set kvs"
    obtain k v where e: "kv = (k, v)" by fastforce
    have "mp_wf k \<and> mp_wf v"
      using V_map.prems kv e by auto
    then show "(case kv of (k, v) \<Rightarrow> \<lambda>b. mp_put E v (mp_put E k b)) b =
        b @ (case kv of (k, v) \<Rightarrow> mp_enc E k @ mp_enc E v)"
      using V_map.IH kv e by (fastforce simp: )
  qed
  then show ?case
    by (simp add: mpw_begin_map_append)
qed (simp_all add: mpw_str_append mpw_bin_append mpw_ext_append)

section \<open>Skipping\<close>

lemma mp_skip_step:
  assumes "reads (mp_read E C_uint8) [t'] t" and "reads (skip_item E t) bs (n, k)"
    and at: "mv_at s (t' # bs @ rest)"
  shows "mp_skip E (Suc cnt) s = mp_skip E (sz_add cnt k) (mv_advance n (mv_advance (length (t' # bs)) s))"
proof -
  have "mp_read E C_uint8 s = (Inr t, mv_advance (length [t']) s)"
    using assms(1) at unfolding reads_def by (metis append_Cons append_Nil)
  moreover have "mv_at (mv_advance (length [t']) s) (bs @ rest)"
    using mv_at_advance [of s "[t']" "bs @ rest"] at by simp
  then have "skip_item E t (mv_advance (length [t']) s) = (Inr (n, k), mv_advance (length bs) (mv_advance (length [t']) s))"
    using assms(2) unfolding reads_def by blast
  ultimately show ?thesis
    by (subst mp_skip.simps) (simp add: mv_advance_def)
qed

definition skips :: "endian_codec \<Rightarrow> bytes \<Rightarrow> nat \<Rightarrow> bool" where
  "skips E bs k \<longleftrightarrow>
     (\<forall>s rest cnt. mv_at s (bs @ rest) \<longrightarrow> cnt + length bs < 2 ^ 64 \<longrightarrow>
        mp_skip E (cnt + k) s = mp_skip E cnt (mv_advance (length bs) s))"

lemma skipsD:
  "skips E bs k \<Longrightarrow> mv_at s (bs @ rest) \<Longrightarrow> cnt + length bs < 2 ^ 64 \<Longrightarrow>
   mp_skip E (cnt + k) s = mp_skip E cnt (mv_advance (length bs) s)"
  unfolding skips_def by blast

lemma mv_advance_add: "mv_advance m (mv_advance n s) = mv_advance (n + m) s"
  by (simp add: mv_advance_def)

text \<open>A value without elements: a header and a payload that is jumped over.\<close>

lemma skips_leaf:
  assumes "0 \<le> t" "t < 256" and "reads (skip_item E t) bs (length x, 0)"
  shows "skips E (to_byte t # bs @ x) 1"
  unfolding skips_def
proof (intro allI impI)
  fix s rest cnt
  assume at: "mv_at s ((to_byte t # bs @ x) @ rest)" and c: "cnt + length (to_byte t # bs @ x) < 2 ^ 64"
  have "mp_skip E (Suc cnt) s = mp_skip E (sz_add cnt 0) (mv_advance (length x) (mv_advance (length (to_byte t # bs)) s))"
    by (rule mp_skip_step [OF reads_byte [OF assms(1,2)] assms(3), where rest = "x @ rest"]) (use at in simp)
  then show "mp_skip E (cnt + 1) s = mp_skip E cnt (mv_advance (length (to_byte t # bs @ x)) s)"
    using c by (simp add: mv_advance_add add_ac)
qed

text \<open>A header that announces \<open>k\<close> more values.\<close>

lemma skips_node:
  assumes "0 \<le> t" "t < 256" and "reads (skip_item E t) bs (0, k)" and k: "skips E cs k" and l: "k \<le> length cs"
  shows "skips E ((to_byte t # bs) @ cs) 1"
  unfolding skips_def
proof (intro allI impI)
  fix s rest cnt
  assume at: "mv_at s (((to_byte t # bs) @ cs) @ rest)" and c: "cnt + length ((to_byte t # bs) @ cs) < 2 ^ 64"
  have "mp_skip E (Suc cnt) s = mp_skip E (sz_add cnt k) (mv_advance 0 (mv_advance (length (to_byte t # bs)) s))"
    by (rule mp_skip_step [OF reads_byte [OF assms(1,2)] assms(3), where rest = "cs @ rest"]) (use at in simp)
  also have "\<dots> = mp_skip E (cnt + k) (mv_advance (length (to_byte t # bs)) s)"
    using c l by (simp add: mv_advance_add)
  also have "\<dots> = mp_skip E cnt (mv_advance (length cs) (mv_advance (length (to_byte t # bs)) s))"
    by (rule skipsD [OF k, where rest = rest])
      (use at c mv_at_advance [of s "to_byte t # bs" "cs @ rest"] in auto)
  finally show "mp_skip E (cnt + 1) s = mp_skip E cnt (mv_advance (length ((to_byte t # bs) @ cs)) s)"
    by (simp add: mv_advance_add)
qed

lemma skips_Nil: "skips E [] 0"
  by (simp add: skips_def mv_advance_def)

lemma skips_append:
  assumes "skips E bs k" and "skips E cs m" and "m \<le> length cs"
  shows "skips E (bs @ cs) (k + m)"
  unfolding skips_def
proof (intro allI impI)
  fix s rest cnt
  assume at: "mv_at s ((bs @ cs) @ rest)" and c: "cnt + length (bs @ cs) < 2 ^ 64"
  have "mp_skip E ((cnt + m) + k) s = mp_skip E (cnt + m) (mv_advance (length bs) s)"
    by (rule skipsD [OF assms(1), where rest = "cs @ rest"]) (use at c assms(3) in simp_all)
  also have "\<dots> = mp_skip E cnt (mv_advance (length cs) (mv_advance (length bs) s))"
    by (rule skipsD [OF assms(2), where rest = rest])
      (use at c mv_at_advance [of s bs "cs @ rest"] in simp_all)
  finally show "mp_skip E (cnt + (k + m)) s = mp_skip E cnt (mv_advance (length (bs @ cs)) s)"
    by (simp add: mv_advance_add add_ac)
qed

lemma skips_concat:
  assumes "\<And>x. x \<in> set xs \<Longrightarrow> skips E (f x) m" and "\<And>x. x \<in> set xs \<Longrightarrow> m \<le> length (f x)"
  shows "skips E (concat (map f xs)) (length xs * m) \<and> length xs * m \<le> length (concat (map f xs))"
  using assms
proof (induction xs)
  case Nil
  then show ?case by (simp add: skips_Nil)
next
  case (Cons x xs)
  then have "skips E (concat (map f xs)) (length xs * m)" "length xs * m \<le> length (concat (map f xs))"
    by auto
  moreover have "skips E (f x) m" "m \<le> length (f x)"
    using Cons.prems by auto
  ultimately show ?case
    using skips_append [of E "f x" m "concat (map f xs)" "length xs * m"] by simp
qed

lemma mp_enc_pos: "0 < length (mp_enc E v)"
  by (cases v) (auto simp: mpw_nil_def mpw_bool_def write_lsb_def mp_int_enc_def mp_header_def
      str_header_def bin_header_def ext_header_def arr_header_def map_header_def mpw_begin_arr_def
      mpw_begin_map_def mp_write_def)

lemma reads_length:
  assumes "endian_ok E" and "c_in T (int n)" "T \<noteq> C_bool"
  shows "reads (mp_bind (mp_read E T) (\<lambda>n. mp_return (g (nat n)))) (store_xe E T (int n)) (g n)"
  using reads_bind_return [OF reads_read [OF assms], where g = "\<lambda>n. g (nat n)"] by simp


lemma skips_fixed:
  assumes "endian_ok E" and "0 \<le> fmt_tag f" "fmt_tag f < 256"
    and "skip_item E (fmt_tag f) = mp_return (c_sizeof (fmt_type f), 0)"
  shows "skips E (mp_header E f v) 1"
  using skips_leaf [of "fmt_tag f" E "[]" "store_xe E (fmt_type f) v"] assms
    reads_return [of "(c_sizeof (fmt_type f), 0::nat)"]
  by (simp add: mp_header_def store_xe_length)

lemma skips_tag:
  assumes "0 \<le> t" "t < 256" and "skip_item E t = mp_return (0, 0)"
  shows "skips E [to_byte t] 1"
  using skips_leaf [of t E "[]" "[]"] assms reads_return [of "(0::nat, 0::nat)"] by simp

text \<open>A header with the length of the payload.\<close>

lemma skips_sized:
  assumes "endian_ok E" and "0 \<le> fmt_tag f" "fmt_tag f < 256" and "fmt_type f \<noteq> C_bool"
    and "c_in (fmt_type f) (int n)" and "length x = g n"
    and "skip_item E (fmt_tag f) = mp_bind (mp_read E (fmt_type f)) (\<lambda>n. mp_return (g (nat n), 0))"
  shows "skips E (mp_header E f (int n) @ x) 1"
  using skips_leaf [of "fmt_tag f" E "store_xe E (fmt_type f) (int n)" x] assms
    reads_length [OF assms(1,5,4), of "\<lambda>n. (g n, 0)"]
  by (simp add: mp_header_def)

text \<open>A header with the number of values that follow.\<close>

lemma skips_counted:
  assumes "endian_ok E" and "0 \<le> fmt_tag f" "fmt_tag f < 256" and "fmt_type f \<noteq> C_bool"
    and "c_in (fmt_type f) (int n)" and "skips E cs (g n)" and "g n \<le> length cs"
    and "skip_item E (fmt_tag f) = mp_bind (mp_read E (fmt_type f)) (\<lambda>n. mp_return (0, g (nat n)))"
  shows "skips E (mp_header E f (int n) @ cs) 1"
  using skips_node [of "fmt_tag f" E "store_xe E (fmt_type f) (int n)" "g n" cs] assms
    reads_length [OF assms(1,5,4), of "\<lambda>n. (0, g n)"]
  by (simp add: mp_header_def)

lemmas skip_item_simps = skip_item_def fmt_defs tag_defs

lemma skips_int:
  assumes "endian_ok E"
  shows "skips E (mp_int_enc E v) 1"
proof -
  have f: "skips E (mp_header E msgpack_posi8 v) 1"
    "skips E (mp_header E msgpack_posi16 v) 1"
    "skips E (mp_header E msgpack_posi32 v) 1"
    "skips E (mp_header E msgpack_posi64 v) 1"
    "skips E (mp_header E msgpack_negi8 v) 1"
    "skips E (mp_header E msgpack_negi16 v) 1"
    "skips E (mp_header E msgpack_negi32 v) 1"
    "skips E (mp_header E msgpack_negi64 v) 1"
    by (rule skips_fixed [OF assms]; simp add: skip_item_simps)+
  consider "- 32 \<le> v" "v < 0" | "0 \<le> v" "v < 128" | "v < - 32 \<or> 128 \<le> v"
    by linarith
  then show ?thesis
  proof cases
    case 1
    then show ?thesis
      using skips_tag [of "v + 256" E] to_byte_neg [of v] by (simp add: mp_int_enc_def skip_item_simps)
  next
    case 2
    then show ?thesis
      using skips_tag [of v E] by (simp add: mp_int_enc_def skip_item_simps)
  next
    case 3
    then show ?thesis
      using f by (auto simp: mp_int_enc_def)
  qed
qed

lemma skips_str:
  assumes "endian_ok E" and "length x < 2 ^ 32"
  shows "skips E (str_header E (int (length x)) @ x) 1"
proof (cases "length x < 32")
  case True
  then have n: "0 \<le> int (length x)" "int (length x) < 32" by simp_all
  have "skips E (to_byte (160 + int (length x)) # [] @ x) 1"
    by (rule skips_leaf)
      (use n fixstr_bits [OF n] reads_return [of "(length x, 0)"] in \<open>auto simp: skip_item_simps\<close>)
  then show ?thesis
    using True fixstr_bits [OF n] by (simp add: str_header_def)
next
  case False
  let ?f = "if length x < 256 then msgpack_str8 else if length x < 65536 then msgpack_str16 else msgpack_str32"
  have "skips E (mp_header E ?f (int (length x)) @ x) 1"
    by (rule skips_sized [OF assms(1), where g = "\<lambda>n. n"])
      (use assms(2) False in \<open>auto simp: skip_item_simps c_in_def c_range_def\<close>)
  then show ?thesis
    using False by (auto simp: str_header_def split: if_splits)
qed

lemma skips_bin:
  assumes "endian_ok E" and "length x < 2 ^ 32"
  shows "skips E (bin_header E (int (length x)) @ x) 1"
proof -
  let ?f = "if length x < 256 then msgpack_bin8 else if length x < 65536 then msgpack_bin16 else msgpack_bin32"
  have "skips E (mp_header E ?f (int (length x)) @ x) 1"
    by (rule skips_sized [OF assms(1), where g = "\<lambda>n. n"])
      (use assms(2) in \<open>auto simp: skip_item_simps c_in_def c_range_def\<close>)
  then show ?thesis
    by (auto simp: bin_header_def split: if_splits)
qed

lemma skips_ext:
  assumes "endian_ok E" and "length x < 2 ^ 32"
  shows "skips E (ext_header E (int (length x)) @ [to_byte t] @ x) 1"
proof -
  let ?f = "if length x < 256 then msgpack_ext8 else if length x < 65536 then msgpack_ext16 else msgpack_ext32"
  have "skips E (mp_header E ?f (int (length x)) @ ([to_byte t] @ x)) 1"
    by (rule skips_sized [OF assms(1), where g = "\<lambda>n. n + 1"])
      (use assms(2) in \<open>auto simp: skip_item_simps c_in_def c_range_def\<close>)
  then show ?thesis
    by (auto simp: ext_header_def split: if_splits)
qed

lemma skips_arr:
  assumes "endian_ok E" and "n < 2 ^ 32" and cs: "skips E cs n" "n \<le> length cs"
  shows "skips E (arr_header E (int n) @ cs) 1"
proof (cases "n < 16")
  case True
  then have n: "0 \<le> int n" "int n < 16" by simp_all
  have "skips E ((to_byte (144 + int n) # []) @ cs) 1"
    by (rule skips_node)
      (use n fixarr_bits [OF n] reads_return [of "(0, n)"] cs in \<open>auto simp: skip_item_simps\<close>)
  then show ?thesis
    using True fixarr_bits [OF n] by (simp add: arr_header_def mpw_begin_arr_def write_lsb_def)
next
  case False
  let ?f = "if n < 65536 then msgpack_arr16 else msgpack_arr32"
  have "skips E (mp_header E ?f (int n) @ cs) 1"
    by (rule skips_counted [OF assms(1), where g = "\<lambda>n. n"])
      (use assms False in \<open>auto simp: skip_item_simps c_in_def c_range_def\<close>)
  then show ?thesis
    using False by (auto simp: arr_header_def mpw_begin_arr_def mp_write_header split: if_splits)
qed

lemma skips_map:
  assumes "endian_ok E" and "n < 2 ^ 31" and cs: "skips E cs (n * 2)" "n * 2 \<le> length cs"
  shows "skips E (map_header E (int n) @ cs) 1"
proof (cases "n < 16")
  case True
  then have n: "0 \<le> int n" "int n < 16" by simp_all
  have "skips E ((to_byte (128 + int n) # []) @ cs) 1"
    by (rule skips_node)
      (use n fixmap_bits [OF n] reads_return [of "(0, n * 2)"] cs in \<open>auto simp: skip_item_simps\<close>)
  then show ?thesis
    using True fixmap_bits [OF n] by (simp add: map_header_def mpw_begin_map_def write_lsb_def)
next
  case False
  show ?thesis
  proof (cases "n < 65536")
    case True
    have "skips E (mp_header E msgpack_map16 (int n) @ cs) 1"
      by (rule skips_counted [OF assms(1), where g = "\<lambda>n. n * 2"])
        (use cs True in \<open>auto simp: skip_item_simps c_in_def c_range_def\<close>)
    then show ?thesis
      using True False by (simp add: map_header_def mpw_begin_map_def mp_write_header)
  next
    case big: False
    have "skips E (mp_header E msgpack_map32 (int n) @ cs) 1"
      by (rule skips_counted [OF assms(1), where g = "\<lambda>n. (n * 2) mod 2 ^ 32"])
        (use cs assms(2) in \<open>auto simp: skip_item_simps c_in_def c_range_def\<close>)
    then show ?thesis
      using False big by (simp add: map_header_def mpw_begin_map_def mp_write_header)
  qed
qed

lemma skips_enc: "endian_ok E \<Longrightarrow> mp_wf v \<Longrightarrow> skips E (mp_enc E v) 1"
proof (induction v)
  case V_nil
  then show ?case
    using skips_tag [of msgpack_nil E] by (simp add: mpw_nil_def write_lsb_def skip_item_simps)
next
  case (V_bool x)
  then show ?case
    using skips_tag [of "if x then msgpack_true else msgpack_false" E]
    by (simp add: mpw_bool_def write_lsb_def skip_item_simps)
next
  case (V_arr vs)
  have "skips E (concat (map (mp_enc E) vs)) (length vs * 1) \<and> length vs * 1 \<le> length (concat (map (mp_enc E) vs))"
  proof (rule skips_concat)
    fix v
    assume v: "v \<in> set vs"
    show "skips E (mp_enc E v) 1"
      using V_arr.IH [OF v] V_arr.prems v by simp
    show "1 \<le> length (mp_enc E v)"
      using mp_enc_pos [of E v] by (simp add: Suc_le_eq)
  qed
  then show ?case
    using V_arr.prems skips_arr [of E "length vs" "concat (map (mp_enc E) vs)"] by simp
next
  case (V_map kvs)
  let ?f = "\<lambda>(k, v). mp_enc E k @ mp_enc E v"
  have "skips E (concat (map ?f kvs)) (length kvs * 2) \<and> length kvs * 2 \<le> length (concat (map ?f kvs))"
  proof (rule skips_concat)
    fix kv
    assume kv: "kv \<in> set kvs"
    obtain k v where e: "kv = (k, v)" by fastforce
    have "mp_wf k \<and> mp_wf v"
      using V_map.prems kv e by auto
    then have "skips E (mp_enc E k) 1" "skips E (mp_enc E v) 1"
      using V_map.IH kv e V_map.prems(1) by fastforce+
    then show "skips E (?f kv) 2"
      using skips_append [of E "mp_enc E k" 1 "mp_enc E v" 1] mp_enc_pos [of E v] e
      by (simp add: numeral_2_eq_2)
    have "1 + 1 \<le> length (mp_enc E k) + length (mp_enc E v)"
      by (rule add_mono) (use mp_enc_pos in \<open>simp_all add: Suc_le_eq\<close>)
    then show "2 \<le> length (?f kv)"
      using e by simp
  qed
  then show ?case
    using V_map.prems skips_map [of E "length kvs" "concat (map ?f kvs)"] by simp
next
  case (V_float f)
  then show ?case
    using skips_fixed [of E msgpack_float f] by (simp add: skip_item_simps)
next
  case (V_double f)
  then show ?case
    using skips_fixed [of E msgpack_double f] by (simp add: skip_item_simps)
next
  case (V_int i)
  then show ?case
    using skips_int [of E i] by simp
next
  case (V_str x)
  then show ?case
    using skips_str [of E x] by simp
next
  case (V_bin x)
  then show ?case
    using skips_bin [of E x] by simp
next
  case (V_ext t x)
  then show ?case
    using skips_ext [of E x t] by simp
qed


section \<open>Memory safety of the reader\<close>

definition mp_safe :: "'a mp \<Rightarrow> bool" where
  "mp_safe m \<longleftrightarrow>
     (\<forall>s r s'. mv_e s \<le> length (mv_buf s) \<longrightarrow> m s = (r, s') \<longrightarrow>
        r \<noteq> Inl Out_of_bounds \<and> mv_buf s' = mv_buf s \<and> mv_e s' = mv_e s)"

lemma mp_safeD:
  "mp_safe m \<Longrightarrow> mv_e s \<le> length (mv_buf s) \<Longrightarrow> m s = (r, s') \<Longrightarrow>
   r \<noteq> Inl Out_of_bounds \<and> mv_buf s' = mv_buf s \<and> mv_e s' = mv_e s"
  unfolding mp_safe_def by blast

lemma mp_safe_fst: "mp_safe m \<Longrightarrow> mv_e s \<le> length (mv_buf s) \<Longrightarrow> fst (m s) \<noteq> Inl Out_of_bounds"
  using mp_safeD [of m s "fst (m s)" "snd (m s)"] by simp

lemma mp_safe_read: "mp_safe (mp_read E T)"
  by (auto simp: mp_safe_def mp_read_def mv_bytes_def mv_advance_def has_more_def split: if_splits)

lemma mp_safe_read_bytes: "mp_safe (mp_read_bytes n)"
  by (auto simp: mp_safe_def mp_read_bytes_def mv_bytes_def mv_advance_def has_more_def split: if_splits)

lemma mp_safe_advance: "mp_safe (mp_advance n)"
  by (auto simp: mp_safe_def mp_advance_def mv_advance_def split: if_splits)

lemma mp_safe_peek: "mp_safe mp_peek_uint8"
  by (auto simp: mp_safe_def mp_peek_uint8_def mv_bytes_def split: if_splits)

lemma mp_safe_return: "mp_safe (mp_return a)"
  by (simp add: mp_safe_def mp_return_def)

lemma mp_safe_fail: "mp_safe (mp_fail e)"
  by (simp add: mp_safe_def mp_fail_def)

lemma mp_safe_if: "mp_safe a \<Longrightarrow> mp_safe b \<Longrightarrow> mp_safe (if c then a else b)"
  by simp

lemma mp_safe_bind:
  assumes "mp_safe m" and "\<And>a. mp_safe (f a)"
  shows "mp_safe (mp_bind m f)"
  unfolding mp_safe_def
proof (intro allI impI)
  fix s r s'
  assume e: "mv_e s \<le> length (mv_buf s)" and b: "mp_bind m f s = (r, s')"
  obtain r1 s1 where m: "m s = (r1, s1)"
    by fastforce
  note 1 = mp_safeD [OF assms(1) e m]
  show "r \<noteq> Inl Out_of_bounds \<and> mv_buf s' = mv_buf s \<and> mv_e s' = mv_e s"
  proof (cases r1)
    case (Inl x)
    then show ?thesis
      using b m 1 by (auto simp: mp_bind_def)
  next
    case (Inr a)
    then have "f a s1 = (r, s')"
      using b m by (simp add: mp_bind_def)
    then show ?thesis
      using mp_safeD [OF assms(2) [of a], of s1 r s'] 1 e by simp
  qed
qed

lemma mp_safe_case_option: "mp_safe a \<Longrightarrow> (\<And>x. mp_safe (f x)) \<Longrightarrow> mp_safe (case z of None \<Rightarrow> a | Some x \<Rightarrow> f x)"
  by (cases z) simp_all

lemmas mp_safes = mp_safe_if mp_safe_case_option mp_safe_read mp_safe_read_bytes mp_safe_return mp_safe_fail
  mp_safe_peek mp_safe_advance mp_safe_bind

lemma mp_safe_skip_item: "mp_safe (skip_item E t)"
  unfolding skip_item_def by (intro mp_safes)

lemma mp_safe_skip: "mp_safe (mp_skip E cnt)"
proof -
  have "mv_e s \<le> length (mv_buf s) \<Longrightarrow> mp_skip E cnt s = (r, s') \<Longrightarrow>
      r \<noteq> Inl Out_of_bounds \<and> mv_buf s' = mv_buf s \<and> mv_e s' = mv_e s" for s r s'
  proof (induction E cnt s arbitrary: r s' rule: mp_skip.induct)
    case (1 E cnt s)
    obtain r1 s1 where m: "mp_read E C_uint8 s = (r1, s1)"
      by fastforce
    note a = mp_safeD [OF mp_safe_read 1(2) m]
    show ?case
    proof (cases "cnt = 0")
      case True
      then show ?thesis
        using 1(3) by (subst (asm) mp_skip.simps) auto
    next
      case c: False
      show ?thesis
      proof (cases r1)
        case (Inl x)
        then show ?thesis
          using 1(3) m a c by (subst (asm) mp_skip.simps) auto
      next
        case (Inr t)
        obtain r2 s2 where i: "skip_item E t s1 = (r2, s2)"
          by fastforce
        have b: "r2 \<noteq> Inl Out_of_bounds \<and> mv_buf s2 = mv_buf s \<and> mv_e s2 = mv_e s"
          using mp_safeD [OF mp_safe_skip_item, of s1 E t r2 s2] i a 1(2) by simp
        show ?thesis
        proof (cases r2)
          case (Inl x)
          then show ?thesis
            using 1(3) m i b c Inr by (subst (asm) mp_skip.simps) auto
        next
          case (Inr nk)
          obtain n k where nk: "nk = (n, k)" by fastforce
          have st: "mp_skip E (sz_add (cnt - 1) k) (mv_advance n s2) = (r, s')"
            using 1(3) m i b c \<open>r1 = Inr t\<close> Inr nk by (subst (asm) mp_skip.simps) simp
          have "mv_e (mv_advance n s2) \<le> length (mv_buf (mv_advance n s2))"
            using b 1(2) by (simp add: mv_advance_def)
          from 1(1) [OF c m [symmetric] \<open>r1 = Inr t\<close> i [symmetric] Inr nk [symmetric] this st]
          show ?thesis
            using b by (simp add: mv_advance_def)
        qed
      qed
    qed
  qed
  then show ?thesis
    unfolding mp_safe_def by blast
qed

lemma mp_safe_check_nil: "mp_safe (mp_check_nil E)"
proof -
  have "mp_safe (\<lambda>s. if t = msgpack_nil then (Inr True, s) else (Inr False, s\<lparr>mv_p := mv_p s - 1\<rparr>))" for t
    by (auto simp: mp_safe_def)
  then show ?thesis
    unfolding mp_check_nil_def by (intro mp_safes)
qed

lemma mp_safe_scalars:
  "mp_safe (mp_uint E T)" "mp_safe (mp_int E T)" "mp_safe (mp_float E)" "mp_safe (mp_double E)"
  "mp_safe (mp_nil E)" "mp_safe (mp_bool E)" "mp_safe (bin_size E)"
  unfolding mp_uint_def mp_int_def mp_float_def mp_double_def mp_nil_def mp_bool_def bin_size_def Let_def
  by (intro mp_safes)+

lemma mp_safe_compound:
  "mp_safe (mp_arithmetic E T)" "mp_safe (mp_get_str E)" "mp_safe (mp_get_bin E)" "mp_safe (mp_get_bin_to E k)"
  "mp_safe (mp_map_iter E)" "mp_safe (mp_arr_iter E)" "mp_safe (mp_packed_arr E T)" "mp_safe (packed_get E T n)"
  "mp_safe (packed_skip_remains T n)" "mp_safe (get_jval_matched_type ts)"
  unfolding mp_arithmetic_def mp_get_str_def mp_get_bin_def mp_get_bin_to_def mp_map_iter_def mp_arr_iter_def
    mp_packed_arr_def packed_get_def packed_skip_remains_def get_jval_matched_type_def
  by (intro mp_safes mp_safe_scalars)+


section \<open>Properties\<close>

text \<open>
  An arithmetic value of any integral type, written with the writer for its type, is read back
  unchanged by the reader for that type, which consumes exactly the bytes that were written.
\<close>

theorem msgpack_int_roundtrip:
  assumes "endian_ok E" and "c_integral T" and "c_in T v" and "mv_at s (mpw_arithmetic E T v [] @ rest)"
  shows "mp_arithmetic E T s = (Inr (A_int v), mv_advance (length (mpw_arithmetic E T v [])) s)"
proof -
  have enc: "mpw_arithmetic E T v [] = mp_int_enc E v"
    using mpw_arithmetic_int [OF assms(2,3), of E "[]"] by simp
  have "reads (mp_arithmetic E T) (mp_int_enc E v) (A_int v)"
  proof (cases "c_signed T")
    case True
    then show ?thesis
      using reads_bind_return [OF reads_int [OF assms(1) True assms(3)], where g = A_int] assms(2)
      by (simp add: mp_arithmetic_def c_integral_def)
  next
    case False
    then show ?thesis
      using reads_bind_return [OF reads_uint [OF assms(1,2) False assms(3)], where g = A_int] assms(2)
      by (simp add: mp_arithmetic_def c_integral_def)
  qed
  from readsD [OF this, of s rest] show ?thesis
    using assms(4) enc by simp
qed

theorem msgpack_int_roundtrip_witness:
  "\<exists>s. mp_value_new (mpw_arithmetic big_endian C_int16 (- 300) [] @ [7]) 0 = Some s \<and>
     mp_arithmetic big_endian C_int16 s = (Inr (A_int (- 300)), mv_advance 3 s)"
proof -
  obtain s where s: "mp_value_new (mpw_arithmetic big_endian C_int16 (- 300) [] @ [7]) 0 = Some s"
    and at: "mv_at s (mpw_arithmetic big_endian C_int16 (- 300) [] @ [7])"
    using mv_at_new by blast
  have "mp_arithmetic big_endian C_int16 s =
      (Inr (A_int (- 300)), mv_advance (length (mpw_arithmetic big_endian C_int16 (- 300) [])) s)"
    by (rule msgpack_int_roundtrip [OF big_endian_ok _ _ at]) (simp_all add: c_integral_def c_in_def c_range_def)
  moreover have "length (mpw_arithmetic big_endian C_int16 (- 300) []) = 3"
    by (simp add: mpw_int16_def mp_write_def store_xe_length [OF big_endian_ok] fmt_defs)
  ultimately show ?thesis
    using s by auto
qed

text \<open>
  The encoding of an integer does not depend on the type it is written from, and is the shortest
  the format has; so the reader for \<open>int64_t\<close> reads an integer written from any type, up to the
  unsigned numbers beyond its range, which it refuses with \<open>posi_overflow\<close>.
\<close>

theorem msgpack_int64_reads_any:
  assumes "endian_ok E" and "c_integral T" and "c_in T v" and "mv_at s (mpw_arithmetic E T v [] @ rest)"
  shows "fst (mp_int E C_int64 s) = (if v < 2 ^ 63 then Inr v else Inl (Mp_err posi_overflow)) \<and>
    length (mpw_arithmetic E T v []) =
      (if - 32 \<le> v \<and> v < 128 then 1 else if - 128 \<le> v \<and> v < 256 then 2
       else if - (2 ^ 15) \<le> v \<and> v < 2 ^ 16 then 3 else if - (2 ^ 31) \<le> v \<and> v < 2 ^ 32 then 5 else 9)"
proof -
  have enc: "mpw_arithmetic E T v [] = mp_int_enc E v"
    using mpw_arithmetic_int [OF assms(2,3), of E "[]"] by simp
  have b: "- (2 ^ 63) \<le> v" "v < 2 ^ 64"
    using assms(2,3) by (cases T; auto simp: c_in_def c_range_def c_integral_def)+
  have "fst (mp_int E C_int64 s) = (if v < 2 ^ 63 then Inr v else Inl (Mp_err posi_overflow))"
  proof (cases "v < 2 ^ 63")
    case True
    then have "c_in C_int64 v"
      using b by (simp add: c_in_def c_range_def)
    then have "reads (mp_int E C_int64) (mp_int_enc E v) v"
      by (intro reads_int [OF assms(1)]) simp_all
    from readsD [OF this, of s rest] show ?thesis
      using assms(4) enc True by simp
  next
    case False
    then have at: "mv_at s (to_byte 0xcf # store_xe E C_uint64 v @ rest)"
      using assms(4) enc b by (simp add: mp_int_enc_def mp_header_def fmt_defs)
    let ?s1 = "mv_advance (length [to_byte 0xcf]) s"
    have 1: "mp_read E C_uint8 s = (Inr 0xcf, ?s1)"
      by (rule readsD [OF reads_byte, where rest = "store_xe E C_uint64 v @ rest"]) (use at in simp_all)
    have 2: "mp_read E C_uint64 ?s1 = (Inr v, mv_advance (length (store_xe E C_uint64 v)) ?s1)"
      by (rule readsD [OF reads_read [OF assms(1)], where rest = rest])
        (use mv_at_advance [of s "[to_byte 0xcf]"] at b False in \<open>simp_all add: c_in_def c_range_def\<close>)
    have "v mod 2 ^ 64 = v"
      using b False by (intro mod_pos_pos_trivial) auto
    then have "c_cast C_int64 v < 0"
      using b False by (simp add: c_cast_def c_pattern_def c_value_def c_range_def)
    then show ?thesis
      using 1 2 False by (simp add: mp_int_def mp_bind_def fmt_defs Let_def mp_fail_def)
  qed
  moreover have "length (mp_int_enc E v) =
      (if - 32 \<le> v \<and> v < 128 then 1 else if - 128 \<le> v \<and> v < 256 then 2
       else if - (2 ^ 15) \<le> v \<and> v < 2 ^ 16 then 3 else if - (2 ^ 31) \<le> v \<and> v < 2 ^ 32 then 5 else 9)"
    using b by (auto simp: mp_int_enc_def mp_header_length [OF assms(1)] fmt_defs)
  ultimately show ?thesis
    using enc by simp
qed

theorem msgpack_int64_reads_any_witness:
  "\<exists>s. mp_value_new (mpw_arithmetic big_endian C_uint64 (2 ^ 64 - 1) []) 0 = Some s \<and>
     fst (mp_int big_endian C_int64 s) = Inl (Mp_err posi_overflow)"
proof -
  obtain s where s: "mp_value_new (mpw_arithmetic big_endian C_uint64 (2 ^ 64 - 1) [] @ []) 0 = Some s"
    and at: "mv_at s (mpw_arithmetic big_endian C_uint64 (2 ^ 64 - 1) [] @ [])"
    using mv_at_new by blast
  have "fst (mp_int big_endian C_int64 s) =
      (if (2 ^ 64 - 1 :: int) < 2 ^ 63 then Inr (2 ^ 64 - 1) else Inl (Mp_err posi_overflow))"
    using msgpack_int64_reads_any [OF big_endian_ok _ _ at] by (simp add: c_integral_def c_in_def c_range_def)
  then show ?thesis
    using s by auto
qed

text \<open>
  C24: \<open>skip\<close>, which counts the values still to be skipped instead of recursing, moves past exactly
  one value of any nesting: it ends where the encoding of the value ends and leaves the rest of its
  count for what follows.
\<close>

theorem msgpack_skip_value:
  assumes "endian_ok E" and "mp_wf v" and "mv_at s (mp_put E v [] @ rest)"
    and "cnt + length (mp_put E v []) < 2 ^ 64"
  shows "mp_skip E (cnt + 1) s = mp_skip E cnt (mv_advance (length (mp_put E v [])) s)"
  using skipsD [OF skips_enc [OF assms(1,2)]] mp_put_enc [OF assms(2), of E "[]"] assms(3,4) by simp

theorem msgpack_skip_value_witness:
  "\<exists>s. mp_value_new (mp_put big_endian (V_map [(V_str [107], V_arr [V_int (- 5), V_nil])]) [] @ [1]) 0 = Some s \<and>
     mp_skip big_endian 1 s = (Inr (), mv_advance 6 s)"
proof -
  let ?v = "V_map [(V_str [107], V_arr [V_int (- 5), V_nil])]"
  obtain s where s: "mp_value_new (mp_put big_endian ?v [] @ [1]) 0 = Some s"
    and at: "mv_at s (mp_put big_endian ?v [] @ [1])"
    using mv_at_new by blast
  have "length (mp_put big_endian ?v []) = 6"
    by (simp add: mpw_begin_map_def mpw_begin_arr_def write_lsb_def mpw_str_def mp_append_def str_header_def
        mpw_int64_def mpw_nil_def)
  then have l: "length (mp_put big_endian ?v []) = 6" .
  have "mp_skip big_endian (0 + 1) s = mp_skip big_endian 0 (mv_advance (length (mp_put big_endian ?v [])) s)"
    by (rule msgpack_skip_value [OF big_endian_ok _ at]) (simp, simp only: l, simp)
  then show ?thesis
    using s l by (simp add: mp_skip.simps)
qed

text \<open>
  Strings and binaries survive the round trip for every length the format has, in each of the
  four (three) header sizes; a binary read into a buffer of a wrong size is refused, not truncated.
\<close>

theorem msgpack_bytes_roundtrip:
  assumes "endian_ok E" and "length x < 2 ^ 32"
  shows "(mv_at s (mpw_str E x [] @ rest) \<longrightarrow>
      mp_get_str E s = (Inr x, mv_advance (length (mpw_str E x [])) s)) \<and>
    (mv_at s (mpw_bin E x [] @ rest) \<longrightarrow>
      mp_get_bin E s = (Inr x, mv_advance (length (mpw_bin E x [])) s) \<and>
      fst (mp_get_bin_to E k s) = (if k = length x then Inr x else Inl (Mp_err buf_mismatch)))"
proof (intro conjI impI)
  assume "mv_at s (mpw_str E x [] @ rest)"
  then show "mp_get_str E s = (Inr x, mv_advance (length (mpw_str E x [])) s)"
    using readsD [OF reads_str [OF assms], of s rest] by (simp add: mpw_str_append)
next
  assume "mv_at s (mpw_bin E x [] @ rest)"
  then have at: "mv_at s ((bin_header E (int (length x)) @ x) @ rest)"
    by (simp add: mpw_bin_append)
  then show "mp_get_bin E s = (Inr x, mv_advance (length (mpw_bin E x [])) s)"
    using readsD [OF reads_bin(1) [OF assms], of s rest] by (simp add: mpw_bin_append)
  have "bin_size E s = (Inr (int (length x)), mv_advance (length (bin_header E (int (length x)))) s)"
    using readsD [OF reads_bin_size [OF assms], of s "x @ rest"] at by simp
  then have "fst (mp_get_bin_to E k s) = Inl (Mp_err buf_mismatch)" if "k \<noteq> length x"
    using that by (simp add: mp_get_bin_to_def mp_bind_def mp_fail_def)
  moreover have "fst (mp_get_bin_to E (length x) s) = Inr x"
    using readsD [OF reads_bin(2) [OF assms] at] by simp
  ultimately show "fst (mp_get_bin_to E k s) = (if k = length x then Inr x else Inl (Mp_err buf_mismatch))"
    by auto
qed

theorem msgpack_bytes_roundtrip_witness:
  "\<exists>s. mp_value_new (mpw_str big_endian (replicate 40 65) []) 0 = Some s \<and>
     fst (mp_get_str big_endian s) = Inr (replicate 40 65)"
proof -
  obtain s where s: "mp_value_new (mpw_str big_endian (replicate 40 65) [] @ []) 0 = Some s"
    and at: "mv_at s (mpw_str big_endian (replicate 40 65) [] @ [])"
    using mv_at_new by blast
  have "mp_get_str big_endian s = (Inr (replicate 40 65), mv_advance (length (mpw_str big_endian (replicate 40 65) [])) s)"
    using msgpack_bytes_roundtrip [OF big_endian_ok, of "replicate 40 65" s "[]" 0] at by simp
  then show ?thesis
    using s by simp
qed

text \<open>
  A packed array is read back element by element from the extension the writer makes, whatever
  the element type, and the count in the header is the number of its elements.
\<close>

theorem msgpack_packed_roundtrip:
  assumes "endian_ok E" and "msgpack_packed_arr_of T = Some tag" and "length vs * c_sizeof T + 6 < 2 ^ 32"
    and "\<And>v. v \<in> set vs \<Longrightarrow> c_in T v"
    and "mpw_packed_arr E T (length vs) vs [] = Some b" and "mv_at s (b @ rest)"
  shows "\<exists>s'. mp_packed_arr E T s = (Inr (length vs), s') \<and>
    packed_get_all E T (length vs) s' = (Inr vs, mv_advance (length b) s)"
proof -
  let ?h = "ext_header E (int (length vs * c_sizeof T)) @ [to_byte tag]"
  let ?c = "concat (map (store_xe E T) vs)"
  have T: "T \<noteq> C_bool"
    using assms(2) by auto
  have b: "b = ?h @ ?c"
    using mpw_packed_arr_spec [OF assms(1-3), of "[]"] assms(5) by simp
  then have at: "mv_at s (?h @ (?c @ rest))"
    using assms(6) by simp
  have 1: "mp_packed_arr E T s = (Inr (length vs), mv_advance (length ?h) s)"
    by (rule readsD [OF reads_packed_header [OF assms(1,2)] at]) (use assms(3) in simp)
  have "packed_get_all E T (length vs) (mv_advance (length ?h) s) =
      (Inr vs, mv_advance (length ?c) (mv_advance (length ?h) s))"
    by (rule readsD [OF reads_packed_elements [OF assms(1,4) T] mv_at_advance [OF at]])
  then show ?thesis
    using 1 b by (simp add: mv_advance_add)
qed

theorem msgpack_packed_roundtrip_witness:
  "\<exists>b s s'. mpw_packed_arr big_endian C_int16 2 [- 1, 300] [] = Some b \<and> mp_value_new b 0 = Some s \<and>
     mp_packed_arr big_endian C_int16 s = (Inr 2, s') \<and>
     fst (packed_get_all big_endian C_int16 2 s') = Inr [- 1, 300]"
proof -
  obtain b where b: "mpw_packed_arr big_endian C_int16 (length [- 1, 300::int]) [- 1, 300] [] = Some b"
    using mpw_packed_arr_spec [OF big_endian_ok, of C_int16 65 "[- 1, 300]" "[]"] by auto
  obtain s where s: "mp_value_new (b @ []) 0 = Some s" and at: "mv_at s (b @ [])"
    using mv_at_new by blast
  have "\<exists>s'. mp_packed_arr big_endian C_int16 s = (Inr (length [- 1, 300::int]), s') \<and>
      packed_get_all big_endian C_int16 (length [- 1, 300::int]) s' = (Inr [- 1, 300], mv_advance (length b) s)"
    by (rule msgpack_packed_roundtrip [OF big_endian_ok _ _ _ b at, of 65]) (auto simp: c_in_def c_range_def)
  then show ?thesis
    using b s by (auto simp: numeral_2_eq_2)
qed




lemmas mp_eval =
  mp_arr_loop_iter_def mp_arr_iter_def mp_uint_def mp_bind_def mp_read_def mv_bytes_def mv_advance_def has_more_def
      mp_return_def mp_fail_def loop_new_def loop_next_def loop_start_def u32_inc_def c_cast_def c_value_def c_pattern_def
      c_range_def fmt_defs mp_get_str_def mp_read_bytes_def msgpack_reader_read_def mp_value_new_def
      mp_skip.simps skip_item_def mp_return_def tag_defs sz_add_def Let_def

text \<open>
  Reading a variant dispatches on the tag before anything is consumed. For an alternative
  \<open>int64_t\<close> it accepts exactly the integers from -32 up: a smaller negative number, which the
  writer tags \<open>negi8\<close> to \<open>negi64\<close> and which \<open>int_\<close> reads, is refused as \<open>tag_mismatch\<close>, because
  the test compares the tag with the range of the positive tags only.
\<close>

theorem msgpack_variant_refuses_negative:
  assumes "endian_ok E" and "c_in C_int64 v" and "mv_at s (mpw_int64 E v [] @ rest)"
  shows "fst (get_jval_matched_type [J_null, J_arith C_int64] s) =
      (if - 32 \<le> v then Inr 1 else Inl (Mp_err tag_mismatch)) \<and>
    fst (mp_int E C_int64 s) = Inr v"
proof -
  have b: "- (2 ^ 63) \<le> v" "v < 2 ^ 63"
    using assms(2) by (simp_all add: c_in_def c_range_def)
  have at: "mv_at s (mp_int_enc E v @ rest)"
    using mpw_signed(4) [OF b, of E "[]"] assms(3) by simp
  define t where "t = (if - 32 \<le> v \<and> v < 0 then v + 256 else if 0 \<le> v \<and> v < 128 then v
      else if v < 0
         then (if - 128 \<le> v then 0xd0 else if - 32768 \<le> v then 0xd1
               else if - 2147483648 \<le> v then 0xd2 else 0xd3)
         else (if v < 256 then 0xcc else if v < 65536 then 0xcd
               else if v < 4294967296 then 0xce else 0xcf))"
  have "\<exists>bs. mp_int_enc E v = to_byte t # bs"
  proof (cases "- 32 \<le> v \<and> v < 128")
    case True
    then show ?thesis
      using to_byte_neg [of v] by (auto simp: mp_int_enc_def t_def)
  next
    case False
    then show ?thesis
      by (auto simp: mp_int_enc_def mp_header_def t_def fmt_defs)
  qed
  then obtain bs where "mp_int_enc E v = to_byte t # bs"
    by blast
  then have at': "mv_at s ([to_byte t] @ (bs @ rest))"
    using at by simp
  have t: "0 \<le> t" "t < 256"
    by (auto simp: t_def)
  have "mp_peek_uint8 s = (Inr t, s)"
    using mv_at_bytes [OF at'] mv_at_length [OF at'] at' to_byte_uint [OF t]
    by (simp add: mp_peek_uint8_def mv_at_def)
  moreover have "first_index (type_matches t) [J_null, J_arith C_int64] = (if - 32 \<le> v then Some 1 else None)"
    using b by (auto simp: t_def fmt_defs tag_defs)
  ultimately have "fst (get_jval_matched_type [J_null, J_arith C_int64] s) =
      (if - 32 \<le> v then Inr 1 else Inl (Mp_err tag_mismatch))"
    by (auto simp: get_jval_matched_type_def mp_bind_def mp_return_def mp_fail_def)
  moreover have "fst (mp_int E C_int64 s) = Inr v"
    using readsD [OF reads_int [OF assms(1) _ assms(2)] at] by simp
  ultimately show ?thesis
    by simp
qed

theorem msgpack_variant_refuses_negative_witness:
  "\<exists>s. mp_value_new (mpw_int64 big_endian (- 100) []) 0 = Some s \<and>
     fst (get_jval_matched_type [J_null, J_arith C_int64] s) = Inl (Mp_err tag_mismatch) \<and>
     fst (mp_int big_endian C_int64 s) = Inr (- 100)"
proof -
  obtain s where s: "mp_value_new (mpw_int64 big_endian (- 100) [] @ []) 0 = Some s"
    and at: "mv_at s (mpw_int64 big_endian (- 100) [] @ [])"
    using mv_at_new by blast
  have "c_in C_int64 (- 100)"
    by (simp add: c_in_def c_range_def)
  from msgpack_variant_refuses_negative [OF big_endian_ok this at] show ?thesis
    using s by simp
qed

text \<open>
  Walking with the looping iterator over small unsigned numbers: \<open>Some\<close> a number read, \<open>None\<close> where
  \<open>next\<close> ended a loop and a new one was started.
\<close>

fun loop_walk :: "nat \<Rightarrow> loop_iterator \<Rightarrow> msgpack_value \<Rightarrow> int option list" where
  "loop_walk 0 it s = []"
| "loop_walk (Suc n) it s =
     (case loop_next it s of
        (True, it1, s1) \<Rightarrow>
          (case mp_uint big_endian C_uint8 s1 of
             (Inr v, s2) \<Rightarrow> Some v # loop_walk n it1 s2
           | (Inl e, s2) \<Rightarrow> [])
      | (False, it1, s1) \<Rightarrow> None # loop_walk n (loop_start it1) s1)"

lemma loop_walk_numeral:
  "loop_walk (numeral k) it s =
     (case loop_next it s of
        (True, it1, s1) \<Rightarrow>
          (case mp_uint big_endian C_uint8 s1 of
             (Inr v, s2) \<Rightarrow> Some v # loop_walk (pred_numeral k) it1 s2
           | (Inl e, s2) \<Rightarrow> [])
      | (False, it1, s1) \<Rightarrow> None # loop_walk (pred_numeral k) (loop_start it1) s1)"
  by (simp add: numeral_eq_Suc)

text \<open>
  The looping iterator, which starts over at the first element when it has passed the last one,
  does so once only: after starting over it has consumed an element that its position does not
  count, so in the third loop over two elements it runs past the last one (here to the byte 99 after
  the array).
\<close>

theorem msgpack_loop_iterator_overruns:
  "case mp_arr_loop_iter big_endian \<lparr>mv_buf = [0x92, 1, 2, 99], mv_p = 0, mv_e = 4\<rparr> of
     (Inr it, s) \<Rightarrow>
       loop_walk 9 it s = [Some 1, Some 2, None, Some 1, Some 2, None, Some 99, Some 1, None]
   | (Inl e, s) \<Rightarrow> False"
  by (simp add: mp_eval loop_walk_numeral)

text \<open>
  With an offset, the end of the reader lies that much behind the end of the buffer: reading
  a 16-bit number of which one byte is there is then not \<open>not_enough_input_to_read\<close> but a read
  outside the buffer, where the reader without an offset reports the error.
\<close>

theorem msgpack_offset_reads_outside:
  "map_option (\<lambda>s. fst (mp_uint big_endian C_uint16 s)) (mp_value_new [0xc0, 0xcd, 1] 1) = Some (Inl Out_of_bounds) \<and>
   map_option (\<lambda>s. fst (mp_uint big_endian C_uint16 s)) (mp_value_new [0xcd, 1] 0) =
     Some (Inl (Mp_err not_enough_input_to_read))"
  by code_simp

text \<open>
  \<open>skip\<close> does not check that a payload is there: a string of 31 announced bytes of which none is
  present is skipped with success, and the reader reports an offset far behind its input.
\<close>

theorem msgpack_skip_accepts_truncated:
  "msgpack_reader_read [0xbf] (mp_skip big_endian 1) 0 = Some (Inr 32) \<and>
   map_option (\<lambda>s. fst (mp_get_str big_endian s)) (mp_value_new [0xbf] 0) =
     Some (Inl (Mp_err not_enough_input_to_read))"
  by (simp add: mp_eval)

text \<open>
  Copying a packed array into a buffer that is smaller than the array, which the assertion in
  \<open>memcpy_to\<close> allows, copies the whole array: out of the bounds of the buffer, for any element type
  and whenever the input is there.
\<close>

theorem msgpack_memcpy_overflows:
  assumes "k < n" and "has_more (n * c_sizeof T) s" and "mv_e s \<le> length (mv_buf s)"
  shows "fst (packed_memcpy_to T n k s) = Inl Out_of_bounds"
proof -
  have "length (take (n * c_sizeof T) (drop (mv_p s) (mv_buf s))) = n * c_sizeof T"
    using assms by (simp add: has_more_def)
  moreover have "k * c_sizeof T < n * c_sizeof T"
    using assms(1) by (cases T) simp_all
  ultimately show ?thesis
    using assms(2,3) by (simp add: packed_memcpy_to_def mp_bind_def mp_read_bytes_def mv_bytes_def has_more_def)
qed

theorem msgpack_memcpy_overflows_witness:
  "fst (packed_memcpy_to C_uint16 2 1 \<lparr>mv_buf = [1, 2, 3, 4], mv_p = 0, mv_e = 4\<rparr>) = Inl Out_of_bounds"
  by (rule msgpack_memcpy_overflows) (simp_all add: has_more_def)

end
