(* ===== verification/Countdown.thy ===== *)
theory Countdown
  imports Prelude
begin

text \<open>
  The counter by which the operations that run several others find out which of them finishes last:
  \<open>atomic_ref(_n).fetch_sub(1) == 1\<close> in \<open>include/dsk/until.hpp\<close> and
  \<open>_n.fetch_add(1) == size\<close> in \<open>include/dsk/async_op_group.hpp\<close>. The locale states what their
  clients rely on: of the arrivals at a counter, exactly the last one is told so.

  The theory also has the state of the operations that are run (the children).
\<close>

section \<open>The interface\<close>

locale countdown =
  fixes arrive :: "'s \<Rightarrow> bool \<times> 's"
    and pending :: "'s \<Rightarrow> nat"
  assumes arrive_last: "0 < pending s \<Longrightarrow> fst (arrive s) \<longleftrightarrow> pending s = 1"
    and arrive_counts: "0 < pending s \<Longrightarrow> pending (snd (arrive s)) = pending s - 1"
begin

text \<open>What the first \<open>n\<close> arrivals are told.\<close>

primrec told :: "nat \<Rightarrow> 's \<Rightarrow> bool list" where
  "told 0 s = []"
| "told (Suc n) s = (case arrive s of (l, s') \<Rightarrow> l # told n s')"

lemma told_before: "n < pending s \<Longrightarrow> told n s = replicate n False"
proof (induction n arbitrary: s)
  case 0
  then show ?case by simp
next
  case (Suc n)
  then show ?case
    using arrive_last [of s] arrive_counts [of s] by (cases "arrive s") auto
qed

lemma told_all: "0 < pending s \<Longrightarrow> told (pending s) s = replicate (pending s - 1) False @ [True]"
proof (induction "pending s" arbitrary: s)
  case 0
  then show ?case by simp
next
  case (Suc n)
  have ps: "pending s = Suc n"
    using Suc.hyps(2) by simp
  obtain l s' where a: "arrive s = (l, s')"
    by fastforce
  have p: "pending s' = n" "l \<longleftrightarrow> n = 0"
    using arrive_last [of s] arrive_counts [of s] a ps by simp_all
  show ?case
  proof (cases "n = 0")
    case True
    then show ?thesis
      unfolding ps using a p by simp
  next
    case False
    then have "told n s' = replicate (n - 1) False @ [True]"
      using Suc.hyps(1) [of s'] p by simp
    then show ?thesis
      unfolding ps using a p by (cases n) simp_all
  qed
qed

end

section \<open>The two counters\<close>

text \<open>\<open>fetch_sub(1) == 1\<close> on a counter that starts at the number of children.\<close>

definition sub_arrive :: "int \<Rightarrow> bool \<times> int" where
  "sub_arrive n = (n = 1, n - 1)"

definition sub_pending :: "int \<Rightarrow> nat" where
  "sub_pending n = nat n"

interpretation cd_sub: countdown sub_arrive sub_pending
  by unfold_locales (auto simp: sub_arrive_def sub_pending_def)

text \<open>\<open>fetch_add(1) == size\<close> on a counter that starts at 1; the state is the size and the counter.\<close>

definition add_arrive :: "int \<times> int \<Rightarrow> bool \<times> int \<times> int" where
  "add_arrive x = (case x of (sz, n) \<Rightarrow> (n = sz, sz, n + 1))"

definition add_pending :: "int \<times> int \<Rightarrow> nat" where
  "add_pending x = (case x of (sz, n) \<Rightarrow> nat (sz + 1 - n))"

interpretation cd_add: countdown add_arrive add_pending
  by unfold_locales (auto simp: add_arrive_def add_pending_def split: prod.splits)

section \<open>Children\<close>

text \<open>
  A child has not been initiated, runs, or has finished with a result. A finished child has come to
  one of three points of its completion handler: it has evaluated the cancel condition (and knows
  whether its own \<open>request_stop()\<close> was the one that took effect), it has recorded that, it has been
  counted.
\<close>

datatype 'r child =
    Ch_idle
  | Ch_running
  | Ch_judged 'r bool
  | Ch_noted 'r
  | Ch_done 'r

fun ch_result :: "'r child \<Rightarrow> 'r option" where
  "ch_result (Ch_judged r w) = Some r"
| "ch_result (Ch_noted r) = Some r"
| "ch_result (Ch_done r) = Some r"
| "ch_result _ = None"

definition ch_done :: "'r child \<Rightarrow> bool" where
  "ch_done c = (case c of Ch_done r \<Rightarrow> True | _ \<Rightarrow> False)"

lemma ch_done_simps [simp]:
  "\<not> ch_done Ch_idle" "\<not> ch_done Ch_running" "\<not> ch_done (Ch_judged r w)" "\<not> ch_done (Ch_noted r)"
  "ch_done (Ch_done r)"
  by (simp_all add: ch_done_def)

lemma ch_done_result: "ch_done c \<Longrightarrow> c = Ch_done (the (ch_result c))"
  by (cases c) simp_all

text \<open>The children that are still to be counted.\<close>

definition ch_open :: "'r child list \<Rightarrow> nat" where
  "ch_open cs = length (filter (\<lambda>c. \<not> ch_done c) cs)"

lemma ch_open_update:
  assumes "i < length cs" and "\<not> ch_done (cs ! i)"
  shows "ch_open cs = (if ch_done c then Suc (ch_open (cs[i := c])) else ch_open (cs[i := c]))"
proof -
  have s: "cs = take i cs @ cs ! i # drop (Suc i) cs"
    using assms(1) by (rule id_take_nth_drop)
  have u: "cs[i := c] = take i cs @ c # drop (Suc i) cs"
    using assms(1) by (rule upd_conv_take_nth_drop)
  have o1: "ch_open cs = length (filter (\<lambda>c. \<not> ch_done c) (take i cs)) +
      Suc (length (filter (\<lambda>c. \<not> ch_done c) (drop (Suc i) cs)))"
    unfolding ch_open_def using assms(2) by (subst s) simp
  moreover have "ch_open (cs[i := c]) = length (filter (\<lambda>c. \<not> ch_done c) (take i cs)) +
      (if ch_done c then 0 else 1) + length (filter (\<lambda>c. \<not> ch_done c) (drop (Suc i) cs))"
    unfolding ch_open_def u by simp
  ultimately show "ch_open cs = (if ch_done c then Suc (ch_open (cs[i := c])) else ch_open (cs[i := c]))"
    by simp
qed

lemma ch_open_pos: "i < length cs \<Longrightarrow> \<not> ch_done (cs ! i) \<Longrightarrow> 0 < ch_open cs"
  using nth_mem [of i cs] by (force simp: ch_open_def filter_empty_conv)

lemma ch_open_zero: "ch_open cs = 0 \<longleftrightarrow> (\<forall>c \<in> set cs. ch_done c)"
  by (simp add: ch_open_def filter_empty_conv)

text \<open>What is left to do for the children, in steps.\<close>

fun ch_cost :: "'r child \<Rightarrow> nat" where
  "ch_cost Ch_idle = 4"
| "ch_cost Ch_running = 3"
| "ch_cost (Ch_judged r w) = 2"
| "ch_cost (Ch_noted r) = 1"
| "ch_cost (Ch_done r) = 0"

definition ch_work :: "'r child list \<Rightarrow> nat" where
  "ch_work cs = sum_list (map ch_cost cs)"

lemma ch_work_update: "i < length cs \<Longrightarrow> ch_work (cs[i := c]) + ch_cost (cs ! i) = ch_work cs + ch_cost c"
  unfolding ch_work_def by (rule sum_list_update_nat)

lemma ch_work_less: "i < length cs \<Longrightarrow> ch_cost c < ch_cost (cs ! i) \<Longrightarrow> ch_work (cs[i := c]) < ch_work cs"
  using ch_work_update [of i cs c] by simp

lemma ch_work_zero:
  fixes cs :: "'r child list"
  shows "ch_work cs = 0 \<longleftrightarrow> ch_open cs = 0"
proof -
  have "ch_cost c = 0 \<longleftrightarrow> ch_done c" for c :: "'r child"
    by (cases c) simp_all
  then show ?thesis
    by (simp add: ch_work_def ch_open_zero)
qed

text \<open>The child the initiating loop comes to next: \<open>uforeach\<close> runs through them in order.\<close>

definition next_idle :: "'r child list \<Rightarrow> nat option" where
  "next_idle cs =
     (let n = length (takeWhile (\<lambda>c. case c of Ch_idle \<Rightarrow> False | _ \<Rightarrow> True) cs) in
      if n < length cs then Some n else None)"

lemma next_idle_Some: "next_idle cs = Some i \<Longrightarrow> i < length cs \<and> cs ! i = Ch_idle"
  using nth_length_takeWhile [of "\<lambda>c. case c of Ch_idle \<Rightarrow> False | _ \<Rightarrow> True" cs]
  by (auto simp: next_idle_def Let_def split: if_splits child.splits)

lemma next_idle_None: "next_idle cs = None \<longleftrightarrow> Ch_idle \<notin> set cs"
proof -
  let ?P = "\<lambda>c. case c of Ch_idle \<Rightarrow> False | _ \<Rightarrow> True"
  have "length (takeWhile ?P cs) = length cs \<longleftrightarrow> (\<forall>c \<in> set cs. ?P c)"
    by (induction cs) auto
  moreover have "(\<forall>c \<in> set cs. ?P c) \<longleftrightarrow> Ch_idle \<notin> set cs"
    by (auto split: child.splits)
  ultimately show ?thesis
    using length_takeWhile_le [of ?P cs] by (auto simp: next_idle_def Let_def)
qed

end
