(* ===== verification/Until.thy ===== *)
theory Until
  imports Err Countdown
begin

text \<open>
  The operations that run other operations, \<open>include/dsk/until.hpp\<close>: \<open>until_all_done_op\<close>,
  \<open>until_if_op\<close> (behind \<open>until_first\<close>, \<open>until_first_done\<close>, \<open>until_first_succeeded\<close>,
  \<open>until_first_failed\<close>, \<open>until_all_succeeded\<close>) and \<open>seq_until_if_op\<close>.

  The children are operations of any kind: all that matters is that a child, once initiated, finishes
  with a result, at once or later, on any thread. A run is a sequence of events: the initiating loop
  takes its next child, a running child finishes, a finished child takes the next step of its
  completion handler, stop is requested from outside. The steps of a handler are the accesses to
  what the children share (\<open>_opSs\<close>, \<open>_firstIdx\<close>, \<open>_n\<close>), so any interleaving of the threads is
  a sequence of events. An event that cannot happen in a state gives \<open>None\<close>.

  A tuple and a range of the same size behave alike; \<open>_n\<close>, an \<open>int\<close>, is unbounded here. Resuming
  the continuation is counted by \<open>ua_resumed\<close>, \<open>uf_resumed\<close> and \<open>sq_resumed\<close>.
\<close>

section \<open>Until all done\<close>

record 'r until_all =
  ua_ops :: "'r child list"
  ua_err :: "errc option"
  ua_n :: int
  ua_cont :: bool
  ua_started :: bool
  ua_resumed :: nat

definition ua_new :: "nat \<Rightarrow> 'r until_all" where
  "ua_new n = \<lparr>ua_ops = replicate n Ch_idle, ua_err = None, ua_n = int n, ua_cont = False,
     ua_started = False, ua_resumed = 0\<rparr>"

text \<open>
  \<open>initiate\<close> up to the initiation of the first child; \<open>False\<close> when finished at once. The
  continuation is kept in \<open>_cont\<close> for two or more children, else passed to the child.
\<close>

definition ua_initiate :: "bool \<Rightarrow> 'r until_all \<Rightarrow> bool \<times> 'r until_all" where
  "ua_initiate stopReq s =
     (if stopReq then (False, s\<lparr>ua_err := Some errc_canceled\<rparr>)
      else if length (ua_ops s) \<le> 1 then (True, s\<lparr>ua_started := True\<rparr>)
      else (True, s\<lparr>ua_cont := True, ua_started := True\<rparr>))"

text \<open>The completion handler of a child.\<close>

definition ua_child_done :: "nat \<Rightarrow> 'r \<Rightarrow> 'r until_all \<Rightarrow> 'r until_all" where
  "ua_child_done i r s =
     (let s1 = s\<lparr>ua_ops := (ua_ops s)[i := Ch_done r]\<rparr> in
      if length (ua_ops s) = 1 then s1\<lparr>ua_resumed := Suc (ua_resumed s1)\<rparr>
      else
        (case sub_arrive (ua_n s1) of
           (lst, n) \<Rightarrow>
             if lst then s1\<lparr>ua_n := n, ua_cont := False, ua_resumed := Suc (ua_resumed s1)\<rparr>
             else s1\<lparr>ua_n := n\<rparr>))"

datatype 'r ua_event = Ua_start | Ua_finish nat 'r

fun ua_step :: "'r ua_event \<Rightarrow> 'r until_all \<Rightarrow> 'r until_all option" where
  "ua_step Ua_start s =
     (if ua_started s
      then map_option (\<lambda>i. s\<lparr>ua_ops := (ua_ops s)[i := Ch_running]\<rparr>) (next_idle (ua_ops s))
      else None)"
| "ua_step (Ua_finish i r) s =
     (if i < length (ua_ops s) \<and> ua_ops s ! i = Ch_running then Some (ua_child_done i r s) else None)"

fun ua_exec :: "'r ua_event list \<Rightarrow> 'r until_all \<Rightarrow> 'r until_all option" where
  "ua_exec [] s = Some s"
| "ua_exec (ev # evs) s = (case ua_step ev s of None \<Rightarrow> None | Some s' \<Rightarrow> ua_exec evs s')"

definition ua_is_failed :: "'r until_all \<Rightarrow> bool" where
  "ua_is_failed s = has_err_code (ua_err s)"

definition ua_take_result :: "'r until_all \<Rightarrow> errc + 'r list" where
  "ua_take_result s = gen_expected_if_no (ua_err s) (\<lambda>_. map (\<lambda>c. the (ch_result c)) (ua_ops s))"

section \<open>Until a condition holds\<close>

text \<open>
  \<open>uf_first\<close> tells \<open>until_first_take_first_founded\<close> from \<open>until_first_take_all_if_not_found\<close>,
  \<open>uf_value\<close> \<open>result_value_cat\<close> from \<open>result_cat\<close>. \<open>uf_stop\<close> is the state of \<open>_opSs\<close>,
  \<open>uf_scb\<close> whether the stop callback of the outer context is set.
\<close>

record 'r until_if =
  uf_first :: bool
  uf_value :: bool
  uf_cond :: "'r \<Rightarrow> bool"
  uf_ops :: "'r child list"
  uf_err :: "errc option"
  uf_firstIdx :: int
  uf_n :: int
  uf_cont :: bool
  uf_stop :: bool
  uf_scb :: bool
  uf_started :: bool
  uf_resumed :: nat

definition uf_new :: "bool \<Rightarrow> bool \<Rightarrow> ('r \<Rightarrow> bool) \<Rightarrow> nat \<Rightarrow> 'r until_if" where
  "uf_new first value cond n =
     \<lparr>uf_first = first, uf_value = value, uf_cond = cond, uf_ops = replicate n Ch_idle,
      uf_err = None, uf_firstIdx = - 1, uf_n = int n, uf_cont = False, uf_stop = False,
      uf_scb = False, uf_started = False, uf_resumed = 0\<rparr>"

text \<open>The four ready-made conditions, on children whose result is an \<open>expected\<close>.\<close>

definition until_first_done :: "nat \<Rightarrow> (errc + 't) until_if" where
  "until_first_done n = uf_new True False (\<lambda>_. True) n"

definition until_first_succeeded :: "nat \<Rightarrow> (errc + 't) until_if" where
  "until_first_succeeded n = uf_new True True (\<lambda>r. \<not> has_err r) n"

definition until_first_failed :: "nat \<Rightarrow> (errc + 't) until_if" where
  "until_first_failed n = uf_new True False has_err n"

definition until_all_succeeded :: "nat \<Rightarrow> (errc + 't) until_if" where
  "until_all_succeeded n = uf_new False True has_err n"

definition set_err_from_first_idx :: "'r until_if \<Rightarrow> 'r until_if" where
  "set_err_from_first_idx s =
     (if uf_first s
      then (if uf_firstIdx s < 0 then s\<lparr>uf_err := Some errc_not_found\<rparr> else s)
      else (if uf_firstIdx s \<ge> 0 then s\<lparr>uf_err := Some errc_failed\<rparr> else s))"

definition uf_initiate :: "bool \<Rightarrow> bool \<Rightarrow> 'r until_if \<Rightarrow> bool \<times> 'r until_if" where
  "uf_initiate stopReq stopPoss s =
     (if stopReq then (False, s\<lparr>uf_err := Some errc_canceled\<rparr>)
      else if length (uf_ops s) \<le> 1 then (True, s\<lparr>uf_started := True\<rparr>)
      else (True, s\<lparr>uf_cont := True, uf_stop := False, uf_scb := stopPoss, uf_started := True\<rparr>))"

text \<open>
  The handler of an only child, and the three steps of the handler of one of several: the condition
  and \<open>request_stop()\<close>, the index, the counter.
\<close>

definition uf_only_child :: "'r \<Rightarrow> 'r until_if \<Rightarrow> 'r until_if" where
  "uf_only_child r s =
     (let s1 = s\<lparr>uf_ops := (uf_ops s)[0 := Ch_done r]\<rparr>;
          s2 = (if uf_cond s r then s1\<lparr>uf_firstIdx := 0\<rparr> else s1);
          s3 = set_err_from_first_idx s2
      in s3\<lparr>uf_resumed := Suc (uf_resumed s3)\<rparr>)"

definition uf_judge :: "nat \<Rightarrow> 'r \<Rightarrow> 'r until_if \<Rightarrow> 'r until_if" where
  "uf_judge i r s =
     (if uf_cond s r
      then s\<lparr>uf_ops := (uf_ops s)[i := Ch_judged r (\<not> uf_stop s)], uf_stop := True\<rparr>
      else s\<lparr>uf_ops := (uf_ops s)[i := Ch_judged r False]\<rparr>)"

definition uf_note :: "nat \<Rightarrow> 'r \<Rightarrow> bool \<Rightarrow> 'r until_if \<Rightarrow> 'r until_if" where
  "uf_note i r won s =
     (let s1 = s\<lparr>uf_ops := (uf_ops s)[i := Ch_noted r]\<rparr>
      in if won then s1\<lparr>uf_firstIdx := int i\<rparr> else s1)"

definition uf_count :: "nat \<Rightarrow> 'r \<Rightarrow> 'r until_if \<Rightarrow> 'r until_if" where
  "uf_count i r s =
     (let s1 = s\<lparr>uf_ops := (uf_ops s)[i := Ch_done r]\<rparr> in
      case sub_arrive (uf_n s1) of
        (lst, n) \<Rightarrow>
          if lst
          then (let s2 = set_err_from_first_idx (s1\<lparr>uf_n := n\<rparr>)
                in s2\<lparr>uf_cont := False, uf_resumed := Suc (uf_resumed s2)\<rparr>)
          else s1\<lparr>uf_n := n\<rparr>)"

datatype 'r uf_event = Uf_start | Uf_finish nat 'r | Uf_note nat | Uf_count nat | Uf_outer_stop

fun uf_step :: "'r uf_event \<Rightarrow> 'r until_if \<Rightarrow> 'r until_if option" where
  "uf_step Uf_start s =
     (if uf_started s
      then map_option (\<lambda>i. s\<lparr>uf_ops := (uf_ops s)[i := Ch_running]\<rparr>) (next_idle (uf_ops s))
      else None)"
| "uf_step (Uf_finish i r) s =
     (if i < length (uf_ops s) \<and> uf_ops s ! i = Ch_running
      then Some (if length (uf_ops s) = 1 then uf_only_child r s else uf_judge i r s)
      else None)"
| "uf_step (Uf_note i) s =
     (if i < length (uf_ops s)
      then (case uf_ops s ! i of Ch_judged r won \<Rightarrow> Some (uf_note i r won s) | _ \<Rightarrow> None)
      else None)"
| "uf_step (Uf_count i) s =
     (if i < length (uf_ops s)
      then (case uf_ops s ! i of Ch_noted r \<Rightarrow> Some (uf_count i r s) | _ \<Rightarrow> None)
      else None)"
| "uf_step Uf_outer_stop s =
     (if uf_scb s \<and> uf_resumed s = 0 then Some (s\<lparr>uf_stop := True\<rparr>) else None)"

fun uf_exec :: "'r uf_event list \<Rightarrow> 'r until_if \<Rightarrow> 'r until_if option" where
  "uf_exec [] s = Some s"
| "uf_exec (ev # evs) s = (case uf_step ev s of None \<Rightarrow> None | Some s' \<Rightarrow> uf_exec evs s')"

definition uf_is_failed :: "'r until_if \<Rightarrow> bool" where
  "uf_is_failed s = has_err_code (uf_err s)"

text \<open>
  \<open>take<result_cat>\<close> and \<open>take<result_value_cat>\<close>: the latter dereferences the result, which is
  undefined when it holds an error.
\<close>

datatype 't taken = Taken_result "errc + 't" | Taken_value 't | Taken_undefined

fun take_op :: "bool \<Rightarrow> errc + 't \<Rightarrow> 't taken" where
  "take_op False r = Taken_result r"
| "take_op True (Inr v) = Taken_value v"
| "take_op True (Inl e) = Taken_undefined"

datatype 't until_result =
    Until_nothing
  | Until_first "'t taken" nat
  | Until_all "'t taken list"

text \<open>\<open>take_result\<close>; \<open>None\<close> when its assertion on \<open>_firstIdx\<close> fails.\<close>

definition uf_take_result :: "(errc + 't) until_if \<Rightarrow> errc + 't until_result option" where
  "uf_take_result s =
     (let tk = (\<lambda>c. take_op (uf_value s) (the (ch_result c))) in
      if uf_first s
      then
        (if uf_ops s = []
         then make_expected_if_no (uf_err s) (if uf_firstIdx s = - 1 then Some Until_nothing else None)
         else gen_expected_if_no (uf_err s)
                (\<lambda>_. if uf_firstIdx s \<ge> 0
                      then Some (Until_first (tk (uf_ops s ! nat (uf_firstIdx s))) (nat (uf_firstIdx s)))
                      else None))
      else gen_expected_if_no (uf_err s)
             (\<lambda>_. if uf_firstIdx s = - 1 then Some (Until_all (map tk (uf_ops s))) else None))"

section \<open>In sequence until a condition holds\<close>

record 'r seq_until =
  sq_cond :: "'r \<Rightarrow> bool"
  sq_ops :: "'r child list"
  sq_idx :: nat
  sq_resumed :: nat
  sq_ok :: bool

definition sq_new :: "('r \<Rightarrow> bool) \<Rightarrow> nat \<Rightarrow> 'r seq_until" where
  "sq_new cond n = \<lparr>sq_cond = cond, sq_ops = replicate n Ch_idle, sq_idx = 0, sq_resumed = 0, sq_ok = True\<rparr>"

definition seq_until_succeeded :: "nat \<Rightarrow> (errc + 't) seq_until" where
  "seq_until_succeeded n = sq_new (\<lambda>r. \<not> has_err r) n"

definition seq_until_failed :: "nat \<Rightarrow> (errc + 't) seq_until" where
  "seq_until_failed n = sq_new has_err n"

definition sq_initiate :: "'r seq_until \<Rightarrow> 'r seq_until" where
  "sq_initiate s = s\<lparr>sq_ok := sq_ok s \<and> sq_idx s = 0, sq_ops := (sq_ops s)[0 := Ch_running]\<rparr>"

text \<open>The child at \<open>_idx\<close> finishes: resume, or initiate the next child.\<close>

definition sq_finish :: "'r \<Rightarrow> 'r seq_until \<Rightarrow> 'r seq_until option" where
  "sq_finish r s =
     (if sq_idx s < length (sq_ops s) \<and> sq_ops s ! sq_idx s = Ch_running
      then
        (let s1 = s\<lparr>sq_ops := (sq_ops s)[sq_idx s := Ch_done r]\<rparr> in
         if sq_idx s + 1 = length (sq_ops s) \<or> sq_cond s r
         then Some (s1\<lparr>sq_resumed := Suc (sq_resumed s)\<rparr>)
         else Some (s1\<lparr>sq_idx := Suc (sq_idx s),
                      sq_ops := (sq_ops s1)[Suc (sq_idx s) := Ch_running]\<rparr>))
      else None)"

fun sq_exec :: "'r list \<Rightarrow> 'r seq_until \<Rightarrow> 'r seq_until option" where
  "sq_exec [] s = Some s"
| "sq_exec (r # rs) s = (case sq_finish r s of None \<Rightarrow> None | Some s' \<Rightarrow> sq_exec rs s')"

definition sq_is_failed :: "(errc + 't) seq_until \<Rightarrow> bool" where
  "sq_is_failed s = (case ch_result (sq_ops s ! sq_idx s) of None \<Rightarrow> False | Some r \<Rightarrow> has_err r)"

definition sq_take_result :: "'r seq_until \<Rightarrow> 'r option" where
  "sq_take_result s = ch_result (sq_ops s ! sq_idx s)"

section \<open>Until all done: invariant\<close>

definition ua_inv :: "'r until_all \<Rightarrow> bool" where
  "ua_inv s \<longleftrightarrow>
     (length (ua_ops s) > 1 \<longrightarrow> ua_n s = int (ch_open (ua_ops s))) \<and>
     ua_resumed s = (if ua_ops s \<noteq> [] \<and> ch_open (ua_ops s) = 0 then 1 else 0) \<and>
     ua_started s \<and> ua_err s = None \<and>
     (\<forall>c \<in> set (ua_ops s). c = Ch_idle \<or> c = Ch_running \<or> ch_done c)"

lemma ch_open_replicate: "ch_open (replicate n Ch_idle) = n"
  by (simp add: ch_open_def)

lemma ua_inv_initiate: "ua_initiate False (ua_new n) = (b, s) \<Longrightarrow> b \<and> ua_inv s \<and> ua_ops s = replicate n Ch_idle"
  by (auto simp: ua_initiate_def ua_new_def ua_inv_def ch_open_replicate split: if_splits)

lemma ua_step_inv:
  assumes "ua_inv s" and "ua_step ev s = Some s'"
  shows "ua_inv s' \<and> length (ua_ops s') = length (ua_ops s)"
proof (cases ev)
  case Ua_start
  then obtain i where i: "next_idle (ua_ops s) = Some i" "s' = s\<lparr>ua_ops := (ua_ops s)[i := Ch_running]\<rparr>"
    using assms(2) by (auto split: if_splits)
  note n = next_idle_Some [OF i(1)]
  have "ch_open ((ua_ops s)[i := Ch_running]) = ch_open (ua_ops s)" "0 < ch_open (ua_ops s)"
    using ch_open_update [where i = i and cs = "ua_ops s" and c = Ch_running] ch_open_pos [of i "ua_ops s"] n
    by simp_all
  then show ?thesis
    using assms(1) i n set_update_subset_insert [of "ua_ops s" i Ch_running] by (auto simp: ua_inv_def)
next
  case (Ua_finish i r)
  then have n: "i < length (ua_ops s)" "ua_ops s ! i = Ch_running" and s': "s' = ua_child_done i r s"
    using assms(2) by (auto split: if_splits)
  have o: "ch_open (ua_ops s) = Suc (ch_open ((ua_ops s)[i := Ch_done r]))"
    using ch_open_update [where i = i and cs = "ua_ops s" and c = "Ch_done r"] n by simp
  have c: "\<forall>c \<in> set ((ua_ops s)[i := Ch_done r]). c = Ch_idle \<or> c = Ch_running \<or> ch_done c"
    using assms(1) set_update_subset_insert [of "ua_ops s" i "Ch_done r"] by (auto simp: ua_inv_def)
  show ?thesis
  proof (cases "length (ua_ops s) = 1")
    case True
    then have "ch_open (ua_ops s) \<le> 1"
      unfolding ch_open_def by (metis length_filter_le)
    then show ?thesis
      using assms(1) s' o c True n by (auto simp: ua_inv_def ua_child_done_def Let_def)
  next
    case False
    then have m: "ua_n s = int (ch_open (ua_ops s))" and p: "sub_pending (ua_n s) = ch_open (ua_ops s)"
      using assms(1) n(1) by (simp_all add: ua_inv_def sub_pending_def)
    obtain lst m' where a: "sub_arrive (ua_n s) = (lst, m')"
      by fastforce
    have l: "lst \<longleftrightarrow> ch_open ((ua_ops s)[i := Ch_done r]) = 0" and m': "m' = int (ch_open ((ua_ops s)[i := Ch_done r]))"
      using cd_sub.arrive_last [of "ua_n s"] a p o m by (simp_all add: sub_arrive_def)
    have r: "ua_resumed s = 0"
      using assms(1) o by (simp add: ua_inv_def)
    have f: "ua_ops s' = (ua_ops s)[i := Ch_done r]" "ua_n s' = m'" "ua_resumed s' = (if lst then 1 else 0)"
      "ua_started s' = ua_started s" "ua_err s' = ua_err s"
      using s' a r False by (auto simp: ua_child_done_def Let_def)
    have "ua_ops s \<noteq> []"
      using n(1) by auto
    then show ?thesis
      using assms(1) f l m' c by (simp add: ua_inv_def)
  qed
qed

lemma ua_exec_inv: "ua_exec evs s = Some s' \<Longrightarrow> ua_inv s \<Longrightarrow> ua_inv s' \<and> length (ua_ops s') = length (ua_ops s)"
proof (induction evs s rule: ua_exec.induct)
  case (1 s)
  then show ?case by simp
next
  case (2 ev evs s)
  then show ?case
    using ua_step_inv [of s ev] by (auto split: option.splits)
qed

text \<open>What is left to do: two steps for a child that has not been initiated, one for a running one.\<close>

fun ua_cost :: "'r child \<Rightarrow> nat" where
  "ua_cost Ch_idle = 2"
| "ua_cost Ch_running = 1"
| "ua_cost _ = 0"

definition ua_work :: "'r child list \<Rightarrow> nat" where
  "ua_work cs = sum_list (map ua_cost cs)"

lemma ua_step_work:
  assumes "ua_step ev s = Some s'"
  shows "Suc (ua_work (ua_ops s')) = ua_work (ua_ops s)"
proof (cases ev)
  case Ua_start
  then obtain i where "next_idle (ua_ops s) = Some i" "ua_ops s' = (ua_ops s)[i := Ch_running]"
    using assms by (auto split: if_splits)
  then show ?thesis
    using next_idle_Some [of "ua_ops s" i]
      sum_list_update_nat [of i "ua_ops s" ua_cost Ch_running]
    by (simp add: ua_work_def)
next
  case (Ua_finish i r)
  then have "i < length (ua_ops s)" "ua_ops s ! i = Ch_running" "ua_ops s' = (ua_ops s)[i := Ch_done r]"
    using assms by (auto simp: ua_child_done_def Let_def split: if_splits prod.splits)
  then show ?thesis
    using sum_list_update_nat [of i "ua_ops s" ua_cost "Ch_done r"]
    by (simp add: ua_work_def)
qed

lemma ua_exec_work: "ua_exec evs s = Some s' \<Longrightarrow> length evs + ua_work (ua_ops s') = ua_work (ua_ops s)"
proof (induction evs s rule: ua_exec.induct)
  case (1 s)
  then show ?case by simp
next
  case (2 ev evs s)
  then show ?case
    using ua_step_work [of ev s] by (fastforce split: option.splits)
qed

lemma ua_work_zero:
  "\<forall>c \<in> set cs. c = Ch_idle \<or> c = Ch_running \<or> ch_done c \<Longrightarrow> ua_work cs = 0 \<longleftrightarrow> ch_open cs = 0"
  by (induction cs) (auto simp: ua_work_def ch_open_def ch_done_def split: child.splits)

lemma ua_not_stuck:
  assumes "ua_inv s" and "ua_work (ua_ops s) \<noteq> 0"
  shows "\<exists>ev. ua_step ev s \<noteq> None"
proof (cases "Ch_idle \<in> set (ua_ops s)")
  case True
  then obtain i where "next_idle (ua_ops s) = Some i"
    using next_idle_None [of "ua_ops s"] by fastforce
  then have "ua_step Ua_start s \<noteq> None"
    using assms(1) by (simp add: ua_inv_def)
  then show ?thesis by blast
next
  case False
  have "ch_open (ua_ops s) \<noteq> 0"
    using assms ua_work_zero [of "ua_ops s"] by (simp add: ua_inv_def)
  then obtain c where "c \<in> set (ua_ops s)" "\<not> ch_done c"
    by (auto simp: ch_open_zero)
  then have "Ch_running \<in> set (ua_ops s)"
    using False assms(1) by (auto simp: ua_inv_def)
  then obtain i where "i < length (ua_ops s)" "ua_ops s ! i = Ch_running"
    by (auto simp: in_set_conv_nth)
  then have "ua_step (Ua_finish i undefined) s \<noteq> None"
    by simp
  then show ?thesis by blast
qed


section \<open>Until a condition holds: who is first\<close>

text \<open>
  What decides a run: the first child to finish with a result that meets the condition, or the
  outer stop request, whichever comes first.
\<close>

fun uf_decide :: "('r \<Rightarrow> bool) \<Rightarrow> int option \<Rightarrow> 'r uf_event \<Rightarrow> int option" where
  "uf_decide cond (Some x) ev = Some x"
| "uf_decide cond None (Uf_finish i r) = (if cond r then Some (int i) else None)"
| "uf_decide cond None Uf_outer_stop = Some (- 1)"
| "uf_decide cond None ev = None"

definition uf_decided :: "('r \<Rightarrow> bool) \<Rightarrow> 'r uf_event list \<Rightarrow> int option" where
  "uf_decided cond evs = foldl (uf_decide cond) None evs"

text \<open>Where a child stands with respect to the decision \<open>d\<close>.\<close>

fun uf_child_ok :: "('r \<Rightarrow> bool) \<Rightarrow> int option \<Rightarrow> nat \<Rightarrow> 'r child \<Rightarrow> bool" where
  "uf_child_ok cond d i (Ch_judged r won) =
     ((won \<longrightarrow> d = Some (int i)) \<and> (d = Some (int i) \<longrightarrow> won \<and> cond r) \<and> (cond r \<longrightarrow> d \<noteq> None))"
| "uf_child_ok cond d i (Ch_noted r) = ((cond r \<longrightarrow> d \<noteq> None) \<and> (d = Some (int i) \<longrightarrow> cond r))"
| "uf_child_ok cond d i (Ch_done r) = ((cond r \<longrightarrow> d \<noteq> None) \<and> (d = Some (int i) \<longrightarrow> cond r))"
| "uf_child_ok cond d i c = (d \<noteq> Some (int i))"

text \<open>The index is recorded once the child that decided has got past that step.\<close>

definition uf_recorded :: "int option \<Rightarrow> 'r child list \<Rightarrow> int" where
  "uf_recorded d cs =
     (case d of
        None \<Rightarrow> - 1
      | Some i \<Rightarrow>
          if 0 \<le> i \<and> nat i < length cs \<and> (case cs ! nat i of Ch_judged r won \<Rightarrow> False | _ \<Rightarrow> True)
          then i else - 1)"

definition uf_verdict :: "'r until_if \<Rightarrow> errc option" where
  "uf_verdict s = uf_err (set_err_from_first_idx (s\<lparr>uf_err := None\<rparr>))"

definition uf_inv :: "int option \<Rightarrow> 'r until_if \<Rightarrow> bool" where
  "uf_inv d s \<longleftrightarrow>
     (\<forall>i < length (uf_ops s). uf_child_ok (uf_cond s) d i (uf_ops s ! i)) \<and>
     (\<forall>x. d = Some x \<longrightarrow> - 1 \<le> x \<and> x < int (length (uf_ops s))) \<and>
     uf_firstIdx s = uf_recorded d (uf_ops s) \<and>
     uf_resumed s = (if uf_ops s \<noteq> [] \<and> ch_open (uf_ops s) = 0 then 1 else 0) \<and>
     uf_err s = (if uf_resumed s = 0 then None else uf_verdict s) \<and>
     uf_started s \<and>
     (if length (uf_ops s) \<le> 1
      then \<not> uf_scb s \<and> d \<noteq> Some (- 1) \<and> (\<forall>c \<in> set (uf_ops s). c = Ch_idle \<or> c = Ch_running \<or> ch_done c)
      else uf_n s = int (ch_open (uf_ops s)) \<and> (uf_stop s \<longleftrightarrow> d \<noteq> None))"

lemma uf_inv_child: "uf_inv d s \<Longrightarrow> i < length (uf_ops s) \<Longrightarrow> uf_child_ok (uf_cond s) d i (uf_ops s ! i)"
  by (simp add: uf_inv_def)

lemma uf_inv_initiate:
  assumes "uf_initiate False sp (uf_new first value cond n) = (b, s)"
  shows "b \<and> uf_inv None s \<and> uf_ops s = replicate n Ch_idle \<and> uf_first s = first \<and> uf_value s = value \<and> uf_cond s = cond"
  using assms
  by (auto simp: uf_initiate_def uf_new_def uf_inv_def uf_recorded_def ch_open_replicate split: if_splits)

lemma uf_recorded_update:
  assumes "i < length cs" and "d \<noteq> Some (int i)"
  shows "uf_recorded d (cs[i := c]) = uf_recorded d cs"
  using assms by (cases d) (auto simp: uf_recorded_def nth_list_update)

lemma uf_recorded_here:
  assumes "i < length cs"
  shows "uf_recorded (Some (int i)) (cs[i := c]) = (case c of Ch_judged r won \<Rightarrow> - 1 | _ \<Rightarrow> int i)"
  using assms by (cases c) (auto simp: uf_recorded_def)

lemma set_err_fields:
  "uf_ops (set_err_from_first_idx s) = uf_ops s" "uf_n (set_err_from_first_idx s) = uf_n s"
  "uf_firstIdx (set_err_from_first_idx s) = uf_firstIdx s" "uf_stop (set_err_from_first_idx s) = uf_stop s"
  "uf_started (set_err_from_first_idx s) = uf_started s" "uf_resumed (set_err_from_first_idx s) = uf_resumed s"
  "uf_cond (set_err_from_first_idx s) = uf_cond s" "uf_first (set_err_from_first_idx s) = uf_first s"
  "uf_value (set_err_from_first_idx s) = uf_value s" "uf_scb (set_err_from_first_idx s) = uf_scb s"
  by (simp_all add: set_err_from_first_idx_def)

lemma set_err_verdict: "uf_err s = None \<Longrightarrow> uf_err (set_err_from_first_idx s) = uf_verdict s"
  by (simp add: uf_verdict_def set_err_from_first_idx_def)

lemma uf_verdict_cong:
  "uf_first s = uf_first t \<Longrightarrow> uf_firstIdx s = uf_firstIdx t \<Longrightarrow> uf_verdict s = uf_verdict t"
  by (simp add: uf_verdict_def set_err_from_first_idx_def)

lemma uf_children_update:
  assumes "\<forall>j < length cs. uf_child_ok cond d j (cs ! j)" and "uf_child_ok cond d i c"
  shows "\<forall>j < length (cs[i := c]). uf_child_ok cond d j (cs[i := c] ! j)"
proof (intro allI impI)
  fix j assume "j < length (cs[i := c])"
  then show "uf_child_ok cond d j (cs[i := c] ! j)"
    using assms by (cases "j = i") simp_all
qed

text \<open>When a decision is made, no child has decided before.\<close>

lemma uf_children_decide:
  assumes "\<forall>j < length cs. uf_child_ok cond None j (cs ! j)" and "x < 0 \<or> x = int i" and "j < length cs" and "j \<noteq> i"
  shows "uf_child_ok cond (Some x) j (cs ! j)"
  using assms(1) [rule_format, OF assms(3)] assms(2,4) by (cases "cs ! j") auto

lemma all_update: "\<forall>x \<in> set xs. P x \<Longrightarrow> P y \<Longrightarrow> \<forall>x \<in> set (xs[i := y]). P x"
  using set_update_subset_insert [of xs i y] by blast

lemma uf_step_start_inv:
  assumes "uf_inv d s" and "uf_step Uf_start s = Some s'"
  shows "uf_inv d s' \<and> length (uf_ops s') = length (uf_ops s)"
proof -
  obtain i where i: "next_idle (uf_ops s) = Some i" "s' = s\<lparr>uf_ops := (uf_ops s)[i := Ch_running]\<rparr>"
    using assms(2) by (auto split: if_splits)
  note n = next_idle_Some [OF i(1)]
  have k: "uf_child_ok (uf_cond s) d i (uf_ops s ! i)"
    using uf_inv_child [OF assms(1)] n by blast
  then have d: "d \<noteq> Some (int i)"
    using n by simp
  have o: "ch_open ((uf_ops s)[i := Ch_running]) = ch_open (uf_ops s)" "0 < ch_open (uf_ops s)"
    using ch_open_update [where i = i and cs = "uf_ops s" and c = Ch_running] ch_open_pos [of i "uf_ops s"] n
    by simp_all
  have c: "\<forall>j < length (uf_ops s). uf_child_ok (uf_cond s) d j ((uf_ops s)[i := Ch_running] ! j)"
    using uf_children_update [of "uf_ops s" "uf_cond s" d i Ch_running] assms(1) d by (simp add: uf_inv_def)
  have v: "uf_verdict s' = uf_verdict s"
    using i by (intro uf_verdict_cong) simp_all
  have a: "\<forall>c \<in> set (uf_ops s). c = Ch_idle \<or> c = Ch_running \<or> ch_done c \<Longrightarrow>
      \<forall>c \<in> set ((uf_ops s)[i := Ch_running]). c = Ch_idle \<or> c = Ch_running \<or> ch_done c"
    by (erule all_update) simp
  show ?thesis
    using assms(1) i o c v uf_recorded_update [of i "uf_ops s" d Ch_running] n d
    by (simp add: uf_inv_def a split: if_splits)
qed

lemma uf_step_stop_inv:
  assumes "uf_inv d s" and "uf_step Uf_outer_stop s = Some s'"
  shows "uf_inv (uf_decide (uf_cond s) d Uf_outer_stop) s' \<and> length (uf_ops s') = length (uf_ops s)"
proof -
  have s': "s' = s\<lparr>uf_stop := True\<rparr>" and multi: "\<not> length (uf_ops s) \<le> 1" and r: "uf_resumed s = 0"
    using assms by (auto simp: uf_inv_def split: if_splits)
  show ?thesis
  proof (cases d)
    case (Some x)
    then show ?thesis
      using assms(1) s' multi r by (simp add: uf_inv_def)
  next
    case None
    have c: "uf_child_ok (uf_cond s) (Some (- 1)) j (uf_ops s ! j)" if "j < length (uf_ops s)" for j
      using assms(1) None uf_children_decide [of "uf_ops s" "uf_cond s" "- 1" "length (uf_ops s)" j] that
      by (simp add: uf_inv_def)
    then show ?thesis
      using assms(1) s' multi r None by (simp add: uf_inv_def uf_recorded_def)
  qed
qed

lemma uf_step_finish_inv:
  assumes "uf_inv d s" and "uf_step (Uf_finish i r) s = Some s'" and "1 < length (uf_ops s)"
  shows "uf_inv (uf_decide (uf_cond s) d (Uf_finish i r)) s' \<and> length (uf_ops s') = length (uf_ops s)"
proof -
  have n: "i < length (uf_ops s)" "uf_ops s ! i = Ch_running" and s': "s' = uf_judge i r s"
    using assms(2,3) by (auto split: if_splits)
  have k: "d \<noteq> Some (int i)"
    using assms(1) n by (force simp: uf_inv_def)
  have st: "uf_stop s \<longleftrightarrow> d \<noteq> None"
    using assms(1,3) by (simp add: uf_inv_def)
  let ?d = "uf_decide (uf_cond s) d (Uf_finish i r)"
  let ?w = "uf_cond s r \<and> d = None"
  have s2: "s' = s\<lparr>uf_ops := (uf_ops s)[i := Ch_judged r ?w], uf_stop := ?d \<noteq> None\<rparr>"
    using s' st by (cases d) (auto simp: uf_judge_def)
  have o: "ch_open ((uf_ops s)[i := Ch_judged r ?w]) = ch_open (uf_ops s)" "0 < ch_open (uf_ops s)"
    using ch_open_update [where i = i and cs = "uf_ops s" and c = "Ch_judged r ?w"] ch_open_pos [of i "uf_ops s"] n
    by simp_all
  have c: "\<forall>j < length (uf_ops s). uf_child_ok (uf_cond s) ?d j ((uf_ops s)[i := Ch_judged r ?w] ! j)"
  proof (intro allI impI)
    fix j assume j: "j < length (uf_ops s)"
    show "uf_child_ok (uf_cond s) ?d j ((uf_ops s)[i := Ch_judged r ?w] ! j)"
    proof (cases "j = i")
      case True
      then show ?thesis
        using k n by (cases d) auto
    next
      case False
      then show ?thesis
        using assms(1) j uf_children_decide [of "uf_ops s" "uf_cond s" "int i" i j]
        by (cases d) (auto simp: uf_inv_def)
    qed
  qed
  have rec: "uf_recorded ?d ((uf_ops s)[i := Ch_judged r ?w]) = uf_recorded d (uf_ops s)"
    using uf_recorded_update [of i "uf_ops s" d "Ch_judged r ?w"] uf_recorded_here [of i "uf_ops s" "Ch_judged r ?w"] n k
    by (cases d) (auto simp: uf_recorded_def)
  have b: "\<forall>x. ?d = Some x \<longrightarrow> - 1 \<le> x \<and> x < int (length (uf_ops s))"
    using assms(1) n by (cases d) (auto simp: uf_inv_def)
  have res: "uf_resumed s = 0"
    using assms(1) o by (simp add: uf_inv_def)
  show ?thesis
    unfolding uf_inv_def s2 using assms o c rec b res by (simp add: uf_inv_def)
qed

lemma uf_step_note_inv:
  assumes "uf_inv d s" and "uf_step (Uf_note i) s = Some s'"
  shows "uf_inv d s' \<and> length (uf_ops s') = length (uf_ops s)"
proof -
  obtain r w where n: "i < length (uf_ops s)" "uf_ops s ! i = Ch_judged r w" and s': "s' = uf_note i r w s"
    using assms(2) by (auto split: if_splits child.splits)
  have multi: "\<not> length (uf_ops s) \<le> 1"
    using assms(1) n nth_mem [OF n(1)] by (force simp: uf_inv_def split: if_splits)
  have k: "uf_child_ok (uf_cond s) d i (Ch_judged r w)"
    using assms(1) n by (force simp: uf_inv_def)
  have o: "ch_open ((uf_ops s)[i := Ch_noted r]) = ch_open (uf_ops s)" "0 < ch_open (uf_ops s)"
    using ch_open_update [where i = i and cs = "uf_ops s" and c = "Ch_noted r"] ch_open_pos [of i "uf_ops s"] n
    by simp_all
  have c: "\<forall>j < length (uf_ops s). uf_child_ok (uf_cond s) d j ((uf_ops s)[i := Ch_noted r] ! j)"
    using uf_children_update [of "uf_ops s" "uf_cond s" d i "Ch_noted r"] assms(1) k by (simp add: uf_inv_def)
  have rec: "uf_firstIdx s' = uf_recorded d ((uf_ops s)[i := Ch_noted r])"
  proof (cases w)
    case True
    then show ?thesis
      using s' k uf_recorded_here [of i "uf_ops s" "Ch_noted r"] n by (simp add: uf_note_def)
  next
    case False
    then show ?thesis
      using s' k uf_recorded_update [of i "uf_ops s" d "Ch_noted r"] n assms(1)
      by (simp add: uf_note_def uf_inv_def)
  qed
  have res: "uf_resumed s = 0"
    using assms(1) o by (simp add: uf_inv_def)
  have f: "uf_ops s' = (uf_ops s)[i := Ch_noted r]" "uf_n s' = uf_n s" "uf_stop s' = uf_stop s" "uf_err s' = uf_err s"
    "uf_resumed s' = uf_resumed s" "uf_started s' = uf_started s" "uf_cond s' = uf_cond s"
    using s' by (simp_all add: uf_note_def Let_def)
  show ?thesis
    using assms(1) f rec c o res multi by (simp add: uf_inv_def)
qed

lemma uf_step_count_inv:
  assumes "uf_inv d s" and "uf_step (Uf_count i) s = Some s'"
  shows "uf_inv d s' \<and> length (uf_ops s') = length (uf_ops s)"
proof -
  obtain r where n: "i < length (uf_ops s)" "uf_ops s ! i = Ch_noted r" and s': "s' = uf_count i r s"
    using assms(2) by (auto split: if_splits child.splits)
  have multi: "\<not> length (uf_ops s) \<le> 1"
    using assms(1) n nth_mem [OF n(1)] by (force simp: uf_inv_def split: if_splits)
  have k: "uf_child_ok (uf_cond s) d i (Ch_noted r)"
    using assms(1) n by (force simp: uf_inv_def)
  let ?cs = "(uf_ops s)[i := Ch_done r]"
  have o: "ch_open (uf_ops s) = Suc (ch_open ?cs)"
    using ch_open_update [where i = i and cs = "uf_ops s" and c = "Ch_done r"] n by simp
  have c: "\<forall>j < length (uf_ops s). uf_child_ok (uf_cond s) d j (?cs ! j)"
    using uf_children_update [of "uf_ops s" "uf_cond s" d i "Ch_done r"] assms(1) k by (simp add: uf_inv_def)
  have rec: "uf_recorded d ?cs = uf_recorded d (uf_ops s)"
  proof (cases "d = Some (int i)")
    case True
    then show ?thesis
      using uf_recorded_here [of i "uf_ops s" "Ch_done r"] n by (simp add: uf_recorded_def)
  next
    case False
    then show ?thesis
      using uf_recorded_update [of i "uf_ops s" d] n by simp
  qed
  have m: "uf_n s = int (ch_open (uf_ops s))" and p: "sub_pending (uf_n s) = ch_open (uf_ops s)"
    using assms(1) multi by (simp_all add: uf_inv_def sub_pending_def)
  obtain lst m' where a: "sub_arrive (uf_n s) = (lst, m')"
    by fastforce
  have l: "lst \<longleftrightarrow> ch_open ?cs = 0" and m': "m' = int (ch_open ?cs)"
    using cd_sub.arrive_last [of "uf_n s"] a p o m by (simp_all add: sub_arrive_def)
  have res: "uf_resumed s = 0" and err: "uf_err s = None"
    using assms(1) o by (simp_all add: uf_inv_def)
  have f: "uf_ops s' = ?cs" "uf_n s' = m'" "uf_stop s' = uf_stop s" "uf_firstIdx s' = uf_firstIdx s"
    "uf_resumed s' = (if lst then 1 else 0)" "uf_started s' = uf_started s" "uf_cond s' = uf_cond s"
    "uf_first s' = uf_first s"
    using s' a res by (auto simp: uf_count_def Let_def set_err_fields)
  have v: "uf_err s' = (if lst then uf_verdict s' else None)"
  proof (cases lst)
    case True
    let ?t = "s\<lparr>uf_ops := ?cs, uf_n := m'\<rparr>"
    have "uf_err s' = uf_err (set_err_from_first_idx ?t)"
      using s' a True by (simp add: uf_count_def Let_def)
    also have "\<dots> = uf_verdict ?t"
      by (rule set_err_verdict) (simp add: err)
    also have "\<dots> = uf_verdict s'"
      using f by (intro uf_verdict_cong) simp_all
    finally show ?thesis
      using True by simp
  next
    case False
    then show ?thesis
      using s' a err by (simp add: uf_count_def Let_def)
  qed
  have "uf_ops s \<noteq> []"
    using n(1) by auto
  then show ?thesis
    using assms(1) f v rec c l m' multi by (simp add: uf_inv_def)
qed

lemma uf_step_only_inv:
  assumes "uf_inv d s" and "uf_step (Uf_finish i r) s = Some s'" and "length (uf_ops s) = 1"
  shows "uf_inv (uf_decide (uf_cond s) d (Uf_finish i r)) s' \<and> length (uf_ops s') = length (uf_ops s)"
proof -
  have i: "i = 0" and n: "uf_ops s ! 0 = Ch_running" and s': "s' = uf_only_child r s"
    using assms(2,3) by (auto split: if_splits)
  have cs: "uf_ops s = [Ch_running]"
    using assms(3) n by (cases "uf_ops s") auto
  have nd: "d = None"
    using assms(1) cs by (cases d) (auto simp: uf_inv_def)
  have res: "uf_resumed s = 0" and err: "uf_err s = None" and fi: "uf_firstIdx s = - 1"
    using assms(1) cs nd by (simp_all add: uf_inv_def ch_open_def uf_recorded_def)
  show ?thesis
    using assms(1) s' i cs nd res err fi
    by (auto simp: uf_inv_def uf_only_child_def Let_def set_err_from_first_idx_def uf_verdict_def ch_open_def
        uf_recorded_def)
qed

lemma uf_only_child_fields:
  "uf_cond (uf_only_child r s) = uf_cond s" "uf_first (uf_only_child r s) = uf_first s"
  "uf_value (uf_only_child r s) = uf_value s" "uf_ops (uf_only_child r s) = (uf_ops s)[0 := Ch_done r]"
  by (cases "uf_cond s r"; simp add: uf_only_child_def Let_def set_err_fields)+

lemma uf_judge_fields:
  "uf_cond (uf_judge i r s) = uf_cond s" "uf_first (uf_judge i r s) = uf_first s" "uf_value (uf_judge i r s) = uf_value s"
  by (simp_all add: uf_judge_def)

lemma uf_note_fields:
  "uf_cond (uf_note i r w s) = uf_cond s" "uf_first (uf_note i r w s) = uf_first s"
  "uf_value (uf_note i r w s) = uf_value s" "uf_ops (uf_note i r w s) = (uf_ops s)[i := Ch_noted r]"
  by (cases w; simp add: uf_note_def Let_def)+

lemma uf_count_fields:
  "uf_cond (uf_count i r s) = uf_cond s" "uf_first (uf_count i r s) = uf_first s"
  "uf_value (uf_count i r s) = uf_value s" "uf_ops (uf_count i r s) = (uf_ops s)[i := Ch_done r]"
  by (cases "uf_n s = 1"; simp add: uf_count_def sub_arrive_def Let_def set_err_fields)+

lemmas uf_op_fields = uf_only_child_fields uf_judge_fields uf_note_fields uf_count_fields

lemma uf_step_fields:
  assumes "uf_step ev s = Some s'"
  shows "uf_cond s' = uf_cond s \<and> uf_first s' = uf_first s \<and> uf_value s' = uf_value s"
proof (cases ev)
  case Uf_start
  then obtain i where "s' = s\<lparr>uf_ops := (uf_ops s)[i := Ch_running]\<rparr>"
    using assms by (auto split: if_splits)
  then show ?thesis by simp
next
  case (Uf_finish i r)
  then have "s' = uf_only_child r s \<or> s' = uf_judge i r s"
    using assms by (auto split: if_splits)
  then show ?thesis
    by (elim disjE) (simp_all add: uf_op_fields)
next
  case (Uf_note i)
  then obtain r w where "s' = uf_note i r w s"
    using assms by (auto split: if_splits child.splits)
  then show ?thesis
    by (simp add: uf_op_fields)
next
  case (Uf_count i)
  then obtain r where "s' = uf_count i r s"
    using assms by (auto split: if_splits child.splits)
  then show ?thesis
    by (simp add: uf_op_fields)
next
  case Uf_outer_stop
  then have "s' = s\<lparr>uf_stop := True\<rparr>"
    using assms by (simp split: if_splits)
  then show ?thesis by simp
qed

lemma uf_step_inv:
  assumes "uf_inv d s" and "uf_step ev s = Some s'"
  shows "uf_inv (uf_decide (uf_cond s) d ev) s' \<and> length (uf_ops s') = length (uf_ops s)"
proof (cases ev)
  case Uf_start
  have "uf_decide (uf_cond s) d Uf_start = d"
    by (cases d) simp_all
  then show ?thesis
    using uf_step_start_inv [OF assms(1), of s'] assms(2) unfolding Uf_start by metis
next
  case (Uf_finish i r)
  then have i: "i < length (uf_ops s)"
    using assms(2) by (auto split: if_splits)
  show ?thesis
  proof (cases "length (uf_ops s) = 1")
    case True
    then show ?thesis
      using assms(2) unfolding Uf_finish by (intro uf_step_only_inv [OF assms(1)])
  next
    case False
    then have "1 < length (uf_ops s)"
      using i by simp
    then show ?thesis
      using assms(2) unfolding Uf_finish by (intro uf_step_finish_inv [OF assms(1)])
  qed
next
  case (Uf_note i)
  have "uf_decide (uf_cond s) d (Uf_note i) = d"
    by (cases d) simp_all
  then show ?thesis
    using uf_step_note_inv [OF assms(1), of i s'] assms(2) unfolding Uf_note by metis
next
  case (Uf_count i)
  have "uf_decide (uf_cond s) d (Uf_count i) = d"
    by (cases d) simp_all
  then show ?thesis
    using uf_step_count_inv [OF assms(1), of i s'] assms(2) unfolding Uf_count by metis
next
  case Uf_outer_stop
  then show ?thesis
    using uf_step_stop_inv [OF assms(1), of s'] assms(2) by metis
qed

lemma uf_exec_inv:
  "uf_exec evs s = Some s' \<Longrightarrow> uf_inv d s \<Longrightarrow>
   uf_inv (foldl (uf_decide (uf_cond s)) d evs) s' \<and> length (uf_ops s') = length (uf_ops s) \<and>
   uf_cond s' = uf_cond s \<and> uf_first s' = uf_first s \<and> uf_value s' = uf_value s"
proof (induction evs s arbitrary: d rule: uf_exec.induct)
  case (1 s)
  then show ?case by simp
next
  case (2 ev evs s)
  then obtain s1 where e: "uf_step ev s = Some s1" "uf_exec evs s1 = Some s'"
    by (auto split: option.splits)
  have "uf_inv (uf_decide (uf_cond s) d ev) s1" "length (uf_ops s1) = length (uf_ops s)"
    using uf_step_inv [OF "2.prems"(2) e(1)] by simp_all
  with "2.IH" [OF e(1,2) this(1)] show ?case
    using uf_step_fields [OF e(1)] by simp
qed

lemma uf_run_inv:
  assumes "uf_initiate False sp (uf_new first value cond n) = (b, s0)" and "uf_exec evs s0 = Some s"
  shows "b \<and> uf_inv (uf_decided cond evs) s \<and> length (uf_ops s) = n \<and> uf_cond s = cond \<and>
    uf_first s = first \<and> uf_value s = value"
  using uf_inv_initiate [OF assms(1)] uf_exec_inv [OF assms(2), of None] by (simp add: uf_decided_def)

lemma uf_step_work:
  assumes "uf_step ev s = Some s'" and "ev \<noteq> Uf_outer_stop"
  shows "ch_work (uf_ops s') < ch_work (uf_ops s)"
proof (cases ev)
  case Uf_start
  then obtain i where "next_idle (uf_ops s) = Some i" "uf_ops s' = (uf_ops s)[i := Ch_running]"
    using assms(1) by (auto split: if_splits)
  then show ?thesis
    using next_idle_Some [of "uf_ops s" i] ch_work_less [of i "uf_ops s" Ch_running] by simp
next
  case (Uf_finish i r)
  then have n: "i < length (uf_ops s)" "uf_ops s ! i = Ch_running"
    and e: "s' = (if length (uf_ops s) = 1 then uf_only_child r s else uf_judge i r s)"
    using assms(1) by (auto split: if_splits)
  have "\<exists>c. uf_ops s' = (uf_ops s)[i := c] \<and> ch_cost c < 3"
    using e n by (auto simp: uf_op_fields uf_judge_def intro: exI [of _ "Ch_done r"] split: if_splits)
  then show ?thesis
    using ch_work_less [of i "uf_ops s"] n by fastforce
next
  case (Uf_note i)
  then obtain r w where "i < length (uf_ops s)" "uf_ops s ! i = Ch_judged r w" "uf_ops s' = (uf_ops s)[i := Ch_noted r]"
    using assms(1) by (auto simp: uf_op_fields split: if_splits child.splits)
  then show ?thesis
    using ch_work_less [of i "uf_ops s" "Ch_noted r"] by simp
next
  case (Uf_count i)
  then obtain r where "i < length (uf_ops s)" "uf_ops s ! i = Ch_noted r" "uf_ops s' = (uf_ops s)[i := Ch_done r]"
    using assms(1) by (auto simp: uf_op_fields split: if_splits child.splits)
  then show ?thesis
    using ch_work_less [of i "uf_ops s" "Ch_done r"] by simp
next
  case Uf_outer_stop
  then show ?thesis
    using assms(2) by simp
qed

fun uf_own :: "'r uf_event \<Rightarrow> bool" where
  "uf_own Uf_outer_stop = False"
| "uf_own ev = True"

lemma uf_own_iff: "uf_own ev \<longleftrightarrow> ev \<noteq> Uf_outer_stop"
  by (cases ev) simp_all

lemma uf_exec_work:
  "uf_exec evs s = Some s' \<Longrightarrow> length (filter uf_own evs) + ch_work (uf_ops s') \<le> ch_work (uf_ops s)"
proof (induction evs s rule: uf_exec.induct)
  case (1 s)
  then show ?case by simp
next
  case (2 ev evs s)
  then obtain s1 where e: "uf_step ev s = Some s1" "uf_exec evs s1 = Some s'"
    by (auto split: option.splits)
  have ih: "length (filter uf_own evs) + ch_work (uf_ops s') \<le> ch_work (uf_ops s1)"
    by (rule "2.IH" [OF e])
  show ?case
  proof (cases "ev = Uf_outer_stop")
    case True
    then have "uf_ops s1 = uf_ops s"
      using e(1) by (auto split: if_splits)
    then show ?thesis
      using ih True by simp
  next
    case False
    then show ?thesis
      using ih uf_step_work [OF e(1) False] uf_own_iff [of ev] by simp
  qed
qed

lemma uf_not_stuck:
  assumes "uf_inv d s" and "ch_work (uf_ops s) \<noteq> 0"
  shows "\<exists>ev. uf_own ev \<and> uf_step ev s \<noteq> None"
proof (cases "Ch_idle \<in> set (uf_ops s)")
  case True
  then obtain i where "next_idle (uf_ops s) = Some i"
    using next_idle_None [of "uf_ops s"] by fastforce
  then have "uf_step Uf_start s \<noteq> None"
    using assms(1) by (simp add: uf_inv_def)
  then show ?thesis
    by (intro exI [of _ Uf_start]) (simp add: uf_own_iff)
next
  case False
  have "ch_open (uf_ops s) \<noteq> 0"
    using assms(2) by (simp add: ch_work_zero)
  then obtain i where i: "i < length (uf_ops s)" "\<not> ch_done (uf_ops s ! i)"
    by (auto simp: ch_open_zero in_set_conv_nth)
  have "uf_ops s ! i \<noteq> Ch_idle"
    using False i(1) nth_mem by metis
  then consider "uf_step (Uf_finish i undefined) s \<noteq> None" | "uf_step (Uf_note i) s \<noteq> None" | "uf_step (Uf_count i) s \<noteq> None"
    using i by (cases "uf_ops s ! i") auto
  then show ?thesis
    by cases (auto simp: uf_own_iff intro: exI [of _ "Uf_finish i undefined"] exI [of _ "Uf_note i"] exI [of _ "Uf_count i"])
qed

text \<open>The children of a finished run have all been counted.\<close>

lemma uf_resumed_done:
  assumes "uf_inv d s" and "uf_resumed s \<noteq> 0"
  shows "uf_resumed s = 1" and "\<forall>c \<in> set (uf_ops s). ch_done c" and "uf_ops s \<noteq> []"
    and "uf_err s = uf_verdict s" and "uf_firstIdx s = (case d of None \<Rightarrow> - 1 | Some i \<Rightarrow> i)"
proof -
  show 1: "uf_resumed s = 1" and n: "uf_ops s \<noteq> []" and e: "uf_err s = uf_verdict s"
    using assms by (auto simp: uf_inv_def split: if_splits)
  have o: "ch_open (uf_ops s) = 0"
    using assms by (auto simp: uf_inv_def split: if_splits)
  then show d: "\<forall>c \<in> set (uf_ops s). ch_done c"
    by (simp add: ch_open_zero)
  show "uf_firstIdx s = (case d of None \<Rightarrow> - 1 | Some i \<Rightarrow> i)"
  proof (cases d)
    case None
    then show ?thesis
      using assms(1) by (simp add: uf_inv_def uf_recorded_def)
  next
    case (Some x)
    have x: "- 1 \<le> x" "x < int (length (uf_ops s))" "uf_firstIdx s = uf_recorded d (uf_ops s)"
      using assms(1) Some by (auto simp: uf_inv_def)
    show ?thesis
    proof (cases "0 \<le> x")
      case True
      then have "nat x < length (uf_ops s)"
        using x(2) by linarith
      then have "ch_done (uf_ops s ! nat x)"
        using d nth_mem by blast
      then show ?thesis
        using x(3) Some True \<open>nat x < _\<close> by (simp add: uf_recorded_def ch_done_def split: child.splits)
    next
      case False
      then show ?thesis
        using x Some by (simp add: uf_recorded_def)
    qed
  qed
qed
end
