(* ===== verification/Until_Props.thy ===== *)
theory Until_Props
  imports Until
begin

text \<open>
  The properties of the operations that run other operations (\<open>Until\<close>): they resume their
  continuation exactly once and after the last child, in a bounded number of steps; the child that
  is reported first is the one that was; and what happens without children or when stop is requested
  from outside.
\<close>

section \<open>Results are kept\<close>

lemma ua_step_keeps:
  assumes "ua_step ev s = Some s'" and "i < length (ua_ops s)" and "ua_ops s ! i = Ch_done r"
  shows "ua_ops s' ! i = Ch_done r \<and> length (ua_ops s') = length (ua_ops s)"
proof (cases ev)
  case Ua_start
  then obtain j where "next_idle (ua_ops s) = Some j" "ua_ops s' = (ua_ops s)[j := Ch_running]"
    using assms(1) by (auto split: if_splits)
  then show ?thesis
    using next_idle_Some [of "ua_ops s" j] assms(2,3) by (cases "j = i") auto
next
  case (Ua_finish j q)
  then have "ua_ops s ! j = Ch_running" "ua_ops s' = (ua_ops s)[j := Ch_done q]"
    using assms(1) by (auto simp: ua_child_done_def Let_def split: if_splits prod.splits)
  then show ?thesis
    using assms(2,3) by (cases "j = i") auto
qed

lemma ua_exec_keeps:
  "ua_exec evs s = Some s' \<Longrightarrow> i < length (ua_ops s) \<Longrightarrow> ua_ops s ! i = Ch_done r \<Longrightarrow> ua_ops s' ! i = Ch_done r"
proof (induction evs s rule: ua_exec.induct)
  case (1 s)
  then show ?case by simp
next
  case (2 ev evs s)
  then obtain s1 where e: "ua_step ev s = Some s1" "ua_exec evs s1 = Some s'"
    by (auto split: option.splits)
  then show ?case
    using "2.IH" [OF e] ua_step_keeps [OF e(1) "2.prems"(2,3)] "2.prems"(2) by simp
qed

lemma ua_exec_finished:
  "ua_exec evs s = Some s' \<Longrightarrow> Ua_finish i r \<in> set evs \<Longrightarrow> i < length (ua_ops s) \<and> ua_ops s' ! i = Ch_done r"
proof (induction evs s rule: ua_exec.induct)
  case (1 s)
  then show ?case by simp
next
  case (2 ev evs s)
  then obtain s1 where e: "ua_step ev s = Some s1" "ua_exec evs s1 = Some s'"
    by (auto split: option.splits)
  have l: "length (ua_ops s1) = length (ua_ops s)"
    using e(1) by (cases ev) (auto simp: ua_child_done_def Let_def split: if_splits prod.splits)
  show ?case
  proof (cases "ev = Ua_finish i r")
    case True
    then have "i < length (ua_ops s)" "ua_ops s1 ! i = Ch_done r"
      using e(1) by (auto simp: ua_child_done_def Let_def split: if_splits prod.splits)
    then show ?thesis
      using ua_exec_keeps [OF e(2), of i r] l by simp
  next
    case False
    then show ?thesis
      using "2.IH" [OF e] "2.prems"(2) l by simp
  qed
qed

lemma uf_step_keeps:
  assumes "uf_step ev s = Some s'" and "i < length (uf_ops s)" and "ch_result (uf_ops s ! i) = Some r"
  shows "ch_result (uf_ops s' ! i) = Some r"
proof (cases ev)
  case Uf_start
  then obtain j where "next_idle (uf_ops s) = Some j" "uf_ops s' = (uf_ops s)[j := Ch_running]"
    using assms(1) by (auto split: if_splits)
  then show ?thesis
    using next_idle_Some [of "uf_ops s" j] assms(2,3) by (cases "j = i") auto
next
  case (Uf_finish j q)
  then obtain c where "uf_ops s ! j = Ch_running" "j < length (uf_ops s)" "uf_ops s' = (uf_ops s)[j := c]"
    using assms(1) by (auto simp: uf_op_fields uf_judge_def split: if_splits)
  then show ?thesis
    using assms(2,3) by (cases "j = i") auto
next
  case (Uf_note j)
  then obtain q w where "uf_ops s ! j = Ch_judged q w" "uf_ops s' = (uf_ops s)[j := Ch_noted q]"
    using assms(1) by (auto simp: uf_op_fields split: if_splits child.splits)
  then show ?thesis
    using assms(2,3) by (cases "j = i") auto
next
  case (Uf_count j)
  then obtain q where "uf_ops s ! j = Ch_noted q" "uf_ops s' = (uf_ops s)[j := Ch_done q]"
    using assms(1) by (auto simp: uf_op_fields split: if_splits child.splits)
  then show ?thesis
    using assms(2,3) by (cases "j = i") auto
next
  case Uf_outer_stop
  then show ?thesis
    using assms by (auto split: if_splits)
qed

lemma uf_step_length: "uf_step ev s = Some s' \<Longrightarrow> length (uf_ops s') = length (uf_ops s)"
  by (cases ev) (auto simp: uf_op_fields uf_judge_def split: if_splits child.splits)

lemma uf_exec_keeps:
  "uf_exec evs s = Some s' \<Longrightarrow> i < length (uf_ops s) \<Longrightarrow> ch_result (uf_ops s ! i) = Some r \<Longrightarrow>
   ch_result (uf_ops s' ! i) = Some r"
proof (induction evs s rule: uf_exec.induct)
  case (1 s)
  then show ?case by simp
next
  case (2 ev evs s)
  then obtain s1 where e: "uf_step ev s = Some s1" "uf_exec evs s1 = Some s'"
    by (auto split: option.splits)
  then show ?case
    using "2.IH" [OF e] uf_step_keeps [OF e(1) "2.prems"(2,3)] uf_step_length [OF e(1)] "2.prems"(2) by simp
qed

lemma uf_exec_finished:
  "uf_exec evs s = Some s' \<Longrightarrow> Uf_finish i r \<in> set evs \<Longrightarrow> i < length (uf_ops s) \<and> ch_result (uf_ops s' ! i) = Some r"
proof (induction evs s rule: uf_exec.induct)
  case (1 s)
  then show ?case by simp
next
  case (2 ev evs s)
  then obtain s1 where e: "uf_step ev s = Some s1" "uf_exec evs s1 = Some s'"
    by (auto split: option.splits)
  note l = uf_step_length [OF e(1)]
  show ?case
  proof (cases "ev = Uf_finish i r")
    case True
    then have i: "i < length (uf_ops s)" "uf_ops s ! i = Ch_running"
      and s1: "s1 = (if length (uf_ops s) = 1 then uf_only_child r s else uf_judge i r s)"
      using e(1) by (auto split: if_splits)
    have "ch_result (uf_ops s1 ! i) = Some r"
    proof (cases "length (uf_ops s) = 1")
      case True
      then show ?thesis
        using i(1) s1 by (simp add: uf_op_fields)
    next
      case False
      then show ?thesis
        using i(1) s1 by (simp add: uf_judge_def)
    qed
    then show ?thesis
      using uf_exec_keeps [OF e(2), of i r] l i(1) by simp
  next
    case False
    then show ?thesis
      using "2.IH" [OF e] "2.prems"(2) l by simp
  qed
qed

text \<open>The decision is some event's.\<close>

lemma uf_decided_Some:
  assumes "uf_decided cond evs = Some x"
  shows "if 0 \<le> x then \<exists>r. Uf_finish (nat x) r \<in> set evs \<and> cond r else Uf_outer_stop \<in> set evs"
proof -
  have "foldl (uf_decide cond) d evs = Some x \<Longrightarrow> d = Some x \<or>
      (if 0 \<le> x then \<exists>r. Uf_finish (nat x) r \<in> set evs \<and> cond r else Uf_outer_stop \<in> set evs)" for d
  proof (induction evs arbitrary: d)
    case Nil
    then show ?case by simp
  next
    case (Cons ev evs)
    have "uf_decide cond d ev = Some x \<or>
        (if 0 \<le> x then \<exists>r. Uf_finish (nat x) r \<in> set evs \<and> cond r else Uf_outer_stop \<in> set evs)"
      using Cons.IH [of "uf_decide cond d ev"] Cons.prems by simp
    then show ?case
      by (cases d; cases ev) (auto split: if_splits)
  qed
  from this [of None] show ?thesis
    using assms by (simp add: uf_decided_def)
qed

lemma uf_decided_None:
  assumes "uf_decided cond evs = None" and "Uf_finish i r \<in> set evs"
  shows "\<not> cond r"
proof -
  have s: "foldl (uf_decide cond) (Some x) evs = Some x" for x and evs :: "'a uf_event list"
    by (induction evs) simp_all
  have "foldl (uf_decide cond) None evs = None \<Longrightarrow> Uf_finish i r \<in> set evs \<Longrightarrow> \<not> cond r"
  proof (induction evs)
    case Nil
    then show ?case by simp
  next
    case (Cons ev evs)
    show ?case
    proof (cases "uf_decide cond None ev")
      case None
      then show ?thesis
        using Cons by (cases "ev = Uf_finish i r") (auto split: if_splits)
    next
      case (Some x)
      then show ?thesis
        using Cons.prems(1) s by simp
    qed
  qed
  then show ?thesis
    using assms by (simp add: uf_decided_def)
qed

section \<open>Properties\<close>

text \<open>
  C15: \<open>until_all_done\<close> over one or more children resumes its continuation exactly when the last of
  them has finished, once, after exactly two steps for each child; before that some step is always
  possible; and its result is the list of the children's results, in the order of the children.
\<close>

theorem until_all_done_collects:
  assumes "ua_initiate False (ua_new n) = (b, s0)" and "0 < n" and "ua_exec evs s0 = Some s"
  shows "b \<and> ua_resumed s = (if length evs = 2 * n then 1 else 0) \<and> length evs \<le> 2 * n \<and>
    (length evs < 2 * n \<longrightarrow> (\<exists>ev. ua_step ev s \<noteq> None)) \<and>
    (length evs = 2 * n \<longrightarrow>
       (\<exists>rs. ua_take_result s = Inr rs \<and> length rs = n \<and> ua_ops s = map Ch_done rs \<and>
         (\<forall>i r. Ua_finish i r \<in> set evs \<longrightarrow> rs ! i = r)))"
proof -
  have b: b and i0: "ua_inv s0" and o0: "ua_ops s0 = replicate n Ch_idle"
    using ua_inv_initiate [OF assms(1)] by simp_all
  have inv: "ua_inv s" and l: "length (ua_ops s) = n"
    using ua_exec_inv [OF assms(3) i0] o0 by simp_all
  have "ua_work (ua_ops s0) = 2 * n"
    unfolding o0 ua_work_def by (induction n) simp_all
  then have w: "length evs + ua_work (ua_ops s) = 2 * n"
    using ua_exec_work [OF assms(3)] by simp
  have z: "ua_work (ua_ops s) = 0 \<longleftrightarrow> ch_open (ua_ops s) = 0"
    using inv ua_work_zero by (auto simp: ua_inv_def)
  have res: "ua_resumed s = (if length evs = 2 * n then 1 else 0)"
    using inv l assms(2) w z by (auto simp: ua_inv_def)
  have rs: "\<exists>rs. ua_take_result s = Inr rs \<and> length rs = n \<and> ua_ops s = map Ch_done rs \<and>
      (\<forall>i r. Ua_finish i r \<in> set evs \<longrightarrow> rs ! i = r)" if "length evs = 2 * n"
  proof -
    let ?rs = "map (\<lambda>c. the (ch_result c)) (ua_ops s)"
    have "\<forall>c \<in> set (ua_ops s). ch_done c"
      using that w z by (simp add: ch_open_zero)
    then have "map (\<lambda>c. Ch_done (the (ch_result c))) (ua_ops s) = ua_ops s"
      by (intro map_idI) (metis ch_done_result)
    then have "ua_ops s = map Ch_done ?rs"
      by (simp add: comp_def)
    moreover have "ua_take_result s = Inr ?rs"
      using inv by (simp add: ua_take_result_def gen_expected_if_no_def ua_inv_def)
    moreover have "Ua_finish i r \<in> set evs \<Longrightarrow> ?rs ! i = r" for i r
      using ua_exec_finished [OF assms(3), of i r] o0 l by simp
    ultimately show ?thesis
      using l by (intro exI [of _ ?rs]) simp
  qed
  show ?thesis
    using b res rs w ua_not_stuck [OF inv] by auto
qed

theorem until_all_done_collects_witness:
  "\<exists>s. ua_exec [Ua_start, Ua_start, Ua_finish 1 (20::nat), Ua_finish 0 10] (snd (ua_initiate False (ua_new 2))) = Some s \<and>
     ua_resumed s = 1 \<and> ua_take_result s = Inr [10, 20]"
proof -
  obtain s where s: "ua_exec [Ua_start, Ua_start, Ua_finish 1 (20::nat), Ua_finish 0 10] (snd (ua_initiate False (ua_new 2))) = Some s"
    by (simp add: ua_initiate_def ua_new_def next_idle_def ua_child_done_def sub_arrive_def numeral_2_eq_2 Let_def)
  have "ua_initiate False (ua_new 2 :: nat until_all) = (True, snd (ua_initiate False (ua_new 2)))"
    by (simp add: ua_initiate_def ua_new_def)
  from until_all_done_collects [OF this _ s] obtain rs where "ua_resumed s = 1" "ua_take_result s = Inr rs"
    "length rs = 2" "rs ! 0 = 10" "rs ! 1 = 20"
    by auto
  moreover have "rs = [rs ! 0, rs ! 1]" if "length rs = 2"
    using that by (cases rs; cases "tl rs") auto
  ultimately show ?thesis
    using s by auto
qed

text \<open>
  C14: \<open>until_first\<close> reports the child that was first: when its continuation is resumed (once, after
  all children have been counted), the index is that of the first child to finish with a result that
  meets the condition, whatever the interleaving of the completion handlers, and the result is that
  child's; it is \<open>not_found\<close> when there was none, or when the outer stop request came before.
\<close>

theorem until_first_reports_first:
  fixes cond :: "errc + 't \<Rightarrow> bool"
  assumes "uf_initiate False stopPoss (uf_new True value cond n) = (b, s0)" and "uf_exec evs s0 = Some s"
    and "uf_resumed s \<noteq> 0"
  shows "uf_resumed s = 1 \<and> (\<forall>c \<in> set (uf_ops s). ch_done c) \<and>
    (case uf_decided cond evs of
       None \<Rightarrow> uf_take_result s = Inl errc_not_found
     | Some x \<Rightarrow>
         if x < 0 then uf_take_result s = Inl errc_not_found
         else \<exists>r. Uf_finish (nat x) r \<in> set evs \<and> cond r \<and>
                uf_take_result s = Inr (Some (Until_first (take_op value r) (nat x))))"
proof -
  have inv: "uf_inv (uf_decided cond evs) s" and l: "length (uf_ops s) = n" and f: "uf_first s" "uf_value s = value"
    using uf_run_inv [OF assms(1,2)] by simp_all
  note rd = uf_resumed_done [OF inv assms(3)]
  have v: "uf_err s = (if uf_firstIdx s < 0 then Some errc_not_found else None)"
    using rd(4) f by (simp add: uf_verdict_def set_err_from_first_idx_def)
  have nf: "uf_firstIdx s < 0 \<Longrightarrow> uf_take_result s = Inl errc_not_found"
    using v f rd(3) by (simp add: uf_take_result_def gen_expected_if_no_def Let_def)
  show ?thesis
  proof (cases "uf_decided cond evs")
    case None
    then show ?thesis
      using rd nf by simp
  next
    case (Some x)
    show ?thesis
    proof (cases "x < 0")
      case True
      then show ?thesis
        using rd nf Some by simp
    next
      case False
      then obtain r where r: "Uf_finish (nat x) r \<in> set evs" "cond r"
        using uf_decided_Some [OF Some] by auto
      have "ch_result (uf_ops s ! nat x) = Some r"
        using uf_exec_finished [OF assms(2) r(1)] by simp
      then have "uf_take_result s = Inr (Some (Until_first (take_op value r) (nat x)))"
        using v f rd(3,5) Some False by (simp add: uf_take_result_def gen_expected_if_no_def Let_def)
      then show ?thesis
        using rd r Some False by auto
    qed
  qed
qed

lemmas uf_eval = uf_initiate_def uf_new_def next_idle_def uf_judge_def uf_note_def uf_count_def
  set_err_from_first_idx_def sub_arrive_def numeral_2_eq_2 Let_def uf_decided_def

theorem until_first_reports_first_witness:
  "\<exists>s. uf_exec [Uf_start, Uf_start, Uf_finish 1 (Inr 20), Uf_finish 0 (Inr (10::nat)), Uf_note 0, Uf_count 0, Uf_note 1, Uf_count 1]
       (snd (uf_initiate False True (uf_new True True (\<lambda>r. \<not> has_err r) 2))) = Some s \<and>
     uf_take_result s = Inr (Some (Until_first (Taken_value 20) 1))"
proof -
  let ?evs = "[Uf_start, Uf_start, Uf_finish 1 (Inr 20), Uf_finish 0 (Inr (10::nat)), Uf_note 0, Uf_count 0, Uf_note 1, Uf_count 1]"
    and ?s0 = "snd (uf_initiate False True (uf_new True True (\<lambda>r. \<not> has_err (r :: errc + nat)) 2))"
  have "map_option uf_resumed (uf_exec ?evs ?s0) = Some 1"
    by (simp add: uf_eval)
  then obtain s where s: "uf_exec ?evs ?s0 = Some s" "uf_resumed s \<noteq> 0"
    by auto
  have i: "uf_initiate False True (uf_new True True (\<lambda>r. \<not> has_err (r :: errc + nat)) 2) = (True, ?s0)"
    by (simp add: uf_eval)
  have d: "uf_decided (\<lambda>r. \<not> has_err r) ?evs = Some 1"
    by (simp add: uf_decided_def)
  have "uf_take_result s = Inr (Some (Until_first (Taken_value 20) 1))"
    using until_first_reports_first [OF i s, unfolded d] by auto
  then show ?thesis
    using s(1) by blast
qed

text \<open>
  \<open>until_all_succeeded\<close>, unless stop is requested from outside, gives the values of all children
  when all succeeded, and \<open>failed\<close> as soon as one failed.
\<close>

theorem until_all_succeeded_outcome:
  assumes "uf_initiate False stopPoss (until_all_succeeded n) = (b, s0)" and "uf_exec evs s0 = Some s"
    and "uf_resumed s \<noteq> 0" and "Uf_outer_stop \<notin> set evs"
  shows "uf_take_result s =
    (if \<exists>i e. Uf_finish i (Inl e) \<in> set evs then Inl errc_failed
     else Inr (Some (Until_all (map (\<lambda>c. Taken_value (projr (the (ch_result c)))) (uf_ops s)))))"
proof -
  have i: "uf_initiate False stopPoss (uf_new False True has_err n) = (b, s0)"
    using assms(1) by (simp add: until_all_succeeded_def)
  have inv: "uf_inv (uf_decided has_err evs) s" and f: "\<not> uf_first s" "uf_value s" "uf_cond s = has_err"
    using uf_run_inv [OF i assms(2)] by simp_all
  note rd = uf_resumed_done [OF inv assms(3)]
  have v: "uf_err s = (if 0 \<le> uf_firstIdx s then Some errc_failed else None)"
    using rd(4) f by (simp add: uf_verdict_def set_err_from_first_idx_def)
  show ?thesis
  proof (cases "uf_decided has_err evs")
    case None
    then have "\<not> (\<exists>i e. Uf_finish i (Inl e) \<in> set evs)"
      using uf_decided_None [OF None] by fastforce
    moreover have "take_op True (the (ch_result c)) = Taken_value (projr (the (ch_result c)))" if mem: "c \<in> set (uf_ops s)" for c
    proof -
      obtain j where j: "j < length (uf_ops s)" "c = uf_ops s ! j"
        using mem by (metis in_set_conv_nth)
      have "ch_done c"
        by (rule rd(2) [rule_format, OF mem])
      then obtain r where r: "c = Ch_done r"
        by (cases c) simp_all
      then have "\<not> has_err r"
        using uf_inv_child [OF inv j(1)] j(2) f None by simp
      then show ?thesis
        using r by (cases r) simp_all
    qed
    ultimately show ?thesis
      using v f rd(5) None by (simp add: uf_take_result_def gen_expected_if_no_def Let_def)
  next
    case (Some x)
    have x: "0 \<le> x"
      using uf_decided_Some [OF Some] assms(4) by (auto split: if_splits)
    then obtain e where "Uf_finish (nat x) (Inl e) \<in> set evs"
      using uf_decided_Some [OF Some] by (auto simp: has_err_iff)
    then show ?thesis
      using v f rd(5) Some x by (auto simp: uf_take_result_def gen_expected_if_no_def Let_def)
  qed
qed

theorem until_all_succeeded_outcome_witness:
  "\<exists>s. uf_exec [Uf_start, Uf_start, Uf_finish 1 (Inr (20::nat)), Uf_note 1, Uf_finish 0 (Inl errc_timeout), Uf_note 0, Uf_count 0, Uf_count 1]
       (snd (uf_initiate False True (until_all_succeeded 2))) = Some s \<and> uf_take_result s = Inl errc_failed"
proof -
  let ?evs = "[Uf_start, Uf_start, Uf_finish 1 (Inr (20::nat)), Uf_note 1, Uf_finish 0 (Inl errc_timeout), Uf_note 0, Uf_count 0, Uf_count 1]"
    and ?s0 = "snd (uf_initiate False True (until_all_succeeded 2 :: (errc + nat) until_if))"
  have "map_option uf_resumed (uf_exec ?evs ?s0) = Some 1"
    by (simp add: uf_eval until_all_succeeded_def)
  then obtain s where s: "uf_exec ?evs ?s0 = Some s" "uf_resumed s \<noteq> 0"
    by auto
  have i: "uf_initiate False True (until_all_succeeded 2 :: (errc + nat) until_if) = (True, ?s0)"
    by (simp add: uf_eval until_all_succeeded_def)
  from until_all_succeeded_outcome [OF i s] show ?thesis
    using s(1) by auto
qed

text \<open>
  Every run of \<open>until_first\<close> and its like over one or more children ends: it takes at most four
  steps for each child (beside outer stop requests), and as long as the continuation has not been
  resumed, some step is possible; so it is resumed whenever the children finish.
\<close>

theorem until_if_ends:
  assumes "uf_initiate False stopPoss (uf_new first value cond n) = (b, s0)" and "0 < n" and "uf_exec evs s0 = Some s"
  shows "b \<and> length (filter uf_own evs) \<le> 4 * n \<and>
    (uf_resumed s = 0 \<longrightarrow> (\<exists>ev. uf_own ev \<and> uf_step ev s \<noteq> None)) \<and>
    (uf_resumed s \<noteq> 0 \<longrightarrow> (\<forall>ev. uf_step ev s = None))"
proof -
  have b: b and inv: "uf_inv (uf_decided cond evs) s" and l: "length (uf_ops s) = n"
    using uf_run_inv [OF assms(1,3)] by simp_all
  have "uf_ops s0 = replicate n Ch_idle"
    using uf_inv_initiate [OF assms(1)] by simp
  then have "ch_work (uf_ops s0) = 4 * n"
    unfolding ch_work_def by (simp add: sum_list_replicate)
  then have w: "length (filter uf_own evs) \<le> 4 * n"
    using uf_exec_work [OF assms(3)] by simp
  have "uf_resumed s = 0 \<Longrightarrow> ch_work (uf_ops s) \<noteq> 0"
    using inv l assms(2) by (auto simp: uf_inv_def ch_work_zero split: if_splits)
  moreover have "uf_step ev s = None" if r: "uf_resumed s \<noteq> 0" for ev
  proof (rule ccontr)
    assume "uf_step ev s \<noteq> None"
    then obtain s' where s': "uf_step ev s = Some s'"
      by blast
    have "ev \<noteq> Uf_outer_stop"
      using s' r by auto
    moreover have "ch_work (uf_ops s) = 0"
      using uf_resumed_done(2) [OF inv r] by (simp add: ch_work_zero ch_open_zero)
    ultimately show False
      using uf_step_work [OF s'] by simp
  qed
  ultimately show ?thesis
    using b w uf_not_stuck [OF inv] by blast
qed

theorem until_if_ends_witness:
  "\<exists>s. uf_exec [Uf_start, Uf_outer_stop, Uf_finish 0 (7::nat)] (snd (uf_initiate False True (uf_new False False (\<lambda>r. r = 7) 2))) = Some s \<and>
     (\<exists>ev. uf_own ev \<and> uf_step ev s \<noteq> None)"
proof -
  let ?evs = "[Uf_start, Uf_outer_stop, Uf_finish 0 (7::nat)]"
    and ?s0 = "snd (uf_initiate False True (uf_new False False (\<lambda>r. r = (7::nat)) 2))"
  have "map_option uf_resumed (uf_exec ?evs ?s0) = Some 0"
    by (simp add: uf_eval)
  then obtain s where s: "uf_exec ?evs ?s0 = Some s" "uf_resumed s = 0"
    by auto
  have i: "uf_initiate False True (uf_new False False (\<lambda>r. r = (7::nat)) 2) = (True, ?s0)"
    by (simp add: uf_eval)
  from until_if_ends [OF i _ s(1)] s show ?thesis
    by auto
qed

text \<open>
  When stop is requested from outside, \<open>until_all_succeeded\<close> loses the failures: the children
  stop with \<open>canceled\<close>, but none of them is recorded, because the stop state is taken; no error is
  reported, and the result is made of the values of results that hold an error.
\<close>

theorem until_all_succeeded_loses_cancel:
  "map_option uf_take_result
     (uf_exec [Uf_start, Uf_start, Uf_outer_stop, Uf_finish 0 (Inl errc_canceled), Uf_note 0, Uf_count 0,
               Uf_finish 1 (Inl errc_canceled), Uf_note 1, Uf_count 1]
        (snd (uf_initiate False True (until_all_succeeded 2 :: (errc + nat) until_if)))) =
   Some (Inr (Some (Until_all [Taken_undefined, Taken_undefined])))"
  by (simp add: uf_eval until_all_succeeded_def uf_take_result_def gen_expected_if_no_def)

lemma ua_exec_nothing: "ua_exec evs s = Some s' \<Longrightarrow> ua_ops s = [] \<Longrightarrow> s' = s"
  by (cases evs; cases "hd evs") (auto simp: next_idle_def split: if_splits)

lemma uf_exec_nothing: "uf_exec evs s = Some s' \<Longrightarrow> uf_ops s = [] \<Longrightarrow> \<not> uf_scb s \<Longrightarrow> s' = s"
  by (cases evs; cases "hd evs") (auto simp: next_idle_def split: if_splits)

text \<open>
  Without children, \<open>until_all_done\<close> and \<open>until_first\<close> suspend the caller (their \<open>initiate\<close>
  gives \<open>true\<close>) and never resume it.
\<close>

theorem until_nothing_hangs:
  "fst (ua_initiate False (ua_new 0)) \<and> fst (uf_initiate False sp (uf_new first value cond 0)) \<and>
   (case ua_exec evs (snd (ua_initiate False (ua_new 0))) of None \<Rightarrow> True | Some s \<Rightarrow> ua_resumed s = 0) \<and>
   (case uf_exec fvs (snd (uf_initiate False sp (uf_new first value cond 0))) of None \<Rightarrow> True | Some s \<Rightarrow> uf_resumed s = 0)"
  using ua_exec_nothing [of evs "snd (ua_initiate False (ua_new 0))"]
    uf_exec_nothing [of fvs "snd (uf_initiate False sp (uf_new first value cond 0))"]
  by (auto simp: ua_initiate_def ua_new_def uf_initiate_def uf_new_def split: option.splits)

text \<open>
  \<open>seq_until\<close> runs its children one after the other: with \<open>f i\<close> the result of child \<open>i\<close>, it
  stops at the first child whose result meets the condition, or else at the last, resumes then, not
  before, and gives that child's result; the children after it are never initiated.
\<close>

theorem seq_until_stops_at_first:
  assumes "k < n" and "\<And>i. i < k \<Longrightarrow> \<not> cond (f i)" and "cond (f k) \<or> Suc k = n"
  shows "\<exists>s. sq_exec (map f [0..<Suc k]) (sq_initiate (sq_new cond n)) = Some s \<and> sq_resumed s = 1 \<and>
    sq_take_result s = Some (f k) \<and> sq_ops s = map (\<lambda>i. Ch_done (f i)) [0..<Suc k] @ replicate (n - Suc k) Ch_idle \<and>
    (\<forall>j \<le> k. \<exists>t. sq_exec (map f [0..<j]) (sq_initiate (sq_new cond n)) = Some t \<and> sq_resumed t = 0 \<and> sq_idx t = j)"
proof -
  let ?st = "\<lambda>j. (sq_new cond n)\<lparr>sq_idx := j,
      sq_ops := map (\<lambda>i. Ch_done (f i)) [0..<j] @ Ch_running # replicate (n - Suc j) Ch_idle\<rparr>"
  have app: "sq_exec (rs @ [r]) s = (case sq_exec rs s of None \<Rightarrow> None | Some s' \<Rightarrow> sq_finish r s')"
    for rs :: "'a list" and r s
    by (induction rs arbitrary: s) (auto split: option.splits)
  have upto: "sq_exec (map f [0..<j]) (sq_initiate (sq_new cond n)) = Some (?st j)" if "j \<le> k" for j
    using that
  proof (induction j)
    case 0
    show ?case
      using assms(1) by (cases n) (simp_all add: sq_initiate_def sq_new_def)
  next
    case (Suc j)
    have "sq_finish (f j) (?st j) = Some (?st (Suc j))"
    proof -
      have l: "length (map (\<lambda>i. Ch_done (f i)) [0..<j]) = j"
        by simp
      obtain m where n: "n = Suc (Suc j) + m"
        using Suc.prems assms(1) le_Suc_ex [of "Suc (Suc j)" n] by auto
      have "\<not> cond (f j)"
        using assms(2) Suc.prems by simp
      then show ?thesis
        using n by (simp add: sq_finish_def sq_new_def nth_append list_update_append Let_def)
    qed
    then show ?case
      using Suc by (simp add: app)
  qed
  have fin: "sq_finish (f k) (?st k) = Some ((?st k)\<lparr>sq_resumed := 1,
      sq_ops := map (\<lambda>i. Ch_done (f i)) [0..<k] @ Ch_done (f k) # replicate (n - Suc k) Ch_idle\<rparr>)"
    using assms(1,3) by (auto simp: sq_finish_def sq_new_def nth_append list_update_append Let_def)
  have "sq_exec (map f [0..<Suc k]) (sq_initiate (sq_new cond n)) = Some ((?st k)\<lparr>sq_resumed := 1,
      sq_ops := map (\<lambda>i. Ch_done (f i)) [0..<k] @ Ch_done (f k) # replicate (n - Suc k) Ch_idle\<rparr>)"
    using upto [of k] fin by (simp add: app)
  then show ?thesis
    using upto by (auto simp: sq_take_result_def nth_append sq_new_def)
qed

theorem seq_until_stops_at_first_witness:
  "\<exists>s. sq_exec [3, 8] (sq_initiate (sq_new (\<lambda>r. r > (5::nat)) 3)) = Some s \<and> sq_take_result s = Some 8"
proof -
  let ?f = "\<lambda>i. [3, 8, 0 :: nat] ! i"
  have "map ?f [0..<Suc 1] = [3, 8]"
    by (simp add: upt_rec)
  moreover have "\<exists>s. sq_exec (map ?f [0..<Suc 1]) (sq_initiate (sq_new (\<lambda>r. r > (5::nat)) 3)) = Some s \<and>
      sq_take_result s = Some (?f 1)"
    using seq_until_stops_at_first [of 1 3 "\<lambda>r. r > (5::nat)" ?f] by fastforce
  ultimately show ?thesis
    by simp
qed

end
