(* ===== verification/Async_Group.thy ===== *)
theory Async_Group
  imports Err Countdown
begin

text \<open>
  The groups of operations of \<open>include/dsk/async_op_group.hpp\<close>: \<open>async_op_group\<close>, whose operations
  run from the moment they are added; \<open>lazy_async_op_group\<close>, whose operations are started by
  \<open>until_all_done\<close>; and \<open>lazy_async_op_group_stack\<close>, the nested cleanup scopes of a coroutine.

  As in \<open>Until\<close>, a run is a sequence of events, one for each access to shared state; an event that
  cannot happen gives \<open>None\<close>. \<open>failed\<close> is \<open>is_failed\<close> of an operation that finished with a result.
  The result handler is the user's; the results it was given are recorded. \<open>og_ok\<close> and its like
  record whether the assertions held.
\<close>

section \<open>async_op_group\<close>

text \<open>
  A node of the list \<open>ops\<close>: added, initiated, or past the call of the result handler.
\<close>

datatype 'r group_op = Gop_added | Gop_running | Gop_handled 'r

record 'r op_group =
  og_started :: bool
  og_err :: "errc option"
  og_cont :: bool
  og_ops :: "(ident \<times> 'r group_op) list"
  og_next :: ident
  og_handled :: "'r list"
  og_resumed :: nat
  og_ok :: bool

definition og_new :: "'r op_group" where
  "og_new = \<lparr>og_started = False, og_err = None, og_cont = False, og_ops = [], og_next = 0,
     og_handled = [], og_resumed = 0, og_ok = True\<rparr>"

definition og_assert :: "bool \<Rightarrow> 'r op_group \<Rightarrow> 'r op_group" where
  "og_assert P s = s\<lparr>og_ok := og_ok s \<and> P\<rparr>"

definition og_size :: "'r op_group \<Rightarrow> nat" where
  "og_size s = length (og_ops s)"

text \<open>\<open>add_and_initiate\<close> up to the end of its locked part; the initiation is an event of its own.\<close>

definition og_add :: "'r op_group \<Rightarrow> 'r op_group" where
  "og_add s0 =
     (let s = og_assert (\<not> og_started s0) (og_assert (\<not> og_cont s0) s0)
      in s\<lparr>og_ops := (og_next s, Gop_added) # og_ops s, og_next := Suc (og_next s)\<rparr>)"

definition og_set :: "ident \<Rightarrow> 'r group_op \<Rightarrow> 'r op_group \<Rightarrow> 'r op_group" where
  "og_set i x s = s\<lparr>og_ops := map (\<lambda>n. if fst n = i then (i, x) else n) (og_ops s)\<rparr>"

text \<open>The completion handler of an operation, after the result handler: under the lock, then \<open>done\<close>.\<close>

definition og_op_done :: "('r \<Rightarrow> bool) \<Rightarrow> ident \<Rightarrow> 'r \<Rightarrow> 'r op_group \<Rightarrow> 'r op_group" where
  "og_op_done failed i r s =
     (let s1 = (if failed r then s\<lparr>og_err := Some errc_one_or_more_ops_failed\<rparr> else s);
          s2 = s1\<lparr>og_ops := filter (\<lambda>n. fst n \<noteq> i) (og_ops s1)\<rparr>
      in if og_started s2 \<and> og_ops s2 = []
         then s2\<lparr>og_cont := False, og_resumed := Suc (og_resumed s2)\<rparr>
         else s2)"

text \<open>\<open>until_all_done_op::initiate\<close>\<close>

definition og_wait :: "'r op_group \<Rightarrow> bool \<times> 'r op_group" where
  "og_wait s0 =
     (if og_ops s0 = [] then (False, s0)
      else (let s = og_assert (\<not> og_started s0) (og_assert (\<not> og_cont s0) s0)
            in (True, s\<lparr>og_cont := True, og_started := True\<rparr>)))"

definition og_is_failed :: "'r op_group \<Rightarrow> bool" where
  "og_is_failed s = has_err_code (og_err s)"

definition og_take_result :: "'r op_group \<Rightarrow> errc option" where
  "og_take_result s = og_err s"

text \<open>The assertion of the destructor.\<close>

definition og_may_destroy :: "'r op_group \<Rightarrow> bool" where
  "og_may_destroy s \<longleftrightarrow> og_ops s = []"

datatype 'r og_event = Og_add | Og_start ident | Og_handle ident 'r | Og_done ident | Og_wait

fun og_step :: "('r \<Rightarrow> bool) \<Rightarrow> 'r og_event \<Rightarrow> 'r op_group \<Rightarrow> 'r op_group option" where
  "og_step failed Og_add s = Some (og_add s)"
| "og_step failed (Og_start i) s =
     (if map_of (og_ops s) i = Some Gop_added then Some (og_set i Gop_running s) else None)"
| "og_step failed (Og_handle i r) s =
     (if map_of (og_ops s) i = Some Gop_running
      then Some ((og_set i (Gop_handled r) s)\<lparr>og_handled := og_handled s @ [r]\<rparr>) else None)"
| "og_step failed (Og_done i) s =
     (case map_of (og_ops s) i of Some (Gop_handled r) \<Rightarrow> Some (og_op_done failed i r s) | _ \<Rightarrow> None)"
| "og_step failed Og_wait s = Some (snd (og_wait s))"

fun og_exec :: "('r \<Rightarrow> bool) \<Rightarrow> 'r og_event list \<Rightarrow> 'r op_group \<Rightarrow> 'r op_group option" where
  "og_exec failed [] s = Some s"
| "og_exec failed (ev # evs) s = (case og_step failed ev s of None \<Rightarrow> None | Some s' \<Rightarrow> og_exec failed evs s')"

section \<open>lazy_async_op_group\<close>

text \<open>\<open>lz_Err\<close> is the template argument \<open>Err\<close>; \<open>lz_started\<close> tells whether the loop of \<open>initiate\<close> runs.\<close>

record 'r lazy_group =
  lz_Err :: errc
  lz_n :: int
  lz_err :: "errc option"
  lz_cont :: bool
  lz_ops :: "'r child list"
  lz_handled :: "'r list"
  lz_started :: bool
  lz_resumed :: nat
  lz_ok :: bool

definition lz_new :: "errc \<Rightarrow> 'r lazy_group" where
  "lz_new E = \<lparr>lz_Err = E, lz_n = 1, lz_err = None, lz_cont = False, lz_ops = [], lz_handled = [],
     lz_started = False, lz_resumed = 0, lz_ok = True\<rparr>"

definition lz_assert :: "bool \<Rightarrow> 'r lazy_group \<Rightarrow> 'r lazy_group" where
  "lz_assert P s = s\<lparr>lz_ok := lz_ok s \<and> P\<rparr>"

definition lz_size :: "'r lazy_group \<Rightarrow> nat" where
  "lz_size s = length (lz_ops s)"

definition lz_empty :: "'r lazy_group \<Rightarrow> bool" where
  "lz_empty s \<longleftrightarrow> lz_ops s = []"

definition lz_add :: "'r lazy_group \<Rightarrow> 'r lazy_group" where
  "lz_add s0 =
     (let s = lz_assert (lz_n s0 = 1) (lz_assert (\<not> lz_cont s0) s0)
      in s\<lparr>lz_ops := lz_ops s @ [Ch_idle]\<rparr>)"

definition lz_initiate :: "bool \<Rightarrow> 'r lazy_group \<Rightarrow> bool \<times> 'r lazy_group" where
  "lz_initiate stopReq s0 =
     (let s = lz_assert (lz_n s0 = 1) (lz_assert (\<not> has_err_code (lz_err s0)) (lz_assert (\<not> lz_cont s0) s0)) in
      if stopReq then (False, s\<lparr>lz_err := Some errc_canceled\<rparr>)
      else if lz_ops s = [] then (False, s)
      else (True, s\<lparr>lz_cont := True, lz_started := True\<rparr>))"

text \<open>The completion handler of an operation: the result handler, the error, the counter.\<close>

definition lz_handle :: "nat \<Rightarrow> 'r \<Rightarrow> 'r lazy_group \<Rightarrow> 'r lazy_group" where
  "lz_handle i r s = s\<lparr>lz_ops := (lz_ops s)[i := Ch_judged r False], lz_handled := lz_handled s @ [r]\<rparr>"

definition lz_store :: "('r \<Rightarrow> bool) \<Rightarrow> nat \<Rightarrow> 'r \<Rightarrow> 'r lazy_group \<Rightarrow> 'r lazy_group" where
  "lz_store failed i r s =
     (let s1 = s\<lparr>lz_ops := (lz_ops s)[i := Ch_noted r]\<rparr>
      in if failed r then s1\<lparr>lz_err := Some (lz_Err s1)\<rparr> else s1)"

definition lz_count :: "nat \<Rightarrow> 'r \<Rightarrow> 'r lazy_group \<Rightarrow> 'r lazy_group" where
  "lz_count i r s =
     (let s1 = s\<lparr>lz_ops := (lz_ops s)[i := Ch_done r]\<rparr> in
      case add_arrive (int (length (lz_ops s1)), lz_n s1) of
        (lst, _, n) \<Rightarrow>
          if lst then s1\<lparr>lz_n := n, lz_cont := False, lz_resumed := Suc (lz_resumed s1)\<rparr>
          else s1\<lparr>lz_n := n\<rparr>)"

datatype 'r lz_event = Lz_start | Lz_finish nat 'r | Lz_store nat | Lz_count nat

fun lz_step :: "('r \<Rightarrow> bool) \<Rightarrow> 'r lz_event \<Rightarrow> 'r lazy_group \<Rightarrow> 'r lazy_group option" where
  "lz_step failed Lz_start s =
     (if lz_started s
      then map_option (\<lambda>i. s\<lparr>lz_ops := (lz_ops s)[i := Ch_running]\<rparr>) (next_idle (lz_ops s)) else None)"
| "lz_step failed (Lz_finish i r) s =
     (if i < length (lz_ops s) \<and> lz_ops s ! i = Ch_running then Some (lz_handle i r s) else None)"
| "lz_step failed (Lz_store i) s =
     (if i < length (lz_ops s)
      then (case lz_ops s ! i of Ch_judged r w \<Rightarrow> Some (lz_store failed i r s) | _ \<Rightarrow> None) else None)"
| "lz_step failed (Lz_count i) s =
     (if i < length (lz_ops s)
      then (case lz_ops s ! i of Ch_noted r \<Rightarrow> Some (lz_count i r s) | _ \<Rightarrow> None) else None)"

fun lz_exec :: "('r \<Rightarrow> bool) \<Rightarrow> 'r lz_event list \<Rightarrow> 'r lazy_group \<Rightarrow> 'r lazy_group option" where
  "lz_exec failed [] s = Some s"
| "lz_exec failed (ev # evs) s = (case lz_step failed ev s of None \<Rightarrow> None | Some s' \<Rightarrow> lz_exec failed evs s')"

text \<open>\<open>is_failed\<close> and \<open>take_result\<close> drop the operations.\<close>

definition lz_is_failed :: "'r lazy_group \<Rightarrow> bool \<times> 'r lazy_group" where
  "lz_is_failed s = (has_err_code (lz_err s), s\<lparr>lz_ops := []\<rparr>)"

definition lz_take_result :: "'r lazy_group \<Rightarrow> errc option \<times> 'r lazy_group" where
  "lz_take_result s = (lz_err s, s\<lparr>lz_ops := []\<rparr>)"

section \<open>lazy_async_op_group_stack\<close>

text \<open>The groups, the top one first; \<open>gs_err\<close> and \<open>gs_cont\<close> are of \<open>until_all_done_op\<close>.\<close>

record 'r group_stack =
  gs_Err :: errc
  gs_gps :: "'r lazy_group list"
  gs_err :: "errc option"
  gs_cont :: bool
  gs_resumed :: nat
  gs_ok :: bool

definition gs_new :: "errc \<Rightarrow> 'r group_stack" where
  "gs_new E = \<lparr>gs_Err = E, gs_gps = [], gs_err = None, gs_cont = False, gs_resumed = 0, gs_ok = True\<rparr>"

definition gs_assert :: "bool \<Rightarrow> 'r group_stack \<Rightarrow> 'r group_stack" where
  "gs_assert P s = s\<lparr>gs_ok := gs_ok s \<and> P\<rparr>"

definition gs_size :: "'r group_stack \<Rightarrow> nat" where
  "gs_size s = length (gs_gps s)"

definition gs_empty :: "'r group_stack \<Rightarrow> bool" where
  "gs_empty s \<longleftrightarrow> gs_gps s = []"

definition gs_push :: "'r group_stack \<Rightarrow> 'r group_stack" where
  "gs_push s = s\<lparr>gs_gps := lz_new (gs_Err s) # gs_gps s\<rparr>"

definition gs_pop :: "'r group_stack \<Rightarrow> 'r group_stack" where
  "gs_pop s = (gs_assert (gs_gps s \<noteq> []) s)\<lparr>gs_gps := tl (gs_gps s)\<rparr>"

definition gs_clear :: "'r group_stack \<Rightarrow> 'r group_stack" where
  "gs_clear s = s\<lparr>gs_gps := []\<rparr>"

text \<open>\<open>pop_untill_non_empty\<close>: the loop on the list of groups.\<close>

fun drop_empty :: "'r lazy_group list \<Rightarrow> 'r lazy_group list" where
  "drop_empty [] = []"
| "drop_empty (g # gs) = (if lz_empty g then drop_empty gs else g # gs)"

definition pop_untill_non_empty :: "'r group_stack \<Rightarrow> 'r group_stack" where
  "pop_untill_non_empty s = s\<lparr>gs_gps := drop_empty (gs_gps s)\<rparr>"

definition gs_add :: "'r group_stack \<Rightarrow> 'r group_stack" where
  "gs_add s =
     (case gs_gps s of [] \<Rightarrow> gs_assert False s | g # gs \<Rightarrow> s\<lparr>gs_gps := lz_add g # gs\<rparr>)"

text \<open>The destructor of \<open>push_pop_guard\<close>: nothing after a cleanup of the whole stack.\<close>

definition gs_guard_end :: "'r group_stack \<Rightarrow> 'r group_stack" where
  "gs_guard_end s =
     (case gs_gps s of [] \<Rightarrow> s | g # gs \<Rightarrow> gs_pop (gs_assert (lz_empty g) s))"

lemma drop_empty_length: "length (drop_empty gs) \<le> length gs"
  by (induction gs) auto

text \<open>
  The continuation given to the top group's \<open>until_all_done\<close>: note the failure, pop, and go on with
  the next group that is not empty, by \<open>manual_initiate\<close> (which calls the continuation again when the
  group finishes at once). \<open>stopReq\<close> is what that group finds at its start.
\<close>

function gs_next :: "errc \<Rightarrow> bool \<Rightarrow> 'r lazy_group list \<Rightarrow> errc option \<Rightarrow> 'r lazy_group list \<times> errc option \<times> bool" where
  "gs_next E stopReq gs err =
     (case gs of
        [] \<Rightarrow> ([], err, False)
      | g # rest \<Rightarrow>
          (let err' = (if fst (lz_is_failed g) then Some E else err) in
           case drop_empty rest of
             [] \<Rightarrow> ([], err', False)
           | h # hs \<Rightarrow>
               (case lz_initiate stopReq h of
                  (True, h') \<Rightarrow> (h' # hs, err', True)
                | (False, h') \<Rightarrow> gs_next E stopReq (h' # hs) err')))"
  by pat_completeness auto

termination
proof (relation "measure (\<lambda>(E, stopReq, gs, err). length gs)", goal_cases)
  case 1
  then show ?case by simp
next
  case 2
  then show ?case
    using drop_empty_length by (metis (no_types, lifting) case_prod_conv in_measure length_Cons less_Suc_eq_le)
qed

declare gs_next.simps [simp del]

definition gs_group_done :: "bool \<Rightarrow> 'r group_stack \<Rightarrow> 'r group_stack" where
  "gs_group_done stopReq s =
     (case gs_next (gs_Err s) stopReq (gs_gps s) (gs_err s) of
        (gs, err, running) \<Rightarrow>
          (let s1 = s\<lparr>gs_gps := gs, gs_err := err\<rparr>
           in if running then s1 else s1\<lparr>gs_cont := False, gs_resumed := Suc (gs_resumed s1)\<rparr>))"

text \<open>
  \<open>until_all_done_op::initiate\<close>: \<open>stopReq\<close> is what the stack finds, \<open>stopReq'\<close> what its top group
  finds a moment later.
\<close>

definition gs_initiate :: "bool \<Rightarrow> bool \<Rightarrow> 'r group_stack \<Rightarrow> bool \<times> 'r group_stack" where
  "gs_initiate stopReq stopReq' s =
     (if stopReq then (False, s\<lparr>gs_err := Some errc_canceled\<rparr>)
      else
        (let s1 = pop_untill_non_empty s in
         case gs_gps s1 of
           [] \<Rightarrow> (False, s1)
         | g # gs \<Rightarrow>
             (case lz_initiate stopReq' g of
                (b, g') \<Rightarrow> (b, s1\<lparr>gs_cont := True, gs_gps := g' # gs\<rparr>))))"

definition gs_is_failed :: "'r group_stack \<Rightarrow> bool" where
  "gs_is_failed s = has_err_code (gs_err s)"

definition gs_take_result :: "'r group_stack \<Rightarrow> errc option" where
  "gs_take_result s = gs_err s"

text \<open>An event of the top group, and what follows when it finishes.\<close>

definition gs_step :: "('r \<Rightarrow> bool) \<Rightarrow> bool \<Rightarrow> 'r lz_event \<Rightarrow> 'r group_stack \<Rightarrow> 'r group_stack option" where
  "gs_step failed stopReq ev s =
     (case gs_gps s of
        [] \<Rightarrow> None
      | g # gs \<Rightarrow>
          (case lz_step failed ev g of
             None \<Rightarrow> None
           | Some g' \<Rightarrow>
               (let s1 = s\<lparr>gs_gps := g' # gs\<rparr>
                in Some (if lz_resumed g < lz_resumed g' then gs_group_done stopReq s1 else s1))))"

fun gs_exec :: "('r \<Rightarrow> bool) \<Rightarrow> (bool \<times> 'r lz_event) list \<Rightarrow> 'r group_stack \<Rightarrow> 'r group_stack option" where
  "gs_exec failed [] s = Some s"
| "gs_exec failed (ev # evs) s =
     (case gs_step failed (fst ev) (snd ev) s of None \<Rightarrow> None | Some s' \<Rightarrow> gs_exec failed evs s')"

end
