(* ===== verification/Async_Group_Props.thy ===== *)
theory Async_Group_Props
  imports Async_Group
begin

text \<open>
  The properties of the groups of operations (\<open>Async_Group\<close>): a wait ends exactly when every
  operation has finished, each result has been handled, and the error tells whether one failed;
  cleanup scopes are run from the innermost outwards.
\<close>

section \<open>async_op_group: invariant\<close>

definition og_unhandled :: "(ident \<times> 'r group_op) list \<Rightarrow> (ident \<times> 'r group_op) list" where
  "og_unhandled ops = filter (\<lambda>n. \<forall>r. snd n \<noteq> Gop_handled r) ops"

definition og_inv :: "('r \<Rightarrow> bool) \<Rightarrow> 'r op_group \<Rightarrow> bool" where
  "og_inv failed s \<longleftrightarrow>
     og_ok s \<and> distinct (map fst (og_ops s)) \<and> (\<forall>n \<in> set (og_ops s). fst n < og_next s) \<and>
     og_resumed s = (if og_started s \<and> og_ops s = [] then 1 else 0) \<and>
     (og_err s \<noteq> None \<longrightarrow> og_err s = Some errc_one_or_more_ops_failed \<and> (\<exists>r \<in> set (og_handled s). failed r)) \<and>
     (\<forall>r \<in> set (og_handled s). failed r \<longrightarrow> og_err s \<noteq> None \<or> (\<exists>i. (i, Gop_handled r) \<in> set (og_ops s))) \<and>
     (\<forall>i r. (i, Gop_handled r) \<in> set (og_ops s) \<longrightarrow> r \<in> set (og_handled s)) \<and>
     length (og_handled s) + length (og_unhandled (og_ops s)) = og_next s"

lemma og_inv_new: "og_inv failed og_new"
  by (simp add: og_inv_def og_new_def og_unhandled_def)

text \<open>Replacing and removing the node of an identity.\<close>

lemma map_fst_set: "map fst (map (\<lambda>n. if fst n = i then (i, x) else n) ops) = map fst ops"
  by (induction ops) auto

lemma og_node_split:
  assumes "distinct (map fst ops)" and "map_of ops i = Some y"
  obtains xs ys where "ops = xs @ (i, y) # ys"
    and "map (\<lambda>n. if fst n = i then (i, x) else n) ops = xs @ (i, x) # ys"
    and "filter (\<lambda>n. fst n \<noteq> i) ops = xs @ ys"
proof -
  obtain xs ys where s: "ops = xs @ (i, y) # ys"
    using map_of_SomeD [OF assms(2)] by (meson split_list)
  have n: "fst n \<noteq> i" if "n \<in> set xs \<union> set ys" for n
    using assms(1) that by (auto simp: s rev_image_eqI)
  have "map (\<lambda>n. if fst n = i then (i, x) else n) zs = zs \<and> filter (\<lambda>n. fst n \<noteq> i) zs = zs"
    if "set zs \<subseteq> set xs \<union> set ys" for zs
  proof -
    have "\<forall>n \<in> set zs. fst n \<noteq> i"
      using n that by blast
    then show ?thesis
      by (induction zs) auto
  qed
  from this [of xs] this [of ys] have "map (\<lambda>n. if fst n = i then (i, x) else n) xs = xs"
    "map (\<lambda>n. if fst n = i then (i, x) else n) ys = ys"
    "filter (\<lambda>n. fst n \<noteq> i) xs = xs" "filter (\<lambda>n. fst n \<noteq> i) ys = ys"
    by simp_all
  then show thesis
    using that s by simp
qed

lemma og_step_ok: "og_step failed ev s = Some s' \<Longrightarrow> og_ok s' \<Longrightarrow> og_ok s"
  by (cases ev) (auto simp: og_add_def og_assert_def og_set_def og_op_done_def og_wait_def Let_def
      split: if_splits option.splits group_op.splits)

lemma og_add_inv:
  assumes "og_inv failed s" and "og_ok (og_add s)"
  shows "og_inv failed (og_add s)"
proof -
  have "\<not> og_started s"
    using assms(2) by (simp add: og_add_def og_assert_def Let_def)
  moreover have "og_next s \<notin> fst ` set (og_ops s)"
    using assms(1) by (auto simp: og_inv_def)
  ultimately show ?thesis
    using assms by (auto simp: og_inv_def og_add_def og_assert_def og_unhandled_def Let_def)
qed

lemma og_start_inv:
  assumes "og_inv failed s" and "map_of (og_ops s) i = Some Gop_added"
  shows "og_inv failed (og_set i Gop_running s)"
proof -
  have d: "distinct (map fst (og_ops s))"
    using assms(1) by (simp add: og_inv_def)
  obtain xs ys where "og_ops s = xs @ (i, Gop_added) # ys"
    and "map (\<lambda>n. if fst n = i then (i, Gop_running) else n) (og_ops s) = xs @ (i, Gop_running) # ys"
    by (rule og_node_split [OF d assms(2)])
  then show ?thesis
    using assms(1) by (auto simp: og_inv_def og_set_def og_unhandled_def)
qed

lemma og_handle_inv:
  assumes "og_inv failed s" and "map_of (og_ops s) i = Some Gop_running"
  shows "og_inv failed ((og_set i (Gop_handled r) s)\<lparr>og_handled := og_handled s @ [r]\<rparr>)"
proof -
  have d: "distinct (map fst (og_ops s))"
    using assms(1) by (simp add: og_inv_def)
  obtain xs ys where "og_ops s = xs @ (i, Gop_running) # ys"
    and "map (\<lambda>n. if fst n = i then (i, Gop_handled r) else n) (og_ops s) = xs @ (i, Gop_handled r) # ys"
    by (rule og_node_split [OF d assms(2)])
  then show ?thesis
    using assms(1) by (auto simp: og_inv_def og_set_def og_unhandled_def)
qed

lemma og_op_done_fields:
  "og_ok (og_op_done failed i r s) = og_ok s" "og_next (og_op_done failed i r s) = og_next s"
  "og_handled (og_op_done failed i r s) = og_handled s" "og_started (og_op_done failed i r s) = og_started s"
  "og_ops (og_op_done failed i r s) = filter (\<lambda>n. fst n \<noteq> i) (og_ops s)"
  "og_err (og_op_done failed i r s) = (if failed r then Some errc_one_or_more_ops_failed else og_err s)"
  "og_resumed (og_op_done failed i r s) =
     (if og_started s \<and> filter (\<lambda>n. fst n \<noteq> i) (og_ops s) = [] then Suc (og_resumed s) else og_resumed s)"
  by (simp_all add: og_op_done_def Let_def)

lemma og_done_inv:
  assumes "og_inv failed s" and "map_of (og_ops s) i = Some (Gop_handled r)"
  shows "og_inv failed (og_op_done failed i r s)"
proof -
  have d: "distinct (map fst (og_ops s))"
    using assms(1) by (simp add: og_inv_def)
  obtain xs ys where o: "og_ops s = xs @ (i, Gop_handled r) # ys"
    and f: "filter (\<lambda>n. fst n \<noteq> i) (og_ops s) = xs @ ys"
    by (rule og_node_split [OF d assms(2)])
  have "og_unhandled (og_ops s) = og_unhandled (xs @ ys)"
    by (simp add: o og_unhandled_def)
  moreover have "r \<in> set (og_handled s)"
    using assms(1) o by (auto simp: og_inv_def)
  ultimately show ?thesis
    using assms(1) o f by (auto simp: og_inv_def og_op_done_fields)
qed

lemma og_wait_inv:
  assumes "og_inv failed s" and "og_ok (snd (og_wait s))"
  shows "og_inv failed (snd (og_wait s))"
  using assms by (auto simp: og_inv_def og_wait_def og_assert_def Let_def split: if_splits)

lemma og_step_inv:
  assumes "og_inv failed s" and "og_step failed ev s = Some s'" and "og_ok s'"
  shows "og_inv failed s'"
proof (cases ev)
  case Og_add
  then show ?thesis
    using assms og_add_inv by auto
next
  case (Og_start i)
  then show ?thesis
    using assms og_start_inv by (auto split: if_splits)
next
  case (Og_handle i r)
  then show ?thesis
    using assms og_handle_inv by (auto split: if_splits)
next
  case (Og_done i)
  then show ?thesis
    using assms og_done_inv by (auto split: option.splits group_op.splits)
next
  case Og_wait
  then show ?thesis
    using assms og_wait_inv by auto
qed

lemma og_exec_ok: "og_exec failed evs s = Some s' \<Longrightarrow> og_ok s' \<Longrightarrow> og_ok s"
proof (induction failed evs s rule: og_exec.induct)
  case (1 failed s)
  then show ?case by simp
next
  case (2 failed ev evs s)
  then show ?case
    by (auto split: option.splits dest: og_step_ok)
qed

lemma og_step_next: "og_step failed ev s = Some s' \<Longrightarrow> og_next s' = og_next s + (if ev = Og_add then 1 else 0)"
  by (cases ev) (auto simp: og_add_def og_assert_def og_set_def og_op_done_fields og_wait_def Let_def
      split: if_splits option.splits group_op.splits)

lemma og_exec_inv:
  "og_exec failed evs s = Some s' \<Longrightarrow> og_ok s' \<Longrightarrow> og_inv failed s \<Longrightarrow>
   og_inv failed s' \<and> og_next s' = og_next s + length (filter (\<lambda>ev. ev = Og_add) evs)"
proof (induction failed evs s rule: og_exec.induct)
  case (1 failed s)
  then show ?case by simp
next
  case (2 failed ev evs s)
  then obtain s1 where e: "og_step failed ev s = Some s1" "og_exec failed evs s1 = Some s'"
    by (auto split: option.splits)
  have "og_inv failed s1"
    by (rule og_step_inv [OF "2.prems"(3) e(1) og_exec_ok [OF e(2) "2.prems"(2)]])
  then show ?case
    using "2.IH" [OF e "2.prems"(2)] og_step_next [OF e(1)] by simp
qed

lemma og_not_stuck:
  assumes "distinct (map fst (og_ops s))" and "og_ops s \<noteq> []"
  shows "\<exists>ev. ev \<noteq> Og_add \<and> ev \<noteq> Og_wait \<and> og_step failed ev s \<noteq> None"
proof -
  obtain i x rest where o: "og_ops s = (i, x) # rest"
    using assms(2) by (cases "og_ops s") auto
  then have m: "map_of (og_ops s) i = Some x"
    by simp
  have "\<exists>ev. ev = Og_start i \<or> ev = Og_handle i undefined \<or> ev = Og_done i"
    by blast
  show ?thesis
  proof (cases x)
    case Gop_added
    then show ?thesis
      using m by (intro exI [of _ "Og_start i"]) simp
  next
    case Gop_running
    then show ?thesis
      using m by (intro exI [of _ "Og_handle i undefined"]) simp
  next
    case (Gop_handled r)
    then show ?thesis
      using m by (intro exI [of _ "Og_done i"]) simp
  qed
qed

section \<open>lazy_async_op_group: invariant\<close>

text \<open>The error an operation that has stored its failure leaves.\<close>

definition lz_stored :: "('r \<Rightarrow> bool) \<Rightarrow> 'r child list \<Rightarrow> bool" where
  "lz_stored failed cs \<longleftrightarrow> (\<exists>c \<in> set cs. case c of Ch_noted r \<Rightarrow> failed r | Ch_done r \<Rightarrow> failed r | _ \<Rightarrow> False)"

lemma lz_stored_update:
  assumes "i < length cs"
  shows "lz_stored failed (cs[i := c]) \<or> lz_stored failed [cs ! i] \<longleftrightarrow> lz_stored failed cs \<or> lz_stored failed [c]"
proof -
  have s: "cs = take i cs @ cs ! i # drop (Suc i) cs"
    using assms by (rule id_take_nth_drop)
  have u: "cs[i := c] = take i cs @ c # drop (Suc i) cs"
    using assms by (rule upd_conv_take_nth_drop)
  have a: "lz_stored failed (xs @ y # zs) \<longleftrightarrow> lz_stored failed xs \<or> lz_stored failed [y] \<or> lz_stored failed zs" for xs y zs
    by (auto simp: lz_stored_def)
  show ?thesis
    unfolding u by (subst s) (simp add: a; blast)
qed

lemma lz_stored_single:
  "\<not> lz_stored failed [Ch_idle]" "\<not> lz_stored failed [Ch_running]" "\<not> lz_stored failed [Ch_judged r w]"
  "lz_stored failed [Ch_noted r] \<longleftrightarrow> failed r" "lz_stored failed [Ch_done r] \<longleftrightarrow> failed r"
  by (simp_all add: lz_stored_def)

lemma lz_stored_mem: "c \<in> set cs \<Longrightarrow> lz_stored failed [c] \<Longrightarrow> lz_stored failed cs"
  by (auto simp: lz_stored_def)

lemma lz_stored_done:
  "\<forall>c \<in> set cs. ch_done c \<Longrightarrow>
   (lz_stored failed cs \<longleftrightarrow> (\<exists>r \<in> set (somes (map ch_result cs)). failed r)) \<and> length (somes (map ch_result cs)) = length cs"
proof (induction cs)
  case Nil
  then show ?case by (simp add: lz_stored_def)
next
  case (Cons c cs)
  then obtain r where "c = Ch_done r"
    by (cases c) simp_all
  then show ?case
    using Cons by (auto simp: lz_stored_def simp del: set_somes)
qed

definition lz_inv :: "('r \<Rightarrow> bool) \<Rightarrow> 'r lazy_group \<Rightarrow> bool" where
  "lz_inv failed s \<longleftrightarrow>
     lz_ok s \<and> lz_started s \<and> lz_ops s \<noteq> [] \<and>
     lz_n s = 1 + int (length (lz_ops s)) - int (ch_open (lz_ops s)) \<and>
     lz_resumed s = (if ch_open (lz_ops s) = 0 then 1 else 0) \<and>
     lz_err s = (if lz_stored failed (lz_ops s) then Some (lz_Err s) else None) \<and>
     mset (lz_handled s) = mset (somes (map ch_result (lz_ops s)))"

text \<open>A group that has not been started.\<close>

definition lz_fresh :: "errc \<Rightarrow> 'r lazy_group \<Rightarrow> bool" where
  "lz_fresh E s \<longleftrightarrow>
     lz_ok s \<and> \<not> lz_started s \<and> lz_Err s = E \<and> lz_n s = 1 \<and> lz_err s = None \<and> \<not> lz_cont s \<and> lz_resumed s = 0 \<and>
     lz_handled s = [] \<and> (\<forall>c \<in> set (lz_ops s). c = Ch_idle)"

lemma lz_fresh_add:
  "lz_fresh E s \<Longrightarrow> lz_fresh E (lz_add s) \<and> lz_ops (lz_add s) = lz_ops s @ [Ch_idle]"
  by (auto simp: lz_fresh_def lz_add_def lz_assert_def Let_def)

lemma lz_fresh_adds:
  fixes g :: "'r lazy_group"
  assumes "lz_fresh E g" and "lz_ops g = []"
  shows "lz_fresh E ((lz_add ^^ n) g) \<and> lz_ops ((lz_add ^^ n) g) = replicate n Ch_idle"
proof (induction n)
  case 0
  then show ?case using assms by simp
next
  case (Suc n)
  then show ?case
    using lz_fresh_add [of E "(lz_add ^^ n) g"] by (simp add: replicate_append_same)
qed

lemma lz_fresh_new: "lz_fresh E (lz_new E) \<and> lz_ops (lz_new E) = []"
  by (simp add: lz_fresh_def lz_new_def)

lemma lz_initiate_inv:
  assumes "lz_fresh E s" and "lz_ops s \<noteq> []"
  shows "fst (lz_initiate False s) \<and> lz_inv failed (snd (lz_initiate False s)) \<and>
    lz_ops (snd (lz_initiate False s)) = lz_ops s \<and> lz_Err (snd (lz_initiate False s)) = E"
proof -
  have i: "\<forall>c \<in> set (lz_ops s). c = Ch_idle"
    using assms(1) by (simp add: lz_fresh_def)
  then have "filter (\<lambda>c. \<not> ch_done c) (lz_ops s) = lz_ops s"
    by (intro filter_True) auto
  then have "ch_open (lz_ops s) = length (lz_ops s)"
    by (simp add: ch_open_def)
  moreover have "\<forall>c \<in> set (lz_ops s). ch_result c = None"
    using i by (metis ch_result.simps(4))
  then have "somes (map ch_result (lz_ops s)) = []"
    by (simp add: somes_eq_Nil)
  moreover have "\<not> lz_stored failed (lz_ops s)"
    using i by (auto simp: lz_stored_def)
  ultimately show ?thesis
    using assms by (simp add: lz_fresh_def lz_inv_def lz_initiate_def lz_assert_def Let_def)
qed

text \<open>One child changes: what the invariant says of the others is kept.\<close>

lemma mset_results_update:
  assumes "i < length cs"
  shows "mset (somes (map ch_result (cs[i := c]))) + mset (somes [ch_result (cs ! i)]) =
    mset (somes (map ch_result cs)) + mset (somes [ch_result c])"
proof -
  have s: "cs = take i cs @ cs ! i # drop (Suc i) cs"
    using assms by (rule id_take_nth_drop)
  have u: "cs[i := c] = take i cs @ c # drop (Suc i) cs"
    using assms by (rule upd_conv_take_nth_drop)
  have sp: "somes (x # xs) = somes [x] @ somes xs" for x :: "'a option" and xs
    by (cases x) simp_all
  have "mset (somes (map ch_result cs)) =
      mset (somes (map ch_result (take i cs))) + mset (somes [ch_result (cs ! i)]) + mset (somes (map ch_result (drop (Suc i) cs)))"
    by (subst s) (simp add: sp [of "ch_result (cs ! i)" "map ch_result (drop (Suc i) cs)"])
  moreover have "mset (somes (map ch_result (cs[i := c]))) =
      mset (somes (map ch_result (take i cs))) + mset (somes [ch_result c]) + mset (somes (map ch_result (drop (Suc i) cs)))"
    unfolding u by (simp add: sp [of "ch_result c" "map ch_result (drop (Suc i) cs)"])
  ultimately show ?thesis
    by simp
qed

lemma lz_step_inv:
  assumes "lz_inv failed s" and "lz_step failed ev s = Some s'"
  shows "lz_inv failed s' \<and> length (lz_ops s') = length (lz_ops s) \<and> lz_Err s' = lz_Err s \<and>
    Suc (ch_work (lz_ops s')) = ch_work (lz_ops s) \<and>
    (\<exists>q. lz_handled s' = lz_handled s @ q \<and> (case ev of Lz_finish i r \<Rightarrow> q = [r] | _ \<Rightarrow> q = []))"
proof (cases ev)
  case Lz_start
  then obtain i where i: "next_idle (lz_ops s) = Some i" "s' = s\<lparr>lz_ops := (lz_ops s)[i := Ch_running]\<rparr>"
    using assms(2) by (auto split: if_splits)
  then have n: "i < length (lz_ops s)" "lz_ops s ! i = Ch_idle"
    using next_idle_Some by blast+
  show ?thesis
    using assms(1) i Lz_start n ch_open_update [OF n(1), of Ch_running] lz_stored_update [OF n(1), of failed Ch_running]
      mset_results_update [OF n(1), of Ch_running] ch_work_update [OF n(1), of Ch_running]
    by (simp add: lz_inv_def lz_stored_def)
next
  case (Lz_finish i r)
  then have n: "i < length (lz_ops s)" "lz_ops s ! i = Ch_running" and s': "s' = lz_handle i r s"
    using assms(2) by (auto split: if_splits)
  show ?thesis
    using assms(1) s' Lz_finish n ch_open_update [OF n(1), of "Ch_judged r False"]
      lz_stored_update [OF n(1), of failed "Ch_judged r False"]
      mset_results_update [OF n(1), of "Ch_judged r False"] ch_work_update [OF n(1), of "Ch_judged r False"]
    by (simp add: lz_inv_def lz_stored_def lz_handle_def)
next
  case (Lz_store i)
  then obtain r w where n: "i < length (lz_ops s)" "lz_ops s ! i = Ch_judged r w" and s': "s' = lz_store failed i r s"
    using assms(2) by (auto split: if_splits child.splits)
  have st: "lz_stored failed ((lz_ops s)[i := Ch_noted r]) \<longleftrightarrow> lz_stored failed (lz_ops s) \<or> failed r"
    using lz_stored_update [OF n(1), of failed "Ch_noted r"] n(2) by (simp add: lz_stored_def)
  show ?thesis
    using assms(1) s' Lz_store n st ch_open_update [OF n(1), of "Ch_noted r"]
      mset_results_update [OF n(1), of "Ch_noted r"] ch_work_update [OF n(1), of "Ch_noted r"]
    by (simp add: lz_inv_def lz_store_def Let_def)
next
  case (Lz_count i)
  then obtain r where n: "i < length (lz_ops s)" "lz_ops s ! i = Ch_noted r" and s': "s' = lz_count i r s"
    using assms(2) by (auto split: if_splits child.splits)
  let ?cs = "(lz_ops s)[i := Ch_done r]"
  have o: "ch_open (lz_ops s) = Suc (ch_open ?cs)"
    using ch_open_update [OF n(1), of "Ch_done r"] n(2) by simp
  obtain lst sz m where a: "add_arrive (int (length (lz_ops s)), lz_n s) = (lst, sz, m)"
    by (metis prod_cases3)
  have p: "add_pending (int (length (lz_ops s)), lz_n s) = ch_open (lz_ops s)"
    using assms(1) by (simp add: lz_inv_def add_pending_def)
  have l: "lst \<longleftrightarrow> ch_open ?cs = 0" and m: "m = 1 + int (length (lz_ops s)) - int (ch_open ?cs)"
    using cd_add.arrive_last [of "(int (length (lz_ops s)), lz_n s)"] a p o assms(1)
    by (auto simp: add_arrive_def lz_inv_def)
  have st: "lz_stored failed ?cs \<longleftrightarrow> lz_stored failed (lz_ops s)"
    using lz_stored_update [OF n(1), of failed "Ch_done r"] n lz_stored_mem [of "Ch_noted r" "lz_ops s" failed]
      lz_stored_mem [of "Ch_done r" ?cs failed] nth_mem [OF n(1)] set_update_memI [OF n(1), of "Ch_done r"]
    by (auto simp: lz_stored_single)
  have r: "lz_resumed s = 0"
    using assms(1) o by (simp add: lz_inv_def)
  have f: "lz_ops s' = ?cs" "lz_n s' = m" "lz_resumed s' = (if lst then 1 else 0)" "lz_started s' = lz_started s"
    "lz_err s' = lz_err s" "lz_Err s' = lz_Err s" "lz_ok s' = lz_ok s" "lz_handled s' = lz_handled s"
    using s' a r by (auto simp: lz_count_def Let_def)
  have "lz_ops s \<noteq> []"
    using n(1) by auto
  then show ?thesis
    using assms(1) f l m st n mset_results_update [OF n(1), of "Ch_done r"] ch_work_update [OF n(1), of "Ch_done r"] Lz_count
    by (simp add: lz_inv_def)
qed

text \<open>The results the operations of an execution finished with.\<close>

fun lz_finished :: "'r lz_event list \<Rightarrow> 'r list" where
  "lz_finished [] = []"
| "lz_finished (Lz_finish i r # evs) = r # lz_finished evs"
| "lz_finished (ev # evs) = lz_finished evs"

lemma lz_exec_inv:
  "lz_exec failed evs s = Some s' \<Longrightarrow> lz_inv failed s \<Longrightarrow>
   lz_inv failed s' \<and> length (lz_ops s') = length (lz_ops s) \<and> lz_Err s' = lz_Err s \<and>
   length evs + ch_work (lz_ops s') = ch_work (lz_ops s) \<and> lz_handled s' = lz_handled s @ lz_finished evs"
proof (induction failed evs s rule: lz_exec.induct)
  case (1 failed s)
  then show ?case by simp
next
  case (2 failed ev evs s)
  then obtain s1 where e: "lz_step failed ev s = Some s1" "lz_exec failed evs s1 = Some s'"
    by (auto split: option.splits)
  note st = lz_step_inv [OF "2.prems"(2) e(1)]
  show ?case
    using "2.IH" [OF e] st by (cases ev) auto
qed

lemma lz_not_stuck:
  assumes "lz_inv failed s" and "ch_work (lz_ops s) \<noteq> 0"
  shows "\<exists>ev. lz_step failed ev s \<noteq> None"
proof (cases "Ch_idle \<in> set (lz_ops s)")
  case True
  then obtain i where "next_idle (lz_ops s) = Some i"
    using next_idle_None [of "lz_ops s"] by fastforce
  then have "lz_step failed Lz_start s \<noteq> None"
    using assms(1) by (simp add: lz_inv_def)
  then show ?thesis by blast
next
  case False
  have "ch_open (lz_ops s) \<noteq> 0"
    using assms(2) by (simp add: ch_work_zero)
  then obtain i where i: "i < length (lz_ops s)" "\<not> ch_done (lz_ops s ! i)"
    by (auto simp: ch_open_zero in_set_conv_nth)
  have "lz_ops s ! i \<noteq> Ch_idle"
    using False i(1) nth_mem by metis
  then consider "lz_step failed (Lz_finish i undefined) s \<noteq> None" | "lz_step failed (Lz_store i) s \<noteq> None"
    | "lz_step failed (Lz_count i) s \<noteq> None"
    using i by (cases "lz_ops s ! i") auto
  then show ?thesis
    by cases blast+
qed

text \<open>When all have been counted, the stored error is that of the handled results.\<close>

lemma lz_all_done:
  assumes "lz_inv failed s" and "ch_open (lz_ops s) = 0"
  shows "lz_err s = (if \<exists>r \<in> set (lz_handled s). failed r then Some (lz_Err s) else None) \<and>
    length (lz_handled s) = length (lz_ops s)"
proof -
  have d: "\<forall>c \<in> set (lz_ops s). ch_done c"
    using assms(2) by (simp add: ch_open_zero)
  note lz_stored_done [OF d, of failed]
  moreover have m: "mset (lz_handled s) = mset (somes (map ch_result (lz_ops s)))"
    using assms(1) by (simp add: lz_inv_def)
  ultimately show ?thesis
    using assms(1) mset_eq_setD [OF m] mset_eq_length [OF m] by (auto simp: lz_inv_def simp del: set_somes)
qed

section \<open>lazy_async_op_group_stack: invariant\<close>

definition gs_work :: "'r group_stack \<Rightarrow> nat" where
  "gs_work s = sum_list (map (\<lambda>g. ch_work (lz_ops g)) (gs_gps s))"

text \<open>A failure that has been stored, or that the top group will report.\<close>

definition gs_bad :: "('r \<Rightarrow> bool) \<Rightarrow> 'r group_stack \<Rightarrow> bool" where
  "gs_bad failed s \<longleftrightarrow>
     gs_err s \<noteq> None \<or> (case gs_gps s of [] \<Rightarrow> False | g # gs \<Rightarrow> \<exists>r \<in> set (lz_handled g). failed r)"

text \<open>\<open>G\<close> are the groups at the start: the top one has started, those below it are as they were.\<close>

definition gs_inv :: "('r \<Rightarrow> bool) \<Rightarrow> errc \<Rightarrow> 'r lazy_group list \<Rightarrow> 'r group_stack \<Rightarrow> bool" where
  "gs_inv failed E G s \<longleftrightarrow>
     gs_Err s = E \<and> (gs_err s = None \<or> gs_err s = Some E) \<and>
     (case gs_gps s of
        [] \<Rightarrow> gs_resumed s = 1
      | g # gs \<Rightarrow>
          gs_resumed s = 0 \<and> lz_inv failed g \<and> ch_open (lz_ops g) \<noteq> 0 \<and>
          (\<exists>k < length G. gs = drop (Suc k) G \<and> length (lz_ops g) = length (lz_ops (G ! k))))"

lemma lz_fresh_work: "lz_fresh E g \<Longrightarrow> ch_work (lz_ops g) = 4 * length (lz_ops g)"
proof -
  assume "lz_fresh E g"
  then have "\<forall>c \<in> set (lz_ops g). c = Ch_idle"
    by (simp add: lz_fresh_def)
  then have "map ch_cost (lz_ops g) = map (\<lambda>_. 4) (lz_ops g)"
    by (intro map_cong) auto
  then show ?thesis
    by (simp add: ch_work_def sum_list_triv del: map_eq_conv)
qed

lemma lz_started_open:
  assumes "lz_fresh E h" and "lz_ops h \<noteq> []"
  shows "ch_open (lz_ops h) \<noteq> 0"
proof -
  have "ch_work (lz_ops h) \<noteq> 0"
    using assms by (simp add: lz_fresh_work)
  then show ?thesis
    by (simp add: ch_work_zero)
qed

lemma drop_empty_suffix:
  "drop_empty gs = h # hs \<Longrightarrow>
   \<exists>j < length gs. gs ! j = h \<and> hs = drop (Suc j) gs \<and> lz_ops h \<noteq> [] \<and> (\<forall>g \<in> set (take j gs). lz_ops g = [])"
proof (induction gs)
  case Nil
  then show ?case by simp
next
  case (Cons g gs)
  show ?case
  proof (cases "lz_empty g")
    case True
    then obtain j where "j < length gs" "gs ! j = h" "hs = drop (Suc j) gs" "lz_ops h \<noteq> []"
        "\<forall>g \<in> set (take j gs). lz_ops g = []"
      using Cons by auto
    then show ?thesis
      using True by (intro exI [of _ "Suc j"]) (simp add: lz_empty_def)
  next
    case False
    then show ?thesis
      using Cons.prems by (intro exI [of _ 0]) (simp add: lz_empty_def)
  qed
qed

lemma drop_empty_work:
  "sum_list (map (\<lambda>g. ch_work (lz_ops g)) (drop_empty gs)) = sum_list (map (\<lambda>g. ch_work (lz_ops g)) gs)"
  by (induction gs) (simp_all add: lz_empty_def ch_work_def)

text \<open>What one event of the top group does, and what follows when the group has finished.\<close>

lemma gs_group_done_inv:
  assumes "gs_Err s = E" "gs_err s = None \<or> gs_err s = Some E" "gs_gps s = g # drop (Suc k) G" "gs_resumed s = 0"
    and g: "lz_inv failed g" "ch_open (lz_ops g) = 0" and G: "\<forall>h \<in> set G. lz_fresh E0 h"
  shows "gs_inv failed E G (gs_group_done False s) \<and> gs_work (gs_group_done False s) = gs_work s \<and>
    (gs_bad failed (gs_group_done False s) \<longleftrightarrow> gs_bad failed s)"
proof -
  let ?err = "if lz_err g \<noteq> None then Some E else gs_err s"
  have bad: "lz_err g \<noteq> None \<longleftrightarrow> (\<exists>r \<in> set (lz_handled g). failed r)"
    using lz_all_done [OF g] by auto
  have w: "ch_work (lz_ops g) = 0"
    using g(2) by (simp add: ch_work_zero)
  show ?thesis
  proof (cases "drop_empty (drop (Suc k) G)")
    case Nil
    then have n: "gs_next E False (gs_gps s) (gs_err s) = ([], ?err, False)"
      by (simp add: gs_next.simps assms(3) lz_is_failed_def has_err_code_def Let_def)
    have "gs_work s = 0"
      using drop_empty_work [of "drop (Suc k) G"] Nil w by (simp add: gs_work_def assms(3))
    then show ?thesis
      using n assms(1-4) bad by (auto simp: gs_group_done_def gs_inv_def gs_work_def gs_bad_def Let_def)
  next
    case (Cons h hs)
    then obtain j where j: "j < length (drop (Suc k) G)" "drop (Suc k) G ! j = h"
        "hs = drop (Suc j) (drop (Suc k) G)" "lz_ops h \<noteq> []"
      using drop_empty_suffix by metis
    have f: "lz_fresh E0 h"
      using G j by (metis in_set_dropD nth_mem)
    obtain b h' where i: "lz_initiate False h = (b, h')"
      by fastforce
    have h': "b" "lz_inv failed h'" "lz_ops h' = lz_ops h"
      using lz_initiate_inv [OF f j(4), of failed] i by simp_all
    have hd: "lz_handled h' = []"
      using i f h'(1) by (auto simp: lz_initiate_def lz_assert_def lz_fresh_def Let_def split: if_splits)
    have n: "gs_next E False (gs_gps s) (gs_err s) = (h' # hs, ?err, True)"
      using Cons i h'(1) by (simp add: gs_next.simps [of E False] assms(3) lz_is_failed_def has_err_code_def Let_def)
    have d: "hs = drop (Suc (Suc k + j)) G" "Suc k + j < length G" "G ! (Suc k + j) = h"
      using j by (simp_all add: add.commute)
    have e: "gs_group_done False s = s\<lparr>gs_gps := h' # hs, gs_err := ?err\<rparr>"
      using n assms(1) by (simp add: gs_group_done_def Let_def)
    have "gs_work s = ch_work (lz_ops h) + sum_list (map (\<lambda>g. ch_work (lz_ops g)) hs)"
      using drop_empty_work [of "drop (Suc k) G"] Cons w by (simp add: gs_work_def assms(3))
    moreover have "ch_open (lz_ops h') \<noteq> 0"
      using lz_started_open [OF f j(4)] h'(3) by simp
    moreover have "\<exists>k' < length G. hs = drop (Suc k') G \<and> length (lz_ops h) = length (lz_ops (G ! k'))"
      using d by (intro exI [of _ "Suc k + j"]) simp
    moreover have "gs_bad failed (gs_group_done False s) \<longleftrightarrow> gs_bad failed s"
      using hd bad assms(3) by (simp add: e gs_bad_def)
    ultimately show ?thesis
      using assms(1,2,4) h' by (simp add: e gs_inv_def gs_work_def)
  qed
qed

lemma lz_step_resumed:
  assumes "lz_inv failed g" and "lz_step failed ev g = Some g'" and "ch_open (lz_ops g) \<noteq> 0"
  shows "lz_resumed g < lz_resumed g' \<longleftrightarrow> ch_open (lz_ops g') = 0"
  using lz_step_inv [OF assms(1,2)] assms(1,3) by (auto simp: lz_inv_def)

lemma gs_step_inv:
  assumes s: "gs_inv failed E G s" and G: "\<forall>h \<in> set G. lz_fresh E0 h"
    and e: "gs_step failed False ev s = Some s'"
  shows "gs_inv failed E G s' \<and> Suc (gs_work s') = gs_work s \<and>
    (gs_bad failed s' \<longleftrightarrow> gs_bad failed s \<or> (\<exists>i r. ev = Lz_finish i r \<and> failed r))"
proof -
  obtain g gs where gs: "gs_gps s = g # gs"
    using e by (cases "gs_gps s") (simp_all add: gs_step_def)
  obtain g' where g': "lz_step failed ev g = Some g'"
    using e gs by (cases "lz_step failed ev g") (simp_all add: gs_step_def)
  obtain k where i: "gs_Err s = E" "gs_err s = None \<or> gs_err s = Some E" "gs_resumed s = 0" "lz_inv failed g"
      "ch_open (lz_ops g) \<noteq> 0" "k < length G" "gs = drop (Suc k) G" "length (lz_ops g) = length (lz_ops (G ! k))"
    using s by (auto simp: gs_inv_def gs)
  let ?s = "s\<lparr>gs_gps := g' # gs\<rparr>"
  note st = lz_step_inv [OF i(4) g']
  have s': "s' = (if ch_open (lz_ops g') = 0 then gs_group_done False ?s else ?s)"
    using e gs g' lz_step_resumed [OF i(4) g' i(5)] by (simp add: gs_step_def Let_def)
  have w: "Suc (gs_work ?s) = gs_work s"
    using st by (simp add: gs_work_def gs)
  have b: "gs_bad failed ?s \<longleftrightarrow> gs_bad failed s \<or> (\<exists>i r. ev = Lz_finish i r \<and> failed r)"
    using st by (cases ev) (auto simp: gs_bad_def gs)
  show ?thesis
  proof (cases "ch_open (lz_ops g') = 0")
    case True
    then show ?thesis
      using gs_group_done_inv [of ?s E g' k G failed E0] i st G s' w b by simp
  next
    case False
    then have "gs_inv failed E G ?s"
      using i st by (auto simp: gs_inv_def)
    then show ?thesis
      using False s' w b by simp
  qed
qed

lemma gs_exec_inv:
  "gs_exec failed (map (Pair False) evs) s = Some s' \<Longrightarrow> gs_inv failed E G s \<Longrightarrow> \<forall>h \<in> set G. lz_fresh E0 h \<Longrightarrow>
   gs_inv failed E G s' \<and> length evs + gs_work s' = gs_work s \<and>
   (gs_bad failed s' \<longleftrightarrow> gs_bad failed s \<or> (\<exists>r \<in> set (lz_finished evs). failed r))"
proof (induction evs arbitrary: s)
  case Nil
  then show ?case by simp
next
  case (Cons ev evs)
  then obtain s1 where e: "gs_step failed False ev s = Some s1" "gs_exec failed (map (Pair False) evs) s1 = Some s'"
    by (auto split: option.splits)
  note st = gs_step_inv [OF Cons.prems(2,3) e(1)]
  then have "gs_inv failed E G s' \<and> length evs + gs_work s' = gs_work s1 \<and>
      (gs_bad failed s' \<longleftrightarrow> gs_bad failed s1 \<or> (\<exists>r \<in> set (lz_finished evs). failed r))"
    using Cons.IH [OF e(2) _ Cons.prems(3)] by blast
  then show ?case
    using st by (cases ev) auto
qed

lemma gs_initiate_inv:
  assumes "gs_gps s = G" "gs_Err s = E" "gs_err s = None" "gs_resumed s = 0"
    and G: "\<forall>h \<in> set G. lz_fresh E h" and "\<exists>g \<in> set G. lz_ops g \<noteq> []"
  shows "fst (gs_initiate False False s) \<and> gs_inv failed E G (snd (gs_initiate False False s)) \<and>
    gs_work (snd (gs_initiate False False s)) = gs_work s \<and> \<not> gs_bad failed (snd (gs_initiate False False s))"
proof -
  have "drop_empty G \<noteq> []"
    using assms(6) by (induction G) (auto simp: lz_empty_def)
  then obtain h hs where d: "drop_empty G = h # hs"
    by (meson neq_Nil_conv)
  then obtain j where j: "j < length G" "G ! j = h" "hs = drop (Suc j) G" "lz_ops h \<noteq> []"
    using drop_empty_suffix by metis
  have f: "lz_fresh E h"
    using G j by (metis nth_mem)
  obtain b h' where i: "lz_initiate False h = (b, h')"
    by fastforce
  have h': "b" "lz_inv failed h'" "lz_ops h' = lz_ops h"
    using lz_initiate_inv [OF f j(4), of failed] i by simp_all
  have hd: "lz_handled h' = []"
    using i f h'(1) by (auto simp: lz_initiate_def lz_assert_def lz_fresh_def Let_def split: if_splits)
  have e: "gs_initiate False False s = (True, s\<lparr>gs_cont := True, gs_gps := h' # hs\<rparr>)"
    using d i h'(1) assms(1) by (simp add: gs_initiate_def pop_untill_non_empty_def Let_def)
  have "\<exists>k < length G. hs = drop (Suc k) G \<and> length (lz_ops h') = length (lz_ops (G ! k))"
    using j h'(3) by (intro exI [of _ j]) simp
  then show ?thesis
    using assms(1-4) e h' hd lz_started_open [OF f j(4)] drop_empty_work [of G] d
    by (simp add: gs_inv_def gs_work_def gs_bad_def)
qed

lemma gs_not_stuck:
  assumes "gs_inv failed E G s" and "gs_gps s \<noteq> []"
  shows "\<exists>ev. gs_step failed b ev s \<noteq> None"
proof -
  obtain g gs where gs: "gs_gps s = g # gs"
    using assms(2) by (meson neq_Nil_conv)
  have "lz_inv failed g" "ch_work (lz_ops g) \<noteq> 0"
    using assms(1) by (simp_all add: gs_inv_def gs ch_work_zero)
  then obtain ev g' where "lz_step failed ev g = Some g'"
    using lz_not_stuck by blast
  then show ?thesis
    by (intro exI [of _ ev]) (simp add: gs_step_def gs Let_def)
qed

lemma sum_list_pos_ex: "0 < sum_list ns \<Longrightarrow> \<exists>n \<in> set ns. n \<noteq> (0 :: nat)"
  by (induction ns) auto

section \<open>The groups' claims\<close>

lemmas group_eval = next_idle_def og_new_def og_add_def og_assert_def og_set_def og_op_done_def og_wait_def og_take_result_def
  lz_new_def lz_add_def lz_assert_def lz_initiate_def lz_handle_def lz_store_def lz_count_def add_arrive_def
  lz_take_result_def lz_is_failed_def lz_empty_def lz_inv_def gs_new_def gs_push_def gs_add_def gs_assert_def gs_initiate_def
  pop_untill_non_empty_def gs_step_def gs_group_done_def gs_take_result_def numeral_2_eq_2 Let_def

text \<open>
  C16: Waiting for an \<open>async_op_group\<close>. However additions, starts, results and completions interleave (as
  long as no assertion fails), the waiter is resumed at most once, exactly when \<open>until_all_done\<close> has
  started and no operation is left; every added operation has then had its result handled, and the
  result of the wait is \<open>one_or_more_ops_failed\<close> exactly when one of those results was a failure.
  While an operation is left the group is not stuck: some operation can go on.
\<close>

theorem group_waits_for_all:
  assumes "og_exec failed evs og_new = Some s" and "og_ok s"
  shows "og_resumed s = (if og_started s \<and> og_ops s = [] then 1 else 0) \<and>
    (og_ops s = [] \<longrightarrow>
       length (og_handled s) = length (filter (\<lambda>ev. ev = Og_add) evs) \<and>
       og_take_result s =
         (if \<exists>r \<in> set (og_handled s). failed r then Some errc_one_or_more_ops_failed else None)) \<and>
    (og_ops s \<noteq> [] \<longrightarrow> (\<exists>ev. ev \<noteq> Og_add \<and> ev \<noteq> Og_wait \<and> og_step failed ev s \<noteq> None))"
proof -
  have i: "og_inv failed s" and n: "og_next s = length (filter (\<lambda>ev. ev = Og_add) evs)"
    using og_exec_inv [OF assms og_inv_new] by (simp_all add: og_new_def)
  have "distinct (map fst (og_ops s))"
    using i by (simp add: og_inv_def)
  then have "og_ops s \<noteq> [] \<longrightarrow> (\<exists>ev. ev \<noteq> Og_add \<and> ev \<noteq> Og_wait \<and> og_step failed ev s \<noteq> None)"
    using og_not_stuck by blast
  then show ?thesis
    using i n by (auto simp: og_inv_def og_unhandled_def og_take_result_def)
qed

theorem group_waits_for_all_witness:
  "\<exists>s. og_exec (\<lambda>r. r = (0 :: nat))
     [Og_add, Og_start 0, Og_add, Og_wait, Og_start 1, Og_handle 1 0, Og_handle 0 5, Og_done 0, Og_done 1] og_new = Some s \<and>
     og_resumed s = 1 \<and> og_take_result s = Some errc_one_or_more_ops_failed \<and> og_handled s = [0, 5]"
proof -
  let ?evs = "[Og_add, Og_start 0, Og_add, Og_wait, Og_start 1, Og_handle 1 0, Og_handle 0 5, Og_done 0, Og_done 1]"
  obtain s where s: "og_exec (\<lambda>r. r = (0 :: nat)) ?evs og_new = Some s" "og_ok s" "og_started s" "og_ops s = []"
    "og_handled s = [0, 5]"
    by (simp add: group_eval)
  then show ?thesis
    using group_waits_for_all [OF s(1,2)] by simp
qed

text \<open>
  Waiting for a \<open>lazy_async_op_group\<close> of \<open>n\<close> operations. Once started, in any interleaving of the
  starts and of the completions' steps: no more than \<open>4 * n\<close> steps happen, the waiter is resumed
  exactly when all have happened, some step is always possible before, and the error is then that of
  the group exactly when one of the operations finished with a failure.
\<close>

theorem lazy_group_waits_for_all:
  fixes failed :: "'r \<Rightarrow> bool"
  assumes "0 < n" and "lz_exec failed evs (snd (lz_initiate False ((lz_add ^^ n) (lz_new E)))) = Some s"
  shows "length evs \<le> 4 * n \<and> lz_resumed s = (if length evs = 4 * n then 1 else 0) \<and>
    (length evs < 4 * n \<longrightarrow> (\<exists>ev. lz_step failed ev s \<noteq> None)) \<and>
    (length evs = 4 * n \<longrightarrow>
       length (lz_finished evs) = n \<and>
       fst (lz_take_result s) = (if \<exists>r \<in> set (lz_finished evs). failed r then Some E else None))"
proof -
  let ?g = "(lz_add ^^ n) (lz_new E) :: 'r lazy_group"
  have f: "lz_fresh E ?g" and o: "lz_ops ?g = replicate n Ch_idle"
    using lz_fresh_adds [of E "lz_new E :: 'r lazy_group" n] lz_fresh_new by blast+
  have h: "lz_handled (snd (lz_initiate False ?g)) = []"
    using f by (auto simp: lz_initiate_def lz_assert_def lz_fresh_def Let_def)
  have ne: "lz_ops ?g \<noteq> []"
    using o assms(1) by simp
  note i = lz_initiate_inv [OF f ne, of failed]
  have x: "lz_inv failed s \<and> length (lz_ops s) = n \<and> lz_Err s = E \<and>
      length evs + ch_work (lz_ops s) = 4 * n \<and> lz_handled s = lz_finished evs"
    using lz_exec_inv [OF assms(2)] i h o lz_fresh_work [OF f] by simp
  then have i: "lz_inv failed s" and w: "ch_open (lz_ops s) = 0 \<longleftrightarrow> length evs = 4 * n"
    using ch_work_zero [of "lz_ops s"] by auto
  have "\<exists>ev. lz_step failed ev s \<noteq> None" if "length evs < 4 * n"
    using lz_not_stuck [OF i] x that by simp
  moreover have "lz_resumed s = (if length evs = 4 * n then 1 else 0)"
    using i w by (simp add: lz_inv_def)
  moreover have "length (lz_finished evs) = n \<and>
      fst (lz_take_result s) = (if \<exists>r \<in> set (lz_finished evs). failed r then Some E else None)" if "length evs = 4 * n"
    using lz_all_done [OF i] w x that by (simp add: lz_take_result_def)
  ultimately show ?thesis
    using x by simp
qed

theorem lazy_group_waits_for_all_witness:
  "\<exists>s. lz_exec (\<lambda>r. r = (0 :: nat))
     [Lz_start, Lz_start, Lz_finish 1 0, Lz_store 1, Lz_finish 0 7, Lz_count 1, Lz_store 0, Lz_count 0]
     (snd (lz_initiate False ((lz_add ^^ 2) (lz_new errc_one_or_more_ops_failed)))) = Some s \<and>
     lz_resumed s = 1 \<and> fst (lz_take_result s) = Some errc_one_or_more_ops_failed"
proof -
  let ?evs = "[Lz_start, Lz_start, Lz_finish 1 0, Lz_store 1, Lz_finish 0 7, Lz_count 1, Lz_store 0, Lz_count 0]"
  obtain s where s: "lz_exec (\<lambda>r. r = (0 :: nat)) ?evs
      (snd (lz_initiate False ((lz_add ^^ 2) (lz_new errc_one_or_more_ops_failed)))) = Some s"
    by (simp add: group_eval)
  then show ?thesis
    using lazy_group_waits_for_all [OF _ s] by simp
qed

text \<open>
  C17: Cleanup scopes are run from the innermost outwards. For a stack of groups with \<open>ns\<close> operations each
  (innermost first, one at least not empty) and no stop request, in any interleaving of the steps:
  while the cleanup runs, the top group is the one of some scope \<open>k\<close>, the scopes outside it are as they
  were added, none of their operations started, all steps of the scopes inside it have happened, and
  some step is possible; the coroutine is resumed exactly when all \<open>4 * sum_list ns\<close> steps have happened,
  with an empty stack and the error exactly when some operation of some scope failed.
\<close>

theorem cleanup_scopes_run_in_order:
  fixes failed :: "'r \<Rightarrow> bool"
  assumes "gs_gps s0 = map (\<lambda>n. (lz_add ^^ n) (lz_new E)) ns" "gs_Err s0 = E" "gs_err s0 = None" "gs_resumed s0 = 0"
    and "0 < sum_list ns"
    and "gs_exec failed (map (Pair False) evs) (snd (gs_initiate False False s0)) = Some s"
  shows "length evs \<le> 4 * sum_list ns \<and> gs_resumed s = (if length evs = 4 * sum_list ns then 1 else 0) \<and>
    (length evs < 4 * sum_list ns \<longrightarrow>
       (\<exists>k < length ns. tl (gs_gps s) = map (\<lambda>n. (lz_add ^^ n) (lz_new E)) (drop (Suc k) ns) \<and>
          4 * sum_list (take k ns) \<le> length evs) \<and>
       (\<exists>ev. gs_step failed False ev s \<noteq> None)) \<and>
    (length evs = 4 * sum_list ns \<longrightarrow>
       gs_gps s = [] \<and> gs_take_result s = (if \<exists>r \<in> set (lz_finished evs). failed r then Some E else None))"
proof -
  let ?new = "\<lambda>n. (lz_add ^^ n) (lz_new E) :: 'r lazy_group"
  let ?G = "map ?new ns"
  have f: "lz_fresh E (?new n)" and o: "lz_ops (?new n) = replicate n Ch_idle" for n
    using lz_fresh_adds [of E "lz_new E :: 'r lazy_group" n] lz_fresh_new by blast+
  have w: "ch_work (lz_ops (?new n)) = 4 * n" for n
    using lz_fresh_work [OF f] o by simp
  have G: "\<forall>h \<in> set ?G. lz_fresh E h"
    using f by simp
  obtain n where "n \<in> set ns" "n \<noteq> 0"
    using sum_list_pos_ex [OF assms(5)] by blast
  then have ne: "\<exists>g \<in> set ?G. lz_ops g \<noteq> []"
    using o by auto
  have W: "sum_list (map (\<lambda>g. ch_work (lz_ops g)) (map ?new ms)) = 4 * sum_list ms" for ms
    using w by (induction ms) simp_all
  note i = gs_initiate_inv [OF assms(1-4) G ne, of failed]
  have x: "gs_inv failed E ?G s" "length evs + gs_work s = 4 * sum_list ns"
      "gs_bad failed s \<longleftrightarrow> (\<exists>r \<in> set (lz_finished evs). failed r)"
    using gs_exec_inv [OF assms(6) conjunct1 [OF conjunct2 [OF i]] G] i W [of ns] assms(1) by (simp_all add: gs_work_def)
  show ?thesis
  proof (cases "gs_gps s")
    case Nil
    then show ?thesis
      using x by (auto simp: gs_inv_def gs_work_def gs_bad_def gs_take_result_def)
  next
    case (Cons g gs)
    obtain k where k: "gs_resumed s = 0" "ch_work (lz_ops g) \<noteq> 0" "k < length ns" "gs = map ?new (drop (Suc k) ns)"
        "length (lz_ops g) = ns ! k"
      using x(1) Cons o by (auto simp: gs_inv_def ch_work_zero drop_map)
    have c: "ch_cost c \<le> 4" for c :: "'r child"
      by (cases c) simp_all
    have "ch_work (lz_ops g) \<le> 4 * ns ! k"
      using sum_list_mono [of "lz_ops g" ch_cost "\<lambda>_. 4"] c k(5) by (simp add: ch_work_def sum_list_triv)
    moreover have "sum_list ns = sum_list (take k ns) + ns ! k + sum_list (drop (Suc k) ns)"
      using arg_cong [OF id_take_nth_drop [OF k(3)], of sum_list] by simp
    moreover have "gs_work s = ch_work (lz_ops g) + 4 * sum_list (drop (Suc k) ns)"
      using W [of "drop (Suc k) ns"] k(4) Cons by (simp add: gs_work_def)
    ultimately have "4 * sum_list (take k ns) \<le> length evs" "length evs < 4 * sum_list ns"
      using x(2) k(2) by linarith+
    moreover have "\<exists>ev. gs_step failed False ev s \<noteq> None"
      using gs_not_stuck [OF x(1)] Cons by simp
    ultimately show ?thesis
      using k Cons by auto
  qed
qed

theorem cleanup_scopes_run_in_order_witness:
  "\<exists>s. gs_exec (\<lambda>r. r = (0 :: nat))
     (map (Pair False) [Lz_start, Lz_finish 0 7, Lz_store 0, Lz_count 0, Lz_start, Lz_finish 0 0, Lz_store 0, Lz_count 0])
     (snd (gs_initiate False False (gs_add (gs_push (gs_push (gs_add (gs_push (gs_new errc_one_or_more_ops_failed)))))))) = Some s \<and>
     gs_resumed s = 1 \<and> gs_take_result s = Some errc_one_or_more_ops_failed"
proof -
  let ?evs = "[Lz_start, Lz_finish 0 7, Lz_store 0, Lz_count 0, Lz_start, Lz_finish 0 0, Lz_store 0, Lz_count 0]"
  let ?s0 = "gs_add (gs_push (gs_push (gs_add (gs_push (gs_new errc_one_or_more_ops_failed))))) :: nat group_stack"
  have i: "gs_gps ?s0 = map (\<lambda>n. (lz_add ^^ n) (lz_new errc_one_or_more_ops_failed)) [1, 0, 1]"
      "gs_Err ?s0 = errc_one_or_more_ops_failed" "gs_err ?s0 = None" "gs_resumed ?s0 = 0" "(0 :: nat) < sum_list [1, 0, 1]"
    by (simp_all add: gs_new_def gs_push_def gs_add_def)
  obtain s where s: "gs_exec (\<lambda>r. r = 0) (map (Pair False) ?evs) (snd (gs_initiate False False ?s0)) = Some s"
    by (simp add: group_eval gs_next.simps)
  show ?thesis
    using cleanup_scopes_run_in_order [OF i s] s by simp
qed

text \<open>
  A stop request that arrives between the check of the stack and that of its top group: \<open>initiate\<close>
  returns \<open>False\<close>, as a cleanup that had nothing to do does, with no error set; the groups have not
  been run and the continuation has already been moved away.
\<close>

lemma stack_loses_late_stop:
  assumes "gs_gps s = g # gs" and "\<not> lz_empty g" and "gs_err s = None"
  shows "\<not> fst (gs_initiate False True s) \<and> gs_take_result (snd (gs_initiate False True s)) = None \<and>
    map lz_ops (gs_gps (snd (gs_initiate False True s))) = map lz_ops (gs_gps s) \<and>
    gs_cont (snd (gs_initiate False True s))"
  using assms by (auto simp: gs_initiate_def pop_untill_non_empty_def lz_initiate_def lz_assert_def lz_empty_def
      gs_take_result_def Let_def)

end
