(* ===== verification/Runs.thy ===== *)
theory Runs
  imports Prelude
begin

text \<open>
  Runs of a step relation labelled with actions, and the contract of a system that comes to rest:
  an invariant, a measure that every step decreases, and a description of the states in which no
  step is left. \<open>Thread_Pool_Props\<close> interprets it on the two thread pools.
\<close>

inductive run_of :: "('a \<Rightarrow> 's \<Rightarrow> 's \<Rightarrow> bool) \<Rightarrow> 'a list \<Rightarrow> 's \<Rightarrow> 's \<Rightarrow> bool" for R where
  run_nil: "run_of R [] s s"
| run_cons: "R a s s' \<Longrightarrow> run_of R as s' s'' \<Longrightarrow> run_of R (a # as) s s''"

inductive_simps run_of_simps [simp]: "run_of R [] s s'" "run_of R (a # as) s s'"

lemma run_of_append: "run_of R (as @ bs) s s' \<longleftrightarrow> (\<exists>m. run_of R as s m \<and> run_of R bs m s')"
  by (induction as arbitrary: s) auto

lemma run_of_inv:
  assumes "run_of R as s s'" and "P s" and "\<And>a s s'. P s \<Longrightarrow> R a s s' \<Longrightarrow> P s'"
  shows "P s'"
  using assms(1,2) by induction (blast intro: assms(3))+

text \<open>A step taken out of a larger relation.\<close>

lemma run_of_mono:
  assumes "run_of R as s s'" and "\<And>a s s'. R a s s' \<Longrightarrow> S a s s'"
  shows "run_of S as s s'"
  using assms(1) by induction (auto intro: assms(2))

locale comes_to_rest =
  fixes step :: "'a \<Rightarrow> 's \<Rightarrow> 's \<Rightarrow> bool"
    and inv :: "'s \<Rightarrow> bool"
    and work :: "'s \<Rightarrow> nat"
    and rest :: "'s \<Rightarrow> bool"
  assumes step_inv: "inv s \<Longrightarrow> step a s s' \<Longrightarrow> inv s'"
    and step_work: "inv s \<Longrightarrow> step a s s' \<Longrightarrow> work s' < work s"
    and step_live: "inv s \<Longrightarrow> \<not> rest s \<Longrightarrow> \<exists>a s'. step a s s'"
begin

lemma run_inv: "run_of step as s s' \<Longrightarrow> inv s \<Longrightarrow> inv s'"
  by (erule run_of_inv) (auto intro: step_inv)

lemma run_bounded: "run_of step as s s' \<Longrightarrow> inv s \<Longrightarrow> length as + work s' \<le> work s"
proof (induction rule: run_of.induct)
  case (run_nil s)
  then show ?case by simp
next
  case (run_cons a s s' as s'')
  have "length as + work s'' \<le> work s'"
    using run_cons.IH step_inv [OF run_cons.prems run_cons.hyps(1)] .
  moreover have "work s' < work s"
    by (rule step_work [OF run_cons.prems run_cons.hyps(1)])
  ultimately show ?case
    by simp
qed

lemma stuck_rests: "inv s \<Longrightarrow> \<forall>a s'. \<not> step a s s' \<Longrightarrow> rest s"
  using step_live by blast

lemma reaches_rest: "inv s \<Longrightarrow> \<exists>as s'. run_of step as s s' \<and> rest s'"
proof (induction "work s" arbitrary: s rule: less_induct)
  case less
  show ?case
  proof (cases "rest s")
    case True
    then show ?thesis
      by (intro exI [of _ "[]"] exI [of _ s]) simp
  next
    case False
    then obtain a s1 where s1: "step a s s1"
      using step_live less.prems by blast
    obtain as s' where "run_of step as s1 s'" "rest s'"
      using less.hyps [OF step_work [OF less.prems s1] step_inv [OF less.prems s1]] by blast
    then show ?thesis
      using s1 by (intro exI [of _ "a # as"] exI [of _ s']) auto
  qed
qed

end

end
