(* ===== verification/Thread_Pool.thy ===== *)
theory Thread_Pool
  imports Runs
begin

text \<open>
  The thread pools of \<open>include/dsk/simple_thread_pool.hpp\<close>: \<open>simple_thread_pool_t\<close>, a queue with its
  own mutex and condition variable per thread, from which idle threads steal, and
  \<open>naive_thread_pool_t\<close>, one queue for all.

  A section of code under a mutex is one atomic step; what happens between two such sections is an
  interleaving point. Each thread of the pool is a value of \<open>worker\<close> (or \<open>naive_worker\<close>) that says
  where its loop is. Calls of \<open>post\<close> and \<open>stop\<close> that are under way, by threads outside the pool or
  by running jobs, are kept with the point they have reached. A \<open>try_to_lock\<close> may fail at any time;
  a wait on a condition variable may end without a notification. Calls that break an assertion of
  the code are not steps. Jobs are values of a type of the user; running one is between the step
  that takes it and the action \<open>Ran\<close>, and whatever it does to the pool is an action of its own.
\<close>

type_synonym u32 = "32 word"

section \<open>simple_thread_pool_t::thread_state\<close>

record 'j thread_state =
  ts_stop :: bool
  ts_jobs :: "'j list"

definition ts_new :: "'j thread_state" where
  "ts_new = \<lparr>ts_stop = False, ts_jobs = []\<rparr>"

definition ts_try_pop :: "bool \<Rightarrow> 'j thread_state \<Rightarrow> 'j option \<times> 'j thread_state" where
  "ts_try_pop locked t =
     (if \<not> locked \<or> ts_jobs t = [] then (None, t)
      else (Some (hd (ts_jobs t)), t\<lparr>ts_jobs := tl (ts_jobs t)\<rparr>))"

text \<open>One round of the loop of \<open>pop\<close>, with the mutex held.\<close>

datatype 'j popped = Pop_stopped | Pop_waits | Pop_job 'j

definition ts_pop :: "'j thread_state \<Rightarrow> 'j popped \<times> 'j thread_state" where
  "ts_pop t =
     (if ts_stop t then (Pop_stopped, t)
      else if ts_jobs t \<noteq> [] then (Pop_job (hd (ts_jobs t)), t\<lparr>ts_jobs := tl (ts_jobs t)\<rparr>)
      else (Pop_waits, t))"

text \<open>The pushes also give whether they call \<open>notify_one\<close>.\<close>

definition ts_push :: "'j \<Rightarrow> 'j thread_state \<Rightarrow> bool \<times> 'j thread_state" where
  "ts_push j t = (ts_jobs t = [], t\<lparr>ts_jobs := ts_jobs t @ [j]\<rparr>)"

definition ts_try_push :: "bool \<Rightarrow> 'j \<Rightarrow> 'j thread_state \<Rightarrow> bool \<times> bool \<times> 'j thread_state" where
  "ts_try_push locked j t = (if \<not> locked then (False, False, t) else (True, ts_push j t))"

definition ts_set_stop :: "'j thread_state \<Rightarrow> 'j thread_state" where
  "ts_set_stop t = t\<lparr>ts_stop := True\<rparr>"

section \<open>simple_thread_pool_t\<close>

text \<open>
  Where the loop of a thread is: about to try the queue \<open>(index + i) % _size\<close>; about to lock its own
  queue in \<open>pop\<close>, the first time or after a wait; waiting; running a job; returned.
\<close>

datatype 'j worker = W_scan u32 | W_pop | W_wait | W_run 'j | W_exit

text \<open>
  \<open>tp_posts\<close> are the calls of \<open>post\<close> under way, with \<open>index\<close>, \<open>i\<close> and the job; \<open>tp_stops\<close> the calls
  of \<open>stop\<close>, with the next state to stop. The last three record the jobs posted, run to their end,
  and thrown away by \<open>join\<close>.
\<close>

record 'j thread_pool =
  tp_max :: int
  tp_size :: u32
  tp_next :: u32
  tp_states :: "'j thread_state list"
  tp_threads :: "'j worker list"
  tp_posts :: "(u32 \<times> u32 \<times> 'j) list"
  tp_stops :: "u32 list"
  tp_posted :: "'j list"
  tp_ran :: "'j list"
  tp_dropped :: "'j list"

text \<open>\<open>hw\<close> is \<open>thread::hardware_concurrency()\<close>.\<close>

definition default_max_concurrency :: "nat \<Rightarrow> int" where
  "default_max_concurrency hw = (if hw < 1 then 1 else int hw)"

definition max_concurrency_of :: "nat \<Rightarrow> int \<Rightarrow> int" where
  "max_concurrency_of hw n = (if n > 0 then n else default_max_concurrency hw)"

definition tp_set_max_concurrency :: "nat \<Rightarrow> int \<Rightarrow> 'j thread_pool \<Rightarrow> 'j thread_pool" where
  "tp_set_max_concurrency hw n s = s\<lparr>tp_max := max_concurrency_of hw n\<rparr>"

definition tp_new :: "nat \<Rightarrow> int \<Rightarrow> 'j thread_pool" where
  "tp_new hw n =
     tp_set_max_concurrency hw n
       \<lparr>tp_max = default_max_concurrency hw, tp_size = 0, tp_next = 0, tp_states = [], tp_threads = [],
        tp_posts = [], tp_stops = [], tp_posted = [], tp_ran = [], tp_dropped = []\<rparr>"

definition tp_started :: "'j thread_pool \<Rightarrow> bool" where
  "tp_started s \<longleftrightarrow> tp_size s > 0"

text \<open>The index of a queue, as the code computes it.\<close>

definition tp_slot :: "'j thread_pool \<Rightarrow> u32 \<Rightarrow> u32 \<Rightarrow> nat" where
  "tp_slot s index i = unat ((index + i) mod tp_size s)"

definition tp_start :: "'j thread_pool \<Rightarrow> 'j thread_pool" where
  "tp_start s =
     (let n = word_of_int (tp_max s) in
      s\<lparr>tp_size := n, tp_states := replicate (unat n) ts_new, tp_threads := replicate (unat n) (W_scan 0)\<rparr>)"

text \<open>The only thread that can wait on the condition variable of a state is its own.\<close>

definition notify_worker :: "nat \<Rightarrow> 'j worker list \<Rightarrow> 'j worker list" where
  "notify_worker k ws = (if k < length ws \<and> ws ! k = W_wait then ws[k := W_pop] else ws)"

text \<open>Thread \<open>k\<close> tries the \<open>i\<close>th queue from its own.\<close>

definition tp_worker_try :: "nat \<Rightarrow> u32 \<Rightarrow> bool \<Rightarrow> 'j thread_pool \<Rightarrow> 'j thread_pool" where
  "tp_worker_try k i locked s =
     (let q = tp_slot s (of_nat k) i in
      case ts_try_pop locked (tp_states s ! q) of
        (Some j, t) \<Rightarrow> s\<lparr>tp_states := (tp_states s)[q := t], tp_threads := (tp_threads s)[k := W_run j]\<rparr>
      | (None, t) \<Rightarrow>
          s\<lparr>tp_threads := (tp_threads s)[k := (if i + 1 < tp_size s then W_scan (i + 1) else W_pop)]\<rparr>)"

definition tp_worker_pop :: "nat \<Rightarrow> 'j thread_pool \<Rightarrow> 'j thread_pool" where
  "tp_worker_pop k s =
     (case ts_pop (tp_states s ! k) of
        (Pop_stopped, t) \<Rightarrow> s\<lparr>tp_threads := (tp_threads s)[k := W_exit]\<rparr>
      | (Pop_waits, t) \<Rightarrow> s\<lparr>tp_threads := (tp_threads s)[k := W_wait]\<rparr>
      | (Pop_job j, t) \<Rightarrow> s\<lparr>tp_states := (tp_states s)[k := t], tp_threads := (tp_threads s)[k := W_run j]\<rparr>)"

definition tp_worker_ran :: "nat \<Rightarrow> 'j \<Rightarrow> 'j thread_pool \<Rightarrow> 'j thread_pool" where
  "tp_worker_ran k j s = s\<lparr>tp_threads := (tp_threads s)[k := W_scan 0], tp_ran := tp_ran s @ [j]\<rparr>"

text \<open>\<open>post\<close>: the choice of an index, then one push after the other until one succeeds.\<close>

definition tp_post :: "'j \<Rightarrow> 'j thread_pool \<Rightarrow> 'j thread_pool" where
  "tp_post j s =
     s\<lparr>tp_posts := tp_posts s @ [(tp_next s mod tp_size s, 0, j)], tp_next := tp_next s + 1, tp_posted := tp_posted s @ [j]\<rparr>"

definition without :: "nat \<Rightarrow> 'a list \<Rightarrow> 'a list" where
  "without p xs = take p xs @ drop (Suc p) xs"

definition tp_pushed :: "nat \<Rightarrow> nat \<Rightarrow> bool \<Rightarrow> 'j thread_state \<Rightarrow> 'j thread_pool \<Rightarrow> 'j thread_pool" where
  "tp_pushed p q notify t s =
     s\<lparr>tp_states := (tp_states s)[q := t], tp_posts := without p (tp_posts s),
       tp_threads := (if notify then notify_worker q (tp_threads s) else tp_threads s)\<rparr>"

definition tp_post_push :: "nat \<Rightarrow> bool \<Rightarrow> 'j thread_pool \<Rightarrow> 'j thread_pool" where
  "tp_post_push p locked s =
     (case tp_posts s ! p of (index, i, j) \<Rightarrow>
        if i < tp_size s
        then (let q = tp_slot s index i in
              case ts_try_push locked j (tp_states s ! q) of
                (True, notify, t) \<Rightarrow> tp_pushed p q notify t s
              | (False, notify, t) \<Rightarrow> s\<lparr>tp_posts := (tp_posts s)[p := (index, i + 1, j)]\<rparr>)
        else (case ts_push j (tp_states s ! unat index) of (notify, t) \<Rightarrow> tp_pushed p (unat index) notify t s))"

text \<open>\<open>stop\<close>: every state in turn.\<close>

definition tp_stop :: "'j thread_pool \<Rightarrow> 'j thread_pool" where
  "tp_stop s = (if \<not> tp_started s then s else s\<lparr>tp_stops := tp_stops s @ [0]\<rparr>)"

definition tp_stop_one :: "nat \<Rightarrow> 'j thread_pool \<Rightarrow> 'j thread_pool" where
  "tp_stop_one p s =
     (let i = tp_stops s ! p; k = unat i in
      s\<lparr>tp_states := (tp_states s)[k := ts_set_stop (tp_states s ! k)],
        tp_threads := notify_worker k (tp_threads s),
        tp_stops := (if i + 1 < tp_size s then (tp_stops s)[p := i + 1] else without p (tp_stops s))\<rparr>)"

text \<open>\<open>join\<close> once every thread has returned.\<close>

definition tp_join :: "'j thread_pool \<Rightarrow> 'j thread_pool" where
  "tp_join s =
     s\<lparr>tp_threads := [], tp_states := [], tp_next := 0, tp_size := 0,
       tp_dropped := tp_dropped s @ concat (map ts_jobs (tp_states s))\<rparr>"

datatype 'j tp_action =
    Set_max nat int | Start | Try nat bool | Pop nat | Wake nat | Ran nat
  | Post 'j | Push nat bool | Stop | Stop_one nat | Join

text \<open>
  The steps. A thread that waits wakes without a notification by \<open>Wake\<close>. \<open>join\<close> must not run beside
  a \<open>post\<close> or \<open>stop\<close> that is under way: it destroys the queues.
\<close>

inductive tp_step :: "'j tp_action \<Rightarrow> 'j thread_pool \<Rightarrow> 'j thread_pool \<Rightarrow> bool" where
  tp_set_max: "max_concurrency_of hw n < 2 ^ 31 \<Longrightarrow> tp_step (Set_max hw n) s (tp_set_max_concurrency hw n s)"
| tp_start: "tp_threads s = [] \<Longrightarrow> tp_step Start s (tp_start s)"
| tp_try: "k < length (tp_threads s) \<Longrightarrow> tp_threads s ! k = W_scan i \<Longrightarrow> tp_step (Try k l) s (tp_worker_try k i l s)"
| tp_pop: "k < length (tp_threads s) \<Longrightarrow> tp_threads s ! k = W_pop \<Longrightarrow> tp_step (Pop k) s (tp_worker_pop k s)"
| tp_wake: "k < length (tp_threads s) \<Longrightarrow> tp_threads s ! k = W_wait \<Longrightarrow>
    tp_step (Wake k) s (s\<lparr>tp_threads := (tp_threads s)[k := W_pop]\<rparr>)"
| tp_ran: "k < length (tp_threads s) \<Longrightarrow> tp_threads s ! k = W_run j \<Longrightarrow> tp_step (Ran k) s (tp_worker_ran k j s)"
| tp_post: "tp_started s \<Longrightarrow> tp_step (Post j) s (tp_post j s)"
| tp_push: "p < length (tp_posts s) \<Longrightarrow> tp_step (Push p l) s (tp_post_push p l s)"
| tp_stop: "tp_step Stop s (tp_stop s)"
| tp_stop_one: "p < length (tp_stops s) \<Longrightarrow> tp_step (Stop_one p) s (tp_stop_one p s)"
| tp_join: "\<forall>w \<in> set (tp_threads s). w = W_exit \<Longrightarrow> tp_posts s = [] \<Longrightarrow> tp_stops s = [] \<Longrightarrow> tp_step Join s (tp_join s)"

text \<open>
  What a thread that calls \<open>stop_and_join\<close> or \<open>restart\<close> on a pool of \<open>n\<close> threads does, the steps of others
  coming in between.
\<close>

definition tp_stop_and_join :: "nat \<Rightarrow> 'j tp_action list" where
  "tp_stop_and_join n = Stop # replicate n (Stop_one 0) @ [Join]"

definition tp_restart :: "nat \<Rightarrow> 'j tp_action list" where
  "tp_restart n = tp_stop_and_join n @ [Start]"

inductive_simps tp_step_simps:
  "tp_step (Set_max hw n) s s'" "tp_step Start s s'" "tp_step (Try k l) s s'" "tp_step (Pop k) s s'"
  "tp_step (Wake k) s s'" "tp_step (Ran k) s s'" "tp_step (Post j) s s'" "tp_step (Push p l) s s'"
  "tp_step Stop s s'" "tp_step (Stop_one p) s s'" "tp_step Join s s'"

inductive_cases tp_stepE: "tp_step a s s'"

section \<open>naive_thread_pool_t\<close>

text \<open>
  Where a thread's loop is: about to look at \<open>_stop\<close> and \<open>_jobs\<close> under the lock, waiting, running a
  job, returned.
\<close>

datatype 'j naive_worker = N_check | N_wait | N_run 'j | N_exit

text \<open>What became of a posted job: taken by a thread, or thrown away by \<open>join\<close>.\<close>

datatype 'j fate = Begun (fate_job: 'j) | Dropped (fate_job: 'j)

text \<open>
  \<open>np_notifies\<close> counts the calls of \<open>post\<close> that have pushed and not yet notified, \<open>np_stopping\<close> the
  calls of \<open>stop\<close> that have set \<open>_stop\<close> and not yet notified.
\<close>

record 'j naive_pool =
  np_max :: int
  np_stop :: bool
  np_threads :: "'j naive_worker list"
  np_jobs :: "'j list"
  np_notifies :: nat
  np_stopping :: nat
  np_posted :: "'j list"
  np_fates :: "'j fate list"
  np_ran :: "'j list"

definition np_set_max_concurrency :: "nat \<Rightarrow> int \<Rightarrow> 'j naive_pool \<Rightarrow> 'j naive_pool" where
  "np_set_max_concurrency hw n s = s\<lparr>np_max := max_concurrency_of hw n\<rparr>"

definition np_new :: "nat \<Rightarrow> int \<Rightarrow> 'j naive_pool" where
  "np_new hw n =
     np_set_max_concurrency hw n
       \<lparr>np_max = default_max_concurrency hw, np_stop = False, np_threads = [], np_jobs = [], np_notifies = 0,
        np_stopping = 0, np_posted = [], np_fates = [], np_ran = []\<rparr>"

definition np_started :: "'j naive_pool \<Rightarrow> bool" where
  "np_started s \<longleftrightarrow> length (np_threads s) > 0"

definition np_start :: "'j naive_pool \<Rightarrow> 'j naive_pool" where
  "np_start s = s\<lparr>np_threads := replicate (nat (np_max s)) N_check\<rparr>"

text \<open>A round of the inner loop of thread \<open>k\<close>, with the lock held.\<close>

definition np_worker_check :: "nat \<Rightarrow> 'j naive_pool \<Rightarrow> 'j naive_pool" where
  "np_worker_check k s =
     (if np_stop s then s\<lparr>np_threads := (np_threads s)[k := N_exit]\<rparr>
      else if np_jobs s \<noteq> []
      then s\<lparr>np_threads := (np_threads s)[k := N_run (hd (np_jobs s))], np_jobs := tl (np_jobs s),
             np_fates := np_fates s @ [Begun (hd (np_jobs s))]\<rparr>
      else s\<lparr>np_threads := (np_threads s)[k := N_wait]\<rparr>)"

definition np_worker_ran :: "nat \<Rightarrow> 'j \<Rightarrow> 'j naive_pool \<Rightarrow> 'j naive_pool" where
  "np_worker_ran k j s = s\<lparr>np_threads := (np_threads s)[k := N_check], np_ran := np_ran s @ [j]\<rparr>"

definition np_post :: "'j \<Rightarrow> 'j naive_pool \<Rightarrow> 'j naive_pool" where
  "np_post j s = s\<lparr>np_jobs := np_jobs s @ [j], np_notifies := Suc (np_notifies s), np_posted := np_posted s @ [j]\<rparr>"

text \<open>\<open>notify_one\<close> picks a thread that waits, if there is one.\<close>

definition np_notify_one :: "nat option \<Rightarrow> 'j naive_pool \<Rightarrow> 'j naive_pool" where
  "np_notify_one w s =
     s\<lparr>np_notifies := np_notifies s - 1,
       np_threads := (case w of None \<Rightarrow> np_threads s | Some k \<Rightarrow> (np_threads s)[k := N_check])\<rparr>"

definition np_set_stop :: "'j naive_pool \<Rightarrow> 'j naive_pool" where
  "np_set_stop s =
     (if \<not> np_started s then s else if np_stop s then s
      else s\<lparr>np_stop := True, np_stopping := Suc (np_stopping s)\<rparr>)"

definition np_notify_all :: "'j naive_pool \<Rightarrow> 'j naive_pool" where
  "np_notify_all s =
     s\<lparr>np_stopping := np_stopping s - 1,
       np_threads := map (\<lambda>w. case w of N_wait \<Rightarrow> N_check | _ \<Rightarrow> w) (np_threads s)\<rparr>"

definition np_join :: "'j naive_pool \<Rightarrow> 'j naive_pool" where
  "np_join s =
     (if \<not> np_started s then s
      else s\<lparr>np_threads := [], np_jobs := [], np_stop := False, np_fates := np_fates s @ map Dropped (np_jobs s)\<rparr>)"

datatype 'j np_action =
    N_set_max nat int | N_start | N_pop nat | N_wake nat | N_ran nat
  | N_post 'j | N_notify "nat option" | N_stop | N_notify_all | N_join

inductive np_step :: "'j np_action \<Rightarrow> 'j naive_pool \<Rightarrow> 'j naive_pool \<Rightarrow> bool" where
  np_set_max: "np_step (N_set_max hw n) s (np_set_max_concurrency hw n s)"
| np_start: "np_threads s = [] \<Longrightarrow> np_step N_start s (np_start s)"
| np_pop: "k < length (np_threads s) \<Longrightarrow> np_threads s ! k = N_check \<Longrightarrow> np_step (N_pop k) s (np_worker_check k s)"
| np_wake: "k < length (np_threads s) \<Longrightarrow> np_threads s ! k = N_wait \<Longrightarrow>
    np_step (N_wake k) s (s\<lparr>np_threads := (np_threads s)[k := N_check]\<rparr>)"
| np_ran: "k < length (np_threads s) \<Longrightarrow> np_threads s ! k = N_run j \<Longrightarrow> np_step (N_ran k) s (np_worker_ran k j s)"
| np_post: "np_started s \<Longrightarrow> np_step (N_post j) s (np_post j s)"
| np_notify: "0 < np_notifies s \<Longrightarrow> k < length (np_threads s) \<Longrightarrow> np_threads s ! k = N_wait \<Longrightarrow>
    np_step (N_notify (Some k)) s (np_notify_one (Some k) s)"
| np_notify_none: "0 < np_notifies s \<Longrightarrow> N_wait \<notin> set (np_threads s) \<Longrightarrow>
    np_step (N_notify None) s (np_notify_one None s)"
| np_stop: "np_step N_stop s (np_set_stop s)"
| np_notify_all: "0 < np_stopping s \<Longrightarrow> np_step N_notify_all s (np_notify_all s)"
| np_join: "\<forall>w \<in> set (np_threads s). w = N_exit \<Longrightarrow> np_step N_join s (np_join s)"

text \<open>\<open>first\<close>: the pool runs and no one has stopped it yet.\<close>

definition np_stop_and_join :: "bool \<Rightarrow> 'j np_action list" where
  "np_stop_and_join first = N_stop # (if first then [N_notify_all] else []) @ [N_join]"

definition np_restart :: "bool \<Rightarrow> 'j np_action list" where
  "np_restart first = np_stop_and_join first @ [N_start]"

inductive_simps np_step_simps:
  "np_step (N_set_max hw n) s s'" "np_step N_start s s'" "np_step (N_pop k) s s'" "np_step (N_wake k) s s'"
  "np_step (N_ran k) s s'" "np_step (N_post j) s s'" "np_step (N_notify w) s s'" "np_step N_stop s s'"
  "np_step N_notify_all s s'" "np_step N_join s s'"

inductive_cases np_stepE: "np_step a s s'"

end
