(* ===== verification/Thread_Pool_Props.thy ===== *)
theory Thread_Pool_Props
  imports Thread_Pool
begin

text \<open>
  The properties of \<open>simple_thread_pool_t\<close> (\<open>Thread_Pool\<close>): every posted job is in exactly one place
  and run at most once, no thread sleeps on a job in its own queue, and the threads come to rest only
  with their work done or after a stop.
\<close>

section \<open>Lists and indices\<close>

lemma list_all_update: "list_all P xs \<Longrightarrow> P y \<Longrightarrow> list_all P (xs[k := y])"
  using set_update_subset_insert [of xs k y] by (auto simp: list_all_iff)

lemma list_all_without: "list_all P xs \<Longrightarrow> list_all P (without p xs)"
  by (auto simp: without_def list_all_iff dest: in_set_takeD in_set_dropD)

lemma list_all_replicate: "P x \<Longrightarrow> list_all P (replicate n x)"
  by (simp add: list_all_iff)

lemma nth_update_if: "xs[k := y] ! j = (if j = k \<and> j < length xs then y else xs ! j)"
  by (cases "j = k"; cases "j < length xs") (simp_all add: list_update_beyond)

lemmas list_all_intros = list_all_update list_all_without list_all_replicate

lemma mset_concat_update:
  assumes "k < length xs"
  shows "mset (concat (map f (xs[k := y]))) + mset (f (xs ! k)) = mset (concat (map f xs)) + mset (f y)"
proof -
  have u: "xs[k := y] = take k xs @ y # drop (Suc k) xs"
    using assms by (rule upd_conv_take_nth_drop)
  have "mset (concat (map f xs)) = mset (concat (map f (take k xs @ xs ! k # drop (Suc k) xs)))"
    using id_take_nth_drop [OF assms] by simp
  then show ?thesis
    unfolding u by simp
qed

lemma mset_without: "p < length xs \<Longrightarrow> mset xs = add_mset (xs ! p) (mset (without p xs))"
  using arg_cong [OF id_take_nth_drop [of p xs], of mset] by (simp add: without_def)

lemma u32_bound: "unat (n :: u32) < 4294967296"
  by (rule order_less_le_trans [OF unsigned_less]) simp

lemma unat_of_nat_less: "k < unat (n :: u32) \<Longrightarrow> unat (of_nat k :: u32) = k"
  using u32_bound [of n] by (simp add: unsigned_of_nat take_bit_nat_eq_self)

lemma u32_Suc: "i < (n :: u32) \<Longrightarrow> unat (i + 1) = Suc (unat i)"
  using u32_bound [of n] by (simp add: word_less_nat_alt unat_word_ariths)

lemma u32_mod_less: "0 < n \<Longrightarrow> x mod n < (n :: u32)"
  by (simp add: word_less_nat_alt unat_mod)

lemma u32_not_neg [simp]: "\<not> i < (0 :: u32)"
  by (simp add: word_less_nat_alt)

lemma u32_pos: "i < n \<Longrightarrow> 0 < (n :: u32)"
  by (simp add: word_less_nat_alt)

lemma unat_zero: "unat (n :: u32) = 0 \<longleftrightarrow> n = 0"
  by (rule unat_eq_zero)

lemma tp_slot_less: "0 < tp_size s \<Longrightarrow> tp_slot s index i < unat (tp_size s)"
  unfolding tp_slot_def using u32_mod_less word_less_nat_alt by blast

section \<open>simple_thread_pool_t: well-formedness\<close>

fun worker_ok :: "u32 \<Rightarrow> 'j worker \<Rightarrow> bool" where
  "worker_ok n (W_scan i) = (i < n)"
| "worker_ok n w = True"

definition post_ok :: "u32 \<Rightarrow> u32 \<times> u32 \<times> 'j \<Rightarrow> bool" where
  "post_ok n p \<longleftrightarrow> fst p < n"

definition tp_wf :: "'j thread_pool \<Rightarrow> bool" where
  "tp_wf s \<longleftrightarrow>
     0 < tp_max s \<and> tp_max s < 2 ^ 31 \<and>
     length (tp_states s) = unat (tp_size s) \<and> length (tp_threads s) = unat (tp_size s) \<and>
     (tp_size s = 0 \<longrightarrow> tp_next s = 0) \<and>
     list_all (worker_ok (tp_size s)) (tp_threads s) \<and>
     list_all (post_ok (tp_size s)) (tp_posts s) \<and>
     list_all (\<lambda>i. i < tp_size s) (tp_stops s)"

lemma notify_worker_length [simp]: "length (notify_worker k ws) = length ws"
  by (simp add: notify_worker_def)

lemma notify_worker_all: "list_all P ws \<Longrightarrow> P W_pop \<Longrightarrow> list_all P (notify_worker k ws)"
  by (simp add: notify_worker_def list_all_update)

lemma max_concurrency_pos: "0 < max_concurrency_of hw n"
  by (simp add: max_concurrency_of_def default_max_concurrency_def)

lemma tp_wf_set_max: "tp_wf s \<Longrightarrow> max_concurrency_of hw n < 2 ^ 31 \<Longrightarrow> tp_wf (tp_set_max_concurrency hw n s)"
  by (simp add: tp_wf_def tp_set_max_concurrency_def max_concurrency_pos)

lemma tp_wf_new: "max_concurrency_of hw n < 2 ^ 31 \<Longrightarrow> tp_wf (tp_new hw n)"
  unfolding tp_new_def by (simp add: tp_wf_def tp_set_max_concurrency_def max_concurrency_pos)

text \<open>When no thread is there, the other assertions of \<open>start\<close> hold, and it makes at least one thread.\<close>

lemma tp_wf_idle:
  "tp_wf s \<Longrightarrow> tp_threads s = [] \<Longrightarrow> tp_size s = 0 \<and> tp_states s = [] \<and> tp_next s = 0 \<and> tp_posts s = [] \<and> tp_stops s = []"
  by (cases "tp_posts s"; cases "tp_stops s") (auto simp: tp_wf_def post_ok_def unat_zero)

lemma tp_start_size: "tp_wf s \<Longrightarrow> uint (word_of_int (tp_max s) :: u32) = tp_max s"
  by (simp add: tp_wf_def unsigned_of_int take_bit_int_eq_self)

lemma tp_wf_start:
  assumes "tp_wf s" and "tp_threads s = []"
  shows "tp_wf (tp_start s) \<and> tp_started (tp_start s)"
proof -
  have n: "uint (word_of_int (tp_max s) :: u32) = tp_max s" "0 < tp_max s"
    using tp_start_size assms(1) by (auto simp: tp_wf_def)
  then have p: "0 < (word_of_int (tp_max s) :: u32)"
    unfolding word_less_def by simp
  show ?thesis
    using assms p tp_wf_idle [OF assms]
    by (auto simp: tp_wf_def tp_start_def tp_started_def Let_def intro!: list_all_replicate)
qed

lemma tp_wf_try: "tp_wf s \<Longrightarrow> k < length (tp_threads s) \<Longrightarrow> tp_wf (tp_worker_try k i l s)"
  by (simp add: tp_wf_def tp_worker_try_def Let_def list_all_intros split: prod.split option.split)

lemma tp_wf_pop: "tp_wf s \<Longrightarrow> tp_wf (tp_worker_pop k s)"
  by (simp add: tp_wf_def tp_worker_pop_def list_all_intros split: prod.split popped.split)

lemma tp_wf_wake: "tp_wf s \<Longrightarrow> tp_wf (s\<lparr>tp_threads := (tp_threads s)[k := W_pop]\<rparr>)"
  by (simp add: tp_wf_def list_all_intros)

lemma tp_wf_threads: "tp_wf s \<Longrightarrow> k < length (tp_threads s) \<Longrightarrow> 0 < tp_size s"
  unfolding tp_wf_def word_less_nat_alt by simp

lemma tp_wf_ran: "tp_wf s \<Longrightarrow> k < length (tp_threads s) \<Longrightarrow> tp_wf (tp_worker_ran k j s)"
  using tp_wf_threads [of s k] by (simp add: tp_wf_def tp_worker_ran_def list_all_intros)

lemma tp_wf_post: "tp_wf s \<Longrightarrow> tp_started s \<Longrightarrow> tp_wf (tp_post j s)"
  by (auto simp: tp_wf_def tp_post_def tp_started_def post_ok_def u32_mod_less)

lemma tp_wf_pushed: "tp_wf s \<Longrightarrow> tp_wf (tp_pushed p q nt t s)"
  by (simp add: tp_wf_def tp_pushed_def list_all_intros notify_worker_all)

lemma tp_wf_push:
  assumes "tp_wf s" and "p < length (tp_posts s)"
  shows "tp_wf (tp_post_push p l s)"
proof -
  obtain index i j where p: "tp_posts s ! p = (index, i, j)"
    by (metis prod_cases3)
  have "post_ok (tp_size s) (tp_posts s ! p)"
    using assms(1,2) by (auto simp: tp_wf_def list_all_iff)
  then have "tp_wf (s\<lparr>tp_posts := (tp_posts s)[p := (index, i + 1, j)]\<rparr>)"
    using assms p by (simp add: tp_wf_def list_all_intros post_ok_def)
  then show ?thesis
    using assms(1) p by (simp add: tp_post_push_def tp_wf_pushed Let_def split: prod.split bool.split)
qed

lemma tp_wf_stop: "tp_wf s \<Longrightarrow> tp_wf (tp_stop s)"
  by (simp add: tp_wf_def tp_stop_def tp_started_def)

lemma tp_wf_stop_one: "tp_wf s \<Longrightarrow> tp_wf (tp_stop_one p s)"
  by (simp add: tp_wf_def tp_stop_one_def list_all_intros notify_worker_all Let_def)

lemma tp_wf_join: "tp_wf s \<Longrightarrow> tp_posts s = [] \<Longrightarrow> tp_stops s = [] \<Longrightarrow> tp_wf (tp_join s)"
  by (simp add: tp_wf_def tp_join_def)

lemmas tp_wf_ops = tp_wf_set_max tp_wf_try tp_wf_pop tp_wf_wake tp_wf_ran tp_wf_post tp_wf_push tp_wf_stop
  tp_wf_stop_one tp_wf_join

lemma tp_step_wf: "tp_step a s s' \<Longrightarrow> tp_wf s \<Longrightarrow> tp_wf s'"
  by (erule tp_stepE) (auto intro: tp_wf_ops simp: tp_wf_start)

section \<open>simple_thread_pool_t: who sleeps\<close>

definition tp_awake :: "'j thread_pool \<Rightarrow> bool" where
  "tp_awake s \<longleftrightarrow>
     (\<forall>k < length (tp_threads s).
        (tp_threads s ! k = W_wait \<longrightarrow> ts_jobs (tp_states s ! k) = [] \<and> \<not> ts_stop (tp_states s ! k)) \<and>
        (tp_threads s ! k = W_exit \<longrightarrow> ts_stop (tp_states s ! k)))"

lemma ts_try_pop_Some: "ts_try_pop l t = (Some j, t') \<Longrightarrow> ts_jobs t = j # ts_jobs t' \<and> ts_stop t' = ts_stop t"
  by (auto simp: ts_try_pop_def split: if_splits)

lemma ts_try_pop_None: "ts_try_pop l t = (None, t') \<Longrightarrow> t' = t"
  by (auto simp: ts_try_pop_def split: if_splits)

lemma ts_pop_cases:
  "(ts_stop t \<and> ts_pop t = (Pop_stopped, t)) \<or>
   (\<not> ts_stop t \<and> ts_jobs t = [] \<and> ts_pop t = (Pop_waits, t)) \<or>
   (\<exists>j js. \<not> ts_stop t \<and> ts_jobs t = j # js \<and> ts_pop t = (Pop_job j, t\<lparr>ts_jobs := js\<rparr>))"
  by (cases "ts_jobs t") (auto simp: ts_pop_def)

lemma tp_awake_try:
  assumes "tp_awake s" and "tp_wf s" and "k < length (tp_threads s)"
  shows "tp_awake (tp_worker_try k i l s)"
proof -
  let ?q = "tp_slot s (of_nat k) i"
  have q: "?q < length (tp_states s)"
    using tp_slot_less [OF tp_wf_threads [OF assms(2,3)]] assms(2) by (simp add: tp_wf_def)
  obtain jo t where t: "ts_try_pop l (tp_states s ! ?q) = (jo, t)"
    by fastforce
  show ?thesis
  proof (cases jo)
    case None
    then show ?thesis
      using assms t by (auto simp: tp_awake_def tp_worker_try_def Let_def nth_update_if)
  next
    case (Some j)
    then have "ts_try_pop l (tp_states s ! ?q) = (Some j, t)"
      using t by simp
    then have "ts_stop t = ts_stop (tp_states s ! ?q)" "ts_jobs (tp_states s ! ?q) = j # ts_jobs t"
      using ts_try_pop_Some [of l _ j t] by auto
    then show ?thesis
      using assms t Some q by (auto simp: tp_awake_def tp_worker_try_def Let_def nth_update_if)
  qed
qed

lemma tp_awake_pop:
  assumes "tp_awake s" and "tp_wf s" and "k < length (tp_threads s)"
  shows "tp_awake (tp_worker_pop k s)"
proof -
  have k: "k < length (tp_states s)"
    using assms by (simp add: tp_wf_def)
  consider "ts_stop (tp_states s ! k)" "ts_pop (tp_states s ! k) = (Pop_stopped, tp_states s ! k)"
    | "\<not> ts_stop (tp_states s ! k)" "ts_jobs (tp_states s ! k) = []" "ts_pop (tp_states s ! k) = (Pop_waits, tp_states s ! k)"
    | j js where "\<not> ts_stop (tp_states s ! k)" "ts_pop (tp_states s ! k) = (Pop_job j, (tp_states s ! k)\<lparr>ts_jobs := js\<rparr>)"
    using ts_pop_cases [of "tp_states s ! k"] by blast
  then show ?thesis
    using k assms(1) by cases (simp_all add: tp_awake_def tp_worker_pop_def nth_update_if)
qed

lemma notify_worker_nth:
  "i < length ws \<Longrightarrow> notify_worker k ws ! i = (if i = k \<and> ws ! k = W_wait then W_pop else ws ! i)"
  by (auto simp: notify_worker_def)

lemma tp_awake_pushed:
  assumes "tp_awake s" and "q < length (tp_states s)" and "ts_push j (tp_states s ! q) = (nt, t)"
  shows "tp_awake (tp_pushed p q nt t s)"
  using assms by (auto simp: tp_awake_def tp_pushed_def ts_push_def notify_worker_nth nth_update_if)

lemma tp_push_cases:
  assumes "tp_wf s" and "p < length (tp_posts s)" and "tp_posts s ! p = (index, i, j)"
  obtains (pushed) q nt t where "q < length (tp_states s)" "ts_push j (tp_states s ! q) = (nt, t)"
      "tp_post_push p l s = tp_pushed p q nt t s"
    | (next_queue) "i < tp_size s" "\<not> l" "tp_post_push p l s = s\<lparr>tp_posts := (tp_posts s)[p := (index, i + 1, j)]\<rparr>"
proof -
  have "post_ok (tp_size s) (tp_posts s ! p)"
    using assms(1,2) by (auto simp: tp_wf_def list_all_iff)
  then have i: "index < tp_size s"
    using assms(3) by (simp add: post_ok_def)
  then have q: "tp_slot s index i < length (tp_states s)" "unat index < length (tp_states s)"
    using assms(1) i tp_slot_less [OF u32_pos [OF i]] by (simp_all add: tp_wf_def word_less_nat_alt)
  show thesis
  proof (cases "i < tp_size s \<and> \<not> l")
    case True
    then show thesis
      using assms(3) by (intro next_queue) (simp_all add: tp_post_push_def ts_try_push_def Let_def)
  next
    case False
    let ?q = "if i < tp_size s then tp_slot s index i else unat index"
    obtain nt t where t: "ts_push j (tp_states s ! ?q) = (nt, t)"
      by fastforce
    show thesis
      using assms(3) False t q by (intro pushed [of ?q nt t]) (auto simp: tp_post_push_def ts_try_push_def Let_def)
  qed
qed

lemma tp_awake_push:
  assumes "tp_awake s" and "tp_wf s" and "p < length (tp_posts s)"
  shows "tp_awake (tp_post_push p l s)"
proof -
  obtain index i j where p: "tp_posts s ! p = (index, i, j)"
    by (metis prod_cases3)
  show ?thesis
    using assms(2,3) p
  proof (cases rule: tp_push_cases [where l = l])
    case (pushed q nt t)
    then show ?thesis
      using tp_awake_pushed [OF assms(1)] by simp
  next
    case next_queue
    then show ?thesis
      using assms(1) by (simp add: tp_awake_def)
  qed
qed

lemma tp_awake_stop_one:
  assumes "tp_awake s" and "tp_wf s" and "p < length (tp_stops s)"
  shows "tp_awake (tp_stop_one p s)"
proof -
  let ?k = "unat (tp_stops s ! p)"
  have "tp_stops s ! p < tp_size s"
    using assms(2,3) by (auto simp: tp_wf_def list_all_iff)
  then have "?k < length (tp_states s)"
    using assms(2) by (simp add: tp_wf_def word_less_nat_alt)
  then show ?thesis
    using assms(1) by (auto simp: tp_awake_def tp_stop_one_def ts_set_stop_def Let_def notify_worker_nth nth_update_if)
qed

lemma tp_awake_others:
  "tp_awake (tp_new hw n)"
  "tp_awake s \<Longrightarrow> tp_awake (tp_set_max_concurrency hw n s)"
  "tp_awake (tp_start s)"
  "tp_awake s \<Longrightarrow> tp_awake (s\<lparr>tp_threads := (tp_threads s)[k := W_pop]\<rparr>)"
  "tp_awake s \<Longrightarrow> tp_awake (tp_worker_ran k j s)"
  "tp_awake s \<Longrightarrow> tp_awake (tp_post j s)"
  "tp_awake s \<Longrightarrow> tp_awake (tp_stop s)"
  "tp_awake (tp_join s)"
  by (simp_all add: tp_awake_def tp_set_max_concurrency_def tp_new_def tp_start_def tp_worker_ran_def tp_post_def
      tp_stop_def tp_join_def Let_def nth_update_if)

lemma tp_step_awake: "tp_step a s s' \<Longrightarrow> tp_wf s \<Longrightarrow> tp_awake s \<Longrightarrow> tp_awake s'"
  by (erule tp_stepE) (auto intro: tp_awake_try tp_awake_pop tp_awake_push tp_awake_stop_one tp_awake_others)

section \<open>simple_thread_pool_t: where the jobs are\<close>

fun worker_job :: "'j worker \<Rightarrow> 'j list" where
  "worker_job (W_run j) = [j]"
| "worker_job w = []"

definition tp_queued :: "'j thread_pool \<Rightarrow> 'j multiset" where
  "tp_queued s = mset (concat (map ts_jobs (tp_states s)))"

definition tp_running :: "'j thread_pool \<Rightarrow> 'j multiset" where
  "tp_running s = mset (concat (map worker_job (tp_threads s)))"

definition tp_posting :: "'j thread_pool \<Rightarrow> 'j multiset" where
  "tp_posting s = mset (map (\<lambda>(index, i, j). j) (tp_posts s))"

definition tp_held :: "'j thread_pool \<Rightarrow> 'j multiset" where
  "tp_held s = tp_posting s + tp_queued s + tp_running s + mset (tp_ran s) + mset (tp_dropped s)"

definition tp_kept :: "'j thread_pool \<Rightarrow> bool" where
  "tp_kept s \<longleftrightarrow> mset (tp_posted s) = tp_held s"

lemma tp_running_update:
  assumes "k < length (tp_threads s)"
  shows "mset (concat (map worker_job ((tp_threads s)[k := w]))) + mset (worker_job (tp_threads s ! k)) =
    tp_running s + mset (worker_job w)"
  unfolding tp_running_def by (rule mset_concat_update [OF assms])

lemma tp_queued_update:
  assumes "q < length (tp_states s)"
  shows "mset (concat (map ts_jobs ((tp_states s)[q := t]))) + mset (ts_jobs (tp_states s ! q)) =
    tp_queued s + mset (ts_jobs t)"
  unfolding tp_queued_def by (rule mset_concat_update [OF assms])

lemma notify_worker_jobs: "concat (map worker_job (notify_worker k ws)) = concat (map worker_job ws)"
proof (cases "k < length ws \<and> ws ! k = W_wait")
  case True
  then have "worker_job W_pop = map worker_job ws ! k"
    by simp
  then have "map worker_job (ws[k := W_pop]) = map worker_job ws"
    unfolding map_update by (simp only: list_update_id)
  then show ?thesis
    using True by (simp add: notify_worker_def)
next
  case False
  then show ?thesis
    by (auto simp: notify_worker_def)
qed

text \<open>A thread takes a job from a queue, puts one aside, or does neither.\<close>

lemma tp_take_job:
  assumes "k < length (tp_threads s)" "worker_job (tp_threads s ! k) = []"
    and "q < length (tp_states s)" "ts_jobs (tp_states s ! q) = j # ts_jobs t"
  shows "tp_held (s\<lparr>tp_states := (tp_states s)[q := t], tp_threads := (tp_threads s)[k := W_run j]\<rparr>) = tp_held s"
proof -
  have "add_mset j (mset (concat (map ts_jobs ((tp_states s)[q := t])))) = tp_queued s"
    using tp_queued_update [OF assms(3), of t] assms(4) by simp
  moreover have "mset (concat (map worker_job ((tp_threads s)[k := W_run j]))) = add_mset j (tp_running s)"
    using tp_running_update [OF assms(1), of "W_run j"] assms(2) by simp
  ultimately show ?thesis
    by (simp add: tp_held_def tp_posting_def tp_queued_def [of "_\<lparr>tp_states := _, tp_threads := _\<rparr>"]
        tp_running_def [of "_\<lparr>tp_states := _, tp_threads := _\<rparr>"])
qed

lemma tp_move_worker:
  assumes "k < length (tp_threads s)" "worker_job (tp_threads s ! k) = []" "worker_job w = []"
  shows "tp_held (s\<lparr>tp_threads := (tp_threads s)[k := w]\<rparr>) = tp_held s"
  using tp_running_update [OF assms(1), of w] assms(2,3)
  by (simp add: tp_held_def tp_posting_def tp_queued_def tp_running_def [of "_\<lparr>tp_threads := _\<rparr>"])

lemma tp_own_slot: "tp_wf s \<Longrightarrow> k < length (tp_threads s) \<Longrightarrow> tp_slot s index i < length (tp_states s) \<and> k < length (tp_states s)"
  using tp_slot_less [OF tp_wf_threads [of s k]] by (simp add: tp_wf_def)

lemma tp_held_try:
  assumes "tp_wf s" "k < length (tp_threads s)" "tp_threads s ! k = W_scan i"
  shows "tp_held (tp_worker_try k i l s) = tp_held s"
proof -
  let ?q = "tp_slot s (of_nat k) i"
  note q = conjunct1 [OF tp_own_slot [OF assms(1,2), of "of_nat k" i]]
  obtain jo t where t: "ts_try_pop l (tp_states s ! ?q) = (jo, t)"
    by fastforce
  show ?thesis
  proof (cases jo)
    case None
    then show ?thesis
      using t assms by (simp add: tp_worker_try_def tp_move_worker Let_def)
  next
    case (Some j)
    then have "ts_jobs (tp_states s ! ?q) = j # ts_jobs t"
      using t ts_try_pop_Some [of l _ j t] by simp
    then show ?thesis
      using t Some assms tp_take_job [OF assms(2) _ q] by (simp add: tp_worker_try_def Let_def)
  qed
qed

lemma tp_held_pop:
  assumes "tp_wf s" "k < length (tp_threads s)" "tp_threads s ! k = W_pop"
  shows "tp_held (tp_worker_pop k s) = tp_held s"
proof -
  note q = conjunct2 [OF tp_own_slot [OF assms(1,2)]]
  consider "ts_pop (tp_states s ! k) = (Pop_stopped, tp_states s ! k)" | "ts_pop (tp_states s ! k) = (Pop_waits, tp_states s ! k)"
    | j js where "ts_jobs (tp_states s ! k) = j # js" "ts_pop (tp_states s ! k) = (Pop_job j, (tp_states s ! k)\<lparr>ts_jobs := js\<rparr>)"
    using ts_pop_cases [of "tp_states s ! k"] by blast
  then show ?thesis
  proof cases
    case (3 j js)
    then show ?thesis
      using assms tp_take_job [OF assms(2) _ q, of j "(tp_states s ! k)\<lparr>ts_jobs := js\<rparr>"] by (simp add: tp_worker_pop_def)
  qed (use assms in \<open>simp_all add: tp_worker_pop_def tp_move_worker\<close>)
qed

lemma tp_held_ran:
  assumes "k < length (tp_threads s)" "tp_threads s ! k = W_run j"
  shows "tp_held (tp_worker_ran k j s) = tp_held s"
  using tp_running_update [OF assms(1), of "W_scan 0"] assms(2)
  by (simp add: tp_held_def tp_posting_def tp_queued_def tp_worker_ran_def tp_running_def [of "_\<lparr>tp_threads := _, tp_ran := _\<rparr>"])

lemma tp_held_pushed:
  assumes "p < length (tp_posts s)" "tp_posts s ! p = (index, i, j)" "q < length (tp_states s)"
    and "ts_push j (tp_states s ! q) = (nt, t)"
  shows "tp_held (tp_pushed p q nt t s) = tp_held s"
proof -
  have "mset (ts_jobs t) = add_mset j (mset (ts_jobs (tp_states s ! q)))"
    using assms(4) by (auto simp: ts_push_def)
  then have "mset (concat (map ts_jobs ((tp_states s)[q := t]))) = add_mset j (tp_queued s)"
    using tp_queued_update [OF assms(3), of t] by simp
  moreover have "tp_posting s = add_mset j (image_mset (\<lambda>(index, i, j). j) (mset (without p (tp_posts s))))"
    using mset_without [OF assms(1)] assms(2) by (simp add: tp_posting_def)
  moreover have "tp_queued (tp_pushed p q nt t s) = mset (concat (map ts_jobs ((tp_states s)[q := t])))"
    "tp_running (tp_pushed p q nt t s) = tp_running s"
    "tp_posting (tp_pushed p q nt t s) = image_mset (\<lambda>(index, i, j). j) (mset (without p (tp_posts s)))"
    "tp_ran (tp_pushed p q nt t s) = tp_ran s" "tp_dropped (tp_pushed p q nt t s) = tp_dropped s"
    by (simp_all add: tp_pushed_def tp_queued_def tp_running_def tp_posting_def notify_worker_jobs)
  ultimately show ?thesis
    by (simp add: tp_held_def)
qed

lemma tp_held_push:
  assumes "tp_wf s" and "p < length (tp_posts s)"
  shows "tp_held (tp_post_push p l s) = tp_held s"
proof -
  obtain index i j where p: "tp_posts s ! p = (index, i, j)"
    by (metis prod_cases3)
  show ?thesis
    using assms p
  proof (cases rule: tp_push_cases [where l = l])
    case (pushed q nt t)
    then show ?thesis
      using tp_held_pushed [OF assms(2) p] by simp
  next
    case next_queue
    have "map (\<lambda>(index, i, j). j) ((tp_posts s)[p := (index, i + 1, j)]) = map (\<lambda>(index, i, j). j) (tp_posts s)"
      using assms(2) p by (simp add: map_update list_update_same_conv)
    then show ?thesis
      using next_queue by (simp add: tp_held_def tp_posting_def tp_queued_def tp_running_def)
  qed
qed

lemma tp_held_stop_one: "tp_held (tp_stop_one p s) = tp_held s"
proof -
  have "map ts_jobs ((tp_states s)[k := ts_set_stop (tp_states s ! k)]) = map ts_jobs (tp_states s)" for k
    by (cases "k < length (tp_states s)") (simp_all add: ts_set_stop_def map_update list_update_same_conv list_update_beyond)
  then show ?thesis
    by (simp add: tp_held_def tp_posting_def tp_queued_def tp_running_def tp_stop_one_def notify_worker_jobs Let_def)
qed

lemma tp_held_join:
  assumes "\<forall>w \<in> set (tp_threads s). w = W_exit"
  shows "tp_held (tp_join s) = tp_held s"
proof -
  have "concat (map worker_job (tp_threads s)) = []"
    using assms by auto
  then show ?thesis
    by (simp add: tp_held_def tp_join_def tp_posting_def tp_queued_def tp_running_def)
qed

lemma tp_held_others:
  "tp_held (tp_set_max_concurrency hw n s) = tp_held s"
  "tp_held (tp_stop s) = tp_held s"
  "tp_held (tp_post j s) = add_mset j (tp_held s)"
  by (simp_all add: tp_held_def tp_set_max_concurrency_def tp_stop_def tp_post_def tp_posting_def tp_queued_def tp_running_def)

lemma tp_held_start:
  assumes "tp_wf s" "tp_threads s = []"
  shows "tp_held (tp_start s) = tp_held s"
proof -
  have "concat (map ts_jobs (replicate m ts_new)) = []" "concat (map worker_job (replicate m (W_scan 0))) = []" for m
    by (simp_all add: ts_new_def)
  then show ?thesis
    using assms tp_wf_idle [OF assms]
    by (simp add: tp_held_def tp_start_def tp_posting_def tp_queued_def tp_running_def Let_def del: concat_eq_Nil_conv)
qed

lemma tp_posted_ops:
  "tp_posted (tp_set_max_concurrency hw n s) = tp_posted s" "tp_posted (tp_start s) = tp_posted s"
  "tp_posted (tp_worker_try k i l s) = tp_posted s" "tp_posted (tp_worker_pop k s) = tp_posted s"
  "tp_posted (tp_worker_ran k j s) = tp_posted s" "tp_posted (tp_post j s) = tp_posted s @ [j]"
  "tp_posted (tp_post_push p l s) = tp_posted s" "tp_posted (tp_stop s) = tp_posted s"
  "tp_posted (tp_stop_one p s) = tp_posted s" "tp_posted (tp_join s) = tp_posted s"
  by (simp_all add: tp_set_max_concurrency_def tp_start_def tp_worker_try_def tp_worker_pop_def tp_worker_ran_def
      tp_post_def tp_post_push_def tp_pushed_def tp_stop_def tp_stop_one_def tp_join_def Let_def
      split: prod.split option.split popped.split bool.split)

lemma tp_step_kept: "tp_step a s s' \<Longrightarrow> tp_wf s \<Longrightarrow> tp_kept s \<Longrightarrow> tp_kept s'"
  by (erule tp_stepE)
    (auto simp: tp_kept_def tp_held_others tp_held_start tp_held_try tp_held_pop tp_held_ran tp_held_push
      tp_held_stop_one tp_held_join tp_move_worker tp_posted_ops)

section \<open>simple_thread_pool_t: coming to rest\<close>

text \<open>The steps a thread still takes on its own, with \<open>n\<close> threads; a queued job brings a whole round.\<close>

fun worker_cost :: "nat \<Rightarrow> 'j worker \<Rightarrow> nat" where
  "worker_cost n (W_scan i) = n - unat i + 2"
| "worker_cost n W_pop = 1"
| "worker_cost n W_wait = 0"
| "worker_cost n (W_run j) = n + 3"
| "worker_cost n W_exit = 0"

definition tp_work :: "'j thread_pool \<Rightarrow> nat" where
  "tp_work s =
     sum_list (map (worker_cost (unat (tp_size s))) (tp_threads s)) + (unat (tp_size s) + 4) * size (tp_queued s)"

fun tp_own :: "'j tp_action \<Rightarrow> bool" where
  "tp_own (Try k l) = True"
| "tp_own (Pop k) = True"
| "tp_own (Ran k) = True"
| "tp_own a = False"

definition tp_thread_step :: "'j tp_action \<Rightarrow> 'j thread_pool \<Rightarrow> 'j thread_pool \<Rightarrow> bool" where
  "tp_thread_step a s s' \<longleftrightarrow> tp_own a \<and> tp_step a s s'"

definition tp_rest :: "'j thread_pool \<Rightarrow> bool" where
  "tp_rest s \<longleftrightarrow> (\<forall>w \<in> set (tp_threads s). w = W_wait \<or> w = W_exit)"

lemma worker_cost_update:
  "k < length ws \<Longrightarrow>
   sum_list (map (worker_cost n) (ws[k := w])) + worker_cost n (ws ! k) = sum_list (map (worker_cost n) ws) + worker_cost n w"
  by (rule sum_list_update_nat)

lemma tp_move_worker_work:
  assumes "k < length (tp_threads s)" "worker_cost (unat (tp_size s)) w < worker_cost (unat (tp_size s)) (tp_threads s ! k)"
  shows "tp_work (s\<lparr>tp_threads := (tp_threads s)[k := w]\<rparr>) < tp_work s"
  using worker_cost_update [OF assms(1), of "unat (tp_size s)" w] assms(2) by (simp add: tp_work_def tp_queued_def)

lemma tp_take_job_work:
  assumes "k < length (tp_threads s)" "0 < worker_cost (unat (tp_size s)) (tp_threads s ! k)"
    and "q < length (tp_states s)" "ts_jobs (tp_states s ! q) = j # ts_jobs t"
  shows "tp_work (s\<lparr>tp_states := (tp_states s)[q := t], tp_threads := (tp_threads s)[k := W_run j]\<rparr>) < tp_work s"
proof -
  have "add_mset j (mset (concat (map ts_jobs ((tp_states s)[q := t])))) = tp_queued s"
    using tp_queued_update [OF assms(3), of t] assms(4) by simp
  then have "size (tp_queued s) = Suc (size (mset (concat (map ts_jobs ((tp_states s)[q := t])))))"
    by (metis size_add_mset)
  then show ?thesis
    using worker_cost_update [OF assms(1), of "unat (tp_size s)" "W_run j"] assms(2)
    by (simp add: tp_work_def tp_queued_def [of "_\<lparr>tp_states := _, tp_threads := _\<rparr>"])
qed

lemma tp_thread_step_work:
  assumes "tp_wf s" and "tp_thread_step a s s'"
  shows "tp_work s' < tp_work s"
proof -
  have "tp_step a s s'" "tp_own a"
    using assms(2) by (simp_all add: tp_thread_step_def)
  then show ?thesis
  proof (cases rule: tp_step.cases)
    case (tp_try k i l)
    let ?q = "tp_slot s (of_nat k) i"
    note q = conjunct1 [OF tp_own_slot [OF assms(1) tp_try(3), of "of_nat k" i]]
    have "worker_ok (tp_size s) (tp_threads s ! k)"
      using assms(1) tp_try(3) by (auto simp: tp_wf_def list_all_iff)
    then have i: "i < tp_size s"
      using tp_try(4) by simp
    obtain jo t where t: "ts_try_pop l (tp_states s ! ?q) = (jo, t)"
      by fastforce
    show ?thesis
    proof (cases jo)
      case None
      then show ?thesis
        using t tp_try i u32_Suc [OF i] tp_move_worker_work [OF tp_try(3), of "W_scan (i + 1)"]
          tp_move_worker_work [OF tp_try(3), of W_pop]
        by (simp add: tp_worker_try_def word_less_nat_alt Let_def)
    next
      case (Some j)
      then have "ts_jobs (tp_states s ! ?q) = j # ts_jobs t"
        using t ts_try_pop_Some [of l _ j t] by simp
      then show ?thesis
        using t Some tp_try tp_take_job_work [OF tp_try(3) _ q] by (simp add: tp_worker_try_def Let_def)
    qed
  next
    case (tp_pop k)
    note q = conjunct2 [OF tp_own_slot [OF assms(1) tp_pop(3)]]
    consider "ts_pop (tp_states s ! k) = (Pop_stopped, tp_states s ! k)" | "ts_pop (tp_states s ! k) = (Pop_waits, tp_states s ! k)"
      | j js where "ts_jobs (tp_states s ! k) = j # js" "ts_pop (tp_states s ! k) = (Pop_job j, (tp_states s ! k)\<lparr>ts_jobs := js\<rparr>)"
      using ts_pop_cases [of "tp_states s ! k"] by blast
    then show ?thesis
    proof cases
      case (3 j js)
      then show ?thesis
        using tp_pop tp_take_job_work [OF tp_pop(3) _ q, of j "(tp_states s ! k)\<lparr>ts_jobs := js\<rparr>"]
        by (simp add: tp_worker_pop_def)
    qed (use tp_pop in \<open>simp_all add: tp_worker_pop_def tp_move_worker_work\<close>)
  next
    case (tp_ran k j)
    then show ?thesis
      using worker_cost_update [OF tp_ran(3), of "unat (tp_size s)" "W_scan 0"]
      by (simp add: tp_work_def tp_worker_ran_def tp_queued_def)
  qed simp_all
qed

lemma tp_thread_step_live:
  assumes "\<not> tp_rest s"
  shows "\<exists>a s'. tp_thread_step a s s'"
proof -
  obtain k where k: "k < length (tp_threads s)" "tp_threads s ! k \<noteq> W_wait" "tp_threads s ! k \<noteq> W_exit"
    using assms by (auto simp: tp_rest_def in_set_conv_nth)
  show ?thesis
  proof (cases "tp_threads s ! k")
    case (W_scan i)
    then have "tp_thread_step (Try k True) s (tp_worker_try k i True s)"
      using k by (simp add: tp_thread_step_def tp_step_simps)
    then show ?thesis by blast
  next
    case W_pop
    then have "tp_thread_step (Pop k) s (tp_worker_pop k s)"
      using k by (simp add: tp_thread_step_def tp_step_simps)
    then show ?thesis by blast
  next
    case (W_run j)
    then have "tp_thread_step (Ran k) s (tp_worker_ran k j s)"
      using k by (simp add: tp_thread_step_def tp_step_simps)
    then show ?thesis by blast
  qed (use k in auto)
qed

definition tp_inv :: "'j thread_pool \<Rightarrow> bool" where
  "tp_inv s \<longleftrightarrow> tp_wf s \<and> tp_awake s \<and> tp_kept s"

lemma tp_inv_new:
  assumes "max_concurrency_of hw n < 2 ^ 31"
  shows "tp_inv (tp_new hw n)"
proof -
  have "tp_kept (tp_new hw n)"
    by (simp add: tp_kept_def tp_held_def tp_new_def tp_set_max_concurrency_def tp_posting_def tp_queued_def tp_running_def)
  then show ?thesis
    unfolding tp_inv_def using tp_wf_new [OF assms] tp_awake_others(1) by blast
qed

lemma tp_step_inv: "tp_inv s \<Longrightarrow> tp_step a s s' \<Longrightarrow> tp_inv s'"
  unfolding tp_inv_def using tp_step_wf tp_step_awake tp_step_kept by blast

lemma tp_run_inv:
  assumes "run_of tp_step as (tp_new hw n) s" and "max_concurrency_of hw n < 2 ^ 31"
  shows "tp_inv s"
  by (rule run_of_inv [where P = tp_inv, OF assms(1) tp_inv_new [OF assms(2)] tp_step_inv])

interpretation tp_drain: comes_to_rest tp_thread_step tp_inv tp_work tp_rest
proof unfold_locales
  fix a and s s' :: "'a thread_pool"
  assume i: "tp_inv s" and st: "tp_thread_step a s s'"
  show "tp_inv s'"
    using st tp_step_inv [OF i, of a s'] by (simp add: tp_thread_step_def)
  show "tp_work s' < tp_work s"
    using i by (intro tp_thread_step_work [OF _ st]) (simp add: tp_inv_def)
qed (rule tp_thread_step_live)

lemma tp_at_rest:
  assumes "tp_inv s" "tp_rest s" "k < length (tp_threads s)"
  shows "if ts_stop (tp_states s ! k) then tp_threads s ! k = W_exit
    else tp_threads s ! k = W_wait \<and> ts_jobs (tp_states s ! k) = []"
proof -
  have "tp_threads s ! k = W_wait \<or> tp_threads s ! k = W_exit"
    using assms(2,3) by (auto simp: tp_rest_def)
  then show ?thesis
    using assms(1,3) by (auto simp: tp_inv_def tp_awake_def)
qed

section \<open>simple_thread_pool_t: claims\<close>

text \<open>
  C19: The simple thread pool loses no job and runs none twice: however the threads, the calls of \<open>post\<close>
  and \<open>stop\<close>, failed \<open>try_to_lock\<close>s, spurious wake-ups, restarts and joins interleave, each job posted
  is in exactly one place: with its call of \<open>post\<close>, in one queue, being run by one thread, run to its
  end, or thrown away by a \<open>join\<close>; in particular a job posted once is run at most once.
\<close>

theorem thread_pool_keeps_jobs:
  assumes "run_of tp_step as (tp_new hw n) s" and "max_concurrency_of hw n < 2 ^ 31"
  shows "mset (tp_posted s) =
      tp_posting s + tp_queued s + tp_running s + mset (tp_ran s) + mset (tp_dropped s) \<and>
    count (tp_running s + mset (tp_ran s)) j \<le> count (mset (tp_posted s)) j"
proof -
  have e: "mset (tp_posted s) = tp_posting s + tp_queued s + tp_running s + mset (tp_ran s) + mset (tp_dropped s)"
    using tp_run_inv [OF assms] by (simp add: tp_inv_def tp_kept_def tp_held_def)
  then show ?thesis
    by simp
qed

text \<open>The steps in a form that computes.\<close>

lemma tp_step_Try:
  "tp_step (Try k l) s s' \<longleftrightarrow>
     k < length (tp_threads s) \<and> (case tp_threads s ! k of W_scan i \<Rightarrow> s' = tp_worker_try k i l s | _ \<Rightarrow> False)"
  by (auto simp: tp_step_simps split: worker.splits)

lemma tp_step_Ran:
  "tp_step (Ran k) s s' \<longleftrightarrow>
     k < length (tp_threads s) \<and> (case tp_threads s ! k of W_run j \<Rightarrow> s' = tp_worker_ran k j s | _ \<Rightarrow> False)"
  by (auto simp: tp_step_simps split: worker.splits)

lemma replicate_two: "replicate 2 x = [x, x]"
  by (simp add: numeral_2_eq_2)

lemmas tp_eval = replicate_two tp_step_simps(1,2,4,5,7-11) tp_step_Try tp_step_Ran tp_new_def tp_set_max_concurrency_def max_concurrency_of_def default_max_concurrency_def
  tp_start_def tp_started_def ts_new_def tp_worker_try_def ts_try_pop_def tp_slot_def tp_worker_pop_def ts_pop_def
  tp_worker_ran_def tp_post_def tp_post_push_def ts_try_push_def ts_push_def tp_pushed_def without_def notify_worker_def
  tp_stop_def tp_stop_one_def ts_set_stop_def tp_join_def Let_def

theorem thread_pool_keeps_jobs_witness:
  "\<exists>s. run_of tp_step [Start, Post (7 :: nat), Push 0 False, Try 1 True, Push 0 True, Post 8, Try 1 True, Push 0 True, Pop 1, Ran 1]
       (tp_new 4 2) s \<and> tp_queued s + tp_running s + mset (tp_ran s) = {#7, 8#}"
proof -
  let ?as = "[Start, Post (7 :: nat), Push 0 False, Try 1 True, Push 0 True, Post 8, Try 1 True, Push 0 True, Pop 1, Ran 1]"
  obtain s where s: "run_of tp_step ?as (tp_new 4 2) s" "tp_posted s = [7, 8]" "tp_posts s = []" "tp_dropped s = []"
    by (simp add: tp_eval)
  then show ?thesis
    using conjunct1 [OF thread_pool_keeps_jobs [OF s(1)]] by (intro exI [of _ s]) (simp add: max_concurrency_of_def tp_posting_def)
qed



text \<open>
  What the simple thread pool does not do: with two threads, a job pushed to the queue of a thread
  that runs a job stays there while the other thread sleeps, since the push notifies the busy thread
  only. If the running job waits for the queued one, nothing happens any more: the end of the running
  job is the only step left.
\<close>

theorem thread_pool_idle_thread_sleeps:
  "\<exists>s. run_of tp_step [Start, Post (1 :: nat), Push 0 True, Post 2, Push 0 True, Try 0 True, Try 1 True, Ran 1,
         Try 1 True, Try 1 True, Pop 1, Post 3, Push 0 True] (tp_new 4 2) s \<and>
     tp_threads s = [W_run 1, W_wait] \<and> map ts_jobs (tp_states s) = [[3], []] \<and> tp_posts s = [] \<and>
     {a. \<exists>s'. tp_thread_step a s s'} = {Ran 0}"
proof -
  let ?as = "[Start, Post (1 :: nat), Push 0 True, Post 2, Push 0 True, Try 0 True, Try 1 True, Ran 1,
         Try 1 True, Try 1 True, Pop 1, Post 3, Push 0 True]"
  obtain s where s: "run_of tp_step ?as (tp_new 4 2) s" "tp_threads s = [W_run 1, W_wait]"
      "map ts_jobs (tp_states s) = [[3], []]" "tp_posts s = []"
    by (simp add: tp_eval)
  have "a = Ran 0" if "tp_thread_step a s s'" for a s'
    using that s(2) by (cases a) (auto simp: tp_thread_step_def tp_step_simps less_Suc_eq)
  moreover have "tp_thread_step (Ran 0) s (tp_worker_ran 0 1 s)"
    using s(2) by (simp add: tp_thread_step_def tp_step_Ran)
  ultimately have "{a. \<exists>s'. tp_thread_step a s s'} = {Ran 0}"
    by blast
  then show ?thesis
    using s by (intro exI [of _ s]) simp
qed

end
