(* ===== verification/Naive_Pool_Props.thy ===== *)
theory Naive_Pool_Props
  imports Thread_Pool_Props
begin

text \<open>
  The properties of \<open>naive_thread_pool_t\<close> (\<open>Thread_Pool\<close>): jobs are taken in the order of posting and
  none is lost, no notification is lost, and the threads come to rest only with an empty queue or
  after a stop.
\<close>

section \<open>naive_thread_pool_t: invariant\<close>

fun naive_check :: "'j naive_worker \<Rightarrow> nat" where
  "naive_check N_check = 1"
| "naive_check w = 0"

fun naive_job :: "'j naive_worker \<Rightarrow> 'j list" where
  "naive_job (N_run j) = [j]"
| "naive_job w = []"

fun begun :: "'j fate list \<Rightarrow> 'j list" where
  "begun [] = []"
| "begun (Begun j # fs) = j # begun fs"
| "begun (Dropped j # fs) = begun fs"

lemma begun_append: "begun (fs @ gs) = begun fs @ begun gs"
  by (induction fs rule: begun.induct) simp_all

lemma begun_dropped: "begun (map Dropped js) = []"
  by (induction js) simp_all

definition np_checks :: "'j naive_worker list \<Rightarrow> nat" where
  "np_checks ws = sum_list (map naive_check ws)"

definition np_running :: "'j naive_pool \<Rightarrow> 'j multiset" where
  "np_running s = mset (concat (map naive_job (np_threads s)))"

definition np_awake :: "'j naive_pool \<Rightarrow> bool" where
  "np_awake s \<longleftrightarrow>
     (\<not> np_stop s \<and> N_wait \<in> set (np_threads s) \<longrightarrow> length (np_jobs s) \<le> np_checks (np_threads s) + np_notifies s) \<and>
     (np_stop s \<and> N_wait \<in> set (np_threads s) \<longrightarrow> 0 < np_stopping s) \<and>
     (N_exit \<in> set (np_threads s) \<longrightarrow> np_stop s)"

definition np_ordered :: "'j naive_pool \<Rightarrow> bool" where
  "np_ordered s \<longleftrightarrow>
     np_posted s = map fate_job (np_fates s) @ np_jobs s \<and> mset (begun (np_fates s)) = np_running s + mset (np_ran s)"

definition np_inv :: "'j naive_pool \<Rightarrow> bool" where
  "np_inv s \<longleftrightarrow>
     0 < np_max s \<and> (np_threads s = [] \<longrightarrow> np_jobs s = [] \<and> \<not> np_stop s) \<and> np_awake s \<and> np_ordered s"

lemma np_checks_update:
  "k < length ws \<Longrightarrow> np_checks (ws[k := w]) + naive_check (ws ! k) = np_checks ws + naive_check w"
  unfolding np_checks_def by (rule sum_list_update_nat)

lemma np_running_update:
  "k < length ws \<Longrightarrow>
   mset (concat (map naive_job (ws[k := w]))) + mset (naive_job (ws ! k)) = mset (concat (map naive_job ws)) + mset (naive_job w)"
  by (rule mset_concat_update)

lemma set_updateD: "x \<in> set (xs[k := y]) \<Longrightarrow> x = y \<or> x \<in> set xs"
  using set_update_subset_insert [of xs k y] by blast

lemma np_inv_new: "np_inv (np_new hw n)"
  by (simp add: np_inv_def np_new_def np_set_max_concurrency_def np_awake_def np_ordered_def np_running_def max_concurrency_pos)

lemma np_inv_start: "np_inv s \<Longrightarrow> np_threads s = [] \<Longrightarrow> np_inv (np_start s)"
proof -
  have r: "mset (concat (map naive_job (replicate m N_check))) = {#}" for m
    by (induction m) simp_all
  show "np_inv s \<Longrightarrow> np_threads s = [] \<Longrightarrow> np_inv (np_start s)"
    by (simp add: np_inv_def np_start_def np_awake_def np_ordered_def np_running_def r del: mset_concat)
qed

lemma np_inv_check:
  assumes "np_inv s" "k < length (np_threads s)" "np_threads s ! k = N_check"
  shows "np_inv (np_worker_check k s)"
proof -
  note c = np_checks_update [OF assms(2)] and r = np_running_update [OF assms(2)]
  have ne: "np_threads s \<noteq> []"
    using assms(2) by auto
  consider "np_stop s" | "\<not> np_stop s" "np_jobs s = []" | j js where "\<not> np_stop s" "np_jobs s = j # js"
    by (cases "np_jobs s") auto
  then show ?thesis
  proof cases
    case 1
    then show ?thesis
      using assms ne c [of N_exit] r [of N_exit]
      by (auto simp: np_inv_def np_awake_def np_ordered_def np_running_def np_worker_check_def dest: set_updateD simp del: mset_concat)
  next
    case 2
    then show ?thesis
      using assms ne c [of N_wait] r [of N_wait]
      by (auto simp: np_inv_def np_awake_def np_ordered_def np_running_def np_worker_check_def dest: set_updateD simp del: mset_concat)
  next
    case (3 j js)
    then show ?thesis
      using assms ne c [of "N_run j"] r [of "N_run j"]
      by (auto simp: np_inv_def np_awake_def np_ordered_def np_running_def np_worker_check_def begun_append dest: set_updateD
          simp del: mset_concat)
  qed
qed

lemma np_inv_ran:
  assumes "np_inv s" "k < length (np_threads s)" "np_threads s ! k = N_run j"
  shows "np_inv (np_worker_ran k j s)"
  using assms np_checks_update [OF assms(2), of N_check] np_running_update [OF assms(2), of N_check]
  by (auto simp: np_inv_def np_awake_def np_ordered_def np_running_def np_worker_ran_def dest: set_updateD simp del: mset_concat)

lemma np_inv_wake:
  assumes "np_inv s" "k < length (np_threads s)" "np_threads s ! k = N_wait"
  shows "np_inv (s\<lparr>np_threads := (np_threads s)[k := N_check]\<rparr>)"
  using assms np_checks_update [OF assms(2), of N_check] np_running_update [OF assms(2), of N_check]
  by (auto simp: np_inv_def np_awake_def np_ordered_def np_running_def dest: set_updateD simp del: mset_concat)

lemma np_inv_notify_one:
  assumes "np_inv s" "0 < np_notifies s" "k < length (np_threads s)" "np_threads s ! k = N_wait"
  shows "np_inv (np_notify_one (Some k) s)"
  using assms np_checks_update [OF assms(3), of N_check] np_running_update [OF assms(3), of N_check] nth_mem [OF assms(3)]
  by (auto simp: np_inv_def np_awake_def np_ordered_def np_running_def np_notify_one_def dest: set_updateD simp del: mset_concat)

lemma np_inv_notify_all:
  fixes s :: "'j naive_pool"
  assumes "np_inv s"
  shows "np_inv (np_notify_all s)"
proof -
  let ?w = "\<lambda>w. case w of N_wait \<Rightarrow> N_check | _ \<Rightarrow> w"
  have "map naive_job (map ?w ws) = map naive_job ws" for ws :: "'j naive_worker list"
    by (induction ws) (auto split: naive_worker.split)
  moreover have "N_wait \<notin> ?w ` set ws" "N_exit \<in> ?w ` set ws \<longrightarrow> N_exit \<in> set ws" for ws :: "'j naive_worker list"
    by (auto split: naive_worker.splits)
  ultimately show ?thesis
    using assms by (simp add: np_inv_def np_awake_def np_ordered_def np_running_def np_notify_all_def del: mset_concat map_map)
qed

lemma np_inv_join: "np_inv s \<Longrightarrow> \<forall>w \<in> set (np_threads s). w = N_exit \<Longrightarrow> np_inv (np_join s)"
proof -
  assume "\<forall>w \<in> set (np_threads s). w = N_exit"
  then have "concat (map naive_job (np_threads s)) = []"
    by auto
  then show "np_inv s \<Longrightarrow> np_inv (np_join s)"
    by (simp add: np_inv_def np_awake_def np_ordered_def np_running_def np_join_def begun_append begun_dropped comp_def)
qed

lemma np_inv_others:
  "np_inv s \<Longrightarrow> np_inv (np_set_max_concurrency hw n s)"
  "np_inv s \<Longrightarrow> np_started s \<Longrightarrow> np_inv (np_post j s)"
  "np_inv s \<Longrightarrow> N_wait \<notin> set (np_threads s) \<Longrightarrow> np_inv (np_notify_one None s)"
  "np_inv s \<Longrightarrow> np_inv (np_set_stop s)"
  by (auto simp: np_inv_def np_awake_def np_ordered_def np_running_def np_set_max_concurrency_def np_post_def
      np_notify_one_def np_set_stop_def np_started_def max_concurrency_pos)

lemma np_step_inv: "np_step a s s' \<Longrightarrow> np_inv s \<Longrightarrow> np_inv s'"
  by (erule np_stepE) (auto intro: np_inv_start np_inv_check np_inv_ran np_inv_wake np_inv_notify_one np_inv_notify_all
      np_inv_join np_inv_others)

lemma np_run_inv:
  assumes "run_of np_step as (np_new hw n) s"
  shows "np_inv s"
  by (rule run_of_inv [where P = np_inv, OF assms np_inv_new]) (rule np_step_inv)

section \<open>naive_thread_pool_t: coming to rest\<close>

fun naive_cost :: "'j naive_worker \<Rightarrow> nat" where
  "naive_cost N_check = 1"
| "naive_cost N_wait = 0"
| "naive_cost (N_run j) = 2"
| "naive_cost N_exit = 0"

definition np_work :: "'j naive_pool \<Rightarrow> nat" where
  "np_work s =
     sum_list (map naive_cost (np_threads s)) + 2 * length (np_jobs s) + 2 * np_notifies s +
     (length (np_threads s) + 1) * np_stopping s"

fun np_own :: "'j np_action \<Rightarrow> bool" where
  "np_own (N_pop k) = True"
| "np_own (N_ran k) = True"
| "np_own (N_notify w) = True"
| "np_own N_notify_all = True"
| "np_own a = False"

definition np_thread_step :: "'j np_action \<Rightarrow> 'j naive_pool \<Rightarrow> 'j naive_pool \<Rightarrow> bool" where
  "np_thread_step a s s' \<longleftrightarrow> np_own a \<and> np_step a s s'"

definition np_rest :: "'j naive_pool \<Rightarrow> bool" where
  "np_rest s \<longleftrightarrow> np_notifies s = 0 \<and> np_stopping s = 0 \<and> (\<forall>w \<in> set (np_threads s). w = N_wait \<or> w = N_exit)"

lemma naive_cost_update:
  "k < length ws \<Longrightarrow>
   sum_list (map naive_cost (ws[k := w])) + naive_cost (ws ! k) = sum_list (map naive_cost ws) + naive_cost w"
  by (rule sum_list_update_nat)

lemma naive_cost_woken:
  "sum_list (map naive_cost (map (\<lambda>w. case w of N_wait \<Rightarrow> N_check | _ \<Rightarrow> w) ws)) \<le> sum_list (map naive_cost ws) + length ws"
  by (induction ws) (auto split: naive_worker.split)

lemma np_thread_step_work:
  assumes "np_thread_step a s s'"
  shows "np_work s' < np_work s"
proof -
  have "np_step a s s'" "np_own a"
    using assms by (simp_all add: np_thread_step_def)
  then show ?thesis
  proof (cases rule: np_step.cases)
    case (np_pop k)
    note c = naive_cost_update [OF np_pop(3)]
    show ?thesis
      using c [of N_exit] c [of N_wait] c [of "N_run (hd (np_jobs s))"] np_pop
      by (cases "np_jobs s") (auto simp: np_work_def np_worker_check_def)
  next
    case (np_ran k j)
    then show ?thesis
      using naive_cost_update [OF np_ran(3), of N_check] by (simp add: np_work_def np_worker_ran_def)
  next
    case (np_notify k)
    then show ?thesis
      using naive_cost_update [OF np_notify(4), of N_check] by (simp add: np_work_def np_notify_one_def)
  next
    case np_notify_none
    then show ?thesis
      by (simp add: np_work_def np_notify_one_def)
  next
    case np_notify_all
    have "(length (np_threads s) + 1) * np_stopping s = (length (np_threads s) + 1) * (np_stopping s - 1) + length (np_threads s) + 1"
      using np_notify_all(3) by (cases "np_stopping s") simp_all
    then show ?thesis
      using np_notify_all naive_cost_woken [of "np_threads s"] by (simp add: np_work_def np_notify_all_def del: map_map)
  qed simp_all
qed

lemma np_thread_step_live:
  assumes "\<not> np_rest s"
  shows "\<exists>a s'. np_thread_step a s s'"
proof -
  consider "0 < np_notifies s" "N_wait \<in> set (np_threads s)" | "0 < np_notifies s" "N_wait \<notin> set (np_threads s)"
    | "0 < np_stopping s" | k where "k < length (np_threads s)" "np_threads s ! k \<noteq> N_wait" "np_threads s ! k \<noteq> N_exit"
    using assms by (auto simp: np_rest_def in_set_conv_nth)
  then show ?thesis
  proof cases
    case 1
    then obtain k where "k < length (np_threads s)" "np_threads s ! k = N_wait"
      by (auto simp: in_set_conv_nth)
    then have "np_thread_step (N_notify (Some k)) s (np_notify_one (Some k) s)"
      using 1 by (simp add: np_thread_step_def np_notify)
    then show ?thesis by blast
  next
    case 2
    then have "np_thread_step (N_notify None) s (np_notify_one None s)"
      by (simp add: np_thread_step_def np_notify_none)
    then show ?thesis by blast
  next
    case 3
    then have "np_thread_step N_notify_all s (np_notify_all s)"
      by (simp add: np_thread_step_def np_step.np_notify_all)
    then show ?thesis by blast
  next
    case (4 k)
    then consider "np_threads s ! k = N_check" | j where "np_threads s ! k = N_run j"
      by (cases "np_threads s ! k") auto
    then show ?thesis
    proof cases
      case 1
      then have "np_thread_step (N_pop k) s (np_worker_check k s)"
        using 4 by (simp add: np_thread_step_def np_pop)
      then show ?thesis by blast
    next
      case (2 j)
      then have "np_thread_step (N_ran k) s (np_worker_ran k j s)"
        using 4 by (simp add: np_thread_step_def np_ran)
      then show ?thesis by blast
    qed
  qed
qed

interpretation np_drain: comes_to_rest np_thread_step np_inv np_work np_rest
proof unfold_locales
  fix a and s s' :: "'a naive_pool"
  assume i: "np_inv s" and st: "np_thread_step a s s'"
  show "np_inv s'"
    using st np_step_inv [OF _ i, of a s'] by (simp add: np_thread_step_def)
  show "np_work s' < np_work s"
    by (rule np_thread_step_work [OF st])
qed (rule np_thread_step_live)

lemma np_at_rest:
  assumes "np_inv s" "np_rest s"
  shows "if np_stop s then \<forall>w \<in> set (np_threads s). w = N_exit
    else np_jobs s = [] \<and> (\<forall>w \<in> set (np_threads s). w = N_wait)"
proof -
  have c: "np_checks (np_threads s) = 0"
    using assms(2) by (auto simp: np_rest_def np_checks_def sum_list_eq_0_iff)
  show ?thesis
  proof (cases "np_stop s")
    case True
    then show ?thesis
      using assms by (auto simp: np_inv_def np_awake_def np_rest_def)
  next
    case False
    then have "\<forall>w \<in> set (np_threads s). w = N_wait"
      using assms by (auto simp: np_inv_def np_awake_def np_rest_def)
    moreover have "np_jobs s = []"
    proof (cases "np_threads s")
      case Nil
      then show ?thesis
        using assms(1) by (simp add: np_inv_def)
    next
      case (Cons w ws)
      then have "N_wait \<in> set (np_threads s)"
        using calculation by simp
      then show ?thesis
        using assms False c by (simp add: np_inv_def np_awake_def np_rest_def)
    qed
    ultimately show ?thesis
      using False by simp
  qed
qed

section \<open>naive_thread_pool_t: claims\<close>

text \<open>
  The naive thread pool takes the jobs in the order they were pushed and loses none: in every
  reachable state the jobs posted are, in this order, those whose fate is settled (taken by a thread,
  or thrown away by a \<open>join\<close>) followed by those in the queue, and the jobs taken are the ones being
  run and the ones run to their end, each once.
\<close>

theorem naive_pool_in_order:
  assumes "run_of np_step as (np_new hw n) s"
  shows "np_posted s = map fate_job (np_fates s) @ np_jobs s \<and>
    mset (begun (np_fates s)) = np_running s + mset (np_ran s)"
  using np_run_inv [OF assms] by (simp add: np_inv_def np_ordered_def)

text \<open>The steps in a form that computes.\<close>

lemma np_step_Ran:
  "np_step (N_ran k) s s' \<longleftrightarrow>
     k < length (np_threads s) \<and> (case np_threads s ! k of N_run j \<Rightarrow> s' = np_worker_ran k j s | _ \<Rightarrow> False)"
  by (auto simp: np_step_simps split: naive_worker.splits)

lemmas np_eval = replicate_two np_step_simps(1-4,6-) np_step_Ran np_new_def np_set_max_concurrency_def max_concurrency_of_def
  default_max_concurrency_def np_start_def np_started_def np_worker_check_def np_worker_ran_def np_post_def np_notify_one_def
  np_set_stop_def np_notify_all_def np_join_def Let_def

theorem naive_pool_in_order_witness:
  "\<exists>s. run_of np_step [N_start, N_pop 0, N_post (7 :: nat), N_post 8, N_notify (Some 0), N_pop 1, N_pop 0, N_ran 0, N_notify None]
       (np_new 4 2) s \<and> map fate_job (np_fates s) @ np_jobs s = [7, 8]"
proof -
  let ?as = "[N_start, N_pop 0, N_post (7 :: nat), N_post 8, N_notify (Some 0), N_pop 1, N_pop 0, N_ran 0, N_notify None]"
  obtain s where s: "run_of np_step ?as (np_new 4 2) s" "np_posted s = [7, 8]"
    by (simp add: np_eval)
  then show ?thesis
    using naive_pool_in_order [OF s(1)] by (intro exI [of _ s]) simp
qed

text \<open>
  C20: No wake-up is lost in the naive thread pool: in every reachable state of a pool that was not stopped,
  if a thread waits, the queue holds no more jobs than there are threads about to look at it and
  notifications on their way. So the threads and notifications, left alone, take at most \<open>np_work\<close>
  steps, can always reach a state of rest, and when none can go on, either the pool was stopped and
  every thread has returned, or the queue is empty and every thread waits.
\<close>

theorem naive_pool_comes_to_rest:
  assumes "run_of np_step as (np_new hw n) s"
  shows "(\<not> np_stop s \<and> N_wait \<in> set (np_threads s) \<longrightarrow> length (np_jobs s) \<le> np_checks (np_threads s) + np_notifies s) \<and>
    (\<forall>bs t. run_of np_thread_step bs s t \<longrightarrow> length bs \<le> np_work s \<and>
      ((\<forall>a t'. \<not> np_thread_step a t t') \<longrightarrow>
         (if np_stop t then \<forall>w \<in> set (np_threads t). w = N_exit
          else np_jobs t = [] \<and> (\<forall>w \<in> set (np_threads t). w = N_wait)))) \<and>
    (\<exists>bs t. run_of np_thread_step bs s t \<and> np_rest t)"
proof -
  note i = np_run_inv [OF assms]
  have "length bs \<le> np_work s \<and>
      ((\<forall>a t'. \<not> np_thread_step a t t') \<longrightarrow>
         (if np_stop t then \<forall>w \<in> set (np_threads t). w = N_exit
          else np_jobs t = [] \<and> (\<forall>w \<in> set (np_threads t). w = N_wait)))" if b: "run_of np_thread_step bs s t" for bs t
  proof (intro conjI impI)
    show "length bs \<le> np_work s"
      using np_drain.run_bounded [OF b i] by simp
  next
    assume "\<forall>a t'. \<not> np_thread_step a t t'"
    then show "if np_stop t then \<forall>w \<in> set (np_threads t). w = N_exit
        else np_jobs t = [] \<and> (\<forall>w \<in> set (np_threads t). w = N_wait)"
      by (intro np_at_rest np_drain.stuck_rests np_drain.run_inv [OF b i])
  qed
  then show ?thesis
    using np_drain.reaches_rest [OF i] i by (simp add: np_inv_def np_awake_def)
qed

theorem naive_pool_comes_to_rest_witness:
  "\<exists>s. run_of np_step [N_start, N_pop 0, N_pop 1, N_post (7 :: nat), N_notify (Some 1)] (np_new 4 2) s \<and>
     np_threads s = [N_wait, N_check] \<and> length (np_jobs s) \<le> np_checks (np_threads s) + np_notifies s"
proof -
  let ?as = "[N_start, N_pop 0, N_pop 1, N_post (7 :: nat), N_notify (Some 1)]"
  obtain s where s: "run_of np_step ?as (np_new 4 2) s" "\<not> np_stop s" "np_threads s = [N_wait, N_check]"
    by (simp add: np_eval)
  then show ?thesis
    using conjunct1 [OF naive_pool_comes_to_rest [OF s(1)]] by (intro exI [of _ s]) simp
qed

end
