(* ===== verification/Stringify.thy ===== *)
theory Stringify
  imports C_Types
begin

text \<open>
  Numbers as text: \<open>std::to_chars\<close> and \<open>std::from_chars\<close> for integers, \<open>stringify\<close> of
  \<open>include/dsk/util/stringify.hpp\<close> and \<open>from_str\<close>, \<open>from_whole_str\<close>, \<open>str_to\<close> of
  \<open>include/dsk/util/from_str.hpp\<close>. Text is a list of bytes.
\<close>

section \<open>std::to_chars and std::from_chars\<close>

definition digit_char :: "nat \<Rightarrow> u8" where
  "digit_char d = (if d < 10 then of_nat (0x30 + d) else of_nat (0x61 + (d - 10)))"

function nat_chars :: "nat \<Rightarrow> nat \<Rightarrow> bytes" where
  "nat_chars b n = (if n < b \<or> b < 2 then [digit_char n] else nat_chars b (n div b) @ [digit_char (n mod b)])"
  by pat_completeness auto

termination
  by (relation "measure snd") (auto intro: div_less_dividend)

declare nat_chars.simps [simp del]

definition int_chars :: "nat \<Rightarrow> int \<Rightarrow> bytes" where
  "int_chars b v = (if v < 0 then 0x2d # nat_chars b (nat (- v)) else nat_chars b (nat v))"

text \<open>\<open>to_chars\<close> into a buffer of \<open>cap\<close> bytes: \<open>None\<close> for \<open>errc::value_too_large\<close>.\<close>

definition std_to_chars :: "nat \<Rightarrow> nat \<Rightarrow> int \<Rightarrow> bytes option" where
  "std_to_chars cap b v = (if length (int_chars b v) \<le> cap then Some (int_chars b v) else None)"

text \<open>The value of a character as a digit; letters of either case.\<close>

definition char_digit :: "u8 \<Rightarrow> nat option" where
  "char_digit c =
     (if 0x30 \<le> c \<and> c \<le> 0x39 then Some (unat c - 0x30)
      else if 0x61 \<le> c \<and> c \<le> 0x7a then Some (unat c - 0x61 + 10)
      else if 0x41 \<le> c \<and> c \<le> 0x5a then Some (unat c - 0x41 + 10)
      else None)"

definition digit_in :: "nat \<Rightarrow> u8 \<Rightarrow> bool" where
  "digit_in b c \<longleftrightarrow> (case char_digit c of None \<Rightarrow> False | Some d \<Rightarrow> d < b)"

definition digits_value :: "nat \<Rightarrow> bytes \<Rightarrow> nat" where
  "digits_value b s = foldl (\<lambda>a c. a * b + the (char_digit c)) 0 s"

datatype str_err = Std_invalid_argument | Std_result_out_of_range | Str_errc errc

text \<open>
  \<open>from_chars\<close>: a minus sign for a signed type, then as many digits as there are. The error, or the
  value and the number of characters read.
\<close>

definition std_from_chars :: "c_type \<Rightarrow> nat \<Rightarrow> bytes \<Rightarrow> str_err + int \<times> nat" where
  "std_from_chars T b s =
     (let neg = (c_signed T \<and> s \<noteq> [] \<and> hd s = 0x2d);
          ds = takeWhile (digit_in b) (if neg then tl s else s);
          v = (if neg then - int (digits_value b ds) else int (digits_value b ds))
      in if ds = [] then Inl Std_invalid_argument
         else if \<not> c_in T v then Inl Std_result_out_of_range
         else Inr (v, length ds + (if neg then 1 else 0)))"

section \<open>stringify\<close>

text \<open>
  \<open>fixed_storage_str\<close> with its capacity; \<open>set_end\<close> asserts that the end lies inside the storage.
  A failed assertion is \<open>None\<close>.
\<close>

record fixed_storage_str =
  fs_cap :: nat
  fs_d :: bytes

definition fs_set_end :: "bytes \<Rightarrow> fixed_storage_str \<Rightarrow> fixed_storage_str option" where
  "fs_set_end written s = (if length written < fs_cap s then Some (s\<lparr>fs_d := written\<rparr>) else None)"

definition stringify_integer_max_bytes :: "c_type \<Rightarrow> nat \<Rightarrow> nat" where
  "stringify_integer_max_bytes V base =
     (let sign = (if c_signed V then 1 else 0); sv = c_sizeof V in
      if base < 8 then sv * 8 + sign
      else if base < 16 then sv * 8 div 3 + 1 + sign
      else if base < 10 then sv * 8 div 4 + sign
      else if sv = 1 then 3 + sign
      else if sv = 2 then 5 + sign
      else if sv = 4 then 10 + sign
      else 20 + sign)"

text \<open>\<open>dsk_stringify\<close> with the base known at compile time, and with one given at run time.\<close>

definition stringify_int :: "c_type \<Rightarrow> nat \<Rightarrow> int \<Rightarrow> bytes option" where
  "stringify_int V base v =
     (let cap = stringify_integer_max_bytes V base in
      case std_to_chars cap base v of
        None \<Rightarrow> None
      | Some e \<Rightarrow> map_option fs_d (fs_set_end e \<lparr>fs_cap = cap, fs_d = []\<rparr>))"

definition stringify_radix :: "c_type \<Rightarrow> nat \<Rightarrow> int \<Rightarrow> bytes option" where
  "stringify_radix V base v =
     (if 2 \<le> base \<and> base \<le> 36
      then (let cap = stringify_integer_max_bytes V 2 in
            case std_to_chars cap base v of
              None \<Rightarrow> None
            | Some e \<Rightarrow> map_option fs_d (fs_set_end e \<lparr>fs_cap = cap, fs_d = []\<rparr>))
      else None)"

definition stringify_bool :: "bool \<Rightarrow> bytes" where
  "stringify_bool v = (if v then [0x74, 0x72, 0x75, 0x65] else [0x66, 0x61, 0x6c, 0x73, 0x65])"

definition stringify_null :: bytes where
  "stringify_null = [0x6e, 0x75, 0x6c, 0x6c]"

section \<open>from_str\<close>

text \<open>\<open>from_str\<close> gives the characters consumed; the variable is written on success only.\<close>

definition from_str :: "c_type \<Rightarrow> nat \<Rightarrow> bytes \<Rightarrow> int \<Rightarrow> (str_err + nat) \<times> int" where
  "from_str T base s v =
     (case std_from_chars T base s of
        Inl e \<Rightarrow> (Inl e, v)
      | Inr (x, p) \<Rightarrow> (Inr p, x))"

definition from_whole_str :: "c_type \<Rightarrow> nat \<Rightarrow> bytes \<Rightarrow> int \<Rightarrow> str_err option \<times> int" where
  "from_whole_str T base s v =
     (case std_from_chars T base s of
        Inl e \<Rightarrow> (Some e, v)
      | Inr (x, p) \<Rightarrow> (if p \<noteq> length s then (Some (Str_errc errc_input_not_fully_consumed), x) else (None, x)))"

definition str_to :: "c_type \<Rightarrow> nat \<Rightarrow> bytes \<Rightarrow> str_err + int" where
  "str_to T base s =
     (case from_whole_str T base s 0 of (Some e, v) \<Rightarrow> Inl e | (None, v) \<Rightarrow> Inr v)"

section \<open>Digits\<close>

lemma u8_of_nat: "n < 256 \<Longrightarrow> unat (of_nat n :: u8) = n"
  by (simp add: unsigned_of_nat take_bit_nat_eq_self)

lemma digit_char_digit:
  assumes "d < 36"
  shows "char_digit (digit_char d) = Some d"
proof -
  have "unat (of_nat (0x30 + d) :: u8) = 0x30 + d"
    by (rule u8_of_nat) (use assms in simp)
  moreover have "unat (of_nat (0x61 + (d - 10)) :: u8) = 0x61 + (d - 10)"
    by (rule u8_of_nat) (use assms in simp)
  ultimately show ?thesis
    using assms by (auto simp: digit_char_def char_digit_def word_le_nat_alt simp del: of_nat_add)
qed

lemma digit_in_char: "d < b \<Longrightarrow> b \<le> 36 \<Longrightarrow> digit_in b (digit_char d)"
  by (simp add: digit_in_def digit_char_digit)

lemma digit_in_not_minus: "\<not> digit_in b 0x2d"
  by (simp add: digit_in_def char_digit_def)

lemma digits_value_snoc: "digits_value b (s @ [c]) = digits_value b s * b + the (char_digit c)"
  by (simp add: digits_value_def)

lemma nat_chars_value:
  "2 \<le> b \<Longrightarrow> b \<le> 36 \<Longrightarrow>
   digits_value b (nat_chars b n) = n \<and> list_all (digit_in b) (nat_chars b n) \<and> nat_chars b n \<noteq> []"
proof (induction b n rule: nat_chars.induct)
  case (1 b n)
  show ?case
  proof (cases "n < b")
    case True
    then show ?thesis
      using 1 by (simp add: nat_chars.simps [of b n] digits_value_def digit_char_digit digit_in_char)
  next
    case False
    then have ih: "digits_value b (nat_chars b (n div b)) = n div b" "list_all (digit_in b) (nat_chars b (n div b))"
      using 1 by simp_all
    have m: "n mod b < b"
      using "1.prems" by simp
    then have "char_digit (digit_char (n mod b)) = Some (n mod b)"
      by (intro digit_char_digit order_less_le_trans [OF _ "1.prems"(2)])
    then show ?thesis
      using False ih m "1.prems" by (simp add: nat_chars.simps [of b n] digits_value_snoc digit_in_char)
  qed
qed

lemma nat_chars_length: "2 \<le> b \<Longrightarrow> 0 < k \<Longrightarrow> length (nat_chars b n) \<le> k \<longleftrightarrow> n < b ^ k"
proof (induction b n arbitrary: k rule: nat_chars.induct)
  case (1 b n)
  show ?case
  proof (cases "n < b")
    case True
    have "b ^ 1 \<le> b ^ k"
      using "1.prems" by (intro power_increasing) auto
    then show ?thesis
      using True "1.prems" by (simp add: nat_chars.simps [of b n])
  next
    case False
    then have u: "nat_chars b n = nat_chars b (n div b) @ [digit_char (n mod b)]"
      using "1.prems" by (simp add: nat_chars.simps [of b n])
    obtain j where k: "k = Suc j"
      using "1.prems" by (cases k) auto
    show ?thesis
    proof (cases j)
      case 0
      have "nat_chars b (n div b) \<noteq> []"
        by (subst nat_chars.simps) simp
      then show ?thesis
        using 0 k u False by simp
    next
      case (Suc i)
      have "length (nat_chars b (n div b)) \<le> j \<longleftrightarrow> n div b < b ^ j"
        using "1.IH" False "1.prems" Suc by simp
      moreover have "n div b < b ^ j \<longleftrightarrow> n < b ^ k"
        using "1.prems" k by (simp add: div_less_iff_less_mult mult.commute)
      ultimately show ?thesis
        using k u by simp
    qed
  qed
qed

lemma int_chars_read:
  assumes "2 \<le> b" "b \<le> 36" "c_in T v" and "rest = [] \<or> \<not> digit_in b (hd rest)"
  shows "std_from_chars T b (int_chars b v @ rest) = Inr (v, length (int_chars b v))"
proof -
  have tw: "takeWhile (digit_in b) (nat_chars b n @ rest) = nat_chars b n" for n
    using nat_chars_value [OF assms(1,2), of n] assms(4)
    by (cases rest) (simp_all add: list_all_iff takeWhile_append2)
  have hd: "hd (nat_chars b n) \<noteq> 0x2d" for n
    using nat_chars_value [OF assms(1,2), of n] digit_in_not_minus [of b]
    by (cases "nat_chars b n") auto
  show ?thesis
  proof (cases "v < 0")
    case True
    then have "c_signed T"
      using assms(3) by (auto simp: c_in_def split: if_splits)
    then show ?thesis
      using True assms tw nat_chars_value [OF assms(1,2), of "nat (- v)"]
      by (simp add: std_from_chars_def int_chars_def Let_def)
  next
    case False
    then show ?thesis
      using assms tw hd nat_chars_value [OF assms(1,2), of "nat v"]
      by (simp add: std_from_chars_def int_chars_def Let_def)
  qed
qed

section \<open>Properties\<close>



lemma int_chars_length:
  assumes "2 \<le> b" "0 < k"
  shows "length (int_chars b v) \<le> k + (if v < 0 then 1 else 0) \<longleftrightarrow> - int (b ^ k) < v \<and> v < int (b ^ k)"
  using nat_chars_length [OF assms, of "nat v"] nat_chars_length [OF assms, of "nat (- v)"]
  by (auto simp: int_chars_def nat_less_iff zless_nat_eq_int_zless)

text \<open>
  When the decimal \<open>stringify\<close> of an integer keeps its assertions. The storage always has room for
  the number, but \<open>set_end\<close> wants one byte more. So \<open>stringify\<close> gives the decimal text for every value of
  the types of two bytes or more, and for those of one byte unless the text is as long as can be: it
  fails on a \<open>uint8_t\<close> of 100 or more and on an \<open>int8_t\<close> of -100 or less.
\<close>

theorem stringify_fits:
  assumes "\<not> c_fp V" "V \<noteq> C_bool" "c_in V v"
  shows "stringify_int V 10 v =
    (if V = C_uint8 \<and> 100 \<le> v \<or> V = C_int8 \<and> v \<le> - 100 then None else Some (int_chars 10 v))"
proof -
  note l = int_chars_length [of 10 2 v] int_chars_length [of 10 3 v] int_chars_length [of 10 5 v]
    int_chars_length [of 10 10 v] int_chars_length [of 10 20 v]
  show ?thesis
    using assms l
    by (cases V) (auto simp: stringify_int_def std_to_chars_def stringify_integer_max_bytes_def fs_set_end_def
        c_in_cases c_fp_def Let_def split: if_splits)
qed

theorem stringify_fits_witness:
  "stringify_int C_uint8 10 200 = None \<and> stringify_int C_int8 10 100 = Some (int_chars 10 100)"
  using stringify_fits [of C_uint8 200] stringify_fits [of C_int8 100] by (simp add: c_in_cases c_fp_def)

end
