(* ===== verification/Ascii_Props.thy ===== *)
theory Ascii_Props
  imports Ascii
begin

text \<open>
  The properties of \<open>Ascii\<close>: the tables agree with the ranges of the documentation, comparison
  is equality after conversion, trimming removes the white space at the ends and nothing else.
\<close>

section \<open>The tables\<close>

text \<open>A table given by a formula on the index.\<close>

lemma u8_bound: "unat (c :: u8) < 256"
  by (rule order_less_le_trans [OF unsigned_less]) simp

lemma table_nth:
  assumes "map f t = map g [0..<256]"
  shows "f (t ! unat (c :: u8)) = g (unat c)"
proof -
  have "length t = 256"
    using arg_cong [OF assms, of length] by simp
  then have "f (t ! unat c) = map f t ! unat c"
    using u8_bound [of c] by simp
  also have "\<dots> = g (unat c)"
    using u8_bound [of c] by (simp add: assms)
  finally show ?thesis .
qed

lemma alpha_table:
  "map (\<lambda>v. v AND 0x01 \<noteq> 0) g_lut_ascii_classification =
   map (\<lambda>n. 0x41 \<le> n \<and> n \<le> 0x5a \<or> 0x61 \<le> n \<and> n \<le> 0x7a) [0..<256]"
  by code_simp

lemma alnum_table:
  "map (\<lambda>v. v AND 0x04 \<noteq> 0) g_lut_ascii_classification =
   map (\<lambda>n. 0x41 \<le> n \<and> n \<le> 0x5a \<or> 0x61 \<le> n \<and> n \<le> 0x7a \<or> 0x30 \<le> n \<and> n \<le> 0x39) [0..<256]"
  by code_simp

lemma space_table:
  "map (\<lambda>v. v AND 0x08 \<noteq> 0) g_lut_ascii_classification = map (\<lambda>n. n = 0x20 \<or> 0x09 \<le> n \<and> n \<le> 0x0d) [0..<256]"
  by code_simp

lemma punct_table:
  "map (\<lambda>v. v AND 0x10 \<noteq> 0) g_lut_ascii_classification =
   map (\<lambda>n. (0x21 \<le> n \<and> n \<le> 0x7e) \<and>
     \<not> (0x41 \<le> n \<and> n \<le> 0x5a \<or> 0x61 \<le> n \<and> n \<le> 0x7a \<or> 0x30 \<le> n \<and> n \<le> 0x39)) [0..<256]"
  by code_simp

lemma blank_table:
  "map (\<lambda>v. v AND 0x20 \<noteq> 0) g_lut_ascii_classification = map (\<lambda>n. n = 0x20 \<or> n = 0x09) [0..<256]"
  by code_simp

lemma cntrl_table:
  "map (\<lambda>v. v AND 0x40 \<noteq> 0) g_lut_ascii_classification = map (\<lambda>n. n \<le> 0x1f \<or> n = 0x7f) [0..<256]"
  by code_simp

lemma xdigit_table:
  "map (\<lambda>v. v AND 0x80 \<noteq> 0) g_lut_ascii_classification =
   map (\<lambda>n. 0x30 \<le> n \<and> n \<le> 0x39 \<or> 0x41 \<le> n \<and> n \<le> 0x46 \<or> 0x61 \<le> n \<and> n \<le> 0x66) [0..<256]"
  by code_simp

lemma tolower_table:
  "map unat g_lut_tolower = map (\<lambda>n. if 0x41 \<le> n \<and> n \<le> 0x5a then n + 0x20 else n) [0..<256]"
  by code_simp

lemma toupper_table:
  "map unat g_lut_toupper = map (\<lambda>n. if 0x61 \<le> n \<and> n \<le> 0x7a then n - 0x20 else n) [0..<256]"
  by code_simp

lemmas u8_nat = word_le_nat_alt word_less_nat_alt word_unat_eq_iff

lemma ascii_tolower_eq: "ascii_tolower c = (if ascii_isupper c then c + 0x20 else c)"
  using table_nth [OF tolower_table, of c]
  by (simp add: ascii_tolower_def ascii_isupper_def u8_nat unat_word_ariths)

lemma ascii_toupper_eq: "ascii_toupper c = (if ascii_islower c then c - 0x20 else c)"
  using table_nth [OF toupper_table, of c]
  by (auto simp: ascii_toupper_def ascii_islower_def u8_nat unat_sub_if_size)

lemma ascii_isspace_eq: "ascii_isspace c \<longleftrightarrow> c = 0x20 \<or> 0x09 \<le> c \<and> c \<le> 0x0d"
  using table_nth [OF space_table, of c] by (simp add: ascii_isspace_def ascii_class_def u8_nat)

text \<open>
  The tables say what the documentation of each function says: for every byte, the class
  tests are the ranges given beside them (letters, letters and digits, white space, punctuation,
  blanks, control characters, hexadecimal digits), and the case tables move exactly the letters of
  the other case, by 32.
\<close>

theorem ascii_tables_agree:
  "(ascii_isalpha c \<longleftrightarrow> ascii_isupper c \<or> ascii_islower c) \<and>
   (ascii_isalnum c \<longleftrightarrow> ascii_isupper c \<or> ascii_islower c \<or> ascii_isdigit c) \<and>
   (ascii_isspace c \<longleftrightarrow> c = 0x20 \<or> 0x09 \<le> c \<and> c \<le> 0x0d) \<and>
   (ascii_ispunct c \<longleftrightarrow> ascii_isgraph c \<and> \<not> (ascii_isupper c \<or> ascii_islower c \<or> ascii_isdigit c)) \<and>
   (ascii_isblank c \<longleftrightarrow> c = 0x20 \<or> c = 0x09) \<and>
   (ascii_iscntrl c \<longleftrightarrow> c \<le> 0x1f \<or> c = 0x7f) \<and>
   (ascii_isxdigit c \<longleftrightarrow> ascii_isdigit c \<or> 0x41 \<le> c \<and> c \<le> 0x46 \<or> 0x61 \<le> c \<and> c \<le> 0x66) \<and>
   ascii_tolower c = (if ascii_isupper c then c + 0x20 else c) \<and>
   ascii_toupper c = (if ascii_islower c then c - 0x20 else c)"
proof (intro conjI)
  show "ascii_isalpha c \<longleftrightarrow> ascii_isupper c \<or> ascii_islower c"
    using table_nth [OF alpha_table, of c]
    by (simp add: ascii_isalpha_def ascii_class_def ascii_isupper_def ascii_islower_def u8_nat)
  show "ascii_isalnum c \<longleftrightarrow> ascii_isupper c \<or> ascii_islower c \<or> ascii_isdigit c"
    using table_nth [OF alnum_table, of c]
    by (simp add: ascii_isalnum_def ascii_class_def ascii_isupper_def ascii_islower_def ascii_isdigit_def u8_nat)
  show "ascii_ispunct c \<longleftrightarrow> ascii_isgraph c \<and> \<not> (ascii_isupper c \<or> ascii_islower c \<or> ascii_isdigit c)"
    using table_nth [OF punct_table, of c]
    by (simp add: ascii_ispunct_def ascii_class_def ascii_isupper_def ascii_islower_def ascii_isdigit_def ascii_isgraph_def u8_nat)
  show "ascii_isblank c \<longleftrightarrow> c = 0x20 \<or> c = 0x09"
    using table_nth [OF blank_table, of c] by (simp add: ascii_isblank_def ascii_class_def u8_nat)
  show "ascii_iscntrl c \<longleftrightarrow> c \<le> 0x1f \<or> c = 0x7f"
    using table_nth [OF cntrl_table, of c] by (simp add: ascii_iscntrl_def ascii_class_def u8_nat)
  show "ascii_isxdigit c \<longleftrightarrow> ascii_isdigit c \<or> 0x41 \<le> c \<and> c \<le> 0x46 \<or> 0x61 \<le> c \<and> c \<le> 0x66"
    using table_nth [OF xdigit_table, of c] by (simp add: ascii_isxdigit_def ascii_class_def ascii_isdigit_def u8_nat)
qed (rule ascii_isspace_eq ascii_tolower_eq ascii_toupper_eq)+

section \<open>Comparison and trimming\<close>

lemma ascii_tolower_append_eq: "ascii_tolower_append d s = d @ map ascii_tolower s"
  by (induction d s rule: ascii_tolower_append.induct) simp_all

lemma ascii_toupper_append_eq: "ascii_toupper_append d s = d @ map ascii_toupper s"
  by (induction d s rule: ascii_toupper_append.induct) simp_all

lemma ascii_tolower_inplace_eq: "ascii_tolower_inplace s = map ascii_tolower s"
  by (induction s) simp_all

lemma ascii_iequal_from_eq:
  "length l = length r \<Longrightarrow>
   ascii_iequal_from r_lower l r \<longleftrightarrow> map ascii_tolower l = (if r_lower then r else map ascii_tolower r)"
  by (induction r_lower l r rule: ascii_iequal_from.induct) auto

lemma ascii_iequal_eq: "ascii_iequal r_lower l r \<longleftrightarrow> map ascii_tolower l = (if r_lower then r else map ascii_tolower r)"
  by (auto simp: ascii_iequal_def ascii_iequal_from_eq dest: map_eq_imp_length_eq arg_cong [where f = length])

lemma ascii_trim_left_eq: "ascii_trim_left s = dropWhile ascii_isspace s"
  by (induction s) simp_all

lemma ascii_trim_right_eq: "ascii_trim_right s = rev (dropWhile ascii_isspace (rev s))"
proof (induction s rule: ascii_trim_right.induct)
  case (1 s)
  show ?case
  proof (cases s rule: rev_cases)
    case Nil
    then show ?thesis by (simp add: ascii_trim_right.simps)
  next
    case (snoc ys y)
    then show ?thesis
      using 1 by (simp add: ascii_trim_right.simps [of "ys @ [y]"])
  qed
qed

lemma ascii_toupper_lower: "ascii_tolower c = ascii_tolower d \<longleftrightarrow> ascii_toupper c = ascii_toupper d"
  using table_nth [OF tolower_table, of c] table_nth [OF toupper_table, of c]
    table_nth [OF tolower_table, of d] table_nth [OF toupper_table, of d]
  by (auto simp: ascii_tolower_def ascii_toupper_def word_unat_eq_iff split: if_splits)

text \<open>
  The case-insensitive comparison is equality after conversion to lower case, or to upper case,
  whichever of the strings is converted how; with the promise that the right string is in lower case
  (\<open>RisLower\<close>) converting only the left one gives the same answer.
\<close>

theorem ascii_iequal_is_equality:
  "(ascii_iequal False l r \<longleftrightarrow> ascii_tolower_append [] l = ascii_tolower_append [] r) \<and>
   (ascii_iequal False l r \<longleftrightarrow> ascii_toupper_append [] l = ascii_toupper_append [] r) \<and>
   (ascii_iequal_lower_r l (ascii_tolower_inplace r) \<longleftrightarrow> ascii_iequal False l (ascii_tolower_inplace r)) \<and>
   (ascii_iequal_lower_r l (ascii_tolower_inplace r) \<longleftrightarrow> ascii_iequal False l r)"
proof -
  have u: "map ascii_tolower l = map ascii_tolower r \<longleftrightarrow> map ascii_toupper l = map ascii_toupper r"
    by (induction l r rule: list_induct2') (auto simp: ascii_toupper_lower)
  have i: "ascii_tolower (ascii_tolower c) = ascii_tolower c" for c
    using table_nth [OF tolower_table, of c] table_nth [OF tolower_table, of "ascii_tolower c"]
    by (auto simp: ascii_tolower_def word_unat_eq_iff split: if_splits)
  show ?thesis
    using u by (simp add: ascii_iequal_lower_r_def ascii_iequal_eq ascii_tolower_append_eq ascii_toupper_append_eq
        ascii_tolower_inplace_eq i comp_def)
qed

text \<open>
  Trimming cuts a string into leading white space, the trimmed view, and trailing white space;
  the view neither begins nor ends with white space.
\<close>

theorem ascii_trim_spec:
  "\<exists>l r. s = l @ ascii_trimed_view s @ r \<and> list_all ascii_isspace l \<and> list_all ascii_isspace r \<and>
     (ascii_trimed_view s = [] \<or>
      \<not> ascii_isspace (hd (ascii_trimed_view s)) \<and> \<not> ascii_isspace (last (ascii_trimed_view s)))"
proof -
  let ?m = "dropWhile ascii_isspace s"
  let ?v = "rev (dropWhile ascii_isspace (rev ?m))"
  let ?r = "rev (takeWhile ascii_isspace (rev ?m))"
  have v: "ascii_trimed_view s = ?v"
    by (simp add: ascii_trimed_view_def ascii_trim_inplace_def ascii_trim_left_eq ascii_trim_right_eq)
  have m: "?m = ?v @ ?r"
    by (metis rev_append rev_rev_ident takeWhile_dropWhile_id)
  have e: "?v = [] \<or> \<not> ascii_isspace (hd ?v) \<and> \<not> ascii_isspace (last ?v)"
  proof (cases "?v = []")
    case False
    then have "?m \<noteq> []"
      by (metis dropWhile.simps(1) rev.simps(1))
    then have "\<not> ascii_isspace (hd ?m)"
      by (rule hd_dropWhile)
    then have "\<not> ascii_isspace (hd ?v)"
      using m False by (metis hd_append2)
    moreover have "\<not> ascii_isspace (last ?v)"
      using False hd_dropWhile [of ascii_isspace "rev ?m"] by (metis last_rev rev_is_Nil_conv)
    ultimately show ?thesis by blast
  qed simp
  have t: "list_all ascii_isspace (takeWhile ascii_isspace xs)" for xs
    by (auto simp: list_all_iff dest: set_takeWhileD)
  have "list_all ascii_isspace ?r"
    using t [of "rev ?m"] by (simp only: list_all_iff set_rev)
  moreover have "s = takeWhile ascii_isspace s @ ?v @ ?r"
    using m by (metis takeWhile_dropWhile_id)
  ultimately show ?thesis
    unfolding v using e t [of s] by blast
qed

end
