(* ===== verification/Http_Range.thy ===== *)
theory Http_Range
  imports Stringify Ascii_Props
begin

text \<open>
  The range header of HTTP requests, \<open>include/dsk/http/range_header.hpp\<close>: parsing of a single range, and
  its resolution against the length of a file. Numbers are of type \<open>int64_t\<close>.
\<close>

section \<open>Model\<close>

record http_range =
  first_byte :: int
  last_byte :: int
  suffix_length :: int

definition hr_default :: http_range where
  "hr_default = \<lparr>first_byte = - 1, last_byte = - 1, suffix_length = - 1\<rparr>"

definition hr_valid :: "http_range \<Rightarrow> bool" where
  "hr_valid r \<longleftrightarrow>
     suffix_length r > 0 \<or> (first_byte r \<ge> 0 \<and> (last_byte r < 0 \<or> last_byte r \<ge> first_byte r))"

text \<open>\<open>None\<close> when the assertion that the range is valid fails.\<close>

definition length_to_range :: "http_range \<Rightarrow> int \<Rightarrow> (errc + http_range) option" where
  "length_to_range r len =
     (if \<not> hr_valid r then None
      else if suffix_length r > 0
      then Some (Inr \<lparr>first_byte = len - min len (suffix_length r), last_byte = len - 1, suffix_length = - 1\<rparr>)
      else if first_byte r < len
      then Some (Inr \<lparr>first_byte = first_byte r,
                      last_byte = (if last_byte r < 0 then len - 1 else min (len - 1) (last_byte r)),
                      suffix_length = - 1\<rparr>)
      else Some (Inl errc_out_of_bound))"

text \<open>\<open>find\<close> of a string view.\<close>

definition str_find :: "u8 \<Rightarrow> bytes \<Rightarrow> nat option" where
  "str_find c s = (let n = length (takeWhile (\<lambda>x. x \<noteq> c) s) in if n < length s then Some n else None)"

definition bytes_unit :: bytes where
  "bytes_unit = [0x62, 0x79, 0x74, 0x65, 0x73]"

text \<open>The two numbers, from the position after the equals sign.\<close>

definition parse_range_numbers :: "bytes \<Rightarrow> str_err + http_range" where
  "parse_range_numbers v =
     (case str_find 0x2d v of
        None \<Rightarrow> Inl (Str_errc errc_parse_failed)
      | Some p \<Rightarrow>
          (let t = ascii_left_trimed_view (take p v);
               r = hr_default;
               r1 = (if t \<noteq> []
                     then (case from_str C_int64 10 t (first_byte r) of
                             (Inl e, x) \<Rightarrow> Inl e | (Inr n, x) \<Rightarrow> Inr (r\<lparr>first_byte := x\<rparr>))
                     else Inr r)
           in e_try r1 (\<lambda>r.
             (let t = ascii_left_trimed_view (drop (p + 1) v);
                  r2 = (if t \<noteq> []
                        then (case str_to C_int64 10 t of
                                Inl e \<Rightarrow> Inl e
                              | Inr n \<Rightarrow> Inr (if first_byte r \<ge> 0 then r\<lparr>last_byte := n\<rparr> else r\<lparr>suffix_length := n\<rparr>))
                        else if first_byte r < 0 then Inl (Str_errc errc_out_of_bound)
                        else Inr r)
              in e_try r2 (\<lambda>r. if \<not> hr_valid r then Inl (Str_errc errc_out_of_bound) else Inr r)))))"

definition parse_single_range_header :: "bytes \<Rightarrow> str_err + http_range" where
  "parse_single_range_header val =
     (case str_find 0x3d val of
        None \<Rightarrow> Inl (Str_errc errc_parse_failed)
      | Some p \<Rightarrow>
          if \<not> ascii_iequal_lower_r (ascii_left_trimed_view (take p val)) bytes_unit
          then Inl (Str_errc errc_parse_failed)
          else parse_range_numbers (drop (p + 1) val))"

section \<open>Lemmas\<close>

lemma str_find_append: "c \<notin> set xs \<Longrightarrow> str_find c (xs @ c # ys) = Some (length xs)"
proof -
  assume "c \<notin> set xs"
  then have "takeWhile (\<lambda>x. x \<noteq> c) (xs @ c # ys) = xs"
    by (subst takeWhile_append2) auto
  then show ?thesis
    by (simp add: str_find_def)
qed

lemma left_trim_append:
  assumes "list_all ascii_isspace sp" and "t = [] \<or> \<not> ascii_isspace (hd t)"
  shows "ascii_left_trimed_view (sp @ t) = t"
proof -
  have "dropWhile ascii_isspace (sp @ t) = dropWhile ascii_isspace t"
    using assms(1) by (intro dropWhile_append2) (simp add: list_all_iff)
  moreover have "dropWhile ascii_isspace t = t"
    using assms(2) by (cases t) auto
  ultimately show ?thesis
    by (simp add: ascii_left_trimed_view_def ascii_trim_left_eq)
qed

lemma space_not: "ascii_isspace c \<Longrightarrow> c \<noteq> 0x2d \<and> c \<noteq> 0x3d"
  by (auto simp: ascii_isspace_eq)

lemma digit_not_space: "digit_in 10 c \<Longrightarrow> \<not> ascii_isspace c \<and> c \<noteq> 0x2d \<and> c \<noteq> 0x3d"
  by (auto simp: digit_in_def char_digit_def ascii_isspace_eq word_le_nat_alt word_less_nat_alt split: if_splits)

text \<open>A number of the header in front of something else.\<close>

lemma int_chars_nonneg: "0 \<le> v \<Longrightarrow> list_all (digit_in 10) (int_chars 10 v) \<and> int_chars 10 v \<noteq> []"
  using nat_chars_value [of 10 "nat v"] by (simp add: int_chars_def)

lemma number_trim:
  assumes "0 \<le> v" "list_all ascii_isspace sp"
  shows "ascii_left_trimed_view (sp @ int_chars 10 v @ rest) = int_chars 10 v @ rest"
proof -
  have "\<not> ascii_isspace (hd (int_chars 10 v @ rest))"
    using int_chars_nonneg [OF assms(1)] digit_not_space by (cases "int_chars 10 v") auto
  then show ?thesis
    using left_trim_append [OF assms(2)] by blast
qed

lemma unit_matches: "map ascii_tolower u = bytes_unit \<Longrightarrow> ascii_iequal_lower_r u bytes_unit"
  by (simp add: ascii_iequal_lower_r_def ascii_iequal_eq)

lemma unit_chars:
  assumes "map ascii_tolower u = bytes_unit"
  shows "u \<noteq> [] \<and> \<not> ascii_isspace (hd u) \<and> 0x3d \<notin> set u"
proof -
  have l: "ascii_tolower c \<in> {0x62, 0x79, 0x74, 0x65, 0x73} \<Longrightarrow> \<not> ascii_isspace c \<and> c \<noteq> 0x3d" for c
    by (auto simp: ascii_tolower_eq ascii_isupper_def ascii_isspace_eq split: if_splits)
  have "ascii_tolower ` set u = set bytes_unit"
    using arg_cong [OF assms, of set] by simp
  then have "\<forall>c \<in> set u. ascii_tolower c \<in> {0x62, 0x79, 0x74, 0x65, 0x73}"
    unfolding bytes_unit_def by auto
  moreover have "u \<noteq> []"
    using assms by (auto simp: bytes_unit_def)
  ultimately show ?thesis
    using l hd_in_set by blast
qed

lemma parse_unit:
  assumes "map ascii_tolower u = bytes_unit" "list_all ascii_isspace sp"
  shows "parse_single_range_header (sp @ u @ 0x3d # rest) = parse_range_numbers rest"
proof -
  have "0x3d \<notin> set (sp @ u)"
    using unit_chars [OF assms(1)] assms(2) space_not by (auto simp: list_all_iff)
  then have "str_find 0x3d ((sp @ u) @ 0x3d # rest) = Some (length (sp @ u))"
    by (rule str_find_append)
  then show ?thesis
    using left_trim_append [OF assms(2), of u] unit_chars [OF assms(1)] unit_matches [OF assms(1)]
    by (simp add: parse_single_range_header_def)
qed

lemma hr_default_first: "first_byte hr_default = - 1"
  by (simp add: hr_default_def)

lemma parse_numbers_split:
  assumes "0x2d \<notin> set x"
  shows "parse_range_numbers (x @ 0x2d # y) =
    (let t = ascii_left_trimed_view x in
     e_try (if t \<noteq> []
            then (case from_str C_int64 10 t (- 1) of
                    (Inl e, x) \<Rightarrow> Inl e | (Inr n, x) \<Rightarrow> Inr (hr_default\<lparr>first_byte := x\<rparr>))
            else Inr hr_default)
       (\<lambda>r. (let t = ascii_left_trimed_view y in
             e_try (if t \<noteq> []
                    then (case str_to C_int64 10 t of
                            Inl e \<Rightarrow> Inl e
                          | Inr n \<Rightarrow> Inr (if first_byte r \<ge> 0 then r\<lparr>last_byte := n\<rparr> else r\<lparr>suffix_length := n\<rparr>))
                    else if first_byte r < 0 then Inl (Str_errc errc_out_of_bound)
                    else Inr r)
               (\<lambda>r. if \<not> hr_valid r then Inl (Str_errc errc_out_of_bound) else Inr r))))"
  using str_find_append [OF assms, of y]
  by (simp add: parse_range_numbers_def hr_default_first Let_def)

lemma trimmed_number: "list_all ascii_isspace sp \<Longrightarrow> ascii_left_trimed_view (sp @ int_chars 10 v) = int_chars 10 v"
proof -
  assume sp: "list_all ascii_isspace sp"
  show "ascii_left_trimed_view (sp @ int_chars 10 v) = int_chars 10 v"
  proof (cases "0 \<le> v")
    case True
    then show ?thesis
      using number_trim [OF True sp, of "[]"] by simp
  next
    case False
    then have "\<not> ascii_isspace (hd (int_chars 10 v))"
      by (simp add: int_chars_def ascii_isspace_eq)
    then show ?thesis
      using left_trim_append [OF sp] by blast
  qed
qed

lemma trimmed_spaces: "list_all ascii_isspace sp \<Longrightarrow> ascii_left_trimed_view sp = []"
  using left_trim_append [of sp "[]"] by simp

lemma int_chars_not_empty: "int_chars 10 v \<noteq> []"
  using nat_chars_value [of 10] by (auto simp: int_chars_def)

lemma str_to_chars: "c_in C_int64 v \<Longrightarrow> str_to C_int64 10 (int_chars 10 v) = Inr v"
  using int_chars_read [of 10 C_int64 v "[]"] by (simp add: str_to_def from_whole_str_def)

lemma from_str_chars:
  "c_in C_int64 v \<Longrightarrow> rest = [] \<or> \<not> digit_in 10 (hd rest) \<Longrightarrow>
   from_str C_int64 10 (int_chars 10 v @ rest) x = (Inr (length (int_chars 10 v)), v)"
  using int_chars_read [of 10 C_int64 v rest] by (simp add: from_str_def)

lemma parse_range_valid:
  assumes "parse_single_range_header val = Inr r"
  shows "hr_valid r"
proof -
  have t: "e_try x (\<lambda>r. if \<not> hr_valid r then Inl e else Inr r) = Inr r \<Longrightarrow> hr_valid r" for x :: "str_err + http_range" and e
    by (cases x) (auto split: if_splits)
  have "parse_range_numbers v = Inr r \<Longrightarrow> hr_valid r" for v
    unfolding parse_range_numbers_def Let_def
    by (auto split: option.splits elim!: e_try.elims dest: t t [OF sym])
  then show ?thesis
    using assms by (auto simp: parse_single_range_header_def split: option.splits if_splits)
qed

section \<open>Properties\<close>

text \<open>
  C39: What the parser makes of a range header. With the unit in any case, white space where the
  parser skips it, a first number \<open>a\<close> and a second number \<open>b\<close>: \<open>a-\<close> is the open range from \<open>a\<close>, \<open>a-b\<close>
  the range from \<open>a\<close> to \<open>b\<close> or an error when \<open>b\<close> comes before \<open>a\<close>, \<open>-b\<close> the last \<open>b\<close> bytes or an error
  when that is none. Anything that is not a digit and has no minus sign may stand behind the first
  number and is ignored, and a negative \<open>b\<close> makes an open range.
\<close>

theorem http_range_parse:
  assumes "map ascii_tolower u = bytes_unit" "list_all ascii_isspace sp" "list_all ascii_isspace sp1" "list_all ascii_isspace sp2"
    and "0 \<le> a" "c_in C_int64 a" "c_in C_int64 b"
    and "0x2d \<notin> set junk" "junk = [] \<or> \<not> digit_in 10 (hd junk)"
  shows "parse_single_range_header (sp @ u @ [0x3d] @ sp1 @ int_chars 10 a @ junk @ [0x2d] @ sp2) =
      Inr \<lparr>first_byte = a, last_byte = - 1, suffix_length = - 1\<rparr> \<and>
    parse_single_range_header (sp @ u @ [0x3d] @ sp1 @ int_chars 10 a @ junk @ [0x2d] @ sp2 @ int_chars 10 b) =
      (if b < 0 \<or> a \<le> b then Inr \<lparr>first_byte = a, last_byte = b, suffix_length = - 1\<rparr>
       else Inl (Str_errc errc_out_of_bound)) \<and>
    parse_single_range_header (sp @ u @ [0x3d] @ sp1 @ [0x2d] @ sp2 @ int_chars 10 b) =
      (if 0 < b then Inr \<lparr>first_byte = - 1, last_byte = - 1, suffix_length = b\<rparr>
       else Inl (Str_errc errc_out_of_bound))"
proof -
  let ?x = "sp1 @ int_chars 10 a @ junk"
  have x: "0x2d \<notin> set ?x" and s: "0x2d \<notin> set sp1"
    using assms(3,8) int_chars_nonneg [OF assms(5)] space_not digit_not_space by (auto simp: list_all_iff)
  have t: "ascii_left_trimed_view ?x = int_chars 10 a @ junk"
    by (rule number_trim [OF assms(5,3)])
  note f = from_str_chars [OF assms(6,9)]
  have p: "parse_single_range_header (sp @ u @ [0x3d] @ y) = parse_range_numbers y" for y
    using parse_unit [OF assms(1,2), of y] by simp
  have 1: "parse_range_numbers (?x @ 0x2d # sp2) = Inr \<lparr>first_byte = a, last_byte = - 1, suffix_length = - 1\<rparr>"
    unfolding parse_numbers_split [OF x]
    using assms(5) by (simp add: t f trimmed_spaces [OF assms(4)] int_chars_not_empty hr_default_def hr_valid_def)
  have 2: "parse_range_numbers (?x @ 0x2d # sp2 @ int_chars 10 b) =
      (if b < 0 \<or> a \<le> b then Inr \<lparr>first_byte = a, last_byte = b, suffix_length = - 1\<rparr>
       else Inl (Str_errc errc_out_of_bound))"
    unfolding parse_numbers_split [OF x]
    using assms(5) by (simp add: t f trimmed_number [OF assms(4)] str_to_chars [OF assms(7)] int_chars_not_empty
        hr_default_def hr_valid_def)
  have 3: "parse_range_numbers (sp1 @ 0x2d # sp2 @ int_chars 10 b) =
      (if 0 < b then Inr \<lparr>first_byte = - 1, last_byte = - 1, suffix_length = b\<rparr>
       else Inl (Str_errc errc_out_of_bound))"
    unfolding parse_numbers_split [OF s]
    by (simp add: trimmed_spaces [OF assms(3)] trimmed_number [OF assms(4)] str_to_chars [OF assms(7)] int_chars_not_empty
        hr_default_def hr_valid_def)
  show ?thesis
    using p [of "?x @ 0x2d # sp2"] p [of "?x @ 0x2d # sp2 @ int_chars 10 b"] p [of "sp1 @ 0x2d # sp2 @ int_chars 10 b"] 1 2 3
    by simp
qed

text \<open>\<open>bytes=5x--3\<close> is taken for \<open>bytes=5-\<close>.\<close>

theorem http_range_parse_witness:
  "parse_single_range_header ([0x42, 0x79, 0x74, 0x65, 0x73] @ [0x3d] @ int_chars 10 5 @ [0x78] @ [0x2d] @ int_chars 10 (- 3)) =
     Inr \<lparr>first_byte = 5, last_byte = - 3, suffix_length = - 1\<rparr>"
  using conjunct1 [OF conjunct2 [OF http_range_parse
      [of "[0x42, 0x79, 0x74, 0x65, 0x73]" "[]" "[]" "[]" 5 "- 3" "[0x78]"]]]
  by (simp add: bytes_unit_def ascii_tolower_eq ascii_isupper_def c_in_cases digit_in_def char_digit_def)

text \<open>
  A parsed range, resolved against a file of \<open>len\<close> bytes, selects the bytes that were asked for: the
  assertion holds; the result is the error exactly when the range starts at or behind the end; otherwise
  the bytes from first to last are those of the file that the header names.
\<close>

theorem http_range_selects:
  assumes "parse_single_range_header val = Inr r" and "0 \<le> len"
  shows "length_to_range r len =
      (if suffix_length r \<le> 0 \<and> len \<le> first_byte r then Some (Inl errc_out_of_bound)
       else Some (Inr \<lparr>first_byte = (if suffix_length r > 0 then max 0 (len - suffix_length r) else first_byte r),
                       last_byte = (if suffix_length r > 0 \<or> last_byte r < 0 then len - 1 else min (len - 1) (last_byte r)),
                       suffix_length = - 1\<rparr>)) \<and>
    (\<forall>q. length_to_range r len = Some (Inr q) \<longrightarrow>
       {first_byte q..last_byte q} =
       {i. 0 \<le> i \<and> i < len \<and>
          (if suffix_length r > 0 then len - suffix_length r \<le> i
           else first_byte r \<le> i \<and> (last_byte r < 0 \<or> i \<le> last_byte r))})"
  using parse_range_valid [OF assms(1)] assms(2)
  by (auto simp: length_to_range_def hr_valid_def min_def max_def split: if_splits)

theorem http_range_selects_witness:
  "\<exists>r. parse_single_range_header ([0x62, 0x79, 0x74, 0x65, 0x73, 0x3d, 0x2d] @ int_chars 10 4) = Inr r \<and>
     length_to_range r 10 = Some (Inr \<lparr>first_byte = 6, last_byte = 9, suffix_length = - 1\<rparr>)"
proof -
  have p: "parse_single_range_header ([0x62, 0x79, 0x74, 0x65, 0x73, 0x3d, 0x2d] @ int_chars 10 4) =
      Inr \<lparr>first_byte = - 1, last_byte = - 1, suffix_length = 4\<rparr>"
    by code_simp
  show ?thesis
    using conjunct1 [OF http_range_selects [OF p, of 10]] p by simp
qed

end
