(* ===== verification/Num_Cast.thy ===== *)
theory Num_Cast
  imports C_Types
begin

text \<open>
  The checked conversions between arithmetic types, \<open>include/dsk/util/num_cast.hpp\<close>. A type converts
  to itself without change; the other conversions from or to a floating point type are the argument
  \<open>F\<close>: source type, target type, value.
  The error is returned; the variants that throw it instead differ in nothing else.
\<close>

section \<open>Types and limits\<close>

definition c_lowest :: "c_type \<Rightarrow> int" where
  "c_lowest T = (if c_signed T then - (c_range T div 2) else 0)"

definition c_max :: "c_type \<Rightarrow> int" where
  "c_max T = (if T = C_bool then 1 else if c_signed T then c_range T div 2 - 1 else c_range T - 1)"

definition static_cast :: "c_type \<Rightarrow> int \<Rightarrow> int" where
  "static_cast T v = (if T = C_bool then (if v = 0 then 0 else 1) else c_cast T v)"

text \<open>\<open>_lossless_convertible_\<close> on integral types: not narrowing, or from or to \<open>bool\<close>.\<close>

definition lossless_convertible :: "c_type \<Rightarrow> c_type \<Rightarrow> bool" where
  "lossless_convertible S T \<longleftrightarrow>
     c_lowest T \<le> c_lowest S \<and> c_max S \<le> c_max T \<or> S = C_bool \<or> T = C_bool"

section \<open>Conversions\<close>

type_synonym fp_conversion = "c_type \<Rightarrow> c_type \<Rightarrow> int \<Rightarrow> errc + int"

definition num_cast :: "fp_conversion \<Rightarrow> c_type \<Rightarrow> c_type \<Rightarrow> int \<Rightarrow> errc + int" where
  "num_cast F T S s =
     (if S = T then Inr s
      else if c_fp S \<or> c_fp T then F S T s
      else if lossless_convertible S T then Inr (static_cast T s)
      else if c_signed S \<and> c_signed T
      then (if static_cast S (c_lowest T) \<le> s \<and> s \<le> static_cast S (c_max T)
            then Inr (static_cast T s) else Inl errc_bad_num_cast)
      else if c_signed S
      then (let w = (if c_sizeof S > c_sizeof T then S else T) in
            if 0 \<le> s \<and> static_cast w s \<le> static_cast w (c_max T)
            then Inr (static_cast T s) else Inl errc_bad_num_cast)
      else (let w = (if c_sizeof S < c_sizeof T then T else S) in
            if static_cast w s \<le> static_cast w (c_max T)
            then Inr (static_cast T s) else Inl errc_bad_num_cast))"

text \<open>\<open>cvt_num(s, t)\<close>: the error, and what \<open>t\<close> holds afterwards.\<close>

definition cvt_num :: "fp_conversion \<Rightarrow> c_type \<Rightarrow> int \<Rightarrow> c_type \<Rightarrow> int \<Rightarrow> errc option \<times> int" where
  "cvt_num F S s T t =
     (let r = num_cast F T S s in
      if \<not> has_err r then (None, the (get_val r)) else (get_err r, t))"

section \<open>Properties\<close>

lemma c_in_limits: "\<not> c_fp T \<Longrightarrow> T \<noteq> C_bool \<Longrightarrow> c_in T v \<longleftrightarrow> c_lowest T \<le> v \<and> v \<le> c_max T"
  by (cases T) (auto simp: c_in_cases c_lowest_def c_max_def c_range_def c_fp_def)

lemma static_cast_in: "T \<noteq> C_bool \<Longrightarrow> c_in T v \<Longrightarrow> static_cast T v = v"
  by (simp add: static_cast_def)

lemma num_cast_exact:
  assumes S: "\<not> c_fp S" "S \<noteq> C_bool" and T: "\<not> c_fp T" "T \<noteq> C_bool" and s: "c_in S s"
  shows "num_cast F T S s = (if c_in T s then Inr s else Inl errc_bad_num_cast)"
  using assms
  by (cases S; cases T; simp add: num_cast_def lossless_convertible_def c_lowest_def c_max_def c_range_def c_fp_def
      c_in_cases static_cast_def Let_def)

text \<open>
  C40: A checked conversion between two integer types gives exactly the values the target type has:
  for every value of the source type the result is the same number when the target type can hold it,
  and the error \<open>bad_num_cast\<close> otherwise; \<open>cvt_num\<close> writes the target variable only in the first case.
\<close>

theorem num_cast_keeps_value:
  assumes "\<not> c_fp S" "S \<noteq> C_bool" "\<not> c_fp T" "T \<noteq> C_bool" "c_in S s"
  shows "num_cast F T S s = (if c_in T s then Inr s else Inl errc_bad_num_cast) \<and>
    cvt_num F S s T t = (if c_in T s then (None, s) else (Some errc_bad_num_cast, t))"
  using num_cast_exact [OF assms] by (simp add: cvt_num_def Let_def)

theorem num_cast_keeps_value_witness:
  "num_cast (\<lambda>_ _. Inr) C_int8 C_uint32 200 = Inl errc_bad_num_cast \<and>
   cvt_num (\<lambda>_ _. Inr) C_int64 (- 5) C_int16 7 = (None, - 5)"
  using num_cast_keeps_value [of C_uint32 C_int8 200 "\<lambda>_ _. Inr"]
    num_cast_keeps_value [of C_int64 C_int16 "- 5" "\<lambda>_ _. Inr" 7]
  by (simp add: c_fp_def c_in_cases)

end
