(* ===== verification/Pq_Types.thy ===== *)
theory Pq_Types
  imports Num_Cast Stringify
begin

text \<open>
  The binary and textual data formats of the PostgreSQL client, \<open>include/dsk/pq/data_types.hpp\<close>: the
  writers of query parameters and the readers of result fields. The server and libpq are not part of
  the model. A parameter or field is a list of bytes; \<open>E\<close> is the big endian byte order and \<open>F\<close> the
  floating point conversions of \<open>num_cast\<close>. The type \<open>char\<close> is signed, as on the usual platforms.
\<close>

section \<open>Formats and object identifiers\<close>

datatype pq_fmt_e = pq_fmt_text | pq_fmt_binary

datatype pq_oid_e =
    pq_oid_invalid | pq_oid_unknown
  | pq_oid_bool | pq_oid_int2 | pq_oid_int4 | pq_oid_int8 | pq_oid_float4 | pq_oid_float8 | pq_oid_numeric
  | pq_oid_char | pq_oid_bpchar | pq_oid_varchar | pq_oid_name | pq_oid_text
  | pq_oid_json | pq_oid_jsonb | pq_oid_xml
  | pq_oid_bytea
  | pq_oid_arr_bool | pq_oid_arr_int2 | pq_oid_arr_int4 | pq_oid_arr_int8
  | pq_oid_arr_float4 | pq_oid_arr_float8 | pq_oid_arr_numeric
  | pq_oid_arr_char | pq_oid_arr_bpchar | pq_oid_arr_varchar | pq_oid_arr_text
  | pq_oid_arr_json | pq_oid_arr_jsonb
  | pq_oid_arr_bytea

fun pq_fmt_value :: "pq_fmt_e \<Rightarrow> int" where
  "pq_fmt_value pq_fmt_text = 0"
| "pq_fmt_value pq_fmt_binary = 1"

fun pq_oid_value :: "pq_oid_e \<Rightarrow> int" where
  "pq_oid_value pq_oid_invalid = 0"
| "pq_oid_value pq_oid_unknown = 705"
| "pq_oid_value pq_oid_bool = 16"
| "pq_oid_value pq_oid_int2 = 21"
| "pq_oid_value pq_oid_int4 = 23"
| "pq_oid_value pq_oid_int8 = 20"
| "pq_oid_value pq_oid_float4 = 700"
| "pq_oid_value pq_oid_float8 = 701"
| "pq_oid_value pq_oid_numeric = 1700"
| "pq_oid_value pq_oid_char = 18"
| "pq_oid_value pq_oid_bpchar = 1042"
| "pq_oid_value pq_oid_varchar = 1043"
| "pq_oid_value pq_oid_name = 19"
| "pq_oid_value pq_oid_text = 25"
| "pq_oid_value pq_oid_json = 114"
| "pq_oid_value pq_oid_jsonb = 3802"
| "pq_oid_value pq_oid_xml = 142"
| "pq_oid_value pq_oid_bytea = 17"
| "pq_oid_value pq_oid_arr_bool = 1000"
| "pq_oid_value pq_oid_arr_int2 = 1005"
| "pq_oid_value pq_oid_arr_int4 = 1007"
| "pq_oid_value pq_oid_arr_int8 = 1016"
| "pq_oid_value pq_oid_arr_float4 = 1021"
| "pq_oid_value pq_oid_arr_float8 = 1022"
| "pq_oid_value pq_oid_arr_numeric = 1231"
| "pq_oid_value pq_oid_arr_char = 1002"
| "pq_oid_value pq_oid_arr_bpchar = 1014"
| "pq_oid_value pq_oid_arr_varchar = 1015"
| "pq_oid_value pq_oid_arr_text = 1009"
| "pq_oid_value pq_oid_arr_json = 199"
| "pq_oid_value pq_oid_arr_jsonb = 3807"
| "pq_oid_value pq_oid_arr_bytea = 1001"

text \<open>
  A \<open>pq_oid_e\<close> object can hold any 32 bit number, since readers cast what the server sends; the tests
  compare it with the enumerators.
\<close>

definition pq_is_textual :: "int \<Rightarrow> bool" where
  "pq_is_textual t \<longleftrightarrow>
     t \<in> set (map pq_oid_value [pq_oid_char, pq_oid_name, pq_oid_text, pq_oid_json, pq_oid_xml,
                               pq_oid_bpchar, pq_oid_varchar])"

definition pq_is_array :: "int \<Rightarrow> bool" where
  "pq_is_array t \<longleftrightarrow>
     t \<in> set (map pq_oid_value [pq_oid_arr_bool, pq_oid_arr_int2, pq_oid_arr_int4, pq_oid_arr_int8,
                               pq_oid_arr_float4, pq_oid_arr_float8, pq_oid_arr_numeric, pq_oid_arr_char,
                               pq_oid_arr_text, pq_oid_arr_bpchar, pq_oid_arr_varchar, pq_oid_arr_bytea,
                               pq_oid_arr_json, pq_oid_arr_jsonb])"

section \<open>Writing parameters\<close>

text \<open>
  \<open>pq_param_write_result\<close>: the span it is points at the data, which is \<open>None\<close> for a null pointer; for the
  text format the span is empty and points at a terminated string.
\<close>

record pq_param_write_result =
  pr_oid :: pq_oid_e
  pr_fmt :: pq_fmt_e
  pr_data :: "bytes option"
  pr_size :: nat

definition pq_binary_result :: "pq_oid_e \<Rightarrow> bytes \<Rightarrow> pq_param_write_result" where
  "pq_binary_result oid d = \<lparr>pr_oid = oid, pr_fmt = pq_fmt_binary, pr_data = Some d, pr_size = length d\<rparr>"

definition pq_null_result :: "pq_oid_e \<Rightarrow> pq_param_write_result" where
  "pq_null_result oid = \<lparr>pr_oid = oid, pr_fmt = pq_fmt_binary, pr_data = None, pr_size = 0\<rparr>"

text \<open>
  The arithmetic types that can be parameters: \<open>Pq_char\<close> is \<open>char\<close> and the wrapper \<open>pq_char\<close>. The type sent,
  with the object identifiers of a value and of an array; \<open>None\<close> where the code does not compile.
\<close>

datatype pq_arith = Pq_num c_type | Pq_char

fun pq_ctype :: "pq_arith \<Rightarrow> c_type" where
  "pq_ctype (Pq_num T) = T"
| "pq_ctype Pq_char = C_int8"

fun arithmetic_pq_param_info :: "pq_arith \<Rightarrow> (c_type \<times> pq_oid_e \<times> pq_oid_e) option" where
  "arithmetic_pq_param_info (Pq_num C_bool) = Some (C_int8, pq_oid_bool, pq_oid_arr_bool)"
| "arithmetic_pq_param_info Pq_char = Some (C_int8, pq_oid_char, pq_oid_arr_char)"
| "arithmetic_pq_param_info (Pq_num C_int8) = Some (C_int16, pq_oid_int2, pq_oid_arr_int2)"
| "arithmetic_pq_param_info (Pq_num C_uint8) = Some (C_int16, pq_oid_int2, pq_oid_arr_int2)"
| "arithmetic_pq_param_info (Pq_num C_int16) = Some (C_int16, pq_oid_int2, pq_oid_arr_int2)"
| "arithmetic_pq_param_info (Pq_num C_uint16) = Some (C_int32, pq_oid_int4, pq_oid_arr_int4)"
| "arithmetic_pq_param_info (Pq_num C_int32) = Some (C_int32, pq_oid_int4, pq_oid_arr_int4)"
| "arithmetic_pq_param_info (Pq_num C_uint32) = Some (C_int64, pq_oid_int8, pq_oid_arr_int8)"
| "arithmetic_pq_param_info (Pq_num C_int64) = Some (C_int64, pq_oid_int8, pq_oid_arr_int8)"
| "arithmetic_pq_param_info (Pq_num C_float) = Some (C_float, pq_oid_float4, pq_oid_arr_float4)"
| "arithmetic_pq_param_info (Pq_num C_double) = Some (C_double, pq_oid_float8, pq_oid_arr_float8)"
| "arithmetic_pq_param_info (Pq_num C_uint64) = None"

text \<open>
  Writing into a buffer of fixed size: the position and the bytes of the buffer; \<open>None\<close> when the write
  would run past its end.
\<close>

type_synonym pq_buf = "nat \<times> bytes"

fun pq_put :: "bytes \<Rightarrow> pq_buf \<Rightarrow> pq_buf option" where
  "pq_put bs (d, buf) =
     (if d + length bs \<le> length buf then Some (d + length bs, take d buf @ bs @ drop (d + length bs) buf) else None)"

definition arr1d_hdr_size :: nat where
  "arr1d_hdr_size = 5 * 4"

definition write_int32 :: "endian_codec \<Rightarrow> int \<Rightarrow> pq_buf \<Rightarrow> pq_buf option" where
  "write_int32 E t = pq_put (store_xe E C_int32 (c_cast C_int32 t))"

text \<open>
  \<open>arr1d_pq_param_writer\<close>, given the constant element size (0 when the elements differ in size), the
  function that computes the size and the one that writes an element.
\<close>

definition arr1d_buf_size :: "nat \<Rightarrow> ('e \<Rightarrow> nat) \<Rightarrow> 'e list \<Rightarrow> nat" where
  "arr1d_buf_size elm_size get_elm_size v =
     (if elm_size \<noteq> 0 then arr1d_hdr_size + length v * (4 + elm_size)
      else arr1d_hdr_size + length v * 4 + sum_list (map get_elm_size v))"

fun arr1d_write_elms ::
  "endian_codec \<Rightarrow> nat \<Rightarrow> ('e \<Rightarrow> nat) \<Rightarrow> ('e \<Rightarrow> bytes) \<Rightarrow> 'e list \<Rightarrow> pq_buf \<Rightarrow> pq_buf option"
where
  "arr1d_write_elms E elm_size get_elm_size write_elm [] b = Some b"
| "arr1d_write_elms E elm_size get_elm_size write_elm (e # v) b =
     Option.bind (write_int32 E (int (if elm_size \<noteq> 0 then elm_size else get_elm_size e)) b) (\<lambda>b.
     Option.bind (pq_put (write_elm e) b)
       (arr1d_write_elms E elm_size get_elm_size write_elm v))"

definition arr1d_write ::
  "endian_codec \<Rightarrow> pq_oid_e \<Rightarrow> pq_oid_e \<Rightarrow> nat \<Rightarrow> ('e \<Rightarrow> nat) \<Rightarrow> ('e \<Rightarrow> bytes) \<Rightarrow> 'e list \<Rightarrow>
   pq_param_write_result option"
where
  "arr1d_write E arr_oid elm_oid elm_size get_elm_size write_elm v =
     map_option (\<lambda>b. pq_binary_result arr_oid (snd b))
       (Option.bind (write_int32 E 1 (0, replicate (arr1d_buf_size elm_size get_elm_size v) 0)) (\<lambda>b.
        Option.bind (write_int32 E 0 b) (\<lambda>b.
        Option.bind (write_int32 E (pq_oid_value elm_oid) b) (\<lambda>b.
        Option.bind (write_int32 E (int (length v)) b) (\<lambda>b.
        Option.bind (write_int32 E 1 b)
          (arr1d_write_elms E elm_size get_elm_size write_elm v))))))"

text \<open>The overloads for values and ranges of the three kinds of types.\<close>

definition pq_write_arithmetic :: "endian_codec \<Rightarrow> pq_arith \<Rightarrow> int \<Rightarrow> pq_param_write_result option" where
  "pq_write_arithmetic E A v =
     map_option (\<lambda>(W, elm_oid, arr_oid). pq_binary_result elm_oid (store_xe E W (c_cast W v)))
       (arithmetic_pq_param_info A)"

definition pq_write_arithmetic_range :: "endian_codec \<Rightarrow> pq_arith \<Rightarrow> int list \<Rightarrow> pq_param_write_result option" where
  "pq_write_arithmetic_range E A v =
     Option.bind (arithmetic_pq_param_info A) (\<lambda>(W, elm_oid, arr_oid).
       arr1d_write E arr_oid elm_oid (c_sizeof W) (\<lambda>e. 0) (\<lambda>e. store_xe E W (c_cast W e)) v)"

definition pq_write_str :: "bytes \<Rightarrow> pq_param_write_result" where
  "pq_write_str v = pq_binary_result pq_oid_text v"

definition pq_write_str_range :: "endian_codec \<Rightarrow> bytes list \<Rightarrow> pq_param_write_result option" where
  "pq_write_str_range E v = arr1d_write E pq_oid_arr_text pq_oid_text 0 length (\<lambda>e. e) v"

definition pq_write_bytes :: "bytes \<Rightarrow> pq_param_write_result" where
  "pq_write_bytes v = pq_binary_result pq_oid_bytea v"

definition pq_write_bytes_range :: "endian_codec \<Rightarrow> bytes list \<Rightarrow> pq_param_write_result option" where
  "pq_write_bytes_range E v = arr1d_write E pq_oid_arr_bytea pq_oid_bytea 0 length (\<lambda>e. e) v"

definition pq_write_nullptr :: pq_param_write_result where
  "pq_write_nullptr = pq_null_result pq_oid_invalid"

definition pq_write_tparam :: "bytes \<Rightarrow> pq_param_write_result" where
  "pq_write_tparam v = \<lparr>pr_oid = pq_oid_invalid, pr_fmt = pq_fmt_text, pr_data = Some v, pr_size = 0\<rparr>"

text \<open>The parameter types, and the parameters: an optional carries the type it may hold a value of.\<close>

datatype pq_type =
    Ty_arith pq_arith | Ty_arith_range pq_arith | Ty_str | Ty_str_range | Ty_bytes | Ty_bytes_range
  | Ty_nullptr | Ty_tparam | Ty_optional pq_type

datatype pq_param =
    Pm_arith pq_arith int | Pm_arith_range pq_arith "int list"
  | Pm_str bytes | Pm_str_range "bytes list" | Pm_bytes bytes | Pm_bytes_range "bytes list"
  | Pm_nullptr | Pm_tparam bytes | Pm_optional pq_type "pq_param option"

fun pq_param_oid :: "pq_type \<Rightarrow> pq_oid_e option" where
  "pq_param_oid (Ty_arith A) = map_option (\<lambda>(W, elm_oid, arr_oid). elm_oid) (arithmetic_pq_param_info A)"
| "pq_param_oid (Ty_arith_range A) = map_option (\<lambda>(W, elm_oid, arr_oid). arr_oid) (arithmetic_pq_param_info A)"
| "pq_param_oid Ty_str = Some pq_oid_text"
| "pq_param_oid Ty_str_range = Some pq_oid_arr_text"
| "pq_param_oid Ty_bytes = Some pq_oid_bytea"
| "pq_param_oid Ty_bytes_range = Some pq_oid_arr_bytea"
| "pq_param_oid Ty_nullptr = Some pq_oid_invalid"
| "pq_param_oid Ty_tparam = Some pq_oid_invalid"
| "pq_param_oid (Ty_optional T) = pq_param_oid T"

fun pq_write_param :: "endian_codec \<Rightarrow> pq_param \<Rightarrow> pq_param_write_result option" where
  "pq_write_param E (Pm_arith A v) = pq_write_arithmetic E A v"
| "pq_write_param E (Pm_arith_range A v) = pq_write_arithmetic_range E A v"
| "pq_write_param E (Pm_str v) = Some (pq_write_str v)"
| "pq_write_param E (Pm_str_range v) = pq_write_str_range E v"
| "pq_write_param E (Pm_bytes v) = Some (pq_write_bytes v)"
| "pq_write_param E (Pm_bytes_range v) = pq_write_bytes_range E v"
| "pq_write_param E Pm_nullptr = Some pq_write_nullptr"
| "pq_write_param E (Pm_tparam v) = Some (pq_write_tparam v)"
| "pq_write_param E (Pm_optional T (Some p)) = pq_write_param E p"
| "pq_write_param E (Pm_optional T None) = map_option pq_null_result (pq_param_oid T)"

text \<open>\<open>pq_params_builder\<close>: the four arrays that libpq takes, one entry for each parameter.\<close>

record pq_params_builder =
  pb_oids :: "int list"
  pb_fmts :: "int list"
  pb_vals :: "bytes option list"
  pb_lens :: "int list"

fun build_pq_params :: "endian_codec \<Rightarrow> pq_param list \<Rightarrow> pq_params_builder option" where
  "build_pq_params E [] = Some \<lparr>pb_oids = [], pb_fmts = [], pb_vals = [], pb_lens = []\<rparr>"
| "build_pq_params E (p # ps) =
     Option.bind (pq_write_param E p) (\<lambda>r.
     Option.bind (build_pq_params E ps) (\<lambda>b.
       Some \<lparr>pb_oids = pq_oid_value (pr_oid r) # pb_oids b,
             pb_fmts = pq_fmt_value (pr_fmt r) # pb_fmts b,
             pb_vals = pr_data r # pb_vals b,
             pb_lens = c_cast C_int32 (int (pr_size r)) # pb_lens b\<rparr>))"

section \<open>Reading text\<close>

text \<open>
  \<open>from_pq_textual\<close> of the text \<open>s\<close> into a variable that holds \<open>v\<close>: the error, and what it holds then.
\<close>

definition from_pq_textual_bool :: "bytes \<Rightarrow> int \<Rightarrow> errc option \<times> int" where
  "from_pq_textual_bool s v =
     (if s = stringify_bool True then (None, 1)
      else if s = stringify_bool False then (None, 0)
      else (Some errc_invalid_input, v))"

definition from_pq_textual_char :: "bytes \<Rightarrow> int \<Rightarrow> errc option \<times> int" where
  "from_pq_textual_char s v =
     (if length s = 1 then (None, c_cast C_int8 (uint (hd s))) else (Some errc_size_mismatch, v))"

definition from_pq_textual_num :: "c_type \<Rightarrow> bytes \<Rightarrow> int \<Rightarrow> str_err option \<times> int" where
  "from_pq_textual_num T s v = from_whole_str T 10 s v"

definition from_pq_textual_str :: "bytes \<Rightarrow> bytes \<Rightarrow> bytes" where
  "from_pq_textual_str s v = s"

section \<open>Reading binary values\<close>

text \<open>
  \<open>load_be\<close> at offset \<open>d\<close> of the memory \<open>m\<close>; \<open>None\<close> when it would read past its end.
\<close>

definition pq_load :: "endian_codec \<Rightarrow> c_type \<Rightarrow> bytes \<Rightarrow> nat \<Rightarrow> int option" where
  "pq_load E T m d = (if d + c_sizeof T \<le> length m then Some (load_xe E T (drop d m)) else None)"

text \<open>
  \<open>from_pq_binary\<close> into a value of type \<open>'v\<close>: the object identifier, the memory, the offset and the size
  of the data, and the value before; the error and the value after. The outer option is \<open>None\<close> when the
  memory is read past its end.
\<close>

type_synonym 'v pq_binary_reader = "int \<Rightarrow> bytes \<Rightarrow> nat \<Rightarrow> nat \<Rightarrow> 'v \<Rightarrow> (errc option \<times> 'v) option"

definition pq_do_read :: "endian_codec \<Rightarrow> fp_conversion \<Rightarrow> c_type \<Rightarrow> c_type \<Rightarrow> bytes \<Rightarrow> nat \<Rightarrow> nat \<Rightarrow> int \<Rightarrow>
    (errc option \<times> int) option" where
  "pq_do_read E F S T m d n v =
     (if n = c_sizeof S then map_option (\<lambda>x. cvt_num F S x T v) (pq_load E S m d)
      else Some (Some errc_size_mismatch, v))"

definition from_pq_binary_num :: "endian_codec \<Rightarrow> fp_conversion \<Rightarrow> c_type \<Rightarrow> int pq_binary_reader" where
  "from_pq_binary_num E F T t m d n v =
     (if t = pq_oid_value pq_oid_bool then pq_do_read E F C_int8 T m d n v
      else if t = pq_oid_value pq_oid_char then pq_do_read E F C_int8 T m d n v
      else if t = pq_oid_value pq_oid_int2 then pq_do_read E F C_int16 T m d n v
      else if t = pq_oid_value pq_oid_int4 then pq_do_read E F C_int32 T m d n v
      else if t = pq_oid_value pq_oid_int8 then pq_do_read E F C_int64 T m d n v
      else if t = pq_oid_value pq_oid_float4 then pq_do_read E F C_float T m d n v
      else if t = pq_oid_value pq_oid_float8 then pq_do_read E F C_double T m d n v
      else Some (Some errc_type_mismatch, v))"

text \<open>Copying \<open>n\<close> bytes from offset \<open>d\<close>.\<close>

definition pq_bytes_at :: "bytes \<Rightarrow> nat \<Rightarrow> nat \<Rightarrow> bytes option" where
  "pq_bytes_at m d n = (if d + n \<le> length m then Some (take n (drop d m)) else None)"

definition from_pq_binary_str :: "bytes pq_binary_reader" where
  "from_pq_binary_str t m d n v =
     (if pq_is_textual t then map_option (\<lambda>s. (None, s)) (pq_bytes_at m d n)
      else Some (Some errc_type_mismatch, v))"

definition from_pq_binary_bytes :: "bytes pq_binary_reader" where
  "from_pq_binary_bytes t m d n v = map_option (\<lambda>s. (None, s)) (pq_bytes_at m d n)"

section \<open>Reading binary arrays\<close>

text \<open>
  The lambda \<open>read_int32\<close>: the new offset with the number, or the error. \<open>e\<close> is the offset of the end.
\<close>

definition pq_read_int32 :: "endian_codec \<Rightarrow> bytes \<Rightarrow> nat \<Rightarrow> nat \<Rightarrow> (errc + nat \<times> int) option" where
  "pq_read_int32 E m e d =
     (if d + 4 < e then map_option (\<lambda>x. Inr (d + 4, x)) (pq_load E C_int32 m d)
      else Some (Inl errc_size_mismatch))"

text \<open>
  The body that both loops share: the length of the element, the check of it, the element itself. Gives
  the offset after it with the element, or the error. An element that is refused may have been written.
\<close>

definition pq_read_elm :: "endian_codec \<Rightarrow> 'e pq_binary_reader \<Rightarrow> int \<Rightarrow> bytes \<Rightarrow> nat \<Rightarrow> nat \<Rightarrow> 'e \<Rightarrow>
    (errc option \<times> nat \<times> 'e) option" where
  "pq_read_elm E rd elm_oid m e d ev =
     Option.bind (pq_read_int32 E m e d) (\<lambda>r. case r of
       Inl err \<Rightarrow> Some (Some err, d, ev)
     | Inr (d, en) \<Rightarrow>
         if en < 0 \<or> int d + en > int e then Some (Some errc_invalid_size, d, ev)
         else map_option (\<lambda>(err, ev). (err, if err = None then d + nat en else d, ev)) (rd elm_oid m d (nat en) ev))"

text \<open>The loop of a range with \<open>push_back\<close>; a new element starts as \<open>ev0\<close>.\<close>

fun pq_read_push :: "endian_codec \<Rightarrow> 'e pq_binary_reader \<Rightarrow> 'e \<Rightarrow> int \<Rightarrow> bytes \<Rightarrow> nat \<Rightarrow> nat \<Rightarrow> nat \<Rightarrow> 'e list \<Rightarrow>
    (errc option \<times> nat \<times> 'e list) option" where
  "pq_read_push E rd ev0 elm_oid m e 0 d v = Some (None, d, v)"
| "pq_read_push E rd ev0 elm_oid m e (Suc k) d v =
     Option.bind (pq_read_elm E rd elm_oid m e d ev0) (\<lambda>(err, d, ev).
       if err \<noteq> None then Some (err, d, v) else pq_read_push E rd ev0 elm_oid m e k d (v @ [ev]))"

text \<open>The loop over the elements of a range of fixed size; the elements before, and those still to come.\<close>

fun pq_read_fixed :: "endian_codec \<Rightarrow> 'e pq_binary_reader \<Rightarrow> int \<Rightarrow> bytes \<Rightarrow> nat \<Rightarrow> nat \<Rightarrow> 'e list \<Rightarrow> 'e list \<Rightarrow>
    (errc option \<times> nat \<times> 'e list) option" where
  "pq_read_fixed E rd elm_oid m e d bef [] = Some (None, d, bef)"
| "pq_read_fixed E rd elm_oid m e d bef (ev # rest) =
     Option.bind (pq_read_elm E rd elm_oid m e d ev) (\<lambda>(err, d, ev).
       if err \<noteq> None then Some (err, d, bef @ ev # rest)
       else pq_read_fixed E rd elm_oid m e d (bef @ [ev]) rest)"

text \<open>
  \<open>from_pq_binary\<close> into a range: \<open>push\<close> tells whether it has \<open>push_back\<close>. The three words of the header
  that are used are read.
\<close>

definition from_pq_binary_range :: "endian_codec \<Rightarrow> 'e pq_binary_reader \<Rightarrow> bool \<Rightarrow> 'e \<Rightarrow> 'e list pq_binary_reader" where
  "from_pq_binary_range E rd push ev0 t m d n v =
     (if \<not> pq_is_array t then Some (Some errc_type_mismatch, v)
      else if n < 5 * 4 then Some (Some errc_size_mismatch, v)
      else
        (let e = d + n in
         Option.bind (pq_load E C_int32 m d) (\<lambda>dim_cnt.
         Option.bind (pq_load E C_int32 m (d + 8)) (\<lambda>elm_oid.
         Option.bind (pq_load E C_int32 m (d + 12)) (\<lambda>elm_cnt.
         let d = d + 20 in
         if dim_cnt \<noteq> 1 \<or> elm_oid < 0 \<or> elm_cnt < 0 then Some (Some errc_invalid_input, v)
         else if \<not> push \<and> elm_cnt \<noteq> int (length v) then Some (Some errc_size_mismatch, v)
         else
           map_option (\<lambda>(err, d, v). (if err \<noteq> None then err else if d \<noteq> e then Some errc_size_mismatch else None, v))
             (if push then pq_read_push E rd ev0 elm_oid m e (nat elm_cnt) d []
              else pq_read_fixed E rd elm_oid m e d [] v))))))"

end
