(* ===== verification/Pq_Props.thy ===== *)
theory Pq_Props
  imports Pq_Types
begin

text \<open>
  Properties of the PostgreSQL data formats: the buffer of an array parameter is filled exactly, what is
  written is read back, readers stay inside the field, and the arrays handed to libpq agree with the
  types of the parameters. The locale \<open>pq_element\<close> is what the array reader asks of the reader of an
  element; it is interpreted on the readers of numbers, strings and byte strings.
\<close>

section \<open>Writing arrays\<close>

text \<open>A buffer of which \<open>w\<close> has been written and \<open>k\<close> bytes are left.\<close>

definition filled :: "bytes \<Rightarrow> nat \<Rightarrow> pq_buf" where
  "filled w k = (length w, w @ replicate k 0)"

lemma pq_put_filled: "length bs \<le> k \<Longrightarrow> pq_put bs (filled w k) = Some (filled (w @ bs) (k - length bs))"
  by (simp add: filled_def)

declare pq_put.simps [simp del]

lemma write_int32_filled:
  assumes "endian_ok E" and "4 \<le> k"
  shows "write_int32 E t (filled w k) = Some (filled (w @ store_xe E C_int32 (c_cast C_int32 t)) (k - 4))"
  using assms by (simp add: write_int32_def pq_put_filled store_xe_length)

text \<open>One element as it is sent, and a whole array.\<close>

definition elm_bytes :: "endian_codec \<Rightarrow> ('e \<Rightarrow> bytes) \<Rightarrow> 'e \<Rightarrow> bytes" where
  "elm_bytes E wr e = store_xe E C_int32 (c_cast C_int32 (int (length (wr e)))) @ wr e"

definition hdr_bytes :: "endian_codec \<Rightarrow> int \<Rightarrow> nat \<Rightarrow> bytes" where
  "hdr_bytes E elm_oid n =
     store_xe E C_int32 1 @ store_xe E C_int32 0 @ store_xe E C_int32 (c_cast C_int32 elm_oid) @
     store_xe E C_int32 (c_cast C_int32 (int n)) @ store_xe E C_int32 1"

definition arr_bytes :: "endian_codec \<Rightarrow> int \<Rightarrow> ('e \<Rightarrow> bytes) \<Rightarrow> 'e list \<Rightarrow> bytes" where
  "arr_bytes E elm_oid wr v = hdr_bytes E elm_oid (length v) @ concat (map (elm_bytes E wr) v)"

lemma elm_bytes_length: "endian_ok E \<Longrightarrow> length (elm_bytes E wr e) = 4 + length (wr e)"
  by (simp add: elm_bytes_def store_xe_length)

lemma elm_bytes_not_empty: "endian_ok E \<Longrightarrow> elm_bytes E wr e \<noteq> []"
  using store_xe_length [of E C_int32] by (auto simp: elm_bytes_def simp flip: length_0_conv)

lemma hdr_bytes_length: "endian_ok E \<Longrightarrow> length (hdr_bytes E t n) = 20"
  by (simp add: hdr_bytes_def store_xe_length)

lemma elms_length: "endian_ok E \<Longrightarrow>
    length (concat (map (elm_bytes E wr) v)) = length v * 4 + sum_list (map (\<lambda>e. length (wr e)) v)"
  by (induction v) (auto simp: elm_bytes_length)

lemma arr1d_write_elms_filled:
  assumes "endian_ok E" and "\<And>e. (if sz \<noteq> 0 then sz else gs e) = length (wr e)"
    and "length (concat (map (elm_bytes E wr) v)) \<le> k"
  shows "arr1d_write_elms E sz gs wr v (filled w k) =
    Some (filled (w @ concat (map (elm_bytes E wr) v)) (k - length (concat (map (elm_bytes E wr) v))))"
  using assms(3)
proof (induction v arbitrary: w k)
  case (Cons e v)
  have k: "4 \<le> k" "length (wr e) \<le> k - 4"
    using Cons.prems by (auto simp: elm_bytes_length [OF assms(1)])
  have "arr1d_write_elms E sz gs wr (e # v) (filled w k) =
      arr1d_write_elms E sz gs wr v (filled (w @ elm_bytes E wr e) (k - (4 + length (wr e))))"
    using assms(2) k
    by (simp add: write_int32_filled [OF assms(1)] pq_put_filled elm_bytes_def del: of_nat_add)
  then show ?case
    using Cons.prems by (simp add: Cons.IH elm_bytes_length [OF assms(1)])
qed simp

lemma arr1d_write_eq:
  assumes "endian_ok E" and "\<And>e. (if sz \<noteq> 0 then sz else gs e) = length (wr e)"
  shows "arr1d_write E arr_oid elm_oid sz gs wr v =
    Some (pq_binary_result arr_oid (arr_bytes E (pq_oid_value elm_oid) wr v))"
proof -
  let ?b = "concat (map (elm_bytes E wr) v)"
  have n: "arr1d_buf_size sz gs v = 20 + length ?b"
  proof (cases "sz = 0")
    case True
    then have "gs = (\<lambda>e. length (wr e))"
      using assms(2) by auto
    then show ?thesis
      using True by (simp add: arr1d_buf_size_def arr1d_hdr_size_def elms_length [OF assms(1)] comp_def)
  next
    case False
    then have "(\<lambda>e. length (wr e)) = (\<lambda>e. sz)"
      using assms(2) by auto
    then show ?thesis
      using False by (simp add: arr1d_buf_size_def arr1d_hdr_size_def elms_length [OF assms(1)] sum_list_triv algebra_simps)
  qed
  have i: "(0, replicate (arr1d_buf_size sz gs v) 0) = filled [] (20 + length ?b)"
    by (simp add: filled_def n)
  have e: "arr1d_write_elms E sz gs wr v (filled w (length ?b)) = Some (filled (w @ ?b) 0)" for w
    by (subst arr1d_write_elms_filled [OF assms(1,2)]) simp_all
  show ?thesis
    by (simp add: arr1d_write_def i write_int32_filled [OF assms(1)] e)
      (simp add: filled_def arr_bytes_def hdr_bytes_def c_in_cases)
qed

section \<open>Reading arrays\<close>

lemma pq_load_bytes:
  assumes "endian_ok E" and "c_in T x" and "T \<noteq> C_bool" and "drop d m = store_xe E T x @ rest"
  shows "pq_load E T m d = Some x"
proof -
  have "length (drop d m) = c_sizeof T + length rest"
    using assms by (simp add: store_xe_length)
  then have "d + c_sizeof T \<le> length m"
    using c_sizeof_cases [of T] by auto
  moreover have "load_xe E T (store_xe E T x @ rest) = x"
    using assms by (intro load_store_xe) auto
  ultimately show ?thesis
    using assms by (simp add: pq_load_def)
qed

lemma drop_step: "drop d m = x @ y \<Longrightarrow> drop (d + length x) m = y"
  by (metis append_eq_conv_conj drop_drop add.commute)

text \<open>
  The contract of an element: its reader stays inside the field, and reads back, under the object
  identifier \<open>oid\<close>, what the writer \<open>wr\<close> sends for a value that satisfies \<open>ok\<close>.
\<close>

locale pq_element =
  fixes rd :: "'e pq_binary_reader"
    and wr :: "'e \<Rightarrow> bytes"
    and oid :: int
    and ok :: "'e \<Rightarrow> bool"
  assumes in_bounds: "d + n \<le> length m \<Longrightarrow> rd t m d n ev \<noteq> None"
    and reads_back: "ok x \<Longrightarrow> d \<le> length m \<Longrightarrow> drop d m = wr x @ rest \<Longrightarrow> rd oid m d (length (wr x)) ev = Some (None, x)"
    and oid_in: "c_in C_int32 oid \<and> 0 \<le> oid"
begin

lemma read_elm_in_bounds:
  assumes "d \<le> e" and "e \<le> length m"
  shows "\<exists>err d' ev'. pq_read_elm E rd t m e d ev = Some (err, d', ev') \<and> (err = None \<longrightarrow> d + 4 \<le> d' \<and> d' \<le> e)"
proof (cases "d + 4 < e")
  case True
  then obtain en where l: "pq_read_int32 E m e d = Some (Inr (d + 4, en))"
    using assms by (auto simp: pq_read_int32_def pq_load_def)
  show ?thesis
  proof (cases "en < 0 \<or> int (d + 4) + en > int e")
    case True
    then show ?thesis by (simp add: pq_read_elm_def l)
  next
    case False
    then have b: "d + 4 + nat en \<le> e" by linarith
    then obtain err ev' where "rd t m (d + 4) (nat en) ev = Some (err, ev')"
      using in_bounds [of "d + 4" "nat en" m t ev] assms(2) by fastforce
    then show ?thesis
      using False b by (auto simp: pq_read_elm_def l)
  qed
qed (auto simp: pq_read_elm_def pq_read_int32_def)

lemma read_push_in_bounds:
  "d \<le> e \<Longrightarrow> e \<le> length m \<Longrightarrow>
   \<exists>err d' v'. pq_read_push E rd ev0 t m e k d v = Some (err, d', v') \<and>
     (err = None \<longrightarrow> length v' = length v + k \<and> d + 4 * k \<le> d' \<and> d' \<le> e)"
proof (induction k arbitrary: d v)
  case (Suc k)
  obtain err d' ev' where r: "pq_read_elm E rd t m e d ev0 = Some (err, d', ev')"
    and b: "err = None \<longrightarrow> d + 4 \<le> d' \<and> d' \<le> e"
    using read_elm_in_bounds [OF Suc.prems] by blast
  show ?case
  proof (cases err)
    case None
    then obtain err2 d2 v2 where "pq_read_push E rd ev0 t m e k d' (v @ [ev']) = Some (err2, d2, v2) \<and>
        (err2 = None \<longrightarrow> length v2 = length (v @ [ev']) + k \<and> d' + 4 * k \<le> d2 \<and> d2 \<le> e)"
      using Suc.IH [of d' "v @ [ev']"] Suc.prems b by blast
    then show ?thesis
      using None b by (auto simp: r)
  qed (simp add: r)
qed simp

lemma read_fixed_in_bounds:
  "d \<le> e \<Longrightarrow> e \<le> length m \<Longrightarrow>
   \<exists>err d' v'. pq_read_fixed E rd t m e d bef v = Some (err, d', v') \<and> length v' = length bef + length v \<and>
     (err = None \<longrightarrow> d + 4 * length v \<le> d' \<and> d' \<le> e)"
proof (induction v arbitrary: d bef)
  case (Cons ev v)
  obtain err d' ev' where r: "pq_read_elm E rd t m e d ev = Some (err, d', ev')"
    and b: "err = None \<longrightarrow> d + 4 \<le> d' \<and> d' \<le> e"
    using read_elm_in_bounds [OF Cons.prems] by blast
  show ?case
  proof (cases err)
    case None
    then obtain err2 d2 v2 where "pq_read_fixed E rd t m e d' (bef @ [ev']) v = Some (err2, d2, v2) \<and>
        length v2 = length (bef @ [ev']) + length v \<and> (err2 = None \<longrightarrow> d' + 4 * length v \<le> d2 \<and> d2 \<le> e)"
      using Cons.IH [of d' "bef @ [ev']"] Cons.prems b by blast
    then show ?thesis
      using None b by (auto simp: r)
  qed (simp add: r)
qed simp

text \<open>Whatever bytes the server sends, the reader of a range stays inside them; on success each element has its length word.\<close>

lemma range_in_bounds:
  assumes "d + n \<le> length m"
  shows "\<exists>err w. from_pq_binary_range E rd push ev0 t m d n v = Some (err, w) \<and>
    (err = None \<longrightarrow> 20 + 4 * length w \<le> n) \<and> (push \<or> length w = length v)"
proof (cases "pq_is_array t \<and> 20 \<le> n")
  case True
  obtain dc eo ec where l: "pq_load E C_int32 m d = Some dc" "pq_load E C_int32 m (d + 8) = Some eo"
    "pq_load E C_int32 m (d + 12) = Some ec"
    using True assms by (auto simp: pq_load_def)
  have b: "d + 20 \<le> d + n" using True by simp
  obtain err d' v' where p: "pq_read_push E rd ev0 eo m (d + n) (nat ec) (d + 20) [] = Some (err, d', v')"
    "err = None \<longrightarrow> length v' = nat ec \<and> d + 20 + 4 * nat ec \<le> d' \<and> d' \<le> d + n"
    using read_push_in_bounds [OF b assms, of E ev0 eo "nat ec" "[]"] by auto
  obtain err2 d2 v2 where f: "pq_read_fixed E rd eo m (d + n) (d + 20) [] v = Some (err2, d2, v2)"
    "length v2 = length v" "err2 = None \<longrightarrow> d + 20 + 4 * length v \<le> d2 \<and> d2 \<le> d + n"
    using read_fixed_in_bounds [OF b assms, of E eo "[]" v] by auto
  show ?thesis
    using True p(2) f(2,3)
    by (cases push; cases err; cases err2) (simp_all add: from_pq_binary_range_def l Let_def p(1) f(1))
qed (auto simp: from_pq_binary_range_def)

text \<open>
  Reading back what the writer wrote. An element of no bytes at the very end is refused, since
  \<open>read_int32\<close> wants a byte after the length word.
\<close>

abbreviation sized :: "'e \<Rightarrow> bool" where
  "sized x \<equiv> ok x \<and> length (wr x) < 2 ^ 31"

abbreviation lost :: "'e list \<Rightarrow> bool" where
  "lost vs \<equiv> vs \<noteq> [] \<and> wr (last vs) = []"

lemma read_elm_back:
  assumes E: "endian_ok E" and x: "sized x" and d: "d \<le> length m" "drop d m = elm_bytes E wr x @ rest"
  shows "pq_read_elm E rd oid m (length m) d ev =
    Some (if wr x = [] \<and> rest = [] then (Some errc_size_mismatch, d, ev) else (None, d + 4 + length (wr x), x))"
proof -
  have n: "length m = d + 4 + length (wr x) + length rest"
    using arg_cong [OF d(2), of length] d(1) by (simp add: elm_bytes_length [OF E])
  have c: "c_in C_int32 (int (length (wr x)))"
    using x by (simp add: c_in_cases)
  have h: "drop d m = store_xe E C_int32 (int (length (wr x))) @ (wr x @ rest)"
    using d(2) c by (simp add: elm_bytes_def)
  have l: "pq_load E C_int32 m d = Some (int (length (wr x)))"
    using pq_load_bytes [OF E c _ h] by simp
  have r: "rd oid m (d + 4) (length (wr x)) ev = Some (None, x)"
    using drop_step [OF h] x n by (intro reads_back) (auto simp: store_xe_length [OF E])
  show ?thesis
    using n by (auto simp: pq_read_elm_def pq_read_int32_def l r)
qed

lemma read_push_back:
  assumes E: "endian_ok E"
  shows "list_all sized vs \<Longrightarrow> d \<le> length m \<Longrightarrow> drop d m = concat (map (elm_bytes E wr) vs) \<Longrightarrow>
    pq_read_push E rd ev0 oid m (length m) (length vs) d acc =
    Some (if lost vs then (Some errc_size_mismatch, length m - 4, acc @ butlast vs) else (None, length m, acc @ vs))"
proof (induction vs arbitrary: d acc)
  case (Cons x vs)
  have h: "drop d m = elm_bytes E wr x @ concat (map (elm_bytes E wr) vs)"
    using Cons.prems by simp
  have n: "length m = d + 4 + length (wr x) + length (concat (map (elm_bytes E wr) vs))"
    using arg_cong [OF h, of length] Cons.prems(2) by (simp add: elm_bytes_length [OF E])
  have e: "(\<forall>xs\<in>set vs. elm_bytes E wr xs = []) \<longleftrightarrow> vs = []"
    by (cases vs) (auto simp: elm_bytes_not_empty [OF E])
  have s: "drop (d + 4 + length (wr x)) m = concat (map (elm_bytes E wr) vs)"
    using drop_step [OF h] by (simp add: elm_bytes_length [OF E] add.assoc)
  have r: "pq_read_elm E rd oid m (length m) d ev0 =
      Some (if wr x = [] \<and> vs = [] then (Some errc_size_mismatch, d, ev0) else (None, d + 4 + length (wr x), x))"
    using read_elm_back [OF E _ Cons.prems(2) h, of ev0] Cons.prems(1) by (simp add: e)
  show ?case
  proof (cases "wr x = [] \<and> vs = []")
    case True
    moreover from this have "length m - 4 = d" using n by simp
    ultimately show ?thesis by (simp add: r)
  next
    case False
    have "pq_read_push E rd ev0 oid m (length m) (length vs) (d + 4 + length (wr x)) (acc @ [x]) =
        Some (if lost vs then (Some errc_size_mismatch, length m - 4, (acc @ [x]) @ butlast vs)
              else (None, length m, (acc @ [x]) @ vs))"
      using Cons.prems(1) n s by (intro Cons.IH) auto
    then show ?thesis
      using False by (auto simp: r)
  qed
qed simp

lemma read_fixed_back:
  assumes E: "endian_ok E"
  shows "list_all sized vs \<Longrightarrow> d \<le> length m \<Longrightarrow> drop d m = concat (map (elm_bytes E wr) vs) \<Longrightarrow> length ws = length vs \<Longrightarrow>
    pq_read_fixed E rd oid m (length m) d bef ws =
    Some (if lost vs then (Some errc_size_mismatch, length m - 4, bef @ butlast vs @ [last ws])
          else (None, length m, bef @ vs))"
proof (induction vs arbitrary: d bef ws)
  case (Cons x vs)
  obtain w ws' where ws: "ws = w # ws'" "length ws' = length vs"
    using Cons.prems(4) by (cases ws) auto
  have h: "drop d m = elm_bytes E wr x @ concat (map (elm_bytes E wr) vs)"
    using Cons.prems by simp
  have n: "length m = d + 4 + length (wr x) + length (concat (map (elm_bytes E wr) vs))"
    using arg_cong [OF h, of length] Cons.prems(2) by (simp add: elm_bytes_length [OF E])
  have e: "(\<forall>xs\<in>set vs. elm_bytes E wr xs = []) \<longleftrightarrow> vs = []"
    by (cases vs) (auto simp: elm_bytes_not_empty [OF E])
  have s: "drop (d + 4 + length (wr x)) m = concat (map (elm_bytes E wr) vs)"
    using drop_step [OF h] by (simp add: elm_bytes_length [OF E] add.assoc)
  have r: "pq_read_elm E rd oid m (length m) d w =
      Some (if wr x = [] \<and> vs = [] then (Some errc_size_mismatch, d, w) else (None, d + 4 + length (wr x), x))"
    using read_elm_back [OF E _ Cons.prems(2) h, of w] Cons.prems(1) by (simp add: e)
  show ?case
  proof (cases "wr x = [] \<and> vs = []")
    case True
    moreover from this have "length m - 4 = d" using n by simp
    ultimately show ?thesis using ws by (simp add: r)
  next
    case False
    have "pq_read_fixed E rd oid m (length m) (d + 4 + length (wr x)) (bef @ [x]) ws' =
        Some (if lost vs then (Some errc_size_mismatch, length m - 4, (bef @ [x]) @ butlast vs @ [last ws'])
              else (None, length m, (bef @ [x]) @ vs))"
      using Cons.prems(1) n s ws by (intro Cons.IH) auto
    moreover have "vs \<noteq> [] \<Longrightarrow> ws' \<noteq> []"
      using ws by auto
    ultimately show ?thesis
      using False by (auto simp: r ws)
  qed
qed simp

lemma range_back:
  assumes E: "endian_ok E" and vs: "list_all sized vs" "length vs < 2 ^ 31" and t: "pq_is_array t"
    and m: "m = arr_bytes E oid wr vs"
  shows "from_pq_binary_range E rd True ev0 t m 0 (length m) v =
      Some (if lost vs then (Some errc_size_mismatch, butlast vs) else (None, vs))"
    and "length v = length vs \<Longrightarrow> from_pq_binary_range E rd False ev0 t m 0 (length m) v =
      Some (if lost vs then (Some errc_size_mismatch, butlast vs @ [last v]) else (None, vs))"
proof -
  let ?b = "concat (map (elm_bytes E wr) vs)"
  let ?s = "store_xe E C_int32"
  have c: "c_in C_int32 (int (length vs))" "c_in C_int32 oid" "c_in C_int32 0" "c_in C_int32 1"
    using vs(2) oid_in by (auto simp: c_in_cases)
  have h: "drop 0 m = ?s 1 @ (?s 0 @ ?s oid @ ?s (int (length vs)) @ ?s 1 @ ?b)"
    using c(1,2) by (simp add: m arr_bytes_def hdr_bytes_def)
  have h4: "drop 4 m = ?s 0 @ (?s oid @ ?s (int (length vs)) @ ?s 1 @ ?b)"
    using drop_step [OF h] by (simp add: store_xe_length [OF E])
  have h8: "drop 8 m = ?s oid @ (?s (int (length vs)) @ ?s 1 @ ?b)"
    using drop_step [OF h4] by (simp add: store_xe_length [OF E])
  have h12: "drop 12 m = ?s (int (length vs)) @ (?s 1 @ ?b)"
    using drop_step [OF h8] by (simp add: store_xe_length [OF E])
  have h16: "drop 16 m = ?s 1 @ ?b"
    using drop_step [OF h12] by (simp add: store_xe_length [OF E])
  have h20: "drop 20 m = ?b"
    using drop_step [OF h16] by (simp add: store_xe_length [OF E])
  have n: "20 \<le> length m"
    by (simp add: m arr_bytes_def hdr_bytes_length [OF E])
  have l: "pq_load E C_int32 m 0 = Some 1" "pq_load E C_int32 m 8 = Some oid"
    "pq_load E C_int32 m 12 = Some (int (length vs))"
    using pq_load_bytes [OF E c(4) _ h] pq_load_bytes [OF E c(2) _ h8] pq_load_bytes [OF E c(1) _ h12] by simp_all
  have e: "lost vs \<Longrightarrow> length m - 4 \<noteq> length m"
    using n by simp
  show "from_pq_binary_range E rd True ev0 t m 0 (length m) v =
      Some (if lost vs then (Some errc_size_mismatch, butlast vs) else (None, vs))"
    using t n oid_in read_push_back [OF E vs(1) n h20, of ev0 "[]"]
    by (auto simp: from_pq_binary_range_def l Let_def)
  show "from_pq_binary_range E rd False ev0 t m 0 (length m) v =
      Some (if lost vs then (Some errc_size_mismatch, butlast vs @ [last v]) else (None, vs))"
    if "length v = length vs"
    using t n oid_in read_fixed_back [OF E vs(1) n h20 that, of "[]"] that
    by (auto simp: from_pq_binary_range_def l Let_def)
qed

end

section \<open>Elements\<close>

definition pq_value :: "pq_arith \<Rightarrow> int \<Rightarrow> bool" where
  "pq_value A v \<longleftrightarrow> c_in (pq_ctype A) v \<and> (A = Pq_num C_bool \<longrightarrow> v \<in> {0, 1})"

definition pq_wire :: "pq_arith \<Rightarrow> c_type" where
  "pq_wire A = (case arithmetic_pq_param_info A of None \<Rightarrow> C_int64 | Some (W, elm_oid, arr_oid) \<Rightarrow> W)"

definition pq_elm_oid :: "pq_arith \<Rightarrow> pq_oid_e" where
  "pq_elm_oid A = (case arithmetic_pq_param_info A of None \<Rightarrow> pq_oid_int8 | Some (W, elm_oid, arr_oid) \<Rightarrow> elm_oid)"

definition pq_num_bytes :: "endian_codec \<Rightarrow> pq_arith \<Rightarrow> int \<Rightarrow> bytes" where
  "pq_num_bytes E A v = store_xe E (pq_wire A) (c_cast (pq_wire A) v)"

lemma pq_wire_simps [simp]:
  "arithmetic_pq_param_info A = Some (W, eo, ao) \<Longrightarrow> pq_wire A = W \<and> pq_elm_oid A = eo"
  by (simp add: pq_wire_def pq_elm_oid_def)

lemma pq_oid_in: "c_in C_int32 (pq_oid_value t) \<and> 0 \<le> pq_oid_value t"
  by (cases t) (simp_all add: c_in_cases)

text \<open>Every value fits the type it is sent as, and the conversion back is exact.\<close>

lemma num_cast_same: "num_cast F T T v = Inr v"
  by (simp add: num_cast_def)

lemma num_cast_bool: "num_cast F C_bool C_int8 v = Inr (if v = 0 then 0 else 1)"
  by (simp add: num_cast_def lossless_convertible_def static_cast_def c_fp_def)

lemma pq_wire_exact:
  assumes "arithmetic_pq_param_info A = Some (W, eo, ao)" and "pq_value A v"
  shows "c_in W v \<and> W \<noteq> C_bool \<and> cvt_num F W v (pq_ctype A) old = (None, v)"
proof (cases A)
  case (Pq_num T)
  then show ?thesis
    using assms by (cases T) (auto simp: pq_value_def c_in_cases cvt_num_def num_cast_exact num_cast_same num_cast_bool c_fp_def)
qed (use assms in \<open>auto simp: pq_value_def cvt_num_def num_cast_same\<close>)

lemma pq_elm_oid_reader:
  "arithmetic_pq_param_info A = Some (W, eo, ao) \<Longrightarrow>
   from_pq_binary_num E F T (pq_oid_value eo) m d n v = pq_do_read E F W T m d n v"
proof (cases A)
  case (Pq_num S)
  then show "arithmetic_pq_param_info A = Some (W, eo, ao) \<Longrightarrow> ?thesis"
    by (cases S) (auto simp: from_pq_binary_num_def)
qed (auto simp: from_pq_binary_num_def)

lemma pq_num_reads_back:
  assumes E: "endian_ok E" and i: "arithmetic_pq_param_info A = Some (W, eo, ao)" and v: "pq_value A v"
    and d: "drop d m = pq_num_bytes E A v @ rest"
  shows "from_pq_binary_num E F (pq_ctype A) (pq_oid_value eo) m d (length (pq_num_bytes E A v)) old = Some (None, v)"
proof -
  note w = pq_wire_exact [OF i v, of F old]
  have "pq_num_bytes E A v = store_xe E W v"
    using i w by (simp add: pq_num_bytes_def)
  moreover from this have "pq_load E W m d = Some v"
    using pq_load_bytes [OF E, of W v d m rest] w d by simp
  ultimately show ?thesis
    using w by (simp add: pq_elm_oid_reader [OF i] pq_do_read_def store_xe_length [OF E])
qed

interpretation pq_num: pq_element "from_pq_binary_num E F (pq_ctype A)" "pq_num_bytes E A" "pq_oid_value (pq_elm_oid A)"
  "\<lambda>v. endian_ok E \<and> arithmetic_pq_param_info A \<noteq> None \<and> pq_value A v" for E F A
proof
  show "d + n \<le> length m \<Longrightarrow> from_pq_binary_num E F (pq_ctype A) t m d n ev \<noteq> None" for d n m t ev
    by (auto simp: from_pq_binary_num_def pq_do_read_def pq_load_def)
  show "endian_ok E \<and> arithmetic_pq_param_info A \<noteq> None \<and> pq_value A x \<Longrightarrow> d \<le> length m \<Longrightarrow>
    drop d m = pq_num_bytes E A x @ rest \<Longrightarrow>
    from_pq_binary_num E F (pq_ctype A) (pq_oid_value (pq_elm_oid A)) m d (length (pq_num_bytes E A x)) ev = Some (None, x)"
    for x d m rest ev
    using pq_num_reads_back [of E A _ _ _ x d m rest F ev] by auto
qed (rule pq_oid_in)

lemma pq_bytes_at_drop:
  assumes "drop d m = x @ rest" and "d \<le> length m"
  shows "pq_bytes_at m d (length x) = Some x"
proof -
  have "length m - d = length x + length rest"
    using arg_cong [OF assms(1), of length] by simp
  then show ?thesis
    using assms by (simp add: pq_bytes_at_def)
qed

interpretation pq_str: pq_element from_pq_binary_str "\<lambda>s. s" "pq_oid_value pq_oid_text" "\<lambda>s. True"
proof
  show "d + n \<le> length m \<Longrightarrow> from_pq_binary_str t m d n ev \<noteq> None" for d n m t ev
    by (auto simp: from_pq_binary_str_def pq_bytes_at_def)
  show "c_in C_int32 (pq_oid_value pq_oid_text) \<and> 0 \<le> pq_oid_value pq_oid_text"
    by (rule pq_oid_in)
qed (simp add: from_pq_binary_str_def pq_is_textual_def pq_bytes_at_drop)

interpretation pq_bin: pq_element from_pq_binary_bytes "\<lambda>s. s" "pq_oid_value pq_oid_bytea" "\<lambda>s. True"
proof
  show "d + n \<le> length m \<Longrightarrow> from_pq_binary_bytes t m d n ev \<noteq> None" for d n m t ev
    by (auto simp: from_pq_binary_bytes_def pq_bytes_at_def)
  show "c_in C_int32 (pq_oid_value pq_oid_bytea) \<and> 0 \<le> pq_oid_value pq_oid_bytea"
    by (rule pq_oid_in)
qed (simp add: from_pq_binary_bytes_def pq_bytes_at_drop)

section \<open>Properties\<close>

lemma arith_range_eq:
  assumes "endian_ok E" and "arithmetic_pq_param_info A = Some (W, eo, ao)"
  shows "pq_write_arithmetic_range E A vs =
    Some (pq_binary_result ao (arr_bytes E (pq_oid_value (pq_elm_oid A)) (pq_num_bytes E A) vs))"
proof -
  have "pq_num_bytes E A = (\<lambda>e. store_xe E W (c_cast W e))"
    using assms(2) by (simp add: pq_num_bytes_def fun_eq_iff)
  moreover have "arr1d_write E ao eo (c_sizeof W) (\<lambda>e. 0) (\<lambda>e. store_xe E W (c_cast W e)) vs =
      Some (pq_binary_result ao (arr_bytes E (pq_oid_value eo) (\<lambda>e. store_xe E W (c_cast W e)) vs))"
    using c_sizeof_cases [of W] by (intro arr1d_write_eq assms(1)) (auto simp: store_xe_length [OF assms(1)])
  ultimately show ?thesis
    using assms(2) by (simp add: pq_write_arithmetic_range_def)
qed

lemma str_range_eq:
  assumes "endian_ok E"
  shows "pq_write_str_range E vs = Some (pq_binary_result pq_oid_arr_text (arr_bytes E (pq_oid_value pq_oid_text) (\<lambda>s. s) vs))"
    and "pq_write_bytes_range E vs = Some (pq_binary_result pq_oid_arr_bytea (arr_bytes E (pq_oid_value pq_oid_bytea) (\<lambda>s. s) vs))"
  unfolding pq_write_str_range_def pq_write_bytes_range_def by (intro arr1d_write_eq assms; simp)+

lemma pq_is_array_info: "arithmetic_pq_param_info A = Some (W, eo, ao) \<Longrightarrow> pq_is_array (pq_oid_value ao)"
proof (cases A)
  case (Pq_num S)
  then show "arithmetic_pq_param_info A = Some (W, eo, ao) \<Longrightarrow> ?thesis"
    by (cases S) (auto simp: pq_is_array_def)
qed (auto simp: pq_is_array_def)

lemma pq_num_bytes_length: "endian_ok E \<Longrightarrow> length (pq_num_bytes E A v) = c_sizeof (pq_wire A)"
  by (simp add: pq_num_bytes_def store_xe_length)

lemma pq_num_bytes_not_empty: "endian_ok E \<Longrightarrow> pq_num_bytes E A v \<noteq> []"
  using c_sizeof_cases [of "pq_wire A"] by (auto simp: pq_num_bytes_length simp flip: length_0_conv)

text \<open>
  C28: An array of numbers sent as a query parameter fits its buffer exactly, has the object identifier
  of the array type, and is read back unchanged, into a container that grows as well as into one of the
  right fixed size; this holds for every element type that can be sent, whose values travel in the
  next larger integer type of the server where it has no type of that width.
\<close>

theorem pq_number_array_roundtrip:
  assumes "endian_ok E" and "arithmetic_pq_param_info A = Some (W, eo, ao)"
    and "list_all (pq_value A) vs" and "length vs < 2 ^ 31"
  shows "\<exists>d. pq_write_arithmetic_range E A vs =
        Some \<lparr>pr_oid = ao, pr_fmt = pq_fmt_binary, pr_data = Some d, pr_size = length d\<rparr> \<and>
      length d = 20 + length vs * (4 + c_sizeof W) \<and>
      from_pq_binary_range E (from_pq_binary_num E F (pq_ctype A)) True x0 (pq_oid_value ao) d 0 (length d) old = Some (None, vs) \<and>
      (length old = length vs \<longrightarrow>
        from_pq_binary_range E (from_pq_binary_num E F (pq_ctype A)) False x0 (pq_oid_value ao) d 0 (length d) old = Some (None, vs))"
proof (intro exI conjI impI)
  let ?d = "arr_bytes E (pq_oid_value (pq_elm_oid A)) (pq_num_bytes E A) vs"
  show "pq_write_arithmetic_range E A vs =
      Some \<lparr>pr_oid = ao, pr_fmt = pq_fmt_binary, pr_data = Some ?d, pr_size = length ?d\<rparr>"
    using arith_range_eq [OF assms(1,2)] by (simp add: pq_binary_result_def)
  show "length ?d = 20 + length vs * (4 + c_sizeof W)"
    using assms(2) by (simp add: arr_bytes_def hdr_bytes_length elms_length pq_num_bytes_length assms(1)
        sum_list_triv algebra_simps)
  have c: "length (pq_num_bytes E A v) < 2 ^ 31" for v
    using c_sizeof_cases [of "pq_wire A"] by (auto simp: pq_num_bytes_length [OF assms(1)])
  have s: "list_all (\<lambda>x. (endian_ok E \<and> arithmetic_pq_param_info A \<noteq> None \<and> pq_value A x) \<and>
      length (pq_num_bytes E A x) < 2 ^ 31) vs"
    using assms(3) by (rule list.pred_mono_strong) (use assms(1,2) c in auto)
  note b = pq_num.range_back [OF assms(1) s assms(4) pq_is_array_info [OF assms(2)] refl]
  show "from_pq_binary_range E (from_pq_binary_num E F (pq_ctype A)) True x0 (pq_oid_value ao) ?d 0 (length ?d) old = Some (None, vs)"
    using b(1) by (simp add: pq_num_bytes_not_empty [OF assms(1)])
  show "from_pq_binary_range E (from_pq_binary_num E F (pq_ctype A)) False x0 (pq_oid_value ao) ?d 0 (length ?d) old = Some (None, vs)"
    if "length old = length vs"
    using b(2) [OF that] by (simp add: pq_num_bytes_not_empty [OF assms(1)])
qed

theorem pq_number_array_roundtrip_witness:
  "\<exists>d. pq_write_arithmetic_range big_endian (Pq_num C_uint16) [7, 65535] =
        Some \<lparr>pr_oid = pq_oid_arr_int4, pr_fmt = pq_fmt_binary, pr_data = Some d, pr_size = length d\<rparr> \<and>
      length d = 36 \<and>
      from_pq_binary_range big_endian (from_pq_binary_num big_endian (\<lambda>_ _. Inr) C_uint16) True 0 1007 d 0 (length d) [] =
        Some (None, [7, 65535])"
  using pq_number_array_roundtrip [OF big_endian_ok, of "Pq_num C_uint16" C_int32 pq_oid_int4 pq_oid_arr_int4
      "[7, 65535]" "\<lambda>_ _. Inr" 0 "[]"]
  by (auto simp: pq_value_def c_in_cases)

text \<open>
  An array of strings, or of byte strings, is read back unchanged unless its last element is empty:
  then the reader, which wants a byte after the last length word, reports \<open>size_mismatch\<close> with the other
  elements read. In every case the written parameter fills its buffer exactly.
\<close>

theorem pq_string_array_roundtrip:
  assumes "endian_ok E" and "list_all (\<lambda>s. length s < 2 ^ 31) vs" and "length vs < 2 ^ 31"
  shows "\<exists>d b. pq_write_str_range E vs =
        Some \<lparr>pr_oid = pq_oid_arr_text, pr_fmt = pq_fmt_binary, pr_data = Some d, pr_size = length d\<rparr> \<and>
      pq_write_bytes_range E vs =
        Some \<lparr>pr_oid = pq_oid_arr_bytea, pr_fmt = pq_fmt_binary, pr_data = Some b, pr_size = length b\<rparr> \<and>
      length d = 20 + 4 * length vs + length (concat vs) \<and> length b = length d \<and>
      from_pq_binary_range E from_pq_binary_str True [] (pq_oid_value pq_oid_arr_text) d 0 (length d) old =
        Some (if vs \<noteq> [] \<and> last vs = [] then (Some errc_size_mismatch, butlast vs) else (None, vs)) \<and>
      from_pq_binary_range E from_pq_binary_bytes True [] (pq_oid_value pq_oid_arr_bytea) b 0 (length b) old =
        Some (if vs \<noteq> [] \<and> last vs = [] then (Some errc_size_mismatch, butlast vs) else (None, vs))"
proof (intro exI conjI)
  let ?d = "arr_bytes E (pq_oid_value pq_oid_text) (\<lambda>s. s) vs"
  let ?b = "arr_bytes E (pq_oid_value pq_oid_bytea) (\<lambda>s. s) vs"
  show "pq_write_str_range E vs =
      Some \<lparr>pr_oid = pq_oid_arr_text, pr_fmt = pq_fmt_binary, pr_data = Some ?d, pr_size = length ?d\<rparr>"
    "pq_write_bytes_range E vs =
      Some \<lparr>pr_oid = pq_oid_arr_bytea, pr_fmt = pq_fmt_binary, pr_data = Some ?b, pr_size = length ?b\<rparr>"
    using str_range_eq [OF assms(1)] by (simp_all add: pq_binary_result_def)
  show "length ?d = 20 + 4 * length vs + length (concat vs)" "length ?b = length ?d"
    by (simp_all add: arr_bytes_def hdr_bytes_length elms_length assms(1)) (simp add: length_concat)
  have s: "list_all (\<lambda>s. True \<and> length s < 2 ^ 31) vs"
    using assms(2) by simp
  show "from_pq_binary_range E from_pq_binary_str True [] (pq_oid_value pq_oid_arr_text) ?d 0 (length ?d) old =
      Some (if vs \<noteq> [] \<and> last vs = [] then (Some errc_size_mismatch, butlast vs) else (None, vs))"
    by (rule pq_str.range_back(1) [OF assms(1) s assms(3) _ refl]) (simp add: pq_is_array_def)
  show "from_pq_binary_range E from_pq_binary_bytes True [] (pq_oid_value pq_oid_arr_bytea) ?b 0 (length ?b) old =
      Some (if vs \<noteq> [] \<and> last vs = [] then (Some errc_size_mismatch, butlast vs) else (None, vs))"
    by (rule pq_bin.range_back(1) [OF assms(1) s assms(3) _ refl]) (simp add: pq_is_array_def)
qed

theorem pq_string_array_roundtrip_witness:
  "\<exists>d b. pq_write_str_range big_endian [[0x61], []] =
        Some \<lparr>pr_oid = pq_oid_arr_text, pr_fmt = pq_fmt_binary, pr_data = Some d, pr_size = length d\<rparr> \<and>
      pq_write_bytes_range big_endian [[0x61], []] =
        Some \<lparr>pr_oid = pq_oid_arr_bytea, pr_fmt = pq_fmt_binary, pr_data = Some b, pr_size = length b\<rparr> \<and>
      length d = 29 \<and> length b = length d \<and>
      from_pq_binary_range big_endian from_pq_binary_str True [] 1009 d 0 (length d) [] =
        Some (Some errc_size_mismatch, [[0x61]]) \<and>
      from_pq_binary_range big_endian from_pq_binary_bytes True [] 1001 b 0 (length b) [] =
        Some (Some errc_size_mismatch, [[0x61]])"
  using pq_string_array_roundtrip [OF big_endian_ok, of "[[0x61], []]" "[]"] by simp

text \<open>
  C29: Whatever bytes the server sends and whatever sizes they announce, the readers of numbers, strings
  and arrays stay inside the field of \<open>n\<close> bytes; an array that is accepted has a length word in the field
  for each of its elements, and a container of fixed size keeps its size.
\<close>

theorem pq_readers_in_bounds:
  assumes "d + n \<le> length m"
  shows "from_pq_binary_num E F (pq_ctype A) t m d n x \<noteq> None \<and> from_pq_binary_str t m d n s \<noteq> None \<and>
    (\<exists>err w. from_pq_binary_range E (from_pq_binary_num E F (pq_ctype A)) push x t m d n xs = Some (err, w) \<and>
      (err = None \<longrightarrow> 20 + 4 * length w \<le> n) \<and> (push \<or> length w = length xs)) \<and>
    (\<exists>err w. from_pq_binary_range E from_pq_binary_str push s t m d n ss = Some (err, w) \<and>
      (err = None \<longrightarrow> 20 + 4 * length w \<le> n) \<and> (push \<or> length w = length ss)) \<and>
    (\<exists>err w. from_pq_binary_range E from_pq_binary_bytes push s t m d n ss = Some (err, w) \<and>
      (err = None \<longrightarrow> 20 + 4 * length w \<le> n) \<and> (push \<or> length w = length ss))"
  by (intro conjI pq_num.in_bounds pq_str.in_bounds pq_num.range_in_bounds pq_str.range_in_bounds
      pq_bin.range_in_bounds assms)

theorem pq_readers_in_bounds_witness:
  "\<exists>err w. from_pq_binary_range big_endian from_pq_binary_str True [] 1009
      ([0, 0, 0, 1, 0, 0, 0, 0, 0, 0, 0, 25, 0x7f, 0xff, 0xff, 0xff, 0, 0, 0, 1, 0, 0]) 0 22 [] = Some (err, w) \<and>
    (err = None \<longrightarrow> 20 + 4 * length w \<le> 22)"
  using pq_readers_in_bounds [of 0 22 "[0, 0, 0, 1, 0, 0, 0, 0, 0, 0, 0, 25, 0x7f, 0xff, 0xff, 0xff, 0, 0, 0, 1, 0, 0]"
      big_endian "\<lambda>_ _. Inr" "Pq_num C_int32" 1009 0 "[]" True "[]" "[]"]
  by auto

section \<open>The arrays handed to libpq\<close>

fun pq_type_of :: "pq_param \<Rightarrow> pq_type" where
  "pq_type_of (Pm_arith A v) = Ty_arith A"
| "pq_type_of (Pm_arith_range A v) = Ty_arith_range A"
| "pq_type_of (Pm_str v) = Ty_str"
| "pq_type_of (Pm_str_range v) = Ty_str_range"
| "pq_type_of (Pm_bytes v) = Ty_bytes"
| "pq_type_of (Pm_bytes_range v) = Ty_bytes_range"
| "pq_type_of Pm_nullptr = Ty_nullptr"
| "pq_type_of (Pm_tparam v) = Ty_tparam"
| "pq_type_of (Pm_optional T p) = Ty_optional T"

fun pq_well_typed :: "pq_param \<Rightarrow> bool" where
  "pq_well_typed (Pm_optional T (Some p)) \<longleftrightarrow> pq_type_of p = T \<and> pq_well_typed p"
| "pq_well_typed p \<longleftrightarrow> True"

fun pq_is_null :: "pq_param \<Rightarrow> bool" where
  "pq_is_null (Pm_optional T None) \<longleftrightarrow> True"
| "pq_is_null (Pm_optional T (Some p)) \<longleftrightarrow> pq_is_null p"
| "pq_is_null (Pm_arith_range A v) \<longleftrightarrow> False"
| "pq_is_null (Pm_arith A v) \<longleftrightarrow> False"
| "pq_is_null (Pm_str s) \<longleftrightarrow> False"
| "pq_is_null (Pm_str_range ss) \<longleftrightarrow> False"
| "pq_is_null (Pm_bytes s) \<longleftrightarrow> False"
| "pq_is_null (Pm_bytes_range ss) \<longleftrightarrow> False"
| "pq_is_null Pm_nullptr \<longleftrightarrow> True"
| "pq_is_null (Pm_tparam s) \<longleftrightarrow> False"

lemma pq_write_param_typed:
  assumes "endian_ok E"
  shows "pq_well_typed p \<Longrightarrow> pq_param_oid (pq_type_of p) = Some t \<Longrightarrow>
    \<exists>r. pq_write_param E p = Some r \<and> pr_oid r = t \<and> (pr_data r = None \<longleftrightarrow> pq_is_null p) \<and>
      (pr_fmt r = pq_fmt_binary \<longrightarrow> pr_size r = (case pr_data r of None \<Rightarrow> 0 | Some d \<Rightarrow> length d))"
proof (induction p rule: pq_is_null.induct)
  case (1 T)
  then show ?case by (simp add: pq_null_result_def)
next
  case (2 T p)
  then show ?case by simp
next
  case (3 A v)
  then show ?case
    by (auto simp: arith_range_eq [OF assms] pq_binary_result_def)
qed (auto simp: pq_write_arithmetic_def pq_binary_result_def pq_write_str_def pq_write_bytes_def
    str_range_eq [OF assms] pq_write_nullptr_def pq_null_result_def pq_write_tparam_def)

text \<open>
  For parameters of supported types the builder always succeeds and fills the four arrays with one
  entry for each parameter, in order: the object identifier is the one of the static type of the
  parameter, also for an empty optional, the value is null exactly for \<open>nullptr\<close> and empty optionals, and
  the length of a binary value is the number of its bytes.
\<close>

theorem pq_params_agree_with_types:
  assumes "endian_ok E" and "list_all (\<lambda>p. pq_well_typed p \<and> pq_param_oid (pq_type_of p) \<noteq> None) ps"
  shows "\<exists>b. build_pq_params E ps = Some b \<and>
    pb_oids b = map (\<lambda>p. pq_oid_value (the (pq_param_oid (pq_type_of p)))) ps \<and>
    length (pb_fmts b) = length ps \<and> length (pb_lens b) = length ps \<and>
    map (\<lambda>d. d = None) (pb_vals b) = map pq_is_null ps \<and>
    list_all (\<lambda>(f, d, n). f = 1 \<longrightarrow> n = c_cast C_int32 (int (case d of None \<Rightarrow> 0 | Some d \<Rightarrow> length d)))
      (zip (pb_fmts b) (zip (pb_vals b) (pb_lens b)))"
  using assms(2)
proof (induction ps)
  case (Cons p ps)
  then obtain b t where b: "build_pq_params E ps = Some b"
    "pb_oids b = map (\<lambda>p. pq_oid_value (the (pq_param_oid (pq_type_of p)))) ps"
    "length (pb_fmts b) = length ps" "length (pb_lens b) = length ps"
    "map (\<lambda>d. d = None) (pb_vals b) = map pq_is_null ps"
    "list_all (\<lambda>(f, d, n). f = 1 \<longrightarrow> n = c_cast C_int32 (int (case d of None \<Rightarrow> 0 | Some d \<Rightarrow> length d)))
      (zip (pb_fmts b) (zip (pb_vals b) (pb_lens b)))"
    and p: "pq_well_typed p" "pq_param_oid (pq_type_of p) = Some t"
    by auto
  from pq_write_param_typed [OF assms(1) p] obtain r where
    "pq_write_param E p = Some r \<and> pr_oid r = t \<and> (pr_data r = None \<longleftrightarrow> pq_is_null p) \<and>
      (pr_fmt r = pq_fmt_binary \<longrightarrow> pr_size r = (case pr_data r of None \<Rightarrow> 0 | Some d \<Rightarrow> length d))" ..
  then have r: "pq_write_param E p = Some r" "pr_oid r = t" "(pr_data r = None) = pq_is_null p"
    "pr_fmt r = pq_fmt_binary \<longrightarrow> pr_size r = (case pr_data r of None \<Rightarrow> 0 | Some d \<Rightarrow> length d)"
    by simp_all
  show ?case
    using b r(2-4) p by (cases "pr_fmt r") (simp_all add: r(1))
qed simp

theorem pq_params_agree_with_types_witness:
  "\<exists>b. build_pq_params big_endian
        [Pm_arith (Pq_num C_uint8) 200, Pm_optional Ty_str None, Pm_optional Ty_str (Some (Pm_str [0x61])), Pm_nullptr] = Some b \<and>
    pb_oids b = [21, 25, 25, 0] \<and> map (\<lambda>d. d = None) (pb_vals b) = [False, True, False, True]"
  using pq_params_agree_with_types [OF big_endian_ok,
      of "[Pm_arith (Pq_num C_uint8) 200, Pm_optional Ty_str None, Pm_optional Ty_str (Some (Pm_str [0x61])), Pm_nullptr]"]
  by auto

end
