(* ===== verification/Bom.thy ===== *)
theory Bom
  imports Prelude
begin

text \<open>
  The detection of byte order marks, \<open>include/dsk/charset/bom.hpp\<close>. \<open>starts_with\<close> of a string view takes
  its argument here as a pointer to a terminated string, so what it compares with ends at the first zero
  byte of the literal. The literals are those of the source: a backslash with a zero is the zero byte,
  the \<open>x\<close> and the digits after it are characters of their own.
\<close>

section \<open>Model\<close>

record detect_bom_result =
  bom_charset :: "string option"
  bom_len :: nat

definition cstr_bytes :: "bytes \<Rightarrow> bytes" where
  "cstr_bytes lit = takeWhile (\<lambda>b. b \<noteq> 0) lit"

definition sv_starts_with :: "bytes \<Rightarrow> bytes \<Rightarrow> bool" where
  "sv_starts_with s lit = (take (length (cstr_bytes lit)) s = cstr_bytes lit)"

text \<open>The literal written with escapes: each is a zero byte, the letter and two characters.\<close>

fun escaped_literal :: "(u8 \<times> u8) list \<Rightarrow> bytes" where
  "escaped_literal [] = []"
| "escaped_literal ((h, l) # es) = [0, 0x78, h, l] @ escaped_literal es"

definition detect_bom :: "bytes \<Rightarrow> detect_bom_result" where
  "detect_bom s =
     (let found = (\<lambda>n k. \<lparr>bom_charset = Some n, bom_len = k\<rparr>);
          at = (\<lambda>s es. sv_starts_with s (escaped_literal es))
      in if at s [(0x45, 0x46), (0x42, 0x42), (0x42, 0x46)] then found ''UTF-8'' 3
         else if at s [(0x46, 0x45), (0x46, 0x46)] then found ''UTF-16 BE'' 2
         else if at s [(0x46, 0x46), (0x46, 0x45)] then found ''UTF-16 LE'' 2
         else if at s [(0x30, 0x30), (0x30, 0x30), (0x46, 0x45), (0x46, 0x46)] then found ''UTF-32 BE'' 4
         else if at s [(0x46, 0x46), (0x46, 0x45), (0x30, 0x30), (0x30, 0x30)] then found ''UTF-32 LE'' 4
         else if at s [(0x46, 0x37), (0x36, 0x34), (0x34, 0x43)] then found ''UTF-1'' 3
         else if at s [(0x44, 0x44), (0x37, 0x33), (0x36, 0x36), (0x37, 0x33)] then found ''UTF-EBCDIC'' 4
         else if at s [(0x30, 0x45), (0x46, 0x45), (0x46, 0x46)] then found ''SCSU'' 3
         else if at s [(0x46, 0x42), (0x45, 0x45), (0x32, 0x38)] then found ''BOCU-1'' 3
         else if at s [(0x38, 0x34), (0x33, 0x31), (0x39, 0x35), (0x33, 0x33)] then found ''GB-18030'' 4
         else if at s [(0x32, 0x42), (0x32, 0x46), (0x37, 0x36)]
         then (let s = drop 3 s in
               if at s [(0x33, 0x38), (0x32, 0x44)] then found ''UTF-7'' 5
               else if at s [(0x33, 0x38)] \<or> at s [(0x33, 0x39)] \<or> at s [(0x32, 0x42)] \<or> at s [(0x32, 0x46)]
               then found ''UTF-7'' 4
               else \<lparr>bom_charset = None, bom_len = 0\<rparr>)
         else \<lparr>bom_charset = None, bom_len = 0\<rparr>)"

section \<open>What it detects\<close>

text \<open>
  Every literal is the empty string to \<open>starts_with\<close>, so the first test always succeeds: whatever the
  input, even an empty one, is reported as UTF-8 with a mark of three bytes.
\<close>

lemma detect_bom_always_utf8:
  "detect_bom s = \<lparr>bom_charset = Some ''UTF-8'', bom_len = 3\<rparr>"
  by (simp add: detect_bom_def sv_starts_with_def cstr_bytes_def)

end
