(* ===== verification/Jser_Write.thy ===== *)
theory Jser_Write
  imports Jser_Err
begin

text \<open>
  Serialisation of structured data, \<open>include/dsk/jser/write.hpp\<close> with the writing half of \<open>dsl.hpp\<close>,
  and \<open>cpo.hpp\<close>. A definition of the DSL applied to data is, once the compiler has resolved the
  accessors and overloads, a tree: \<open>jdoc\<close> has a constructor for each way a value is written, \<open>jfld\<close> one
  for each branch of \<open>write_jflds\<close>. The functions are generic in the writer, the record \<open>jwriter\<close>; its
  instances are the writers of JSON and of MessagePack.
\<close>

section \<open>Documents\<close>

text \<open>
  A key is a string, a \<open>jkey\<close> with its number and its string, or (in \<open>jmap_obj\<close>) a number.
\<close>

datatype jkey = Jk_str bytes | Jk_both int bytes | Jk_arith c_type int

text \<open>
  \<open>Jd_optional\<close> and \<open>Jd_variant\<close> are values that may be absent, the latter \<open>nullable\<close> or not and with the
  active alternative; \<open>Jd_tuple m\<close> writes the first \<open>m\<close> elements, or all for 0; \<open>Jd_arr\<close> is \<open>jarr\<close> or \<open>jtuple\<close>
  with a definition for each element. The fields: an ordinary one, an optional or variant that is accessed
  directly, one whose definition takes the key (\<open>joptional\<close> and \<open>jvariant_s\<close>, with \<open>nullable\<close>), and a nested
  object.
\<close>

datatype jdoc =
    Jd_arith c_type int | Jd_str bytes | Jd_noescape bytes | Jd_binary bytes | Jd_null
  | Jd_optional "jdoc option" | Jd_variant bool "jdoc option"
  | Jd_range "jdoc list" | Jd_tuple nat "jdoc list" | Jd_arr "jdoc list"
  | Jd_obj "jfld list" | Jd_map "(jkey \<times> jdoc) list"
and jfld =
    Jf_val jkey jdoc | Jf_opt jkey "jdoc option" | Jf_keyed bool jkey "jdoc option" | Jf_nested "jfld list"

section \<open>Writers\<close>

text \<open>
  An operation of a writer transforms the buffer; \<open>None\<close> is a failed assertion or an access outside of it.
  The callback of \<open>obj_scope\<close> also gives the number of fields.
\<close>

type_synonym jop = "bytes \<Rightarrow> bytes option"

record jwriter =
  jw_null :: jop
  jw_arithmetic :: "c_type \<Rightarrow> int \<Rightarrow> jop"
  jw_str :: "bytes \<Rightarrow> jop"
  jw_str_noescape :: "bytes \<Rightarrow> jop"
  jw_binary :: "bytes \<Rightarrow> jop"
  jw_arr_scope :: "nat \<Rightarrow> jop \<Rightarrow> jop"
  jw_elm_scope :: "jop \<Rightarrow> jop"
  jw_obj_scope :: "nat \<Rightarrow> (bytes \<Rightarrow> (nat \<times> bytes) option) \<Rightarrow> jop"
  jw_fld_scope :: "jkey \<Rightarrow> jop \<Rightarrow> jop"
  jw_delimiter :: "jop option"

definition jop_then :: "jop \<Rightarrow> jop \<Rightarrow> jop" where
  "jop_then f g b = Option.bind (f b) g"

definition jop_count :: "nat \<Rightarrow> (bytes \<Rightarrow> (nat \<times> bytes) option) \<Rightarrow> nat \<times> bytes \<Rightarrow> (nat \<times> bytes) option" where
  "jop_count cnt f r = map_option (\<lambda>(n, b). (cnt + n, b)) (f (snd r))"

text \<open>
  \<open>write_jval\<close>, the loops over all elements of an array and over the first \<open>m\<close>, \<open>write_jflds\<close>, which counts the fields, and the
  loop of \<open>jmap_obj\<close>.
\<close>

fun write_jval :: "jwriter \<Rightarrow> jdoc \<Rightarrow> jop"
  and write_jelms :: "jwriter \<Rightarrow> jdoc list \<Rightarrow> jop"
  and write_jfirst :: "jwriter \<Rightarrow> nat \<Rightarrow> jdoc list \<Rightarrow> jop"
  and write_jflds :: "jwriter \<Rightarrow> jfld list \<Rightarrow> bytes \<Rightarrow> (nat \<times> bytes) option"
  and write_jmap_flds :: "jwriter \<Rightarrow> (jkey \<times> jdoc) list \<Rightarrow> jop"
where
  "write_jval w (Jd_arith T v) = jw_arithmetic w T v"
| "write_jval w (Jd_str s) = jw_str w s"
| "write_jval w (Jd_noescape s) = jw_str_noescape w s"
| "write_jval w (Jd_binary s) = jw_binary w s"
| "write_jval w Jd_null = jw_null w"
| "write_jval w (Jd_optional None) = jw_null w"
| "write_jval w (Jd_optional (Some d)) = write_jval w d"
| "write_jval w (Jd_variant nullable None) = (if nullable then jw_null w else (\<lambda>b. None))"
| "write_jval w (Jd_variant nullable (Some d)) = write_jval w d"
| "write_jval w (Jd_range ds) = jw_arr_scope w (length ds) (write_jelms w ds)"
| "write_jval w (Jd_tuple m ds) =
     (if m \<noteq> 0 then jw_arr_scope w m (write_jfirst w m ds) else jw_arr_scope w (length ds) (write_jelms w ds))"
| "write_jval w (Jd_arr ds) = jw_arr_scope w (length ds) (write_jelms w ds)"
| "write_jval w (Jd_obj fs) = jw_obj_scope w (length fs) (write_jflds w fs)"
| "write_jval w (Jd_map kvs) =
     jw_obj_scope w (length kvs) (\<lambda>b. map_option (\<lambda>b. (length kvs, b)) (write_jmap_flds w kvs b))"
| "write_jelms w [] = Some"
| "write_jelms w (d # ds) = jop_then (jw_elm_scope w (write_jval w d)) (write_jelms w ds)"
| "write_jfirst w 0 ds = Some"
| "write_jfirst w (Suc m) [] = Some"
| "write_jfirst w (Suc m) (d # ds) = jop_then (jw_elm_scope w (write_jval w d)) (write_jfirst w m ds)"
| "write_jflds w [] = (\<lambda>b. Some (0, b))"
| "write_jflds w (Jf_val k d # fs) =
     (\<lambda>b. Option.bind (jw_fld_scope w k (write_jval w d) b) (\<lambda>b. jop_count 1 (write_jflds w fs) (0, b)))"
| "write_jflds w (Jf_opt k None # fs) = write_jflds w fs"
| "write_jflds w (Jf_opt k (Some d) # fs) =
     (\<lambda>b. Option.bind (jw_fld_scope w k (write_jval w d) b) (\<lambda>b. jop_count 1 (write_jflds w fs) (0, b)))"
| "write_jflds w (Jf_keyed nullable k None # fs) =
     (\<lambda>b. Option.bind (if nullable then Some b else jw_fld_scope w k (\<lambda>b. None) b)
            (\<lambda>b. jop_count 1 (write_jflds w fs) (0, b)))"
| "write_jflds w (Jf_keyed nullable k (Some d) # fs) =
     (\<lambda>b. Option.bind (jw_fld_scope w k (write_jval w d) b) (\<lambda>b. jop_count 1 (write_jflds w fs) (0, b)))"
| "write_jflds w (Jf_nested nfs # fs) =
     (\<lambda>b. Option.bind (write_jflds w nfs b) (\<lambda>r. jop_count (fst r) (write_jflds w fs) r))"
| "write_jmap_flds w [] = Some"
| "write_jmap_flds w ((k, d) # kvs) =
     jop_then (jw_fld_scope w k (write_jval w d)) (write_jmap_flds w kvs)"

definition jwrite :: "jwriter \<Rightarrow> jdoc \<Rightarrow> jop" where
  "jwrite w d = write_jval w d"

fun jwrite_range :: "jwriter \<Rightarrow> jdoc list \<Rightarrow> jop" where
  "jwrite_range w [] = Some"
| "jwrite_range w (d # ds) =
     jop_then (jop_then (write_jval w d) (case jw_delimiter w of None \<Rightarrow> Some | Some f \<Rightarrow> f)) (jwrite_range w ds)"

end
