(* ===== verification/Jser_Spec.thy ===== *)
theory Jser_Spec
  imports Jser_Write
begin

text \<open>
  What writing a document means: the encoding \<open>jenc\<close> of a tree, given the encodings of scalars, arrays,
  objects and fields (\<open>jencoder\<close>), and the contract \<open>jser_writer\<close> under which the functions of
  \<open>Jser_Write\<close>, which append to a buffer and patch it, produce this encoding. The contract is interpreted
  on the JSON writer and on the MessagePack writer.
\<close>

section \<open>Encodings\<close>

text \<open>
  \<open>je_obj\<close> is given the number of fields announced, the number counted, and the fields. \<open>je_sep\<close> is what
  follows every element and field while they are written. The \<open>jok\<close> predicates say what a writer can hold.
\<close>

record jencoder =
  je_null :: bytes
  je_arith :: "c_type \<Rightarrow> int \<Rightarrow> bytes"
  je_str :: "bytes \<Rightarrow> bytes"
  je_noescape :: "bytes \<Rightarrow> bytes"
  je_binary :: "bytes \<Rightarrow> bytes"
  je_arr :: "bytes list \<Rightarrow> bytes"
  je_obj :: "nat \<Rightarrow> nat \<Rightarrow> bytes list \<Rightarrow> bytes"
  je_fld :: "jkey \<Rightarrow> bytes \<Rightarrow> bytes"
  je_sep :: bytes
  jok_arith :: "c_type \<Rightarrow> int \<Rightarrow> bool"
  jok_str :: "bytes \<Rightarrow> bool"
  jok_binary :: "bytes \<Rightarrow> bool"
  jok_key :: "jkey \<Rightarrow> bool"
  jok_len :: "nat \<Rightarrow> bool"
  jok_cnt :: "nat \<Rightarrow> nat \<Rightarrow> bool"

text \<open>
  The count \<open>write_jflds\<close> returns: a field whose definition takes the key counts whether it is written or not.
\<close>

fun jcount :: "jfld list \<Rightarrow> nat" where
  "jcount [] = 0"
| "jcount (Jf_val k d # fs) = 1 + jcount fs"
| "jcount (Jf_opt k None # fs) = jcount fs"
| "jcount (Jf_opt k (Some d) # fs) = 1 + jcount fs"
| "jcount (Jf_keyed nullable k od # fs) = 1 + jcount fs"
| "jcount (Jf_nested nfs # fs) = jcount nfs + jcount fs"

fun jenc :: "jencoder \<Rightarrow> jdoc \<Rightarrow> bytes"
  and jenc_elms :: "jencoder \<Rightarrow> jdoc list \<Rightarrow> bytes list"
  and jenc_flds :: "jencoder \<Rightarrow> jfld list \<Rightarrow> bytes list"
  and jenc_map :: "jencoder \<Rightarrow> (jkey \<times> jdoc) list \<Rightarrow> bytes list"
where
  "jenc J (Jd_arith T v) = je_arith J T v"
| "jenc J (Jd_str s) = je_str J s"
| "jenc J (Jd_noescape s) = je_noescape J s"
| "jenc J (Jd_binary s) = je_binary J s"
| "jenc J Jd_null = je_null J"
| "jenc J (Jd_optional None) = je_null J"
| "jenc J (Jd_optional (Some d)) = jenc J d"
| "jenc J (Jd_variant nullable None) = je_null J"
| "jenc J (Jd_variant nullable (Some d)) = jenc J d"
| "jenc J (Jd_range ds) = je_arr J (jenc_elms J ds)"
| "jenc J (Jd_tuple m ds) = je_arr J (if m \<noteq> 0 then take m (jenc_elms J ds) else jenc_elms J ds)"
| "jenc J (Jd_arr ds) = je_arr J (jenc_elms J ds)"
| "jenc J (Jd_obj fs) = je_obj J (length fs) (jcount fs) (jenc_flds J fs)"
| "jenc J (Jd_map kvs) = je_obj J (length kvs) (length kvs) (jenc_map J kvs)"
| "jenc_elms J [] = []"
| "jenc_elms J (d # ds) = jenc J d # jenc_elms J ds"
| "jenc_flds J [] = []"
| "jenc_flds J (Jf_val k d # fs) = je_fld J k (jenc J d) # jenc_flds J fs"
| "jenc_flds J (Jf_opt k None # fs) = jenc_flds J fs"
| "jenc_flds J (Jf_opt k (Some d) # fs) = je_fld J k (jenc J d) # jenc_flds J fs"
| "jenc_flds J (Jf_keyed nullable k None # fs) = jenc_flds J fs"
| "jenc_flds J (Jf_keyed nullable k (Some d) # fs) = je_fld J k (jenc J d) # jenc_flds J fs"
| "jenc_flds J (Jf_nested nfs # fs) = jenc_flds J nfs @ jenc_flds J fs"
| "jenc_map J [] = []"
| "jenc_map J ((k, d) # kvs) = je_fld J k (jenc J d) # jenc_map J kvs"

text \<open>A document a writer can write: everything in range, and no absent alternative where one is required.\<close>

fun jdoc_ok :: "jencoder \<Rightarrow> jdoc \<Rightarrow> bool"
  and jelms_ok :: "jencoder \<Rightarrow> jdoc list \<Rightarrow> bool"
  and jflds_ok :: "jencoder \<Rightarrow> jfld list \<Rightarrow> bool"
  and jmap_ok :: "jencoder \<Rightarrow> (jkey \<times> jdoc) list \<Rightarrow> bool"
where
  "jdoc_ok J (Jd_arith T v) \<longleftrightarrow> jok_arith J T v"
| "jdoc_ok J (Jd_str s) \<longleftrightarrow> jok_str J s"
| "jdoc_ok J (Jd_noescape s) \<longleftrightarrow> jok_str J s"
| "jdoc_ok J (Jd_binary s) \<longleftrightarrow> jok_binary J s"
| "jdoc_ok J Jd_null \<longleftrightarrow> True"
| "jdoc_ok J (Jd_optional None) \<longleftrightarrow> True"
| "jdoc_ok J (Jd_optional (Some d)) \<longleftrightarrow> jdoc_ok J d"
| "jdoc_ok J (Jd_variant nullable None) \<longleftrightarrow> nullable"
| "jdoc_ok J (Jd_variant nullable (Some d)) \<longleftrightarrow> jdoc_ok J d"
| "jdoc_ok J (Jd_range ds) \<longleftrightarrow> jok_len J (length ds) \<and> jelms_ok J ds"
| "jdoc_ok J (Jd_tuple m ds) \<longleftrightarrow> jok_len J (if m \<noteq> 0 then m else length ds) \<and> m \<le> length ds \<and> jelms_ok J ds"
| "jdoc_ok J (Jd_arr ds) \<longleftrightarrow> jok_len J (length ds) \<and> jelms_ok J ds"
| "jdoc_ok J (Jd_obj fs) \<longleftrightarrow> jok_cnt J (length fs) (jcount fs) \<and> jflds_ok J fs"
| "jdoc_ok J (Jd_map kvs) \<longleftrightarrow> jok_cnt J (length kvs) (length kvs) \<and> jmap_ok J kvs"
| "jelms_ok J [] \<longleftrightarrow> True"
| "jelms_ok J (d # ds) \<longleftrightarrow> jdoc_ok J d \<and> jelms_ok J ds"
| "jflds_ok J [] \<longleftrightarrow> True"
| "jflds_ok J (Jf_val k d # fs) \<longleftrightarrow> jok_key J k \<and> jdoc_ok J d \<and> jflds_ok J fs"
| "jflds_ok J (Jf_opt k None # fs) \<longleftrightarrow> jflds_ok J fs"
| "jflds_ok J (Jf_opt k (Some d) # fs) \<longleftrightarrow> jok_key J k \<and> jdoc_ok J d \<and> jflds_ok J fs"
| "jflds_ok J (Jf_keyed nullable k None # fs) \<longleftrightarrow> nullable \<and> jflds_ok J fs"
| "jflds_ok J (Jf_keyed nullable k (Some d) # fs) \<longleftrightarrow> jok_key J k \<and> jdoc_ok J d \<and> jflds_ok J fs"
| "jflds_ok J (Jf_nested nfs # fs) \<longleftrightarrow> jflds_ok J nfs \<and> jflds_ok J fs"
| "jmap_ok J [] \<longleftrightarrow> True"
| "jmap_ok J ((k, d) # kvs) \<longleftrightarrow> jok_key J k \<and> jdoc_ok J d \<and> jmap_ok J kvs"

section \<open>The contract of a writer\<close>

definition je_seq :: "jencoder \<Rightarrow> bytes list \<Rightarrow> bytes" where
  "je_seq J xs = concat (map (\<lambda>x. x @ je_sep J) xs)"

lemma je_seq_simps [simp]:
  "je_seq J [] = []" "je_seq J (x # xs) = x @ je_sep J @ je_seq J xs" "je_seq J (xs @ ys) = je_seq J xs @ je_seq J ys"
  by (simp_all add: je_seq_def)

definition jappends :: "jop \<Rightarrow> bytes \<Rightarrow> bool" where
  "jappends f x \<longleftrightarrow> (\<forall>b. f b = Some (b @ x))"

lemma jappendsD: "jappends f x \<Longrightarrow> f b = Some (b @ x)"
  by (simp add: jappends_def)

lemma jappends_Some [simp]: "jappends Some []"
  by (simp add: jappends_def)

lemma jappends_then: "jappends f x \<Longrightarrow> jappends g y \<Longrightarrow> jappends (jop_then f g) (x @ y)"
  by (simp add: jappends_def jop_then_def)

locale jser_writer =
  fixes w :: jwriter
    and J :: jencoder
  assumes null: "jappends (jw_null w) (je_null J)"
    and arith: "jok_arith J T v \<Longrightarrow> jappends (jw_arithmetic w T v) (je_arith J T v)"
    and str: "jok_str J s \<Longrightarrow> jappends (jw_str w s) (je_str J s)"
    and noescape: "jok_str J s \<Longrightarrow> jappends (jw_str_noescape w s) (je_noescape J s)"
    and binary: "jok_binary J s \<Longrightarrow> jappends (jw_binary w s) (je_binary J s)"
    and elm: "jappends f x \<Longrightarrow> jappends (jw_elm_scope w f) (x @ je_sep J)"
    and arr: "jappends f (je_seq J xs) \<Longrightarrow> jok_len J (length xs) \<Longrightarrow> jappends (jw_arr_scope w (length xs) f) (je_arr J xs)"
    and fld: "jappends f x \<Longrightarrow> jok_key J k \<Longrightarrow> jappends (jw_fld_scope w k f) (je_fld J k x @ je_sep J)"
    and obj: "(\<And>b. g b = Some (c, b @ je_seq J xs)) \<Longrightarrow> jok_cnt J n c \<Longrightarrow> jappends (jw_obj_scope w n g) (je_obj J n c xs)"
begin

lemma jenc_elms_length: "length (jenc_elms J ds) = length ds"
  by (induction ds) auto

lemma fld_append: "jappends f x \<Longrightarrow> jok_key J k \<Longrightarrow> jw_fld_scope w k f b = Some (b @ je_fld J k x @ je_sep J)"
  using fld [of f x k] by (simp add: jappends_def)

lemma write_eq:
  "v = w \<Longrightarrow> jdoc_ok J d \<Longrightarrow> jappends (write_jval v d) (jenc J d)"
  "v = w \<Longrightarrow> jelms_ok J ds \<Longrightarrow> jappends (write_jelms v ds) (je_seq J (jenc_elms J ds))"
  "v = w \<Longrightarrow> jelms_ok J ds \<Longrightarrow> jappends (write_jfirst v m ds) (je_seq J (take m (jenc_elms J ds)))"
  "v = w \<Longrightarrow> jflds_ok J fs \<Longrightarrow> (\<And>b. write_jflds v fs b = Some (jcount fs, b @ je_seq J (jenc_flds J fs)))"
  "v = w \<Longrightarrow> jmap_ok J kvs \<Longrightarrow> jappends (write_jmap_flds v kvs) (je_seq J (jenc_map J kvs))"
proof (induction v d and v ds and v m ds and v fs and v kvs
    rule: write_jval_write_jelms_write_jfirst_write_jflds_write_jmap_flds.induct)
  case (10 w' ds)
  then show ?case
    using arr [of "write_jelms w ds" "jenc_elms J ds"] by (simp add: jenc_elms_length)
next
  case (11 w' m ds)
  then show ?case
    using arr [of "write_jelms w ds" "jenc_elms J ds"] arr [of "write_jfirst w m ds" "take m (jenc_elms J ds)"]
    by (simp add: jenc_elms_length min_absorb2 split: if_splits)
next
  case (12 w' ds)
  then show ?case
    using arr [of "write_jelms w ds" "jenc_elms J ds"] by (simp add: jenc_elms_length)
next
  case (13 w' fs)
  then show ?case
    using obj [of "write_jflds w fs" "jcount fs" "jenc_flds J fs" "length fs"] by simp
next
  case (14 w' kvs)
  then have "map_option (\<lambda>b. (length kvs, b)) (write_jmap_flds w kvs b) = Some (length kvs, b @ je_seq J (jenc_map J kvs))" for b
    by (simp add: jappends_def)
  then show ?case
    using 14 obj [of "\<lambda>b. map_option (\<lambda>b. (length kvs, b)) (write_jmap_flds w kvs b)" "length kvs" "jenc_map J kvs" "length kvs"]
    by simp
next
  case (16 w' d ds)
  then show ?case
    using jappends_then [OF elm [of "write_jval w d" "jenc J d"]] by simp
next
  case (19 w' m d ds)
  then show ?case
    using jappends_then [OF elm [of "write_jval w d" "jenc J d"]] by simp
next
  case (28 w' k d kvs)
  then show ?case
    using jappends_then [OF fld [of "write_jval w d" "jenc J d" k]] by simp
next
  case (21 w' k d fs)
  then show ?case
    using fld_append [of "write_jval w d" "jenc J d" k] by (simp add: jop_count_def)
next
  case (23 w' k d fs)
  then show ?case
    using fld_append [of "write_jval w d" "jenc J d" k] by (simp add: jop_count_def)
next
  case (25 w' nullable k d fs)
  then show ?case
    using fld_append [of "write_jval w d" "jenc J d" k] by (simp add: jop_count_def)
qed (simp_all add: null arith str noescape binary jop_count_def)

lemma write_appends: "jdoc_ok J d \<Longrightarrow> write_jval w d b = Some (b @ jenc J d)"
  using write_eq(1) [OF refl] by (simp add: jappends_def)

end

end
