(* ===== verification/Json_Writer.thy ===== *)
theory Json_Writer
  imports Jser_Spec Stringify
begin

text \<open>
  The JSON writer, \<open>include/dsk/jser/json/writer.hpp\<close>, as an instance of \<open>jwriter\<close>. The text of a floating
  point number (\<open>std::to_chars\<close>) and base64 are the arguments \<open>fp\<close> and \<open>b64\<close>; the template parameters
  \<open>Delimiter\<close> and \<open>EscapeKey\<close> are arguments too.
\<close>

section \<open>Escaping\<close>

definition hex_digits :: "u8 list" where
  "hex_digits =
     [0x30, 0x31, 0x32, 0x33, 0x34, 0x35, 0x36, 0x37, 0x38, 0x39, 0x41, 0x42, 0x43, 0x44, 0x45, 0x46]"

definition jstr_escape_table :: "u8 list" where
  "jstr_escape_table =
     [0x75, 0x75, 0x75, 0x75, 0x75, 0x75, 0x75, 0x75, 0x62, 0x74, 0x6e, 0x75, 0x66, 0x72, 0x75, 0x75] @
     replicate 16 0x75 @
     [0, 0, 0x22, 0, 0, 0, 0, 0, 0, 0, 0, 0, 0, 0, 0, 0] @
     replicate 32 0 @
     [0, 0, 0, 0, 0, 0, 0, 0, 0, 0, 0, 0, 0x5c, 0, 0, 0] @
     replicate 160 0"

definition jstr_escape_char :: "u8 \<Rightarrow> bytes" where
  "jstr_escape_char c =
     (let ec = jstr_escape_table ! unat c in
      if ec \<noteq> 0
      then [0x5c, ec] @
        (if ec = 0x75 then [0x30, 0x30, hex_digits ! unat (drop_bit 4 c), hex_digits ! unat (c AND 0xF)] else [])
      else [c])"

fun jstr_escape_loop :: "bytes \<Rightarrow> bytes" where
  "jstr_escape_loop [] = []"
| "jstr_escape_loop (c # s) = jstr_escape_char c @ jstr_escape_loop s"

definition escaped_jstr :: "bytes \<Rightarrow> bytes" where
  "escaped_jstr s = [0x22] @ jstr_escape_loop s @ [0x22]"

text \<open>
  The overload for a buffer buys room for the longest escape and cuts it back; \<open>None\<close> when the text would
  not fit the room.
\<close>

definition append_escaped_jstr :: "bytes \<Rightarrow> jop" where
  "append_escaped_jstr v b =
     (let max_len = 2 + length v * 6; e = escaped_jstr v
      in if length e \<le> max_len then Some (take (length b + length e) (b @ e @ replicate (max_len - length e) 0)) else None)"

section \<open>The writer\<close>

definition json_put :: "bytes \<Rightarrow> jop" where
  "json_put s b = Some (b @ s)"

definition amend_last_if_eq_to :: "u8 \<Rightarrow> u8 \<Rightarrow> jop" where
  "amend_last_if_eq_to t a b =
     (if b = [] then None else if last b = t then Some (butlast b @ [a]) else json_put [a] b)"

definition json_null :: jop where
  "json_null = json_put [0x6e, 0x75, 0x6c, 0x6c]"

definition json_fp :: "(c_type \<Rightarrow> int \<Rightarrow> bytes) \<Rightarrow> c_type \<Rightarrow> int \<Rightarrow> jop" where
  "json_fp fp T v = json_put (fp T v)"

definition json_integer :: "c_type \<Rightarrow> int \<Rightarrow> jop" where
  "json_integer T v b = Option.bind (stringify_int T 10 v) (\<lambda>s. json_put s b)"

definition json_arithmetic :: "(c_type \<Rightarrow> int \<Rightarrow> bytes) \<Rightarrow> c_type \<Rightarrow> int \<Rightarrow> jop" where
  "json_arithmetic fp T v =
     (if T = C_bool then json_put (if v \<noteq> 0 then [0x74, 0x72, 0x75, 0x65] else [0x66, 0x61, 0x6c, 0x73, 0x65])
      else if c_fp T then json_fp fp T v
      else json_integer T v)"

definition json_str :: "bytes \<Rightarrow> jop" where
  "json_str v = append_escaped_jstr v"

definition json_str_noescape :: "bytes \<Rightarrow> jop" where
  "json_str_noescape v b = Some (b @ [0x22] @ v @ [0x22])"

definition json_binary :: "(bytes \<Rightarrow> bytes) \<Rightarrow> bytes \<Rightarrow> jop" where
  "json_binary b64 v = jop_then (json_put [0x22]) (jop_then (json_put (b64 v)) (json_put [0x22]))"

definition json_key :: "bool \<Rightarrow> bytes \<Rightarrow> jop" where
  "json_key escape_key s = (if escape_key then json_str s else json_str_noescape s)"

definition json_arr_scope :: "nat \<Rightarrow> jop \<Rightarrow> jop" where
  "json_arr_scope n f = jop_then (json_put [0x5b]) (jop_then f (amend_last_if_eq_to 0x2c 0x5d))"

definition json_elm_scope :: "jop \<Rightarrow> jop" where
  "json_elm_scope ef = jop_then ef (json_put [0x2c])"

definition json_obj_scope :: "nat \<Rightarrow> (bytes \<Rightarrow> (nat \<times> bytes) option) \<Rightarrow> jop" where
  "json_obj_scope max_cnt f =
     jop_then (json_put [0x7b]) (jop_then (\<lambda>b. map_option snd (f b)) (amend_last_if_eq_to 0x2c 0x7d))"

text \<open>The text of a key: a string, the string of a \<open>jkey\<close>, or \<open>stringify\<close> of a number.\<close>

definition json_key_text :: "(c_type \<Rightarrow> int \<Rightarrow> bytes) \<Rightarrow> jkey \<Rightarrow> bytes option" where
  "json_key_text fp k =
     (case k of
        Jk_str s \<Rightarrow> Some s
      | Jk_both i s \<Rightarrow> Some s
      | Jk_arith T v \<Rightarrow> if T = C_bool then Some (stringify_bool (v \<noteq> 0))
                       else if c_fp T then Some (fp T v) else stringify_int T 10 v)"

definition json_fld_scope :: "(c_type \<Rightarrow> int \<Rightarrow> bytes) \<Rightarrow> bool \<Rightarrow> jkey \<Rightarrow> jop \<Rightarrow> jop" where
  "json_fld_scope fp escape_key k vf b =
     Option.bind (json_key_text fp k) (\<lambda>s.
       jop_then (json_key escape_key s) (jop_then (json_put [0x3a]) (jop_then vf (json_put [0x2c]))) b)"

definition json_writer :: "(c_type \<Rightarrow> int \<Rightarrow> bytes) \<Rightarrow> (bytes \<Rightarrow> bytes) \<Rightarrow> bytes \<Rightarrow> bool \<Rightarrow> jwriter" where
  "json_writer fp b64 delimiter escape_key =
     \<lparr>jw_null = json_null, jw_arithmetic = json_arithmetic fp, jw_str = json_str,
      jw_str_noescape = json_str_noescape, jw_binary = json_binary b64, jw_arr_scope = json_arr_scope,
      jw_elm_scope = json_elm_scope, jw_obj_scope = json_obj_scope, jw_fld_scope = json_fld_scope fp escape_key,
      jw_delimiter = Some (json_put delimiter)\<rparr>"

definition write_json :: "(c_type \<Rightarrow> int \<Rightarrow> bytes) \<Rightarrow> (bytes \<Rightarrow> bytes) \<Rightarrow> bool \<Rightarrow> jdoc \<Rightarrow> jop" where
  "write_json fp b64 escape_key d = jwrite (json_writer fp b64 [0x0a] escape_key) d"

definition write_json_range :: "(c_type \<Rightarrow> int \<Rightarrow> bytes) \<Rightarrow> (bytes \<Rightarrow> bytes) \<Rightarrow> bytes \<Rightarrow> bool \<Rightarrow> jdoc list \<Rightarrow> jop" where
  "write_json_range fp b64 delimiter escape_key ds = jwrite_range (json_writer fp b64 delimiter escape_key) ds"

section \<open>The text it writes\<close>

text \<open>The reference: compact JSON, elements and fields joined by commas.\<close>

fun json_join :: "bytes list \<Rightarrow> bytes" where
  "json_join [] = []"
| "json_join [x] = x"
| "json_join (x # y # xs) = x @ [0x2c] @ json_join (y # xs)"

definition json_key_str :: "(c_type \<Rightarrow> int \<Rightarrow> bytes) \<Rightarrow> jkey \<Rightarrow> bytes" where
  "json_key_str fp k =
     (case k of
        Jk_str s \<Rightarrow> s
      | Jk_both i s \<Rightarrow> s
      | Jk_arith T v \<Rightarrow> if T = C_bool then stringify_bool (v \<noteq> 0) else if c_fp T then fp T v else int_chars 10 v)"

definition json_encoder :: "(c_type \<Rightarrow> int \<Rightarrow> bytes) \<Rightarrow> (bytes \<Rightarrow> bytes) \<Rightarrow> bool \<Rightarrow> jencoder" where
  "json_encoder fp b64 escape_key =
     \<lparr>je_null = [0x6e, 0x75, 0x6c, 0x6c],
      je_arith = (\<lambda>T v. if T = C_bool then stringify_bool (v \<noteq> 0) else if c_fp T then fp T v else int_chars 10 v),
      je_str = escaped_jstr,
      je_noescape = (\<lambda>s. [0x22] @ s @ [0x22]),
      je_binary = (\<lambda>s. [0x22] @ b64 s @ [0x22]),
      je_arr = (\<lambda>xs. [0x5b] @ json_join xs @ [0x5d]),
      je_obj = (\<lambda>n c xs. [0x7b] @ json_join xs @ [0x7d]),
      je_fld = (\<lambda>k x. (if escape_key then escaped_jstr (json_key_str fp k) else [0x22] @ json_key_str fp k @ [0x22]) @ [0x3a] @ x),
      je_sep = [0x2c],
      jok_arith = (\<lambda>T v. T = C_bool \<or> c_fp T \<or> stringify_int T 10 v \<noteq> None),
      jok_str = (\<lambda>s. True), jok_binary = (\<lambda>s. True),
      jok_key = (\<lambda>k. json_key_text fp k \<noteq> None),
      jok_len = (\<lambda>n. True), jok_cnt = (\<lambda>n c. True)\<rparr>"

text \<open>The room that is bought always suffices: six bytes for each character and the quotes.\<close>

lemma jstr_escape_char_length: "length (jstr_escape_char c) \<le> 6"
  by (simp add: jstr_escape_char_def Let_def)

lemma jstr_escape_loop_length: "length (jstr_escape_loop s) \<le> 6 * length s"
proof (induction s)
  case (Cons c s)
  then show ?case
    using jstr_escape_char_length [of c] by simp
qed simp

lemma append_escaped_jstr_eq: "append_escaped_jstr v b = Some (b @ escaped_jstr v)"
  using jstr_escape_loop_length [of v] by (simp add: append_escaped_jstr_def escaped_jstr_def Let_def)

lemma stringify_int_chars: "stringify_int T 10 v = Some s \<Longrightarrow> s = int_chars 10 v"
  by (auto simp: stringify_int_def std_to_chars_def fs_set_end_def Let_def split: if_splits)

lemma json_join_snoc: "json_join xs @ (if xs = [] then [] else [0x2c]) = concat (map (\<lambda>x. x @ [0x2c]) xs)"
  by (induction xs rule: json_join.induct) auto

lemma amend_join: "amend_last_if_eq_to 0x2c a (b @ [t] @ concat (map (\<lambda>x. x @ [0x2c]) xs)) = Some (b @ [t] @ json_join xs @ [a])"
  if "t \<noteq> 0x2c"
  using that json_join_snoc [of xs, symmetric]
  by (cases "xs = []") (simp_all add: amend_last_if_eq_to_def json_put_def butlast_append)

lemma json_key_appends: "jappends (json_key ek s) (if ek then escaped_jstr s else [0x22] @ s @ [0x22])"
  by (simp add: jappends_def json_key_def json_str_def append_escaped_jstr_eq json_str_noescape_def)

lemma json_key_text_str: "json_key_text fp k = Some s \<Longrightarrow> s = json_key_str fp k"
  by (auto simp: json_key_text_def json_key_str_def stringify_int_chars split: jkey.splits if_splits)

interpretation json: jser_writer "json_writer fp b64 delimiter escape_key" "json_encoder fp b64 escape_key"
  for fp b64 delimiter escape_key
proof
  let ?w = "json_writer fp b64 delimiter escape_key" and ?J = "json_encoder fp b64 escape_key"
  show "jappends (jw_null ?w) (je_null ?J)"
    by (simp add: jappends_def json_writer_def json_encoder_def json_null_def json_put_def)
  show "jok_arith ?J T v \<Longrightarrow> jappends (jw_arithmetic ?w T v) (je_arith ?J T v)" for T v
    by (auto simp: jappends_def json_writer_def json_encoder_def json_arithmetic_def json_put_def json_fp_def
        json_integer_def stringify_bool_def dest: stringify_int_chars)
  show "jappends (jw_str ?w s) (je_str ?J s)" for s
    by (simp add: jappends_def json_writer_def json_encoder_def json_str_def append_escaped_jstr_eq)
  show "jappends (jw_str_noescape ?w s) (je_noescape ?J s)" for s
    by (simp add: jappends_def json_writer_def json_encoder_def json_str_noescape_def)
  show "jappends (jw_binary ?w s) (je_binary ?J s)" for s
    by (simp add: jappends_def json_writer_def json_encoder_def json_binary_def json_put_def jop_then_def)
  show "jappends f x \<Longrightarrow> jappends (jw_elm_scope ?w f) (x @ je_sep ?J)" for f x
    by (simp add: jappends_def json_writer_def json_encoder_def json_elm_scope_def json_put_def jop_then_def)
  show "jappends f (je_seq ?J xs) \<Longrightarrow> jappends (jw_arr_scope ?w (length xs) f) (je_arr ?J xs)" for f xs
    using amend_join [of "0x5b" "0x5d" _ xs]
    by (simp add: jappends_def json_writer_def json_encoder_def json_arr_scope_def json_put_def jop_then_def je_seq_def)
  show "jappends (jw_fld_scope ?w k f) (je_fld ?J k x @ je_sep ?J)" if f: "jappends f x" and k: "jok_key ?J k" for f x k
  proof -
    obtain s where s: "json_key_text fp k = Some s"
      using k by (auto simp: json_encoder_def)
    show ?thesis
      using f json_key_appends [of escape_key s] json_key_text_str [OF s]
      by (simp add: jappends_def json_writer_def json_encoder_def json_fld_scope_def json_put_def jop_then_def s)
  qed
  show "jappends (jw_obj_scope ?w n g) (je_obj ?J n c xs)" if g: "\<And>b. g b = Some (c, b @ je_seq ?J xs)" for g n c xs
    using amend_join [of "0x7b" "0x7d" _ xs]
    by (simp add: jappends_def json_writer_def json_encoder_def json_obj_scope_def json_put_def jop_then_def g je_seq_def)
qed

end
