(* ===== verification/Json_Props.thy ===== *)
theory Json_Props
  imports Json_Writer Ascii_Props
begin

text \<open>
  The JSON writer against the grammar: a reference reader of JSON texts without insignificant white space
  (RFC 8259; escapes of code points from 128 on, which the writer never emits, are refused), and the proof
  that it reads from the written text the tree of the document.
\<close>

section \<open>A reference reader\<close>

datatype json =
    Js_null | Js_bool bool | Js_num bytes | Js_str bytes | Js_arr "json list" | Js_obj "(bytes \<times> json) list"

definition js_digit :: "u8 \<Rightarrow> bool" where
  "js_digit c \<longleftrightarrow> 0x30 \<le> c \<and> c \<le> 0x39"

definition js_exp :: "bytes \<Rightarrow> bool" where
  "js_exp r \<longleftrightarrow>
     (case r of [] \<Rightarrow> True
      | c # r \<Rightarrow>
          c \<in> {0x45, 0x65} \<and>
          (let r = (if r \<noteq> [] \<and> hd r \<in> {0x2b, 0x2d} then tl r else r) in r \<noteq> [] \<and> list_all js_digit r))"

definition js_frac :: "bytes \<Rightarrow> bool" where
  "js_frac r \<longleftrightarrow>
     (case r of [] \<Rightarrow> True
      | c # r' \<Rightarrow> if c = 0x2e then takeWhile js_digit r' \<noteq> [] \<and> js_exp (dropWhile js_digit r') else js_exp r)"

definition js_num_char :: "u8 \<Rightarrow> bool" where
  "js_num_char c \<longleftrightarrow> js_digit c \<or> c \<in> {0x2b, 0x2d, 0x2e, 0x45, 0x65}"

definition js_is_number :: "bytes \<Rightarrow> bool" where
  "js_is_number s \<longleftrightarrow>
     list_all js_num_char s \<and>
     (let s = (if s \<noteq> [] \<and> hd s = 0x2d then tl s else s); i = takeWhile js_digit s
      in i \<noteq> [] \<and> (hd i = 0x30 \<longrightarrow> length i = 1) \<and> js_frac (dropWhile js_digit s))"

definition js_hex :: "u8 \<Rightarrow> nat option" where
  "js_hex c =
     (if js_digit c then Some (unat c - 0x30)
      else if 0x41 \<le> c \<and> c \<le> 0x46 then Some (unat c - 0x41 + 10)
      else if 0x61 \<le> c \<and> c \<le> 0x66 then Some (unat c - 0x61 + 10)
      else None)"

definition js_code :: "bytes \<Rightarrow> nat option" where
  "js_code h =
     (if length h = 4 \<and> list_all (\<lambda>c. js_hex c \<noteq> None) h
      then Some (foldl (\<lambda>a c. a * 16 + the (js_hex c)) 0 h) else None)"

definition js_unescape :: "u8 \<Rightarrow> u8 option" where
  "js_unescape e =
     (if e \<in> {0x22, 0x5c, 0x2f} then Some e
      else if e = 0x62 then Some 8 else if e = 0x66 then Some 12 else if e = 0x6e then Some 10
      else if e = 0x72 then Some 13 else if e = 0x74 then Some 9 else None)"

text \<open>The characters of a string, after the opening quote, and the text after the closing one.\<close>

function js_string :: "bytes \<Rightarrow> (bytes \<times> bytes) option" where
  "js_string s =
     (case s of
        [] \<Rightarrow> None
      | c # r \<Rightarrow>
          if c = 0x22 then Some ([], r)
          else if c < 0x20 then None
          else if c \<noteq> 0x5c then map_option (\<lambda>(x, t). (c # x, t)) (js_string r)
          else (case r of
                  [] \<Rightarrow> None
                | e # r \<Rightarrow>
                    if e = 0x75
                    then (case js_code (take 4 r) of
                            None \<Rightarrow> None
                          | Some k \<Rightarrow>
                              if k < 128 then map_option (\<lambda>(x, t). (of_nat k # x, t)) (js_string (drop 4 r)) else None)
                    else (case js_unescape e of
                            None \<Rightarrow> None
                          | Some u \<Rightarrow> map_option (\<lambda>(x, t). (u # x, t)) (js_string r))))"
  by pat_completeness auto

termination
  by (relation "measure length") auto

declare js_string.simps [simp del]

fun js_value :: "nat \<Rightarrow> bytes \<Rightarrow> (json \<times> bytes) option"
  and js_elems :: "nat \<Rightarrow> bytes \<Rightarrow> (json list \<times> bytes) option"
  and js_members :: "nat \<Rightarrow> bytes \<Rightarrow> ((bytes \<times> json) list \<times> bytes) option"
where
  "js_value 0 s = None"
| "js_value (Suc n) s =
     (case s of
        [] \<Rightarrow> None
      | c # r \<Rightarrow>
          if c = 0x22 then map_option (\<lambda>(x, t). (Js_str x, t)) (js_string r)
          else if c = 0x5b
          then (if r \<noteq> [] \<and> hd r = 0x5d then Some (Js_arr [], tl r)
                else map_option (\<lambda>(vs, t). (Js_arr vs, t)) (js_elems n r))
          else if c = 0x7b
          then (if r \<noteq> [] \<and> hd r = 0x7d then Some (Js_obj [], tl r)
                else map_option (\<lambda>(ms, t). (Js_obj ms, t)) (js_members n r))
          else if take 4 s = [0x6e, 0x75, 0x6c, 0x6c] then Some (Js_null, drop 4 s)
          else if take 4 s = [0x74, 0x72, 0x75, 0x65] then Some (Js_bool True, drop 4 s)
          else if take 5 s = [0x66, 0x61, 0x6c, 0x73, 0x65] then Some (Js_bool False, drop 5 s)
          else (let t = takeWhile js_num_char s in
                if js_is_number t then Some (Js_num t, dropWhile js_num_char s) else None))"
| "js_elems 0 s = None"
| "js_elems (Suc n) s =
     (case js_value n s of
        None \<Rightarrow> None
      | Some (v, t) \<Rightarrow>
          if t = [] then None
          else if hd t = 0x2c then map_option (\<lambda>(vs, u). (v # vs, u)) (js_elems n (tl t))
          else if hd t = 0x5d then Some ([v], tl t)
          else None)"
| "js_members 0 s = None"
| "js_members (Suc n) s =
     (if s = [] \<or> hd s \<noteq> 0x22 then None
      else (case js_string (tl s) of
              None \<Rightarrow> None
            | Some (k, t) \<Rightarrow>
                if t = [] \<or> hd t \<noteq> 0x3a then None
                else (case js_value n (tl t) of
                        None \<Rightarrow> None
                      | Some (v, u) \<Rightarrow>
                          if u = [] then None
                          else if hd u = 0x2c then map_option (\<lambda>(ms, w). ((k, v) # ms, w)) (js_members n (tl u))
                          else if hd u = 0x7d then Some ([(k, v)], tl u)
                          else None)))"

declare js_value.simps [simp del] js_elems.simps [simp del] js_members.simps [simp del]

section \<open>The tree of a document\<close>

fun js_tree :: "(c_type \<Rightarrow> int \<Rightarrow> bytes) \<Rightarrow> (bytes \<Rightarrow> bytes) \<Rightarrow> jdoc \<Rightarrow> json"
  and js_trees :: "(c_type \<Rightarrow> int \<Rightarrow> bytes) \<Rightarrow> (bytes \<Rightarrow> bytes) \<Rightarrow> jdoc list \<Rightarrow> json list"
  and js_fields :: "(c_type \<Rightarrow> int \<Rightarrow> bytes) \<Rightarrow> (bytes \<Rightarrow> bytes) \<Rightarrow> jfld list \<Rightarrow> (bytes \<times> json) list"
  and js_map_fields :: "(c_type \<Rightarrow> int \<Rightarrow> bytes) \<Rightarrow> (bytes \<Rightarrow> bytes) \<Rightarrow> (jkey \<times> jdoc) list \<Rightarrow> (bytes \<times> json) list"
where
  "js_tree fp b64 (Jd_arith T v) =
     (if T = C_bool then Js_bool (v \<noteq> 0) else if c_fp T then Js_num (fp T v) else Js_num (int_chars 10 v))"
| "js_tree fp b64 (Jd_str s) = Js_str s"
| "js_tree fp b64 (Jd_noescape s) = Js_str s"
| "js_tree fp b64 (Jd_binary s) = Js_str (b64 s)"
| "js_tree fp b64 Jd_null = Js_null"
| "js_tree fp b64 (Jd_optional None) = Js_null"
| "js_tree fp b64 (Jd_optional (Some d)) = js_tree fp b64 d"
| "js_tree fp b64 (Jd_variant nullable None) = Js_null"
| "js_tree fp b64 (Jd_variant nullable (Some d)) = js_tree fp b64 d"
| "js_tree fp b64 (Jd_range ds) = Js_arr (js_trees fp b64 ds)"
| "js_tree fp b64 (Jd_tuple m ds) = Js_arr (if m \<noteq> 0 then take m (js_trees fp b64 ds) else js_trees fp b64 ds)"
| "js_tree fp b64 (Jd_arr ds) = Js_arr (js_trees fp b64 ds)"
| "js_tree fp b64 (Jd_obj fs) = Js_obj (js_fields fp b64 fs)"
| "js_tree fp b64 (Jd_map kvs) = Js_obj (js_map_fields fp b64 kvs)"
| "js_trees fp b64 [] = []"
| "js_trees fp b64 (d # ds) = js_tree fp b64 d # js_trees fp b64 ds"
| "js_fields fp b64 [] = []"
| "js_fields fp b64 (Jf_val k d # fs) = (json_key_str fp k, js_tree fp b64 d) # js_fields fp b64 fs"
| "js_fields fp b64 (Jf_opt k None # fs) = js_fields fp b64 fs"
| "js_fields fp b64 (Jf_opt k (Some d) # fs) = (json_key_str fp k, js_tree fp b64 d) # js_fields fp b64 fs"
| "js_fields fp b64 (Jf_keyed nullable k None # fs) = js_fields fp b64 fs"
| "js_fields fp b64 (Jf_keyed nullable k (Some d) # fs) = (json_key_str fp k, js_tree fp b64 d) # js_fields fp b64 fs"
| "js_fields fp b64 (Jf_nested nfs # fs) = js_fields fp b64 nfs @ js_fields fp b64 fs"
| "js_map_fields fp b64 [] = []"
| "js_map_fields fp b64 ((k, d) # kvs) = (json_key_str fp k, js_tree fp b64 d) # js_map_fields fp b64 kvs"

text \<open>
  What the writer leaves to its caller: text that is written without escaping needs none, and a floating
  point value has a decimal representation (a NaN or an infinity has not).
\<close>

definition js_plain :: "bytes \<Rightarrow> bool" where
  "js_plain s \<longleftrightarrow> list_all (\<lambda>c. 0x20 \<le> c \<and> c \<noteq> 0x22 \<and> c \<noteq> 0x5c) s"

fun js_clean :: "(c_type \<Rightarrow> int \<Rightarrow> bytes) \<Rightarrow> (bytes \<Rightarrow> bytes) \<Rightarrow> bool \<Rightarrow> jdoc \<Rightarrow> bool"
  and js_clean_elms :: "(c_type \<Rightarrow> int \<Rightarrow> bytes) \<Rightarrow> (bytes \<Rightarrow> bytes) \<Rightarrow> bool \<Rightarrow> jdoc list \<Rightarrow> bool"
  and js_clean_flds :: "(c_type \<Rightarrow> int \<Rightarrow> bytes) \<Rightarrow> (bytes \<Rightarrow> bytes) \<Rightarrow> bool \<Rightarrow> jfld list \<Rightarrow> bool"
  and js_clean_map :: "(c_type \<Rightarrow> int \<Rightarrow> bytes) \<Rightarrow> (bytes \<Rightarrow> bytes) \<Rightarrow> bool \<Rightarrow> (jkey \<times> jdoc) list \<Rightarrow> bool"
where
  "js_clean fp b64 ek (Jd_arith T v) \<longleftrightarrow> (T \<noteq> C_bool \<and> c_fp T \<longrightarrow> js_is_number (fp T v))"
| "js_clean fp b64 ek (Jd_str s) \<longleftrightarrow> True"
| "js_clean fp b64 ek (Jd_noescape s) \<longleftrightarrow> js_plain s"
| "js_clean fp b64 ek (Jd_binary s) \<longleftrightarrow> js_plain (b64 s)"
| "js_clean fp b64 ek Jd_null \<longleftrightarrow> True"
| "js_clean fp b64 ek (Jd_optional None) \<longleftrightarrow> True"
| "js_clean fp b64 ek (Jd_optional (Some d)) \<longleftrightarrow> js_clean fp b64 ek d"
| "js_clean fp b64 ek (Jd_variant nullable None) \<longleftrightarrow> True"
| "js_clean fp b64 ek (Jd_variant nullable (Some d)) \<longleftrightarrow> js_clean fp b64 ek d"
| "js_clean fp b64 ek (Jd_range ds) \<longleftrightarrow> js_clean_elms fp b64 ek ds"
| "js_clean fp b64 ek (Jd_tuple m ds) \<longleftrightarrow> js_clean_elms fp b64 ek ds"
| "js_clean fp b64 ek (Jd_arr ds) \<longleftrightarrow> js_clean_elms fp b64 ek ds"
| "js_clean fp b64 ek (Jd_obj fs) \<longleftrightarrow> js_clean_flds fp b64 ek fs"
| "js_clean fp b64 ek (Jd_map kvs) \<longleftrightarrow> js_clean_map fp b64 ek kvs"
| "js_clean_elms fp b64 ek [] \<longleftrightarrow> True"
| "js_clean_elms fp b64 ek (d # ds) \<longleftrightarrow> js_clean fp b64 ek d \<and> js_clean_elms fp b64 ek ds"
| "js_clean_flds fp b64 ek [] \<longleftrightarrow> True"
| "js_clean_flds fp b64 ek (Jf_val k d # fs) \<longleftrightarrow>
     (ek \<or> js_plain (json_key_str fp k)) \<and> js_clean fp b64 ek d \<and> js_clean_flds fp b64 ek fs"
| "js_clean_flds fp b64 ek (Jf_opt k None # fs) \<longleftrightarrow> js_clean_flds fp b64 ek fs"
| "js_clean_flds fp b64 ek (Jf_opt k (Some d) # fs) \<longleftrightarrow>
     (ek \<or> js_plain (json_key_str fp k)) \<and> js_clean fp b64 ek d \<and> js_clean_flds fp b64 ek fs"
| "js_clean_flds fp b64 ek (Jf_keyed nullable k None # fs) \<longleftrightarrow> js_clean_flds fp b64 ek fs"
| "js_clean_flds fp b64 ek (Jf_keyed nullable k (Some d) # fs) \<longleftrightarrow>
     (ek \<or> js_plain (json_key_str fp k)) \<and> js_clean fp b64 ek d \<and> js_clean_flds fp b64 ek fs"
| "js_clean_flds fp b64 ek (Jf_nested nfs # fs) \<longleftrightarrow> js_clean_flds fp b64 ek nfs \<and> js_clean_flds fp b64 ek fs"
| "js_clean_map fp b64 ek [] \<longleftrightarrow> True"
| "js_clean_map fp b64 ek ((k, d) # kvs) \<longleftrightarrow>
     (ek \<or> js_plain (json_key_str fp k)) \<and> js_clean fp b64 ek d \<and> js_clean_map fp b64 ek kvs"

section \<open>Strings\<close>

lemma js_string_simps:
  "js_string (0x22 # r) = Some ([], r)"
  "0x20 \<le> c \<Longrightarrow> c \<noteq> 0x22 \<Longrightarrow> c \<noteq> 0x5c \<Longrightarrow> js_string (c # r) = map_option (\<lambda>(x, t). (c # x, t)) (js_string r)"
  "e \<noteq> 0x75 \<Longrightarrow> js_unescape e = Some u \<Longrightarrow> js_string (0x5c # e # r) = map_option (\<lambda>(x, t). (u # x, t)) (js_string r)"
  "js_code [a, b, c, d] = Some k \<Longrightarrow> k < 128 \<Longrightarrow>
   js_string (0x5c # 0x75 # a # b # c # d # r) = map_option (\<lambda>(x, t). (of_nat k # x, t)) (js_string r)"
  by (subst js_string.simps; simp add: not_less [symmetric])+

lemma js_plain_string: "js_plain s \<Longrightarrow> js_string (s @ 0x22 # rest) = Some (s, rest)"
  by (induction s) (auto simp: js_plain_def js_string_simps)

lemma escape_table:
  "map (\<lambda>ec. ec) jstr_escape_table =
   map (\<lambda>n. if n = 8 then 0x62 else if n = 9 then 0x74 else if n = 10 then 0x6e else if n = 12 then 0x66
            else if n = 13 then 0x72 else if n < 0x20 then 0x75 else if n = 0x22 then 0x22
            else if n = 0x5c then 0x5c else 0) [0..<256]"
  by code_simp

lemma hex_table: "map js_hex hex_digits = map Some [0..<16]"
  by code_simp

lemma js_hex_digit:
  assumes "k < 16"
  shows "js_hex (hex_digits ! k) = Some k"
proof -
  have "length hex_digits = 16"
    by (simp add: hex_digits_def)
  then have "js_hex (hex_digits ! k) = map js_hex hex_digits ! k"
    using assms by simp
  also have "\<dots> = Some k"
    unfolding hex_table using assms by simp
  finally show ?thesis .
qed

lemma u8_nibbles: "unat (drop_bit 4 (c :: u8)) = unat c div 16" "unat (c AND 0xF) = unat c mod 16"
proof -
  show "unat (drop_bit 4 c) = unat c div 16"
    by (simp add: drop_bit_eq_div unat_div)
  have "c AND 0xF = take_bit 4 c"
    by (simp add: take_bit_eq_mask mask_eq_exp_minus_1)
  then show "unat (c AND 0xF) = unat c mod 16"
    by (simp add: take_bit_eq_mod unat_mod)
qed

lemma js_code_hex:
  assumes "unat (c :: u8) < 128"
  shows "js_code [0x30, 0x30, hex_digits ! unat (drop_bit 4 c), hex_digits ! unat (c AND 0xF)] = Some (unat c)"
proof -
  have "js_hex 0x30 = Some 0"
    by (simp add: js_hex_def js_digit_def)
  then show ?thesis
    using assms js_hex_digit [of "unat c div 16"] js_hex_digit [of "unat c mod 16"]
    by (simp add: js_code_def u8_nibbles)
qed

text \<open>Reading undoes escaping, one character at a time.\<close>

lemma js_string_escape_char: "js_string (jstr_escape_char c @ r) = map_option (\<lambda>(x, t). (c # x, t)) (js_string r)"
proof -
  note t = table_nth [OF escape_table, of c]
  consider "unat c \<in> {8, 9, 10, 12, 13}" | "unat c \<notin> {8, 9, 10, 12, 13}" "unat c < 0x20" | "unat c \<in> {0x22, 0x5c}"
    | "0x20 \<le> unat c" "unat c \<notin> {0x22, 0x5c}"
    by force
  then show ?thesis
  proof cases
    case 1
    then have "c \<in> {8, 9, 10, 12, 13}"
      by (auto simp: word_unat_eq_iff)
    then show ?thesis
      using t by (auto simp: jstr_escape_char_def js_string_simps(3) js_unescape_def)
  next
    case 2
    then have e: "jstr_escape_table ! unat c = 0x75"
      using t by simp
    have "js_string (jstr_escape_char c @ r) = map_option (\<lambda>(x, t). (of_nat (unat c) # x, t)) (js_string r)"
      using js_string_simps(4) [OF js_code_hex [of c], of r] 2 by (simp add: jstr_escape_char_def e)
    then show ?thesis by simp
  next
    case 3
    then have "c \<in> {0x22, 0x5c}"
      by (auto simp: word_unat_eq_iff)
    then show ?thesis
      using t by (auto simp: jstr_escape_char_def js_string_simps(3) js_unescape_def)
  next
    case 4
    then have "0x20 \<le> c" "c \<noteq> 0x22" "c \<noteq> 0x5c"
      by (auto simp: word_unat_eq_iff word_le_nat_alt)
    then show ?thesis
      using t 4 by (simp add: jstr_escape_char_def js_string_simps(2))
  qed
qed

lemma js_string_escape: "js_string (jstr_escape_loop s @ 0x22 # rest) = Some (s, rest)"
  by (induction s) (simp_all add: js_string_simps(1) js_string_escape_char)

section \<open>Numbers\<close>

lemma digit_in_10: "digit_in 10 c \<longleftrightarrow> js_digit c"
  by (auto simp: digit_in_def char_digit_def js_digit_def word_le_nat_alt)

lemma nat_chars_no_zero: "0 < n \<Longrightarrow> hd (nat_chars 10 n) \<noteq> 0x30"
proof (induction n rule: less_induct)
  case (less n)
  show ?case
  proof (cases "n < 10")
    case True
    then have "unat (digit_char n) = 0x30 + n"
      using u8_of_nat [of "0x30 + n"] by (simp add: digit_char_def del: of_nat_add)
    moreover have "unat (0x30 :: u8) = 0x30"
      by simp
    ultimately show ?thesis
      using less.prems True by (metis nat_chars.simps list.sel(1) less_add_same_cancel1 less_irrefl)
  next
    case False
    then show ?thesis
      using less.IH [of "n div 10"] nat_chars_value [of 10 "n div 10"]
      by (simp add: nat_chars.simps [of 10 n])
  qed
qed

lemma nat_chars_number: "js_is_number (nat_chars 10 n) \<and> (js_is_number (0x2d # nat_chars 10 n))"
proof -
  have d: "list_all js_digit (nat_chars 10 n)" "nat_chars 10 n \<noteq> []"
    using nat_chars_value [of 10 n] by (auto simp: digit_in_10 [abs_def] list_all_iff digit_in_10)
  then have t: "takeWhile js_digit (nat_chars 10 n) = nat_chars 10 n" "dropWhile js_digit (nat_chars 10 n) = []"
    by (auto simp: list_all_iff)
  have c: "list_all js_num_char (nat_chars 10 n)"
    using d(1) by (auto simp: list_all_iff js_num_char_def)
  have z: "hd (nat_chars 10 n) = 0x30 \<longrightarrow> length (nat_chars 10 n) = 1"
    using nat_chars_no_zero [of n] by (cases "n = 0") (auto simp: nat_chars.simps [of 10 0])
  have m: "hd (nat_chars 10 n) \<noteq> 0x2d"
    using d by (cases "nat_chars 10 n") (auto simp: js_digit_def)
  show ?thesis
    using z d(2) by (simp add: js_is_number_def js_frac_def js_num_char_def c t m)
qed

lemma int_chars_number: "js_is_number (int_chars 10 v)"
  using nat_chars_number by (simp add: int_chars_def)

section \<open>Values\<close>

definition js_ends :: "bytes \<Rightarrow> bool" where
  "js_ends rest \<longleftrightarrow> rest = [] \<or> \<not> js_num_char (hd rest)"

text \<open>\<open>x\<close> is a text of the value \<open>t\<close>: read from it with fuel for its length, whatever follows.\<close>

definition js_reads :: "bytes \<Rightarrow> json \<Rightarrow> bool" where
  "js_reads x t \<longleftrightarrow> (\<forall>n rest. length x \<le> n \<longrightarrow> js_ends rest \<longrightarrow> js_value n (x @ rest) = Some (t, rest))"

lemma js_readsD: "js_reads x t \<Longrightarrow> length x \<le> n \<Longrightarrow> js_ends rest \<Longrightarrow> js_value n (x @ rest) = Some (t, rest)"
  by (simp add: js_reads_def)

lemma js_value_Suc: "(\<And>n rest. x \<noteq> [] \<Longrightarrow> length x \<le> Suc n \<Longrightarrow> js_ends rest \<Longrightarrow> js_value (Suc n) (x @ rest) = Some (t, rest)) \<Longrightarrow>
    x \<noteq> [] \<Longrightarrow> js_reads x t"
  unfolding js_reads_def by (metis length_0_conv le_zero_eq not0_implies_Suc)

lemma js_reads_start: "js_reads x t \<Longrightarrow> x \<noteq> [] \<and> hd x \<noteq> 0x5d"
proof
  assume r: "js_reads x t"
  then have v: "js_value (Suc (length x)) x = Some (t, [])"
    using js_readsD [OF r, of "Suc (length x)" "[]"] by (simp add: js_ends_def)
  then show x: "x \<noteq> []"
    by (auto simp: js_value.simps)
  show "hd x \<noteq> 0x5d"
  proof
    assume "hd x = 0x5d"
    then obtain y where "x = 0x5d # y"
      using x by (cases x) auto
    then show False
      using v by (simp add: js_value.simps js_is_number_def js_num_char_def js_digit_def)
  qed
qed

lemma js_reads_null: "js_reads [0x6e, 0x75, 0x6c, 0x6c] Js_null"
  by (rule js_value_Suc) (simp_all add: js_value.simps)

lemma js_reads_bool: "js_reads (stringify_bool b) (Js_bool b)"
  by (rule js_value_Suc) (simp_all add: js_value.simps stringify_bool_def)

lemma js_reads_str: "js_string (y @ 0x22 # []) = Some (s, []) \<Longrightarrow> (\<And>rest. js_string (y @ 0x22 # rest) = Some (s, rest)) \<Longrightarrow>
    js_reads ([0x22] @ y @ [0x22]) (Js_str s)"
  by (rule js_value_Suc) (simp_all add: js_value.simps)

lemma js_reads_number:
  assumes "js_is_number x"
  shows "js_reads x (Js_num x)"
proof (rule js_value_Suc)
  have c: "list_all js_num_char x"
    using assms by (simp add: js_is_number_def)
  show "x \<noteq> []"
    using assms by (auto simp: js_is_number_def)
  then obtain a y where x: "x = a # y" by (cases x) auto
  have a: "a \<notin> {0x22, 0x5b, 0x7b, 0x6e, 0x74, 0x66}"
    using c x by (auto simp: js_num_char_def js_digit_def)
  show "js_value (Suc n) (x @ rest) = Some (Js_num x, rest)" if "js_ends rest" for n rest
  proof -
    have "takeWhile js_num_char (x @ rest) = x" "dropWhile js_num_char (x @ rest) = rest"
      using c that by (cases rest; auto simp: js_ends_def list_all_iff takeWhile_append dropWhile_append)+
    then show ?thesis
      using a assms by (simp add: js_value.simps x)
  qed
qed

lemma js_ends_simps [simp]: "js_ends (0x2c # r)" "js_ends (0x5d # r)" "js_ends (0x7d # r)"
  by (simp_all add: js_ends_def js_num_char_def js_digit_def)

lemma js_elems_join:
  "list_all2 js_reads xs ts \<Longrightarrow> xs \<noteq> [] \<Longrightarrow> length (json_join xs) < n \<Longrightarrow>
   js_elems n (json_join xs @ 0x5d # rest) = Some (ts, rest)"
proof (induction xs arbitrary: ts n rule: json_join.induct)
  case (2 x)
  then obtain t m where "ts = [t]" "js_reads x t" "n = Suc m"
    by (cases n) (auto simp: list_all2_Cons1)
  then show ?case
    using 2 js_readsD [of x t m "0x5d # rest"] by (simp add: js_elems.simps)
next
  case (3 x y xs)
  then obtain t ts' m where e: "ts = t # ts'" "js_reads x t" "list_all2 js_reads (y # xs) ts'" "n = Suc m"
    by (cases n) (auto simp: list_all2_Cons1)
  have "js_value m (x @ 0x2c # json_join (y # xs) @ 0x5d # rest) = Some (t, 0x2c # json_join (y # xs) @ 0x5d # rest)"
    using 3(4) e by (intro js_readsD) auto
  moreover have "js_elems m (json_join (y # xs) @ 0x5d # rest) = Some (ts', rest)"
    using 3 e by (intro "3.IH") auto
  ultimately show ?case
    by (simp add: e js_elems.simps)
qed simp

lemma js_reads_arr:
  assumes "list_all2 js_reads xs ts"
  shows "js_reads ([0x5b] @ json_join xs @ [0x5d]) (Js_arr ts)"
proof (rule js_value_Suc)
  fix n rest
  assume n: "length ([0x5b] @ json_join xs @ [0x5d]) \<le> Suc n"
  show "js_value (Suc n) (([0x5b] @ json_join xs @ [0x5d]) @ rest) = Some (Js_arr ts, rest)"
  proof (cases xs)
    case Nil
    then show ?thesis using assms by (simp add: js_value.simps)
  next
    case (Cons x ys)
    then have "js_reads x (hd ts)"
      using assms by (auto simp: list_all2_Cons1)
    then have "json_join xs \<noteq> [] \<and> hd (json_join xs) \<noteq> 0x5d"
      using js_reads_start Cons by (cases ys) auto
    moreover have "js_elems n (json_join xs @ 0x5d # rest) = Some (ts, rest)"
      using n Cons by (intro js_elems_join assms) auto
    ultimately show ?thesis
      by (cases "json_join xs") (auto simp: js_value.simps)
  qed
qed simp

text \<open>A field: the quoted key, a colon and the value.\<close>

definition js_reads_fld :: "bytes \<Rightarrow> bytes \<times> json \<Rightarrow> bool" where
  "js_reads_fld f kt \<longleftrightarrow>
     (\<exists>y x. f = [0x22] @ y @ [0x22] @ [0x3a] @ x \<and> (\<forall>r. js_string (y @ 0x22 # r) = Some (fst kt, r)) \<and> js_reads x (snd kt))"

lemma js_members_join:
  "list_all2 js_reads_fld xs ts \<Longrightarrow> xs \<noteq> [] \<Longrightarrow> length (json_join xs) < n \<Longrightarrow>
   js_members n (json_join xs @ 0x7d # rest) = Some (ts, rest)"
proof (induction xs arbitrary: ts n rule: json_join.induct)
  case (2 f)
  then obtain k t m where e: "ts = [(k, t)]" "js_reads_fld f (k, t)" "n = Suc m"
    by (cases n) (auto simp: list_all2_Cons1)
  then obtain y x where f: "f = [0x22] @ y @ [0x22] @ [0x3a] @ x" "\<And>r. js_string (y @ 0x22 # r) = Some (k, r)" "js_reads x t"
    by (auto simp: js_reads_fld_def)
  have "js_value m (x @ 0x7d # rest) = Some (t, 0x7d # rest)"
    using 2(3) e f by (intro js_readsD) auto
  then show ?case
    by (simp add: e f(1,2) js_members.simps)
next
  case (3 f g xs)
  then obtain k t ts' m where e: "ts = (k, t) # ts'" "js_reads_fld f (k, t)" "list_all2 js_reads_fld (g # xs) ts'" "n = Suc m"
    by (cases n) (auto simp: list_all2_Cons1)
  then obtain y x where f: "f = [0x22] @ y @ [0x22] @ [0x3a] @ x" "\<And>r. js_string (y @ 0x22 # r) = Some (k, r)" "js_reads x t"
    by (auto simp: js_reads_fld_def)
  have "js_value m (x @ 0x2c # json_join (g # xs) @ 0x7d # rest) = Some (t, 0x2c # json_join (g # xs) @ 0x7d # rest)"
    using 3(4) e f by (intro js_readsD) auto
  moreover have "js_members m (json_join (g # xs) @ 0x7d # rest) = Some (ts', rest)"
    using 3 e by (intro "3.IH") auto
  ultimately show ?case
    by (simp add: e f(1,2) js_members.simps)
qed simp

lemma js_reads_obj:
  assumes "list_all2 js_reads_fld xs ts"
  shows "js_reads ([0x7b] @ json_join xs @ [0x7d]) (Js_obj ts)"
proof (rule js_value_Suc)
  fix n rest
  assume n: "length ([0x7b] @ json_join xs @ [0x7d]) \<le> Suc n"
  show "js_value (Suc n) (([0x7b] @ json_join xs @ [0x7d]) @ rest) = Some (Js_obj ts, rest)"
  proof (cases xs)
    case Nil
    then show ?thesis using assms by (simp add: js_value.simps)
  next
    case (Cons f ys)
    then have "js_reads_fld f (hd ts)"
      using assms by (auto simp: list_all2_Cons1)
    then have "json_join xs \<noteq> [] \<and> hd (json_join xs) \<noteq> 0x7d"
      using Cons by (cases ys) (auto simp: js_reads_fld_def)
    moreover have "js_members n (json_join xs @ 0x7d # rest) = Some (ts, rest)"
      using n Cons by (intro js_members_join assms) auto
    ultimately show ?thesis
      by (cases "json_join xs") (auto simp: js_value.simps)
  qed
qed simp

section \<open>Documents\<close>

lemma json_encoder_simps [simp]:
  "je_null (json_encoder fp b64 ek) = [0x6e, 0x75, 0x6c, 0x6c]"
  "je_arith (json_encoder fp b64 ek) T v =
     (if T = C_bool then stringify_bool (v \<noteq> 0) else if c_fp T then fp T v else int_chars 10 v)"
  "je_str (json_encoder fp b64 ek) s = escaped_jstr s"
  "je_noescape (json_encoder fp b64 ek) s = [0x22] @ s @ [0x22]"
  "je_binary (json_encoder fp b64 ek) s = [0x22] @ b64 s @ [0x22]"
  "je_arr (json_encoder fp b64 ek) xs = [0x5b] @ json_join xs @ [0x5d]"
  "je_obj (json_encoder fp b64 ek) n c xs = [0x7b] @ json_join xs @ [0x7d]"
  by (simp_all add: json_encoder_def)

lemma js_reads_plain: "js_plain s \<Longrightarrow> js_reads ([0x22] @ s @ [0x22]) (Js_str s)"
  by (rule js_reads_str) (simp_all add: js_plain_string)

lemma js_reads_escaped: "js_reads (escaped_jstr s) (Js_str s)"
  unfolding escaped_jstr_def by (rule js_reads_str) (simp_all add: js_string_escape)

lemma js_reads_field:
  assumes "ek \<or> js_plain (json_key_str fp k)" and "js_reads x t"
  shows "js_reads_fld (je_fld (json_encoder fp b64 ek) k x) (json_key_str fp k, t)"
proof (cases ek)
  case True
  show ?thesis
    unfolding js_reads_fld_def
    by (rule exI [of _ "jstr_escape_loop (json_key_str fp k)"], rule exI [of _ x])
      (simp add: True assms(2) js_string_escape json_encoder_def escaped_jstr_def)
next
  case False
  show ?thesis
    unfolding js_reads_fld_def
    by (rule exI [of _ "json_key_str fp k"], rule exI [of _ x])
      (use assms False in \<open>simp add: js_plain_string json_encoder_def\<close>)
qed

lemma js_reads_doc:
  "js_clean fp b64 ek d \<Longrightarrow> js_reads (jenc (json_encoder fp b64 ek) d) (js_tree fp b64 d)"
  "js_clean_elms fp b64 ek ds \<Longrightarrow> list_all2 js_reads (jenc_elms (json_encoder fp b64 ek) ds) (js_trees fp b64 ds)"
  "js_clean_flds fp b64 ek fs \<Longrightarrow> list_all2 js_reads_fld (jenc_flds (json_encoder fp b64 ek) fs) (js_fields fp b64 fs)"
  "js_clean_map fp b64 ek kvs \<Longrightarrow> list_all2 js_reads_fld (jenc_map (json_encoder fp b64 ek) kvs) (js_map_fields fp b64 kvs)"
proof (induction fp b64 d and fp b64 ds and fp b64 fs and fp b64 kvs rule: js_tree_js_trees_js_fields_js_map_fields.induct)
  case (1 fp b64 T v)
  then show ?case
    by (simp add: js_reads_bool js_reads_number int_chars_number)
next
  case (11 fp b64 m ds)
  then show ?case
    using js_reads_arr [of "take m (jenc_elms (json_encoder fp b64 ek) ds)" "take m (js_trees fp b64 ds)"]
      js_reads_arr [of "jenc_elms (json_encoder fp b64 ek) ds" "js_trees fp b64 ds"]
    by (simp add: list_all2_takeI)
qed (use js_reads_arr js_reads_obj in \<open>simp_all add: js_reads_null js_reads_plain [simplified] js_reads_escaped js_reads_field list_all2_appendI\<close>)

text \<open>
  C21: What the JSON writer writes is JSON, and says what the document says: for every document whose
  numbers can be printed, whose unescaped strings and keys need no escaping and whose floating point values
  are finite, the writer appends a text to the buffer from which the reference reader gets the tree of the
  document, to the last byte: strings with every escape undone, fields that are absent left out, nested
  objects merged, and no comma too many.
\<close>

theorem json_roundtrip:
  assumes "jdoc_ok (json_encoder fp b64 escape_key) d" and "js_clean fp b64 escape_key d"
  shows "\<exists>t. write_json fp b64 escape_key d b = Some (b @ t) \<and>
    js_value (length t) t = Some (js_tree fp b64 d, [])"
proof (intro exI conjI)
  let ?t = "jenc (json_encoder fp b64 escape_key) d"
  show "write_json fp b64 escape_key d b = Some (b @ ?t)"
    using json.write_appends [OF assms(1)] by (simp add: write_json_def jwrite_def)
  show "js_value (length ?t) ?t = Some (js_tree fp b64 d, [])"
    using js_readsD [OF js_reads_doc(1) [OF assms(2)], of "length ?t" "[]"] by (simp add: js_ends_def)
qed

theorem json_roundtrip_witness:
  "\<exists>t. write_json (\<lambda>_ _. []) (\<lambda>s. s) False
      (Jd_obj [Jf_val (Jk_str [0x61]) (Jd_range [Jd_arith C_int32 (- 7), Jd_str [0x22, 0x0a]]),
               Jf_keyed True (Jk_str [0x62]) None]) [0x20] = Some ([0x20] @ t) \<and>
    js_value (length t) t = Some (Js_obj [([0x61], Js_arr [Js_num [0x2d, 0x37], Js_str [0x22, 0x0a]])], [])"
  using json_roundtrip [of "\<lambda>_ _. []" "\<lambda>s. s" False
      "Jd_obj [Jf_val (Jk_str [0x61]) (Jd_range [Jd_arith C_int32 (- 7), Jd_str [0x22, 0x0a]]),
               Jf_keyed True (Jk_str [0x62]) None]" "[0x20]"]
  by (simp add: json_encoder_def json_key_text_def json_key_str_def stringify_int_def std_to_chars_def
      stringify_integer_max_bytes_def fs_set_end_def int_chars_def nat_chars.simps digit_char_def js_plain_def c_fp_def)

end
