(* ===== verification/Jser_Msgpack.thy ===== *)
theory Jser_Msgpack
  imports Jser_Spec Msgpack_Props
begin

text \<open>
  The MessagePack writer as an instance of \<open>jwriter\<close> (the part of \<open>include/dsk/jser/msgpack/writer.hpp\<close> that
  \<open>jser/write.hpp\<close> calls), and what a whole document written through it is to the reader: one value, if the
  counts of its maps are right.
\<close>

section \<open>The instance\<close>

definition jkey_uint_t :: "int \<Rightarrow> c_type" where
  "jkey_uint_t i = (if i \<le> 255 then C_uint8 else if i \<le> 65535 then C_uint16 else if i \<le> 4294967295 then C_uint32 else C_uint64)"

definition jkey_uint_or_as_is :: "jkey \<Rightarrow> mp_key" where
  "jkey_uint_or_as_is k =
     (case k of Jk_str s \<Rightarrow> Key_str s | Jk_both i s \<Rightarrow> Key_arith (jkey_uint_t i) i | Jk_arith T v \<Rightarrow> Key_arith T v)"

definition msgpack_obj_scope :: "endian_codec \<Rightarrow> nat \<Rightarrow> (bytes \<Rightarrow> (nat \<times> bytes) option) \<Rightarrow> jop" where
  "msgpack_obj_scope E max_cnt f b =
     (case f (b @ replicate (if max_cnt < 16 then 1 else if max_cnt < 65536 then 3 else 5) 0) of
        None \<Rightarrow> None
      | Some r \<Rightarrow> mpw_obj_scope E max_cnt (\<lambda>_. r) b)"

definition msgpack_writer :: "endian_codec \<Rightarrow> jwriter" where
  "msgpack_writer E =
     \<lparr>jw_null = (\<lambda>b. Some (mpw_nil b)),
      jw_arithmetic = (\<lambda>T v b. Some (mpw_arithmetic E T v b)),
      jw_str = (\<lambda>s b. Some (mpw_str E s b)),
      jw_str_noescape = (\<lambda>s b. Some (mpw_str E s b)),
      jw_binary = (\<lambda>s b. Some (mpw_bin E s b)),
      jw_arr_scope = (\<lambda>n f b. f (mpw_begin_arr E (int n mod 2 ^ 32) b)),
      jw_elm_scope = (\<lambda>ef. ef),
      jw_obj_scope = msgpack_obj_scope E,
      jw_fld_scope = (\<lambda>k vf b. vf (mpw_fld_scope E (jkey_uint_or_as_is k) (\<lambda>b. b) b)),
      jw_delimiter = None\<rparr>"

section \<open>What it writes\<close>

definition mp_arith_enc :: "endian_codec \<Rightarrow> c_type \<Rightarrow> int \<Rightarrow> bytes" where
  "mp_arith_enc E T v =
     (if T = C_bool then mpw_bool (v \<noteq> 0) []
      else if T = C_float then mp_header E msgpack_float v
      else if T = C_double then mp_header E msgpack_double v
      else mp_int_enc E v)"

definition mp_key_enc :: "endian_codec \<Rightarrow> jkey \<Rightarrow> bytes" where
  "mp_key_enc E k =
     (case jkey_uint_or_as_is k of
        Key_str s \<Rightarrow> str_header E (int (length s)) @ s
      | Key_arith T v \<Rightarrow> mp_arith_enc E T v)"

definition mp_obj_header :: "endian_codec \<Rightarrow> nat \<Rightarrow> nat \<Rightarrow> bytes" where
  "mp_obj_header E n c =
     (if n < 16 then [to_byte (0x80 OR int c)]
      else if n < 65536 then mp_header E msgpack_map16 (int c)
      else mp_header E msgpack_map32 (int c))"

text \<open>Fewer than \<open>2 ^ 31\<close> fields, which is what \<open>skip\<close> can count.\<close>

definition mp_encoder :: "endian_codec \<Rightarrow> jencoder" where
  "mp_encoder E =
     \<lparr>je_null = mpw_nil [],
      je_arith = mp_arith_enc E,
      je_str = (\<lambda>s. str_header E (int (length s)) @ s),
      je_noescape = (\<lambda>s. str_header E (int (length s)) @ s),
      je_binary = (\<lambda>s. bin_header E (int (length s)) @ s),
      je_arr = (\<lambda>xs. arr_header E (int (length xs)) @ concat xs),
      je_obj = (\<lambda>n c xs. mp_obj_header E n c @ concat xs),
      je_fld = (\<lambda>k x. mp_key_enc E k @ x),
      je_sep = [],
      jok_arith = c_in,
      jok_str = (\<lambda>s. length s < 2 ^ 32), jok_binary = (\<lambda>s. length s < 2 ^ 32),
      jok_key = (\<lambda>k. case jkey_uint_or_as_is k of Key_str s \<Rightarrow> length s < 2 ^ 32 | Key_arith T v \<Rightarrow> c_in T v),
      jok_len = (\<lambda>n. n < 2 ^ 32), jok_cnt = (\<lambda>n c. endian_ok E \<and> c \<le> n \<and> n < 2 ^ 31)\<rparr>"

lemma mp_encoder_simps [simp]:
  "je_null (mp_encoder E) = mpw_nil []"
  "je_arith (mp_encoder E) T v = mp_arith_enc E T v"
  "je_str (mp_encoder E) s = str_header E (int (length s)) @ s"
  "je_noescape (mp_encoder E) s = str_header E (int (length s)) @ s"
  "je_binary (mp_encoder E) s = bin_header E (int (length s)) @ s"
  "je_arr (mp_encoder E) xs = arr_header E (int (length xs)) @ concat xs"
  "je_obj (mp_encoder E) n c xs = mp_obj_header E n c @ concat xs"
  "je_fld (mp_encoder E) k x = mp_key_enc E k @ x"
  "jok_arith (mp_encoder E) T v = c_in T v"
  "jok_str (mp_encoder E) s = (length s < 2 ^ 32)"
  "jok_binary (mp_encoder E) s = (length s < 2 ^ 32)"
  "jok_key (mp_encoder E) k =
     (case jkey_uint_or_as_is k of Key_str s \<Rightarrow> length s < 2 ^ 32 | Key_arith T v \<Rightarrow> c_in T v)"
  "jok_len (mp_encoder E) n = (n < 2 ^ 32)"
  "jok_cnt (mp_encoder E) n c \<longleftrightarrow> endian_ok E \<and> c \<le> n \<and> n < 2 ^ 31"
  by (simp_all add: mp_encoder_def)

lemma mp_seq [simp]: "je_seq (mp_encoder E) xs = concat xs"
  by (simp add: je_seq_def mp_encoder_def)

lemma mpw_arithmetic_enc:
  assumes "c_in T v"
  shows "mpw_arithmetic E T v b = b @ mp_arith_enc E T v"
proof (cases "c_integral T")
  case True
  then show ?thesis
    using mpw_arithmetic_int [OF True assms, of E b] by (cases T) (simp_all add: mp_arith_enc_def c_integral_def)
next
  case False
  then show ?thesis
    by (cases T) (simp_all add: mp_arith_enc_def c_integral_def mpw_bool_def write_lsb_def mpw_float_def
        mpw_double_def mp_write_header)
qed

lemma mpw_key_enc:
  assumes "jok_key (mp_encoder E) k"
  shows "mpw_fld_scope E (jkey_uint_or_as_is k) (\<lambda>b. b) b = b @ mp_key_enc E k"
  using assms by (cases "jkey_uint_or_as_is k") (simp_all add: mpw_fld_scope_def mp_key_enc_def mpw_str_append mpw_arithmetic_enc)

lemma mp_obj_header_length: "endian_ok E \<Longrightarrow> length (mp_obj_header E n c) = (if n < 16 then 1 else if n < 65536 then 3 else 5)"
  by (simp add: mp_obj_header_def mp_header_length fmt_defs)

lemma msgpack_obj_scope_eq:
  assumes "endian_ok E" and "\<And>b. g b = Some (c, b @ x)" and "c \<le> n"
  shows "msgpack_obj_scope E n g b = Some (b @ mp_obj_header E n c @ x)"
proof -
  let ?k = "if n < 16 then 1 else if n < 65536 then 3 else 5 :: nat"
  have "mpw_obj_scope E n (\<lambda>_. (c, (b @ replicate ?k 0) @ x)) b =
      Some (overwrite (length b) (mp_obj_header E n c) (b @ replicate ?k 0 @ x))"
    using assms(3) by (simp add: mpw_obj_scope_def mp_obj_header_def Let_def)
  also have "\<dots> = Some (b @ mp_obj_header E n c @ x)"
    by (simp add: overwrite_def mp_obj_header_length [OF assms(1)])
  finally show ?thesis
    by (simp add: msgpack_obj_scope_def assms(2))
qed

interpretation msgpack: jser_writer "msgpack_writer E" "mp_encoder E" for E
proof
  let ?w = "msgpack_writer E" and ?J = "mp_encoder E"
  show "jappends (jw_null ?w) (je_null ?J)"
    by (simp add: jappends_def msgpack_writer_def mpw_nil_def write_lsb_def)
  show "jok_arith ?J T v \<Longrightarrow> jappends (jw_arithmetic ?w T v) (je_arith ?J T v)" for T v
    by (simp add: jappends_def msgpack_writer_def mpw_arithmetic_enc)
  show "jappends (jw_str ?w s) (je_str ?J s)" "jappends (jw_str_noescape ?w s) (je_noescape ?J s)"
    "jappends (jw_binary ?w s) (je_binary ?J s)" for s
    by (simp_all add: jappends_def msgpack_writer_def mpw_str_append mpw_bin_append)
  show "jappends f x \<Longrightarrow> jappends (jw_elm_scope ?w f) (x @ je_sep ?J)" for f x
    by (simp add: msgpack_writer_def mp_encoder_def)
  show "jappends f (je_seq ?J xs) \<Longrightarrow> jok_len ?J (length xs) \<Longrightarrow> jappends (jw_arr_scope ?w (length xs) f) (je_arr ?J xs)" for f xs
    by (simp add: jappends_def msgpack_writer_def mpw_begin_arr_append)
  show "jappends f x \<Longrightarrow> jok_key ?J k \<Longrightarrow> jappends (jw_fld_scope ?w k f) (je_fld ?J k x @ je_sep ?J)" for f x k
    using mpw_key_enc [of E k] by (simp add: jappends_def msgpack_writer_def) (simp add: mp_encoder_def)
  show "jappends (jw_obj_scope ?w n g) (je_obj ?J n c xs)"
    if "\<And>b. g b = Some (c, b @ je_seq ?J xs)" and "jok_cnt ?J n c" for g n c xs
    using msgpack_obj_scope_eq [of E g c "concat xs" n] that by (simp add: jappends_def msgpack_writer_def)
qed

section \<open>Skipping a document\<close>

text \<open>A document in which no field is absent whose definition takes the key.\<close>

fun jall_present :: "jdoc \<Rightarrow> bool"
  and jall_present_elms :: "jdoc list \<Rightarrow> bool"
  and jall_present_flds :: "jfld list \<Rightarrow> bool"
  and jall_present_map :: "(jkey \<times> jdoc) list \<Rightarrow> bool"
where
  "jall_present (Jd_optional (Some d)) \<longleftrightarrow> jall_present d"
| "jall_present (Jd_variant nullable (Some d)) \<longleftrightarrow> jall_present d"
| "jall_present (Jd_range ds) \<longleftrightarrow> jall_present_elms ds"
| "jall_present (Jd_tuple m ds) \<longleftrightarrow> jall_present_elms ds"
| "jall_present (Jd_arr ds) \<longleftrightarrow> jall_present_elms ds"
| "jall_present (Jd_obj fs) \<longleftrightarrow> jall_present_flds fs"
| "jall_present (Jd_map kvs) \<longleftrightarrow> jall_present_map kvs"
| "jall_present _ \<longleftrightarrow> True"
| "jall_present_elms [] \<longleftrightarrow> True"
| "jall_present_elms (d # ds) \<longleftrightarrow> jall_present d \<and> jall_present_elms ds"
| "jall_present_flds [] \<longleftrightarrow> True"
| "jall_present_flds (Jf_val k d # fs) \<longleftrightarrow> jall_present d \<and> jall_present_flds fs"
| "jall_present_flds (Jf_opt k None # fs) \<longleftrightarrow> jall_present_flds fs"
| "jall_present_flds (Jf_opt k (Some d) # fs) \<longleftrightarrow> jall_present d \<and> jall_present_flds fs"
| "jall_present_flds (Jf_keyed nullable k None # fs) \<longleftrightarrow> False"
| "jall_present_flds (Jf_keyed nullable k (Some d) # fs) \<longleftrightarrow> jall_present d \<and> jall_present_flds fs"
| "jall_present_flds (Jf_nested nfs # fs) \<longleftrightarrow> jall_present_flds nfs \<and> jall_present_flds fs"
| "jall_present_map [] \<longleftrightarrow> True"
| "jall_present_map ((k, d) # kvs) \<longleftrightarrow> jall_present d \<and> jall_present_map kvs"

text \<open>Encodings that \<open>skip\<close> takes for \<open>k\<close> values each.\<close>

definition skips_each :: "endian_codec \<Rightarrow> nat \<Rightarrow> bytes list \<Rightarrow> bool" where
  "skips_each E k xs \<longleftrightarrow> list_all (\<lambda>x. skips E x k \<and> k \<le> length x) xs"

lemma skips_each_concat: "skips_each E k xs \<Longrightarrow> skips E (concat xs) (length xs * k) \<and> length xs * k \<le> length (concat xs)"
  using skips_concat [of xs E "\<lambda>x. x" k] by (simp add: skips_each_def list_all_iff)

lemma skips_pos: "skips E x 1 \<Longrightarrow> x \<noteq> [] \<Longrightarrow> skips_each E 1 [x]"
  by (simp add: skips_each_def Suc_le_eq)

lemma skips_arith_enc:
  assumes "endian_ok E"
  shows "skips E (mp_arith_enc E T v) 1"
proof -
  have "skips E (mp_header E msgpack_float v) 1" "skips E (mp_header E msgpack_double v) 1"
    by (rule skips_fixed [OF assms]; simp add: skip_item_simps)+
  moreover have "skips E (mpw_bool x []) 1" for x
    using skips_tag [of "if x then msgpack_true else msgpack_false" E]
    by (simp add: mpw_bool_def write_lsb_def skip_item_simps)
  ultimately show ?thesis
    using skips_int [OF assms] by (simp add: mp_arith_enc_def)
qed

lemma mp_arith_enc_pos: "1 \<le> length (mp_arith_enc E T v)"
  by (simp add: mp_arith_enc_def mpw_bool_def write_lsb_def mp_header_def mp_int_enc_def)

lemma str_header_pos: "1 \<le> length (str_header E n)" "1 \<le> length (bin_header E n)" "1 \<le> length (arr_header E n)"
  "1 \<le> length (mp_obj_header E m c)"
  by (simp_all add: str_header_def bin_header_def arr_header_def mpw_begin_arr_def write_lsb_def mp_write_header
      mp_header_def mp_obj_header_def)

lemma skips_key: "endian_ok E \<Longrightarrow> jok_key (mp_encoder E) k \<Longrightarrow> skips E (mp_key_enc E k) 1 \<and> 1 \<le> length (mp_key_enc E k)"
  using skips_str [of E] skips_arith_enc mp_arith_enc_pos str_header_pos(1)
  by (cases "jkey_uint_or_as_is k") (simp_all add: mp_key_enc_def trans_le_add1)

lemma skips_obj:
  assumes "endian_ok E" and "c \<le> n" "n < 2 ^ 31" and cs: "skips E cs (c * 2)" "c * 2 \<le> length cs"
  shows "skips E (mp_obj_header E n c @ cs) 1"
proof (cases "n < 16")
  case True
  then have n: "0 \<le> int c" "int c < 16" using assms(2) by simp_all
  have "skips E ((to_byte (128 + int c) # []) @ cs) 1"
    by (rule skips_node)
      (use n fixmap_bits [OF n] reads_return [of "(0, c)"] reads_return [of "(0, c * 2)"] cs in \<open>auto simp: skip_item_simps\<close>)
  then show ?thesis
    using True fixmap_bits [OF n] by (simp add: mp_obj_header_def)
next
  case False
  have "skips E (mp_header E msgpack_map16 (int c) @ cs) 1" if "n < 65536"
    by (rule skips_counted [OF assms(1), where g = "\<lambda>n. n * 2"])
      (use cs that assms(2) in \<open>auto simp: skip_item_simps c_in_def c_range_def\<close>)
  moreover have "skips E (mp_header E msgpack_map32 (int c) @ cs) 1"
    by (rule skips_counted [OF assms(1), where g = "\<lambda>n. (n * 2) mod 2 ^ 32"])
      (use cs assms(2,3) in \<open>auto simp: skip_item_simps c_in_def c_range_def\<close>)
  ultimately show ?thesis
    using False by (simp add: mp_obj_header_def)
qed

lemma skips_each_Cons: "skips_each E k (x # xs) \<longleftrightarrow> skips E x k \<and> k \<le> length x \<and> skips_each E k xs"
  by (simp add: skips_each_def)

lemma skips_each_Nil [simp]: "skips_each E k []"
  by (simp add: skips_each_def)

lemma skips_each_append: "skips_each E k (xs @ ys) \<longleftrightarrow> skips_each E k xs \<and> skips_each E k ys"
  by (simp add: skips_each_def)

lemma skips_each_take: "skips_each E k xs \<Longrightarrow> skips_each E k (take m xs)"
  by (auto simp: skips_each_def list_all_iff dest: in_set_takeD)

lemma skips_fld:
  assumes "endian_ok E" "jok_key (mp_encoder E) k" and "skips E x 1" "1 \<le> length x"
  shows "skips E (mp_key_enc E k @ x) 2 \<and> 2 \<le> length (mp_key_enc E k @ x)"
  using skips_key [OF assms(1,2)] skips_append [of E "mp_key_enc E k" 1 x 1] assms(3,4)
  by (simp add: numeral_2_eq_2)

lemma skips_arr_enc:
  assumes "endian_ok E" and "skips_each E 1 xs" and "length xs < 2 ^ 32"
  shows "skips E (arr_header E (int (length xs)) @ concat xs) 1"
  using skips_arr [OF assms(1,3), of "concat xs"] skips_each_concat [OF assms(2)] by simp

lemma skips_nil: "skips E (mpw_nil []) (Suc 0)" "Suc 0 \<le> length (mpw_nil [])"
  using skips_tag [of msgpack_nil E] by (simp_all add: mpw_nil_def write_lsb_def skip_item_simps)

lemma skips_doc:
  "J = mp_encoder E \<Longrightarrow> endian_ok E \<Longrightarrow> jdoc_ok J d \<Longrightarrow> jall_present d \<Longrightarrow>
    skips E (jenc J d) 1 \<and> 1 \<le> length (jenc J d)"
  "J = mp_encoder E \<Longrightarrow> endian_ok E \<Longrightarrow> jelms_ok J ds \<Longrightarrow> jall_present_elms ds \<Longrightarrow>
    skips_each E 1 (jenc_elms J ds)"
  "J = mp_encoder E \<Longrightarrow> endian_ok E \<Longrightarrow> jflds_ok J fs \<Longrightarrow> jall_present_flds fs \<Longrightarrow>
    skips_each E 2 (jenc_flds J fs) \<and> length (jenc_flds J fs) = jcount fs"
  "J = mp_encoder E \<Longrightarrow> endian_ok E \<Longrightarrow> jmap_ok J kvs \<Longrightarrow> jall_present_map kvs \<Longrightarrow>
    skips_each E 2 (jenc_map J kvs) \<and> length (jenc_map J kvs) = length kvs"
proof (induction J d and J ds and J fs and J kvs rule: jenc_jenc_elms_jenc_flds_jenc_map.induct)
  case (1 J T v)
  then show ?case using skips_arith_enc [of E T v] mp_arith_enc_pos [of E T v] by simp
next
  case (2 J s)
  then show ?case using str_header_pos(1) skips_str [of E s] by (simp add: trans_le_add1)
next
  case (3 J s)
  then show ?case using str_header_pos(1) skips_str [of E s] by (simp add: trans_le_add1)
next
  case (4 J s)
  then show ?case using str_header_pos(2) skips_bin [of E s] by (simp add: trans_le_add1)
next
  case (10 J ds)
  then show ?case
    using skips_arr_enc [of E "jenc_elms J ds"] str_header_pos(3) by (simp add: msgpack.jenc_elms_length trans_le_add1)
next
  case (11 J m ds)
  then have e: "skips_each E 1 (jenc_elms J ds)"
    by (cases "m = 0") simp_all
  show ?case
    using skips_arr_enc [OF 11(4) e] skips_arr_enc [OF 11(4) skips_each_take [OF e, of m]] 11(3,5) str_header_pos(3)
    by (simp add: msgpack.jenc_elms_length trans_le_add1 min_absorb2 split: if_splits)
next
  case (12 J ds)
  then show ?case
    using skips_arr_enc [of E "jenc_elms J ds"] str_header_pos(3) by (simp add: msgpack.jenc_elms_length trans_le_add1)
next
  case (13 J fs)
  then have "skips_each E 2 (jenc_flds J fs)" "length (jenc_flds J fs) = jcount fs"
    by simp_all
  then show ?case
    using skips_obj [of E "jcount fs" "length fs" "concat (jenc_flds J fs)"] skips_each_concat [of E 2 "jenc_flds J fs"]
      13 str_header_pos(4) by (simp add: trans_le_add1)
next
  case (14 J kvs)
  then have "skips_each E 2 (jenc_map J kvs)" "length (jenc_map J kvs) = length kvs"
    by simp_all
  then show ?case
    using skips_obj [of E "length kvs" "length kvs" "concat (jenc_map J kvs)"] skips_each_concat [of E 2 "jenc_map J kvs"]
      14 str_header_pos(4) by (simp add: trans_le_add1)
qed (simp_all add: skips_each_Cons skips_each_append skips_fld [simplified] skips_nil)

section \<open>Properties\<close>

text \<open>
  C23: A document serialised with the MessagePack writer is exactly one value to the reader: whatever its
  nesting, \<open>skip\<close> moves from its first to its last byte and leaves the rest of its count for what follows.
  This needs every field of the document to be within the limits of the format, objects not to have more
  fields than announced, and every field whose definition takes the key to be present.
\<close>

theorem jser_msgpack_is_one_value:
  assumes "endian_ok E" and "jdoc_ok (mp_encoder E) d" and "jall_present d"
  shows "\<exists>x. write_jval (msgpack_writer E) d b = Some (b @ x) \<and>
    (\<forall>s rest cnt. mv_at s (x @ rest) \<and> cnt + length x < 2 ^ 64 \<longrightarrow>
      mp_skip E (cnt + 1) s = mp_skip E cnt (mv_advance (length x) s))"
proof (intro exI conjI allI impI)
  let ?x = "jenc (mp_encoder E) d"
  show "write_jval (msgpack_writer E) d b = Some (b @ ?x)"
    by (rule msgpack.write_appends [OF assms(2)])
  have k: "skips E ?x 1"
    using skips_doc(1) [OF refl assms] by simp
  show "mp_skip E (cnt + 1) s = mp_skip E cnt (mv_advance (length ?x) s)"
    if "mv_at s (?x @ rest) \<and> cnt + length ?x < 2 ^ 64" for s rest cnt
    using that by (intro skipsD [OF k]) auto
qed

theorem jser_msgpack_is_one_value_witness:
  "\<exists>x. write_jval (msgpack_writer big_endian)
      (Jd_obj [Jf_val (Jk_both 3 [0x61]) (Jd_range [Jd_arith C_int32 (- 7), Jd_str [0x22]]), Jf_opt (Jk_str [0x62]) None]) [] =
      Some ([] @ x) \<and>
    (\<forall>s rest cnt. mv_at s (x @ rest) \<and> cnt + length x < 2 ^ 64 \<longrightarrow>
      mp_skip big_endian (cnt + 1) s = mp_skip big_endian cnt (mv_advance (length x) s))"
  by (rule jser_msgpack_is_one_value [OF big_endian_ok])
    (simp_all add: big_endian_ok jkey_uint_or_as_is_def jkey_uint_t_def c_in_cases)

text \<open>
  What goes wrong otherwise: a field whose definition takes the key counts even when it is absent, so the
  header of the map announces a field that is not there, and the reader takes what follows for it. An
  object with a nested object of more than one field has more fields than announced, and the assertion
  of \<open>obj_scope\<close> fails; the JSON writer writes both.
\<close>

lemma jser_absent_field_is_counted:
  "write_jval (msgpack_writer E) (Jd_obj [Jf_keyed True (Jk_str [0x61]) None]) b = Some (b @ [0x81])"
proof -
  have "to_byte (128 OR 1) = (0x81 :: u8)"
    using fixmap_bits(1) [of 1] by (simp add: to_byte_def)
  then show ?thesis
    by (simp add: msgpack_writer_def msgpack_obj_scope_def mpw_obj_scope_def jop_count_def overwrite_def)
qed

lemma jser_nested_object_overruns_count:
  "write_jval (msgpack_writer E)
     (Jd_obj [Jf_nested [Jf_val (Jk_str [0x61]) Jd_null, Jf_val (Jk_str [0x62]) Jd_null]]) b = None"
  by (simp add: msgpack_writer_def msgpack_obj_scope_def mpw_obj_scope_def mpw_fld_scope_def jkey_uint_or_as_is_def jop_count_def)

end
