(* ===== verification/Jser_Read.thy ===== *)
theory Jser_Read
  imports Jser_Msgpack
begin

text \<open>
  Reading of structured data, \<open>include/dsk/jser/read.hpp\<close> with the reading half of \<open>dsl.hpp\<close> and \<open>cpo.hpp\<close>,
  through the MessagePack reader. A definition of the DSL is, once the compiler has resolved it for the type
  of the data, a \<open>jdef\<close>: it has a constructor for each way a value is read. What reading leaves in the data
  is the document that the same definition would write from it (\<open>jdoc\<close>, \<open>jfld\<close> of \<open>Jser_Write\<close>), so that
  reading and writing can be compared. The data before is that of a default constructed object.
\<close>

section \<open>Definitions\<close>

text \<open>
  \<open>Df_skip\<close> is a target of type \<open>nullptr\<close>; \<open>Df_fixed k\<close> a range of \<open>k\<close> elements, \<open>Df_range\<close> one that grows;
  \<open>Df_tuple\<close> and \<open>Df_arr\<close> have the definitions of the elements that are read, and whether the number must be
  exact; \<open>Df_check\<close>, \<open>Df_exam\<close> and \<open>Df_conv\<close> the callback of the user, in its form with a bool. The fields:
  one that has to be there; a range of scalars, cleared when it is not (with the document of the empty
  range); an optional or variant that is accessed directly; one whose definition takes the absence
  (\<open>joptional\<close>, and \<open>jvariant_s\<close> if \<open>nullable\<close>); a nested object.
\<close>

datatype jdef =
    Df_arith c_type | Df_str | Df_noescape | Df_binary | Df_skip
  | Df_optional jdef | Df_variant bool "jdef list"
  | Df_range jdef | Df_fixed nat jdef | Df_tuple bool nat "jdef list" | Df_arr bool "jdef list"
  | Df_obj "jfdef list" | Df_map key_kind jdef
  | Df_check "jdoc \<Rightarrow> bool" jdef | Df_exam "jdoc \<Rightarrow> bool" jdef | Df_conv "jdoc \<Rightarrow> jdoc option" jdef
and jfdef =
    Fd_val jkey jdef | Fd_cleared jkey jdoc jdef | Fd_opt jkey jdef | Fd_keyed bool jkey jdef
  | Fd_nested "jfdef list"

definition jfail :: "jerrc \<Rightarrow> 'a mp" where
  "jfail e s = (Inl (Mp_jerr e), s)"

text \<open>The type by which \<open>get_jval_matched_type\<close> knows an alternative.\<close>

fun alt_type :: "jdef \<Rightarrow> jtype" where
  "alt_type (Df_arith T) = J_arith T"
| "alt_type Df_str = J_str"
| "alt_type Df_noescape = J_str"
| "alt_type Df_binary = J_str"
| "alt_type (Df_obj fs) = J_obj"
| "alt_type (Df_map kk d) = J_obj"
| "alt_type (Df_check P d) = alt_type d"
| "alt_type (Df_exam P d) = alt_type d"
| "alt_type (Df_conv g d) = alt_type d"
| "alt_type Df_skip = J_null"
| "alt_type (Df_optional d) = alt_type d"
| "alt_type (Df_variant nullable ds) = J_null"
| "alt_type (Df_range d) = J_arr"
| "alt_type (Df_fixed k d) = J_arr"
| "alt_type (Df_tuple exact m ds) = J_arr"
| "alt_type (Df_arr exact ds) = J_arr"

section \<open>Scalars\<close>

text \<open>The conversion of a float to a double, on their patterns.\<close>

fun floor_log2 :: "nat \<Rightarrow> nat" where
  "floor_log2 n = (if n < 2 then 0 else Suc (floor_log2 (n div 2)))"

declare floor_log2.simps [simp del]

definition float_to_double :: "int \<Rightarrow> int" where
  "float_to_double b =
     (let sign = b div 2 ^ 31 * 2 ^ 63; e = b div 2 ^ 23 mod 256; m = b mod 2 ^ 23 in
      if e = 255 then sign + 2047 * 2 ^ 52 + m * 2 ^ 29
      else if e \<noteq> 0 then sign + (e + 896) * 2 ^ 52 + m * 2 ^ 29
      else if m = 0 then sign
      else (let k = floor_log2 (nat m) in sign + (int k + 874) * 2 ^ 52 + (m - 2 ^ k) * 2 ^ (52 - k)))"

fun arith_value :: "mp_arith \<Rightarrow> int" where
  "arith_value (A_bool b) = of_bool b"
| "arith_value (A_float v) = v"
| "arith_value (A_double (Of_double v)) = v"
| "arith_value (A_double (Of_float v)) = float_to_double v"
| "arith_value (A_int v) = v"

section \<open>Arrays\<close>

text \<open>The loop that appends one element after the other.\<close>

fun read_elms :: "jdoc mp \<Rightarrow> nat \<Rightarrow> jdoc list mp" where
  "read_elms r 0 = mp_return []"
| "read_elms r (Suc n) = mp_bind r (\<lambda>x. mp_bind (read_elms r n) (\<lambda>xs. mp_return (x # xs)))"

text \<open>
  The loop over the elements of a range of fixed size, and over the definitions of a tuple
  (\<open>read_elm_from_jarr_iter\<close>), each of which has its reader; with what the iterator has left.
\<close>

fun read_from_iter :: "jdoc mp list \<Rightarrow> nat \<Rightarrow> (jdoc list \<times> nat) mp" where
  "read_from_iter [] n = mp_return ([], n)"
| "read_from_iter (r # rs) n =
     (if iter_bool n
      then mp_bind r (\<lambda>x. mp_bind (read_from_iter rs (iter_next n)) (\<lambda>(xs, n). mp_return (x # xs, n)))
      else jfail jerrc_out_of_bound)"

definition read_jarr_fixed :: "endian_codec \<Rightarrow> jdoc mp list \<Rightarrow> jdoc list mp" where
  "read_jarr_fixed E rs =
     mp_bind (mp_arr_iter E) (\<lambda>n. mp_bind (read_from_iter rs n) (\<lambda>(xs, n).
       mp_bind (iter_skip_remains E n) (\<lambda>_. mp_return xs)))"

definition read_jtuple :: "endian_codec \<Rightarrow> bool \<Rightarrow> jdoc mp list \<Rightarrow> jdoc list mp" where
  "read_jtuple E exact rs =
     mp_bind (mp_arr_iter E) (\<lambda>n. mp_bind (read_from_iter rs n) (\<lambda>(xs, n).
       if exact \<and> iter_bool n then jfail jerrc_invalid_elm_cnt
       else mp_bind (iter_skip_remains E n) (\<lambda>_. mp_return xs)))"

section \<open>Objects\<close>

text \<open>
  The fields of a definition with their readers: the key, what the data holds when the field is absent
  (\<open>None\<close> when it must not be), how the value is kept, the reader. A nested object reads from the iterator
  of the object around it.
\<close>

datatype jentry =
    En_fld jkey "jfld option" "jdoc \<Rightarrow> jfld" "jdoc mp"
  | En_nested "loop_iterator \<Rightarrow> (jfld list \<times> loop_iterator) mp"

type_synonym jfld_reader = "jkey \<times> jfld option \<times> (jdoc \<Rightarrow> jfld) \<times> jdoc mp"

fun entry_flds :: "jentry list \<Rightarrow> jfld_reader list" where
  "entry_flds [] = []"
| "entry_flds (En_fld k z w r # es) = (k, z, w, r) # entry_flds es"
| "entry_flds (En_nested r # es) = entry_flds es"

fun entry_nested :: "jentry list \<Rightarrow> (loop_iterator \<Rightarrow> (jfld list \<times> loop_iterator) mp) list" where
  "entry_nested [] = []"
| "entry_nested (En_fld k z w r # es) = entry_nested es"
| "entry_nested (En_nested r # es) = r # entry_nested es"

definition jkey_uint_or_str :: "jkey \<Rightarrow> mp_key" where
  "jkey_uint_or_str k =
     (case k of Jk_str s \<Rightarrow> Key_str s | Jk_both i s \<Rightarrow> Key_arith C_uint32 i | Jk_arith T v \<Rightarrow> Key_arith C_uint32 v)"

definition keys_kind :: "jkey list \<Rightarrow> key_kind" where
  "keys_kind ks = (case ks of Jk_str s # _ \<Rightarrow> Kind_str | _ \<Rightarrow> Kind_uint C_uint32)"

text \<open>What is left in the data for fields that were found or not; the count of those not found goes down for each that may be absent.\<close>

fun fill_flds :: "jfld_reader list \<Rightarrow> jdoc option list \<Rightarrow> nat \<Rightarrow> jfld list \<times> nat" where
  "fill_flds ((k, z, w, r) # rs) (Some x # a) u = (let (fs, u) = fill_flds rs a u in (w x # fs, u))"
| "fill_flds ((k, Some f, w, r) # rs) (None # a) u = (let (fs, u) = fill_flds rs a (u - 1) in (f # fs, u))"
| "fill_flds ((k, None, w, r) # rs) (None # a) u = fill_flds rs a u"
| "fill_flds rs a u = ([], u)"

fun read_nested :: "(loop_iterator \<Rightarrow> (jfld list \<times> loop_iterator) mp) list \<Rightarrow> loop_iterator \<Rightarrow>
    (jfld list list \<times> loop_iterator) mp" where
  "read_nested [] it = mp_return ([], it)"
| "read_nested (r # rs) it =
     mp_bind (r it) (\<lambda>(x, it). mp_bind (read_nested rs it) (\<lambda>(xs, it). mp_return (x # xs, it)))"

text \<open>The fields in the order of their definitions.\<close>

fun weave :: "jentry list \<Rightarrow> jfld list \<Rightarrow> jfld list list \<Rightarrow> jfld list" where
  "weave (En_fld k z w r # es) (f # fs) ns = f # weave es fs ns"
| "weave (En_nested r # es) fs (n # ns) = Jf_nested n # weave es fs ns"
| "weave es fs ns = []"

definition found_flds ::
  "endian_codec \<Rightarrow> jfld_reader list \<Rightarrow> loop_iterator \<Rightarrow> msgpack_value \<Rightarrow>
   (mp_fault + nat) \<times> loop_iterator \<times> matched_keys \<times> jdoc option list \<times> msgpack_value" where
  "found_flds E rs it s =
     (if rs = [] then (Inr 0, it, [], [], s)
      else foreach_found_jval E (keys_kind (map fst rs))
             (\<lambda>I a. mp_bind (snd (snd (snd (rs ! I)))) (\<lambda>x. mp_return (a[I := Some x])))
             it (map (\<lambda>(k, _). (False, jkey_uint_or_str k)) rs) (replicate (length rs) None) s)"

definition read_jobj :: "endian_codec \<Rightarrow> jentry list \<Rightarrow> loop_iterator \<Rightarrow> (jfld list \<times> loop_iterator) mp" where
  "read_jobj E es it s =
     (case found_flds E (entry_flds es) it s of
        (Inl e, it, mks, a, s) \<Rightarrow> (Inl e, s)
      | (Inr unmatched, it, mks, a, s) \<Rightarrow>
          (let (fs, unmatched) = fill_flds (entry_flds es) a unmatched
           in if unmatched \<noteq> 0 then jfail jerrc_field_not_found s
              else mp_bind (read_nested (entry_nested es) it) (\<lambda>(ns, it).
                     mp_bind (loop_skip_remains E it) (\<lambda>_. mp_return (weave es fs ns, it))) s))"

section \<open>Values\<close>

fun keep_opt :: "jkey \<Rightarrow> jdoc \<Rightarrow> jfld" where
  "keep_opt k (Jd_optional od) = Jf_opt k od"
| "keep_opt k (Jd_variant nullable od) = Jf_opt k od"
| "keep_opt k x = Jf_val k x"

fun keep_keyed :: "bool \<Rightarrow> jkey \<Rightarrow> jdoc \<Rightarrow> jfld" where
  "keep_keyed nullable k (Jd_optional od) = Jf_keyed nullable k od"
| "keep_keyed nullable k (Jd_variant nullable' od) = Jf_keyed nullable k od"
| "keep_keyed nullable k x = Jf_val k x"

fun key_of :: "mp_key \<Rightarrow> jkey" where
  "key_of (Key_str s) = Jk_str s"
| "key_of (Key_arith T v) = Jk_arith T v"

text \<open>The handler of \<open>jmap_obj\<close>: the key must be new.\<close>

definition read_mapped :: "jdoc mp \<Rightarrow> (jkey \<times> jdoc) list jfld_handler" where
  "read_mapped r k kvs =
     mp_bind r (\<lambda>x. if key_of k \<in> set (map fst kvs) then jfail jerrc_duplicated_key
                    else mp_return (kvs @ [(key_of k, x)]))"

definition read_jmap_obj :: "endian_codec \<Rightarrow> key_kind \<Rightarrow> jdoc mp \<Rightarrow> jdoc mp" where
  "read_jmap_obj E kk r =
     mp_bind (mp_map_iter E) (\<lambda>n.
       mp_bind (foreach_jfld E kk (read_mapped r) n []) (\<lambda>kvs. mp_return (Jd_map kvs)))"

text \<open>The definitions that wrap another one, over its reader.\<close>

definition read_joptional :: "endian_codec \<Rightarrow> jdoc mp \<Rightarrow> jdoc mp" where
  "read_joptional E r =
     mp_bind (mp_check_nil E) (\<lambda>null.
       if \<not> null then mp_bind r (\<lambda>x. mp_return (Jd_optional (Some x))) else mp_return (Jd_optional None))"

definition read_jcheck :: "(jdoc \<Rightarrow> bool) \<Rightarrow> jdoc mp \<Rightarrow> jdoc mp" where
  "read_jcheck P r = mp_bind r (\<lambda>x. if P x then mp_return x else jfail jerrc_user_check_failed)"

definition read_jexam :: "(jdoc \<Rightarrow> bool) \<Rightarrow> jdoc mp \<Rightarrow> jdoc mp" where
  "read_jexam P r = mp_bind r (\<lambda>x. if P x then mp_return x else jfail jerrc_user_exam_failed)"

definition read_jconv :: "(jdoc \<Rightarrow> jdoc option) \<Rightarrow> jdoc mp \<Rightarrow> jdoc mp" where
  "read_jconv from r =
     mp_bind r (\<lambda>x. case from x of Some y \<Rightarrow> mp_return y | None \<Rightarrow> jfail jerrc_user_conv_failed)"

fun read_jval :: "endian_codec \<Rightarrow> jdef \<Rightarrow> jdoc mp"
  and read_alt :: "endian_codec \<Rightarrow> jdef list \<Rightarrow> nat \<Rightarrow> jdoc mp"
  and jreaders :: "endian_codec \<Rightarrow> jdef list \<Rightarrow> jdoc mp list"
  and jentries :: "endian_codec \<Rightarrow> jfdef list \<Rightarrow> jentry list"
where
  "read_jval E (Df_arith T) = mp_bind (mp_arithmetic E T) (\<lambda>a. mp_return (Jd_arith T (arith_value a)))"
| "read_jval E Df_str = mp_bind (mp_get_str E) (\<lambda>x. mp_return (Jd_str x))"
| "read_jval E Df_noescape = mp_bind (mp_get_str E) (\<lambda>x. mp_return (Jd_noescape x))"
| "read_jval E Df_binary = mp_bind (mp_get_bin E) (\<lambda>x. mp_return (Jd_binary x))"
| "read_jval E Df_skip = mp_return Jd_null"
| "read_jval E (Df_optional d) = read_joptional E (read_jval E d)"
| "read_jval E (Df_variant nullable ds) =
     mp_bind (get_jval_matched_type (J_null # map alt_type ds)) (\<lambda>i.
       case i of
         0 \<Rightarrow> if nullable then mp_return (Jd_variant nullable None) else jfail jerrc_non_nullable_field
       | Suc i \<Rightarrow> mp_bind (read_alt E ds i) (\<lambda>x. mp_return (Jd_variant nullable (Some x))))"
| "read_jval E (Df_range d) =
     mp_bind (mp_arr_iter E) (\<lambda>n. mp_bind (read_elms (read_jval E d) n) (\<lambda>xs. mp_return (Jd_range xs)))"
| "read_jval E (Df_fixed k d) =
     mp_bind (read_jarr_fixed E (replicate k (read_jval E d))) (\<lambda>xs. mp_return (Jd_range xs))"
| "read_jval E (Df_tuple exact m ds) =
     mp_bind (read_jtuple E exact (jreaders E ds)) (\<lambda>xs. mp_return (Jd_tuple m xs))"
| "read_jval E (Df_arr exact ds) =
     mp_bind (read_jtuple E exact (jreaders E ds)) (\<lambda>xs. mp_return (Jd_arr xs))"
| "read_jval E (Df_obj fs) =
     mp_bind (mp_map_loop_iter E) (\<lambda>it. mp_bind (read_jobj E (jentries E fs) it) (\<lambda>(x, it). mp_return (Jd_obj x)))"
| "read_jval E (Df_map kk d) = read_jmap_obj E kk (read_jval E d)"
| "read_jval E (Df_check P d) = read_jcheck P (read_jval E d)"
| "read_jval E (Df_exam P d) = read_jexam P (read_jval E d)"
| "read_jval E (Df_conv from d) = read_jconv from (read_jval E d)"
| "read_alt E [] i = mp_fail tag_mismatch"
| "read_alt E (d # ds) i = (case i of 0 \<Rightarrow> read_jval E d | Suc j \<Rightarrow> read_alt E ds j)"
| "jreaders E [] = []"
| "jreaders E (d # ds) = read_jval E d # jreaders E ds"
| "jentries E [] = []"
| "jentries E (Fd_val k d # fs) = En_fld k None (\<lambda>x. Jf_val k x) (read_jval E d) # jentries E fs"
| "jentries E (Fd_cleared k z d # fs) = En_fld k (Some (Jf_val k z)) (\<lambda>x. Jf_val k x) (read_jval E d) # jentries E fs"
| "jentries E (Fd_opt k d # fs) = En_fld k (Some (Jf_opt k None)) (keep_opt k) (read_jval E d) # jentries E fs"
| "jentries E (Fd_keyed nullable k d # fs) =
     En_fld k (if nullable then Some (Jf_keyed True k None) else None) (keep_keyed nullable k) (read_jval E d) # jentries E fs"
| "jentries E (Fd_nested nfs # fs) = En_nested (read_jobj E (jentries E nfs)) # jentries E fs"

text \<open>\<open>jread\<close> with the MessagePack reader: the data and the offset after the last byte read. \<open>jread_whole\<close>: nothing may follow.\<close>

definition jread :: "endian_codec \<Rightarrow> jdef \<Rightarrow> bytes \<Rightarrow> nat \<Rightarrow> (mp_fault + jdoc \<times> nat) option" where
  "jread E d b offset =
     map_option (\<lambda>v. case read_jval E d v of (Inl e, v') \<Rightarrow> Inl e | (Inr x, v') \<Rightarrow> Inr (x, mv_p v')) (mp_value_new b offset)"

datatype jread_err = Jr_fault mp_fault | Jr_errc errc

definition jread_whole :: "endian_codec \<Rightarrow> jdef \<Rightarrow> bytes \<Rightarrow> nat \<Rightarrow> (jread_err + jdoc) option" where
  "jread_whole E d b offset =
     map_option (\<lambda>r. case r of
         Inl e \<Rightarrow> Inl (Jr_fault e)
       | Inr (x, n) \<Rightarrow> if n \<noteq> length b then Inl (Jr_errc errc_input_not_fully_consumed) else Inr x)
       (jread E d b offset)"

text \<open>
  \<open>jread_range\<close>: documents one after the other, until one cannot be read or the input is used up. A
  definition that reads nothing makes no progress; the result is \<open>None\<close> when the loop does not end.
\<close>

partial_function (option) jread_range ::
  "endian_codec \<Rightarrow> jdef \<Rightarrow> bytes \<Rightarrow> jdoc list \<Rightarrow> nat \<Rightarrow> (jdoc list \<times> nat) option" where
  "jread_range E d b vs offset =
     (case jread E d b offset of
        None \<Rightarrow> None
      | Some (Inl e) \<Rightarrow> Some (vs, offset)
      | Some (Inr (x, n)) \<Rightarrow>
          (if n \<ge> length b then Some (vs @ [x], n) else jread_range E d b (vs @ [x]) n))"

definition jread_range_whole :: "endian_codec \<Rightarrow> jdef \<Rightarrow> bytes \<Rightarrow> nat \<Rightarrow> (jread_err + jdoc list) option" where
  "jread_range_whole E d b offset =
     map_option (\<lambda>(vs, n). if n \<noteq> length b then Inl (Jr_errc errc_input_not_fully_consumed) else Inr vs)
       (jread_range E d b [] offset)"

end
