(* ===== verification/Jser_Read_Props.thy ===== *)
theory Jser_Read_Props
  imports Jser_Read
begin

text \<open>
  Reading back what was written: a document that fits a definition, written through MessagePack, is read by
  the same definition as itself. What does not come back is shown at the end.
\<close>

section \<open>Documents that fit a definition\<close>

text \<open>The document that an optional or variant field has as its value.\<close>

fun jwrap :: "jdef \<Rightarrow> jdoc \<Rightarrow> jdoc" where
  "jwrap (Df_variant nullable ds) x = Jd_variant nullable (Some x)"
| "jwrap d x = Jd_optional (Some x)"

fun fd_key :: "jfdef \<Rightarrow> jkey" where
  "fd_key (Fd_val k d) = k"
| "fd_key (Fd_cleared k z d) = k"
| "fd_key (Fd_opt k d) = k"
| "fd_key (Fd_keyed nullable k d) = k"
| "fd_key (Fd_nested fs) = Jk_str []"

text \<open>All keys are strings, or all have a number.\<close>

definition key_fits :: "key_kind \<Rightarrow> jkey \<Rightarrow> bool" where
  "key_fits kk k \<longleftrightarrow>
     (case k of Jk_str s \<Rightarrow> kk = Kind_str \<and> length s < 2 ^ 32
      | Jk_both i s \<Rightarrow> kk = Kind_uint C_uint32 \<and> c_in C_uint32 i
      | Jk_arith T v \<Rightarrow> False)"

definition map_key_fits :: "key_kind \<Rightarrow> jkey \<Rightarrow> bool" where
  "map_key_fits kk k \<longleftrightarrow>
     (case k of Jk_str s \<Rightarrow> kk = Kind_str \<and> length s < 2 ^ 32
      | Jk_both i s \<Rightarrow> False
      | Jk_arith T v \<Rightarrow> kk = Kind_uint T \<and> c_integral T \<and> \<not> c_signed T \<and> c_in T v)"

definition keys_fit :: "jkey list \<Rightarrow> bool" where
  "keys_fit ks \<longleftrightarrow> distinct (map jkey_uint_or_str ks) \<and> list_all (key_fits (keys_kind ks)) ks"

text \<open>The first byte of a document, by which null and the alternatives of a variant are told apart.\<close>

definition jtag :: "endian_codec \<Rightarrow> jdoc \<Rightarrow> u8 option" where
  "jtag E x = (case jenc (mp_encoder E) x of [] \<Rightarrow> None | b # _ \<Rightarrow> Some b)"

definition alt_index :: "endian_codec \<Rightarrow> jdef list \<Rightarrow> jdoc \<Rightarrow> nat option" where
  "alt_index E ds x =
     Option.bind (jtag E x) (\<lambda>b. first_index (type_matches (uint b)) (J_null # map alt_type ds))"

text \<open>
  The document is one that the definition writes: the value of an optional is not itself null, the
  alternative of a variant is the first one that its tag admits, the elements of a tuple are those that
  are read, the keys are distinct and at least one field is there.
\<close>

definition fits_all :: "('a \<Rightarrow> bool) list \<Rightarrow> 'a list \<Rightarrow> bool" where
  "fits_all Ps xs \<longleftrightarrow> list_all2 (\<lambda>P x. P x) Ps xs"

primrec jfits :: "endian_codec \<Rightarrow> jdef \<Rightarrow> jdoc \<Rightarrow> bool"
  and jfits_fld :: "endian_codec \<Rightarrow> jfdef \<Rightarrow> jfld \<Rightarrow> bool"
where
  "jfits E (Df_check P d) = (\<lambda>x. P x \<and> jfits E d x)"
| "jfits E (Df_exam P d) = (\<lambda>x. P x \<and> jfits E d x)"
| "jfits E (Df_conv from d) = (\<lambda>x. from x = Some x \<and> jfits E d x)"
| "jfits E (Df_arith T) = (\<lambda>x. case x of Jd_arith T' v \<Rightarrow> T' = T \<and> (T = C_bool \<longrightarrow> v = 0 \<or> v = 1) | _ \<Rightarrow> False)"
| "jfits E Df_str = (\<lambda>x. case x of Jd_str s \<Rightarrow> True | _ \<Rightarrow> False)"
| "jfits E Df_noescape = (\<lambda>x. case x of Jd_noescape s \<Rightarrow> True | _ \<Rightarrow> False)"
| "jfits E Df_binary = (\<lambda>x. case x of Jd_binary s \<Rightarrow> True | _ \<Rightarrow> False)"
| "jfits E Df_skip = (\<lambda>x. False)"
| "jfits E (Df_optional d) =
     (\<lambda>x. case x of
        Jd_optional ox \<Rightarrow>
          (case ox of None \<Rightarrow> True | Some y \<Rightarrow> jfits E d y \<and> jtag E y \<noteq> Some (to_byte msgpack_nil))
      | _ \<Rightarrow> False)"
| "jfits E (Df_variant nullable ds) =
     (\<lambda>x. case x of
        Jd_variant nullable' ox \<Rightarrow>
          (case ox of
             None \<Rightarrow> False
           | Some y \<Rightarrow> nullable' = nullable \<and>
               (\<exists>i < length ds. alt_index E ds y = Some (Suc i) \<and> (map (jfits E) ds ! i) y))
      | _ \<Rightarrow> False)"
| "jfits E (Df_range d) = (\<lambda>x. case x of Jd_range xs \<Rightarrow> list_all (jfits E d) xs | _ \<Rightarrow> False)"
| "jfits E (Df_fixed k d) = (\<lambda>x. case x of Jd_range xs \<Rightarrow> length xs = k \<and> list_all (jfits E d) xs | _ \<Rightarrow> False)"
| "jfits E (Df_tuple exact m ds) =
     (\<lambda>x. case x of
        Jd_tuple m' xs \<Rightarrow> m' = m \<and> (m \<noteq> 0 \<longrightarrow> length xs = m) \<and> fits_all (map (jfits E) ds) xs
      | _ \<Rightarrow> False)"
| "jfits E (Df_arr exact ds) = (\<lambda>x. case x of Jd_arr xs \<Rightarrow> fits_all (map (jfits E) ds) xs | _ \<Rightarrow> False)"
| "jfits E (Df_obj fs) =
     (\<lambda>x. case x of
        Jd_obj gs \<Rightarrow> keys_fit (map fd_key fs) \<and> 0 < jcount gs \<and> fits_all (map (jfits_fld E) fs) gs
      | _ \<Rightarrow> False)"
| "jfits E (Df_map kk d) =
     (\<lambda>x. case x of
        Jd_map kvs \<Rightarrow> distinct (map fst kvs) \<and> list_all (\<lambda>(k, y). map_key_fits kk k \<and> jfits E d y) kvs
      | _ \<Rightarrow> False)"
| "jfits_fld E (Fd_val k d) = (\<lambda>g. case g of Jf_val k' x \<Rightarrow> k' = k \<and> jfits E d x | _ \<Rightarrow> False)"
| "jfits_fld E (Fd_cleared k z d) = (\<lambda>g. case g of Jf_val k' x \<Rightarrow> k' = k \<and> jfits E d x | _ \<Rightarrow> False)"
| "jfits_fld E (Fd_opt k d) =
     (\<lambda>g. case g of
        Jf_opt k' ox \<Rightarrow> k' = k \<and> (case ox of None \<Rightarrow> True | Some x \<Rightarrow> jfits E d (jwrap d x))
      | _ \<Rightarrow> False)"
| "jfits_fld E (Fd_keyed nullable k d) =
     (\<lambda>g. case g of
        Jf_keyed nullable' k' ox \<Rightarrow>
          nullable' = nullable \<and> k' = k \<and> (case ox of None \<Rightarrow> False | Some x \<Rightarrow> jfits E d (jwrap d x))
      | _ \<Rightarrow> False)"
| "jfits_fld E (Fd_nested nfs) = (\<lambda>g. False)"

lemmas jser_reader_defs [simp] = read_joptional_def read_jmap_obj_def read_jcheck_def read_jexam_def read_jconv_def

section \<open>Scalars and arrays\<close>

lemma reads_arith:
  assumes ok: "endian_ok E" and v: "c_in T v" and b: "T = C_bool \<Longrightarrow> v = 0 \<or> v = 1"
  shows "reads (mp_bind (mp_arithmetic E T) (\<lambda>a. mp_return (Jd_arith T (arith_value a)))) (mp_arith_enc E T v) (Jd_arith T v)"
proof -
  have "\<exists>a. reads (mp_arithmetic E T) (mp_arith_enc E T v) a \<and> arith_value a = v"
  proof (cases "c_integral T")
    case True
    then have "reads (mp_arithmetic E T) (mp_int_enc E v) (A_int v)"
      using reads_bind_return [where g = A_int, OF reads_int [OF ok _ v]] reads_bind_return [where g = A_int, OF reads_uint [OF ok True _ v]]
      by (cases T) (simp_all add: mp_arithmetic_def c_integral_def)
    then show ?thesis
      using True by (intro exI [of _ "A_int v"]) (cases T; simp add: mp_arith_enc_def c_integral_def)
  next
    case False
    have d: "reads (mp_arithmetic E C_double) (mp_header E msgpack_double v) (A_double (Of_double v))" if "T = C_double"
      using reads_bind_return [where g = A_double, OF reads_double(1) [OF ok], of v] v that by (simp add: mp_arithmetic_def)
    have f: "reads (mp_arithmetic E C_float) (mp_header E msgpack_float v) (A_float v)" if "T = C_float"
      using reads_bind_return [where g = A_float, OF reads_float [OF ok], of v] v that by (simp add: mp_arithmetic_def)
    have bo: "reads (mp_arithmetic E C_bool) (mpw_bool (v \<noteq> 0) []) (A_bool (v \<noteq> 0))"
      using reads_bind_return [where g = A_bool, OF reads_bool] by (simp add: mp_arithmetic_def)
    show ?thesis
    proof (cases "T = C_bool")
      case True
      then have "arith_value (A_bool (v \<noteq> 0)) = v"
        using b by auto
      then show ?thesis
        using bo True by (intro exI [of _ "A_bool (v \<noteq> 0)"]) (simp add: mp_arith_enc_def)
    next
      case nb: False
      then consider "T = C_float" | "T = C_double"
        using False by (cases T) (auto simp: c_integral_def)
      then show ?thesis
      proof cases
        case 1
        then show ?thesis
          using f by (intro exI [of _ "A_float v"]) (simp add: mp_arith_enc_def)
      next
        case 2
        then show ?thesis
          using d by (intro exI [of _ "A_double (Of_double v)"]) (simp add: mp_arith_enc_def)
      qed
    qed
  qed
  then obtain a where a: "reads (mp_arithmetic E T) (mp_arith_enc E T v) a" "arith_value a = v"
    by blast
  show ?thesis
    using reads_bind_return [where g = "\<lambda>a. Jd_arith T (arith_value a)", OF a(1)] a(2) by simp
qed

lemma reads_elms:
  "list_all (\<lambda>x. reads r (f x) x) xs \<Longrightarrow> reads (read_elms r (length xs)) (concat (map f xs)) xs"
proof (induction xs)
  case Nil
  then show ?case
    by (simp add: reads_return)
next
  case (Cons x xs)
  have "reads (mp_bind (read_elms r (length xs)) (\<lambda>xs. mp_return (x # xs))) (concat (map f xs)) (x # xs)"
    using Cons by (intro reads_bind_return) simp
  then show ?case
    using Cons.prems reads_bind [of r "f x" x] by simp
qed

lemma iter_next_Suc: "n < 2 ^ 32 \<Longrightarrow> 0 < n \<Longrightarrow> iter_next n = n - 1"
proof -
  assume "n < 2 ^ 32" "0 < n"
  then have "n + (2 ^ 32 - 1) = (n - 1) + 2 ^ 32"
    by simp
  then show ?thesis
    using \<open>n < 2 ^ 32\<close> unfolding iter_next_def by (simp only: mod_add_self2) simp
qed

lemma reads_from_iter:
  "list_all2 (\<lambda>r x. reads r (f x) x) rs xs \<Longrightarrow> length xs < 2 ^ 32 \<Longrightarrow>
   reads (read_from_iter rs (length xs)) (concat (map f xs)) (xs, 0)"
proof (induction rs xs rule: list_all2_induct)
  case Nil
  then show ?case
    by (simp add: reads_return)
next
  case (Cons r rs x xs)
  have "reads (mp_bind (read_from_iter rs (length xs)) (\<lambda>(xs, n). mp_return (x # xs, n))) (concat (map f xs)) (x # xs, 0)"
    using reads_bind_return [where g = "\<lambda>(xs, n). (x # xs, n)", OF Cons.IH] Cons.prems by (simp add: case_prod_unfold)
  then show ?case
    using Cons reads_bind [of r "f x" x] iter_next_Suc [of "Suc (length xs)"] by (simp add: iter_bool_def)
qed

lemma reads_skip_none: "reads (mp_skip E 0) [] ()"
  by (simp add: reads_def mp_skip.simps mv_advance_def)

lemma reads_tuple:
  assumes ok: "endian_ok E" and xs: "list_all2 (\<lambda>r x. reads r (f x) x) rs xs" "length xs < 2 ^ 32"
  shows "reads (read_jtuple E exact rs) (arr_header E (int (length xs)) @ concat (map f xs)) xs"
    and "reads (read_jarr_fixed E rs) (arr_header E (int (length xs)) @ concat (map f xs)) xs"
proof -
  note it = reads_arr_iter [OF ok xs(2)]
  note from_iter = reads_from_iter [OF xs]
  have skip: "reads (mp_bind (iter_skip_remains E 0) (\<lambda>_. mp_return xs)) [] xs"
    unfolding iter_skip_remains_def using reads_bind [OF reads_skip_none reads_return] by simp
  let ?k = "\<lambda>(ys, n). if exact \<and> iter_bool n then jfail jerrc_invalid_elm_cnt
       else mp_bind (iter_skip_remains E n) (\<lambda>_. mp_return ys)"
  let ?l = "\<lambda>(ys, n). mp_bind (iter_skip_remains E n) (\<lambda>_. mp_return ys)"
  have "reads (mp_bind (read_from_iter rs (length xs)) ?k) (concat (map f xs) @ []) xs"
    by (rule reads_bind [OF from_iter]) (simp add: skip iter_bool_def)
  then show "reads (read_jtuple E exact rs) (arr_header E (int (length xs)) @ concat (map f xs)) xs"
    unfolding read_jtuple_def by (intro reads_bind [OF it]) simp
  have "reads (mp_bind (read_from_iter rs (length xs)) ?l) (concat (map f xs) @ []) xs"
    by (rule reads_bind [OF from_iter]) (simp add: skip)
  then show "reads (read_jarr_fixed E rs) (arr_header E (int (length xs)) @ concat (map f xs)) xs"
    unfolding read_jarr_fixed_def by (intro reads_bind [OF it]) simp
qed

section \<open>Null and alternatives\<close>

lemma at_byte:
  assumes "mv_at s (b # bs)"
  shows "mp_peek_uint8 s = (Inr (uint b), s)" "mp_read E C_uint8 s = (Inr (uint b), mv_advance 1 s)"
proof -
  have at: "mv_at s ([b] @ bs)"
    using assms by simp
  have "mv_p s < mv_e s"
    using mv_at_length [OF at] at by (simp add: mv_at_def)
  moreover have "c_cast C_uint8 (uint b) = uint b"
    using uint_lt2p [of b] by (intro c_cast_in) (simp add: c_in_cases)
  ultimately show "mp_peek_uint8 s = (Inr (uint b), s)" "mp_read E C_uint8 s = (Inr (uint b), mv_advance 1 s)"
    using mv_at_bytes [OF at] by (simp_all add: mp_peek_uint8_def mp_read_def)
qed

lemma check_nil_at:
  assumes "mv_at s (b # bs)"
  shows "mp_check_nil E s = (if b = to_byte msgpack_nil then (Inr True, mv_advance 1 s) else (Inr False, s))"
proof -
  have "uint b = msgpack_nil \<longleftrightarrow> b = to_byte msgpack_nil"
    by (auto simp: to_byte_def tag_defs word_uint_eq_iff)
  then show ?thesis
    using at_byte(2) [OF assms, of E] by (simp add: mp_check_nil_def mp_bind_def mv_advance_def)
qed

lemma reads_optional:
  assumes "reads r y x" "y = b # bs" "b \<noteq> to_byte msgpack_nil"
  shows "reads (mp_bind (mp_check_nil E) (\<lambda>null. if \<not> null then mp_bind r (\<lambda>x. mp_return (g x)) else k)) y (g x)"
  unfolding reads_def
proof (intro allI impI)
  fix s rest
  assume at: "mv_at s (y @ rest)"
  have "mp_check_nil E s = (Inr False, s)"
    using check_nil_at [of s b "bs @ rest" E] at assms(2,3) by simp
  moreover have "mp_bind r (\<lambda>x. mp_return (g x)) s = (Inr (g x), mv_advance (length y) s)"
    using readsD [OF reads_bind_return [OF assms(1)] at] .
  ultimately show "mp_bind (mp_check_nil E) (\<lambda>null. if \<not> null then mp_bind r (\<lambda>x. mp_return (g x)) else k) s =
      (Inr (g x), mv_advance (length y) s)"
    by (simp add: mp_bind_def [of "mp_check_nil E"])
qed

lemma reads_null: "reads (mp_bind (mp_check_nil E) (\<lambda>null. if \<not> null then k else mp_return x)) (mpw_nil []) x"
  unfolding reads_def
proof (intro allI impI)
  fix s rest
  assume "mv_at s (mpw_nil [] @ rest)"
  then have "mv_at s (to_byte msgpack_nil # rest)"
    by (simp add: mpw_nil_def write_lsb_def)
  from check_nil_at [OF this, of E]
  show "mp_bind (mp_check_nil E) (\<lambda>null. if \<not> null then k else mp_return x) s = (Inr x, mv_advance (length (mpw_nil [])) s)"
    by (simp add: mp_bind_def mp_return_def mpw_nil_def write_lsb_def)
qed

lemma reads_bind_same: "reads m bs a \<Longrightarrow> f a = mp_return a \<Longrightarrow> reads (mp_bind m f) bs a"
  using reads_bind [of m bs a f "[]" a] reads_return [of a] by simp

lemma read_alt_nth: "i < length ds \<Longrightarrow> read_alt E ds i = read_jval E (ds ! i)"
  by (induction ds arbitrary: i) (auto split: nat.split)

lemma reads_variant:
  assumes "alt_index E ds x = Some (Suc i)" "i < length ds" "reads (read_jval E (ds ! i)) (jenc (mp_encoder E) x) x"
  shows "reads (read_jval E (Df_variant nullable ds)) (jenc (mp_encoder E) x) (Jd_variant nullable (Some x))"
  unfolding reads_def
proof (intro allI impI)
  fix s rest
  assume at: "mv_at s (jenc (mp_encoder E) x @ rest)"
  obtain b bs where b: "jenc (mp_encoder E) x = b # bs" "first_index (type_matches (uint b)) (J_null # map alt_type ds) = Some (Suc i)"
    using assms(1) by (auto simp: alt_index_def jtag_def bind_eq_Some_conv split: list.splits)
  have "get_jval_matched_type (J_null # map alt_type ds) s = (Inr (Suc i), s)"
    using at_byte(1) [of s b "bs @ rest"] at b by (simp add: get_jval_matched_type_def mp_bind_def mp_return_def)
  moreover have "mp_bind (read_alt E ds i) (\<lambda>x. mp_return (Jd_variant nullable (Some x))) s =
      (Inr (Jd_variant nullable (Some x)), mv_advance (length (jenc (mp_encoder E) x)) s)"
    using readsD [OF reads_bind_return [OF assms(3)] at] assms(2) by (simp add: read_alt_nth)
  ultimately show "read_jval E (Df_variant nullable ds) s =
      (Inr (Jd_variant nullable (Some x)), mv_advance (length (jenc (mp_encoder E) x)) s)"
    by (simp add: mp_bind_def [of "get_jval_matched_type (J_null # map alt_type ds)"])
qed

section \<open>The fields of an object\<close>

lemma loop_next_fresh:
  assumes "li_j it = li_i it" "li_i it < li_n it" "li_n it < 2 ^ 32"
  shows "loop_next it s = (True, it\<lparr>li_j := Suc (li_i it), li_i := Suc (li_i it)\<rparr>, s)"
proof -
  have "u32_inc (li_i it) = Suc (li_i it)"
    using assms by (simp add: u32_inc_def)
  then show ?thesis
    using assms by (simp add: loop_next_def Let_def)
qed

text \<open>One field whose key is asked for.\<close>

lemma found_step:
  assumes it: "li_j it = li_i it" "li_i it < li_n it" "li_n it < 2 ^ 32"
    and at: "mv_at s (ke @ ye @ rest)" and ke: "reads (mp_read_key E kk) ke fk" and ye: "reads (h I a) ye a'"
    and I: "find_key fk mks = Some I"
  shows "found_loop E kk h (Suc fuel) it mks u a s =
     (let it' = it\<lparr>li_j := Suc (li_i it), li_i := Suc (li_i it)\<rparr>; mks' = mks[I := (True, snd (mks ! I))];
          s' = mv_advance (length (ke @ ye)) s
      in if u - 1 = 0 then (Inr 0, it', mks', a', s') else found_loop E kk h fuel it' mks' (u - 1) a' s')"
proof -
  have "mp_read_key E kk s = (Inr fk, mv_advance (length ke) s)"
    using readsD [OF ke at] .
  moreover have "h I a (mv_advance (length ke) s) = (Inr a', mv_advance (length (ke @ ye)) s)"
    using readsD [OF ye mv_at_advance [OF at]] by (simp add: mv_advance_add)
  ultimately show ?thesis
    using loop_next_fresh [OF it] I by (simp add: Let_def)
qed

text \<open>
  A field with its reader, the value it has in the document if it is there, and the bytes of its key and of
  that value.
\<close>

type_synonym fld_item = "jfld_reader \<times> jdoc option \<times> bytes"

definition item_key :: "fld_item \<Rightarrow> mp_key" where
  "item_key z = jkey_uint_or_str (fst (fst z))"

definition item_ok :: "endian_codec \<Rightarrow> key_kind \<Rightarrow> fld_item \<Rightarrow> bool" where
  "item_ok E kk z \<longleftrightarrow>
     (case fst (snd z) of
        None \<Rightarrow> snd (snd z) = [] \<and> fst (snd (fst z)) \<noteq> None
      | Some x \<Rightarrow>
          (\<exists>ke ye. snd (snd z) = ke @ ye \<and> reads (mp_read_key E kk) ke (item_key z) \<and> reads (snd (snd (snd (fst z)))) ye x))"

definition items_present :: "fld_item list \<Rightarrow> nat" where
  "items_present zs = length (filter (\<lambda>z. fst (snd z) \<noteq> None) zs)"

definition items_absent :: "fld_item list \<Rightarrow> nat" where
  "items_absent zs = length (filter (\<lambda>z. fst (snd z) = None) zs)"

definition items_bytes :: "fld_item list \<Rightarrow> bytes" where
  "items_bytes zs = concat (map (\<lambda>z. snd (snd z)) zs)"

definition found_handler :: "fld_item list \<Rightarrow> nat \<Rightarrow> jdoc option list \<Rightarrow> jdoc option list mp" where
  "found_handler zs I a = mp_bind (snd (snd (snd (map fst zs ! I)))) (\<lambda>x. mp_return (a[I := Some x]))"

lemma items_simps [simp]:
  "items_present [] = 0" "items_absent [] = 0" "items_bytes [] = []"
  "items_present (z # zs) = (if fst (snd z) = None then 0 else 1) + items_present zs"
  "items_absent (z # zs) = (if fst (snd z) = None then 1 else 0) + items_absent zs"
  "items_bytes (z # zs) = snd (snd z) @ items_bytes zs"
  "items_absent (zs @ ys) = items_absent zs + items_absent ys"
  by (simp_all add: items_present_def items_absent_def items_bytes_def)

lemma find_key_here: "\<forall>mk \<in> set mks. snd mk \<noteq> k \<Longrightarrow> find_key k (mks @ (False, k) # mks') = Some (length mks)"
  by (induction mks) auto

lemma found_loop_items:
  assumes "list_all (item_ok E kk) zs2" and "distinct (map item_key (zs1 @ zs2))"
    and "li_j it = li_i it" and "li_n it = li_i it + items_present zs2" and "li_n it < 2 ^ 32"
    and "mv_at s (items_bytes zs2 @ rest)" and "items_present zs2 < fuel"
  shows "\<exists>it' mks. found_loop E kk (found_handler (zs1 @ zs2)) fuel it
      (map (\<lambda>z. (fst (snd z) \<noteq> None, item_key z)) zs1 @ map (\<lambda>z. (False, item_key z)) zs2)
      (items_absent zs1 + length zs2) (map (\<lambda>z. fst (snd z)) zs1 @ replicate (length zs2) None) s =
    (Inr (items_absent (zs1 @ zs2)), it', mks, map (\<lambda>z. fst (snd z)) (zs1 @ zs2), mv_advance (length (items_bytes zs2)) s) \<and>
    li_n it' = li_n it \<and> li_i it' = li_n it"
  using assms
proof (induction zs2 arbitrary: zs1 it s fuel)
  case Nil
  then obtain f where f: "fuel = Suc f"
    by (cases fuel) auto
  have "loop_next it s = (False, it\<lparr>li_j := u32_inc (li_j it)\<rparr>, s)"
    using Nil.prems by (simp add: loop_next_def Let_def)
  then show ?case
    using f Nil.prems by (simp add: mv_advance_def)
next
  case (Cons z zs2)
  show ?case
  proof (cases "fst (snd z)")
    case None
    then show ?thesis
      using Cons.IH [of "zs1 @ [z]" it s fuel] Cons.prems by (simp add: item_ok_def)
  next
    case (Some x)
    then obtain ke ye where y: "snd (snd z) = ke @ ye" "reads (mp_read_key E kk) ke (item_key z)"
      "reads (snd (snd (snd (fst z)))) ye x"
      using Cons.prems(1) by (auto simp: item_ok_def)
    obtain f where f: "fuel = Suc f" "items_present zs2 < f"
      using Cons.prems(7) Some by (cases fuel) auto
    let ?mks = "map (\<lambda>z. (fst (snd z) \<noteq> None, item_key z)) zs1 @ map (\<lambda>z. (False, item_key z)) (z # zs2)"
    let ?a = "map (\<lambda>z. fst (snd z)) zs1 @ replicate (length (z # zs2)) None"
    let ?a' = "map (\<lambda>z. fst (snd z)) (zs1 @ [z]) @ replicate (length zs2) None"
    let ?mks' = "map (\<lambda>z. (fst (snd z) \<noteq> None, item_key z)) (zs1 @ [z]) @ map (\<lambda>z. (False, item_key z)) zs2"
    let ?it = "it\<lparr>li_j := Suc (li_i it), li_i := Suc (li_i it)\<rparr>"
    let ?s = "mv_advance (length (ke @ ye)) s"
    have h: "reads (found_handler (zs1 @ z # zs2) (length zs1) ?a) ye ?a'"
      using reads_bind_return [where g = "\<lambda>x. ?a[length zs1 := Some x]", OF y(3)] Some
      by (simp add: found_handler_def list_update_append nth_append)
    have "item_key z \<notin> item_key ` set zs1"
      using Cons.prems(2) by simp
    then have "item_key y \<noteq> item_key z" if "y \<in> set zs1" for y
      using imageI [OF that, of item_key] by (cases "item_key y = item_key z") simp_all
    then have "\<forall>mk \<in> set (map (\<lambda>z. (fst (snd z) \<noteq> None, item_key z)) zs1). snd mk \<noteq> item_key z"
      by (simp add: ball_simps(9))
    from find_key_here [OF this, of "map (\<lambda>z. (False, item_key z)) zs2"]
    have key: "find_key (item_key z) ?mks = Some (length zs1)"
      by simp
    have at: "mv_at s (ke @ ye @ items_bytes zs2 @ rest)"
      using Cons.prems(6) y(1) by simp
    have upd: "?mks[length zs1 := (True, snd (?mks ! length zs1))] = ?mks'"
      using Some by (simp add: list_update_append nth_append)
    have step: "found_loop E kk (found_handler (zs1 @ z # zs2)) (Suc f) it ?mks (items_absent zs1 + length (z # zs2)) ?a s =
      (if items_absent zs1 + length zs2 = 0 then (Inr 0, ?it, ?mks', ?a', ?s)
       else found_loop E kk (found_handler (zs1 @ z # zs2)) f ?it ?mks' (items_absent zs1 + length zs2) ?a' ?s)"
      using found_step [where h = "found_handler (zs1 @ z # zs2)" and I = "length zs1" and a = ?a and fuel = f and
          u = "items_absent zs1 + length (z # zs2)", OF Cons.prems(3) _ Cons.prems(5) at y(2) h key] Cons.prems(4) Some
      by (simp add: Let_def upd [simplified])
    show ?thesis
    proof (cases "items_absent zs1 + length zs2 = 0")
      case True
      then show ?thesis
        using step f Some y(1) Cons.prems(4) by simp
    next
      case False
      have at': "mv_at ?s (items_bytes zs2 @ rest)"
        using mv_at_advance [of s "ke @ ye"] at by simp
      have step': "found_loop E kk (found_handler (zs1 @ z # zs2)) (Suc f) it ?mks (items_absent zs1 + length (z # zs2)) ?a s =
          found_loop E kk (found_handler (zs1 @ z # zs2)) f ?it ?mks' (items_absent zs1 + length zs2) ?a' ?s"
        by (simp only: step False if_False)
      have "\<exists>it' mks. found_loop E kk (found_handler ((zs1 @ [z]) @ zs2)) f ?it ?mks' (items_absent (zs1 @ [z]) + length zs2) ?a' ?s =
          (Inr (items_absent ((zs1 @ [z]) @ zs2)), it', mks, map (\<lambda>z. fst (snd z)) ((zs1 @ [z]) @ zs2),
           mv_advance (length (items_bytes zs2)) ?s) \<and> li_n it' = li_n ?it \<and> li_i it' = li_n ?it"
        by (rule Cons.IH [OF _ _ _ _ _ at' f(2)]) (use Cons.prems Some in \<open>simp_all\<close>)
      moreover have "items_absent (zs1 @ [z]) = items_absent zs1" "(zs1 @ [z]) @ zs2 = zs1 @ z # zs2" "li_n ?it = li_n it"
        using Some by simp_all
      moreover have "mv_advance (length (items_bytes zs2)) ?s = mv_advance (length (items_bytes (z # zs2))) s"
        using y(1) by (simp add: mv_advance_add add.assoc)
      ultimately show ?thesis
        unfolding f(1) step' by (simp only:)
    qed
  qed
qed

lemma fill_items:
  assumes "list_all (item_ok E kk) zs"
  shows "fill_flds (map fst zs) (map (\<lambda>z. fst (snd z)) zs) (items_absent zs + n) =
    (map (\<lambda>((k, d, w, r), ox, y). case ox of None \<Rightarrow> the d | Some x \<Rightarrow> w x) zs, n)"
  using assms
proof (induction zs)
  case (Cons z zs)
  obtain k d w r ox y where z: "z = ((k, d, w, r), ox, y)"
    by (cases z) auto
  show ?case
    using Cons z by (cases ox) (auto simp: item_ok_def)
qed simp

lemma weave_flat: "entry_nested es = [] \<Longrightarrow> length (entry_flds es) = length fs \<Longrightarrow> weave es fs [] = fs"
proof (induction es arbitrary: fs)
  case (Cons e es)
  then show ?case
    by (cases e; cases fs) auto
qed simp

lemma reads_obj_header:
  assumes ok: "endian_ok E" and n: "c \<le> n" "n < 2 ^ 31"
  shows "reads (mp_map_iter E) (mp_obj_header E n c) c"
proof (cases "n < 16")
  case True
  then have c: "0 \<le> int c" "int c < 16"
    using n by simp_all
  have "reads (mp_map_iter E) (to_byte (128 + int c) # []) c"
    unfolding mp_map_iter_def
    by (rule reads_tag) (use c fixmap_bits [OF c] reads_return [of c] in \<open>simp_all\<close>)
  then show ?thesis
    using True fixmap_bits [OF c] by (simp add: mp_obj_header_def)
next
  case False
  let ?f = "if n < 65536 then msgpack_map16 else msgpack_map32"
  have "reads (mp_map_iter E) (mp_header E ?f (int c) @ []) c"
    unfolding mp_map_iter_def
    by (rule reads_header [where h = "\<lambda>n. mp_return (nat n)", OF ok])
      (use n False reads_return [of c] in \<open>auto simp: fmt_defs c_in_def c_range_def\<close>)
  then show ?thesis
    using False by (auto simp: mp_obj_header_def split: if_splits)
qed

lemma mv_advance_pos: "loop_new n (mv_advance k s) = \<lparr>li_n = n, li_p = mv_p s + k, li_i = 0, li_j = 0\<rparr>"
  by (simp add: loop_new_def mv_advance_def)

text \<open>An object is read from the map of its fields, in the order in which they were written.\<close>

lemma reads_items:
  assumes ok: "endian_ok E" and es: "entry_flds es = map fst zs" "entry_nested es = []" "zs \<noteq> []"
    and zs: "list_all (item_ok E (keys_kind (map (\<lambda>z. fst (fst z)) zs))) zs" "distinct (map item_key zs)"
    and n: "items_present zs \<le> n" "n < 2 ^ 31"
    and gs: "gs = map (\<lambda>((k, d, w, r), ox, y). case ox of None \<Rightarrow> the d | Some x \<Rightarrow> w x) zs"
  shows "reads (mp_bind (mp_map_loop_iter E) (\<lambda>it. mp_bind (read_jobj E es it) (\<lambda>(x, it). mp_return (Jd_obj x))))
    (mp_obj_header E n (items_present zs) @ items_bytes zs) (Jd_obj gs)"
  unfolding reads_def
proof (intro allI impI)
  fix s rest
  let ?h = "mp_obj_header E n (items_present zs)"
  let ?it = "loop_new (items_present zs) (mv_advance (length ?h) s)"
  let ?s = "mv_advance (length (?h @ items_bytes zs)) s"
  assume at: "mv_at s ((?h @ items_bytes zs) @ rest)"
  have start: "mp_map_loop_iter E s = (Inr ?it, mv_advance (length ?h) s)"
    using readsD [OF reads_obj_header [OF ok n], of s "items_bytes zs @ rest"] at by (simp add: mp_map_loop_iter_def mp_bind_def)
  have at': "mv_at (mv_advance (length ?h) s) (items_bytes zs @ rest)"
    using mv_at_advance [of s ?h] at by simp
  have it: "loop_start ?it = ?it"
    by (simp add: loop_start_def loop_new_def)
  have li: "li_n ?it = items_present zs" "li_i ?it = 0" "li_j ?it = 0"
    by (simp_all add: loop_new_def)
  have flds: "found_flds E (map fst zs) ?it t =
      found_loop E (keys_kind (map (\<lambda>z. fst (fst z)) zs)) (found_handler zs) (Suc (items_present zs)) ?it
        (map (\<lambda>z. (False, item_key z)) zs) (length zs) (replicate (length zs) None) t" for t
    using es(3) unfolding found_flds_def foreach_found_jval_def it li
    by (simp add: found_handler_def [abs_def] item_key_def [abs_def] o_def case_prod_unfold del: found_loop.simps)
  obtain it' mks where found: "found_flds E (map fst zs) ?it (mv_advance (length ?h) s) =
      (Inr (items_absent zs), it', mks, map (\<lambda>z. fst (snd z)) zs, ?s)" "li_n it' = items_present zs" "li_i it' = items_present zs"
    using found_loop_items [where ?zs1.0 = "[]" and it = ?it and fuel = "Suc (items_present zs)", OF zs(1) _ _ _ _ at'] zs(2) n
    by (auto simp: flds li mv_advance_add simp del: found_loop.simps)
  have "read_jobj E es ?it (mv_advance (length ?h) s) = (Inr (gs, it'), ?s)"
  proof -
    have "loop_skip_remains E it' ?s = (Inr (), ?s)"
      using found(2,3) n by (simp add: loop_skip_remains_def mp_skip.simps)
    moreover have "weave es gs [] = gs"
      using weave_flat [OF es(2)] es(1) gs by simp
    moreover have "fill_flds (map fst zs) (map (\<lambda>z. fst (snd z)) zs) (items_absent zs) = (gs, 0)"
      using fill_items [OF zs(1), of 0] gs by simp
    ultimately show ?thesis
      using found(1) es(1,2) by (simp add: read_jobj_def mp_bind_def mp_return_def)
  qed
  then show "mp_bind (mp_map_loop_iter E) (\<lambda>it. mp_bind (read_jobj E es it) (\<lambda>(x, it). mp_return (Jd_obj x))) s = (Inr (Jd_obj gs), ?s)"
    using start by (simp add: mp_bind_def mp_return_def)
qed

section \<open>Keys\<close>

lemma reads_key:
  assumes "endian_ok E" "key_fits kk k"
  shows "reads (mp_read_key E kk) (mp_key_enc E k) (jkey_uint_or_str k)"
proof (cases k)
  case (Jk_str x)
  then show ?thesis
    using assms(2) reads_bind_return [where g = Key_str, OF reads_str [OF assms(1), of x]]
    by (simp add: key_fits_def mp_read_key_def mp_key_enc_def jkey_uint_or_as_is_def jkey_uint_or_str_def)
next
  case (Jk_both i x)
  then have i: "c_in C_uint32 i" "kk = Kind_uint C_uint32"
    using assms(2) by (simp_all add: key_fits_def)
  have "mp_arith_enc E (jkey_uint_t i) i = mp_int_enc E i"
    by (simp add: mp_arith_enc_def jkey_uint_t_def)
  moreover have "reads (mp_uint E C_uint32) (mp_int_enc E i) i"
    using reads_uint [OF assms(1) _ _ i(1)] by (simp add: c_integral_def)
  ultimately show ?thesis
    using reads_bind_return [where g = "Key_arith C_uint32" and m = "mp_uint E C_uint32" and bs = "mp_int_enc E i" and a = i] Jk_both i(2)
    by (simp add: mp_read_key_def mp_key_enc_def jkey_uint_or_as_is_def jkey_uint_or_str_def)
next
  case (Jk_arith T v)
  then show ?thesis
    using assms(2) by (simp add: key_fits_def)
qed

lemma reads_map_key:
  assumes "endian_ok E" "map_key_fits kk k"
  shows "\<exists>k'. reads (mp_read_key E kk) (mp_key_enc E k) k' \<and> key_of k' = k"
proof (cases k)
  case (Jk_str x)
  then show ?thesis
    using assms(2) reads_key [OF assms(1), of kk k] by (auto simp: map_key_fits_def key_fits_def jkey_uint_or_str_def)
next
  case (Jk_both i x)
  then show ?thesis
    using assms(2) by (simp add: map_key_fits_def)
next
  case (Jk_arith T v)
  then have T: "kk = Kind_uint T" "c_integral T" "\<not> c_signed T" "c_in T v"
    using assms(2) by (simp_all add: map_key_fits_def)
  have "mp_arith_enc E T v = mp_int_enc E v"
    using T(2) by (auto simp: mp_arith_enc_def c_integral_def)
  then have "reads (mp_read_key E kk) (mp_key_enc E k) (Key_arith T v)"
    using reads_bind_return [where g = "Key_arith T", OF reads_uint [OF assms(1) T(2-4)]] Jk_arith T(1)
    by (simp add: mp_read_key_def mp_key_enc_def jkey_uint_or_as_is_def)
  then show ?thesis
    using Jk_arith by (intro exI [of _ "Key_arith T v"]) simp
qed

section \<open>Objects\<close>

definition fld_reads :: "endian_codec \<Rightarrow> jfdef \<Rightarrow> jfld \<Rightarrow> bool" where
  "fld_reads E fd g \<longleftrightarrow>
     (\<exists>z w r ox. jentries E [fd] = [En_fld (fd_key fd) z w r] \<and>
        (case ox of
           None \<Rightarrow> jenc_flds (mp_encoder E) [g] = [] \<and> jcount [g] = 0 \<and> z = Some g
         | Some x \<Rightarrow> jcount [g] = 1 \<and> w x = g \<and>
             (\<exists>ye. jenc_flds (mp_encoder E) [g] = [mp_key_enc E (fd_key fd) @ ye] \<and> reads r ye x)))"

lemma jentries_Cons: "jentries E (fd # fs) = jentries E [fd] @ jentries E fs"
  by (cases fd) simp_all

lemma jenc_flds_Cons: "jenc_flds J (g # gs) = jenc_flds J [g] @ jenc_flds J gs"
  by (cases "(J, g # gs)" rule: jenc_flds.cases) simp_all

lemma jcount_Cons: "jcount (g # gs) = jcount [g] + jcount gs"
  by (cases "g # gs" rule: jcount.cases) simp_all

lemma items_of:
  assumes "list_all2 (fld_reads E) fs gs" "list_all (key_fits kk) (map fd_key fs)" "endian_ok E"
  shows "\<exists>zs. entry_flds (jentries E fs) = map fst zs \<and> entry_nested (jentries E fs) = [] \<and>
    list_all (item_ok E kk) zs \<and> map (\<lambda>z. fst (fst z)) zs = map fd_key fs \<and> items_present zs = jcount gs \<and>
    items_bytes zs = concat (jenc_flds (mp_encoder E) gs) \<and>
    map (\<lambda>((k, d, w, r), ox, y). case ox of None \<Rightarrow> the d | Some x \<Rightarrow> w x) zs = gs"
  using assms
proof (induction fs gs rule: list_all2_induct)
  case (Cons fd fs g gs)
  then obtain zs where zs: "entry_flds (jentries E fs) = map fst zs" "entry_nested (jentries E fs) = []"
    "list_all (item_ok E kk) zs" "map (\<lambda>z. fst (fst z)) zs = map fd_key fs" "items_present zs = jcount gs"
    "items_bytes zs = concat (jenc_flds (mp_encoder E) gs)"
    "map (\<lambda>((k, d, w, r), ox, y). case ox of None \<Rightarrow> the d | Some x \<Rightarrow> w x) zs = gs"
    by auto
  obtain z w r ox where e: "jentries E [fd] = [En_fld (fd_key fd) z w r]"
    and g: "case ox of
           None \<Rightarrow> jenc_flds (mp_encoder E) [g] = [] \<and> jcount [g] = 0 \<and> z = Some g
         | Some x \<Rightarrow> jcount [g] = 1 \<and> w x = g \<and>
             (\<exists>ye. jenc_flds (mp_encoder E) [g] = [mp_key_enc E (fd_key fd) @ ye] \<and> reads r ye x)"
    using Cons.hyps(1) unfolding fld_reads_def by blast
  let ?z = "((fd_key fd, z, w, r), ox, concat (jenc_flds (mp_encoder E) [g]))"
  have "reads (mp_read_key E kk) (mp_key_enc E (fd_key fd)) (jkey_uint_or_str (fd_key fd))"
    using reads_key Cons.prems by simp
  then have "item_ok E kk ?z"
    using g by (cases ox) (fastforce simp: item_ok_def item_key_def)+
  then show ?case
    using zs e g
    by (intro exI [of _ "?z # zs"])
      (auto simp: jentries_Cons [of E fd fs] jenc_flds_Cons [of _ g gs] jcount_Cons [of g gs] split: option.splits)
qed (simp add: exI [of _ "[]"])

lemma reads_object:
  assumes ok: "endian_ok E" and fs: "list_all2 (fld_reads E) fs gs" "keys_fit (map fd_key fs)"
    and n: "0 < jcount gs" "jcount gs \<le> n" "n < 2 ^ 31"
  shows "reads (read_jval E (Df_obj fs)) (mp_obj_header E n (jcount gs) @ concat (jenc_flds (mp_encoder E) gs)) (Jd_obj gs)"
proof -
  have k: "list_all (key_fits (keys_kind (map fd_key fs))) (map fd_key fs)" "distinct (map jkey_uint_or_str (map fd_key fs))"
    using fs(2) by (simp_all add: keys_fit_def)
  obtain zs where zs: "entry_flds (jentries E fs) = map fst zs" "entry_nested (jentries E fs) = []"
    "list_all (item_ok E (keys_kind (map fd_key fs))) zs" "map (\<lambda>z. fst (fst z)) zs = map fd_key fs" "items_present zs = jcount gs"
    "items_bytes zs = concat (jenc_flds (mp_encoder E) gs)"
    "map (\<lambda>((k, d, w, r), ox, y). case ox of None \<Rightarrow> the d | Some x \<Rightarrow> w x) zs = gs"
    using items_of [OF fs(1) k(1) ok] by blast
  have "map item_key zs = map jkey_uint_or_str (map (\<lambda>z. fst (fst z)) zs)"
    by (simp add: item_key_def)
  then have "distinct (map item_key zs)"
    using k(2) zs(4) by simp
  moreover have "zs \<noteq> []"
    using zs(5) n(1) by auto
  ultimately show ?thesis
    using reads_items [OF ok zs(1,2) _ _ _ _ n(3) zs(7) [symmetric]] zs n by simp
qed

lemma reads_map_flds:
  assumes ok: "endian_ok E"
    and "list_all (\<lambda>(k, y). map_key_fits kk k \<and> reads r (jenc (mp_encoder E) y) y) kvs" "distinct (map fst (acc @ kvs))"
  shows "reads (foreach_jfld E kk (read_mapped r) (length kvs) acc) (concat (jenc_map (mp_encoder E) kvs)) (acc @ kvs)"
  using assms(2,3)
proof (induction kvs arbitrary: acc)
  case Nil
  then show ?case
    by (simp add: reads_return)
next
  case (Cons kv kvs)
  obtain k y where kv: "kv = (k, y)"
    by fastforce
  then have y: "map_key_fits kk k" "reads r (jenc (mp_encoder E) y) y" "k \<notin> fst ` set acc"
    using Cons.prems by auto
  obtain k' where k': "reads (mp_read_key E kk) (mp_key_enc E k) k'" "key_of k' = k"
    using reads_map_key [OF ok y(1)] by blast
  have "reads (read_mapped r k' acc) (jenc (mp_encoder E) y) (acc @ [(k, y)])"
    using reads_bind_return [where g = "\<lambda>x. acc @ [(k, x)]", OF y(2)] k'(2) y(3) by (simp add: read_mapped_def)
  moreover have "reads (foreach_jfld E kk (read_mapped r) (length kvs) (acc @ [(k, y)])) (concat (jenc_map (mp_encoder E) kvs)) (acc @ kv # kvs)"
    using Cons.IH [of "acc @ [(k, y)]"] Cons.prems kv by simp
  ultimately have "reads (mp_bind (read_mapped r k' acc) (foreach_jfld E kk (read_mapped r) (length kvs)))
      (jenc (mp_encoder E) y @ concat (jenc_map (mp_encoder E) kvs)) (acc @ kv # kvs)"
    by (rule reads_bind)
  then show ?case
    using reads_bind [OF k'(1)] kv by simp
qed

section \<open>Every document that fits\<close>

lemma jenc_elms_map: "jenc_elms J xs = map (jenc J) xs"
  by (induction xs) simp_all

lemma jelms_ok_all: "jelms_ok J xs \<longleftrightarrow> list_all (jdoc_ok J) xs"
  by (induction xs) simp_all

lemma jreaders_map: "jreaders E ds = map (read_jval E) ds"
  by (induction ds) simp_all

lemma jenc_wrap [simp]: "jenc J (jwrap d x) = jenc J x" "jdoc_ok J (jwrap d x) = jdoc_ok J x"
  "keep_opt k (jwrap d x) = Jf_opt k (Some x)" "keep_keyed nullable k (jwrap d x) = Jf_keyed nullable k (Some x)"
  by (cases d; simp)+

lemma headers_nonempty: "str_header E n \<noteq> []" "bin_header E n \<noteq> []" "arr_header E n \<noteq> []" "mp_obj_header E m c \<noteq> []"
  using str_header_pos(1-3) [of E n] str_header_pos(4) [of E m c] by auto

lemma jenc_pos: "jenc (mp_encoder E) x \<noteq> []"
proof -
  have "jenc (mp_encoder E) x \<noteq> []" and True for g :: jfld
  proof (induction x and g)
    case (Jd_arith T v)
    then show ?case
      using mp_arith_enc_pos [of E T v] by auto
  next
    case (Jd_optional ox)
    then show ?case
      by (cases ox) (auto simp: mpw_nil_def write_lsb_def)
  next
    case (Jd_variant nullable ox)
    then show ?case
      by (cases ox) (auto simp: mpw_nil_def write_lsb_def)
  qed (simp_all add: mpw_nil_def write_lsb_def headers_nonempty)
  then show ?thesis
    by blast
qed

text \<open>What the definition reads back.\<close>

definition reads_doc :: "endian_codec \<Rightarrow> jdef \<Rightarrow> bool" where
  "reads_doc E d \<longleftrightarrow>
     (\<forall>x. jfits E d x \<and> jdoc_ok (mp_encoder E) x \<longrightarrow> reads (read_jval E d) (jenc (mp_encoder E) x) x)"

lemma reads_docD: "reads_doc E d \<Longrightarrow> jfits E d x \<Longrightarrow> jdoc_ok (mp_encoder E) x \<Longrightarrow> reads (read_jval E d) (jenc (mp_encoder E) x) x"
  by (simp add: reads_doc_def)

lemma reads_all:
  assumes "\<And>d. d \<in> set ds \<Longrightarrow> reads_doc E d" "fits_all (map (jfits E) ds) xs" "jelms_ok (mp_encoder E) xs"
  shows "list_all2 (\<lambda>r x. reads r (jenc (mp_encoder E) x) x) (jreaders E ds) xs"
  using assms
  by (auto simp: fits_all_def jreaders_map jelms_ok_all list_all2_conv_all_nth list_all_length intro!: reads_docD)

lemma jflds_ok_Cons: "jflds_ok J (g # gs) \<longleftrightarrow> jflds_ok J [g] \<and> jflds_ok J gs"
  by (cases "(J, g # gs)" rule: jflds_ok.cases) auto

lemma reads_obj_doc:
  assumes "endian_ok E" "list_all2 (fld_reads E) fs gs" "keys_fit (map fd_key fs)" "0 < jcount gs" "jdoc_ok (mp_encoder E) (Jd_obj gs)"
  shows "reads (read_jval E (Df_obj fs)) (jenc (mp_encoder E) (Jd_obj gs)) (Jd_obj gs)"
  using reads_object [OF assms(1-4)] assms(5) by simp

lemma reads_map_doc:
  assumes ok: "endian_ok E" and kvs: "distinct (map fst kvs)" "list_all (\<lambda>(k, y). map_key_fits kk k \<and> jfits E d y) kvs"
    and d: "reads_doc E d" and "jdoc_ok (mp_encoder E) (Jd_map kvs)"
  shows "reads (read_jval E (Df_map kk d)) (jenc (mp_encoder E) (Jd_map kvs)) (Jd_map kvs)"
proof -
  have n: "length kvs < 2 ^ 31" and okm: "jmap_ok (mp_encoder E) kvs"
    using assms(5) by simp_all
  have "list_all (\<lambda>(k, y). map_key_fits kk k \<and> reads (read_jval E d) (jenc (mp_encoder E) y) y) kvs"
    using kvs(2) okm
  proof (induction kvs)
    case (Cons kv kvs)
    then show ?case
      using reads_docD [OF d] by (cases kv) simp
  qed simp
  then have "reads (foreach_jfld E kk (read_mapped (read_jval E d)) (length kvs) []) (concat (jenc_map (mp_encoder E) kvs)) ([] @ kvs)"
    using reads_map_flds [OF ok, where acc = "[]" and r = "read_jval E d" and kk = kk and kvs = kvs] kvs(1) by simp
  from reads_bind_return [where g = Jd_map, OF this] show ?thesis
    using reads_bind [OF reads_obj_header [OF ok order.refl n]] by simp
qed

lemma fld_reads_value:
  assumes "jentries E [fd] = [En_fld k z w (read_jval E d)]" "fd_key fd = k" "w y = g" "jcount [g] = 1"
    and "jenc_flds (mp_encoder E) [g] = [mp_key_enc E k @ jenc (mp_encoder E) y]"
    and "reads_doc E d" "jfits E d y" "jdoc_ok (mp_encoder E) y"
  shows "fld_reads E fd g"
  unfolding fld_reads_def using assms reads_docD [of E d y] by (intro exI [of _ z] exI [of _ w] exI [of _ "read_jval E d"] exI [of _ "Some y"]) auto

lemma fld_reads_absent:
  assumes "jentries E [fd] = [En_fld (fd_key fd) (Some g) w r]" "jenc_flds (mp_encoder E) [g] = []" "jcount [g] = 0"
  shows "fld_reads E fd g"
  unfolding fld_reads_def using assms by (intro exI [of _ "Some g"] exI [of _ w] exI [of _ r] exI [of _ "None :: jdoc option"]) simp

lemma reads_fits:
  assumes ok: "endian_ok E"
  shows "reads_doc E d" and "jfits_fld E fd g \<Longrightarrow> jflds_ok (mp_encoder E) [g] \<Longrightarrow> fld_reads E fd g"
proof (induction d and fd arbitrary: and g)
  case (Df_arith T)
  show ?case
    using reads_arith [OF ok] by (auto simp: reads_doc_def split: jdoc.splits)
next
  case Df_str
  show ?case
    using reads_bind_return [where g = Jd_str, OF reads_str [OF ok]] by (auto simp: reads_doc_def split: jdoc.splits)
next
  case Df_noescape
  show ?case
    using reads_bind_return [where g = Jd_noescape, OF reads_str [OF ok]] by (auto simp: reads_doc_def split: jdoc.splits)
next
  case Df_binary
  show ?case
    using reads_bind_return [where g = Jd_binary, OF reads_bin(1) [OF ok]] by (auto simp: reads_doc_def split: jdoc.splits)
next
  case Df_skip
  show ?case
    by (simp add: reads_doc_def)
next
  case (Df_optional d)
  show ?case
    unfolding reads_doc_def
  proof (intro allI impI, elim conjE)
    fix x
    assume fits: "jfits E (Df_optional d) x" and okx: "jdoc_ok (mp_encoder E) x"
    obtain ox where x: "x = Jd_optional ox"
      using fits by (simp split: jdoc.splits)
    show "reads (read_jval E (Df_optional d)) (jenc (mp_encoder E) x) x"
    proof (cases ox)
      case None
      then show ?thesis
        using x reads_null by simp
    next
      case (Some y)
      then have y: "jfits E d y" "jtag E y \<noteq> Some (to_byte msgpack_nil)" "jdoc_ok (mp_encoder E) y"
        using fits okx x by simp_all
      show ?thesis
      proof (cases "jenc (mp_encoder E) y")
        case (Cons b bs)
        then show ?thesis
          using reads_optional [where g = "\<lambda>x. Jd_optional (Some x)", OF reads_docD [OF Df_optional y(1,3)]] y(2) x Some
          by (simp add: jtag_def)
      qed (simp add: jenc_pos)
    qed
  qed
next
  case (Df_variant nullable ds)
  show ?case
    unfolding reads_doc_def
  proof (intro allI impI, elim conjE)
    fix x
    assume fits: "jfits E (Df_variant nullable ds) x" and okx: "jdoc_ok (mp_encoder E) x"
    then obtain y i where x: "x = Jd_variant nullable (Some y)" and i: "i < length ds" "alt_index E ds y = Some (Suc i)"
      "jfits E (ds ! i) y" "jdoc_ok (mp_encoder E) y"
      by (auto split: jdoc.splits option.splits)
    show "reads (read_jval E (Df_variant nullable ds)) (jenc (mp_encoder E) x) x"
      using reads_variant [OF i(2,1) reads_docD [OF Df_variant i(3,4)]] i(1) x by simp
  qed
next
  case (Df_range d)
  have "reads (read_elms (read_jval E d) (length xs)) (concat (map (jenc (mp_encoder E)) xs)) xs"
    if "list_all (jfits E d) xs" "jelms_ok (mp_encoder E) xs" for xs
    using that reads_docD [OF Df_range] by (intro reads_elms) (auto simp: list_all_iff jelms_ok_all)
  then show ?case
    using reads_bind [OF reads_arr_iter [OF ok] reads_bind_return [where g = Jd_range]]
    by (auto simp: reads_doc_def jenc_elms_map split: jdoc.splits)
next
  case (Df_fixed k d)
  have "list_all2 (\<lambda>r x. reads r (jenc (mp_encoder E) x) x) (replicate (length xs) (read_jval E d)) xs"
    if "list_all (jfits E d) xs" "jelms_ok (mp_encoder E) xs" for xs
    using that reads_docD [OF Df_fixed] by (auto simp: list_all2_conv_all_nth list_all_length jelms_ok_all)
  then show ?case
    using reads_bind_return [where g = Jd_range, OF reads_tuple(2) [OF ok]]
    by (auto simp: reads_doc_def jenc_elms_map split: jdoc.splits)
next
  case (Df_tuple exact m ds)
  then show ?case
    using reads_bind_return [where g = "Jd_tuple m", OF reads_tuple(1) [OF ok reads_all [of ds E]]]
    by (auto simp: reads_doc_def jenc_elms_map split: jdoc.splits)
next
  case (Df_arr exact ds)
  then show ?case
    using reads_bind_return [where g = Jd_arr, OF reads_tuple(1) [OF ok reads_all [of ds E]]]
    by (auto simp: reads_doc_def jenc_elms_map split: jdoc.splits)
next
  case (Df_obj fs)
  have "list_all2 (fld_reads E) fs gs" if "fits_all (map (jfits_fld E) fs) gs" "jflds_ok (mp_encoder E) gs" for gs
    using Df_obj that
  proof (induction fs arbitrary: gs)
    case (Cons fd fs)
    obtain g gs' where gs: "gs = g # gs'" "jfits_fld E fd g" "fits_all (map (jfits_fld E) fs) gs'"
      using Cons.prems(2) by (auto simp: fits_all_def list_all2_Cons1)
    then have "jflds_ok (mp_encoder E) [g]" "jflds_ok (mp_encoder E) gs'"
      using Cons.prems(3) jflds_ok_Cons [of "mp_encoder E" g gs'] by simp_all
    then show ?case
      using Cons.IH [of gs'] Cons.prems(1) gs by simp
  qed (simp add: fits_all_def)
  then show ?case
    using reads_obj_doc [OF ok] by (auto simp: reads_doc_def split: jdoc.splits)
next
  case (Df_map kk d)
  then show ?case
    using reads_map_doc [OF ok] by (auto simp: reads_doc_def split: jdoc.splits)
next
  case (Df_check P d)
  then show ?case
    by (auto simp: reads_doc_def intro: reads_bind_same)
next
  case (Df_exam P d)
  then show ?case
    by (auto simp: reads_doc_def intro: reads_bind_same)
next
  case (Df_conv conv d)
  then show ?case
    by (auto simp: reads_doc_def intro: reads_bind_same)
next
  case (Fd_val k d)
  then show ?case
    by (intro fld_reads_value [where w = "\<lambda>x. Jf_val k x"]) (auto split: jfld.splits)
next
  case (Fd_cleared k z d)
  then show ?case
    by (intro fld_reads_value [where w = "\<lambda>x. Jf_val k x"]) (auto split: jfld.splits)
next
  case (Fd_opt k d)
  obtain ox where g: "g = Jf_opt k ox"
    using Fd_opt.prems(1) by (auto split: jfld.splits)
  show ?case
  proof (cases ox)
    case None
    then show ?thesis
      using g by (intro fld_reads_absent) simp_all
  next
    case (Some x)
    then show ?thesis
      using g Fd_opt by (intro fld_reads_value [where w = "keep_opt k" and y = "jwrap d x"]) simp_all
  qed
next
  case (Fd_keyed nullable k d)
  then obtain x where g: "g = Jf_keyed nullable k (Some x)"
    by (auto split: jfld.splits option.splits)
  then show ?case
    using Fd_keyed by (intro fld_reads_value [where w = "keep_keyed nullable k" and y = "jwrap d x"]) simp_all
next
  case (Fd_nested fs)
  then show ?case
    by simp
qed

section \<open>Properties\<close>

lemma jread_new: "b = x @ rest \<Longrightarrow> reads (read_jval E d) x y \<Longrightarrow> jread E d b 0 = Some (Inr (y, length x))"
proof -
  assume b: "b = x @ rest" "reads (read_jval E d) x y"
  obtain s where s: "mp_value_new b 0 = Some s" "mv_at s (x @ rest)"
    using mv_at_new [of b] b(1) by auto
  moreover have "mv_p s = 0"
    using s(1) by (auto simp: mp_value_new_def split: if_splits)
  ultimately show ?thesis
    using readsD [OF b(2) s(2)] by (simp add: jread_def mv_advance_def)
qed



section \<open>What does not come back\<close>

text \<open>
  A variant that reads null as its empty alternative leaves the null where it is, so the next value read is
  the same null again: a range of such variants that starts with one has nothing else in it.
\<close>

lemma null_alternative_stays:
  assumes "mv_at s (mpw_nil [] @ rest)"
  shows "read_jval E (Df_variant True ds) s = (Inr (Jd_variant True None), s)"
proof -
  have at: "mv_at s (to_byte msgpack_nil # rest)"
    using assms by (simp add: mpw_nil_def write_lsb_def)
  have "type_matches (uint (to_byte msgpack_nil)) J_null"
    by (simp add: to_byte_def tag_defs)
  then have "get_jval_matched_type (J_null # map alt_type ds) s = (Inr 0, s)"
    using at_byte(1) [OF at] by (simp add: get_jval_matched_type_def mp_bind_def mp_return_def)
  then show ?thesis
    by (simp add: mp_bind_def mp_return_def)
qed

lemma null_alternative_repeats:
  assumes "mv_at s (mpw_nil [] @ rest)"
  shows "read_elms (read_jval E (Df_variant True ds)) n s = (Inr (replicate n (Jd_variant True None)), s)"
proof (induction n)
  case (Suc n)
  then show ?case
    using null_alternative_stays [OF assms, of E ds] by (simp add: mp_bind_def mp_return_def del: read_jval.simps)
qed (simp add: mp_return_def)

text \<open>A target of type \<open>nullptr\<close> does not skip its element: the next target gets it.\<close>

lemma skipped_element_is_read:
  "reads (read_jval E d) y x \<Longrightarrow> reads (read_from_iter (jreaders E [Df_skip, d]) 2) y ([Jd_null, x], 0)"
  unfolding reads_def by (simp add: iter_bool_def iter_next_Suc mp_bind_def mp_return_def)

text \<open>
  What is left of an object after its last key was found is skipped as if each field was one value: after a
  field that nobody asked for, the reader stands between its key and its value.
\<close>

lemma unknown_field_is_half_skipped:
  assumes it: "li_n it = Suc (li_i it)" "li_n it < 2 ^ 32" and at: "mv_at s (mp_key_enc E k @ rest)"
    and k: "endian_ok E" "jok_key (mp_encoder E) k" "length (mp_key_enc E k) < 2 ^ 64"
  shows "loop_skip_remains E it s = (Inr (), mv_advance (length (mp_key_enc E k)) s)"
proof -
  have "(li_n it + (2 ^ 32 - li_i it)) mod 2 ^ 32 = 0 + 1"
    using it by simp
  then have "loop_skip_remains E it s = mp_skip E (0 + 1) s"
    unfolding loop_skip_remains_def by (simp only:)
  also have "\<dots> = mp_skip E 0 (mv_advance (length (mp_key_enc E k)) s)"
    using skips_key [OF k(1,2)] at k(3) by (intro skipsD) auto
  finally show ?thesis
    by (simp add: mp_skip.simps)
qed

end
