(* ===== verification/Str_View.thy ===== *)
theory Str_View
  imports Ascii_Props
begin

text \<open>
  The searches of \<open>std::string_view\<close> that the HTTP headers use. A position is a natural number, the
  result of a search that fails (\<open>npos\<close>) is \<open>None\<close>. A literal of the source is \<open>chars ''...''\<close>.
\<close>

section \<open>Model\<close>

definition chars :: "string \<Rightarrow> bytes" where
  "chars s = map of_char s"

text \<open>The first position from \<open>p\<close> on whose character satisfies \<open>P\<close>.\<close>

definition sv_find_if :: "(u8 \<Rightarrow> bool) \<Rightarrow> bytes \<Rightarrow> nat \<Rightarrow> nat option" where
  "sv_find_if P s p =
     (let n = p + length (takeWhile (\<lambda>c. \<not> P c) (drop p s)) in if n < length s then Some n else None)"

definition sv_find :: "bytes \<Rightarrow> u8 \<Rightarrow> nat \<Rightarrow> nat option" where
  "sv_find s c p = sv_find_if (\<lambda>x. x = c) s p"

definition sv_find_first_of :: "bytes \<Rightarrow> bytes \<Rightarrow> nat \<Rightarrow> nat option" where
  "sv_find_first_of s cs p = sv_find_if (\<lambda>x. x \<in> set cs) s p"

definition sv_find_first_not_of :: "bytes \<Rightarrow> bytes \<Rightarrow> nat \<Rightarrow> nat option" where
  "sv_find_first_not_of s cs p = sv_find_if (\<lambda>x. x \<notin> set cs) s p"

text \<open>\<open>substr\<close> from a position within the string; the count is clipped.\<close>

definition sv_substr :: "bytes \<Rightarrow> nat \<Rightarrow> nat \<Rightarrow> bytes" where
  "sv_substr s p n = take n (drop p s)"

section \<open>Lemmas\<close>

lemmas sv_defs = sv_find_def sv_find_first_of_def sv_find_first_not_of_def

lemma sv_find_if_SomeD:
  assumes "sv_find_if P s p = Some q"
  shows "p \<le> q \<and> q < length s \<and> P (s ! q)"
proof -
  define n where "n = length (takeWhile (\<lambda>c. \<not> P c) (drop p s))"
  have q: "q = p + n" "q < length s"
    using assms by (simp_all add: sv_find_if_def n_def Let_def split: if_splits)
  have "n < length (drop p s)"
    using q by simp
  then have "\<not> \<not> P (drop p s ! n)"
    unfolding n_def by (rule nth_length_takeWhile)
  then show ?thesis
    using q by simp
qed

lemma takeWhile_shorter: "x \<in> set s \<Longrightarrow> \<not> P x \<Longrightarrow> length (takeWhile P s) < length s"
  by (induction s) auto

lemma find_in: "x \<in> set xs \<Longrightarrow> P x \<Longrightarrow> \<exists>y \<in> set xs. find P xs = Some y"
  by (induction xs) auto

text \<open>What a search finds that starts at the end of \<open>ws\<close>.\<close>

lemma sv_find_if_at:
  assumes "n = length ws" "list_all (\<lambda>x. \<not> P x) xs" "ys \<noteq> []" "P (hd ys)"
  shows "sv_find_if P (ws @ xs @ ys) n = Some (n + length xs)"
proof -
  have "takeWhile (\<lambda>x. \<not> P x) (xs @ ys) = xs"
    using assms by (subst takeWhile_append2) (auto simp: list_all_iff neq_Nil_conv)
  then show ?thesis
    using assms(1,3) by (simp add: sv_find_if_def)
qed

lemma sv_find_if_end:
  assumes "n = length ws" "list_all (\<lambda>x. \<not> P x) xs"
  shows "sv_find_if P (ws @ xs) n = None"
proof -
  have "takeWhile (\<lambda>x. \<not> P x) xs = xs"
    using assms(2) by (simp add: list_all_iff takeWhile_eq_all_conv)
  then have "\<not> length (takeWhile (\<lambda>x. \<not> P x) xs) < length xs"
    by (metis less_irrefl)
  then show ?thesis
    using assms(1) by (simp add: sv_find_if_def)
qed

lemma sv_substr_at: "n = length ws \<Longrightarrow> m = length xs \<Longrightarrow> sv_substr (ws @ xs @ ys) n m = xs"
  by (simp add: sv_substr_def)

lemma nth_at: "n = length ws \<Longrightarrow> ys \<noteq> [] \<Longrightarrow> (ws @ ys) ! n = hd ys"
  by (cases ys) auto

end
