(* ===== verification/Content_Type.thy ===== *)
theory Content_Type
  imports Str_View
begin

text \<open>
  The Content-Type header, \<open>include/dsk/http/content_type.hpp\<close>: the media type, the character set and
  the boundary, from the values of all fields of that name.
\<close>

section \<open>Model\<close>

record http_content_type =
  ct_mime :: bytes
  ct_charset :: bytes
  ct_boundary :: bytes

definition ct_empty :: http_content_type where
  "ct_empty = \<lparr>ct_mime = [], ct_charset = [], ct_boundary = []\<rparr>"

definition is_http_lws :: "u8 \<Rightarrow> bool" where
  "is_http_lws c \<longleftrightarrow> c = 0x20 \<or> c = 0x09"

text \<open>The loops that trim spaces at both ends of \<open>[vbeg, vend)\<close>.\<close>

function ct_trim_beg :: "bytes \<Rightarrow> nat \<Rightarrow> nat \<Rightarrow> nat" where
  "ct_trim_beg str vbeg vend =
     (if vbeg < vend \<and> is_http_lws (str ! vbeg) then ct_trim_beg str (vbeg + 1) vend else vbeg)"
  by pat_completeness auto

termination
  by (relation "measure (\<lambda>(str, vbeg, vend). vend - vbeg)") auto

function ct_trim_end :: "bytes \<Rightarrow> nat \<Rightarrow> nat \<Rightarrow> nat" where
  "ct_trim_end str vbeg vend =
     (if vbeg < vend \<and> is_http_lws (str ! (vend - 1)) then ct_trim_end str vbeg (vend - 1) else vend)"
  by pat_completeness auto

termination
  by (relation "measure (\<lambda>(str, vbeg, vend). vend)") auto

declare ct_trim_beg.simps [simp del] ct_trim_end.simps [simp del]

text \<open>The loop that copies a quoted string.\<close>

function ct_unquote :: "bytes \<Rightarrow> nat \<Rightarrow> nat \<Rightarrow> bytes \<Rightarrow> bytes" where
  "ct_unquote str vbeg vend value =
     (if vbeg < vend \<and> str ! vbeg \<noteq> 0x22
      then (let vbeg = (if str ! vbeg = 0x5c \<and> vbeg + 1 < vend then vbeg + 1 else vbeg)
            in ct_unquote str (vbeg + 1) vend (value @ [str ! vbeg]))
      else value)"
  by pat_completeness auto

termination
  by (relation "measure (\<lambda>(str, vbeg, vend, value). vend - vbeg)") auto

declare ct_unquote.simps [simp del]

text \<open>The value of a parameter that starts at \<open>offset\<close>, and where the search for the next one ends.\<close>

definition ct_value :: "bytes \<Rightarrow> nat \<Rightarrow> bytes \<times> nat option" where
  "ct_value str offset =
     (if str ! offset \<noteq> 0x22
      then (let vbeg = offset;
                next = sv_find str 0x3b offset;
                vend = (case next of None \<Rightarrow> length str | Some e \<Rightarrow> e);
                vend = ct_trim_end str vbeg vend
            in (sv_substr str vbeg (vend - vbeg), next))
      else (let vbeg = offset + 1;
                close = sv_find str 0x22 vbeg;
                vend = (case close of None \<Rightarrow> length str | Some e \<Rightarrow> e);
                vbeg = ct_trim_beg str vbeg vend;
                vend = ct_trim_end str vbeg vend
            in (ct_unquote str vbeg vend [], Option.bind close (sv_find str 0x3b))))"

definition ct_set :: "bytes \<Rightarrow> bytes \<Rightarrow> http_content_type \<Rightarrow> http_content_type" where
  "ct_set name value t =
     (if ct_charset t = [] \<and> ascii_iequal False name (chars ''charset'')
      then t\<lparr>ct_charset := ascii_tolower_inplace value\<rparr>
      else if ct_boundary t = [] \<and> ascii_iequal False name (chars ''boundary'')
      then t\<lparr>ct_boundary := value\<rparr>
      else t)"

text \<open>
  One round of the loop over the parameters, from a semicolon: the position of the next semicolon, or
  \<open>None\<close> when the loop returns. The whole result is \<open>None\<close> when an assertion fails.
\<close>

definition ct_param :: "bytes \<Rightarrow> nat \<Rightarrow> http_content_type \<Rightarrow> (http_content_type \<times> nat option) option" where
  "ct_param str offset t =
     (if str ! offset \<noteq> 0x3b then None
      else case sv_find_first_not_of str [0x20, 0x09] (offset + 1) of
        None \<Rightarrow> Some (t, None)
      | Some nameBeg \<Rightarrow>
          (case sv_find_first_of str [0x3b, 0x3d] nameBeg of
             None \<Rightarrow> Some (t, None)
           | Some offset \<Rightarrow>
               if str ! offset = 0x3b then Some (t, Some offset)
               else if str ! offset \<noteq> 0x3d then None
               else (let name = sv_substr str nameBeg (offset - nameBeg)
                     in case sv_find_first_not_of str [0x20, 0x09] (offset + 1) of
                          None \<Rightarrow> Some (t, None)
                        | Some offset \<Rightarrow>
                            if str ! offset = 0x3b then Some (t, Some offset)
                            else (let (value, next) = ct_value str offset
                                  in Some (ct_set name value t, next)))))"

lemma ct_value_next: "snd (ct_value str p) = Some q \<Longrightarrow> p \<le> q \<and> q < length str \<and> str ! q = 0x3b"
  by (auto simp: ct_value_def sv_defs Let_def dest!: sv_find_if_SomeD
      split: if_splits Option.bind_splits option.splits)

lemma ct_param_next: "ct_param str p t = Some (t', Some q) \<Longrightarrow> p < q \<and> q < length str \<and> str ! q = 0x3b"
  by (auto simp: ct_param_def sv_defs Let_def split_beta dest!: sv_find_if_SomeD ct_value_next
      split: if_splits option.splits)

function ct_params :: "bytes \<Rightarrow> nat \<Rightarrow> http_content_type \<Rightarrow> http_content_type option" where
  "ct_params str offset t =
     (case ct_param str offset t of
        None \<Rightarrow> None
      | Some (t', None) \<Rightarrow> Some t'
      | Some (t', Some offset') \<Rightarrow> ct_params str offset' t')"
  by pat_completeness auto

termination
  by (relation "measure (\<lambda>(str, offset, t). length str - offset)") (auto dest: ct_param_next)

declare ct_params.simps [simp del]

text \<open>One value of the header.\<close>

definition ct_parse :: "bytes \<Rightarrow> http_content_type \<Rightarrow> http_content_type option" where
  "ct_parse str t =
     (case sv_find_first_not_of str [0x20, 0x09] 0 of
        None \<Rightarrow> Some t
      | Some mimeBeg \<Rightarrow>
          (let mimeEnd = sv_find_first_of str [0x20, 0x09, 0x3b, 0x28] mimeBeg;
               mv = sv_substr str mimeBeg (case mimeEnd of None \<Rightarrow> length str | Some e \<Rightarrow> e - mimeBeg);
               q = sv_find mv 0x2f 0
           in if q = None \<or> q = Some 0 \<or> q = Some (length mv - 1) \<or> mv = chars ''*/*'' then Some t
              else (let t = t\<lparr>ct_mime := ascii_tolower_assign (ct_mime t) mv\<rparr>
                    in case mimeEnd of
                         None \<Rightarrow> Some t
                       | Some e \<Rightarrow>
                           (case sv_find str 0x3b e of None \<Rightarrow> Some t | Some offset \<Rightarrow> ct_params str offset t))))"

text \<open>All fields of a message.\<close>

fun ct_parse_fields :: "bytes list \<Rightarrow> http_content_type \<Rightarrow> http_content_type option" where
  "ct_parse_fields [] t = Some t"
| "ct_parse_fields (v # vs) t = Option.bind (ct_parse v t) (ct_parse_fields vs)"

definition parse_http_content_type :: "bytes list \<Rightarrow> http_content_type option" where
  "parse_http_content_type vs = ct_parse_fields vs ct_empty"

section \<open>No assertion fails\<close>

lemma ct_param_total: "str ! p = 0x3b \<Longrightarrow> ct_param str p t \<noteq> None"
  by (auto simp: ct_param_def sv_defs Let_def split_beta dest!: sv_find_if_SomeD split: option.splits)

lemma ct_params_total: "str ! p = 0x3b \<Longrightarrow> ct_params str p t \<noteq> None"
proof (induction str p t rule: ct_params.induct)
  case (1 str p t)
  obtain t' next' where s: "ct_param str p t = Some (t', next')"
    using ct_param_total [OF 1(2), of t] by (cases "ct_param str p t") auto
  show ?case
    using 1(1) s ct_param_next by (subst ct_params.simps) (auto split: option.splits)
qed

lemma ct_parse_total: "ct_parse str t \<noteq> None"
  using ct_params_total by (auto simp: ct_parse_def sv_defs Let_def dest!: sv_find_if_SomeD split: option.splits)

text \<open>
  Parsing the Content-Type fields of a message ends for every input, and neither of its assertions
  (each round of the loop starts at a semicolon, a name ends at an equals sign) fails.
\<close>

lemma content_type_always_parses: "\<exists>t. parse_http_content_type vs = Some t"
proof -
  have "\<exists>t. ct_parse_fields vs t0 = Some t" for t0
  proof (induction vs arbitrary: t0)
    case (Cons v vs)
    then show ?case
      using ct_parse_total [of v t0] by (cases "ct_parse v t0") auto
  qed simp
  then show ?thesis
    by (simp add: parse_http_content_type_def)
qed

section \<open>Headers and their texts\<close>

text \<open>A parameter: spaces, its name, spaces after the equals sign, its value as a token or quoted.\<close>

datatype ct_form = Ct_token bytes | Ct_quoted bytes

type_synonym ct_par = "bytes \<times> bytes \<times> bytes \<times> ct_form"

fun ct_escape :: "bytes \<Rightarrow> bytes" where
  "ct_escape [] = []"
| "ct_escape (c # s) = (if c = 0x5c then [0x5c, 0x5c] else [c]) @ ct_escape s"

fun ct_form_text :: "ct_form \<Rightarrow> bytes" where
  "ct_form_text (Ct_token v) = v"
| "ct_form_text (Ct_quoted v) = 0x22 # ct_escape v @ [0x22]"

fun ct_form_val :: "ct_form \<Rightarrow> bytes" where
  "ct_form_val (Ct_token v) = v"
| "ct_form_val (Ct_quoted v) = v"

definition no_lws_ends :: "bytes \<Rightarrow> bool" where
  "no_lws_ends v \<longleftrightarrow> v = [] \<or> \<not> is_http_lws (hd v) \<and> \<not> is_http_lws (last v)"

fun ct_form_ok :: "ct_form \<Rightarrow> bool" where
  "ct_form_ok (Ct_token v) \<longleftrightarrow> v \<noteq> [] \<and> no_lws_ends v \<and> hd v \<noteq> 0x22 \<and> 0x3b \<notin> set v"
| "ct_form_ok (Ct_quoted v) \<longleftrightarrow> no_lws_ends v \<and> 0x22 \<notin> set v"

fun ct_par_ok :: "ct_par \<Rightarrow> bool" where
  "ct_par_ok (sp1, name, sp2, f) \<longleftrightarrow>
     list_all is_http_lws sp1 \<and> list_all is_http_lws sp2 \<and> no_lws_ends (take 1 name) \<and>
     0x3b \<notin> set name \<and> 0x3d \<notin> set name \<and> ct_form_ok f"

fun ct_par_text :: "ct_par \<Rightarrow> bytes" where
  "ct_par_text (sp1, name, sp2, f) = 0x3b # sp1 @ name @ 0x3d # sp2 @ ct_form_text f"

definition ct_text :: "bytes \<Rightarrow> ct_par list \<Rightarrow> bytes" where
  "ct_text m ps = m @ concat (map ct_par_text ps)"

text \<open>The text of what may follow a parameter: nothing, or the next one.\<close>

definition ct_rest :: "bytes \<Rightarrow> bool" where
  "ct_rest rest \<longleftrightarrow> rest = [] \<or> hd rest = 0x3b"

definition ct_next :: "nat \<Rightarrow> bytes \<Rightarrow> nat option" where
  "ct_next n rest = (if rest = [] then None else Some n)"

lemma escape_Nil_iff [simp]: "ct_escape v = [] \<longleftrightarrow> v = []"
  by (cases v) auto

lemma escape_no_quote: "0x22 \<notin> set v \<Longrightarrow> list_all (\<lambda>x. x \<noteq> 0x22) (ct_escape v)"
  by (induction v) auto

lemma escape_ends: "v \<noteq> [] \<Longrightarrow> hd (ct_escape v) = hd v \<and> last (ct_escape v) = last v"
  by (induction v) auto

lemma trim_beg_stop:
  "n = length ws \<Longrightarrow> no_lws_ends xs \<Longrightarrow> m = n + length xs \<Longrightarrow> ct_trim_beg (ws @ xs @ ys) n m = n"
  by (subst ct_trim_beg.simps) (cases xs, auto simp: no_lws_ends_def)

lemma trim_end_stop:
  "n = length ws \<Longrightarrow> no_lws_ends xs \<Longrightarrow> m = n + length xs \<Longrightarrow> ct_trim_end (ws @ xs @ ys) n m = m"
  by (subst ct_trim_end.simps) (cases xs rule: rev_cases, auto simp: no_lws_ends_def nth_append)

lemma unquote_stop: "\<not> n < m \<Longrightarrow> ct_unquote str n m value = value"
  by (subst ct_unquote.simps) simp

lemma unquote_escape:
  "0x22 \<notin> set v \<Longrightarrow> n = length ws \<Longrightarrow> m = n + length (ct_escape v) \<Longrightarrow>
   ct_unquote (ws @ ct_escape v @ ys) n m acc = acc @ v"
proof (induction v arbitrary: ws n acc)
  case Nil
  then show ?case
    by (simp add: unquote_stop)
next
  case (Cons c v)
  let ?cs = "if c = 0x5c then [0x5c, 0x5c] else [c]"
  have str: "ws @ ct_escape (c # v) @ ys = (ws @ ?cs) @ ct_escape v @ ys"
    by simp
  have "ct_unquote (ws @ ct_escape (c # v) @ ys) n m acc =
        ct_unquote ((ws @ ?cs) @ ct_escape v @ ys) (n + length ?cs) m (acc @ [c])"
    using Cons.prems by (subst ct_unquote.simps) (auto simp: nth_append Let_def)
  then show ?case
    using Cons.IH [of "n + length ?cs" "ws @ ?cs" "acc @ [c]"] Cons.prems by simp
qed

section \<open>A header is read as its parameters\<close>

lemma find_next:
  assumes "n = length ws" "list_all (\<lambda>x. x \<noteq> 0x3b) xs" "ct_rest rest"
  shows "sv_find (ws @ xs @ rest) 0x3b n = ct_next (n + length xs) rest"
proof (cases "rest = []")
  case True
  then show ?thesis
    using sv_find_if_end [OF assms(1), of "\<lambda>x. x = 0x3b" xs] assms(2) by (simp add: sv_find_def ct_next_def)
next
  case False
  then show ?thesis
    using sv_find_if_at [OF assms(1), of "\<lambda>x. x = 0x3b" xs rest] assms(2,3)
    by (simp add: sv_find_def ct_next_def ct_rest_def)
qed

lemma ct_value_reads:
  assumes "n = length ws" "ct_form_ok f" "ct_rest rest"
  shows "ct_value (ws @ ct_form_text f @ rest) n = (ct_form_val f, ct_next (n + length (ct_form_text f)) rest)"
proof (cases f)
  case (Ct_token v)
  then have v: "v \<noteq> []" "no_lws_ends v" "hd v \<noteq> 0x22" "list_all (\<lambda>x. x \<noteq> 0x3b) v"
    using assms(2) by (auto simp: list_all_iff)
  have "sv_find (ws @ v @ rest) 0x3b n = ct_next (n + length v) rest"
    by (rule find_next [OF assms(1) v(4) assms(3)])
  moreover have "(ws @ v @ rest) ! n = hd v"
    using nth_at [OF assms(1), of "v @ rest"] v(1) by simp
  ultimately show ?thesis
    using Ct_token v assms(1) trim_end_stop [OF assms(1) v(2) refl, of rest]
    by (cases "rest = []") (simp_all add: ct_value_def ct_next_def sv_substr_def Let_def)
next
  case (Ct_quoted v)
  let ?x = "ct_escape v"
  let ?str = "ws @ ct_form_text f @ rest"
  have v: "0x22 \<notin> set v" "no_lws_ends ?x"
    using assms(2) Ct_quoted escape_ends [of v] by (auto simp: no_lws_ends_def)
  have str: "?str = (ws @ [0x22]) @ ?x @ 0x22 # rest" "?str = (ws @ 0x22 # ?x) @ [0x22] @ rest"
    using Ct_quoted by simp_all
  have n: "n + 1 = length (ws @ [0x22])" "n + 1 + length ?x = length (ws @ 0x22 # ?x)"
    using assms(1) by simp_all
  have "?str ! n = 0x22"
    using nth_at [OF assms(1), of "ct_form_text f @ rest"] Ct_quoted by simp
  moreover have "sv_find ?str 0x22 (n + 1) = Some (n + 1 + length ?x)"
    unfolding str(1) sv_find_def using escape_no_quote [OF v(1)] by (intro sv_find_if_at [OF n(1)]) simp_all
  moreover have "sv_find ?str 0x3b (n + 1 + length ?x) = ct_next (n + length (ct_form_text f)) rest"
    unfolding str(2) using find_next [OF n(2) _ assms(3), of "[0x22]"] Ct_quoted by simp
  moreover have "ct_trim_beg ?str (n + 1) (n + 1 + length ?x) = n + 1"
    "ct_trim_end ?str (n + 1) (n + 1 + length ?x) = n + 1 + length ?x"
    unfolding str(1) by (rule trim_beg_stop [OF n(1) v(2) refl] trim_end_stop [OF n(1) v(2) refl])+
  moreover have "ct_unquote ?str (n + 1) (n + 1 + length ?x) [] = v"
    unfolding str(1) using unquote_escape [OF v(1) n(1) refl, of "0x22 # rest" "[]"] by simp
  ultimately show ?thesis
    using Ct_quoted by (simp add: ct_value_def Let_def)
qed

lemma form_text_starts: "ct_form_ok f \<Longrightarrow>
    ct_form_text f \<noteq> [] \<and> \<not> is_http_lws (hd (ct_form_text f)) \<and> hd (ct_form_text f) \<noteq> 0x3b"
  using hd_in_set by (cases f) (fastforce simp: no_lws_ends_def is_http_lws_def)+

lemma skip_lws:
  assumes "n = length ws" "list_all is_http_lws sp" "ys \<noteq> []" "\<not> is_http_lws (hd ys)"
  shows "sv_find_first_not_of (ws @ sp @ ys) [0x20, 0x09] n = Some (n + length sp)"
  unfolding sv_find_first_not_of_def using assms
  by (intro sv_find_if_at) (auto simp: is_http_lws_def list_all_iff)

lemma ct_param_reads:
  assumes "n = length ws" "ct_par_ok (sp1, name, sp2, f)" "ct_rest rest"
  shows "ct_param (ws @ ct_par_text (sp1, name, sp2, f) @ rest) n t =
    Some (ct_set name (ct_form_val f) t, ct_next (n + length (ct_par_text (sp1, name, sp2, f))) rest)"
proof -
  let ?str = "ws @ ct_par_text (sp1, name, sp2, f) @ rest"
  let ?v = "ct_form_text f"
  define b where "b = n + 1 + length sp1"
  define e where "e = b + length name"
  define o' where "o' = e + 1 + length sp2"
  have str: "?str = (ws @ [0x3b]) @ sp1 @ (name @ 0x3d # sp2 @ ?v @ rest)"
    "?str = (ws @ 0x3b # sp1) @ name @ (0x3d # sp2 @ ?v @ rest)"
    "?str = (ws @ 0x3b # sp1 @ name) @ (0x3d # sp2 @ ?v @ rest)"
    "?str = (ws @ 0x3b # sp1 @ name @ [0x3d]) @ sp2 @ (?v @ rest)"
    "?str = (ws @ 0x3b # sp1 @ name @ 0x3d # sp2) @ ?v @ rest"
    by simp_all
  have len: "n + 1 = length (ws @ [0x3b])" "b = length (ws @ 0x3b # sp1)" "e = length (ws @ 0x3b # sp1 @ name)"
    "e + 1 = length (ws @ 0x3b # sp1 @ name @ [0x3d])" "o' = length (ws @ 0x3b # sp1 @ name @ 0x3d # sp2)"
    using assms(1) by (simp_all add: b_def e_def o'_def)
  have ok: "list_all is_http_lws sp1" "list_all is_http_lws sp2" "name = [] \<or> \<not> is_http_lws (hd name)"
    "list_all (\<lambda>x. x \<notin> set [0x3b, 0x3d]) name" "ct_form_ok f"
    using assms(2) by (cases name, auto simp: no_lws_ends_def list_all_iff)
  have v: "?v \<noteq> []" "\<not> is_http_lws (hd ?v)" "hd ?v \<noteq> 0x3b"
    using form_text_starts [OF ok(5)] by auto
  have "?str ! n = 0x3b"
    using nth_at [OF assms(1), of "ct_par_text (sp1, name, sp2, f) @ rest"] by simp
  moreover have "sv_find_first_not_of ?str [0x20, 0x09] (n + 1) = Some b"
    unfolding str(1) b_def using ok(1,3) by (intro skip_lws [OF len(1)]) (cases name; simp add: is_http_lws_def)+
  moreover have "sv_find_first_of ?str [0x3b, 0x3d] b = Some e"
    unfolding str(2) e_def sv_find_first_of_def using ok(4) by (intro sv_find_if_at [OF len(2)]) simp_all
  moreover have "?str ! e = 0x3d"
    unfolding str(3) by (subst nth_at [OF len(3)]) simp_all
  moreover have "sv_substr ?str b (e - b) = name"
    unfolding str(2) by (rule sv_substr_at [OF len(2)]) (simp add: e_def)
  moreover have "sv_find_first_not_of ?str [0x20, 0x09] (e + 1) = Some o'"
    unfolding str(4) o'_def using ok(2) v by (intro skip_lws [OF len(4)]) simp_all
  moreover have "?str ! o' \<noteq> 0x3b"
    unfolding str(5) using v by (subst nth_at [OF len(5)]) simp_all
  moreover have "ct_value ?str o' = (ct_form_val f, ct_next (n + length (ct_par_text (sp1, name, sp2, f))) rest)"
    unfolding str(5) using ct_value_reads [OF len(5) ok(5) assms(3)] by (simp add: o'_def e_def b_def add.assoc)
  ultimately show ?thesis
    by (simp add: ct_param_def)
qed

definition ct_set_par :: "ct_par \<Rightarrow> http_content_type \<Rightarrow> http_content_type" where
  "ct_set_par p t = (case p of (_, name, _, f) \<Rightarrow> ct_set name (ct_form_val f) t)"

lemma ct_params_read:
  "n = length ws \<Longrightarrow> ps \<noteq> [] \<Longrightarrow> list_all ct_par_ok ps \<Longrightarrow>
   ct_params (ws @ concat (map ct_par_text ps)) n t = Some (fold ct_set_par ps t)"
proof (induction ps arbitrary: ws n t)
  case (Cons p ps)
  obtain sp1 name sp2 f where p: "p = (sp1, name, sp2, f)"
    by (cases p) auto
  let ?rest = "concat (map ct_par_text ps)"
  have rest: "ct_rest ?rest" "?rest = [] \<longleftrightarrow> ps = []"
    by (cases ps, auto simp: ct_rest_def)+
  have step: "ct_param (ws @ concat (map ct_par_text (p # ps))) n t =
      Some (ct_set_par p t, ct_next (n + length (ct_par_text p)) ?rest)"
    using ct_param_reads [OF Cons.prems(1), of sp1 name sp2 f ?rest t] rest(1) Cons.prems(3) p
    by (simp add: ct_set_par_def)
  show ?case
  proof (cases "ps = []")
    case True
    then show ?thesis
      using step by (subst ct_params.simps) (simp add: ct_next_def)
  next
    case False
    have "ct_params ((ws @ ct_par_text p) @ ?rest) (n + length (ct_par_text p)) (ct_set_par p t) =
        Some (fold ct_set_par ps (ct_set_par p t))"
      using Cons.prems False by (intro Cons.IH) simp_all
    then show ?thesis
      using step False rest(2) by (subst ct_params.simps) (simp add: ct_next_def del: concat_eq_Nil_conv)
  qed
qed simp

text \<open>The value of the first parameter of that name that is not empty.\<close>

fun ct_first :: "bytes \<Rightarrow> ct_par list \<Rightarrow> bytes" where
  "ct_first n [] = []"
| "ct_first n ((_, name, _, f) # ps) =
     (if map ascii_tolower name = n \<and> ct_form_val f \<noteq> [] then ct_form_val f else ct_first n ps)"

lemma chars_lower: "map ascii_tolower (chars ''charset'') = chars ''charset''"
    "map ascii_tolower (chars ''boundary'') = chars ''boundary''" "chars ''charset'' \<noteq> chars ''boundary''"
  by code_simp+

lemma fold_set_par:
  "fold ct_set_par ps t =
     t\<lparr>ct_charset := (if ct_charset t \<noteq> [] then ct_charset t
                     else map ascii_tolower (ct_first (chars ''charset'') ps)),
       ct_boundary := (if ct_boundary t \<noteq> [] then ct_boundary t else ct_first (chars ''boundary'') ps)\<rparr>"
proof (induction ps arbitrary: t)
  case (Cons p ps)
  obtain sp1 name sp2 f where p: "p = (sp1, name, sp2, f)"
    by (cases p) auto
  have "ct_set_par p t =
     (if ct_charset t = [] \<and> map ascii_tolower name = chars ''charset''
      then t\<lparr>ct_charset := map ascii_tolower (ct_form_val f)\<rparr>
      else if ct_boundary t = [] \<and> map ascii_tolower name = chars ''boundary''
      then t\<lparr>ct_boundary := ct_form_val f\<rparr> else t)"
    using chars_lower by (simp add: p ct_set_par_def ct_set_def ascii_iequal_eq ascii_tolower_inplace_eq)
  then show ?case
    using chars_lower(3) by (auto simp: p Cons.IH)
qed simp

lemma mime_found:
  assumes "0x2f \<notin> set ty" "ty \<noteq> []" "sub \<noteq> []"
  shows "sv_find (ty @ 0x2f # sub) 0x2f 0 = Some (length ty)"
  using sv_find_if_at [of 0 "[]" "\<lambda>x. x = 0x2f" ty "0x2f # sub"] assms
  by (auto simp: sv_find_def list_all_iff)

text \<open>
  C38: A Content-Type header is read as what it says: the media type \<open>ty/sub\<close> in lower case, and for the
  character set and the boundary the first parameter of that name, in any case of letters, whose value is
  not empty, given as a token or as a quoted string with its backslashes escaped and possibly with
  semicolons in it; the character set in lower case. Spaces may stand before a name and after an equals
  sign.
\<close>

theorem content_type_reads_header:
  assumes "list_all (\<lambda>c. c \<notin> {0x20, 0x09, 0x3b, 0x28}) (ty @ 0x2f # sub)" "0x2f \<notin> set ty"
    and "ty \<noteq> []" "sub \<noteq> []" "ty @ 0x2f # sub \<noteq> chars ''*/*''" and "list_all ct_par_ok ps"
  shows "parse_http_content_type [ct_text (ty @ 0x2f # sub) ps] =
    Some \<lparr>ct_mime = map ascii_tolower (ty @ 0x2f # sub),
          ct_charset = map ascii_tolower (ct_first (chars ''charset'') ps),
          ct_boundary = ct_first (chars ''boundary'') ps\<rparr>"
proof -
  define m where "m = ty @ 0x2f # sub"
  let ?ps = "concat (map ct_par_text ps)"
  have ok: "list_all (\<lambda>x. x \<notin> set [0x20, 0x09, 0x3b, 0x28]) m" "m \<noteq> []" "\<not> is_http_lws (hd m)"
    using assms(1,3) by (auto simp: m_def is_http_lws_def list_all_iff neq_Nil_conv)
  have beg: "sv_find_first_not_of (m @ ?ps) [0x20, 0x09] 0 = Some 0"
    using skip_lws [of 0 "[]" "[]" "m @ ?ps"] ok by simp
  have rest: "?ps = [] \<longleftrightarrow> ps = []" "?ps \<noteq> [] \<Longrightarrow> hd ?ps = 0x3b"
    by (cases ps, auto)+
  have fin: "sv_find_first_of (m @ ?ps) [0x20, 0x09, 0x3b, 0x28] 0 = ct_next (length m) ?ps"
  proof (cases "ps = []")
    case True
    then show ?thesis
      using sv_find_if_end [of 0 "[]" _ m] ok(1) by (simp add: sv_find_first_of_def ct_next_def)
  next
    case False
    then show ?thesis
      using sv_find_if_at [of 0 "[]" _ m ?ps] ok(1) rest by (simp add: sv_find_first_of_def ct_next_def)
  qed
  have mv: "sv_substr (m @ ?ps) 0 (length m) = m" "sv_substr m 0 (length m) = m"
    by (simp_all add: sv_substr_def)
  have semi: "sv_find (m @ ?ps) 0x3b (length m) = Some (length m)" if "ps \<noteq> []"
    using find_next [of "length m" m "[]" ?ps] rest that by (simp add: ct_rest_def ct_next_def)
  have q: "sv_find m 0x2f 0 = Some (length ty)" "length ty \<noteq> 0" "length ty \<noteq> length m - 1"
    "m \<noteq> chars ''*/*''"
    using mime_found [OF assms(2-4)] assms(3-5) by (auto simp: m_def)
  have "ct_parse (m @ ?ps) ct_empty = Some (fold ct_set_par ps (ct_empty\<lparr>ct_mime := map ascii_tolower m\<rparr>))"
    using beg fin mv q semi rest ct_params_read [of "length m" m ps] assms(6)
    by (cases "ps = []")
      (simp_all add: ct_parse_def ct_next_def ascii_tolower_assign_def ascii_tolower_append_eq Let_def
        del: concat_eq_Nil_conv)
  then show ?thesis
    by (simp add: parse_http_content_type_def ct_text_def fold_set_par ct_empty_def flip: m_def)
qed

theorem content_type_reads_header_witness:
  "parse_http_content_type [chars ''Text/html; CharSet= UTF-8; boundary=\"a;b c\"; charset=x''] =
   Some \<lparr>ct_mime = chars ''text/html'', ct_charset = chars ''utf-8'', ct_boundary = chars ''a;b c''\<rparr>"
proof -
  let ?ps = "[([0x20], chars ''CharSet'', [0x20], Ct_token (chars ''UTF-8'')),
              ([0x20], chars ''boundary'', [], Ct_quoted (chars ''a;b c'')),
              ([0x20], chars ''charset'', [], Ct_token (chars ''x''))]"
  have "ct_text (chars ''Text'' @ 0x2f # chars ''html'') ?ps =
      chars ''Text/html; CharSet= UTF-8; boundary=\"a;b c\"; charset=x''"
    by code_simp
  moreover have "list_all (\<lambda>c. c \<notin> {0x20, 0x09, 0x3b, 0x28}) (chars ''Text'' @ 0x2f # chars ''html'')"
    "0x2f \<notin> set (chars ''Text'')" "chars ''Text'' \<noteq> []" "chars ''html'' \<noteq> []"
    "chars ''Text'' @ 0x2f # chars ''html'' \<noteq> chars ''*/*''" "list_all ct_par_ok ?ps"
    by code_simp+
  moreover have "map ascii_tolower (chars ''Text'' @ 0x2f # chars ''html'') = chars ''text/html''"
    "map ascii_tolower (ct_first (chars ''charset'') ?ps) = chars ''utf-8''"
    "ct_first (chars ''boundary'') ?ps = chars ''a;b c''"
    by code_simp+
  ultimately show ?thesis
    using content_type_reads_header [of "chars ''Text''" "chars ''html''" ?ps] by metis
qed

section \<open>Escaped quotes and several fields\<close>

text \<open>
  The closing quote is the first one, escaped or not: the value is cut there, and what follows a semicolon
  inside the quoted string is taken for parameters.
\<close>

lemma escaped_quote_ends_value:
  "parse_http_content_type [chars ''multipart/mixed; boundary=\"a'' @ [0x5c, 0x22] @ chars '';charset=x\"''] =
   Some \<lparr>ct_mime = chars ''multipart/mixed'', ct_charset = chars ''x\"'', ct_boundary = chars ''a'' @ [0x5c]\<rparr>"
  by code_simp

text \<open>The media type is that of the last field, the character set that of the first: they may not belong together.\<close>

lemma fields_are_mixed:
  "parse_http_content_type [chars ''text/html;charset=koi8-r'', chars ''application/json''] =
   Some \<lparr>ct_mime = chars ''application/json'', ct_charset = chars ''koi8-r'', ct_boundary = []\<rparr>"
  by code_simp

text \<open>Some of the inputs of the repository's test.\<close>

lemma content_type_tests:
  "let parse = (\<lambda>s. parse_http_content_type [chars s]);
       html = (\<lambda>charset. Some \<lparr>ct_mime = chars ''text/html'', ct_charset = chars charset, ct_boundary = []\<rparr>)
   in parse ''text/html;'' = html [] \<and> parse ''text/html; charset =utf-8'' = html [] \<and>
      parse ''text/html; charset= utf-8'' = html ''utf-8'' \<and> parse ''text/html; charset= ;'' = html [] \<and>
      parse ''text/html; charset; charset=; charset=utf-8'' = html ''utf-8'' \<and>
      parse ''text/html; \"; \"\"; charset=utf-8'' = html ''utf-8'' \<and>
      parse ''text/html; charset=u\"tf-8\"'' = html ''u\"tf-8\"'' \<and>
      parse ''text/html; charset=\"utf-8'' = html ''utf-8'' \<and>
      parse ''text/html; charset=\";charset=utf-8;\"'' = html '';charset=utf-8;'' \<and>
      parse_http_content_type [chars ''text/html; charset=\"'' @ [0x5c] @ chars ''utf'' @ [0x5c] @ chars ''-8\"''] = html ''utf-8''"
  by code_simp

end
