(* ===== verification/Mime.thy ===== *)
theory Mime
  imports Str_View
begin

text \<open>
  Media types and file name extensions, \<open>include/dsk/http/mime.hpp\<close>: a table of types with their
  extensions, searched in both directions.
\<close>

section \<open>Model\<close>

record mime_info =
  mi_mime :: bytes
  mi_exts :: bytes

definition mime_table :: "(string \<times> string) list" where
  "mime_table =
    [(''video/webm'', ''webm''),
     (''audio/mpeg'', ''mp3''),
     (''application/wasm'', ''wasm''),
     (''application/x-chrome-extension'', ''crx''),
     (''application/xhtml+xml'', ''xhtml,xht,xhtm''),
     (''audio/flac'', ''flac''),
     (''audio/mp3'', ''mp3''),
     (''audio/ogg'', ''ogg,oga,opus''),
     (''audio/wav'', ''wav''),
     (''audio/webm'', ''webm''),
     (''audio/x-m4a'', ''m4a''),
     (''image/avif'', ''avif''),
     (''image/gif'', ''gif''),
     (''image/jpeg'', ''jpeg,jpg''),
     (''image/png'', ''png''),
     (''image/apng'', ''png''),
     (''image/webp'', ''webp''),
     (''multipart/related'', ''mht,mhtml''),
     (''text/css'', ''css''),
     (''text/html'', ''html,htm,shtml,shtm''),
     (''text/javascript'', ''js,mjs''),
     (''text/xml'', ''xml''),
     (''video/mp4'', ''mp4,m4v''),
     (''video/ogg'', ''ogv,ogm''),
     (''image/x-icon'', ''ico''),
     (''application/epub+zip'', ''epub''),
     (''application/font-woff'', ''woff''),
     (''application/gzip'', ''gz,tgz''),
     (''application/javascript'', ''js''),
     (''application/json'', ''json''),
     (''application/octet-stream'', ''bin,exe,com''),
     (''application/pdf'', ''pdf''),
     (''application/pkcs7-mime'', ''p7m,p7c,p7z''),
     (''application/pkcs7-signature'', ''p7s''),
     (''application/postscript'', ''ps,eps,ai''),
     (''application/rdf+xml'', ''rdf''),
     (''application/rss+xml'', ''rss''),
     (''application/vnd.android.package-archive'', ''apk''),
     (''application/vnd.mozilla.xul+xml'', ''xul''),
     (''application/x-gzip'', ''gz,tgz''),
     (''application/x-mpegurl'', ''m3u8''),
     (''application/x-shockwave-flash'', ''swf,swl''),
     (''application/x-tar'', ''tar''),
     (''application/x-x509-ca-cert'', ''cer,crt''),
     (''application/zip'', ''zip''),
     (''audio/webm'', ''weba''),
     (''image/bmp'', ''bmp''),
     (''image/jpeg'', ''jfif,pjpeg,pjp''),
     (''image/svg+xml'', ''svg,svgz''),
     (''image/tiff'', ''tiff,tif''),
     (''image/vnd.microsoft.icon'', ''ico''),
     (''image/x-png'', ''png''),
     (''image/x-xbitmap'', ''xbm''),
     (''message/rfc822'', ''eml''),
     (''text/calendar'', ''ics''),
     (''text/html'', ''ehtml''),
     (''text/plain'', ''txt,text''),
     (''text/x-sh'', ''sh''),
     (''text/xml'', ''xsl,xbl,xslt''),
     (''video/mpeg'', ''mpeg,mpg'')]"

definition g_mime_infos :: "mime_info list" where
  "g_mime_infos = map (\<lambda>(m, es). \<lparr>mi_mime = chars m, mi_exts = chars es\<rparr>) mime_table"

text \<open>The loop over the extensions of one type, from position \<open>b\<close>.\<close>

lemma sv_find_bounds: "sv_find s c b = Some e \<Longrightarrow> b \<le> e \<and> e < length s \<and> s ! e = c"
  unfolding sv_find_def by (rule sv_find_if_SomeD)

function exts_match :: "bytes \<Rightarrow> bytes \<Rightarrow> nat \<Rightarrow> bool" where
  "exts_match exts ext b =
     (let e = sv_find exts 0x2c b
      in if ascii_iequal False (sv_substr exts b (case e of None \<Rightarrow> length exts | Some e \<Rightarrow> e - b)) ext then True
         else case e of None \<Rightarrow> False | Some e \<Rightarrow> exts_match exts ext (e + 1))"
  by pat_completeness auto

termination
  by (relation "measure (\<lambda>(exts, ext, b). length exts - b)") (auto dest: sv_find_bounds [OF sym])

declare exts_match.simps [simp del]

fun mime_of_ext :: "mime_info list \<Rightarrow> bytes \<Rightarrow> bytes \<Rightarrow> bytes" where
  "mime_of_ext [] ext def = def"
| "mime_of_ext (i # is) ext def =
     (if exts_match (mi_exts i) ext 0 then mi_mime i else mime_of_ext is ext def)"

definition ext_to_mime :: "bytes \<Rightarrow> bytes \<Rightarrow> bytes" where
  "ext_to_mime ext def =
     (if length ext > 65536 then def
      else if sv_find ext 0 0 \<noteq> None then def
      else (let ext = (if ext \<noteq> [] \<and> hd ext = 0x2e then tl ext else ext)
            in if ext = [] then def else mime_of_ext g_mime_infos ext def))"

fun ext_of_mime :: "mime_info list \<Rightarrow> bytes \<Rightarrow> bytes \<Rightarrow> bytes" where
  "ext_of_mime [] mime def = def"
| "ext_of_mime (i # is) mime def =
     (if mi_mime i = mime
      then sv_substr (mi_exts i) 0 (case sv_find (mi_exts i) 0x2c 0 of None \<Rightarrow> length (mi_exts i) | Some e \<Rightarrow> e)
      else ext_of_mime is mime def)"

definition mime_to_ext :: "bytes \<Rightarrow> bytes \<Rightarrow> bytes" where
  "mime_to_ext mime def =
     (if mime = chars ''application/octet-stream'' then def else ext_of_mime g_mime_infos mime def)"

section \<open>The table as a relation between types and extensions\<close>

text \<open>The list of extensions as a list.\<close>

fun commas :: "bytes \<Rightarrow> bytes list" where
  "commas [] = [[]]"
| "commas (c # s) = (if c = 0x2c then [] # commas s else (c # hd (commas s)) # tl (commas s))"

lemma commas_neq [simp]: "commas s \<noteq> []"
  by (cases s) auto

lemma commas_split: "0x2c \<notin> set xs \<Longrightarrow> commas (xs @ 0x2c # ys) = xs # commas ys"
  by (induction xs) auto

lemma commas_whole: "0x2c \<notin> set xs \<Longrightarrow> commas xs = [xs]"
  by (induction xs) auto

lemma find_comma:
  assumes "sv_find s 0x2c b = Some e"
  shows "\<exists>xs ys. drop b s = xs @ 0x2c # ys \<and> 0x2c \<notin> set xs \<and> e = b + length xs \<and> drop (e + 1) s = ys"
proof -
  let ?xs = "takeWhile (\<lambda>c. c \<noteq> 0x2c) (drop b s)"
  have e: "e = b + length ?xs" "length ?xs < length (drop b s)"
    using assms by (auto simp: sv_find_def sv_find_if_def Let_def split: if_splits)
  have "drop b s = ?xs @ dropWhile (\<lambda>c. c \<noteq> 0x2c) (drop b s)"
    by simp
  moreover have "dropWhile (\<lambda>c. c \<noteq> 0x2c) (drop b s) \<noteq> []"
  proof
    assume "dropWhile (\<lambda>c. c \<noteq> 0x2c) (drop b s) = []"
    then have "?xs = drop b s"
      by (simp only: dropWhile_eq_Nil_conv takeWhile_eq_all_conv)
    then show False
      using e(2) by (simp only: less_irrefl)
  qed
  then obtain ys where "dropWhile (\<lambda>c. c \<noteq> 0x2c) (drop b s) = 0x2c # ys"
    using hd_dropWhile [of "\<lambda>c. c \<noteq> 0x2c" "drop b s"] by (cases "dropWhile (\<lambda>c. c \<noteq> 0x2c) (drop b s)") auto
  ultimately have d: "drop b s = ?xs @ 0x2c # ys"
    by simp
  have "0x2c \<notin> set ?xs"
    by (auto dest: set_takeWhileD)
  moreover have "drop (e + 1) s = drop (Suc (length ?xs)) (drop b s)"
    using e(1) by (simp add: add.commute)
  moreover have "drop (Suc (length ?xs)) (drop b s) = ys"
    using arg_cong [OF d, of "drop (Suc (length ?xs))"] by (simp del: drop_drop)
  ultimately show ?thesis
    using e(1) d by metis
qed

lemma find_no_comma:
  assumes "sv_find s 0x2c b = None" "b \<le> length s"
  shows "0x2c \<notin> set (drop b s)"
proof
  assume "0x2c \<in> set (drop b s)"
  then have "length (takeWhile (\<lambda>c. c \<noteq> 0x2c) (drop b s)) < length (drop b s)"
    by (rule takeWhile_shorter) simp
  then show False
    using assms by (simp add: sv_find_def sv_find_if_def Let_def split: if_splits)
qed

lemma exts_match_eq:
  "b \<le> length exts \<Longrightarrow>
   exts_match exts ext b \<longleftrightarrow> (\<exists>x \<in> set (commas (drop b exts)). map ascii_tolower x = map ascii_tolower ext)"
proof (induction exts ext b rule: exts_match.induct)
  case (1 exts ext b)
  show ?case
  proof (cases "sv_find exts 0x2c b")
    case None
    then show ?thesis
      using find_no_comma [OF None 1(2)]
      by (subst exts_match.simps) (simp add: sv_substr_def ascii_iequal_eq commas_whole)
  next
    case (Some e)
    then obtain xs ys where d: "drop b exts = xs @ 0x2c # ys" "0x2c \<notin> set xs" "e = b + length xs"
      "drop (e + 1) exts = ys"
      using find_comma by blast
    have "e + 1 \<le> length exts"
      using sv_find_bounds [OF Some] by simp
    then have "exts_match exts ext (e + 1) \<longleftrightarrow> (\<exists>x \<in> set (commas ys). map ascii_tolower x = map ascii_tolower ext)"
      if "\<not> ascii_iequal False xs ext"
      using 1(1) [OF refl _ Some] Some d that by (simp add: sv_substr_def)
    then show ?thesis
      using Some d by (subst exts_match.simps) (auto simp: sv_substr_def ascii_iequal_eq commas_split)
  qed
qed

text \<open>The type of an extension is that of the first entry that lists it, in any case of letters.\<close>

definition lists_ext :: "bytes \<Rightarrow> mime_info \<Rightarrow> bool" where
  "lists_ext ext i \<longleftrightarrow> list_ex (\<lambda>x. map ascii_tolower x = map ascii_tolower ext) (commas (mi_exts i))"

lemma mime_of_ext_eq:
  "mime_of_ext is ext def = (case find (lists_ext ext) is of None \<Rightarrow> def | Some i \<Rightarrow> mi_mime i)"
  by (induction "is") (auto simp: lists_ext_def exts_match_eq list_ex_iff)

text \<open>
  The type of an extension, given with or without its dot, is the one of the first entry of the table
  that lists it, in any case of letters, and the default when no entry does.
\<close>

lemma ext_to_mime_first_listed:
  assumes "ext \<noteq> []" "0x2e \<noteq> hd ext" "0 \<notin> set ext" "length ext < 65536"
  shows "ext_to_mime ext def = (case find (lists_ext ext) g_mime_infos of None \<Rightarrow> def | Some i \<Rightarrow> mi_mime i)"
    and "ext_to_mime (0x2e # ext) def = ext_to_mime ext def"
proof -
  have "sv_find ext 0 0 = None" "sv_find (0x2e # ext) 0 0 = None"
    using sv_find_if_end [of 0 "[]" "\<lambda>x. x = 0" ext] sv_find_if_end [of 0 "[]" "\<lambda>x. x = 0" "0x2e # ext"] assms(3)
    by (auto simp: sv_find_def list_all_iff)
  then show "ext_to_mime ext def = (case find (lists_ext ext) g_mime_infos of None \<Rightarrow> def | Some i \<Rightarrow> mi_mime i)"
    "ext_to_mime (0x2e # ext) def = ext_to_mime ext def"
    using assms by (auto simp: ext_to_mime_def mime_of_ext_eq)
qed

text \<open>The preferred extension is the first one of the first entry of the type.\<close>

lemma ext_of_mime_eq:
  "ext_of_mime is mime def = (case find (\<lambda>i. mi_mime i = mime) is of None \<Rightarrow> def | Some i \<Rightarrow> hd (commas (mi_exts i)))"
proof (induction "is")
  case (Cons i "is")
  have "sv_substr s 0 (case sv_find s 0x2c 0 of None \<Rightarrow> length s | Some e \<Rightarrow> e) = hd (commas s)" for s
  proof (cases "sv_find s 0x2c 0")
    case None
    then show ?thesis
      using find_no_comma [OF None] by (simp add: sv_substr_def commas_whole)
  next
    case (Some e)
    then obtain xs ys where "s = xs @ 0x2c # ys" "0x2c \<notin> set xs" "e = length xs"
      using find_comma [OF Some] by auto
    then show ?thesis
      using Some by (simp add: sv_substr_def commas_split)
  qed
  then show ?case
    using Cons by simp
qed simp

definition plain_ext :: "bytes \<Rightarrow> bool" where
  "plain_ext e \<longleftrightarrow> e \<noteq> [] \<and> 0x2e \<noteq> hd e \<and> 0 \<notin> set e \<and> length e < 65536"

lemma of_char_u8: "unat (of_char c :: u8) = of_char c"
proof -
  have "(of_char c :: u8) = of_nat (of_char c)"
    by (rule of_nat_of_char [symmetric])
  moreover have "of_char c < (256 :: nat)"
    by simp
  ultimately show ?thesis
    by (simp add: unat_of_nat)
qed

lemma of_char_u8_eq: "(of_char c :: u8) = of_char d \<longleftrightarrow> c = d"
proof
  assume "(of_char c :: u8) = of_char d"
  then have "unat (of_char c :: u8) = unat (of_char d :: u8)"
    by (rule arg_cong)
  then show "c = d"
    unfolding of_char_u8 by (rule of_char_eqI)
qed (rule arg_cong)

lemma hd_commas: "hd (commas s) = takeWhile (\<lambda>c. c \<noteq> 0x2c) s"
  by (induction s) auto

lemma plain_exts:
  assumes "list_all (\<lambda>c. c \<notin> {CHR ''.'', CHR 0x00}) es" "es \<noteq> []" "hd es \<noteq> CHR '',''" "length es < 100"
  shows "plain_ext (hd (commas (chars es)))"
proof -
  let ?e = "takeWhile (\<lambda>c. c \<noteq> 0x2c) (chars es)"
  have ne: "of_char c \<noteq> (0x2e :: u8)" "of_char c \<noteq> (0 :: u8)" if "c \<in> set es" for c
    using assms(1) that of_char_u8_eq [of c "CHR ''.''"] of_char_u8_eq [of c "CHR 0x00"]
    by (auto simp: list_all_iff)
  have "set ?e \<subseteq> of_char ` set es" "hd (chars es) = of_char (hd es)"
    using assms(2) by (auto simp: chars_def dest: set_takeWhileD intro: hd_map)
  moreover have "?e \<noteq> []"
    using assms(2,3) of_char_u8_eq [of "hd es" "CHR '',''"] by (cases es) (auto simp: chars_def)
  moreover have "length ?e < 65536"
    using assms(4) length_takeWhile_le [of "\<lambda>c. c \<noteq> 0x2c" "chars es"] by (simp add: chars_def)
  ultimately show ?thesis
    unfolding plain_ext_def hd_commas using ne hd_in_set [of ?e] by fastforce
qed

lemma table_exts_plain: "list_all (\<lambda>i. plain_ext (hd (commas (mi_exts i)))) g_mime_infos"
proof -
  have t: "list_all (\<lambda>p. list_all (\<lambda>c. c \<notin> {CHR ''.'', CHR 0x00}) (snd p) \<and> snd p \<noteq> [] \<and>
      hd (snd p) \<noteq> CHR '','' \<and> length (snd p) < 100) mime_table"
    unfolding mime_table_def by simp
  have "plain_ext (hd (commas (chars (snd p))))" if "p \<in> set mime_table" for p
    using t that by (intro plain_exts) (simp_all add: list_all_iff)
  then show ?thesis
    by (simp add: g_mime_infos_def list_all_iff split_beta)
qed

text \<open>
  The preferred extension of a type of the table leads back to a type that has this extension; when
  several have it (\<open>audio/webm\<close> and \<open>video/webm\<close>), to the one that stands first.
\<close>

lemma mime_round_trip:
  assumes "i \<in> set g_mime_infos" "mi_mime i \<noteq> chars ''application/octet-stream''"
  defines "e \<equiv> mime_to_ext (mi_mime i) []"
  obtains j where "j \<in> set g_mime_infos" "lists_ext e j" "ext_to_mime e def = mi_mime j"
proof -
  obtain k where k: "find (\<lambda>j. mi_mime j = mi_mime i) g_mime_infos = Some k" and in_table: "k \<in> set g_mime_infos"
    using find_in [OF assms(1), of "\<lambda>j. mi_mime j = mi_mime i"] by auto
  have e: "e = hd (commas (mi_exts k))"
    using assms(2) k by (simp add: e_def mime_to_ext_def ext_of_mime_eq)
  then have "lists_ext e k"
    by (auto simp: lists_ext_def list_ex_iff)
  then obtain j where j: "find (lists_ext e) g_mime_infos = Some j" "j \<in> set g_mime_infos"
    using find_in [OF in_table] by blast
  moreover have "plain_ext e"
    using table_exts_plain in_table e by (auto simp: list_all_iff)
  ultimately have "ext_to_mime e def = mi_mime j"
    by (simp add: ext_to_mime_first_listed plain_ext_def)
  moreover have "lists_ext e j"
    using j(1) by (auto simp: find_Some_iff)
  ultimately show ?thesis
    using that j(2) by blast
qed

end
