(* ===== verification/Stream_Transfer.thy ===== *)
theory Stream_Transfer
  imports Prelude
begin

text \<open>
  Transfer between streams, \<open>include/dsk/asio/transfer.hpp\<close>, and of a file, \<open>include/dsk/asio/send_file.hpp\<close>.
  The streams are parameters: \<open>read_some from n\<close> is a read into a buffer of \<open>n\<close> bytes, which gives the
  bytes read or an error, \<open>write_all to b\<close> a write of \<open>b\<close> as a whole; both give the stream after the
  operation. A transfer that does not end is \<open>None\<close>.
\<close>

type_synonym ('f, 'e) reader = "'f \<Rightarrow> nat \<Rightarrow> ('e + bytes) \<times> 'f"
type_synonym ('w, 'e) writer = "'w \<Rightarrow> bytes \<Rightarrow> 'e option \<times> 'w"

section \<open>Model\<close>

text \<open>Until the end of the stream, which is the error \<open>eof\<close>.\<close>

partial_function (option) transfer_until_eof ::
  "'e \<Rightarrow> ('f, 'e) reader \<Rightarrow> ('w, 'e) writer \<Rightarrow> nat \<Rightarrow> 'f \<Rightarrow> 'w \<Rightarrow> nat \<Rightarrow> (('e + nat) \<times> 'f \<times> 'w) option" where
  "transfer_until_eof eof read_some write_all buf_size from to tot =
     (case read_some from buf_size of
        (Inl e, from) \<Rightarrow> Some (if e = eof then Inr tot else Inl e, from, to)
      | (Inr b, from) \<Rightarrow>
          (case write_all to b of
             (Some e, to) \<Rightarrow> Some (Inl e, from, to)
           | (None, to) \<Rightarrow> transfer_until_eof eof read_some write_all buf_size from to (tot + length b)))"

text \<open>Exactly \<open>count\<close> bytes; \<open>left\<close> counts what is left of them. Reading past the end is an error here.\<close>

partial_function (option) transfer_left ::
  "('f, 'e) reader \<Rightarrow> ('w, 'e) writer \<Rightarrow> nat \<Rightarrow> nat \<Rightarrow> 'f \<Rightarrow> 'w \<Rightarrow> nat \<Rightarrow> (('e + nat) \<times> 'f \<times> 'w) option" where
  "transfer_left read_some write_all buf_size cnt from to left =
     (if left > 0
      then (case read_some from (min left buf_size) of
              (Inl e, from) \<Rightarrow> Some (Inl e, from, to)
            | (Inr b, from) \<Rightarrow>
                (case write_all to b of
                   (Some e, to) \<Rightarrow> Some (Inl e, from, to)
                 | (None, to) \<Rightarrow> transfer_left read_some write_all buf_size cnt from to (left - length b)))
      else Some (Inr cnt, from, to))"

text \<open>The cnt \<open>None\<close> is \<open>size_t(-1)\<close>.\<close>

definition transfer ::
  "'e \<Rightarrow> ('f, 'e) reader \<Rightarrow> ('w, 'e) writer \<Rightarrow> nat \<Rightarrow> 'f \<Rightarrow> 'w \<Rightarrow> nat option \<Rightarrow> (('e + nat) \<times> 'f \<times> 'w) option" where
  "transfer eof read_some write_all buf_size from to cnt =
     (case cnt of
        None \<Rightarrow> transfer_until_eof eof read_some write_all buf_size from to 0
      | Some n \<Rightarrow> transfer_left read_some write_all buf_size n from to n)"

record send_file_options =
  sf_offset :: nat
  sf_count :: "nat option"

definition send_file_default :: send_file_options where
  "send_file_default = \<lparr>sf_offset = 0, sf_count = None\<rparr>"

definition general_send_file ::
  "'e \<Rightarrow> ('f \<Rightarrow> nat \<Rightarrow> 'e option \<times> 'f) \<Rightarrow> ('f, 'e) reader \<Rightarrow> ('w, 'e) writer \<Rightarrow> nat \<Rightarrow> 'w \<Rightarrow> 'f \<Rightarrow> send_file_options \<Rightarrow>
   (('e + nat) \<times> 'f \<times> 'w) option" where
  "general_send_file eof seek_set read_some write_all buf_size skt file opts =
     (case seek_set file (sf_offset opts) of
        (Some e, file) \<Rightarrow> Some (Inl e, file, skt)
      | (None, file) \<Rightarrow> transfer eof read_some write_all buf_size file skt (sf_count opts))"

section \<open>What streams do\<close>

text \<open>
  \<open>content f\<close> are the bytes that a stream has yet to give. A read gives at least one of them, or \<open>eof\<close> when
  there is none. A write that fails may have written a part.
\<close>

definition source_ok :: "'e \<Rightarrow> ('f, 'e) reader \<Rightarrow> ('f \<Rightarrow> bytes) \<Rightarrow> bool" where
  "source_ok eof read_some content \<longleftrightarrow>
     (\<forall>f n. 0 < n \<longrightarrow>
        (if content f = [] then \<exists>f'. read_some f n = (Inl eof, f') \<and> content f' = []
         else \<exists>k f'. 0 < k \<and> k \<le> n \<and> k \<le> length (content f) \<and>
                read_some f n = (Inr (take k (content f)), f') \<and> content f' = drop k (content f)))"

definition sink_ok :: "('w, 'e) writer \<Rightarrow> ('w \<Rightarrow> bytes) \<Rightarrow> bool" where
  "sink_ok write_all out \<longleftrightarrow>
     (\<forall>w b r w'. write_all w b = (r, w') \<longrightarrow>
        (if r = None then out w' = out w @ b else \<exists>k. out w' = out w @ take k b))"

definition never_fails :: "('w, 'e) writer \<Rightarrow> bool" where
  "never_fails write_all \<longleftrightarrow> (\<forall>w b. fst (write_all w b) = None)"

lemma source_cases:
  assumes "source_ok eof read_some content" "0 < n"
  obtains (eof) f' where "content f = []" "read_some f n = (Inl eof, f')" "content f' = []"
  | (some) b f' rest where "b \<noteq> []" "length b \<le> n" "content f = b @ rest" "content f' = rest"
      "read_some f n = (Inr b, f')"
proof (cases "content f = []")
  case True
  then show thesis
    using assms eof unfolding source_ok_def by (metis (mono_tags, lifting))
next
  case False
  then obtain k f' where k: "0 < k" "k \<le> n" "k \<le> length (content f)"
    "read_some f n = (Inr (take k (content f)), f')" "content f' = drop k (content f)"
    using assms unfolding source_ok_def by (metis (mono_tags, lifting))
  then show thesis
    using False by (intro some [of "take k (content f)" "drop k (content f)" f']) auto
qed

lemma sink_cases:
  assumes "sink_ok write_all out"
  obtains (ok) w' where "write_all w b = (None, w')" "out w' = out w @ b"
  | (fail) e w' k where "write_all w b = (Some e, w')" "out w' = out w @ take k b"
  using assms unfolding sink_ok_def by (metis not_Some_eq old.prod.exhaust)

section \<open>What is transferred\<close>

lemma transfer_left_correct:
  assumes "source_ok eof read_some content" "sink_ok write_all out" "0 < buf_size"
    and keep: "\<And>w b. g (snd (write_all w b)) = g w"
  shows "\<exists>r f' w' m. transfer_left read_some write_all buf_size cnt f w left = Some (r, f', w') \<and>
    out w' = out w @ take m (content f) \<and> g w' = g w \<and> m \<le> left \<and>
    (\<not> isl r \<longrightarrow> r = Inr cnt \<and> m = left \<and> left \<le> length (content f)) \<and>
    (never_fails write_all \<longrightarrow> isl r \<longrightarrow> r = Inl eof \<and> m = length (content f) \<and> length (content f) < left)"
proof (induction left arbitrary: f w rule: less_induct)
  case (less left)
  note simps = transfer_left.simps [of read_some write_all buf_size cnt f w left]
  show ?case
  proof (cases "left = 0")
    case True
    then show ?thesis
      using simps by auto
  next
    case False
    then have n: "0 < min left buf_size"
      using assms(3) by simp
    show ?thesis
    proof (cases rule: source_cases [OF assms(1) n, of f, case_names eof some])
      case (eof f')
      then show ?thesis
        using False simps by (intro exI [of _ "Inl _"] exI [of _ f'] exI [of _ w] exI [of _ 0]) auto
    next
      case (some b f' rest)
      note b = this
      show ?thesis
      proof (cases rule: sink_cases [OF assms(2), of w b, case_names ok fail])
        case (ok w')
        have "left - length b < left"
          using False b(1) by simp
        then obtain r f'' w'' m where IH:
          "transfer_left read_some write_all buf_size cnt f' w' (left - length b) = Some (r, f'', w'')"
          "out w'' = out w' @ take m rest" "g w'' = g w'" "m \<le> left - length b"
          "\<not> isl r \<longrightarrow> r = Inr cnt \<and> m = left - length b \<and> left - length b \<le> length rest"
          "never_fails write_all \<longrightarrow> isl r \<longrightarrow> r = Inl eof \<and> m = length rest \<and> length rest < left - length b"
          using less [of "left - length b" f' w'] b(4) by auto
        show ?thesis
          using IH ok False b simps keep [of w b]
          by (intro exI [of _ r] exI [of _ f''] exI [of _ w''] exI [of _ "length b + m"]) auto
      next
        case (fail e w' k)
        then have "\<not> never_fails write_all"
          by (auto simp: never_fails_def) (metis fst_conv option.distinct(1))
        then show ?thesis
          using fail False b simps keep [of w b]
          by (intro exI [of _ "Inl e"] exI [of _ f'] exI [of _ w'] exI [of _ "min k (length b)"])
            (auto simp: min_def split: if_splits)
      qed
    qed
  qed
qed

lemma transfer_until_eof_correct:
  assumes "source_ok eof read_some content" "sink_ok write_all out" "0 < buf_size"
    and keep: "\<And>w b. g (snd (write_all w b)) = g w"
  shows "\<exists>r f' w' m. transfer_until_eof eof read_some write_all buf_size f w tot = Some (r, f', w') \<and>
    out w' = out w @ take m (content f) \<and> g w' = g w \<and>
    (\<not> isl r \<longrightarrow> r = Inr (tot + length (content f)) \<and> m = length (content f)) \<and>
    (never_fails write_all \<longrightarrow> \<not> isl r)"
proof (induction "length (content f)" arbitrary: f w tot rule: less_induct)
  case less
  note simps = transfer_until_eof.simps [of eof read_some write_all buf_size f w tot]
  show ?case
  proof (cases rule: source_cases [OF assms(1,3), of f, case_names eof some])
    case (eof f')
    then show ?thesis
      using simps by (intro exI [of _ "Inr tot"] exI [of _ f'] exI [of _ w] exI [of _ 0]) auto
  next
    case (some b f' rest)
    note b = this
    show ?thesis
    proof (cases rule: sink_cases [OF assms(2), of w b, case_names ok fail])
      case (ok w')
      have "length (content f') < length (content f)"
        using b by simp
      then obtain r f'' w'' m where IH:
        "transfer_until_eof eof read_some write_all buf_size f' w' (tot + length b) = Some (r, f'', w'')"
        "out w'' = out w' @ take m rest" "g w'' = g w'"
        "\<not> isl r \<longrightarrow> r = Inr (tot + length b + length rest) \<and> m = length rest"
        "never_fails write_all \<longrightarrow> \<not> isl r"
        using less [of f' w' "tot + length b"] b(4) by auto
      show ?thesis
        using IH ok b simps keep [of w b]
        by (intro exI [of _ r] exI [of _ f''] exI [of _ w''] exI [of _ "length b + m"]) auto
    next
      case (fail e w' k)
      then have "\<not> never_fails write_all"
        by (auto simp: never_fails_def) (metis fst_conv option.distinct(1))
      then show ?thesis
        using fail b simps keep [of w b]
        by (intro exI [of _ "Inl e"] exI [of _ f'] exI [of _ w'] exI [of _ "min k (length b)"])
          (auto simp: min_def split: if_splits)
    qed
  qed
qed

text \<open>A file sent over a connection that does not fail: the part that is asked for, and nothing else.\<close>

lemma send_part:
  assumes "source_ok eof read_some content" "sink_ok write_all out" "never_fails write_all" "0 < buf_size"
    and keep: "\<And>w b. g (snd (write_all w b)) = g w"
    and "seek_set fa p = (None, fb)" "content fb = drop p whole" "p + n \<le> length whole"
  shows "\<exists>f' w'. general_send_file eof seek_set read_some write_all buf_size w fa
      \<lparr>sf_offset = p, sf_count = Some n\<rparr> = Some (Inr n, f', w') \<and> out w' = out w @ take n (drop p whole) \<and> g w' = g w"
proof -
  obtain r f' w' m where t: "transfer_left read_some write_all buf_size n fb w n = Some (r, f', w')"
    "out w' = out w @ take m (content fb)" "g w' = g w" "\<not> isl r \<longrightarrow> r = Inr n \<and> m = n"
    "isl r \<longrightarrow> length (content fb) < n"
    using transfer_left_correct [where g = g, OF assms(1,2,4) keep, of n fb w n] assms(3) by auto
  have "\<not> isl r"
    using t(5) assms(7,8) by auto
  then show ?thesis
    using t assms(6,7) by (simp add: general_send_file_def transfer_def)
qed

lemma send_all:
  assumes "source_ok eof read_some content" "sink_ok write_all out" "never_fails write_all" "0 < buf_size"
    and keep: "\<And>w b. g (snd (write_all w b)) = g w"
    and "seek_set fa 0 = (None, fb)" "content fb = whole"
  shows "\<exists>f' w'. general_send_file eof seek_set read_some write_all buf_size w fa send_file_default =
      Some (Inr (length whole), f', w') \<and> out w' = out w @ whole \<and> g w' = g w"
proof -
  obtain r f' w' m where t: "transfer_until_eof eof read_some write_all buf_size fb w 0 = Some (r, f', w')"
    "out w' = out w @ take m whole" "g w' = g w" "r = Inr (length whole) \<and> m = length whole"
    using transfer_until_eof_correct [where g = g, OF assms(1,2,4) keep, of fb w 0] assms(3,7) by auto
  then show ?thesis
    using assms(6) by (simp add: general_send_file_def transfer_def send_file_default_def)
qed

text \<open>A file that is shorter than the part asked for is an error, after all of its bytes were sent.\<close>

lemma transfer_short:
  assumes "source_ok eof read_some content" "sink_ok write_all out" "never_fails write_all" "0 < buf_size"
    and keep: "\<And>w b. g (snd (write_all w b)) = g w"
    and "length (content f) < n"
  shows "\<exists>f' w'. transfer eof read_some write_all buf_size f w (Some n) = Some (Inl eof, f', w') \<and>
    out w' = out w @ content f \<and> g w' = g w"
proof -
  obtain r f' w' m where t: "transfer_left read_some write_all buf_size n f w n = Some (r, f', w')"
    "out w' = out w @ take m (content f)" "g w' = g w" "\<not> isl r \<longrightarrow> n \<le> length (content f)"
    "isl r \<longrightarrow> r = Inl eof \<and> m = length (content f)"
    using transfer_left_correct [where g = g, OF assms(1,2,4) keep, of n f w n] assms(3) by auto
  then show ?thesis
    using assms(6) by (auto simp: transfer_def)
qed

end
