(* ===== verification/File_Handler.thy ===== *)
theory File_Handler
  imports Http_Range Mime Stream_Transfer
begin

text \<open>
  The static file server, \<open>include/dsk/http/file_handler.hpp\<close>: a GET or HEAD request is answered with a
  file below a directory, or with a part of it. Paths are those of POSIX. The connection, the files and
  percent decoding are third-party code: they are the operations of \<open>fh_env\<close>, on a connection \<open>'w\<close> and an
  open file \<open>'f\<close>; a response is the fields that the handler sets.
\<close>

section \<open>Requests and responses\<close>

datatype http_verb = Verb_get | Verb_head | Verb_other nat

datatype http_status = St_ok | St_partial_content | St_not_modified | St_bad_request | St_not_found |
  St_range_not_satisfiable

datatype http_field = Fd_accept_ranges | Fd_cache_control | Fd_content_length | Fd_content_range |
  Fd_content_type | Fd_etag | Fd_if_none_match | Fd_range | Fd_other bytes

type_synonym http_fields = "http_field \<Rightarrow> bytes option"

record http_request =
  hq_method :: http_verb
  hq_target :: bytes
  hq_version :: nat
  hq_keep_alive :: bool
  hq_fields :: http_fields

record http_response =
  hs_status :: http_status
  hs_version :: nat
  hs_body :: bytes
  hs_keep_alive :: bool
  hs_fields :: http_fields

definition res_set :: "http_field \<Rightarrow> bytes \<Rightarrow> http_response \<Rightarrow> http_response" where
  "res_set f v res = res\<lparr>hs_fields := (hs_fields res)(f \<mapsto> v)\<rparr>"

definition res_content_length :: "nat \<Rightarrow> http_response \<Rightarrow> http_response" where
  "res_content_length n = res_set Fd_content_length (int_chars 10 (int n))"

section \<open>The environment\<close>

record ('f, 'w, 'e) fh_env =
  fe_percent_decode :: "bytes \<Rightarrow> bytes option"
  fe_open_ro :: "bytes \<Rightarrow> 'e + 'f"
  fe_not_found :: "'e \<Rightarrow> bool"
  fe_file_size :: "'f \<Rightarrow> 'e + nat"
  fe_last_write_time :: "bytes \<Rightarrow> int option"
  fe_write :: "'w \<Rightarrow> http_response \<Rightarrow> 'e option \<times> 'w"
  fe_write_header :: "'w \<Rightarrow> http_response \<Rightarrow> 'e option \<times> 'w"
  fe_write_bytes :: "('w, 'e) writer"
  fe_seek_set :: "'f \<Rightarrow> nat \<Rightarrow> 'e option \<times> 'f"
  fe_read_some :: "('f, 'e) reader"
  fe_eof :: 'e

section \<open>Paths\<close>

text \<open>\<open>/\<close> of \<open>std::filesystem::path\<close>: an absolute path replaces what is in front of it.\<close>

definition path_append :: "bytes \<Rightarrow> bytes \<Rightarrow> bytes" where
  "path_append p q =
     (if q \<noteq> [] \<and> hd q = 0x2f then q
      else if p \<noteq> [] \<and> last p \<noteq> 0x2f then p @ 0x2f # q
      else p @ q)"

definition path_filename :: "bytes \<Rightarrow> bytes" where
  "path_filename p = rev (takeWhile (\<lambda>c. c \<noteq> 0x2f) (rev p))"

definition path_extension :: "bytes \<Rightarrow> bytes" where
  "path_extension p =
     (let f = path_filename p;
          e = takeWhile (\<lambda>c. c \<noteq> 0x2e) (rev f)
      in if f = [0x2e, 0x2e] \<or> length f \<le> length e + 1 then [] else 0x2e # rev e)"

fun sv_contains :: "bytes \<Rightarrow> bytes \<Rightarrow> bool" where
  "sv_contains [] t = (t = [])"
| "sv_contains (c # s) t = (take (length t) (c # s) = t \<or> sv_contains s t)"

section \<open>The handler\<close>

record http_file_handler =
  fh_root :: bytes
  fh_default_file :: bytes
  fh_common_fields :: http_fields
  fh_cache_control :: bytes

definition http_file_handler_new :: "bytes \<Rightarrow> http_file_handler" where
  "http_file_handler_new root =
     \<lparr>fh_root = root, fh_default_file = chars ''index.html'', fh_common_fields = Map.empty,
      fh_cache_control = chars ''public, max-age=15552000''\<rparr>"

definition fh_set_cache_control :: "bytes list \<Rightarrow> http_file_handler \<Rightarrow> http_file_handler" where
  "fh_set_cache_control directives h =
     (if directives = [] then h\<lparr>fh_cache_control := []\<rparr>
      else let s = fold (\<lambda>d s. s @ d @ chars '', '') directives []
           in h\<lparr>fh_cache_control := take (length s - 2) s\<rparr>)"

definition fh_set_max_age :: "int \<Rightarrow> bytes list \<Rightarrow> http_file_handler \<Rightarrow> http_file_handler option" where
  "fh_set_max_age max_age directives h =
     map_option (\<lambda>n. fh_set_cache_control ((chars ''max-age='' @ n) # directives) h) (stringify_int C_int64 10 max_age)"

definition make_res :: "http_file_handler \<Rightarrow> http_request \<Rightarrow> http_status \<Rightarrow> bytes \<Rightarrow> http_response" where
  "make_res h req status reason =
     (let res = \<lparr>hs_status = status, hs_version = hq_version req, hs_body = reason,
                 hs_keep_alive = hq_keep_alive req, hs_fields = fh_common_fields h\<rparr>
      in if reason \<noteq> []
         then res_content_length (length reason) (res_set Fd_content_type (chars ''text/html'') res)
         else res)"

text \<open>The entity tag; empty when the time of the last change is not known.\<close>

definition make_etag :: "('f, 'w, 'e) fh_env \<Rightarrow> bytes \<Rightarrow> nat \<Rightarrow> bytes option" where
  "make_etag env path file_size =
     (case fe_last_write_time env path of
        None \<Rightarrow> Some []
      | Some t \<Rightarrow>
          Option.bind (stringify_int C_int64 16 t) (\<lambda>ts.
          Option.bind (stringify_int C_uint64 16 (int file_size)) (\<lambda>ss.
            Some (chars ''\"'' @ ts @ chars ''-'' @ ss @ chars ''\"''))))"

text \<open>The path that a request asks for, or the reason why it is rejected.\<close>

definition fh_target :: "('f, 'w, 'e) fh_env \<Rightarrow> http_request \<Rightarrow> bytes option" where
  "fh_target env req =
     (if hq_target req = [] \<or> hd (hq_target req) \<noteq> 0x2f \<or> sv_contains (hq_target req) (chars ''..'')
      then None else fe_percent_decode env (hq_target req))"

definition fh_path :: "http_file_handler \<Rightarrow> bytes \<Rightarrow> bytes" where
  "fh_path h target =
     (let path = path_append (fh_root h) (tl target)
      in if last target = 0x2f then path_append path (fh_default_file h) else path)"

text \<open>
  What the header fields ask for: a response without the file, or the status, the entity tag if it was
  computed, and the range. The result is \<open>None\<close> when an assertion fails.
\<close>

datatype fh_choice =
    Fh_reject http_status bytes
  | Fh_send http_status bytes bool http_range

definition fh_choose :: "('f, 'w, 'e) fh_env \<Rightarrow> http_request \<Rightarrow> bytes \<Rightarrow> nat \<Rightarrow> fh_choice option" where
  "fh_choose env req path file_size =
     (case hq_fields req Fd_if_none_match of
        Some v \<Rightarrow>
          Option.bind (make_etag env path file_size) (\<lambda>etag.
            Some (Fh_send (if etag \<noteq> [] \<and> v = etag then St_not_modified else St_ok) etag True hr_default))
      | None \<Rightarrow>
          (case hq_fields req Fd_range of
             None \<Rightarrow> Some (Fh_send St_ok [] False hr_default)
           | Some v \<Rightarrow>
               (case parse_single_range_header v of
                  Inl e \<Rightarrow>
                    Some (if e = Str_errc errc_out_of_bound then Fh_reject St_range_not_satisfiable []
                          else Fh_reject St_bad_request (chars ''Unsupported range syntax''))
                | Inr r \<Rightarrow>
                    Option.bind (length_to_range r (c_cast C_int64 (int file_size))) (\<lambda>r'.
                      Some (case r' of
                              Inl _ \<Rightarrow> Fh_reject St_range_not_satisfiable []
                            | Inr q \<Rightarrow> Fh_send St_partial_content [] False q)))))"

definition range_count :: "http_range \<Rightarrow> int" where
  "range_count r = last_byte r - first_byte r + 1"

definition fh_response ::
  "('f, 'w, 'e) fh_env \<Rightarrow> http_file_handler \<Rightarrow> http_request \<Rightarrow> bytes \<Rightarrow> nat \<Rightarrow> http_status \<Rightarrow> bytes \<Rightarrow> bool \<Rightarrow>
   http_range \<Rightarrow> http_response option" where
  "fh_response env h req path file_size st etag etag_tried rng =
     (let res = \<lparr>hs_status = st, hs_version = hq_version req, hs_body = [], hs_keep_alive = hq_keep_alive req,
                 hs_fields = fh_common_fields h\<rparr>;
          res = res_set Fd_accept_ranges (chars ''bytes'') res;
          res = res_set Fd_content_type
                  (ext_to_mime (path_extension path) (chars ''application/octet-stream'')) res
      in if st = St_partial_content
         then Option.bind (stringify_int C_int64 10 (first_byte rng)) (\<lambda>a.
              Option.bind (stringify_int C_int64 10 (last_byte rng)) (\<lambda>b.
              Option.bind (stringify_int C_uint64 10 (int file_size)) (\<lambda>n.
                Some (res_content_length (nat (c_cast C_uint64 (range_count rng)))
                        (res_set Fd_content_range (chars ''bytes '' @ a @ chars ''-'' @ b @ chars ''/'' @ n) res)))))
         else (let res = res_content_length file_size res;
                   res = res_set Fd_cache_control (fh_cache_control h) res
               in Option.bind (if etag_tried then Some etag else make_etag env path file_size) (\<lambda>etag.
                    Some (if etag \<noteq> [] then res_set Fd_etag etag res else res))))"

text \<open>The header is written, then the file or the part of it. The buffer is that of \<open>send_file\<close>.\<close>

definition fh_send_body ::
  "('f, 'w, 'e) fh_env \<Rightarrow> http_request \<Rightarrow> http_status \<Rightarrow> http_range \<Rightarrow> 'f \<Rightarrow> 'w \<Rightarrow> ('e option \<times> 'w) option" where
  "fh_send_body env req st rng file w =
     (if st \<noteq> St_not_modified \<and> hq_method req = Verb_get
      then map_option (\<lambda>(r, file, w). (case r of Inl e \<Rightarrow> Some e | Inr n \<Rightarrow> None, w))
             (general_send_file (fe_eof env) (fe_seek_set env) (fe_read_some env) (fe_write_bytes env) (8 * 1024) w file
                (if st = St_partial_content
                 then \<lparr>sf_offset = nat (c_cast C_uint64 (first_byte rng)),
                       sf_count = Some (nat (c_cast C_uint64 (range_count rng)))\<rparr>
                 else send_file_default))
      else Some (None, w))"

definition fh_send_file ::
  "('f, 'w, 'e) fh_env \<Rightarrow> http_file_handler \<Rightarrow> http_request \<Rightarrow> bytes \<Rightarrow> 'f \<Rightarrow> nat \<Rightarrow> 'w \<Rightarrow> ('e option \<times> 'w) option" where
  "fh_send_file env h req path file file_size w =
     Option.bind (fh_choose env req path file_size) (\<lambda>c.
       case c of
         Fh_reject st reason \<Rightarrow> Some (fe_write env w (make_res h req st reason))
       | Fh_send st etag etag_tried rng \<Rightarrow>
           Option.bind (fh_response env h req path file_size st etag etag_tried rng) (\<lambda>res.
             case fe_write_header env w res of
               (Some e, w) \<Rightarrow> Some (Some e, w)
             | (None, w) \<Rightarrow> fh_send_body env req st rng file w))"

definition handle_request ::
  "('f, 'w, 'e) fh_env \<Rightarrow> http_file_handler \<Rightarrow> http_request \<Rightarrow> 'w \<Rightarrow> ('e option \<times> 'w) option" where
  "handle_request env h req w =
     (if hq_method req \<noteq> Verb_get \<and> hq_method req \<noteq> Verb_head
      then Some (fe_write env w (make_res h req St_bad_request (chars ''Unknown HTTP-method'')))
      else case fh_target env req of
        None \<Rightarrow> Some (fe_write env w (make_res h req St_bad_request (chars ''Illegal request-target'')))
      | Some target \<Rightarrow>
          (let path = fh_path h target
           in case fe_open_ro env path of
                Inl e \<Rightarrow>
                  (if fe_not_found env e
                   then Some (fe_write env w (make_res h req St_not_found (chars ''Target not found'')))
                   else Some (Some e, w))
              | Inr file \<Rightarrow>
                  (case fe_file_size env file of
                     Inl e \<Rightarrow> Some (Some e, w)
                   | Inr file_size \<Rightarrow> fh_send_file env h req path file file_size w)))"

section \<open>What the connection and the files do\<close>

text \<open>
  \<open>hdrs w\<close> are the messages and headers that were written to a connection, \<open>out w\<close> the bytes written
  after them; no operation on the connection fails. \<open>whole\<close> is the content of the file.
\<close>

definition conn_ok ::
  "('f, 'w, 'e) fh_env \<Rightarrow> ('w \<Rightarrow> http_response list) \<Rightarrow> ('w \<Rightarrow> bytes) \<Rightarrow> bool" where
  "conn_ok env hdrs out \<longleftrightarrow>
     (\<forall>w res. \<exists>w'. fe_write env w res = (None, w') \<and> hdrs w' = hdrs w @ [res] \<and> out w' = out w) \<and>
     (\<forall>w res. \<exists>w'. fe_write_header env w res = (None, w') \<and> hdrs w' = hdrs w @ [res] \<and> out w' = out w) \<and>
     (\<forall>w b. hdrs (snd (fe_write_bytes env w b)) = hdrs w) \<and>
     sink_ok (fe_write_bytes env) out \<and> never_fails (fe_write_bytes env)"

definition file_ok ::
  "('f, 'w, 'e) fh_env \<Rightarrow> ('f \<Rightarrow> bytes) \<Rightarrow> bytes \<Rightarrow> bytes \<Rightarrow> bool" where
  "file_ok env content path whole \<longleftrightarrow>
     source_ok (fe_eof env) (fe_read_some env) content \<and>
     (\<exists>file. fe_open_ro env path = Inr file \<and> fe_file_size env file = Inr (length whole) \<and>
        (\<forall>p. \<exists>file'. fe_seek_set env file p = (None, file') \<and> content file' = drop p whole))"

section \<open>Lemmas\<close>

lemma connD:
  assumes "conn_ok env hdrs out"
  obtains w' where "fe_write env w res = (None, w')" "hdrs w' = hdrs w @ [res]" "out w' = out w"
  using assms unfolding conn_ok_def by metis

lemma conn_headerD:
  assumes "conn_ok env hdrs out"
  obtains w' where "fe_write_header env w res = (None, w')" "hdrs w' = hdrs w @ [res]" "out w' = out w"
  using assms unfolding conn_ok_def by metis


text \<open>The positions of a file that a range selects, and the bytes there.\<close>

definition range_wants :: "http_range \<Rightarrow> nat \<Rightarrow> nat \<Rightarrow> bool" where
  "range_wants r len i \<longleftrightarrow>
     (if suffix_length r > 0 then int len - suffix_length r \<le> int i
      else first_byte r \<le> int i \<and> (last_byte r < 0 \<or> int i \<le> last_byte r))"

definition range_bytes :: "http_range \<Rightarrow> bytes \<Rightarrow> bytes" where
  "range_bytes r whole = map ((!) whole) (filter (range_wants r (length whole)) [0..<length whole])"

lemma filter_upt: "a \<le> b \<Longrightarrow> b < n \<Longrightarrow> (\<And>i. i < n \<Longrightarrow> P i \<longleftrightarrow> a \<le> i \<and> i \<le> b) \<Longrightarrow> filter P [0..<n] = [a..<Suc b]"
proof -
  assume ab: "a \<le> b" "b < n" and P: "\<And>i. i < n \<Longrightarrow> P i \<longleftrightarrow> a \<le> i \<and> i \<le> b"
  have "[0..<n] = [0..<a] @ [a..<Suc b] @ [Suc b..<n]"
    using ab upt_add_eq_append [of 0 a "n - a"] upt_add_eq_append [of a "Suc b" "n - Suc b"] by (simp del: upt_Suc)
  then show ?thesis
    using ab P by (simp add: filter_empty_conv filter_id_conv del: upt_Suc)
qed

lemma range_resolved:
  assumes "hr_valid r" "whole \<noteq> []" "\<not> (suffix_length r \<le> 0 \<and> int (length whole) \<le> first_byte r)"
  obtains a b where "a \<le> b" "b < length whole" "range_bytes r whole = take (b - a + 1) (drop a whole)"
    "length_to_range r (int (length whole)) = Some (Inr \<lparr>first_byte = int a, last_byte = int b, suffix_length = - 1\<rparr>)"
proof -
  define n where "n = length whole"
  define a where "a = (if suffix_length r > 0 then nat (max 0 (int n - suffix_length r)) else nat (first_byte r))"
  define b where "b = (if suffix_length r > 0 \<or> last_byte r < 0 then n - 1 else min (n - 1) (nat (last_byte r)))"
  have n: "0 < n"
    using assms(2) by (simp add: n_def)
  have ab: "a \<le> b" "b < n"
    using assms(1,3) n by (auto simp: a_def b_def n_def hr_valid_def)
  have "range_wants r n i \<longleftrightarrow> a \<le> i \<and> i \<le> b" if "i < n" for i
    using assms(1,3) n that by (auto simp: range_wants_def a_def b_def hr_valid_def)
  then have "filter (range_wants r n) [0..<n] = [a..<Suc b]"
    using ab by (intro filter_upt)
  then have "range_bytes r whole = map ((!) whole) [a..<Suc b]"
    by (simp add: range_bytes_def n_def)
  also have "\<dots> = take (b - a + 1) (drop a whole)"
    using ab by (intro nth_equalityI) (auto simp: n_def simp del: upt_Suc)
  finally have bytes: "range_bytes r whole = take (b - a + 1) (drop a whole)" .
  obtain m where m: "n = Suc m"
    using n by (cases n) auto
  have "length_to_range r (int n) = Some (Inr \<lparr>first_byte = int a, last_byte = int b, suffix_length = - 1\<rparr>)"
  proof (cases "suffix_length r > 0")
    case True
    then show ?thesis
      using assms(1) by (auto simp: length_to_range_def a_def b_def m)
  next
    case False
    then show ?thesis
      using assms(1,3) by (auto simp: length_to_range_def a_def b_def hr_valid_def m simp flip: n_def)
  qed
  then show ?thesis
    using that ab bytes by (simp add: n_def)
qed

lemma range_bytes_length: "a \<le> b \<Longrightarrow> b < length whole \<Longrightarrow> length (take (b - a + 1) (drop a whole)) = b - a + 1"
  by simp

lemma len_casts:
  assumes "n < 2 ^ 63"
  shows "c_cast C_int64 (int n) = int n" "c_cast C_uint64 (int n) = int n"
    "stringify_int C_int64 10 (int n) = Some (int_chars 10 (int n))"
    "stringify_int C_uint64 10 (int n) = Some (int_chars 10 (int n))"
proof -
  have "c_in C_int64 (int n)" "c_in C_uint64 (int n)"
    using assms by (auto simp: c_in_cases)
  then show "c_cast C_int64 (int n) = int n" "c_cast C_uint64 (int n) = int n"
    "stringify_int C_int64 10 (int n) = Some (int_chars 10 (int n))"
    "stringify_int C_uint64 10 (int n) = Some (int_chars 10 (int n))"
    by (simp_all add: stringify_fits c_fp_def)
qed

text \<open>The file is open, its size known: what remains is \<open>fh_send_file\<close>.\<close>

lemma handle_open:
  assumes "hq_method req \<in> {Verb_get, Verb_head}" "fh_target env req = Some target"
    and "fe_open_ro env (fh_path h target) = Inr file" "fe_file_size env file = Inr n"
  shows "handle_request env h req w = fh_send_file env h req (fh_path h target) file n w"
  using assms by (auto simp: handle_request_def)

lemma choose_range:
  assumes "hq_fields req Fd_if_none_match = None" "hq_fields req Fd_range = Some v"
    and "parse_single_range_header v = Inr r" "n < 2 ^ 63"
  shows "fh_choose env req path n = Option.bind (length_to_range r (int n)) (\<lambda>r'.
      Some (case r' of Inl _ \<Rightarrow> Fh_reject St_range_not_satisfiable [] | Inr q \<Rightarrow> Fh_send St_partial_content [] False q))"
  using assms len_casts(1) [OF assms(4)] by (simp add: fh_choose_def)

definition range_response :: "http_response \<Rightarrow> nat \<Rightarrow> nat \<Rightarrow> nat \<Rightarrow> bool" where
  "range_response res a cnt n \<longleftrightarrow>
     hs_status res = St_partial_content \<and>
     hs_fields res Fd_content_range =
       Some (chars ''bytes '' @ int_chars 10 (int a) @ chars ''-'' @ int_chars 10 (int (a + cnt - 1)) @ chars ''/'' @
         int_chars 10 (int n)) \<and>
     hs_fields res Fd_content_length = Some (int_chars 10 (int cnt))"

lemma range_cast:
  assumes "a \<le> b" "b < n" "n < 2 ^ 63"
  shows "nat (c_cast C_uint64 (int b - int a + 1)) = b - a + 1"
proof -
  have "int b - int a + 1 = int (b - a + 1)"
    using assms(1) by simp
  moreover have "c_cast C_uint64 (int (b - a + 1)) = int (b - a + 1)"
    by (rule len_casts(2)) (use assms in simp)
  ultimately show ?thesis
    by (simp only: nat_int)
qed

lemma response_range:
  assumes "a \<le> b" "b < n" "n < 2 ^ 63"
  shows "\<exists>res. fh_response env h req path n St_partial_content etag tried
      \<lparr>first_byte = int a, last_byte = int b, suffix_length = - 1\<rparr> = Some res \<and> range_response res a (b - a + 1) n"
proof -
  note cnt = range_cast [OF assms]
  note c = len_casts [of a] len_casts [of b] len_casts [of n]
  show ?thesis
    using assms c
    by (simp add: fh_response_def range_response_def res_content_length_def res_set_def range_count_def Let_def cnt)
qed


text \<open>A server with one file, read two bytes at a time.\<close>

definition demo_content :: bytes where
  "demo_content = chars ''hello!''"

definition demo_env :: "(bytes, http_response list \<times> bytes, nat) fh_env" where
  "demo_env =
     \<lparr>fe_percent_decode = Some,
      fe_open_ro = (\<lambda>p. if p = chars ''/srv/a.txt'' then Inr demo_content else Inl 2),
      fe_not_found = (\<lambda>e. e = 2),
      fe_file_size = (\<lambda>f. Inr (length demo_content)),
      fe_last_write_time = (\<lambda>p. Some 7),
      fe_write = (\<lambda>w res. (None, (fst w @ [res], snd w))),
      fe_write_header = (\<lambda>w res. (None, (fst w @ [res], snd w))),
      fe_write_bytes = (\<lambda>w b. (None, (fst w, snd w @ b))),
      fe_seek_set = (\<lambda>f p. (None, drop p demo_content)),
      fe_read_some = (\<lambda>f n. if f = [] then (Inl 0, f) else (Inr (take (min 2 n) f), drop (min 2 n) f)),
      fe_eof = 0\<rparr>"

definition demo_req :: "bytes \<Rightarrow> http_fields \<Rightarrow> http_request" where
  "demo_req target flds =
     \<lparr>hq_method = Verb_get, hq_target = target, hq_version = 11, hq_keep_alive = True, hq_fields = flds\<rparr>"

lemma demo_conn: "conn_ok demo_env fst snd"
  by (simp add: conn_ok_def demo_env_def sink_ok_def never_fails_def)

lemma demo_file: "file_ok demo_env id (chars ''/srv/a.txt'') demo_content"
proof -
  have "\<exists>k f'. 0 < k \<and> k \<le> n \<and> k \<le> length f \<and> fe_read_some demo_env f n = (Inr (take k f), f') \<and> f' = drop k f"
    if "f \<noteq> []" "0 < n" for f n
    using that
    by (intro exI [of _ "min (length f) (min 2 n)"] exI [of _ "drop (min 2 n) f"]) (auto simp: demo_env_def min_def)
  then have "source_ok (fe_eof demo_env) (fe_read_some demo_env) id"
    unfolding source_ok_def by (simp add: demo_env_def)
  then show ?thesis
    by (simp add: file_ok_def) (simp add: demo_env_def)
qed


section \<open>Other requests\<close>

lemma response_total:
  assumes "n < 2 ^ 63" "st \<noteq> St_partial_content" "tried \<or> make_etag env path n \<noteq> None"
  shows "\<exists>res. fh_response env h req path n st etag tried rng = Some res \<and> hs_status res = st \<and>
    hs_fields res Fd_content_length = Some (int_chars 10 (int n))"
  using assms by (auto simp: fh_response_def res_content_length_def res_set_def Let_def)

text \<open>Without a range and without a condition, the whole file.\<close>

lemma file_is_served:
  assumes conn: "conn_ok env hdrs out" and files: "file_ok env content (fh_path h target) whole"
    and req: "hq_method req = Verb_get" "fh_target env req = Some target"
    and fields: "hq_fields req Fd_if_none_match = None" "hq_fields req Fd_range = None"
    and len: "length whole < 2 ^ 63" and etag: "make_etag env (fh_path h target) (length whole) \<noteq> None"
  shows "\<exists>w' res. handle_request env h req w = Some (None, w') \<and> hdrs w' = hdrs w @ [res] \<and> hs_status res = St_ok \<and>
    hs_fields res Fd_content_length = Some (int_chars 10 (int (length whole))) \<and> out w' = out w @ whole"
proof -
  obtain f where f: "fe_open_ro env (fh_path h target) = Inr f" "fe_file_size env f = Inr (length whole)"
    and seek: "\<And>p. \<exists>f'. fe_seek_set env f p = (None, f') \<and> content f' = drop p whole"
    and src: "source_ok (fe_eof env) (fe_read_some env) content"
    using files unfolding file_ok_def by blast
  have h: "handle_request env h req w = fh_send_file env h req (fh_path h target) f (length whole) w"
    using handle_open [OF _ req(2) f] req(1) by simp
  have choose: "fh_choose env req (fh_path h target) (length whole) = Some (Fh_send St_ok [] False hr_default)"
    using fields by (simp add: fh_choose_def)
  obtain res where res: "fh_response env h req (fh_path h target) (length whole) St_ok [] False hr_default = Some res"
    "hs_status res = St_ok" "hs_fields res Fd_content_length = Some (int_chars 10 (int (length whole)))"
    using response_total [OF len, of St_ok False env "fh_path h target" h req "[]" hr_default] etag by auto
  obtain w1 where w1: "fe_write_header env w res = (None, w1)" "hdrs w1 = hdrs w @ [res]" "out w1 = out w"
    using conn_headerD [OF conn] by blast
  obtain f' where f': "fe_seek_set env f 0 = (None, f')" "content f' = whole"
    using seek [of 0] by auto
  obtain f'' w2 where send: "general_send_file (fe_eof env) (fe_seek_set env) (fe_read_some env) (fe_write_bytes env) (8 * 1024) w1 f
      send_file_default = Some (Inr (length whole), f'', w2)"
    "out w2 = out w1 @ whole" "hdrs w2 = hdrs w1"
    using send_all [where g = hdrs and eof = "fe_eof env" and content = content and write_all = "fe_write_bytes env"
        and out = out and buf_size = "8 * 1024" and whole = whole and w = w1 and fa = f
        and fb = f' and seek_set = "fe_seek_set env", OF src _ _ _ _ f'] conn
    unfolding conn_ok_def by auto
  then show ?thesis
    using h choose res w1 req(1) by (simp add: fh_send_file_def fh_send_body_def)
qed

text \<open>
  An answer to HEAD, or one with status 304, has no body: unless the method is GET, and for GET when the
  entity tag is the one the client has, nothing follows the header.
\<close>

lemma only_get_has_body:
  assumes conn: "conn_ok env hdrs out" and res: "handle_request env h req w = Some (r, w')"
    and "hq_method req \<noteq> Verb_get"
  shows "out w' = out w \<and> length (hdrs w') \<le> length (hdrs w) + 1"
proof -
  let ?P = "\<lambda>w'. out w' = out w \<and> length (hdrs w') \<le> length (hdrs w) + 1"
  have wr: "?P (snd (fe_write env w x))" "?P (snd (fe_write_header env w x))" for x
    using connD [OF conn, of w x] conn_headerD [OF conn, of w x] by (metis order.refl snd_conv length_append_singleton Suc_eq_plus1)+
  have body: "fh_send_body env req st rng f w'' = Some (None, w'')" for st rng f w''
    using assms(3) by (simp add: fh_send_body_def)
  have sent: "?P (snd y)" if a: "fh_send_file env h req path f n w = Some y" for path f n y
  proof -
    obtain c where c: "fh_choose env req path n = Some c"
      using a by (cases "fh_choose env req path n") (auto simp: fh_send_file_def)
    show ?thesis
    proof (cases c)
      case (Fh_reject st reason)
      then show ?thesis
        using a c wr(1) by (auto simp: fh_send_file_def)
    next
      case (Fh_send st etag tried rng)
      then obtain x where "fh_response env h req path n st etag tried rng = Some x"
        using a c by (cases "fh_response env h req path n st etag tried rng") (auto simp: fh_send_file_def)
      then show ?thesis
        using a c Fh_send wr(2) [of x] body
        by (cases "fe_write_header env w x", cases "fst (fe_write_header env w x)") (auto simp: fh_send_file_def)
    qed
  qed
  have wr': "?P w''" if "fe_write env w x = (e, w'')" for x e w''
    using wr(1) [of x] that by simp
  have sent': "?P w''" if "fh_send_file env h req path f n w = Some (e, w'')" for path f n e w''
    using sent [OF that] by simp
  show ?thesis
    using res by (auto simp: handle_request_def Let_def dest!: wr' sent' split: if_splits option.splits sum.splits)
qed

lemma not_modified_has_no_body:
  assumes conn: "conn_ok env hdrs out" and files: "file_ok env content (fh_path h target) whole"
    and req: "hq_method req = Verb_get" "fh_target env req = Some target" and len: "length whole < 2 ^ 63"
    and tag: "make_etag env (fh_path h target) (length whole) = Some etag" "etag \<noteq> []"
    and cond: "hq_fields req Fd_if_none_match = Some etag"
  shows "\<exists>w' res. handle_request env h req w = Some (None, w') \<and> hdrs w' = hdrs w @ [res] \<and>
    hs_status res = St_not_modified \<and> out w' = out w"
proof -
  obtain f where f: "fe_open_ro env (fh_path h target) = Inr f" "fe_file_size env f = Inr (length whole)"
    using files unfolding file_ok_def by blast
  have h: "handle_request env h req w = fh_send_file env h req (fh_path h target) f (length whole) w"
    using handle_open [OF _ req(2) f] req(1) by simp
  have choose: "fh_choose env req (fh_path h target) (length whole) = Some (Fh_send St_not_modified etag True hr_default)"
    using tag cond by (simp add: fh_choose_def)
  obtain res where res: "fh_response env h req (fh_path h target) (length whole) St_not_modified etag True hr_default = Some res"
    "hs_status res = St_not_modified"
    using response_total [OF len, of St_not_modified True env "fh_path h target" h req etag hr_default] by auto
  obtain w1 where "fe_write_header env w res = (None, w1)" "hdrs w1 = hdrs w @ [res]" "out w1 = out w"
    using conn_headerD [OF conn] by blast
  then show ?thesis
    using h choose res by (simp add: fh_send_file_def fh_send_body_def)
qed

text \<open>The text of the cache control: the directives with commas between them.\<close>

lemma fold_directives: "fold (\<lambda>d s. s @ d @ sep) ds s = s @ concat (map (\<lambda>d. d @ sep) ds)"
  by (induction ds arbitrary: s) auto

lemma set_cache_control_joins:
  "fh_cache_control (fh_set_cache_control (ds @ [d]) h) = concat (map (\<lambda>d. d @ chars '', '') ds) @ d"
  by (simp add: fh_set_cache_control_def fold_directives Let_def) (simp add: chars_def)

section \<open>Paths\<close>

text \<open>
  A target whose decoded text has a single slash in front is looked up below the directory.
\<close>

lemma path_below_root:
  assumes "fh_root h \<noteq> []" "target = 0x2f # rest" "rest = [] \<or> hd rest \<noteq> 0x2f"
  shows "\<exists>q. fh_path h target = fh_root h @ q \<or> fh_path h target = fh_default_file h"
proof -
  have "\<exists>q. path_append (fh_root h) rest = fh_root h @ q"
    using assms(1,3) by (auto simp: path_append_def)
  then obtain q where q: "path_append (fh_root h) rest = fh_root h @ q"
    by blast
  then show ?thesis
    using assms by (auto simp: fh_path_def path_append_def Let_def)
qed

text \<open>
  Two slashes in front make the rest an absolute path, which replaces the directory; and the test for
  two dots is made before decoding, so that encoded dots pass it.
\<close>

lemma two_slashes_leave_root:
  "fh_target demo_env (demo_req (chars ''//etc/passwd'') Map.empty) = Some (chars ''//etc/passwd'')"
  "fh_path (http_file_handler_new (chars ''/srv'')) (chars ''//etc/passwd'') = chars ''/etc/passwd''"
  by code_simp+

lemma encoded_dots_leave_root:
  assumes "fe_percent_decode env (chars ''/%2e%2e/etc/passwd'') = Some (chars ''/../etc/passwd'')"
  shows "fh_target env (demo_req (chars ''/%2e%2e/etc/passwd'') flds) = Some (chars ''/../etc/passwd'')"
    and "fh_path (http_file_handler_new (chars ''/srv'')) (chars ''/../etc/passwd'') = chars ''/srv/../etc/passwd''"
proof -
  have "\<not> sv_contains (chars ''/%2e%2e/etc/passwd'') (chars ''..'')"
    "chars ''/%2e%2e/etc/passwd'' \<noteq> []" "hd (chars ''/%2e%2e/etc/passwd'') = 0x2f"
    by code_simp+
  then show "fh_target env (demo_req (chars ''/%2e%2e/etc/passwd'') flds) = Some (chars ''/../etc/passwd'')"
    using assms by (simp add: fh_target_def demo_req_def)
  show "fh_path (http_file_handler_new (chars ''/srv'')) (chars ''/../etc/passwd'') = chars ''/srv/../etc/passwd''"
    by code_simp
qed

section \<open>Two answers that are not as they should be\<close>

text \<open>A suffix of an empty file is answered with status 206 and the positions 0 to -1.\<close>

lemma suffix_of_empty_file:
  "fh_choose env (demo_req target [Fd_range \<mapsto> chars ''bytes=-5'']) path 0 =
   Some (Fh_send St_partial_content [] False \<lparr>first_byte = 0, last_byte = - 1, suffix_length = - 1\<rparr>)"
proof -
  have "parse_single_range_header (chars ''bytes=-5'') = Inr \<lparr>first_byte = - 1, last_byte = - 1, suffix_length = 5\<rparr>"
    by code_simp
  then show ?thesis
    by (simp add: fh_choose_def demo_req_def length_to_range_def hr_valid_def c_in_cases)
qed

text \<open>An answer without a body has no length, which leaves a client of a persistent connection waiting.\<close>

lemma empty_answer_has_no_length:
  "hs_fields (make_res (http_file_handler_new root) req St_range_not_satisfiable []) Fd_content_length = None \<and>
   hs_keep_alive (make_res (http_file_handler_new root) req St_range_not_satisfiable []) = hq_keep_alive req"
  by (simp add: make_res_def http_file_handler_new_def)

end
