(* ===== verification/Gumbo.thy ===== *)
theory Gumbo
  imports Bom Str_View
begin

text \<open>
  HTML documents, \<open>include/dsk/gumbo.hpp\<close>: selectors and their syntax, the searches in the tree, the text of a
  node, and the detection of the character set. The parser (gumbo) and the conversion between character sets
  are parameters. A node is the tree below it; a tag is the code gumbo gives its name, with the codes
  \<open>GUMBO_TAG_UNKNOWN\<close> and \<open>GUMBO_TAG_LAST\<close>.
\<close>

section \<open>The tree\<close>

datatype 't gtag = Gtag 't | Tag_unknown | Tag_last

type_synonym gattrs = "(bytes \<times> bytes) list"

text \<open>\<open>G_other\<close> is a node of another type (comment, CDATA, whitespace, template), whose \<open>children()\<close> are none.\<close>

datatype 't gnode =
    G_document "'t gnode list"
  | G_element "'t gtag" gattrs "'t gnode list"
  | G_text bytes
  | G_other

fun g_children :: "'t gnode \<Rightarrow> 't gnode list" where
  "g_children (G_document cs) = cs"
| "g_children (G_element t kvs cs) = cs"
| "g_children n = []"

text \<open>The first attribute of that name; a handle that is null is \<open>None\<close>.\<close>

fun get_attr :: "gattrs \<Rightarrow> bytes \<Rightarrow> bytes option" where
  "get_attr [] name = None"
| "get_attr ((k, v) # kvs) name = (if k = name then Some v else get_attr kvs name)"

definition attrv :: "gattrs \<Rightarrow> bytes \<Rightarrow> bytes \<Rightarrow> bytes" where
  "attrv kvs name def = (case get_attr kvs name of Some v \<Rightarrow> v | None \<Rightarrow> def)"

definition has_attr :: "gattrs \<Rightarrow> bytes \<Rightarrow> bool" where
  "has_attr kvs k \<longleftrightarrow> get_attr kvs k \<noteq> None"

definition has_attr_value :: "gattrs \<Rightarrow> bytes \<Rightarrow> bytes \<Rightarrow> bool" where
  "has_attr_value kvs k v \<longleftrightarrow> (case get_attr kvs k of Some a \<Rightarrow> a = v | None \<Rightarrow> False)"

section \<open>Selectors\<close>

record 't simple_sel =
  ss_tag :: "'t gtag"
  ss_attrs :: gattrs

definition match_any_tag :: "'t simple_sel \<Rightarrow> bool" where
  "match_any_tag s \<longleftrightarrow> ss_tag s = Tag_last"

fun ss_attrs_match :: "gattrs \<Rightarrow> gattrs \<Rightarrow> bool" where
  "ss_attrs_match [] kvs = True"
| "ss_attrs_match ((k, v) # sel) kvs =
     (case get_attr kvs k of
        Some a \<Rightarrow> if v \<noteq> [] \<and> v \<noteq> a then False else ss_attrs_match sel kvs
      | None \<Rightarrow> False)"

definition ss_match :: "'t simple_sel \<Rightarrow> 't gtag \<Rightarrow> gattrs \<Rightarrow> bool" where
  "ss_match s t kvs =
     (if \<not> match_any_tag s \<and> ss_tag s \<noteq> t then False else ss_attrs_match (ss_attrs s) kvs)"

text \<open>A tag, a simple selector, or a combination of selectors by the overloaded operators.\<close>

datatype 't gumbo_sel =
    Tag_sel "'t gtag"
  | Simple_sel "'t simple_sel"
  | And_sel "'t gumbo_sel" "'t gumbo_sel"
  | Or_sel "'t gumbo_sel" "'t gumbo_sel"
  | Minus_sel "'t gumbo_sel" "'t gumbo_sel"
  | Not_sel "'t gumbo_sel"

fun sel_match :: "'t gumbo_sel \<Rightarrow> 't gtag \<Rightarrow> gattrs \<Rightarrow> bool" where
  "sel_match (Tag_sel tag) t kvs \<longleftrightarrow> tag = t"
| "sel_match (Simple_sel s) t kvs \<longleftrightarrow> ss_match s t kvs"
| "sel_match (And_sel l r) t kvs \<longleftrightarrow> sel_match l t kvs \<and> sel_match r t kvs"
| "sel_match (Or_sel l r) t kvs \<longleftrightarrow> sel_match l t kvs \<or> sel_match r t kvs"
| "sel_match (Minus_sel l r) t kvs \<longleftrightarrow> sel_match l t kvs \<and> \<not> sel_match r t kvs"
| "sel_match (Not_sel s) t kvs \<longleftrightarrow> \<not> sel_match s t kvs"

section \<open>The syntax of selectors\<close>

text \<open>
  \<open>parse\<close> works on positions; \<open>None\<close> is \<open>npos\<close>. Reading a character at or behind the end of the view is
  \<open>Sel_undefined\<close>. \<open>sv_between\<close> is \<open>sel.substr(i, j - i)\<close>.
\<close>

datatype sel_fault = Sel_failed | Sel_undefined

definition sv_between :: "bytes \<Rightarrow> nat \<Rightarrow> nat option \<Rightarrow> bytes" where
  "sv_between s i j = (case j of None \<Rightarrow> drop i s | Some j \<Rightarrow> sv_substr s i (j - i))"

definition sel_key :: "bytes \<Rightarrow> nat \<Rightarrow> sel_fault + bytes \<times> nat option" where
  "sel_key s i =
     (if s ! i = of_char CHR ''.'' then Inr (chars ''class'', Some (i + 1))
      else if s ! i = of_char CHR ''#'' then Inr (chars ''id'', Some (i + 1))
      else
        (let i = i + 1; j = sv_find_first_of s (chars ''=.# '') i
         in if j = Some i then Inl Sel_failed else Inr (sv_between s i j, j)))"

definition sel_value :: "bytes \<Rightarrow> nat option \<Rightarrow> sel_fault + bytes \<times> nat option" where
  "sel_value s i =
     (case i of
        None \<Rightarrow> Inl Sel_undefined
      | Some i \<Rightarrow>
          if i \<ge> length s then Inl Sel_undefined
          else if s ! i = 0x22 \<or> s ! i = 0x27
          then (let q = s ! i; i = i + 1; j = sv_find s q i
                in Inr (sv_between s i j, case j of None \<Rightarrow> None | Some j \<Rightarrow> sv_find_first_of s (chars ''.# '') j))
          else (let j = sv_find_first_of s (chars ''.# '') i in Inr (sv_between s i j, j)))"

lemma sv_find_le: "sv_find_if P s i = Some j \<Longrightarrow> i \<le> j"
  using sv_find_if_SomeD by fast

lemma sel_key_progress: "sel_key s i = Inr (k, Some j) \<Longrightarrow> i < j"
  by (auto simp: sel_key_def Let_def sv_find_first_of_def split: if_splits dest!: sv_find_le)

lemma sel_value_progress: "sel_value s (Some i) = Inr (v, Some j) \<Longrightarrow> i \<le> j"
  by (auto simp: sel_value_def Let_def sv_find_first_of_def sv_find_def split: if_splits option.splits dest!: sv_find_le)

lemma sel_value_from: "sel_value s i = Inr r \<Longrightarrow> \<exists>j. i = Some j"
  by (cases i) (simp_all add: sel_value_def)

function sel_attrs :: "bytes \<Rightarrow> nat option \<Rightarrow> gattrs \<Rightarrow> sel_fault + gattrs" where
  "sel_attrs s i kvs =
     (case i of
        None \<Rightarrow> Inr kvs
      | Some i \<Rightarrow>
          if i < length s
          then (case sel_key s i of
                  Inl e \<Rightarrow> Inl e
                | Inr (k, i) \<Rightarrow>
                    (case sel_value s i of
                       Inl e \<Rightarrow> Inl e
                     | Inr (v, i) \<Rightarrow> sel_attrs s i (kvs @ [(k, v)])))
          else Inr kvs)"
  by pat_completeness auto

termination
proof (relation "measure (\<lambda>(s, i, kvs). case i of None \<Rightarrow> 0 | Some i \<Rightarrow> Suc (length s) - i)", goal_cases)
  case (2 s i kvs i1 r k i2 r2 v i3)
  then obtain j where j: "i2 = Some j"
    using sel_value_from by fastforce
  then have "i1 < j"
    using 2 sel_key_progress by fastforce
  moreover have "j \<le> n" if "i3 = Some n" for n
    using 2 j that sel_value_progress by fastforce
  ultimately show ?case
    using 2 by (cases i3) auto
qed simp

declare sel_attrs.simps [simp del]

text \<open>\<open>tag_of\<close> is \<open>gumbo_tagn_enum\<close>.\<close>

definition sel_parse :: "(bytes \<Rightarrow> 't gtag) \<Rightarrow> bytes \<Rightarrow> sel_fault + 't simple_sel" where
  "sel_parse tag_of sel =
     (if sel = [] then Inl Sel_failed
      else
        (let (i, tag) =
               if sel ! 0 = of_char CHR ''*'' then (Some 1, Tag_last)
               else (let i = sv_find_first_of sel (chars ''.# '') 0 in (i, tag_of (sv_between sel 0 i)))
         in if sel ! 0 \<noteq> of_char CHR ''*'' \<and> tag = Tag_unknown then Inl Sel_failed
            else case sel_attrs sel i [] of Inl e \<Rightarrow> Inl e | Inr kvs \<Rightarrow> Inr \<lparr>ss_tag = tag, ss_attrs = kvs\<rparr>))"

section \<open>Searching\<close>

datatype gumbo_search_type = Gs_self | Gs_direct_child | Gs_until_found | Gs_until_found_first | Gs_all

text \<open>
  \<open>foreach_if\<close> with its loop over the children. The callback threads what it captures and says whether
  the node was found.
\<close>

type_synonym ('t, 'a) g_callback = "'t gnode \<Rightarrow> 'a \<Rightarrow> bool \<times> 'a"

lemma size_g_children: "2 * size_list size (g_children n) < Suc (2 * size n)"
  by (cases n) simp_all

function foreach_if :: "gumbo_search_type \<Rightarrow> ('t, 'a) g_callback \<Rightarrow> 't gnode \<Rightarrow> 'a \<Rightarrow> 'a"
  and foreach_child :: "gumbo_search_type \<Rightarrow> ('t, 'a) g_callback \<Rightarrow> 't gnode list \<Rightarrow> 'a \<Rightarrow> 'a"
where
  "foreach_if st f n a = (if st = Gs_self then snd (f n a) else foreach_child st f (g_children n) a)"
| "foreach_child st f [] a = a"
| "foreach_child st f (c # cs) a =
     (case st of
        Gs_until_found \<Rightarrow> (let (found, a) = f c a in foreach_child st f cs (if \<not> found then foreach_if st f c a else a))
      | Gs_until_found_first \<Rightarrow> (let (found, a) = f c a in if found then a else foreach_child st f cs (foreach_if st f c a))
      | Gs_all \<Rightarrow> foreach_child st f cs (foreach_if st f c (snd (f c a)))
      | _ \<Rightarrow> foreach_child st f cs (snd (f c a)))"
  by pat_completeness auto

termination
  by (relation "measure (\<lambda>x. case x of Inl (st, f, n, a) \<Rightarrow> 2 * size n + 1 | Inr (st, f, cs, a) \<Rightarrow> 2 * size_list size cs)")
    (simp_all add: size_g_children)

declare foreach_if.simps [simp del] foreach_child.simps [simp del]

text \<open>A collection of elements searches from each of them.\<close>

fun coll_foreach_if :: "gumbo_search_type \<Rightarrow> ('t, 'a) g_callback \<Rightarrow> 't gnode list \<Rightarrow> 'a \<Rightarrow> 'a" where
  "coll_foreach_if st f [] a = a"
| "coll_foreach_if st f (e # es) a = coll_foreach_if st f es (foreach_if st f e a)"

fun add_elm :: "'t gumbo_sel \<Rightarrow> ('t, 't gnode list) g_callback" where
  "add_elm sel (G_element t kvs cs) v =
     (if sel_match sel t kvs then (True, v @ [G_element t kvs cs]) else (False, v))"
| "add_elm sel n v = (False, v)"

definition elms :: "gumbo_search_type \<Rightarrow> 't gumbo_sel \<Rightarrow> 't gnode \<Rightarrow> 't gnode list" where
  "elms st sel n = foreach_if st (add_elm sel) n []"

definition coll_elms :: "gumbo_search_type \<Rightarrow> 't gumbo_sel \<Rightarrow> 't gnode list \<Rightarrow> 't gnode list" where
  "coll_elms st sel es = coll_foreach_if st (add_elm sel) es []"

section \<open>Text\<close>

fun add_text_node :: "('t, 't gnode list) g_callback" where
  "add_text_node (G_text x) v = (True, v @ [G_text x])"
| "add_text_node n v = (False, v)"

definition text_nodes :: "gumbo_search_type \<Rightarrow> 't gnode \<Rightarrow> 't gnode list" where
  "text_nodes st n = foreach_if st add_text_node n []"

fun unite_text :: "bytes \<Rightarrow> ('t, bytes) g_callback" where
  "unite_text sep (G_text x) ut = (True, ut @ x @ sep)"
| "unite_text sep n ut = (False, ut)"

text \<open>\<open>rfind\<close> of a string: the last position, not after \<open>p\<close>, at which it stands.\<close>

definition sv_rfind :: "bytes \<Rightarrow> bytes \<Rightarrow> nat \<Rightarrow> nat option" where
  "sv_rfind s pat p =
     (if length s < length pat then None
      else find (\<lambda>i. take (length pat) (drop i s) = pat) (rev [0 ..< Suc (min p (length s - length pat))]))"

definition united_text :: "gumbo_search_type \<Rightarrow> bytes \<Rightarrow> 't gnode \<Rightarrow> bytes" where
  "united_text st def_and_sep n =
     (let p = sv_rfind def_and_sep (chars ''<>'') (length def_and_sep);
          def = sv_between def_and_sep 0 p;
          sep = (case p of
                   Some p \<Rightarrow> if p + 2 < length def_and_sep then drop (p + 2) def_and_sep else chars '' ''
                 | None \<Rightarrow> chars '' '');
          ut = foreach_if st (unite_text sep) n []
      in if ut \<noteq> [] then take (length ut - length sep) ut else def)"

text \<open>\<open>operator-\<close>: the value of an attribute of the first element, \<open>name[=default]\<close>.\<close>

definition coll_attr :: "'t gnode list \<Rightarrow> bytes \<Rightarrow> bytes" where
  "coll_attr es attr =
     (let p = sv_find attr (of_char CHR ''='') 0; name = sv_between attr 0 p;
          def = (case p of Some p \<Rightarrow> if p + 1 < length attr then drop (p + 1) attr else [] | None \<Rightarrow> [])
      in case es of
           G_element t kvs cs # es \<Rightarrow> attrv kvs name def
         | _ \<Rightarrow> def)"

section \<open>Parsing a document\<close>

record 't gumbo_output =
  go_document :: "'t gnode"
  go_root :: "'t gnode"

datatype 'e gumbo_fault = Gumbo_parse_failed | Gumbo_cvt_failed 'e

definition parse_utf8 :: "(bytes \<Rightarrow> 't gumbo_output option) \<Rightarrow> bytes \<Rightarrow> 'e gumbo_fault + 't gumbo_output" where
  "parse_utf8 gumbo s = (case gumbo s of Some out \<Rightarrow> Inr out | None \<Rightarrow> Inl Gumbo_parse_failed)"

text \<open>The charset that the document names itself. The tags \<open>head\<close> and \<open>meta\<close> are known to gumbo.\<close>

definition meta_charset :: "(bytes \<Rightarrow> 't gtag) \<Rightarrow> 't gumbo_output \<Rightarrow> bytes" where
  "meta_charset tag_of out =
     (let sel = (\<lambda>x. Simple_sel \<lparr>ss_tag = tag_of (chars x), ss_attrs = []\<rparr>) in
      ascii_trimed_view
        (coll_attr (coll_elms Gs_direct_child (sel ''meta'') (elms Gs_direct_child (sel ''head'') (go_root out)))
           (chars ''charset'')))"

definition gumbo_parse ::
  "(bytes \<Rightarrow> 't gumbo_output option) \<Rightarrow> (bytes \<Rightarrow> 't gtag) \<Rightarrow> (bytes \<Rightarrow> bytes \<Rightarrow> bytes \<Rightarrow> 'e + bytes) \<Rightarrow> bool \<Rightarrow>
   bytes \<Rightarrow> bytes \<Rightarrow> bytes \<Rightarrow> 'e gumbo_fault + 't gumbo_output" where
  "gumbo_parse gumbo tag_of to_dst skip_detection s src_cs dst_cs =
     (case
        (if skip_detection then Inr (None, src_cs)
         else case bom_charset (detect_bom s) of
             Some cs \<Rightarrow> Inr (None, chars cs)
           | None \<Rightarrow>
               if src_cs = []
               then (case parse_utf8 gumbo s of Inl e \<Rightarrow> Inl e | Inr out \<Rightarrow> Inr (Some out, meta_charset tag_of out))
               else Inr (None, src_cs))
      of
        Inl e \<Rightarrow> Inl e
      | Inr (out, src_cs) \<Rightarrow>
          if src_cs = [] \<or> src_cs = dst_cs
          then (case out of Some out \<Rightarrow> Inr out | None \<Rightarrow> parse_utf8 gumbo s)
          else (case to_dst src_cs s dst_cs of
                  Inl e \<Rightarrow> Inl (Gumbo_cvt_failed e)
                | Inr utf8 \<Rightarrow> parse_utf8 gumbo utf8))"

end
