(* ===== verification/Gumbo_Props.thy ===== *)
theory Gumbo_Props
  imports Gumbo
begin

text \<open>
  What the searches in a document find, in terms of its nodes in document order with their ancestors; the
  text of a node; what a selector in the short syntax selects; what goes wrong.
\<close>

section \<open>Nodes in document order\<close>

text \<open>The nodes below a node, each with those between the two, from the outside in.\<close>

fun g_walk :: "'t gnode list \<Rightarrow> 't gnode \<Rightarrow> ('t gnode list \<times> 't gnode) list"
  and g_walks :: "'t gnode list \<Rightarrow> 't gnode list \<Rightarrow> ('t gnode list \<times> 't gnode) list"
where
  "g_walk anc (G_document cs) = g_walks anc cs"
| "g_walk anc (G_element t kvs cs) = g_walks anc cs"
| "g_walk anc (G_text x) = []"
| "g_walk anc G_other = []"
| "g_walks anc [] = []"
| "g_walks anc (c # cs) = (anc, c) # g_walk (anc @ [c]) c @ g_walks anc cs"

lemma g_walk_children: "g_walk anc n = g_walks anc (g_children n)"
  by (cases n) simp_all

lemma g_walk_anc:
  "y \<in> set (g_walk anc n) \<Longrightarrow> set anc \<subseteq> set (fst y)"
  "y \<in> set (g_walks anc cs) \<Longrightarrow> set anc \<subseteq> set (fst y)"
  by (induction anc n and anc cs rule: g_walk_g_walks.induct) auto

section \<open>Callbacks that collect\<close>

text \<open>The callbacks of the searches: a node is found or not by what it is, and is added when it is found.\<close>

locale g_collector =
  fixes f :: "('t, 'a) g_callback" and found :: "'t gnode \<Rightarrow> bool" and add :: "'t gnode \<Rightarrow> 'a \<Rightarrow> 'a"
  assumes callback: "f n a = (if found n then (True, add n a) else (False, a))"
begin

definition outermost :: "'t gnode list \<times> 't gnode \<Rightarrow> bool" where
  "outermost y \<longleftrightarrow> found (snd y) \<and> list_all (\<lambda>a. \<not> found a) (fst y)"

lemma direct_child: "foreach_child Gs_direct_child f cs a = fold add (filter found cs) a"
  by (induction cs arbitrary: a) (simp_all add: foreach_child.simps callback)

lemma all_of:
  "foreach_if Gs_all f n a = fold add (filter found (map snd (g_walk anc n))) a"
  "foreach_child Gs_all f cs a = fold add (filter found (map snd (g_walks anc cs))) a"
  by (induction anc n and anc cs arbitrary: a and a rule: g_walk_g_walks.induct)
    (simp_all add: foreach_if.simps foreach_child.simps callback)

lemma outermost_below:
  assumes "found c"
  shows "filter outermost (g_walk (anc @ [c]) c) = []"
  using assms g_walk_anc(1) [of _ "anc @ [c]" c] by (fastforce simp: filter_empty_conv outermost_def list_all_iff)

lemma until_found:
  "list_all (\<lambda>a. \<not> found a) anc \<Longrightarrow>
   foreach_if Gs_until_found f n a = fold add (map snd (filter outermost (g_walk anc n))) a"
  "list_all (\<lambda>a. \<not> found a) anc \<Longrightarrow>
   foreach_child Gs_until_found f cs a = fold add (map snd (filter outermost (g_walks anc cs))) a"
proof (induction anc n and anc cs arbitrary: a and a rule: g_walk_g_walks.induct)
  case (6 anc c cs)
  show ?case
  proof (cases "found c")
    case True
    then show ?thesis
      using 6 outermost_below [unfolded outermost_def [abs_def]] by (simp add: foreach_child.simps callback outermost_def)
  next
    case False
    then show ?thesis
      using 6 by (simp add: foreach_child.simps callback outermost_def)
  qed
qed (simp_all add: foreach_if.simps foreach_child.simps)

end

fun g_matches :: "'t gumbo_sel \<Rightarrow> 't gnode \<Rightarrow> bool" where
  "g_matches sel (G_element t kvs cs) \<longleftrightarrow> sel_match sel t kvs"
| "g_matches sel n \<longleftrightarrow> False"

interpretation elm: g_collector "add_elm sel" "g_matches sel" "\<lambda>n v. v @ [n]" for sel :: "'t gumbo_sel"
proof
  show "add_elm sel n a = (if g_matches sel n then (True, a @ [n]) else (False, a))" for n a
    by (cases n) simp_all
qed

fun g_text :: "'t gnode \<Rightarrow> bytes option" where
  "g_text (G_text x) = Some x"
| "g_text n = None"

interpretation txt_node: g_collector add_text_node "\<lambda>n. g_text n \<noteq> None" "\<lambda>n v. v @ [n]"
proof
  show "add_text_node n a = (if g_text n \<noteq> None then (True, a @ [n]) else (False, a))" for n a
    by (cases n) simp_all
qed

lemma fold_snoc: "fold (\<lambda>n v. v @ [n]) xs a = a @ xs"
  by (induction xs arbitrary: a) simp_all

lemma foreach_children: "st \<noteq> Gs_self \<Longrightarrow> foreach_if st f n a = foreach_child st f (g_children n) a"
  by (simp add: foreach_if.simps)

text \<open>
  C31: The searches in a document find what their names say, each node once and in document order: the
  node itself, its children, all nodes below it that match, and, for the default search, those of them
  that are not below another one that matches.
\<close>

theorem gumbo_search_selects:
  "elms Gs_self sel n = filter (g_matches sel) [n] \<and>
   elms Gs_direct_child sel n = filter (g_matches sel) (g_children n) \<and>
   elms Gs_all sel n = filter (g_matches sel) (map snd (g_walk [] n)) \<and>
   elms Gs_until_found sel n =
     map snd (filter (\<lambda>(anc, c). g_matches sel c \<and> list_all (\<lambda>a. \<not> g_matches sel a) anc) (g_walk [] n))"
proof (intro conjI)
  show "elms Gs_self sel n = filter (g_matches sel) [n]"
    by (simp add: elms_def foreach_if.simps elm.callback)
  show "elms Gs_direct_child sel n = filter (g_matches sel) (g_children n)"
    by (simp add: elms_def foreach_children elm.direct_child fold_snoc)
  show "elms Gs_all sel n = filter (g_matches sel) (map snd (g_walk [] n))"
    by (simp add: elms_def elm.all_of(1) [of _ _ _ "[]"] fold_snoc)
  show "elms Gs_until_found sel n =
     map snd (filter (\<lambda>(anc, c). g_matches sel c \<and> list_all (\<lambda>a. \<not> g_matches sel a) anc) (g_walk [] n))"
    by (simp add: elms_def elm.until_found(1) [of _ "[]"] fold_snoc elm.outermost_def [abs_def] case_prod_unfold)
qed

section \<open>Text\<close>

text \<open>Two searches whose callbacks agree on what is found and keep a relation between their states.\<close>

lemma foreach_simulation:
  fixes f :: "('t, 'a) g_callback" and f' :: "('t, 'b) g_callback" and n :: "'t gnode"
  assumes "\<And>n a. fst (f' n (h a)) = fst (f n a)" "\<And>n a. snd (f' n (h a)) = h (snd (f n a))"
  shows "h (foreach_if st f n a) = foreach_if st f' n (h a)"
    and "h (foreach_child st f cs a) = foreach_child st f' cs (h a)"
proof -
  have "h (foreach_if st f n a) = foreach_if st f' n (h a)" and "h (foreach_child st f cs a) = foreach_child st f' cs (h a)"
    for anc anc' :: "'t gnode list"
  proof (induction anc n and anc' cs arbitrary: a and a rule: g_walk_g_walks.induct)
    case (6 anc c cs)
    show ?case
      using 6 assms [of c a] by (cases st) (auto simp: foreach_child.simps Let_def case_prod_unfold)
  qed (simp_all add: foreach_if.simps foreach_child.simps assms)
  then show "h (foreach_if st f n a) = foreach_if st f' n (h a)" "h (foreach_child st f cs a) = foreach_child st f' cs (h a)"
    by blast+
qed

definition g_texts :: "gumbo_search_type \<Rightarrow> 't gnode \<Rightarrow> bytes list" where
  "g_texts st n = map (\<lambda>c. case g_text c of Some x \<Rightarrow> x | None \<Rightarrow> []) (text_nodes st n)"

definition texts_ended :: "bytes \<Rightarrow> 't gnode list \<Rightarrow> bytes" where
  "texts_ended sep v = concat (map (\<lambda>c. (case g_text c of Some x \<Rightarrow> x | None \<Rightarrow> []) @ sep) v)"

lemma unite_text_step:
  "fst (unite_text sep c (texts_ended sep a)) = fst (add_text_node c a)"
  "snd (unite_text sep c (texts_ended sep a)) = texts_ended sep (snd (add_text_node c a))"
  by (cases c; simp add: texts_ended_def)+

lemma unite_text_foreach:
  fixes n :: "'t gnode"
  shows "foreach_if st (unite_text sep) n [] = concat (map (\<lambda>x. x @ sep) (g_texts st n))"
proof -
  have "texts_ended sep (foreach_if st add_text_node n []) = foreach_if st (unite_text sep) n (texts_ended sep ([] :: 't gnode list))"
    by (rule foreach_simulation(1) [where h = "texts_ended sep" and f = add_text_node and f' = "unite_text sep", OF unite_text_step])
  then show ?thesis
    by (simp add: g_texts_def text_nodes_def texts_ended_def o_def)
qed

fun join_texts :: "bytes \<Rightarrow> bytes list \<Rightarrow> bytes" where
  "join_texts sep [] = []"
| "join_texts sep [x] = x"
| "join_texts sep (x # y # xs) = x @ sep @ join_texts sep (y # xs)"

lemma concat_ended: "xs \<noteq> [] \<Longrightarrow> concat (map (\<lambda>x. x @ sep) xs) = join_texts sep xs @ sep"
  by (induction sep xs rule: join_texts.induct) simp_all

lemma find_last:
  assumes "i \<le> m" "P i" "\<And>j. i < j \<Longrightarrow> j \<le> m \<Longrightarrow> \<not> P j"
  shows "find P (rev [0 ..< Suc m]) = Some i"
  using assms
proof (induction m)
  case (Suc m)
  then show ?case
    by (cases "i = Suc m") (auto simp: le_Suc_eq)
qed simp

definition has_marker :: "bytes \<Rightarrow> bool" where
  "has_marker sep \<longleftrightarrow> (\<exists>xs ys. sep = xs @ chars ''<>'' @ ys)"

lemma chars_marker: "chars ''<>'' = [0x3c, 0x3e]"
  by (simp add: chars_def)

lemma rfind_marker:
  assumes "\<not> has_marker sep"
  shows "sv_rfind (x @ chars ''<>'' @ sep) (chars ''<>'') (length (x @ chars ''<>'' @ sep)) = Some (length x)"
proof -
  let ?s = "x @ chars ''<>'' @ sep"
  have none: "take 2 (drop j ?s) \<noteq> chars ''<>''" if j: "length x < j" "j \<le> length x + length sep" for j
  proof
    assume at: "take 2 (drop j ?s) = chars ''<>''"
    show False
    proof (cases "j = Suc (length x)")
      case True
      then show ?thesis
        using at by (simp add: chars_marker)
    next
      case False
      then obtain k where k: "j = length x + 2 + k"
        using j(1) by (metis Suc_leI add_2_eq_Suc' le_Suc_ex le_neq_implies_less add_Suc_right)
      then have "take 2 (drop k sep) = chars ''<>''"
        using at by (simp add: chars_marker)
      then have "sep = take k sep @ chars ''<>'' @ drop 2 (drop k sep)"
        by (metis append_take_drop_id)
      then show False
        using assms unfolding has_marker_def by blast
    qed
  qed
  have "find (\<lambda>i. take 2 (drop i ?s) = chars ''<>'') (rev [0 ..< Suc (length x + length sep)]) = Some (length x)"
    by (rule find_last) (use none in \<open>auto simp: chars_marker\<close>)
  then show ?thesis
    by (simp add: sv_rfind_def chars_marker numeral_2_eq_2)
qed

text \<open>
  C33: The text of a node, \<open>n * "def<>sep"\<close>, is the text of the text nodes that the search finds, joined by the
  separator (a space if none is given); the default when there are none. The separator may contain
  anything but the marker, the default anything at all.
\<close>

theorem gumbo_text_is_joined:
  assumes "\<not> has_marker sep"
  shows "united_text st (d @ chars ''<>'' @ sep) n =
    (if text_nodes st n = [] then d else join_texts (if sep = [] then chars '' '' else sep) (g_texts st n))"
proof -
  let ?sep = "if sep = [] then chars '' '' else sep"
  have ne: "?sep \<noteq> []"
    by (simp add: chars_def)
  have p: "(case Some (length x) of
      Some p \<Rightarrow> if p + 2 < length (x @ chars ''<>'' @ sep) then drop (p + 2) (x @ chars ''<>'' @ sep) else chars '' ''
    | None \<Rightarrow> chars '' '') = ?sep" for x
    by (simp add: chars_marker)
  have d: "sv_between (d @ chars ''<>'' @ sep) 0 (Some (length d)) = d"
    by (simp add: sv_between_def sv_substr_def)
  have "united_text st (d @ chars ''<>'' @ sep) n =
      (let ut = concat (map (\<lambda>x. x @ ?sep) (g_texts st n)) in if ut \<noteq> [] then take (length ut - length ?sep) ut else d)"
    unfolding united_text_def rfind_marker [OF assms] Let_def p d unite_text_foreach by (rule refl)
  also have "\<dots> = (if text_nodes st n = [] then d else join_texts ?sep (g_texts st n))"
  proof (cases "g_texts st n = []")
    case True
    then show ?thesis
      by (simp add: g_texts_def)
  next
    case False
    then have "concat (map (\<lambda>x. x @ ?sep) (g_texts st n)) = join_texts ?sep (g_texts st n) @ ?sep"
      by (rule concat_ended)
    moreover have "text_nodes st n \<noteq> []"
      using False by (simp add: g_texts_def)
    ultimately show ?thesis
      using ne by (simp del: if_split_asm)
  qed
  finally show ?thesis .
qed

theorem gumbo_text_is_joined_witness:
  "united_text Gs_until_found (chars ''-'' @ chars ''<>'' @ [0x0a]) (G_document [G_element (Gtag (1::nat)) [] [G_text [0x61]], G_text [0x62]]) =
     [0x61, 0x0a, 0x62]"
proof -
  have "\<not> has_marker [0x0a]"
    by (simp add: has_marker_def chars_marker Cons_eq_append_conv)
  from gumbo_text_is_joined [OF this, of Gs_until_found "chars ''-''" "G_document [G_element (Gtag (1::nat)) [] [G_text [0x61]], G_text [0x62]]"]
  show ?thesis
    by (simp add: text_nodes_def g_texts_def foreach_if.simps foreach_child.simps)
qed

section \<open>Selectors in the short syntax\<close>

text \<open>A part is \<open>.class\<close> or \<open>#id\<close>, with its value as it is or in quotes.\<close>

datatype sel_part = Sel_part bool "u8 option" bytes

definition separator :: "u8 \<Rightarrow> bool" where
  "separator c \<longleftrightarrow> c \<in> set (chars ''.# '')"

definition quote_char :: "u8 \<Rightarrow> bool" where
  "quote_char c \<longleftrightarrow> c = 0x22 \<or> c = 0x27"

fun part_value :: "sel_part \<Rightarrow> bytes" where
  "part_value (Sel_part is_id q v) = (case q of None \<Rightarrow> v | Some q \<Rightarrow> q # v @ [q])"

fun part_text :: "sel_part \<Rightarrow> bytes" where
  "part_text (Sel_part is_id q v) = (if is_id then of_char CHR ''#'' else of_char CHR ''.'') # part_value (Sel_part is_id q v)"

fun part_attr :: "sel_part \<Rightarrow> bytes \<times> bytes" where
  "part_attr (Sel_part is_id q v) = (if is_id then chars ''id'' else chars ''class'', v)"

text \<open>A value that stands as it is has no separator and does not begin with a quote; one in quotes does not have its quote.\<close>

fun part_ok :: "sel_part \<Rightarrow> bool" where
  "part_ok (Sel_part is_id None v) \<longleftrightarrow> v \<noteq> [] \<and> \<not> quote_char (hd v) \<and> list_all (\<lambda>c. \<not> separator c) v"
| "part_ok (Sel_part is_id (Some q) v) \<longleftrightarrow> v \<noteq> [] \<and> quote_char q \<and> q \<notin> set v"

definition at_rest :: "nat \<Rightarrow> bytes \<Rightarrow> nat option" where
  "at_rest n rest = (if rest = [] then None else Some n)"

definition starts_part :: "bytes \<Rightarrow> bool" where
  "starts_part rest \<longleftrightarrow> rest = [] \<or> separator (hd rest)"

lemma sv_find_if_rest:
  assumes "n = length ws" "list_all (\<lambda>c. \<not> P c) v" "rest = [] \<or> P (hd rest)"
  shows "sv_find_if P (ws @ v @ rest) n = at_rest (n + length v) rest"
  using assms sv_find_if_end [of n ws P v] sv_find_if_at [of n ws P v rest] by (auto simp: at_rest_def)

lemma sv_between_rest: "n = length ws \<Longrightarrow> sv_between (ws @ v @ rest) n (at_rest (n + length v) rest) = v"
  by (simp add: sv_between_def at_rest_def sv_substr_def)

lemma sel_value_plain:
  assumes "n = length ws" "v \<noteq> []" "\<not> quote_char (hd v)" "list_all (\<lambda>c. \<not> separator c) v" "starts_part rest"
  shows "sel_value (ws @ v @ rest) (Some n) = Inr (v, at_rest (n + length v) rest)"
proof -
  have find: "sv_find_first_of (ws @ v @ rest) (chars ''.# '') n = at_rest (n + length v) rest"
    unfolding sv_find_first_of_def
    by (rule sv_find_if_rest) (use assms in \<open>auto simp: separator_def starts_part_def\<close>)
  have "(ws @ v @ rest) ! n = hd v"
    using nth_at [of n ws "v @ rest"] assms(1,2) by simp
  then show ?thesis
    using assms find sv_between_rest [OF assms(1), of v rest] by (simp add: sel_value_def quote_char_def)
qed

lemma sel_value_quoted:
  assumes "n = length ws" "quote_char q" "q \<notin> set v" "starts_part rest"
  shows "sel_value (ws @ (q # v @ [q]) @ rest) (Some n) = Inr (v, at_rest (n + length (q # v @ [q])) rest)"
proof -
  let ?s = "ws @ (q # v @ [q]) @ rest"
  have at: "?s ! n = q" "n < length ?s"
    using assms(1) by simp_all
  have close: "sv_find ?s q (n + 1) = Some (n + 1 + length v)"
    using sv_find_if_at [of "n + 1" "ws @ [q]" "\<lambda>x. x = q" v "q # rest"] assms(1,3)
    by (auto simp: sv_find_def list_all_iff)
  have v: "sv_between ?s (n + 1) (Some (n + 1 + length v)) = v"
    using assms(1) by (simp add: sv_between_def sv_substr_def)
  have "\<not> separator q"
    using assms(2) by (auto simp: separator_def quote_char_def chars_def)
  then have "sv_find_first_of ?s (chars ''.# '') (n + 1 + length v) = at_rest (n + length (q # v @ [q])) rest"
    using sv_find_if_rest [of "n + 1 + length v" "ws @ q # v" "\<lambda>x. x \<in> set (chars ''.# '')" "[q]" rest] assms(1,4)
    by (simp add: sv_find_first_of_def separator_def starts_part_def)
  then show ?thesis
    using at close v assms(2) by (simp add: sel_value_def quote_char_def)
qed

lemma sel_value_part:
  assumes "n = length ws" "part_ok p" "starts_part rest"
  shows "sel_value (ws @ part_value p @ rest) (Some n) = Inr (snd (part_attr p), at_rest (n + length (part_value p)) rest)"
proof (cases p)
  case (Sel_part is_id q v)
  then show ?thesis
    using assms sel_value_plain [OF assms(1), of v rest] sel_value_quoted [OF assms(1), of _ v rest]
    by (cases q) simp_all
qed

lemma sel_attrs_parts:
  assumes "ps \<noteq> []" "list_all part_ok ps"
  shows "sel_attrs (ws @ concat (map part_text ps)) (Some (length ws)) kvs = Inr (kvs @ map part_attr ps)"
  using assms
proof (induction ps arbitrary: ws kvs)
  case (Cons p ps)
  obtain is_id q v where p: "p = Sel_part is_id q v"
    by (cases p)
  let ?c = "if is_id then of_char CHR ''#'' else of_char CHR ''.'' :: u8"
  let ?rest = "concat (map part_text ps)"
  let ?s = "ws @ part_text p @ ?rest"
  have rest: "starts_part ?rest" "ps \<noteq> [] \<Longrightarrow> ?rest \<noteq> []"
    by (cases ps; cases "hd ps"; auto simp: starts_part_def separator_def chars_def)+
  have s: "?s = (ws @ [?c]) @ part_value p @ ?rest"
    using p by simp
  have "?s ! length ws = ?c"
    using p by (simp add: nth_append)
  then have key: "sel_key ?s (length ws) = Inr (fst (part_attr p), Some (length ws + 1))"
    using p by (simp add: sel_key_def)
  have "sel_value ?s (Some (length ws + 1)) = Inr (snd (part_attr p), at_rest (length ws + 1 + length (part_value p)) ?rest)"
    unfolding s by (rule sel_value_part) (use Cons.prems rest in simp_all)
  then have step: "sel_attrs ?s (Some (length ws)) kvs =
      sel_attrs ?s (at_rest (length (ws @ part_text p)) ?rest) (kvs @ [part_attr p])"
    using key p by (subst sel_attrs.simps) simp
  show ?case
  proof (cases "ps = []")
    case True
    then show ?thesis
      using step by (simp add: at_rest_def sel_attrs.simps)
  next
    case False
    then have "sel_attrs ((ws @ part_text p) @ ?rest) (Some (length (ws @ part_text p))) (kvs @ [part_attr p]) =
        Inr ((kvs @ [part_attr p]) @ map part_attr ps)"
      using Cons by (intro Cons.IH) simp_all
    then show ?thesis
      using step rest(2) False by (simp add: at_rest_def del: concat_eq_Nil_conv)
  qed
qed simp

lemma ss_attrs_match_all: "list_all (\<lambda>(k, v). v \<noteq> []) sel \<Longrightarrow> ss_attrs_match sel kvs \<longleftrightarrow> list_all (\<lambda>(k, v). get_attr kvs k = Some v) sel"
  by (induction sel kvs rule: ss_attrs_match.induct) (auto split: option.splits)

lemma sv_between_tag: "sv_between (tag @ rest) 0 (at_rest (length tag) rest) = tag"
  using sv_between_rest [of 0 "[]" tag rest] by simp

text \<open>The tag of a selector, up to the first separator.\<close>

lemma sel_parse_tag:
  assumes "tag \<noteq> []" "hd tag \<noteq> of_char CHR ''*''" "list_all (\<lambda>c. \<not> separator c) tag" "tag_of tag \<noteq> Tag_unknown" "starts_part rest"
  shows "sel_parse tag_of (tag @ rest) =
    (case sel_attrs (tag @ rest) (at_rest (length tag) rest) [] of Inl e \<Rightarrow> Inl e | Inr kvs \<Rightarrow> Inr \<lparr>ss_tag = tag_of tag, ss_attrs = kvs\<rparr>)"
proof -
  have "sv_find_first_of (tag @ rest) (chars ''.# '') 0 = at_rest (length tag) rest"
    using sv_find_if_rest [of 0 "[]" "\<lambda>x. x \<in> set (chars ''.# '')" tag rest] assms(3,5)
    by (simp add: sv_find_first_of_def separator_def starts_part_def)
  moreover have "(tag @ rest) ! 0 = hd tag"
    using assms(1) by (cases tag) simp_all
  ultimately show ?thesis
    using assms by (simp add: sel_parse_def sv_between_tag)
qed

lemma starts_part_texts: "starts_part (concat (map part_text ps))"
  by (cases ps; cases "hd ps"; auto simp: starts_part_def separator_def chars_def)

text \<open>
  C32: A selector in the short syntax means what it says: \<open>tag.class#id\<close>, any number of parts in any order and
  with their values quoted or not, is accepted, and matches the elements with that tag whose class and id
  attributes are those values; \<open>*\<close> stands for every tag.
\<close>

theorem gumbo_short_selector_matches:
  assumes "tag \<noteq> []" "list_all (\<lambda>c. \<not> separator c) tag" "tag = [of_char CHR ''*''] \<or> hd tag \<noteq> of_char CHR ''*'' \<and> tag_of tag = Gtag t"
    and "list_all part_ok ps"
  shows "\<exists>s. sel_parse tag_of (tag @ concat (map part_text ps)) = Inr s \<and>
    (ss_match s e kvs \<longleftrightarrow> (tag = [of_char CHR ''*''] \<or> e = Gtag t) \<and>
       list_all (\<lambda>p. get_attr kvs (fst (part_attr p)) = Some (snd (part_attr p))) ps)"
proof -
  let ?rest = "concat (map part_text ps)"
  let ?tag = "if tag = [of_char CHR ''*''] then Tag_last else Gtag t"
  have attrs: "sel_attrs (tag @ ?rest) (at_rest (length tag) ?rest) [] = Inr (map part_attr ps)"
  proof (cases "ps = []")
    case True
    then show ?thesis
      by (simp add: at_rest_def sel_attrs.simps)
  next
    case False
    then have "?rest \<noteq> []"
      by (cases ps; cases "hd ps"; simp)
    then show ?thesis
      using sel_attrs_parts [OF False assms(4), of tag "[]"] by (simp add: at_rest_def del: concat_eq_Nil_conv)
  qed
  have parse: "sel_parse tag_of (tag @ ?rest) = Inr \<lparr>ss_tag = ?tag, ss_attrs = map part_attr ps\<rparr>"
  proof (cases "tag = [of_char CHR ''*'']")
    case True
    have "sel_attrs (tag @ ?rest) (Some 1) [] = Inr (map part_attr ps)"
    proof (cases "ps = []")
      case p: True
      then show ?thesis
        using True by (simp add: sel_attrs.simps)
    next
      case False
      then show ?thesis
        using sel_attrs_parts [OF False assms(4), of tag "[]"] True by simp
    qed
    then show ?thesis
      using True by (simp add: sel_parse_def)
  next
    case False
    then show ?thesis
      using sel_parse_tag [of tag tag_of ?rest] assms attrs starts_part_texts by simp
  qed
  have "list_all (\<lambda>(k, v). v \<noteq> []) (map part_attr ps)"
    using assms(4)
  proof (induction ps)
    case (Cons p ps)
    then show ?case
      by (cases p; cases "case p of Sel_part is_id q v \<Rightarrow> q") auto
  qed simp
  then have "ss_attrs_match (map part_attr ps) kvs \<longleftrightarrow> list_all (\<lambda>p. get_attr kvs (fst (part_attr p)) = Some (snd (part_attr p))) ps"
    by (simp add: ss_attrs_match_all list_all_iff case_prod_unfold)
  then show ?thesis
    using parse by (auto simp: ss_match_def match_any_tag_def)
qed

theorem gumbo_short_selector_matches_witness:
  "\<exists>s. sel_parse (\<lambda>x. Gtag (length x)) (chars ''div'' @ concat (map part_text
       [Sel_part False None (chars ''note''), Sel_part True (Some 0x22) (chars ''a.b'')])) = Inr s \<and>
    (ss_match s (Gtag 3) [(chars ''id'', chars ''a.b''), (chars ''class'', chars ''note'')] \<longleftrightarrow>
       (chars ''div'' = [of_char CHR ''*''] \<or> Gtag (3 :: nat) = Gtag 3) \<and>
       list_all (\<lambda>p. get_attr [(chars ''id'', chars ''a.b''), (chars ''class'', chars ''note'')] (fst (part_attr p)) = Some (snd (part_attr p)))
         [Sel_part False None (chars ''note''), Sel_part True (Some 0x22) (chars ''a.b'')])"
  by (rule gumbo_short_selector_matches) (simp_all add: chars_def separator_def quote_char_def)

section \<open>What goes wrong\<close>

text \<open>
  \<open>attr=value\<close>, which the comment on \<open>gumbo_simple_sel\<close> describes, keeps the equals sign in the value, and so does not match
  the attribute it names; an attribute without a value at the end of the selector is read past the end.
\<close>

lemma attr_value_keeps_equals:
  assumes tag: "tag \<noteq> []" "hd tag \<noteq> of_char CHR ''*''" "list_all (\<lambda>c. \<not> separator c) tag" "tag_of tag \<noteq> Tag_unknown"
    and k: "k \<noteq> []" "list_all (\<lambda>c. c \<noteq> of_char CHR ''='' \<and> \<not> separator c) k" and v: "list_all (\<lambda>c. \<not> separator c) v"
  shows "sel_parse tag_of (tag @ chars '' '' @ k @ chars ''='' @ v) = Inr \<lparr>ss_tag = tag_of tag, ss_attrs = [(k, chars ''='' @ v)]\<rparr>"
proof -
  let ?n = "length tag"
  let ?rest = "chars '' '' @ k @ chars ''='' @ v"
  let ?s = "tag @ ?rest"
  have sp: "chars '' '' = [of_char CHR '' '']" "chars ''='' = [of_char CHR ''='']"
    by (simp_all add: chars_def)
  have "sv_find_first_of ?s (chars ''=.# '') (?n + 1) = Some (?n + 1 + length k)"
    unfolding sv_find_first_of_def
    using sv_find_if_at [of "?n + 1" "tag @ chars '' ''" "\<lambda>x. x \<in> set (chars ''=.# '')" k "chars ''='' @ v"] k(2)
    by (auto simp: sp list_all_iff separator_def) (auto simp: chars_def)
  then have key: "sel_key ?s ?n = Inr (k, Some (?n + 1 + length k))"
    using k(1) by (simp add: sel_key_def sp nth_append sv_between_def sv_substr_def)
  have get: "sel_value ?s (Some (?n + 1 + length k)) = Inr (chars ''='' @ v, None)"
    using sel_value_plain [of "?n + 1 + length k" "tag @ chars '' '' @ k" "chars ''='' @ v" "[]"] v
    by (simp add: sp quote_char_def separator_def at_rest_def starts_part_def) (simp add: chars_def)
  have "sel_attrs ?s (Some ?n) [] = Inr [(k, chars ''='' @ v)]"
    using key get by (subst sel_attrs.simps) (simp add: sp sel_attrs.simps)
  then show ?thesis
    using sel_parse_tag [where tag_of = tag_of, OF tag, of ?rest] by (simp add: at_rest_def sp starts_part_def separator_def) (simp add: chars_def)
qed

lemma last_attr_reads_past_end:
  assumes tag: "tag \<noteq> []" "hd tag \<noteq> of_char CHR ''*''" "list_all (\<lambda>c. \<not> separator c) tag" "tag_of tag \<noteq> Tag_unknown"
    and k: "list_all (\<lambda>c. c \<noteq> of_char CHR ''='' \<and> \<not> separator c) k"
  shows "sel_parse tag_of (tag @ chars '' '' @ k) = Inl Sel_undefined"
proof -
  let ?n = "length tag"
  let ?s = "tag @ chars '' '' @ k"
  have sp: "chars '' '' = [of_char CHR '' '']"
    by (simp add: chars_def)
  have "sv_find_first_of ?s (chars ''=.# '') (?n + 1) = None"
    unfolding sv_find_first_of_def
    using sv_find_if_end [of "?n + 1" "tag @ chars '' ''" "\<lambda>x. x \<in> set (chars ''=.# '')" k] k
    by (auto simp: sp list_all_iff separator_def) (auto simp: chars_def)
  then have key: "sel_key ?s ?n = Inr (k, None)"
    by (simp add: sel_key_def sp nth_append sv_between_def)
  then have "sel_attrs ?s (Some ?n) [] = Inl Sel_undefined"
    by (subst sel_attrs.simps) (simp add: sp sel_value_def)
  then show ?thesis
    using sel_parse_tag [where tag_of = tag_of, OF tag, of "chars '' '' @ k"] by (simp add: at_rest_def sp starts_part_def separator_def) (simp add: chars_def)
qed

text \<open>
  \<open>gs_until_found_first\<close> does not stop at the first match: the loop that found it returns, those around
  it go on.
\<close>

lemma until_found_first_goes_on:
  "elms Gs_until_found_first (Tag_sel (Gtag (1::nat)))
     (G_document [G_element (Gtag 0) [] [G_element (Gtag 1) [] []], G_element (Gtag 1) [] []]) =
   [G_element (Gtag 1) [] [], G_element (Gtag 1) [] []]"
  by (simp add: elms_def foreach_if.simps foreach_child.simps)

text \<open>
  Every input is taken for one with the mark of UTF-8 (\<open>detect_bom_always_utf8\<close>), so the character set given by
  the caller and the one the document names are never used, and nothing is converted.
\<close>

lemma gumbo_charset_is_ignored:
  "gumbo_parse gumbo tag_of to_dst False s src_cs (chars ''UTF-8'') = parse_utf8 gumbo s"
  by (simp add: gumbo_parse_def detect_bom_always_utf8)

end
