(* ===== verification/Decompress.thy ===== *)
theory Decompress
  imports C_Types Bom
begin

text \<open>
  Decompression as a stream, \<open>include/dsk/compr\<close>: \<open>append\<close> and \<open>append_multi\<close> of the decompressors of zlib, bz2 and
  zstd, and \<open>auto_decompressor.hpp\<close>. The library call that decodes is a parameter: from its state, the input
  and the room in the output it gives its return code, the new state, the number of bytes consumed and
  the bytes produced. The loops may not end; \<open>None\<close> is that they do not.
\<close>

section \<open>Return codes\<close>

type_synonym 's decoder = "'s \<Rightarrow> bytes \<Rightarrow> nat \<Rightarrow> int \<times> 's \<times> nat \<times> bytes"

text \<open>What the loop does next.\<close>

datatype step_class = Step_ok | Step_again | Step_end | Step_err

definition zlib_class :: "int \<Rightarrow> step_class" where
  "zlib_class r =
     (if r = - 5 then Step_again
      else if r < 0 \<or> r = 2 then Step_err
      else if r = 1 then Step_end
      else Step_ok)"

definition bz2_class :: "int \<Rightarrow> step_class" where
  "bz2_class r = (if r < 0 then Step_err else if r = 4 then Step_end else Step_ok)"

text \<open>A code that is an error to \<open>ZSTD_isError\<close> is a negative number here.\<close>

definition zstd_class :: "int \<Rightarrow> step_class" where
  "zstd_class r = (if r < 0 then Step_err else if r = 0 then Step_end else Step_ok)"

section \<open>One piece of input\<close>

record decompr_r =
  nIn :: nat
  nOut :: nat
  isEnd :: bool

definition decompr_r_default :: decompr_r where
  "decompr_r_default = \<lparr>nIn = 0, nOut = 0, isEnd = False\<rparr>"

text \<open>
  \<open>buy_buf_at_least\<close>: how many bytes the buffer gets; \<open>cap\<close> is its capacity at a size.
\<close>

definition buy_buf_at_least :: "(nat \<Rightarrow> nat) \<Rightarrow> nat \<Rightarrow> nat \<Rightarrow> nat" where
  "buy_buf_at_least cap sz n = max (sz + n) (cap sz) - sz"

text \<open>
  The loop of zlib and bz2, whose stream counts in 32 bits. The buffer \<open>d\<close> always has all its bytes, those not
  written are zero; \<open>ok\<close> is that the assertion held.
\<close>

type_synonym 's decode_state = "(int + bool) \<times> 's \<times> bytes \<times> nat \<times> bytes \<times> bool"

partial_function (option) decode_loop ::
  "(int \<Rightarrow> step_class) \<Rightarrow> 's decoder \<Rightarrow> (nat \<Rightarrow> nat) \<Rightarrow> nat \<Rightarrow> 's \<Rightarrow> bytes \<Rightarrow> nat \<Rightarrow> bytes \<Rightarrow> bool \<Rightarrow> 's decode_state option" where
  "decode_loop cls decode cap incr st inp avail_out d ok =
     (case buy_buf_at_least cap (length d) incr of n \<Rightarrow>
        (case decode st inp (n mod 2 ^ 32) of (r, st, k, out) \<Rightarrow>
           (case (drop k inp, n mod 2 ^ 32 - length out, d @ out @ replicate (n - length out) 0, ok \<and> avail_out = 0) of
              (inp, avail_out, d, ok) \<Rightarrow>
                (case cls r of
                   Step_again \<Rightarrow> decode_loop cls decode cap incr st inp avail_out d ok
                 | Step_err \<Rightarrow> Some (Inl r, st, inp, avail_out, d, ok)
                 | Step_end \<Rightarrow> Some (Inr True, st, inp, avail_out, d, ok)
                 | Step_ok \<Rightarrow>
                     if inp = [] then Some (Inr False, st, inp, avail_out, d, ok)
                     else decode_loop cls decode cap incr st inp avail_out d ok))))"

text \<open>A decompressor: the state of the library, and whether all assertions held.\<close>

record 's decompressor =
  dz_state :: 's
  dz_ok :: bool

type_synonym 's append_result = "((int + decompr_r) \<times> 's decompressor \<times> bytes) option"

definition remove_buf_tail :: "bytes \<Rightarrow> nat \<Rightarrow> bytes" where
  "remove_buf_tail d n = take (length d - n) d"

definition stream_append ::
  "(int \<Rightarrow> step_class) \<Rightarrow> 's decoder \<Rightarrow> (nat \<Rightarrow> nat) \<Rightarrow> nat \<Rightarrow> 's decompressor \<Rightarrow> bytes \<Rightarrow> bytes \<Rightarrow> nat \<Rightarrow> 's append_result" where
  "stream_append cls decode cap buf_inc z d inp incr =
     (if inp = [] then Some (Inr decompr_r_default, z, d)
      else
        map_option
          (\<lambda>(r, st, rest, avail_out, d', ok).
             case r of
               Inl e \<Rightarrow> (Inl e, \<lparr>dz_state = st, dz_ok = ok\<rparr>, d')
             | Inr at_end \<Rightarrow>
                 (let d' = remove_buf_tail d' avail_out
                  in (Inr \<lparr>nIn = length inp - length rest, nOut = length d' - length d, isEnd = at_end\<rparr>,
                      \<lparr>dz_state = st, dz_ok = ok\<rparr>, d')))
          (decode_loop cls decode cap (if incr < 1 then buf_inc else incr) (dz_state z)
             (take (length inp mod 2 ^ 32) inp) 0 d (dz_ok z)))"

definition zlib_append :: "'s decoder \<Rightarrow> (nat \<Rightarrow> nat) \<Rightarrow> 's decompressor \<Rightarrow> bytes \<Rightarrow> bytes \<Rightarrow> nat \<Rightarrow> 's append_result" where
  "zlib_append inflate cap = stream_append zlib_class inflate cap 5000"

definition bz2_append :: "'s decoder \<Rightarrow> (nat \<Rightarrow> nat) \<Rightarrow> 's decompressor \<Rightarrow> bytes \<Rightarrow> bytes \<Rightarrow> nat \<Rightarrow> 's append_result" where
  "bz2_append decompress cap = stream_append bz2_class decompress cap 5000"

text \<open>
  The loop of zstd: the output buffer is bought when it is full; it is the part of \<open>d\<close> that is written and
  the number of bytes left behind it.
\<close>

partial_function (option) zstd_loop ::
  "'s decoder \<Rightarrow> (nat \<Rightarrow> nat) \<Rightarrow> nat \<Rightarrow> 's \<Rightarrow> bytes \<Rightarrow> nat \<Rightarrow> bytes \<Rightarrow> ((int + bool) \<times> 's \<times> bytes \<times> nat \<times> bytes) option" where
  "zstd_loop decode cap incr st inp left d =
     (case if left = 0 then buy_buf_at_least cap (length d) incr else left of left \<Rightarrow>
        (case decode st inp left of (r, st, k, out) \<Rightarrow>
           (case (drop k inp, left - length out, d @ out) of
              (inp, left, d) \<Rightarrow>
                (case zstd_class r of
                   Step_err \<Rightarrow> Some (Inl r, st, inp, left, d @ replicate left 0)
                 | Step_end \<Rightarrow> Some (Inr True, st, inp, left, d)
                 | _ \<Rightarrow>
                     if inp = [] then Some (Inr False, st, inp, left, d)
                     else zstd_loop decode cap incr st inp left d))))"

definition zstd_append ::
  "'s decoder \<Rightarrow> (nat \<Rightarrow> nat) \<Rightarrow> 's decompressor \<Rightarrow> bytes \<Rightarrow> bytes \<Rightarrow> nat \<Rightarrow> 's append_result" where
  "zstd_append decode cap z d inp incr =
     (if inp = [] then Some (Inr decompr_r_default, z, d)
      else
        map_option
          (\<lambda>(r, st, rest, left, d').
             (case r of
                Inl e \<Rightarrow> Inl e
              | Inr at_end \<Rightarrow> Inr \<lparr>nIn = length inp - length rest, nOut = length d' - length d, isEnd = at_end\<rparr>,
              z\<lparr>dz_state := st\<rparr>, d'))
          (zstd_loop decode cap (if incr < 1 then 5000 else incr) (dz_state z) inp 0 d))"

section \<open>Concatenated streams\<close>

text \<open>
  \<open>append_multi\<close>, over \<open>append\<close> with the size of the increment applied; \<open>reset\<close> is what follows a stream that
  ended (\<open>inflateReset\<close>, \<open>reinit()\<close>, nothing for zstd), with the error it may return.
\<close>

partial_function (option) multi_loop ::
  "('s decompressor \<Rightarrow> bytes \<Rightarrow> bytes \<Rightarrow> 's append_result) \<Rightarrow> ('s decompressor \<Rightarrow> int option \<times> 's decompressor) \<Rightarrow>
   's decompressor \<Rightarrow> bytes \<Rightarrow> bytes \<Rightarrow> bool \<Rightarrow> ((int + bool) \<times> 's decompressor \<times> bytes) option" where
  "multi_loop append_to reset z d vin at_end =
     (if vin = [] then Some (Inr at_end, z, d)
      else
        (case append_to z d vin of
           None \<Rightarrow> None
         | Some (Inl e, z, d) \<Rightarrow> Some (Inl e, z, d)
         | Some (Inr cur, z, d) \<Rightarrow>
             (if isEnd cur
              then (case reset z of
                      (Some e, z) \<Rightarrow> Some (Inl e, z, d)
                    | (None, z) \<Rightarrow> multi_loop append_to reset z d (drop (nIn cur) vin) True)
              else multi_loop append_to reset z d (drop (nIn cur) vin) False)))"

definition append_multi ::
  "('s decompressor \<Rightarrow> bytes \<Rightarrow> bytes \<Rightarrow> 's append_result) \<Rightarrow> ('s decompressor \<Rightarrow> int option \<times> 's decompressor) \<Rightarrow>
   's decompressor \<Rightarrow> bytes \<Rightarrow> bytes \<Rightarrow> 's append_result" where
  "append_multi append_to reset z d inp =
     map_option
       (\<lambda>(r, z, d').
          (case r of
             Inl e \<Rightarrow> Inl e
           | Inr at_end \<Rightarrow> Inr \<lparr>nIn = length inp, nOut = length d' - length d, isEnd = at_end\<rparr>, z, d'))
       (multi_loop append_to reset z d inp False)"

definition lib_reset :: "('s \<Rightarrow> int \<times> 's) \<Rightarrow> 's decompressor \<Rightarrow> int option \<times> 's decompressor" where
  "lib_reset reset z =
     (case reset (dz_state z) of (r, st) \<Rightarrow> (if r \<noteq> 0 then Some r else None, z\<lparr>dz_state := st\<rparr>))"

definition zlib_append_multi ::
  "'s decoder \<Rightarrow> (nat \<Rightarrow> nat) \<Rightarrow> ('s \<Rightarrow> int \<times> 's) \<Rightarrow> 's decompressor \<Rightarrow> bytes \<Rightarrow> bytes \<Rightarrow> nat \<Rightarrow> 's append_result" where
  "zlib_append_multi inflate cap reset z d inp incr =
     append_multi (\<lambda>z d inp. zlib_append inflate cap z d inp incr) (lib_reset reset) z d inp"

definition bz2_append_multi ::
  "'s decoder \<Rightarrow> (nat \<Rightarrow> nat) \<Rightarrow> ('s \<Rightarrow> int \<times> 's) \<Rightarrow> 's decompressor \<Rightarrow> bytes \<Rightarrow> bytes \<Rightarrow> nat \<Rightarrow> 's append_result" where
  "bz2_append_multi decompress cap reinit z d inp incr =
     append_multi (\<lambda>z d inp. bz2_append decompress cap z d inp incr) (lib_reset reinit) z d inp"

definition zstd_append_multi ::
  "'s decoder \<Rightarrow> (nat \<Rightarrow> nat) \<Rightarrow> 's decompressor \<Rightarrow> bytes \<Rightarrow> bytes \<Rightarrow> nat \<Rightarrow> 's append_result" where
  "zstd_append_multi decode cap z d inp incr =
     append_multi (\<lambda>z d inp. zstd_append decode cap z d inp incr) (\<lambda>z. (None, z)) z d inp"

section \<open>Detecting the format\<close>

text \<open>
  \<open>auto_decompressor\<close>: the format is that of the first input, by its first bytes. \<open>start\<close> constructs the decompressor
  of a format with its options.
\<close>

datatype decompr_e = De_unknown | De_bz2 | De_zlib | De_zstd

definition detect_type :: "bytes \<Rightarrow> decompr_e" where
  "detect_type s =
     (if sv_starts_with s [0x42, 0x5a, 0x68] then De_bz2
      else if sv_starts_with s [0x1f, 0x8b] \<or> sv_starts_with s [0x78, 0x01] \<or> sv_starts_with s [0x78, 0x9c] \<or> sv_starts_with s [0x78, 0xda]
      then De_zlib
      else if sv_starts_with s [0x28, 0xb5, 0x2f, 0xfd] then De_zstd
      else De_unknown)"

record 's auto_decompressor =
  ad_type :: decompr_e
  ad_z :: "'s decompressor"
  ad_inited :: bool

datatype ad_fault = Ad_errc errc | Ad_lib int

definition ad_reset :: "'s auto_decompressor \<Rightarrow> 's auto_decompressor" where
  "ad_reset a = a\<lparr>ad_type := De_unknown, ad_inited := False\<rparr>"

definition ad_init ::
  "(decompr_e \<Rightarrow> int option \<times> 's decompressor) \<Rightarrow> 's auto_decompressor \<Rightarrow> bytes \<Rightarrow> ad_fault option \<times> 's auto_decompressor" where
  "ad_init start a inp =
     (if ad_inited a then (if ad_type a = De_unknown then Some (Ad_errc errc_invalid_input) else None, a)
      else
        (let t = detect_type inp in
         if t = De_unknown then (None, a\<lparr>ad_inited := True\<rparr>)
         else
           (case start t of
              (Some e, z) \<Rightarrow> (Some (Ad_lib e), a\<lparr>ad_type := t, ad_z := z\<rparr>)
            | (None, z) \<Rightarrow> (None, a\<lparr>ad_type := t, ad_z := z, ad_inited := True\<rparr>))))"

text \<open>\<open>append\<close> and \<open>append_multi\<close> of the decompressor that is active; \<open>decode\<close> and \<open>reset\<close> are the calls of each library.\<close>

fun format_append ::
  "(decompr_e \<Rightarrow> 's decoder) \<Rightarrow> (nat \<Rightarrow> nat) \<Rightarrow> nat \<Rightarrow> decompr_e \<Rightarrow> 's decompressor \<Rightarrow> bytes \<Rightarrow> bytes \<Rightarrow> 's append_result" where
  "format_append decode cap incr De_unknown z d inp = Some (Inr decompr_r_default, z, d)"
| "format_append decode cap incr De_bz2 z d inp = bz2_append (decode De_bz2) cap z d inp incr"
| "format_append decode cap incr De_zlib z d inp = zlib_append (decode De_zlib) cap z d inp incr"
| "format_append decode cap incr De_zstd z d inp = zstd_append (decode De_zstd) cap z d inp incr"

fun format_append_multi ::
  "(decompr_e \<Rightarrow> 's decoder) \<Rightarrow> (nat \<Rightarrow> nat) \<Rightarrow> (decompr_e \<Rightarrow> 's \<Rightarrow> int \<times> 's) \<Rightarrow> nat \<Rightarrow>
   decompr_e \<Rightarrow> 's decompressor \<Rightarrow> bytes \<Rightarrow> bytes \<Rightarrow> 's append_result" where
  "format_append_multi decode cap reset incr De_unknown z d inp = Some (Inr decompr_r_default, z, d)"
| "format_append_multi decode cap reset incr De_bz2 z d inp = bz2_append_multi (decode De_bz2) cap (reset De_bz2) z d inp incr"
| "format_append_multi decode cap reset incr De_zlib z d inp = zlib_append_multi (decode De_zlib) cap (reset De_zlib) z d inp incr"
| "format_append_multi decode cap reset incr De_zstd z d inp = zstd_append_multi (decode De_zstd) cap z d inp incr"

definition ad_append ::
  "(decompr_e \<Rightarrow> int option \<times> 's decompressor) \<Rightarrow> (decompr_e \<Rightarrow> 's decompressor \<Rightarrow> bytes \<Rightarrow> bytes \<Rightarrow> 's append_result) \<Rightarrow>
   's auto_decompressor \<Rightarrow> bytes \<Rightarrow> bytes \<Rightarrow> ((ad_fault + decompr_r) \<times> 's auto_decompressor \<times> bytes) option" where
  "ad_append start append_to a d inp =
     (case ad_init start a inp of
        (Some e, a) \<Rightarrow> Some (Inl e, a, d)
      | (None, a) \<Rightarrow>
          (if ad_type a = De_unknown then Some (Inr decompr_r_default, a, d)
           else
             map_option
               (\<lambda>(r, z, d). (case r of Inl e \<Rightarrow> Inl (Ad_lib e) | Inr res \<Rightarrow> Inr res, a\<lparr>ad_z := z\<rparr>, d))
               (append_to (ad_type a) (ad_z a) d inp)))"

end
