(* ===== verification/Compress.thy ===== *)
theory Compress
  imports Decompress
begin

text \<open>
  Compression as a stream, \<open>include/dsk/compr\<close>: \<open>append\<close> of the compressors of zlib, bz2 and
  zstd, and the functions that compress or decompress a whole buffer. The library call that encodes is a
  parameter, as the one that decodes in \<open>Decompress\<close>: one for each action.
\<close>

datatype flush_act = Act_run | Act_flush | Act_finish

definition zlib_enc_class :: "int \<Rightarrow> step_class" where
  "zlib_enc_class r = (if r = - 5 then Step_again else if r < 0 then Step_err else Step_ok)"

definition bz2_enc_class :: "int \<Rightarrow> step_class" where
  "bz2_enc_class r = (if r < 0 then Step_err else Step_ok)"

text \<open>When the loop is left: by the return code, what is left of the input, and the room left.\<close>

fun zlib_done :: "flush_act \<Rightarrow> int \<Rightarrow> bytes \<Rightarrow> nat \<Rightarrow> bool" where
  "zlib_done Act_run r inp avail_out \<longleftrightarrow> inp = []"
| "zlib_done Act_finish r inp avail_out \<longleftrightarrow> r = 1"
| "zlib_done Act_flush r inp avail_out \<longleftrightarrow> avail_out > 0"

fun bz2_done :: "flush_act \<Rightarrow> int \<Rightarrow> bytes \<Rightarrow> nat \<Rightarrow> bool" where
  "bz2_done Act_run r inp avail_out \<longleftrightarrow> inp = []"
| "bz2_done Act_flush r inp avail_out \<longleftrightarrow> r = 1"
| "bz2_done Act_finish r inp avail_out \<longleftrightarrow> r = 4"

partial_function (option) encode_loop ::
  "(int \<Rightarrow> step_class) \<Rightarrow> (int \<Rightarrow> bytes \<Rightarrow> nat \<Rightarrow> bool) \<Rightarrow> 's decoder \<Rightarrow> (nat \<Rightarrow> nat) \<Rightarrow> nat \<Rightarrow> 's \<Rightarrow> bytes \<Rightarrow> nat \<Rightarrow> bytes \<Rightarrow> bool \<Rightarrow>
   (int option \<times> 's \<times> nat \<times> bytes \<times> bool) option" where
  "encode_loop cls finished encode cap incr st inp avail_out d ok =
     (case buy_buf_at_least cap (length d) incr of n \<Rightarrow>
        (case encode st inp (n mod 2 ^ 32) of (r, st, k, out) \<Rightarrow>
           (case (drop k inp, n mod 2 ^ 32 - length out, d @ out @ replicate (n - length out) 0, ok \<and> avail_out = 0) of
              (inp, avail_out, d, ok) \<Rightarrow>
                (if cls r = Step_again then encode_loop cls finished encode cap incr st inp avail_out d ok
                 else if cls r = Step_err then Some (Some r, st, avail_out, d, ok)
                 else if finished r inp avail_out then Some (None, st, avail_out, d, ok)
                 else encode_loop cls finished encode cap incr st inp avail_out d ok))))"

text \<open>The result is the number of bytes appended.\<close>

type_synonym 's compr_result = "((int + nat) \<times> 's decompressor \<times> bytes) option"

definition stream_compr_append ::
  "(int \<Rightarrow> step_class) \<Rightarrow> (flush_act \<Rightarrow> int \<Rightarrow> bytes \<Rightarrow> nat \<Rightarrow> bool) \<Rightarrow> (flush_act \<Rightarrow> 's decoder) \<Rightarrow> (nat \<Rightarrow> nat) \<Rightarrow> flush_act \<Rightarrow>
   's decompressor \<Rightarrow> bytes \<Rightarrow> bytes \<Rightarrow> nat \<Rightarrow> 's compr_result" where
  "stream_compr_append cls finished encode cap act z d inp incr =
     (if act = Act_run \<and> inp = [] then Some (Inr 0, z, d)
      else
        map_option
          (\<lambda>(e, st, avail_out, d', ok).
             case e of
               Some r \<Rightarrow> (Inl r, \<lparr>dz_state = st, dz_ok = ok\<rparr>, d')
             | None \<Rightarrow>
                 (let d' = remove_buf_tail d' avail_out
                  in (Inr (length d' - length d), \<lparr>dz_state = st, dz_ok = ok\<rparr>, d')))
          (encode_loop cls (finished act) (encode act) cap (if incr < 1 then 5000 else incr) (dz_state z)
             (take (length inp mod 2 ^ 32) inp) 0 d (dz_ok z)))"

definition zlib_compr_append ::
  "(flush_act \<Rightarrow> 's decoder) \<Rightarrow> (nat \<Rightarrow> nat) \<Rightarrow> flush_act \<Rightarrow> 's decompressor \<Rightarrow> bytes \<Rightarrow> bytes \<Rightarrow> nat \<Rightarrow> 's compr_result" where
  "zlib_compr_append = stream_compr_append zlib_enc_class zlib_done"

definition bz2_compr_append ::
  "(flush_act \<Rightarrow> 's decoder) \<Rightarrow> (nat \<Rightarrow> nat) \<Rightarrow> flush_act \<Rightarrow> 's decompressor \<Rightarrow> bytes \<Rightarrow> bytes \<Rightarrow> nat \<Rightarrow> 's compr_result" where
  "bz2_compr_append = stream_compr_append bz2_enc_class bz2_done"

section \<open>zstd\<close>

text \<open>The return code is how much is left to flush; the increment grows to it. The size of the input is cut to 32 bits here too.\<close>

definition zstd_done :: "flush_act \<Rightarrow> int \<Rightarrow> bytes \<Rightarrow> bool" where
  "zstd_done act r inp \<longleftrightarrow> (if act = Act_run then inp = [] else r = 0)"

partial_function (option) zstd_encode_loop ::
  "flush_act \<Rightarrow> 's decoder \<Rightarrow> (nat \<Rightarrow> nat) \<Rightarrow> nat \<Rightarrow> 's \<Rightarrow> bytes \<Rightarrow> nat \<Rightarrow> bytes \<Rightarrow> (int option \<times> 's \<times> bytes) option" where
  "zstd_encode_loop act encode cap incr st inp left d =
     (case if left = 0 then buy_buf_at_least cap (length d) incr else left of left \<Rightarrow>
        (case encode st inp left of (r, st, k, out) \<Rightarrow>
           (case (drop k inp, left - length out, d @ out) of
              (inp, left, d) \<Rightarrow>
                if r < 0 then Some (Some r, st, d @ replicate left 0)
                else if zstd_done act r inp then Some (None, st, d)
                else zstd_encode_loop act encode cap (if nat r > incr then nat r else incr) st inp left d)))"

definition zstd_compr_append ::
  "(flush_act \<Rightarrow> 's decoder) \<Rightarrow> (nat \<Rightarrow> nat) \<Rightarrow> flush_act \<Rightarrow> 's decompressor \<Rightarrow> bytes \<Rightarrow> bytes \<Rightarrow> nat \<Rightarrow> 's compr_result" where
  "zstd_compr_append encode cap act z d inp incr =
     (if act = Act_run \<and> inp = [] then Some (Inr 0, z, d)
      else
        map_option
          (\<lambda>(e, st, d').
             (case e of Some r \<Rightarrow> Inl r | None \<Rightarrow> Inr (length d' - length d), z\<lparr>dz_state := st\<rparr>, d'))
          (zstd_encode_loop act (encode act) cap (if incr < 1 then 5000 else incr) (dz_state z)
             (take (length inp mod 2 ^ 32) inp) 0 d))"

section \<open>A whole buffer\<close>

text \<open>
  \<open>start\<close> is the call that initialises the library's stream: its return code and the state.
\<close>

definition with_stream :: "int \<times> 's \<Rightarrow> ('s decompressor \<Rightarrow> ((int + 'r) \<times> 's decompressor \<times> bytes) option) \<Rightarrow> bytes \<Rightarrow>
    ((int + 'r) \<times> bytes) option" where
  "with_stream start f d =
     (case start of (r, st) \<Rightarrow>
        if r \<noteq> 0 then Some (Inl r, d)
        else map_option (\<lambda>(res, z, d). (res, d)) (f \<lparr>dz_state = st, dz_ok = True\<rparr>))"

definition zlib_compress_append ::
  "int \<times> 's \<Rightarrow> (flush_act \<Rightarrow> 's decoder) \<Rightarrow> ('s \<Rightarrow> nat \<Rightarrow> nat) \<Rightarrow> (nat \<Rightarrow> nat) \<Rightarrow> bytes \<Rightarrow> bytes \<Rightarrow> nat \<Rightarrow> ((int + nat) \<times> bytes) option" where
  "zlib_compress_append start encode bound cap d inp incr =
     with_stream start
       (\<lambda>z. zlib_compr_append encode cap Act_finish z d inp (if incr < 1 then bound (dz_state z) (length inp) else incr)) d"

definition zlib_compress ::
  "int \<times> 's \<Rightarrow> (flush_act \<Rightarrow> 's decoder) \<Rightarrow> ('s \<Rightarrow> nat \<Rightarrow> nat) \<Rightarrow> (nat \<Rightarrow> nat) \<Rightarrow> bytes \<Rightarrow> nat \<Rightarrow> ((int + nat) \<times> bytes) option" where
  "zlib_compress start encode bound cap inp incr = zlib_compress_append start encode bound cap [] inp incr"

definition zlib_decompress_append ::
  "int \<times> 's \<Rightarrow> 's decoder \<Rightarrow> (nat \<Rightarrow> nat) \<Rightarrow> bytes \<Rightarrow> bytes \<Rightarrow> nat \<Rightarrow> ((int + decompr_r) \<times> bytes) option" where
  "zlib_decompress_append start decode cap d inp incr = with_stream start (\<lambda>z. zlib_append decode cap z d inp incr) d"

definition zlib_decompress ::
  "int \<times> 's \<Rightarrow> 's decoder \<Rightarrow> (nat \<Rightarrow> nat) \<Rightarrow> bytes \<Rightarrow> nat \<Rightarrow> ((int + decompr_r) \<times> bytes) option" where
  "zlib_decompress start decode cap inp incr = zlib_decompress_append start decode cap [] inp incr"

text \<open>The increment of bz2 is a little more than the input, computed with doubles (\<open>buf_size(in) * 1.01 + 601\<close>): \<open>bound\<close>.\<close>

definition bz2_compress_append ::
  "int \<times> 's \<Rightarrow> (flush_act \<Rightarrow> 's decoder) \<Rightarrow> (nat \<Rightarrow> nat) \<Rightarrow> (nat \<Rightarrow> nat) \<Rightarrow> bytes \<Rightarrow> bytes \<Rightarrow> nat \<Rightarrow> ((int + nat) \<times> bytes) option" where
  "bz2_compress_append start encode bound cap d inp incr =
     with_stream start (\<lambda>z. bz2_compr_append encode cap Act_finish z d inp (if incr < 1 then bound (length inp) else incr)) d"

definition bz2_compress ::
  "int \<times> 's \<Rightarrow> (flush_act \<Rightarrow> 's decoder) \<Rightarrow> (nat \<Rightarrow> nat) \<Rightarrow> (nat \<Rightarrow> nat) \<Rightarrow> bytes \<Rightarrow> nat \<Rightarrow> ((int + nat) \<times> bytes) option" where
  "bz2_compress start encode bound cap inp incr = bz2_compress_append start encode bound cap [] inp incr"

definition bz2_decompress_append ::
  "int \<times> 's \<Rightarrow> 's decoder \<Rightarrow> (nat \<Rightarrow> nat) \<Rightarrow> bytes \<Rightarrow> bytes \<Rightarrow> nat \<Rightarrow> ((int + decompr_r) \<times> bytes) option" where
  "bz2_decompress_append start decode cap d inp incr = with_stream start (\<lambda>z. bz2_append decode cap z d inp incr) d"

definition bz2_decompress ::
  "int \<times> 's \<Rightarrow> 's decoder \<Rightarrow> (nat \<Rightarrow> nat) \<Rightarrow> bytes \<Rightarrow> nat \<Rightarrow> ((int + decompr_r) \<times> bytes) option" where
  "bz2_decompress start decode cap inp incr = bz2_decompress_append start decode cap [] inp incr"

end
