(* ===== verification/Decompress_Props.thy ===== *)
theory Decompress_Props
  imports Decompress
begin

text \<open>
  Decompression in pieces: what the library would give for the whole input is what is appended, however the
  input is cut and whatever room the buffer has.
\<close>

section \<open>The contract of the library\<close>

text \<open>
  \<open>decodes st z x\<close>: from the state \<open>st\<close> the bytes \<open>z\<close> are the rest of a compressed stream, up to its last byte, whose
  content is \<open>x\<close>. A call decodes as much as it can, and stops when the input is used up, the output is full
  or the stream ends; it does not take the last byte of a stream before its content is out.
\<close>

definition whole_ok ::
  "(int \<Rightarrow> step_class) \<Rightarrow> ('s \<Rightarrow> bytes \<Rightarrow> bytes \<Rightarrow> bool) \<Rightarrow> bytes \<Rightarrow> bytes \<Rightarrow> nat \<Rightarrow> int \<times> 's \<times> nat \<times> bytes \<Rightarrow> bool" where
  "whole_ok cls decodes z x n res \<longleftrightarrow>
     (case res of (r, st', k, out) \<Rightarrow>
        cls r = Step_end \<and> out = x \<and> k = length z \<and> length out \<le> n \<or>
        (cls r = Step_ok \<or> cls r = Step_again) \<and> k < length z \<and> length out = n \<and>
          (\<exists>x'. x = out @ x' \<and> decodes st' (drop k z) x'))"

definition part_ok ::
  "(int \<Rightarrow> step_class) \<Rightarrow> ('s \<Rightarrow> bytes \<Rightarrow> bytes \<Rightarrow> bool) \<Rightarrow> bytes \<Rightarrow> bytes \<Rightarrow> bytes \<Rightarrow> nat \<Rightarrow> int \<times> 's \<times> nat \<times> bytes \<Rightarrow> bool" where
  "part_ok cls decodes i z' x n res \<longleftrightarrow>
     (case res of (r, st', k, out) \<Rightarrow>
        cls r = Step_ok \<and> k \<le> length i \<and> length out \<le> n \<and> (length out = n \<or> k = length i) \<and>
        (\<exists>x'. x = out @ x' \<and> decodes st' (drop k i @ z') x'))"

definition decodes_whole :: "(int \<Rightarrow> step_class) \<Rightarrow> 's decoder \<Rightarrow> ('s \<Rightarrow> bytes \<Rightarrow> bytes \<Rightarrow> bool) \<Rightarrow> bool" where
  "decodes_whole cls decode decodes \<longleftrightarrow>
     (\<forall>st z x. decodes st z x \<longrightarrow> z \<noteq> []) \<and>
     (\<forall>st z x rest n. decodes st z x \<longrightarrow> 0 < n \<longrightarrow> n < 2 ^ 32 \<longrightarrow> whole_ok cls decodes z x n (decode st (z @ rest) n))"

definition decoder_ok :: "(int \<Rightarrow> step_class) \<Rightarrow> 's decoder \<Rightarrow> ('s \<Rightarrow> bytes \<Rightarrow> bytes \<Rightarrow> bool) \<Rightarrow> bool" where
  "decoder_ok cls decode decodes \<longleftrightarrow>
     decodes_whole cls decode decodes \<and>
     (\<forall>st i z' x n. decodes st (i @ z') x \<longrightarrow> i \<noteq> [] \<longrightarrow> z' \<noteq> [] \<longrightarrow> 0 < n \<longrightarrow> n < 2 ^ 32 \<longrightarrow>
        part_ok cls decodes i z' x n (decode st i n))"

lemma decoder_ok_whole: "decoder_ok cls decode decodes \<Longrightarrow> decodes_whole cls decode decodes"
  by (simp add: decoder_ok_def)

lemma decoder_nonempty: "decodes_whole cls decode decodes \<Longrightarrow> decodes st z x \<Longrightarrow> z \<noteq> []"
  unfolding decodes_whole_def by blast

lemma decoder_whole:
  assumes "decodes_whole cls decode decodes" "decodes st z x" "0 < n" "n < 2 ^ 32" "decode st (z @ rest) n = (r, st', k, out)"
  obtains (ends) "cls r = Step_end" "out = x" "k = length z" "length out \<le> n"
  | (more) x' where "cls r = Step_ok \<or> cls r = Step_again" "k < length z" "x = out @ x'" "decodes st' (drop k z) x'" "length out = n"
proof -
  have "whole_ok cls decodes z x n (decode st (z @ rest) n)"
    using assms(1-4) by (simp add: decodes_whole_def)
  then show ?thesis
    using ends more unfolding assms(5) whole_ok_def by auto
qed

lemma decoder_part:
  assumes "decoder_ok cls decode decodes" "decodes st (i @ z') x" "i \<noteq> []" "z' \<noteq> []" "0 < n" "n < 2 ^ 32"
    and "decode st i n = (r, st', k, out)"
  shows "cls r = Step_ok \<and> k \<le> length i \<and> length out \<le> n \<and> (length out = n \<or> k = length i) \<and>
    (\<exists>x'. x = out @ x' \<and> decodes st' (drop k i @ z') x')"
proof -
  have "part_ok cls decodes i z' x n (decode st i n)"
    using assms(1-6) by (simp add: decoder_ok_def)
  then show ?thesis
    unfolding assms(7) part_ok_def by simp
qed

text \<open>The room that is bought each time; the stream of zlib and bz2 counts it in 32 bits.\<close>

definition room_ok :: "(nat \<Rightarrow> nat) \<Rightarrow> nat \<Rightarrow> bool" where
  "room_ok cap incr \<longleftrightarrow> 0 < incr \<and> (\<forall>sz. buy_buf_at_least cap sz incr < 2 ^ 32)"

lemma room: "room_ok cap incr \<Longrightarrow> 0 < buy_buf_at_least cap sz incr \<and> buy_buf_at_least cap sz incr < 2 ^ 32"
  by (auto simp: room_ok_def buy_buf_at_least_def)

section \<open>The loops\<close>

lemma decode_loop_step:
  assumes "buy_buf_at_least cap (length d) incr = n" "n < 2 ^ 32" "decode st inp n = (r, st', k, out)"
  shows "decode_loop cls decode cap incr st inp a d ok =
    (let rest = drop k inp; d' = d @ out @ replicate (n - length out) 0; ok' = (ok \<and> a = 0) in
     case cls r of
       Step_again \<Rightarrow> decode_loop cls decode cap incr st' rest (n - length out) d' ok'
     | Step_err \<Rightarrow> Some (Inl r, st', rest, n - length out, d', ok')
     | Step_end \<Rightarrow> Some (Inr True, st', rest, n - length out, d', ok')
     | Step_ok \<Rightarrow>
         if rest = [] then Some (Inr False, st', rest, n - length out, d', ok')
         else decode_loop cls decode cap incr st' rest (n - length out) d' ok')"
proof -
  have m: "n mod 2 ^ 32 = n"
    using assms(2) by simp
  show ?thesis
    by (subst decode_loop.simps) (simp only: assms(1,3) m prod.case Let_def)
qed

lemma decode_loop_whole:
  assumes ok: "decodes_whole cls decode decodes" "room_ok cap incr" and z: "decodes st z x"
  shows "\<exists>st' a. decode_loop cls decode cap incr st (z @ rest) 0 d True =
    Some (Inr True, st', rest, a, d @ x @ replicate a 0, True)"
  using z
proof (induction "length x" arbitrary: st z x d rule: less_induct)
  case less
  let ?n = "buy_buf_at_least cap (length d) incr"
  have n: "0 < ?n" "?n < 2 ^ 32"
    using room [OF ok(2), of "length d"] by simp_all
  obtain r st' k out where step: "decode st (z @ rest) ?n = (r, st', k, out)"
    by (metis prod_cases4)
  show ?case
  proof (cases rule: decoder_whole [OF ok(1) less.prems n step, case_names ends more])
    case ends
    then show ?thesis
      using decode_loop_step [where decode = decode, OF refl n(2) step, of cls 0 True] by auto
  next
    case (more x')
    then have "length x' < length x" "drop k (z @ rest) = drop k z @ rest" "drop k z \<noteq> []"
      using n(1) by simp_all
    then show ?thesis
      using less.hyps [of x' st' "drop k z" "d @ out"] more decode_loop_step [where decode = decode, OF refl n(2) step, of cls 0 True] by auto
  qed
qed

lemma decode_loop_part:
  assumes ok: "decoder_ok cls decode decodes" "room_ok cap incr" and z: "decodes st (i @ z') x" "i \<noteq> []" "z' \<noteq> []"
  shows "\<exists>st' a out x'. decode_loop cls decode cap incr st i 0 d True =
    Some (Inr False, st', [], a, d @ out @ replicate a 0, True) \<and> x = out @ x' \<and> decodes st' z' x'"
  using z(1,2)
proof (induction "length x" arbitrary: st i x d rule: less_induct)
  case less
  let ?n = "buy_buf_at_least cap (length d) incr"
  have n: "0 < ?n" "?n < 2 ^ 32"
    using room [OF ok(2), of "length d"] by simp_all
  obtain r st' k out where step: "decode st i ?n = (r, st', k, out)"
    by (metis prod_cases4)
  obtain x' where p: "cls r = Step_ok" "k \<le> length i" "x = out @ x'" "decodes st' (drop k i @ z') x'"
    "length out \<le> ?n" "length out = ?n \<or> k = length i"
    using decoder_part [OF ok(1) less.prems z(3) n step] by blast
  show ?case
  proof (cases "k = length i")
    case True
    then show ?thesis
      using p decode_loop_step [where decode = decode, OF refl n(2) step, of cls 0 True] by auto
  next
    case False
    then have "length x' < length x" "drop k i \<noteq> []" "length out = ?n"
      using p n(1) by auto
    then obtain st2 a out2 x2 where "decode_loop cls decode cap incr st' (drop k i) 0 (d @ out) True =
      Some (Inr False, st2, [], a, (d @ out) @ out2 @ replicate a 0, True)" "x' = out2 @ x2" "decodes st2 z' x2"
      using less.hyps [of x' st' "drop k i" "d @ out"] p(4) by blast
    then show ?thesis
      using p \<open>drop k i \<noteq> []\<close> \<open>length out = ?n\<close> decode_loop_step [where decode = decode, OF refl n(2) step, of cls 0 True]
      by (intro exI [of _ st2] exI [of _ a] exI [of _ "out @ out2"] exI [of _ x2]) simp
  qed
qed

lemma zstd_loop_step:
  assumes "(if left = 0 then buy_buf_at_least cap (length d) incr else left) = n" "decode st inp n = (r, st', k, out)"
  shows "zstd_loop decode cap incr st inp left d =
    (let rest = drop k inp; left' = n - length out; d' = d @ out in
     case zstd_class r of
       Step_err \<Rightarrow> Some (Inl r, st', rest, left', d' @ replicate left' 0)
     | Step_end \<Rightarrow> Some (Inr True, st', rest, left', d')
     | _ \<Rightarrow> if rest = [] then Some (Inr False, st', rest, left', d') else zstd_loop decode cap incr st' rest left' d')"
  by (subst zstd_loop.simps) (simp only: assms prod.case Let_def)

definition zstd_room :: "(nat \<Rightarrow> nat) \<Rightarrow> nat \<Rightarrow> nat \<Rightarrow> bytes \<Rightarrow> nat" where
  "zstd_room cap incr left d = (if left = 0 then buy_buf_at_least cap (length d) incr else left)"

lemma zstd_room_bounds: "room_ok cap incr \<Longrightarrow> left < 2 ^ 32 \<Longrightarrow> 0 < zstd_room cap incr left d \<and> zstd_room cap incr left d < 2 ^ 32"
  using room [of cap incr "length d"] by (simp add: zstd_room_def)

lemma zstd_loop_whole:
  assumes ok: "decodes_whole zstd_class decode decodes" "room_ok cap incr" and z: "decodes st z x" "left < 2 ^ 32"
    and P: "\<And>st z x n r st' k out. decodes st z x \<Longrightarrow> 0 < n \<Longrightarrow> n < 2 ^ 32 \<Longrightarrow> decode st (z @ rest) n = (r, st', k, out) \<Longrightarrow>
      zstd_class r = Step_end \<Longrightarrow> P st'"
  shows "\<exists>st' a. zstd_loop decode cap incr st (z @ rest) left d = Some (Inr True, st', rest, a, d @ x) \<and> P st'"
  using z
proof (induction "length x" arbitrary: st z x d left rule: less_induct)
  case less
  let ?n = "zstd_room cap incr left d"
  have n: "0 < ?n" "?n < 2 ^ 32"
    using zstd_room_bounds [OF ok(2) less.prems(2)] by simp_all
  obtain r st' k out where step: "decode st (z @ rest) ?n = (r, st', k, out)"
    by (metis prod_cases4)
  note loop = zstd_loop_step [where decode = decode, OF zstd_room_def [symmetric] step]
  show ?case
  proof (cases rule: decoder_whole [OF ok(1) less.prems(1) n step, case_names ends more])
    case ends
    then show ?thesis
      using loop P [OF less.prems(1) n step] by simp
  next
    case (more x')
    then have "length x' < length x" "drop k (z @ rest) = drop k z @ rest" "drop k z \<noteq> []"
      using n(1) by simp_all
    then show ?thesis
      using less.hyps [of x' st' "drop k z" 0 "d @ out"] more loop by (auto simp: Let_def)
  qed
qed

lemma zstd_loop_part:
  assumes ok: "decoder_ok zstd_class decode decodes" "room_ok cap incr"
    and z: "decodes st (i @ z') x" "i \<noteq> []" "left < 2 ^ 32" "z' \<noteq> []"
  shows "\<exists>st' a out x'. zstd_loop decode cap incr st i left d = Some (Inr False, st', [], a, d @ out) \<and>
    x = out @ x' \<and> decodes st' z' x'"
  using z(1-3)
proof (induction "length x" arbitrary: st i x d left rule: less_induct)
  case less
  let ?n = "zstd_room cap incr left d"
  have n: "0 < ?n" "?n < 2 ^ 32"
    using zstd_room_bounds [OF ok(2) less.prems(3)] by simp_all
  obtain r st' k out where step: "decode st i ?n = (r, st', k, out)"
    by (metis prod_cases4)
  note loop = zstd_loop_step [where decode = decode, OF zstd_room_def [symmetric] step]
  obtain x' where p: "zstd_class r = Step_ok" "k \<le> length i" "x = out @ x'" "decodes st' (drop k i @ z') x'"
    "length out \<le> ?n" "length out = ?n \<or> k = length i"
    using decoder_part [OF ok(1) less.prems(1,2) z(4) n step] by blast
  show ?case
  proof (cases "k = length i")
    case True
    then show ?thesis
      using p loop by auto
  next
    case False
    then have "length x' < length x" "drop k i \<noteq> []" "length out = ?n"
      using p n(1) by auto
    then obtain st2 a out2 x2 where "zstd_loop decode cap incr st' (drop k i) 0 (d @ out) =
      Some (Inr False, st2, [], a, (d @ out) @ out2)" "x' = out2 @ x2" "decodes st2 z' x2"
      using less.hyps [of x' st' "drop k i" 0 "d @ out"] p(4) by auto
    then show ?thesis
      using p \<open>drop k i \<noteq> []\<close> \<open>length out = ?n\<close> loop
      by (intro exI [of _ st2] exI [of _ a] exI [of _ "out @ out2"] exI [of _ x2]) simp
  qed
qed

section \<open>Appending\<close>

text \<open>
  What an \<open>append\<close> promises, whatever its format: from a state from which \<open>y\<close> is the rest of a stream with
  content \<open>x\<close>. \<open>fits\<close> is the input it can take in one call.
\<close>

locale stream_appender =
  fixes append_to :: "'s decompressor \<Rightarrow> bytes \<Rightarrow> bytes \<Rightarrow> 's append_result"
    and holds :: "'s decompressor \<Rightarrow> bytes \<Rightarrow> bytes \<Rightarrow> bool"
    and fits :: "bytes \<Rightarrow> bool"
  assumes nonempty: "holds z y x \<Longrightarrow> y \<noteq> []"
    and whole: "holds z y x \<Longrightarrow> fits (y @ rest) \<Longrightarrow>
      \<exists>z'. append_to z d (y @ rest) = Some (Inr \<lparr>nIn = length y, nOut = length x, isEnd = True\<rparr>, z', d @ x)"
    and part: "holds z (i @ y') x \<Longrightarrow> i \<noteq> [] \<Longrightarrow> y' \<noteq> [] \<Longrightarrow> fits i \<Longrightarrow>
      \<exists>z' out x'. append_to z d i = Some (Inr \<lparr>nIn = length i, nOut = length out, isEnd = False\<rparr>, z', d @ out) \<and>
        x = out @ x' \<and> holds z' y' x'"

text \<open>Several inputs one after the other; \<open>None\<close> when one of them fails.\<close>

fun append_all ::
  "('z \<Rightarrow> bytes \<Rightarrow> bytes \<Rightarrow> (('e + decompr_r) \<times> 'z \<times> bytes) option) \<Rightarrow> 'z \<Rightarrow> bytes \<Rightarrow> bytes list \<Rightarrow>
   (decompr_r list \<times> 'z \<times> bytes) option" where
  "append_all f z d [] = Some ([], z, d)"
| "append_all f z d (c # cs) =
     (case f z d c of
        Some (Inr r, z, d) \<Rightarrow> map_option (\<lambda>(rs, z, d). (r # rs, z, d)) (append_all f z d cs)
      | _ \<Rightarrow> None)"

context stream_appender
begin

lemma pieces:
  assumes "holds z (concat cs) x" "list_all (\<lambda>c. c \<noteq> [] \<and> fits c) cs"
  shows "\<exists>rs z'. append_all append_to z d cs = Some (rs, z', d @ x) \<and>
    map nIn rs = map length cs \<and> map isEnd rs = replicate (length cs - 1) False @ [True]"
  using assms
proof (induction cs arbitrary: z d x)
  case Nil
  then show ?case
    using nonempty by fastforce
next
  case (Cons c cs)
  show ?case
  proof (cases "cs = []")
    case True
    then show ?thesis
      using whole [of z c x "[]" d] Cons.prems by auto
  next
    case False
    then have "concat cs \<noteq> []"
      using Cons.prems(2) by (cases cs) auto
    then obtain z' out x' where step: "append_to z d c = Some (Inr \<lparr>nIn = length c, nOut = length out, isEnd = False\<rparr>, z', d @ out)"
      "x = out @ x'" "holds z' (concat cs) x'"
      using part [of z c "concat cs" x d] Cons.prems by auto
    obtain rs z2 where "append_all append_to z' (d @ out) cs = Some (rs, z2, (d @ out) @ x')" "map nIn rs = map length cs"
      "map isEnd rs = replicate (length cs - 1) False @ [True]"
      using Cons.IH [OF step(3), of "d @ out"] Cons.prems(2) by auto
    moreover have "replicate (length cs) False = False # replicate (length cs - 1) False"
      using False by (cases cs) simp_all
    ultimately show ?thesis
      using step by simp
  qed
qed

end

section \<open>The three formats\<close>

fun format_class :: "decompr_e \<Rightarrow> int \<Rightarrow> step_class" where
  "format_class De_bz2 = bz2_class"
| "format_class De_zlib = zlib_class"
| "format_class _ = zstd_class"

text \<open>zlib and bz2 count the input in 32 bits.\<close>

definition format_fits :: "decompr_e \<Rightarrow> bytes \<Rightarrow> bool" where
  "format_fits k inp \<longleftrightarrow> k = De_zstd \<or> length inp < 2 ^ 32"

definition real_incr :: "nat \<Rightarrow> nat" where
  "real_incr incr = (if incr < 1 then 5000 else incr)"

definition format_holds ::
  "(decompr_e \<Rightarrow> 's decoder) \<Rightarrow> (nat \<Rightarrow> nat) \<Rightarrow> nat \<Rightarrow> ('s \<Rightarrow> bytes \<Rightarrow> bytes \<Rightarrow> bool) \<Rightarrow> decompr_e \<Rightarrow>
   's decompressor \<Rightarrow> bytes \<Rightarrow> bytes \<Rightarrow> bool" where
  "format_holds decode cap incr decodes k z y x \<longleftrightarrow>
     k \<noteq> De_unknown \<and> decoder_ok (format_class k) (decode k) decodes \<and> room_ok cap (real_incr incr) \<and>
     decodes (dz_state z) y x \<and> dz_ok z"

lemma stream_append_whole:
  assumes "decodes_whole cls decode decodes" "room_ok cap (if incr < 1 then buf_inc else incr)" "decodes (dz_state z) y x" "dz_ok z"
    and "length (y @ rest) < 2 ^ 32"
  shows "\<exists>st'. stream_append cls decode cap buf_inc z d (y @ rest) incr =
    Some (Inr \<lparr>nIn = length y, nOut = length x, isEnd = True\<rparr>, \<lparr>dz_state = st', dz_ok = True\<rparr>, d @ x)"
proof -
  have all: "take (length (y @ rest) mod 2 ^ 32) (y @ rest) = y @ rest" "y @ rest \<noteq> []" "dz_ok z = True"
    using assms(5) decoder_nonempty [OF assms(1,3)] assms(4) by simp_all
  obtain st' a where "decode_loop cls decode cap (if incr < 1 then buf_inc else incr) (dz_state z) (y @ rest) 0 d True =
    Some (Inr True, st', rest, a, d @ x @ replicate a 0, True)"
    using decode_loop_whole [OF assms(1-3)] by blast
  then show ?thesis
    unfolding stream_append_def all using decoder_nonempty [OF assms(1,3)] by (simp add: remove_buf_tail_def Let_def)
qed

lemma stream_append_part:
  assumes "decoder_ok cls decode decodes" "room_ok cap (if incr < 1 then buf_inc else incr)" "decodes (dz_state z) (i @ y') x" "dz_ok z"
    and "i \<noteq> []" "y' \<noteq> []" "length i < 2 ^ 32"
  shows "\<exists>st' out x'. stream_append cls decode cap buf_inc z d i incr =
    Some (Inr \<lparr>nIn = length i, nOut = length out, isEnd = False\<rparr>, \<lparr>dz_state = st', dz_ok = True\<rparr>, d @ out) \<and>
    x = out @ x' \<and> decodes st' y' x'"
proof -
  have all: "take (length i mod 2 ^ 32) i = i" "dz_ok z = True"
    using assms(4,7) by simp_all
  obtain st' a out x' where "decode_loop cls decode cap (if incr < 1 then buf_inc else incr) (dz_state z) i 0 d True =
    Some (Inr False, st', [], a, d @ out @ replicate a 0, True)" "x = out @ x'" "decodes st' y' x'"
    using decode_loop_part [OF assms(1-3,5,6)] by blast
  then show ?thesis
    unfolding stream_append_def all using assms(5) by (simp add: remove_buf_tail_def Let_def)
qed

lemma zstd_append_whole:
  assumes "decodes_whole zstd_class decode decodes" "room_ok cap (real_incr incr)" "decodes (dz_state z) y x"
    and P: "\<And>st z x n r st' k out. decodes st z x \<Longrightarrow> 0 < n \<Longrightarrow> n < 2 ^ 32 \<Longrightarrow> decode st (z @ rest) n = (r, st', k, out) \<Longrightarrow>
      zstd_class r = Step_end \<Longrightarrow> P st'"
  shows "\<exists>st'. zstd_append decode cap z d (y @ rest) incr =
    Some (Inr \<lparr>nIn = length y, nOut = length x, isEnd = True\<rparr>, z\<lparr>dz_state := st'\<rparr>, d @ x) \<and> P st'"
proof -
  have "\<exists>st' a. zstd_loop decode cap (real_incr incr) (dz_state z) (y @ rest) 0 d = Some (Inr True, st', rest, a, d @ x) \<and> P st'"
    by (rule zstd_loop_whole [OF assms(1-3) _ P]) simp
  then obtain st' a where "zstd_loop decode cap (real_incr incr) (dz_state z) (y @ rest) 0 d = Some (Inr True, st', rest, a, d @ x)" "P st'"
    by blast
  then show ?thesis
    using decoder_nonempty [OF assms(1,3)] by (intro exI [of _ st']) (simp add: zstd_append_def real_incr_def)
qed

lemma zstd_append_part:
  assumes "decoder_ok zstd_class decode decodes" "room_ok cap (real_incr incr)" "decodes (dz_state z) (i @ y') x" "i \<noteq> []" "y' \<noteq> []"
  shows "\<exists>st' out x'. zstd_append decode cap z d i incr =
    Some (Inr \<lparr>nIn = length i, nOut = length out, isEnd = False\<rparr>, z\<lparr>dz_state := st'\<rparr>, d @ out) \<and>
    x = out @ x' \<and> decodes st' y' x'"
proof -
  have "\<exists>st' a out x'. zstd_loop decode cap (real_incr incr) (dz_state z) i 0 d = Some (Inr False, st', [], a, d @ out) \<and>
    x = out @ x' \<and> decodes st' y' x'"
    by (rule zstd_loop_part [OF assms(1-4) _ assms(5)]) simp
  then obtain st' a out x' where "zstd_loop decode cap (real_incr incr) (dz_state z) i 0 d = Some (Inr False, st', [], a, d @ out)"
    "x = out @ x'" "decodes st' y' x'"
    by blast
  then show ?thesis
    using assms(4) by (intro exI [of _ st'] exI [of _ out] exI [of _ x']) (simp add: zstd_append_def real_incr_def)
qed

lemma format_holdsD:
  assumes "format_holds decode cap incr decodes k z y x"
  shows "decoder_ok (format_class k) (decode k) decodes" "room_ok cap (real_incr incr)" "decodes (dz_state z) y x" "dz_ok z"
  using assms by (simp_all add: format_holds_def)

lemma format_append_whole:
  assumes "format_holds decode cap incr decodes k z y x" "format_fits k (y @ rest)"
  shows "\<exists>z'. format_append decode cap incr k z d (y @ rest) = Some (Inr \<lparr>nIn = length y, nOut = length x, isEnd = True\<rparr>, z', d @ x)"
proof -
  note h = format_holdsD [OF assms(1)]
  show ?thesis
  proof (cases k)
    case De_unknown
    then show ?thesis
      using assms(1) by (simp add: format_holds_def)
  next
    case De_zstd
    then have c: "decoder_ok zstd_class (decode k) decodes"
      using h(1) by simp
    show ?thesis
      using zstd_append_whole [where P = "\<lambda>_. True" and rest = rest and d = d, OF decoder_ok_whole [OF c] h(2,3)] De_zstd by auto
  next
    case De_bz2
    then show ?thesis
      using stream_append_whole [OF decoder_ok_whole [OF h(1)] h(2) [unfolded real_incr_def] h(3,4), of rest d] assms(2)
      by (auto simp: format_fits_def bz2_append_def)
  next
    case De_zlib
    then show ?thesis
      using stream_append_whole [OF decoder_ok_whole [OF h(1)] h(2) [unfolded real_incr_def] h(3,4), of rest d] assms(2)
      by (auto simp: format_fits_def zlib_append_def)
  qed
qed

lemma format_append_part:
  assumes "format_holds decode cap incr decodes k z (i @ y') x" "i \<noteq> []" "y' \<noteq> []" "format_fits k i"
  shows "\<exists>z' out x'. format_append decode cap incr k z d i = Some (Inr \<lparr>nIn = length i, nOut = length out, isEnd = False\<rparr>, z', d @ out) \<and>
    x = out @ x' \<and> format_holds decode cap incr decodes k z' y' x'"
proof -
  note h = format_holdsD [OF assms(1)]
  have "\<exists>st' out x'. format_append decode cap incr k z d i =
      Some (Inr \<lparr>nIn = length i, nOut = length out, isEnd = False\<rparr>, \<lparr>dz_state = st', dz_ok = True\<rparr>, d @ out) \<and>
      x = out @ x' \<and> decodes st' y' x'"
  proof (cases k)
    case De_unknown
    then show ?thesis
      using assms(1) by (simp add: format_holds_def)
  next
    case De_zstd
    then have c: "decoder_ok zstd_class (decode k) decodes"
      using h(1) by simp
    have "z\<lparr>dz_state := st'\<rparr> = \<lparr>dz_state = st', dz_ok = True\<rparr>" for st'
      using h(4) by (cases z) simp
    then show ?thesis
      using zstd_append_part [where d = d, OF c h(2,3) assms(2,3)] De_zstd by simp
  next
    case De_bz2
    then show ?thesis
      using stream_append_part [OF h(1) h(2) [unfolded real_incr_def] h(3,4) assms(2,3), of d] assms(4)
      by (simp add: format_fits_def bz2_append_def)
  next
    case De_zlib
    then show ?thesis
      using stream_append_part [OF h(1) h(2) [unfolded real_incr_def] h(3,4) assms(2,3), of d] assms(4)
      by (simp add: format_fits_def zlib_append_def)
  qed
  then show ?thesis
    using assms(1) by (fastforce simp: format_holds_def)
qed

interpretation format_appender: stream_appender "format_append decode cap incr k" "format_holds decode cap incr decodes k" "format_fits k"
  for decode :: "decompr_e \<Rightarrow> 's decoder" and cap incr decodes k
proof
  fix z :: "'s decompressor" and y y' x rest d i :: bytes
  show "y \<noteq> []" if "format_holds decode cap incr decodes k z y x"
    using decoder_nonempty [OF decoder_ok_whole [OF format_holdsD(1) [OF that]] format_holdsD(3) [OF that]] .
  show "\<exists>z'. format_append decode cap incr k z d (y @ rest) = Some (Inr \<lparr>nIn = length y, nOut = length x, isEnd = True\<rparr>, z', d @ x)"
    if "format_holds decode cap incr decodes k z y x" "format_fits k (y @ rest)"
    using that by (rule format_append_whole)
  show "\<exists>z' out x'. format_append decode cap incr k z d i = Some (Inr \<lparr>nIn = length i, nOut = length out, isEnd = False\<rparr>, z', d @ out) \<and>
        x = out @ x' \<and> format_holds decode cap incr decodes k z' y' x'"
    if "format_holds decode cap incr decodes k z (i @ y') x" "i \<noteq> []" "y' \<noteq> []" "format_fits k i"
    using that by (rule format_append_part)
qed

section \<open>Concatenated streams\<close>

text \<open>What follows the end of a stream makes the decompressor ready for another one.\<close>

locale stream_restarter = stream_appender append_to holds fits
  for append_to :: "'s decompressor \<Rightarrow> bytes \<Rightarrow> bytes \<Rightarrow> 's append_result" and holds and fits +
  fixes reset :: "'s decompressor \<Rightarrow> int option \<times> 's decompressor" and starts :: "bytes \<Rightarrow> bytes \<Rightarrow> bool"
  assumes fits_suffix: "fits (a @ b) \<Longrightarrow> fits b"
    and restart: "holds z y x \<Longrightarrow> starts y' x' \<Longrightarrow> fits (y @ rest) \<Longrightarrow>
      \<exists>z' z''. append_to z d (y @ rest) = Some (Inr \<lparr>nIn = length y, nOut = length x, isEnd = True\<rparr>, z', d @ x) \<and>
        reset z' = (None, z'') \<and> holds z'' y' x'"
begin

lemma multi_loop_streams:
  assumes "list_all (\<lambda>(y, x). starts y x) ss" "\<And>y x. starts y x \<Longrightarrow> holds z y x" "fits (concat (map fst ss))"
  shows "\<exists>z'. multi_loop append_to reset z d (concat (map fst ss)) e =
    Some (Inr (if ss = [] then e else True), z', d @ concat (map snd ss))"
  using assms
proof (induction ss arbitrary: z d e)
  case Nil
  then show ?case
    by (simp add: multi_loop.simps)
next
  case (Cons s ss)
  obtain y x where s: "s = (y, x)" "starts y x"
    using Cons.prems(1) by (cases s) simp
  let ?rest = "concat (map fst ss)"
  have h: "holds z y x" and fit: "fits (y @ ?rest)" and ne: "y \<noteq> []"
    using Cons.prems s nonempty [OF Cons.prems(2) [OF s(2)]] by auto
  obtain z' z'' where step: "append_to z d (y @ ?rest) = Some (Inr \<lparr>nIn = length y, nOut = length x, isEnd = True\<rparr>, z', d @ x)"
    "reset z' = (None, z'')"
    using restart [OF h s(2) fit] by blast
  have next_ok: "holds z'' y' x'" if "starts y' x'" for y' x'
    using restart [OF h that fit, of d] step by auto
  have "fits ?rest"
    using fits_suffix [OF fit] .
  then obtain z3 where "multi_loop append_to reset z'' (d @ x) ?rest True = Some (Inr (if ss = [] then True else True), z3, (d @ x) @ concat (map snd ss))"
    using Cons.IH [of z'' "d @ x" True] Cons.prems(1) next_ok by auto
  moreover have "drop (length y) (y @ ?rest) = ?rest"
    by simp
  ultimately show ?case
    using step s(1) ne by (subst multi_loop.simps) simp
qed

lemma streams:
  assumes "ss \<noteq> []" "list_all (\<lambda>(y, x). starts y x) ss" "\<And>y x. starts y x \<Longrightarrow> holds z y x" "fits (concat (map fst ss))"
  shows "\<exists>z'. append_multi append_to reset z d (concat (map fst ss)) =
    Some (Inr \<lparr>nIn = length (concat (map fst ss)), nOut = length (concat (map snd ss)), isEnd = True\<rparr>, z', d @ concat (map snd ss))"
  using multi_loop_streams [OF assms(2-4), of d False] assms(1) by (auto simp: append_multi_def)

end

text \<open>
  The library after the end of a stream: \<open>starts y x\<close> is that \<open>y\<close> is a whole stream with content \<open>x\<close>. zstd is ready for
  the next frame, zlib and bz2 after the call that resets them.
\<close>

definition format_reset :: "(decompr_e \<Rightarrow> 's \<Rightarrow> int \<times> 's) \<Rightarrow> decompr_e \<Rightarrow> 's decompressor \<Rightarrow> int option \<times> 's decompressor" where
  "format_reset reset k z = (if k = De_zstd then (None, z) else lib_reset (reset k) z)"

definition format_restarts ::
  "(decompr_e \<Rightarrow> 's decoder) \<Rightarrow> (decompr_e \<Rightarrow> 's \<Rightarrow> int \<times> 's) \<Rightarrow> ('s \<Rightarrow> bytes \<Rightarrow> bytes \<Rightarrow> bool) \<Rightarrow> decompr_e \<Rightarrow>
   (bytes \<Rightarrow> bytes \<Rightarrow> bool) \<Rightarrow> bool" where
  "format_restarts decode reset decodes k starts \<longleftrightarrow>
     (if k = De_zstd
      then (\<forall>st z x rest n r st' m out. decodes st z x \<longrightarrow> 0 < n \<longrightarrow> n < 2 ^ 32 \<longrightarrow> decode k st (z @ rest) n = (r, st', m, out) \<longrightarrow>
              zstd_class r = Step_end \<longrightarrow> (\<forall>y x. starts y x \<longrightarrow> decodes st' y x))
      else (\<forall>st. fst (reset k st) = 0 \<and> (\<forall>y x. starts y x \<longrightarrow> decodes (snd (reset k st)) y x)))"

definition format_starts ::
  "(decompr_e \<Rightarrow> 's decoder) \<Rightarrow> (decompr_e \<Rightarrow> 's \<Rightarrow> int \<times> 's) \<Rightarrow> ('s \<Rightarrow> bytes \<Rightarrow> bytes \<Rightarrow> bool) \<Rightarrow> decompr_e \<Rightarrow>
   (bytes \<Rightarrow> bytes \<Rightarrow> bool) \<Rightarrow> bytes \<Rightarrow> bytes \<Rightarrow> bool" where
  "format_starts decode reset decodes k starts y x \<longleftrightarrow> format_restarts decode reset decodes k starts \<and> starts y x"

lemma format_restart:
  assumes "format_holds decode cap incr decodes k z y x" "format_starts decode reset decodes k starts y' x'" "format_fits k (y @ rest)"
  shows "\<exists>z' z''. format_append decode cap incr k z d (y @ rest) = Some (Inr \<lparr>nIn = length y, nOut = length x, isEnd = True\<rparr>, z', d @ x) \<and>
        format_reset reset k z' = (None, z'') \<and> format_holds decode cap incr decodes k z'' y' x'"
proof -
  note h = format_holdsD [OF assms(1)]
  have st: "starts y' x'" "format_restarts decode reset decodes k starts"
    using assms(2) by (simp_all add: format_starts_def)
  show ?thesis
  proof (cases "k = De_zstd")
    case True
    then have c: "decoder_ok zstd_class (decode k) decodes"
      using h(1) by simp
    have "\<exists>st'. zstd_append (decode k) cap z d (y @ rest) incr =
      Some (Inr \<lparr>nIn = length y, nOut = length x, isEnd = True\<rparr>, z\<lparr>dz_state := st'\<rparr>, d @ x) \<and> decodes st' y' x'"
      by (rule zstd_append_whole [OF decoder_ok_whole [OF c] h(2,3)]) (use st True in \<open>unfold format_restarts_def, simp, blast\<close>)
    then show ?thesis
      using True assms(1) by (auto simp: format_reset_def format_holds_def)
  next
    case False
    have k: "k = De_bz2 \<or> k = De_zlib"
      using False assms(1) by (cases k) (auto simp: format_holds_def)
    have fit: "length (y @ rest) < 2 ^ 32"
      using assms(3) False by (simp add: format_fits_def)
    obtain st' where "format_append decode cap incr k z d (y @ rest) =
      Some (Inr \<lparr>nIn = length y, nOut = length x, isEnd = True\<rparr>, \<lparr>dz_state = st', dz_ok = True\<rparr>, d @ x)"
      using k stream_append_whole [OF decoder_ok_whole [OF h(1)] h(2) [unfolded real_incr_def] h(3,4) fit, of d]
      by (auto simp: zlib_append_def bz2_append_def)
    moreover obtain r st2 where "reset k st' = (r, st2)"
      by fastforce
    moreover have "r = 0" "decodes st2 y' x'"
      using st False calculation(2) by (auto simp: format_restarts_def dest!: spec [of _ st'])
    ultimately show ?thesis
      using False assms(1) by (auto simp: format_reset_def lib_reset_def format_holds_def)
  qed
qed

interpretation format_restarter: stream_restarter "format_append decode cap incr k" "format_holds decode cap incr decodes k" "format_fits k"
    "format_reset reset k" "format_starts decode reset decodes k starts"
  for decode :: "decompr_e \<Rightarrow> 's decoder" and cap incr decodes k reset starts
proof
  show "format_fits k b" if "format_fits k (a @ b)" for a b
    using that by (auto simp: format_fits_def)
  show "\<exists>z' z''. format_append decode cap incr k z d (y @ rest) = Some (Inr \<lparr>nIn = length y, nOut = length x, isEnd = True\<rparr>, z', d @ x) \<and>
        format_reset reset k z' = (None, z'') \<and> format_holds decode cap incr decodes k z'' y' x'"
    if "format_holds decode cap incr decodes k z y x" "format_starts decode reset decodes k starts y' x'" "format_fits k (y @ rest)"
    for z y x y' x' rest d
    using that by (rule format_restart)
qed

section \<open>Properties\<close>

lemma ad_append_first:
  assumes "\<not> ad_inited a" "detect_type c = k" "k \<noteq> De_unknown" "start k = (None, z)"
  shows "ad_append start f a d c = ad_append start f (a\<lparr>ad_type := k, ad_z := z, ad_inited := True\<rparr>) d c"
  using assms by (simp add: ad_append_def ad_init_def Let_def)

lemma ad_append_all:
  assumes "ad_inited a" "ad_type a = k" "k \<noteq> De_unknown"
  shows "append_all (ad_append start f) a d cs = map_option (\<lambda>(rs, z, d). (rs, a\<lparr>ad_z := z\<rparr>, d)) (append_all (f k) (ad_z a) d cs)"
  using assms
proof (induction cs arbitrary: a d)
  case (Cons c cs)
  show ?case
  proof (cases "f k (ad_z a) d c")
    case None
    then show ?thesis
      using Cons.prems by (simp add: ad_append_def ad_init_def)
  next
    case (Some r)
    obtain res z d' where r: "r = (res, z, d')"
      by (cases r)
    show ?thesis
    proof (cases res)
      case (Inl e)
      then show ?thesis
        using Cons.prems Some r by (simp add: ad_append_def ad_init_def)
    next
      case (Inr cur)
      then show ?thesis
        using Cons.prems Some r Cons.IH [of "a\<lparr>ad_z := z\<rparr>" d']
        by (cases "append_all (f k) z d' cs") (auto simp: ad_append_def ad_init_def)
    qed
  qed
qed simp

text \<open>
  C34: A compressed stream that arrives in pieces is decompressed as a whole. Whatever the format that the first
  piece shows (bz2, zlib or gzip, zstd), wherever the input is cut, and however little room the buffer gets
  at a time: every call consumes its piece, the content of the stream is appended to what was in the buffer,
  nothing is left out or left behind, and exactly the last call reports the end. The decoding library keeps
  to its contract (\<open>decoder_ok\<close>), and a piece for zlib or bz2 is shorter than 4 GiB.
\<close>

theorem auto_decompress_in_pieces:
  assumes "\<not> ad_inited a" and "detect_type (hd cs) = k" and "start k = (None, z)"
    and "format_holds decode cap incr decodes k z (concat cs) x" and "list_all (\<lambda>c. c \<noteq> [] \<and> format_fits k c) cs"
  shows "\<exists>rs a'. append_all (ad_append start (format_append decode cap incr)) a d cs = Some (rs, a', d @ x) \<and>
    map nIn rs = map length cs \<and> map isEnd rs = replicate (length cs - 1) False @ [True]"
proof -
  let ?f = "format_append decode cap incr"
  let ?a = "a\<lparr>ad_type := k, ad_z := z, ad_inited := True\<rparr>"
  have k: "k \<noteq> De_unknown"
    using assms(4) by (simp add: format_holds_def)
  obtain c cs' where cs: "cs = c # cs'"
    using format_appender.nonempty [OF assms(4)] by (cases cs) auto
  have "append_all (ad_append start ?f) a d cs = append_all (ad_append start ?f) ?a d cs"
    using ad_append_first [of a c k start z ?f d] assms(1-3) k cs by simp
  also have "\<dots> = map_option (\<lambda>(rs, z, d). (rs, ?a\<lparr>ad_z := z\<rparr>, d)) (append_all (?f k) z d cs)"
    using ad_append_all [of ?a k start ?f d cs] k by simp
  finally show ?thesis
    using format_appender.pieces [OF assms(4,5), of d] by auto
qed

text \<open>A small code in which every stream ends with a zero byte, for the instances.\<close>

definition zero_ended :: "unit decoder" where
  "zero_ended st i n =
     (let y = takeWhile (\<lambda>b. b \<noteq> 0) i in
      if length y < n then (if length y < length i then (1, st, length y + 1, y) else (0, st, length y, y))
      else (0, st, n, take n y))"

definition zero_decodes :: "unit \<Rightarrow> bytes \<Rightarrow> bytes \<Rightarrow> bool" where
  "zero_decodes st z x \<longleftrightarrow> z = x @ [0] \<and> 0 \<notin> set x"

lemma takeWhile_all: "0 \<notin> set x \<Longrightarrow> takeWhile (\<lambda>b. b \<noteq> (0::u8)) (x @ 0 # rest) = x"
  by (induction x) auto

lemma zero_ended_ok: "decoder_ok zlib_class zero_ended zero_decodes"
  unfolding decoder_ok_def decodes_whole_def
proof (intro conjI allI impI)
  show "z \<noteq> []" if "zero_decodes st z x" for st z x
    using that by (simp add: zero_decodes_def)
  show "whole_ok zlib_class zero_decodes z x n (zero_ended st (z @ rest) n)"
    if z: "zero_decodes st z x" and n: "0 < n" "n < 2 ^ 32" for st z x rest n
  proof (cases "length x < n")
    case True
    then show ?thesis
      using z takeWhile_all [of x rest] by (auto simp: whole_ok_def zero_ended_def zero_decodes_def zlib_class_def)
  next
    case False
    then show ?thesis
      using z takeWhile_all [of x rest] by (auto simp: whole_ok_def zero_ended_def zero_decodes_def zlib_class_def dest: in_set_dropD)
  qed
  show "part_ok zlib_class zero_decodes i z' x n (zero_ended st i n)"
    if z: "zero_decodes st (i @ z') x" and i: "i \<noteq> []" "z' \<noteq> []" and n: "0 < n" "n < 2 ^ 32" for st i z' x n
  proof -
    obtain x' where x: "x = i @ x'" "z' = x' @ [0]"
      using z i(2) by (auto simp: zero_decodes_def append_eq_append_conv2 append_eq_Cons_conv)
    then have "0 \<notin> set i" "0 \<notin> set x'"
      using z by (auto simp: zero_decodes_def)
    then have t: "takeWhile (\<lambda>b. b \<noteq> 0) i = i"
      by (auto simp: takeWhile_eq_all_conv)
    have "zero_ended st i n = (if length i < n then (0, st, length i, i) else (0, st, n, take n i))"
      unfolding zero_ended_def t Let_def by simp
    then show ?thesis
      using x \<open>0 \<notin> set i\<close> \<open>0 \<notin> set x'\<close>
      by (auto simp: part_ok_def zero_decodes_def zlib_class_def dest: in_set_dropD)
  qed
qed

lemma room_one: "room_ok (\<lambda>n. n) 1"
  by (simp add: room_ok_def buy_buf_at_least_def)

theorem auto_decompress_in_pieces_witness:
  "\<exists>rs a'. append_all (ad_append (\<lambda>k. (None, \<lparr>dz_state = (), dz_ok = True\<rparr>)) (format_append (\<lambda>k. zero_ended) (\<lambda>n. n) 1))
       \<lparr>ad_type = De_unknown, ad_z = \<lparr>dz_state = (), dz_ok = True\<rparr>, ad_inited = False\<rparr> [0x5f] [[0x78, 0x9c], [0x61], [0x62, 0]] =
       Some (rs, a', [0x5f] @ [0x78, 0x9c, 0x61, 0x62]) \<and>
    map nIn rs = map length [[0x78, 0x9c], [0x61], [0x62, 0 :: u8]] \<and>
    map isEnd rs = replicate (length [[0x78, 0x9c], [0x61], [0x62, 0 :: u8]] - 1) False @ [True]"
  by (rule auto_decompress_in_pieces [where k = De_zlib and z = "\<lparr>dz_state = (), dz_ok = True\<rparr>" and decodes = zero_decodes])
    (simp_all add: detect_type_def sv_starts_with_def cstr_bytes_def format_holds_def format_fits_def real_incr_def
      zero_ended_ok room_one [simplified] zero_decodes_def)

lemma format_append_ext:
  "(\<lambda>z d inp. bz2_append (decode De_bz2) cap z d inp incr) = format_append decode cap incr De_bz2"
  "(\<lambda>z d inp. zlib_append (decode De_zlib) cap z d inp incr) = format_append decode cap incr De_zlib"
  "(\<lambda>z d inp. zstd_append (decode De_zstd) cap z d inp incr) = format_append decode cap incr De_zstd"
  by (intro ext; simp)+

lemma format_append_multi_eq:
  "k \<noteq> De_unknown \<Longrightarrow>
   format_append_multi decode cap reset incr k z d inp = append_multi (format_append decode cap incr k) (format_reset reset k) z d inp"
  by (cases k) (simp_all add: zlib_append_multi_def bz2_append_multi_def zstd_append_multi_def format_reset_def [abs_def] format_append_ext)



section \<open>What goes wrong\<close>

text \<open>
  With \<open>Z_FINISH\<close>, as in \<open>zlib_decompress\<close>, \<open>inflate\<close> says \<open>Z_BUF_ERROR\<close> when the input ends before the stream does. The loop
  takes it for a full buffer, buys more room and calls again, for ever.
\<close>

lemma truncated_stream_stuck:
  assumes "decode_loop cls decode cap incr st inp a d ok = Some res"
  shows "\<not> (cls = zlib_class \<and> inp = [] \<and> (\<forall>n. decode st [] n = (- 5, st, 0, [])))"
proof (rule decode_loop.raw_induct [OF _ assms, where P = "\<lambda>cls decode cap incr st inp a d ok res.
    \<not> (cls = zlib_class \<and> inp = [] \<and> (\<forall>n. decode st [] n = (- 5, st, 0, [])))"], rule notI, elim conjE, goal_cases)
  case (1 rec cls decode cap incr st inp a d ok res)
  have "cls (- 5) = Step_again"
    using 1(3) by (simp add: zlib_class_def)
  then obtain a' d' ok' where "rec cls decode cap incr st [] a' d' ok' = Some res"
    using 1(2,4,5) by auto
  then show False
    using 1(1,3,5) by blast
qed

lemma truncated_stream_never_returns:
  assumes "\<And>n. decode st [] n = (- 5, st, 0, [])"
  shows "decode_loop zlib_class decode cap incr st [] a d ok = None"
  using truncated_stream_stuck [of zlib_class decode cap incr st "[]" a d ok] assms
  by (cases "decode_loop zlib_class decode cap incr st [] a d ok") auto

text \<open>An input in none of the formats is not an error the first time, and none of it is consumed.\<close>

lemma unknown_format_is_no_error:
  assumes "\<not> ad_inited a" "ad_type a = De_unknown" "detect_type c = De_unknown"
  shows "ad_append start f a d c = Some (Inr \<lparr>nIn = 0, nOut = 0, isEnd = False\<rparr>, a\<lparr>ad_inited := True\<rparr>, d)"
  using assms by (simp add: ad_append_def ad_init_def decompr_r_default_def)

end
