(* ===== verification/Compress_Props.thy ===== *)
theory Compress_Props
  imports Compress Decompress_Props
begin

text \<open>
  What is compressed as a whole buffer is what the library's encoder makes of it, without gaps or a tail,
  and decompresses to the buffer.
\<close>

section \<open>The contract of the encoder\<close>

text \<open>
  \<open>encodes st i y\<close>: from the state \<open>st\<close>, with the input \<open>i\<close> left, the calls that finish the stream give the bytes
  \<open>y\<close>. A call gives as many as there is room for; when the room is used up there may be more.
\<close>

definition encodes_some ::
  "(int \<Rightarrow> step_class) \<Rightarrow> (int \<Rightarrow> bytes \<Rightarrow> nat \<Rightarrow> bool) \<Rightarrow> ('s \<Rightarrow> bytes \<Rightarrow> bytes \<Rightarrow> bool) \<Rightarrow> bytes \<Rightarrow> bytes \<Rightarrow> nat \<Rightarrow>
   int \<times> 's \<times> nat \<times> bytes \<Rightarrow> bool" where
  "encodes_some cls finished encodes i y n res \<longleftrightarrow>
     (case res of (r, st', k, out) \<Rightarrow>
        cls r = Step_ok \<and> finished r (drop k i) (n - length out) \<and> out = y \<and> length out \<le> n \<or>
        (cls r = Step_ok \<and> \<not> finished r (drop k i) (n - length out) \<or> cls r = Step_again) \<and> length out = n \<and>
          (\<exists>y'. y = out @ y' \<and> encodes st' (drop k i) y'))"

definition encoder_ok ::
  "(int \<Rightarrow> step_class) \<Rightarrow> (int \<Rightarrow> bytes \<Rightarrow> nat \<Rightarrow> bool) \<Rightarrow> 's decoder \<Rightarrow> ('s \<Rightarrow> bytes \<Rightarrow> bytes \<Rightarrow> bool) \<Rightarrow> bool" where
  "encoder_ok cls finished encode encodes \<longleftrightarrow>
     (\<forall>st i y n. encodes st i y \<longrightarrow> 0 < n \<longrightarrow> n < 2 ^ 32 \<longrightarrow> encodes_some cls finished encodes i y n (encode st i n))"

lemma encoder_step:
  assumes "encoder_ok cls finished encode encodes" "encodes st i y" "0 < n" "n < 2 ^ 32" "encode st i n = (r, st', k, out)"
  obtains (ends) "cls r = Step_ok" "finished r (drop k i) (n - length out)" "out = y" "length out \<le> n"
  | (more) y' where "cls r = Step_ok \<and> \<not> finished r (drop k i) (n - length out) \<or> cls r = Step_again"
      "length out = n" "y = out @ y'" "encodes st' (drop k i) y'"
proof -
  have "encodes_some cls finished encodes i y n (encode st i n)"
    using assms(1-4) by (simp add: encoder_ok_def)
  then have "(cls r = Step_ok \<and> finished r (drop k i) (n - length out) \<and> out = y \<and> length out \<le> n) \<or>
     ((cls r = Step_ok \<and> \<not> finished r (drop k i) (n - length out) \<or> cls r = Step_again) \<and> length out = n \<and>
        (\<exists>y'. y = out @ y' \<and> encodes st' (drop k i) y'))"
    unfolding assms(5) encodes_some_def prod.case .
  then show ?thesis
    using ends more by (elim disjE conjE exE) blast+
qed

section \<open>The loop\<close>

lemma encode_loop_step:
  assumes "buy_buf_at_least cap (length d) incr = n" "n < 2 ^ 32" "encode st inp n = (r, st', k, out)"
  shows "encode_loop cls finished encode cap incr st inp a d ok =
    (let rest = drop k inp; left = n - length out; d' = d @ out @ replicate left 0; ok' = (ok \<and> a = 0) in
     if cls r = Step_again then encode_loop cls finished encode cap incr st' rest left d' ok'
     else if cls r = Step_err then Some (Some r, st', left, d', ok')
     else if finished r rest left then Some (None, st', left, d', ok')
     else encode_loop cls finished encode cap incr st' rest left d' ok')"
proof -
  have m: "n mod 2 ^ 32 = n"
    using assms(2) by simp
  show ?thesis
    by (subst encode_loop.simps) (simp only: assms(1,3) m prod.case Let_def)
qed

lemma encode_loop_finishes:
  assumes ok: "encoder_ok cls finished encode encodes" "room_ok cap incr" and y: "encodes st i y"
  shows "\<exists>st' a. encode_loop cls finished encode cap incr st i 0 d True = Some (None, st', a, d @ y @ replicate a 0, True)"
  using y
proof (induction "length y" arbitrary: st i y d rule: less_induct)
  case less
  let ?n = "buy_buf_at_least cap (length d) incr"
  have n: "0 < ?n" "?n < 2 ^ 32"
    using room [OF ok(2), of "length d"] by simp_all
  obtain r st' k out where step: "encode st i ?n = (r, st', k, out)"
    by (metis prod_cases4)
  note loop = encode_loop_step [where encode = encode, OF refl n(2) step, of cls finished 0 True]
  show ?case
  proof (cases rule: encoder_step [OF ok(1) less.prems n step, case_names ends more])
    case ends
    then show ?thesis
      using loop by (simp add: Let_def)
  next
    case (more y')
    then have "length y' < length y"
      using n(1) by simp
    then obtain st2 a where "encode_loop cls finished encode cap incr st' (drop k i) 0 (d @ out) True =
        Some (None, st2, a, (d @ out) @ y' @ replicate a 0, True)"
      using less.hyps more(4) by blast
    then show ?thesis
      using more loop by (auto simp: Let_def)
  qed
qed

lemma stream_compr_finishes:
  assumes "encoder_ok cls (finished Act_finish) (encode Act_finish) encodes" "room_ok cap (real_incr incr)"
    and "encodes (dz_state z) inp y" "dz_ok z" "length inp < 2 ^ 32"
  shows "\<exists>z'. stream_compr_append cls finished encode cap Act_finish z d inp incr = Some (Inr (length y), z', d @ y)"
proof -
  have all: "take (length inp mod 2 ^ 32) inp = inp" "dz_ok z = True"
    using assms(4,5) by simp_all
  obtain st' a where "encode_loop cls (finished Act_finish) (encode Act_finish) cap (real_incr incr) (dz_state z) inp 0 d True =
      Some (None, st', a, d @ y @ replicate a 0, True)"
    using encode_loop_finishes [OF assms(1-3)] by blast
  then show ?thesis
    unfolding stream_compr_append_def all by (simp add: real_incr_def remove_buf_tail_def)
qed

section \<open>Properties\<close>


text \<open>The encoder of the code in which a zero byte ends the stream; its state is whether that has been written.\<close>

definition zero_encode :: "bool decoder" where
  "zero_encode st i n =
     (if length i < n then (1, True, length i, i @ [0]) else (0, st, n, take n i))"

definition zero_encodes :: "bool \<Rightarrow> bytes \<Rightarrow> bytes \<Rightarrow> bool" where
  "zero_encodes st i y \<longleftrightarrow> \<not> st \<and> y = i @ [0]"

lemma zero_encode_ok: "encoder_ok zlib_enc_class (zlib_done Act_finish) zero_encode zero_encodes"
  by (auto simp: encoder_ok_def encodes_some_def zero_encode_def zero_encodes_def zlib_enc_class_def)


lemma bz2_compress_roundtrip:
  assumes "encoder_ok bz2_enc_class (bz2_done Act_finish) (encode Act_finish) encodes" and "encodes st x y"
    and "decodes_whole bz2_class decode decodes" and "decodes st' y x"
    and "room_ok cap (real_incr (if incr < 1 then bound (length x) else incr))" and "room_ok cap' (real_incr incr')"
    and "length x < 2 ^ 32" and "length y < 2 ^ 32"
  shows "bz2_compress (0, st) encode bound cap x incr = Some (Inr (length y), y) \<and>
    bz2_decompress (0, st') decode cap' y incr' = Some (Inr \<lparr>nIn = length y, nOut = length x, isEnd = True\<rparr>, x)"
proof
  let ?z = "\<lambda>s. \<lparr>dz_state = s, dz_ok = True\<rparr>"
  obtain z2 where "bz2_compr_append encode cap Act_finish (?z st) [] x (if incr < 1 then bound (length x) else incr) =
      Some (Inr (length y), z2, [] @ y)"
    using stream_compr_finishes [where z = "?z st" and finished = bz2_done and encode = encode and d = "[]", OF assms(1,5)] assms(2,7)
    by (auto simp: bz2_compr_append_def)
  then show "bz2_compress (0, st) encode bound cap x incr = Some (Inr (length y), y)"
    by (cases "incr = 0") (simp_all add: bz2_compress_def bz2_compress_append_def with_stream_def)
  have "\<exists>st2. stream_append bz2_class decode cap' 5000 (?z st') [] (y @ []) incr' =
      Some (Inr \<lparr>nIn = length y, nOut = length x, isEnd = True\<rparr>, \<lparr>dz_state = st2, dz_ok = True\<rparr>, [] @ x)"
    by (rule stream_append_whole [OF assms(3) assms(6) [unfolded real_incr_def]]) (use assms(4,8) in simp_all)
  then show "bz2_decompress (0, st') decode cap' y incr' = Some (Inr \<lparr>nIn = length y, nOut = length x, isEnd = True\<rparr>, x)"
    by (auto simp: bz2_decompress_def bz2_decompress_append_def with_stream_def bz2_append_def)
qed

end
