(* ===== verification/Coro.thy ===== *)
theory Coro
  imports Async_Group
begin

text \<open>
  Coroutine tasks: \<open>include/dsk/task.hpp\<close>. The body of a coroutine is a tree whose nodes are the
  awaits, throws and returns the promise's \<open>await_transform\<close> overloads accept; the branches of a node are
  the code that runs with the value the \<open>co_await\<close> expression gives. A task that awaits a task, which
  awaits a task, is a chain of frames, the running one first. The operations awaited that are not tasks
  and the operations of the cleanup scopes belong to the environment: they finish when, and with the
  result, an event says.

  The error type of the tasks is \<open>'e\<close>; \<open>ec\<close> is the conversion of an \<open>errc\<close> to it by which
  \<open>emplace_err\<close> constructs one, \<open>failed\<close> is \<open>is_failed\<close> of a cleanup operation that finished.
  A \<open>std::stop_source\<close> is the identity of its state, \<open>None\<close> for \<open>std::nostopstate\<close>; an
  \<open>any_resumer\<close> is the identity of its scheduler, \<open>None\<close> for the inline one.
\<close>

section \<open>Bodies\<close>

type_synonym stop_source = "ident option"
type_synonym resumer = "ident option"

datatype query = Q_stop_possible | Q_stop_requested | Q_request_stop

datatype ('o, 'v, 'e) coro =
    Co_return 'v
  | Co_throw 'e
  | Co_fall_off
  | Co_check "'e + 'v" "'v \<Rightarrow> ('o, 'v, 'e) coro"
  | Co_await 'o "'e + 'v \<Rightarrow> ('o, 'v, 'e) coro"
  | Co_await_task "('o, 'v, 'e) coro" "'e + 'v \<Rightarrow> ('o, 'v, 'e) coro"
  | Co_yield 'v "('o, 'v, 'e) coro"
  | Co_add_cleanup "('o, 'v, 'e) coro"
  | Co_add_parent_cleanup "('o, 'v, 'e) coro"
  | Co_scope_begin "('o, 'v, 'e) coro"
  | Co_scope_clean "errc option \<Rightarrow> ('o, 'v, 'e) coro"
  | Co_scope_end "('o, 'v, 'e) coro"
  | Co_query query "bool \<Rightarrow> ('o, 'v, 'e) coro"
  | Co_get_stop_source "stop_source \<Rightarrow> ('o, 'v, 'e) coro"
  | Co_set_stop_source stop_source "('o, 'v, 'e) coro"
  | Co_get_resumer "resumer \<Rightarrow> ('o, 'v, 'e) coro"
  | Co_set_resumer resumer "('o, 'v, 'e) coro"

text \<open>
  The macros: \<open>DSK_TRY op\<close> is \<open>co_await co_await op\<close>; \<open>DSK_CLEANUP_SCOPE_END\<close> awaits the scope's
  operations, throws their error, and the guard's destructor runs at the closing brace.
\<close>

definition dsk_try :: "'o \<Rightarrow> ('v \<Rightarrow> ('o, 'v, 'e) coro) \<Rightarrow> ('o, 'v, 'e) coro" where
  "dsk_try op k = Co_await op (\<lambda>r. Co_check r k)"

definition dsk_try_task :: "('o, 'v, 'e) coro \<Rightarrow> ('v \<Rightarrow> ('o, 'v, 'e) coro) \<Rightarrow> ('o, 'v, 'e) coro" where
  "dsk_try_task t k = Co_await_task t (\<lambda>r. Co_check r k)"

definition cleanup_scope_end :: "(errc \<Rightarrow> 'e) \<Rightarrow> ('o, 'v, 'e) coro \<Rightarrow> ('o, 'v, 'e) coro" where
  "cleanup_scope_end ec c = Co_scope_clean (\<lambda>err. case err of Some e \<Rightarrow> Co_throw (ec e) | None \<Rightarrow> Co_scope_end c)"

text \<open>\<open>as_task\<close> of an operation whose result may be an error.\<close>

definition as_task :: "'o \<Rightarrow> ('o, 'v, 'e) coro" where
  "as_task op = dsk_try op Co_return"

section \<open>State\<close>

text \<open>
  \<open>coro_promise_base\<close> and the host's result: \<open>cf_k\<close> is what the coroutine goes on with when the task
  it awaits has finished, \<open>cf_r\<close> the host's result, \<open>cf_gs\<close> the cleanup scopes, \<open>cf_cont\<close> whether the
  continuation is set.
\<close>

record ('o, 'v, 'e, 'r) coro_frame =
  cf_k :: "'e + 'v \<Rightarrow> ('o, 'v, 'e) coro"
  cf_r :: "('e + 'v) option"
  cf_gs :: "'r group_stack"
  cf_ss :: stop_source
  cf_resumer :: resumer
  cf_cont :: bool

datatype ('o, 'v, 'e) co_mode =
    M_run "('o, 'v, 'e) coro"
  | M_await "'e + 'v \<Rightarrow> ('o, 'v, 'e) coro"
  | M_yielded "('o, 'v, 'e) coro"
  | M_scope "errc option \<Rightarrow> ('o, 'v, 'e) coro"
  | M_cleanup
  | M_done
  | M_aborted

text \<open>What a body has been given by its surroundings, in order.\<close>

datatype ('v, 'e, 'r) obs =
    O_res "'e + 'v"
  | O_started
  | O_alloc_failed
  | O_clean 'r
  | O_yield 'v
  | O_bool bool
  | O_stop_source stop_source
  | O_resumer resumer

text \<open>
  \<open>cs_stop\<close> holds the stop states that have been requested to stop; \<open>cs_root\<close> is the result of the
  outermost task once its coroutine is gone, \<open>cs_resumed\<close> counts the calls of its continuation.
\<close>

record ('o, 'v, 'e, 'r) co_state =
  cs_frames :: "('o, 'v, 'e, 'r) coro_frame list"
  cs_mode :: "('o, 'v, 'e) co_mode"
  cs_stop :: "ident set"
  cs_root :: "('e + 'v) option"
  cs_resumed :: nat
  cs_log :: "('v, 'e, 'r) obs list"
  cs_ok :: bool

definition co_assert :: "bool \<Rightarrow> ('o, 'v, 'e, 'r) co_state \<Rightarrow> ('o, 'v, 'e, 'r) co_state" where
  "co_assert P s = s\<lparr>cs_ok := cs_ok s \<and> P\<rparr>"

definition co_note :: "('v, 'e, 'r) obs \<Rightarrow> ('o, 'v, 'e, 'r) co_state \<Rightarrow> ('o, 'v, 'e, 'r) co_state" where
  "co_note x s = s\<lparr>cs_log := cs_log s @ [x]\<rparr>"

definition co_goto :: "('o, 'v, 'e) co_mode \<Rightarrow> ('o, 'v, 'e, 'r) co_state \<Rightarrow> ('o, 'v, 'e, 'r) co_state" where
  "co_goto m s = s\<lparr>cs_mode := m\<rparr>"

text \<open>The innermost frame replaced.\<close>

definition co_put :: "('o, 'v, 'e, 'r) coro_frame \<Rightarrow> ('o, 'v, 'e, 'r) co_state \<Rightarrow> ('o, 'v, 'e, 'r) co_state" where
  "co_put f s = s\<lparr>cs_frames := f # tl (cs_frames s)\<rparr>"

text \<open>The promise of a coroutine that has been called: suspended at its start.\<close>

definition coro_new :: "('o, 'v, 'e, 'r) coro_frame" where
  "coro_new = \<lparr>cf_k = (\<lambda>_. Co_fall_off), cf_r = None, cf_gs = gs_new errc_one_or_more_cleanup_ops_failed,
     cf_ss = None, cf_resumer = None, cf_cont = False\<rparr>"

text \<open>\<open>task::initiate\<close>: stop source and resumer of the context, the continuation.\<close>

definition task_initiate ::
  "stop_source \<Rightarrow> resumer \<Rightarrow> ('o, 'v, 'e, 'r) coro_frame \<Rightarrow> bool \<times> ('o, 'v, 'e, 'r) coro_frame" where
  "task_initiate ss rs f = (\<not> cf_cont f, f\<lparr>cf_ss := ss, cf_resumer := rs, cf_cont := True\<rparr>)"

text \<open>A task started by \<open>manual_initiate\<close>, as \<open>sync_wait\<close> does; its context has no promise.\<close>

definition co_start :: "stop_source \<Rightarrow> resumer \<Rightarrow> ident set \<Rightarrow> ('o, 'v, 'e) coro \<Rightarrow> ('o, 'v, 'e, 'r) co_state" where
  "co_start ss rs stop b =
     (case task_initiate ss rs coro_new of (P, f) \<Rightarrow>
        \<lparr>cs_frames = [f], cs_mode = M_run b, cs_stop = stop, cs_root = None, cs_resumed = 0, cs_log = [], cs_ok = P\<rparr>)"

section \<open>Cleanup and the end of a coroutine\<close>

text \<open>The assertions of the cleanup scopes.\<close>

definition gs_sound :: "'r group_stack \<Rightarrow> bool" where
  "gs_sound gs \<longleftrightarrow> gs_ok gs \<and> (\<forall>g \<in> set (gs_gps gs). lz_ok g)"

text \<open>\<open>add_cleanup\<close>: a scope of the coroutine's own when there is none.\<close>

definition add_cleanup :: "'r group_stack \<Rightarrow> 'r group_stack" where
  "add_cleanup gs = gs_add (if gs_empty gs then gs_push gs else gs)"

text \<open>\<open>cleanup()\<close>: a new \<open>until_all_done\<close> operation on the scopes.\<close>

definition cleanup :: "'r group_stack \<Rightarrow> 'r group_stack" where
  "cleanup gs = gs\<lparr>gs_err := None, gs_cont := False, gs_resumed := 0\<rparr>"

text \<open>\<open>is_failed\<close> and \<open>emplace_err\<close> of the cleanup operation: its error replaces the result.\<close>

definition note_cleanup_err ::
  "(errc \<Rightarrow> 'e) \<Rightarrow> ('o, 'v, 'e, 'r) coro_frame \<Rightarrow> ('o, 'v, 'e, 'r) coro_frame" where
  "note_cleanup_err ec f =
     (if gs_is_failed (cf_gs f) then
        (case gs_take_result (cf_gs f) of Some e \<Rightarrow> f\<lparr>cf_r := Some (Inl (ec e))\<rparr> | None \<Rightarrow> f)
      else f)"

text \<open>
  The rest of \<open>initiate_cleanup\<close>: take the continuation, destroy the coroutine (the destructor of the
  promise asserts that the scopes are empty), resume. A coroutine that awaited this one takes the
  result, which asserts that there is one.
\<close>

definition destroy_and_resume :: "('o, 'v, 'e, 'r) co_state \<Rightarrow> ('o, 'v, 'e, 'r) co_state" where
  "destroy_and_resume s =
     (case cs_frames s of
        [] \<Rightarrow> s
      | f # F \<Rightarrow>
          (let s1 = co_assert (cf_cont f) (co_assert (gs_empty (pop_untill_non_empty (cf_gs f))) s) in
           case F of
             [] \<Rightarrow> s1\<lparr>cs_frames := [], cs_mode := M_done, cs_root := cf_r f, cs_resumed := Suc (cs_resumed s)\<rparr>
           | g # G \<Rightarrow>
               (case cf_r f of
                  None \<Rightarrow> co_assert False s1
                | Some r \<Rightarrow> s1\<lparr>cs_frames := F, cs_mode := M_run (cf_k g r)\<rparr>)))"

definition initiate_cleanup :: "(errc \<Rightarrow> 'e) \<Rightarrow> ('o, 'v, 'e, 'r) co_state \<Rightarrow> ('o, 'v, 'e, 'r) co_state" where
  "initiate_cleanup ec s =
     (case cs_frames s of
        [] \<Rightarrow> s
      | f # F \<Rightarrow>
          (case gs_initiate False False (cleanup (cf_gs f)) of
             (True, gs) \<Rightarrow> co_goto M_cleanup (co_put (f\<lparr>cf_gs := gs\<rparr>) s)
           | (False, gs) \<Rightarrow> destroy_and_resume (co_put (note_cleanup_err ec (f\<lparr>cf_gs := gs\<rparr>)) s)))"

text \<open>\<open>DSK_RETURN\<close>: \<open>emplace_val\<close> asserts that there is no result yet. \<open>DSK_THROW\<close> and \<open>initiate_throw\<close>.\<close>

definition co_return :: "(errc \<Rightarrow> 'e) \<Rightarrow> 'v \<Rightarrow> ('o, 'v, 'e, 'r) co_state \<Rightarrow> ('o, 'v, 'e, 'r) co_state" where
  "co_return ec v s =
     (case cs_frames s of
        [] \<Rightarrow> s
      | f # F \<Rightarrow> initiate_cleanup ec (co_put (f\<lparr>cf_r := Some (Inr v)\<rparr>) (co_assert (cf_r f = None) s)))"

definition initiate_throw :: "(errc \<Rightarrow> 'e) \<Rightarrow> 'e \<Rightarrow> ('o, 'v, 'e, 'r) co_state \<Rightarrow> ('o, 'v, 'e, 'r) co_state" where
  "initiate_throw ec e s =
     (case cs_frames s of
        [] \<Rightarrow> s
      | f # F \<Rightarrow> initiate_cleanup ec (co_put (f\<lparr>cf_r := Some (Inl e)\<rparr>) s))"

section \<open>The nodes\<close>

text \<open>The cleanup scopes of the innermost frame replaced, with their assertions.\<close>

definition co_put_gs :: "'r group_stack \<Rightarrow> ('o, 'v, 'e, 'r) coro_frame \<Rightarrow> ('o, 'v, 'e, 'r) co_state \<Rightarrow> ('o, 'v, 'e, 'r) co_state" where
  "co_put_gs gs f s = co_assert (gs_sound gs) (co_put (f\<lparr>cf_gs := gs\<rparr>) s)"

text \<open>Await of a task: the coroutine suspends and control goes to the task's frame.\<close>

definition await_task ::
  "('o, 'v, 'e) coro \<Rightarrow> ('e + 'v \<Rightarrow> ('o, 'v, 'e) coro) \<Rightarrow> ('o, 'v, 'e, 'r) coro_frame \<Rightarrow>
   ('o, 'v, 'e, 'r) co_state \<Rightarrow> ('o, 'v, 'e, 'r) co_state" where
  "await_task b k f s =
     (case task_initiate (cf_ss f) (cf_resumer f) coro_new of (P, c) \<Rightarrow>
        co_assert P (co_note O_started
          (s\<lparr>cs_frames := c # f\<lparr>cf_k := k\<rparr> # tl (cs_frames s), cs_mode := M_run b\<rparr>)))"

text \<open>\<open>add_parent_cleanup\<close>: asserts that the task was started by a coroutine.\<close>

definition add_parent_cleanup :: "('o, 'v, 'e, 'r) co_state \<Rightarrow> ('o, 'v, 'e, 'r) co_state" where
  "add_parent_cleanup s =
     (case cs_frames s of
        f # g # F \<Rightarrow>
          (let gs = add_cleanup (cf_gs g)
           in co_assert (gs_sound gs) (s\<lparr>cs_frames := f # g\<lparr>cf_gs := gs\<rparr> # F\<rparr>))
      | _ \<Rightarrow> co_assert False s)"

text \<open>
  \<open>until_all_done\<close> of a scope's guard, awaited: the top group is started, or has nothing to do; then
  \<open>take_result\<close> drops its operations.
\<close>

definition scope_clean ::
  "(errc option \<Rightarrow> ('o, 'v, 'e) coro) \<Rightarrow> ('o, 'v, 'e, 'r) coro_frame \<Rightarrow> ('o, 'v, 'e, 'r) co_state \<Rightarrow>
   ('o, 'v, 'e, 'r) co_state" where
  "scope_clean k f s =
     (case gs_gps (cf_gs f) of
        [] \<Rightarrow> co_assert False s
      | g # gs \<Rightarrow>
          (case lz_initiate False g of
             (True, g') \<Rightarrow> co_goto (M_scope k) (co_put_gs ((cf_gs f)\<lparr>gs_gps := g' # gs\<rparr>) f s)
           | (False, g') \<Rightarrow>
               (case lz_take_result g' of (err, g'') \<Rightarrow>
                  co_goto (M_run (k err)) (co_put_gs ((cf_gs f)\<lparr>gs_gps := g'' # gs\<rparr>) f s))))"

text \<open>What the queries give; \<open>request_stop\<close> is true for the call that made the request.\<close>

definition ask :: "query \<Rightarrow> stop_source \<Rightarrow> ident set \<Rightarrow> bool \<times> ident set" where
  "ask q ss stop =
     (case (q, ss) of
        (_, None) \<Rightarrow> (False, stop)
      | (Q_stop_possible, Some i) \<Rightarrow> (True, stop)
      | (Q_stop_requested, Some i) \<Rightarrow> (i \<in> stop, stop)
      | (Q_request_stop, Some i) \<Rightarrow> (i \<notin> stop, insert i stop))"

text \<open>The coroutine runs a node that needs nothing from outside.\<close>

fun co_node ::
  "(errc \<Rightarrow> 'e) \<Rightarrow> ('o, 'v, 'e) coro \<Rightarrow> ('o, 'v, 'e, 'r) coro_frame \<Rightarrow> ('o, 'v, 'e, 'r) co_state \<Rightarrow>
   ('o, 'v, 'e, 'r) co_state option" where
  "co_node ec (Co_return v) f s = Some (co_return ec v s)"
| "co_node ec (Co_throw e) f s = Some (initiate_throw ec e s)"
| "co_node ec Co_fall_off f s = Some (co_goto M_aborted s)"
| "co_node ec (Co_check r k) f s =
     (case r of Inl e \<Rightarrow> Some (initiate_throw ec e s) | Inr v \<Rightarrow> Some (co_goto (M_run (k v)) s))"
| "co_node ec (Co_await op k) f s = None"
| "co_node ec (Co_await_task b k) f s = Some (await_task b k f s)"
| "co_node ec (Co_yield v b) f s =
     (if tl (cs_frames s) = [] then Some (co_goto (M_yielded b) (co_note (O_yield v) s)) else None)"
| "co_node ec (Co_add_cleanup b) f s = Some (co_goto (M_run b) (co_put_gs (add_cleanup (cf_gs f)) f s))"
| "co_node ec (Co_add_parent_cleanup b) f s = Some (co_goto (M_run b) (add_parent_cleanup s))"
| "co_node ec (Co_scope_begin b) f s = Some (co_goto (M_run b) (co_put_gs (gs_push (cf_gs f)) f s))"
| "co_node ec (Co_scope_clean k) f s = Some (scope_clean k f s)"
| "co_node ec (Co_scope_end b) f s = Some (co_goto (M_run b) (co_put_gs (gs_guard_end (cf_gs f)) f s))"
| "co_node ec (Co_query q k) f s =
     (case ask q (cf_ss f) (cs_stop s) of (x, stop) \<Rightarrow>
        Some (co_goto (M_run (k x)) (co_note (O_bool x) (s\<lparr>cs_stop := stop\<rparr>))))"
| "co_node ec (Co_get_stop_source k) f s =
     Some (co_goto (M_run (k (cf_ss f))) (co_note (O_stop_source (cf_ss f)) s))"
| "co_node ec (Co_set_stop_source ss b) f s = Some (co_goto (M_run b) (co_put (f\<lparr>cf_ss := ss\<rparr>) s))"
| "co_node ec (Co_get_resumer k) f s =
     Some (co_goto (M_run (k (cf_resumer f))) (co_note (O_resumer (cf_resumer f)) s))"
| "co_node ec (Co_set_resumer rs b) f s = Some (co_goto (M_run b) (co_put (f\<lparr>cf_resumer := rs\<rparr>) s))"

section \<open>Steps\<close>

text \<open>
  \<open>Co_tick\<close> runs the node the coroutine has come to. An awaited operation is ready at once
  (\<open>is_immediate\<close>, or \<open>initiate\<close> returns false) or suspends the coroutine and finishes later. A
  generator that has yielded a value goes on when its consumer asks for the next one. The call of
  a coroutine may fail to allocate its frame: the task is then finished before it is awaited.
  \<open>Co_cleanup_event\<close> is a step of the scope's group that runs; \<open>Co_stop i\<close> a stop request from outside.
\<close>

datatype ('v, 'e, 'r) co_event =
    Co_tick
  | Co_ready "'e + 'v"
  | Co_suspend
  | Co_finish "'e + 'v"
  | Co_next
  | Co_no_memory
  | Co_cleanup_event "'r lz_event"
  | Co_stop ident

definition co_note_finish :: "'r lz_event \<Rightarrow> ('o, 'v, 'e, 'r) co_state \<Rightarrow> ('o, 'v, 'e, 'r) co_state" where
  "co_note_finish lev s = (case lev of Lz_finish i r \<Rightarrow> co_note (O_clean r) s | _ \<Rightarrow> s)"

text \<open>A step of the scope's group that \<open>until_all_done\<close> of its guard waits for.\<close>

definition scope_event ::
  "('r \<Rightarrow> bool) \<Rightarrow> 'r lz_event \<Rightarrow> (errc option \<Rightarrow> ('o, 'v, 'e) coro) \<Rightarrow> ('o, 'v, 'e, 'r) coro_frame \<Rightarrow>
   ('o, 'v, 'e, 'r) co_state \<Rightarrow> ('o, 'v, 'e, 'r) co_state option" where
  "scope_event failed lev k f s =
     (case gs_gps (cf_gs f) of
        [] \<Rightarrow> None
      | g # gs \<Rightarrow>
          (case lz_step failed lev g of
             None \<Rightarrow> None
           | Some g' \<Rightarrow>
               Some (co_note_finish lev
                 (if lz_resumed g < lz_resumed g'
                  then (case lz_take_result g' of (err, g'') \<Rightarrow>
                          co_goto (M_run (k err)) (co_put_gs ((cf_gs f)\<lparr>gs_gps := g'' # gs\<rparr>) f s))
                  else co_put_gs ((cf_gs f)\<lparr>gs_gps := g' # gs\<rparr>) f s))))"

text \<open>A step of the cleanup of the whole coroutine; when it is over, \<open>initiate_cleanup\<close>'s lambda runs.\<close>

definition cleanup_event ::
  "(errc \<Rightarrow> 'e) \<Rightarrow> ('r \<Rightarrow> bool) \<Rightarrow> 'r lz_event \<Rightarrow> ('o, 'v, 'e, 'r) coro_frame \<Rightarrow>
   ('o, 'v, 'e, 'r) co_state \<Rightarrow> ('o, 'v, 'e, 'r) co_state option" where
  "cleanup_event ec failed lev f s =
     (case gs_step failed False lev (cf_gs f) of
        None \<Rightarrow> None
      | Some gs \<Rightarrow>
          Some (if gs_resumed (cf_gs f) < gs_resumed gs
                then destroy_and_resume (co_note_finish lev (co_put (note_cleanup_err ec (f\<lparr>cf_gs := gs\<rparr>)) s))
                else co_note_finish lev (co_put_gs gs f s)))"

fun co_step ::
  "(errc \<Rightarrow> 'e) \<Rightarrow> ('r \<Rightarrow> bool) \<Rightarrow> ('v, 'e, 'r) co_event \<Rightarrow> ('o, 'v, 'e, 'r) co_state \<Rightarrow>
   ('o, 'v, 'e, 'r) co_state option" where
  "co_step ec failed Co_tick s =
     (case (cs_mode s, cs_frames s) of (M_run b, f # F) \<Rightarrow> co_node ec b f s | _ \<Rightarrow> None)"
| "co_step ec failed (Co_ready r) s =
     (case cs_mode s of M_run (Co_await op k) \<Rightarrow> Some (co_goto (M_run (k r)) (co_note (O_res r) s)) | _ \<Rightarrow> None)"
| "co_step ec failed Co_suspend s =
     (case cs_mode s of M_run (Co_await op k) \<Rightarrow> Some (co_goto (M_await k) s) | _ \<Rightarrow> None)"
| "co_step ec failed (Co_finish r) s =
     (case cs_mode s of M_await k \<Rightarrow> Some (co_goto (M_run (k r)) (co_note (O_res r) s)) | _ \<Rightarrow> None)"
| "co_step ec failed Co_next s =
     (case cs_mode s of M_yielded b \<Rightarrow> Some (co_goto (M_run b) s) | _ \<Rightarrow> None)"
| "co_step ec failed Co_no_memory s =
     (case cs_mode s of
        M_run (Co_await_task b k) \<Rightarrow>
          Some (co_goto (M_run (k (Inl (ec errc_allocation_failed)))) (co_note O_alloc_failed s))
      | _ \<Rightarrow> None)"
| "co_step ec failed (Co_cleanup_event lev) s =
     (case (cs_mode s, cs_frames s) of
        (M_scope k, f # F) \<Rightarrow> scope_event failed lev k f s
      | (M_cleanup, f # F) \<Rightarrow> cleanup_event ec failed lev f s
      | _ \<Rightarrow> None)"
| "co_step ec failed (Co_stop i) s = Some (s\<lparr>cs_stop := insert i (cs_stop s)\<rparr>)"

fun co_exec ::
  "(errc \<Rightarrow> 'e) \<Rightarrow> ('r \<Rightarrow> bool) \<Rightarrow> ('v, 'e, 'r) co_event list \<Rightarrow> ('o, 'v, 'e, 'r) co_state \<Rightarrow>
   ('o, 'v, 'e, 'r) co_state option" where
  "co_exec ec failed [] s = Some s"
| "co_exec ec failed (ev # evs) s =
     (case co_step ec failed ev s of None \<Rightarrow> None | Some s' \<Rightarrow> co_exec ec failed evs s')"

text \<open>\<open>sync_wait\<close>: the latch opens when the continuation is called; then the result is taken.\<close>

definition sync_wait_result :: "('o, 'v, 'e, 'r) co_state \<Rightarrow> ('e + 'v) option" where
  "sync_wait_result s = (if cs_resumed s = 0 then None else cs_root s)"

end
