(* ===== verification/Coro_Inv.thy ===== *)
theory Coro_Inv
  imports Coro Async_Group_Props
begin

text \<open>
  The invariant of a chain of coroutine tasks: what holds of the frames, the cleanup scopes and the
  result between any two steps, for bodies that use scopes as the macros do. Every step keeps it, and
  it gives the assertions of \<open>task.hpp\<close> and of the scopes.
\<close>

abbreviation cleanup_failed :: errc where
  "cleanup_failed \<equiv> errc_one_or_more_cleanup_ops_failed"

section \<open>Well-scoped bodies\<close>

text \<open>
  The role of a coroutine: started by no coroutine, or by one that can take no cleanup operation; a
  generator, which may yield; or started by a coroutine that can take one. \<open>d\<close> is the number of guards that
  are open, \<open>c\<close> tells whether the operations of the innermost one have been waited for: then its block ends.
\<close>

datatype role = Plain | Generator | Child

definition child_role :: "bool \<Rightarrow> role" where
  "child_role c = (if c then Plain else Child)"

lemma child_role_simps [simp]:
  "child_role c = Child \<longleftrightarrow> \<not> c" "Child = child_role c \<longleftrightarrow> \<not> c" "child_role c \<noteq> Generator" "Generator \<noteq> child_role c"
  by (simp_all add: child_role_def)

primrec scoped :: "('o, 'v, 'e) coro \<Rightarrow> role \<Rightarrow> nat \<Rightarrow> bool \<Rightarrow> bool" where
  "scoped (Co_return v) p d c \<longleftrightarrow> True"
| "scoped (Co_throw e) p d c \<longleftrightarrow> True"
| "scoped Co_fall_off p d c \<longleftrightarrow> False"
| "scoped (Co_check r k) p d c \<longleftrightarrow> (\<forall>v. scoped (k v) p d c)"
| "scoped (Co_await op k) p d c \<longleftrightarrow> (\<forall>r. scoped (k r) p d c)"
| "scoped (Co_await_task b k) p d c \<longleftrightarrow> scoped b (child_role c) 0 False \<and> (\<forall>r. scoped (k r) p d c)"
| "scoped (Co_yield v b) p d c \<longleftrightarrow> p = Generator \<and> scoped b p d c"
| "scoped (Co_add_cleanup b) p d c \<longleftrightarrow> \<not> c \<and> scoped b p d c"
| "scoped (Co_add_parent_cleanup b) p d c \<longleftrightarrow> p = Child \<and> scoped b p d c"
| "scoped (Co_scope_begin b) p d c \<longleftrightarrow> \<not> c \<and> scoped b p (Suc d) False"
| "scoped (Co_scope_clean k) p d c \<longleftrightarrow> \<not> c \<and> 0 < d \<and> (\<forall>r. scoped (k r) p d True)"
| "scoped (Co_scope_end b) p d c \<longleftrightarrow> c \<and> 0 < d \<and> scoped b p (d - 1) False"
| "scoped (Co_query q k) p d c \<longleftrightarrow> (\<forall>x. scoped (k x) p d c)"
| "scoped (Co_get_stop_source k) p d c \<longleftrightarrow> (\<forall>x. scoped (k x) p d c)"
| "scoped (Co_set_stop_source ss b) p d c \<longleftrightarrow> scoped b p d c"
| "scoped (Co_get_resumer k) p d c \<longleftrightarrow> (\<forall>x. scoped (k x) p d c)"
| "scoped (Co_set_resumer rs b) p d c \<longleftrightarrow> scoped b p d c"

section \<open>Frames\<close>

text \<open>The groups under \<open>d\<close> guards, with the one that \<open>add_cleanup\<close> made when there was none.\<close>

definition gps_ok :: "nat \<Rightarrow> bool \<Rightarrow> 'r lazy_group list \<Rightarrow> bool" where
  "gps_ok d c gps \<longleftrightarrow>
     (length gps = d \<or> length gps = Suc d) \<and>
     (if c then 0 < d \<and> lz_ok (hd gps) \<and> lz_ops (hd gps) = [] \<and> (\<forall>h \<in> set (tl gps). lz_fresh cleanup_failed h)
      else (\<forall>h \<in> set gps. lz_fresh cleanup_failed h))"

definition frame_live :: "('o, 'v, 'e, 'r) coro_frame \<Rightarrow> bool" where
  "frame_live f \<longleftrightarrow> cf_cont f \<and> gs_ok (cf_gs f) \<and> gs_Err (cf_gs f) = cleanup_failed"

definition frame_ok :: "nat \<Rightarrow> bool \<Rightarrow> ('o, 'v, 'e, 'r) coro_frame \<Rightarrow> bool" where
  "frame_ok d c f \<longleftrightarrow> frame_live f \<and> cf_r f = None \<and> gps_ok d c (gs_gps (cf_gs f))"

text \<open>The coroutines that wait, the one that awaits the running one first.\<close>

fun frames_ok :: "('o, 'v, 'e, 'r) coro_frame list \<Rightarrow> role \<Rightarrow> bool" where
  "frames_ok [] p \<longleftrightarrow> p \<noteq> Child"
| "frames_ok (f # F) p \<longleftrightarrow>
     (\<exists>d c q. frame_ok d c f \<and> frames_ok F q \<and> (\<forall>r. scoped (cf_k f r) q d c) \<and> p = child_role c)"

lemma frames_ok_generator: "frames_ok F Generator \<longleftrightarrow> F = []"
  by (cases F) auto

section \<open>The invariant\<close>

definition scope_running :: "('r \<Rightarrow> bool) \<Rightarrow> nat \<Rightarrow> 'r lazy_group list \<Rightarrow> bool" where
  "scope_running failed d gps \<longleftrightarrow>
     (length gps = d \<or> length gps = Suc d) \<and>
     (case gps of
        [] \<Rightarrow> False
      | g # gs \<Rightarrow>
          lz_inv failed g \<and> ch_open (lz_ops g) \<noteq> 0 \<and> lz_Err g = cleanup_failed \<and>
          (\<forall>h \<in> set gs. lz_fresh cleanup_failed h))"

definition cleanup_running :: "('r \<Rightarrow> bool) \<Rightarrow> 'r group_stack \<Rightarrow> bool" where
  "cleanup_running failed gs \<longleftrightarrow>
     gs_gps gs \<noteq> [] \<and>
     (\<exists>G. gs_inv failed cleanup_failed G gs \<and> (\<forall>h \<in> set G. lz_fresh cleanup_failed h))"

definition mode_ok ::
  "('r \<Rightarrow> bool) \<Rightarrow> ('o, 'v, 'e) co_mode \<Rightarrow> ('o, 'v, 'e, 'r) coro_frame \<Rightarrow> role \<Rightarrow> bool" where
  "mode_ok failed m f p \<longleftrightarrow>
     (case m of
        M_run b \<Rightarrow> \<exists>d c. frame_ok d c f \<and> scoped b p d c
      | M_await k \<Rightarrow> \<exists>d c. frame_ok d c f \<and> (\<forall>r. scoped (k r) p d c)
      | M_yielded b \<Rightarrow> p = Generator \<and> (\<exists>d c. frame_ok d c f \<and> scoped b p d c)
      | M_scope k \<Rightarrow>
          frame_live f \<and> cf_r f = None \<and>
          (\<exists>d. 0 < d \<and> scope_running failed d (gs_gps (cf_gs f)) \<and> (\<forall>r. scoped (k r) p d True))
      | M_cleanup \<Rightarrow> frame_live f \<and> cf_r f \<noteq> None \<and> cleanup_running failed (cf_gs f)
      | _ \<Rightarrow> False)"

definition co_inv :: "('r \<Rightarrow> bool) \<Rightarrow> ('o, 'v, 'e, 'r) co_state \<Rightarrow> bool" where
  "co_inv failed s \<longleftrightarrow>
     cs_ok s \<and>
     (case cs_frames s of
        [] \<Rightarrow> cs_mode s = M_done \<and> cs_resumed s = 1 \<and> cs_root s \<noteq> None
      | f # F \<Rightarrow>
          cs_resumed s = 0 \<and> cs_root s = None \<and> (\<exists>p. frames_ok F p \<and> mode_ok failed (cs_mode s) f p))"

lemma co_invI:
  assumes "cs_ok s" "cs_frames s = f # F" "cs_resumed s = 0" "cs_root s = None" "frames_ok F p"
    "mode_ok failed (cs_mode s) f p"
  shows "co_inv failed s"
  using assms by (auto simp: co_inv_def)

lemma co_invE:
  assumes "co_inv failed s" "cs_frames s = f # F"
  obtains p where "cs_ok s" "cs_resumed s = 0" "cs_root s = None" "frames_ok F p" "mode_ok failed (cs_mode s) f p"
  using assms by (auto simp: co_inv_def)

section \<open>Scopes\<close>

lemma fresh_ok: "lz_fresh E g \<Longrightarrow> lz_ok g"
  by (simp add: lz_fresh_def)

lemma gps_ok_sound: "gps_ok d c (gs_gps gs) \<Longrightarrow> gs_ok gs \<Longrightarrow> gs_sound gs"
  by (cases "gs_gps gs") (auto simp: gps_ok_def gs_sound_def fresh_ok split: if_splits)

lemma gps_ok_add:
  assumes "gps_ok d False (gs_gps gs)" "gs_ok gs" "gs_Err gs = cleanup_failed"
  shows "gps_ok d False (gs_gps (add_cleanup gs)) \<and> gs_ok (add_cleanup gs) \<and> gs_Err (add_cleanup gs) = cleanup_failed"
proof (cases "gs_gps gs")
  case Nil
  then show ?thesis
    using assms
    by (simp add: lz_fresh_add [OF conjunct1 [OF lz_fresh_new]] add_cleanup_def gs_empty_def gs_push_def gs_add_def gps_ok_def)
next
  case (Cons g rest)
  then show ?thesis
    using assms lz_fresh_add [of cleanup_failed g]
    by (auto simp: add_cleanup_def gs_empty_def gs_add_def gps_ok_def)
qed

lemma gps_ok_push:
  assumes "gps_ok d False (gs_gps gs)" "gs_ok gs" "gs_Err gs = cleanup_failed"
  shows "gps_ok (Suc d) False (gs_gps (gs_push gs)) \<and> gs_ok (gs_push gs) \<and> gs_Err (gs_push gs) = cleanup_failed"
  using assms lz_fresh_new [of cleanup_failed] by (auto simp: gps_ok_def gs_push_def)

lemma gps_ok_end:
  assumes "gps_ok d True (gs_gps gs)" "gs_ok gs" "gs_Err gs = cleanup_failed"
  shows "gps_ok (d - 1) False (gs_gps (gs_guard_end gs)) \<and> gs_ok (gs_guard_end gs) \<and>
    gs_Err (gs_guard_end gs) = cleanup_failed"
  using assms
  by (cases "gs_gps gs") (auto simp: gps_ok_def gs_guard_end_def gs_pop_def gs_assert_def lz_empty_def)

text \<open>The whole cleanup starts with the first group that has operations, or there is none.\<close>

lemma cleanup_start:
  assumes "gps_ok d c (gs_gps gs)" "gs_ok gs" "gs_Err gs = cleanup_failed"
  shows "case gs_initiate False False (cleanup gs) of
      (True, gs') \<Rightarrow> cleanup_running failed gs' \<and> gs_ok gs' \<and> gs_Err gs' = cleanup_failed \<and> \<not> gs_bad failed gs' \<and>
        map lz_ops (gs_gps gs') = map lz_ops (drop_empty (gs_gps gs)) \<and> drop_empty (gs_gps gs) \<noteq> []
    | (False, gs') \<Rightarrow> gs_gps gs' = [] \<and> drop_empty (gs_gps gs) = [] \<and> gs_err gs' = None \<and> gs_ok gs' \<and> gs_Err gs' = cleanup_failed"
proof -
  define G where "G = (if c then tl (gs_gps gs) else gs_gps gs)"
  let ?s = "(cleanup gs)\<lparr>gs_gps := G\<rparr>"
  have G: "\<forall>h \<in> set G. lz_fresh cleanup_failed h"
    using assms(1) by (auto simp: gps_ok_def G_def)
  have d: "drop_empty (gs_gps gs) = drop_empty G"
    using assms(1) by (cases "gs_gps gs") (auto simp: gps_ok_def G_def lz_empty_def)
  have e: "gs_initiate False False (cleanup gs) = gs_initiate False False ?s"
    by (simp add: gs_initiate_def pop_untill_non_empty_def cleanup_def d Let_def)
  show ?thesis
  proof (cases "drop_empty G")
    case Nil
    then show ?thesis
      unfolding e using assms d by (simp add: gs_initiate_def pop_untill_non_empty_def cleanup_def Let_def)
  next
    case (Cons h hs)
    then have ex: "\<exists>g \<in> set G. lz_ops g \<noteq> []"
      using drop_empty_suffix [OF Cons] by (metis nth_mem)
    obtain j where j: "j < length G" "G ! j = h" "lz_ops h \<noteq> []"
      using drop_empty_suffix [OF Cons] by blast
    have f: "lz_fresh cleanup_failed h"
      using G j by (metis nth_mem)
    note i = gs_initiate_inv [of ?s G cleanup_failed failed]
    have i': "fst (gs_initiate False False ?s) \<and> gs_inv failed cleanup_failed G (snd (gs_initiate False False ?s)) \<and>
        \<not> gs_bad failed (snd (gs_initiate False False ?s))"
      using i G ex assms(3) by (simp add: cleanup_def)
    have st: "gs_gps (snd (gs_initiate False False ?s)) = snd (lz_initiate False h) # hs"
      "gs_ok (snd (gs_initiate False False ?s)) = gs_ok gs" "gs_Err (snd (gs_initiate False False ?s)) = gs_Err gs"
      using Cons by (simp_all add: gs_initiate_def pop_untill_non_empty_def cleanup_def Let_def split: prod.splits)
    have o: "lz_ops (snd (lz_initiate False h)) = lz_ops h"
      using lz_initiate_inv [OF f j(3)] by blast
    show ?thesis
      unfolding e using i' st o G assms d Cons
      by (auto simp: cleanup_running_def split: prod.splits bool.splits)
  qed
qed


section \<open>The end of a coroutine\<close>

lemmas co_updates = co_put_def co_goto_def co_assert_def co_note_def co_put_gs_def

lemma destroy_and_resume_inv:
  assumes "cs_frames s = f # F" "frames_ok F p" "cs_ok s" "cf_cont f" "drop_empty (gs_gps (cf_gs f)) = []"
    "cf_r f \<noteq> None" "cs_resumed s = 0" "cs_root s = None"
  shows "co_inv failed (destroy_and_resume s)"
proof -
  obtain r where r: "cf_r f = Some r"
    using assms(6) by blast
  show ?thesis
  proof (cases F)
    case Nil
    then show ?thesis
      using assms r
      by (simp add: destroy_and_resume_def co_inv_def co_assert_def gs_empty_def pop_untill_non_empty_def Let_def)
  next
    case (Cons g G)
    then obtain d c q where g: "frame_ok d c g" "frames_ok G q" "\<forall>r. scoped (cf_k g r) q d c"
      using assms(2) by auto
    then have "mode_ok failed (M_run (cf_k g r)) g q"
      by (auto simp: mode_ok_def)
    then show ?thesis
      using assms r Cons g(2)
      by (auto simp: destroy_and_resume_def co_assert_def gs_empty_def pop_untill_non_empty_def Let_def co_inv_def)
  qed
qed

lemma initiate_cleanup_inv:
  assumes "cs_frames s = f # F" "frames_ok F p" "cs_ok s" "frame_live f" "gps_ok d c (gs_gps (cf_gs f))"
    "cf_r f \<noteq> None" "cs_resumed s = 0" "cs_root s = None"
  shows "co_inv failed (initiate_cleanup ec s)"
proof -
  obtain b gs where i: "gs_initiate False False (cleanup (cf_gs f)) = (b, gs)"
    by fastforce
  have st: "case (b, gs) of
      (True, gs') \<Rightarrow> cleanup_running failed gs' \<and> gs_ok gs' \<and> gs_Err gs' = cleanup_failed \<and> \<not> gs_bad failed gs' \<and>
        map lz_ops (gs_gps gs') = map lz_ops (drop_empty (gs_gps (cf_gs f))) \<and> drop_empty (gs_gps (cf_gs f)) \<noteq> []
    | (False, gs') \<Rightarrow> gs_gps gs' = [] \<and> drop_empty (gs_gps (cf_gs f)) = [] \<and> gs_err gs' = None \<and> gs_ok gs' \<and> gs_Err gs' = cleanup_failed"
    using cleanup_start [of d c "cf_gs f" failed] assms(4,5) i by (simp add: frame_live_def)
  show ?thesis
  proof (cases b)
    case True
    then have "mode_ok failed M_cleanup (f\<lparr>cf_gs := gs\<rparr>) p"
      using st assms(4,6) by (simp add: mode_ok_def frame_live_def)
    then show ?thesis
      using assms True i by (auto simp: initiate_cleanup_def co_updates co_inv_def)
  next
    case False
    let ?f = "f\<lparr>cf_gs := gs\<rparr>"
    have "note_cleanup_err ec ?f = ?f"
      using st False by (simp add: note_cleanup_err_def gs_is_failed_def has_err_code_def)
    then have "initiate_cleanup ec s = destroy_and_resume (co_put ?f s)"
      using assms(1) False i by (simp add: initiate_cleanup_def)
    moreover have "co_inv failed (destroy_and_resume (co_put ?f s))"
      using assms False st
      by (intro destroy_and_resume_inv [where f = ?f and F = F and p = p]) (simp_all add: co_put_def frame_live_def)
    ultimately show ?thesis
      by simp
  qed
qed

lemma co_return_inv:
  assumes "cs_frames s = f # F" "frames_ok F p" "cs_ok s" "frame_ok d c f" "cs_resumed s = 0" "cs_root s = None"
  shows "co_inv failed (co_return ec v s)"
proof -
  have "co_return ec v s = initiate_cleanup ec (co_put (f\<lparr>cf_r := Some (Inr v)\<rparr>) (co_assert (cf_r f = None) s))"
    using assms(1) by (simp add: co_return_def)
  moreover have "co_inv failed \<dots>"
    using assms by (intro initiate_cleanup_inv [where d = d and c = c and p = p])
      (auto simp: co_put_def co_assert_def frame_ok_def frame_live_def)
  ultimately show ?thesis
    by simp
qed

lemma initiate_throw_inv:
  assumes "cs_frames s = f # F" "frames_ok F p" "cs_ok s" "frame_ok d c f" "cs_resumed s = 0" "cs_root s = None"
  shows "co_inv failed (initiate_throw ec e s)"
proof -
  have "initiate_throw ec e s = initiate_cleanup ec (co_put (f\<lparr>cf_r := Some (Inl e)\<rparr>) s)"
    using assms(1) by (simp add: initiate_throw_def)
  moreover have "co_inv failed \<dots>"
    using assms by (intro initiate_cleanup_inv [where d = d and c = c and p = p])
      (auto simp: co_put_def frame_ok_def frame_live_def)
  ultimately show ?thesis
    by simp
qed

section \<open>Steps\<close>

lemma frame_ok_put: "frame_ok d c (f\<lparr>cf_ss := ss\<rparr>) = frame_ok d c f" "frame_ok d c (f\<lparr>cf_resumer := rs\<rparr>) = frame_ok d c f"
  "frame_ok d c (f\<lparr>cf_k := k\<rparr>) = frame_ok d c f"
  by (simp_all add: frame_ok_def frame_live_def)

lemma frame_ok_gs:
  assumes "frame_ok d c f" "gps_ok d' c' (gs_gps gs) \<and> gs_ok gs \<and> gs_Err gs = cleanup_failed"
  shows "frame_ok d' c' (f\<lparr>cf_gs := gs\<rparr>) \<and> gs_sound gs"
  using assms gps_ok_sound [of d' c' gs] by (simp add: frame_ok_def frame_live_def)

lemma frame_okD:
  "frame_ok d c f \<Longrightarrow> gps_ok d c (gs_gps (cf_gs f))" "frame_ok d c f \<Longrightarrow> gs_ok (cf_gs f)"
  "frame_ok d c f \<Longrightarrow> gs_Err (cf_gs f) = cleanup_failed"
  by (simp_all add: frame_ok_def frame_live_def)

lemma frame_ok_new: "task_initiate ss rs coro_new = (P, f) \<Longrightarrow> P \<and> frame_ok 0 False f"
  by (auto simp: task_initiate_def coro_new_def frame_ok_def frame_live_def gps_ok_def gs_new_def)

text \<open>The running frame goes on, with other scopes, another stop source or another resumer.\<close>

lemma go_on_inv:
  assumes "cs_frames s = f # F" "frames_ok F p" "cs_ok s" "cs_resumed s = 0" "cs_root s = None"
    "frame_ok d c f" "scoped b p d c"
  shows "co_inv failed (s\<lparr>cs_mode := M_run b\<rparr>)"
  using assms by (auto simp: co_inv_def mode_ok_def)

lemma run_gs_inv:
  assumes "cs_frames s = f # F" "frames_ok F p" "cs_ok s" "cs_resumed s = 0" "cs_root s = None" "frame_ok d c f"
    "gps_ok d' c' (gs_gps gs) \<and> gs_ok gs \<and> gs_Err gs = cleanup_failed" "scoped b p d' c'"
  shows "co_inv failed (co_goto (M_run b) (co_put_gs gs f s))"
proof -
  have "frame_ok d' c' (f\<lparr>cf_gs := gs\<rparr>) \<and> gs_sound gs"
    using frame_ok_gs [OF assms(6,7)] .
  then show ?thesis
    using assms(1-5,8) go_on_inv [of "co_put_gs gs f s" "f\<lparr>cf_gs := gs\<rparr>" F p d' c' b failed]
    by (simp add: co_updates)
qed

lemma await_task_inv:
  assumes "cs_frames s = f # F" "frames_ok F p" "cs_ok s" "cs_resumed s = 0" "cs_root s = None" "frame_ok d c f"
    "scoped b (child_role c) 0 False" "\<forall>r. scoped (k r) p d c"
  shows "co_inv failed (await_task b k f s)"
proof -
  obtain P g where g: "task_initiate (cf_ss f) (cf_resumer f) (coro_new :: ('a, 'b, 'c, 'd) coro_frame) = (P, g)"
    by fastforce
  have F: "frames_ok (f\<lparr>cf_k := k\<rparr> # F) (child_role c)"
    using assms(2,6,8) frame_ok_put(3) by fastforce
  have "mode_ok failed (M_run b) g (child_role c)"
    using assms(7) frame_ok_new [OF g] by (auto simp: mode_ok_def)
  then show ?thesis
    using assms(1-5) g F frame_ok_new [OF g]
    by (auto simp: await_task_def co_assert_def co_note_def co_inv_def simp del: frames_ok.simps)
qed

lemma add_parent_cleanup_inv:
  assumes "cs_frames s = f # F" "frames_ok F Child" "cs_ok s" "cs_resumed s = 0" "cs_root s = None" "frame_ok d c f"
    "scoped b Child d c"
  shows "co_inv failed (co_goto (M_run b) (add_parent_cleanup s))"
proof -
  obtain g G where F: "F = g # G"
    using assms(2) by (cases F) auto
  obtain d' q where g: "frame_ok d' False g" "frames_ok G q" "\<forall>r. scoped (cf_k g r) q d' False"
    using assms(2) F by auto
  let ?gs = "add_cleanup (cf_gs g)"
  have a: "frame_ok d' False (g\<lparr>cf_gs := ?gs\<rparr>) \<and> gs_sound ?gs"
    using frame_ok_gs [OF g(1) gps_ok_add [OF frame_okD [OF g(1)]]] .
  then have "frames_ok (g\<lparr>cf_gs := ?gs\<rparr> # G) Child"
    using g by auto
  then show ?thesis
    using assms F a by (auto simp: add_parent_cleanup_def co_updates co_inv_def mode_ok_def simp del: frames_ok.simps)
qed

lemma hd_tl_Cons: "gs_gps gs = g # rest \<Longrightarrow> gps_ok d False (gs_gps gs) \<Longrightarrow>
    lz_fresh cleanup_failed g \<and> (\<forall>h \<in> set rest. lz_fresh cleanup_failed h)"
  by (simp add: gps_ok_def)

text \<open>A group after its operations have been taken away: what \<open>scoped\<close> calls waited for.\<close>

lemma gps_ok_cleaned:
  assumes "length (g # rest) = d \<or> length (g # rest) = Suc d" "0 < d" "lz_ok g" "lz_ops g = []"
    "\<forall>h \<in> set rest. lz_fresh cleanup_failed h"
  shows "gps_ok d True (g # rest)"
  using assms by (simp add: gps_ok_def)

lemma scope_clean_inv:
  assumes "cs_frames s = f # F" "frames_ok F p" "cs_ok s" "cs_resumed s = 0" "cs_root s = None" "frame_ok d False f"
    "0 < d" "\<forall>r. scoped (k r) p d True"
  shows "co_inv failed (scope_clean k f s)"
proof -
  note ok = frame_okD [OF assms(6)]
  obtain g rest where g: "gs_gps (cf_gs f) = g # rest"
    using ok(1) assms(7) by (cases "gs_gps (cf_gs f)") (auto simp: gps_ok_def)
  have fr: "lz_fresh cleanup_failed g" "\<forall>h \<in> set rest. lz_fresh cleanup_failed h"
    and len: "length (g # rest) = d \<or> length (g # rest) = Suc d"
    using hd_tl_Cons [OF g ok(1)] ok(1) by (auto simp: gps_ok_def g)
  show ?thesis
  proof (cases "lz_ops g = []")
    case True
    then have i: "lz_initiate False g = (False, g)"
      using fr by (simp add: lz_initiate_def lz_assert_def lz_fresh_def has_err_code_def Let_def)
    let ?gs = "(cf_gs f)\<lparr>gs_gps := g\<lparr>lz_ops := []\<rparr> # rest\<rparr>"
    have "gps_ok d True (gs_gps ?gs) \<and> gs_ok ?gs \<and> gs_Err ?gs = cleanup_failed"
      using gps_ok_cleaned [of "g\<lparr>lz_ops := []\<rparr>" rest d] fr len assms(7) ok(2,3) by (simp add: lz_fresh_def)
    then show ?thesis
      using run_gs_inv [OF assms(1-6), of d True ?gs] assms(8) g i
      by (simp add: scope_clean_def lz_take_result_def)
  next
    case False
    obtain x g' where i: "lz_initiate False g = (x, g')"
      by fastforce
    then have i': "x" "lz_inv failed g'" "lz_ops g' = lz_ops g" "lz_Err g' = cleanup_failed"
      using lz_initiate_inv [OF fr(1) False, of failed] by simp_all
    let ?gs = "(cf_gs f)\<lparr>gs_gps := g' # rest\<rparr>"
    have "scope_running failed d (gs_gps ?gs)"
      using i' lz_started_open [OF fr(1) False] fr(2) len by (simp add: scope_running_def)
    then have "mode_ok failed (M_scope k) (f\<lparr>cf_gs := ?gs\<rparr>) p"
      using assms(6-8) by (auto simp: mode_ok_def frame_live_def frame_ok_def)
    moreover have "gs_sound ?gs"
      using i'(2) fr(2) ok(2) by (auto simp: gs_sound_def lz_inv_def fresh_ok)
    ultimately show ?thesis
      using assms(1-5) g i i'(1) by (auto simp: scope_clean_def co_updates co_inv_def)
  qed
qed

lemma co_node_inv:
  assumes "cs_frames s = f # F" "frames_ok F p" "cs_ok s" "cs_resumed s = 0" "cs_root s = None" "frame_ok d c f"
    "scoped b p d c" "co_node ec b f s = Some s'"
  shows "co_inv failed s'"
proof (cases b)
  case (Co_check r k)
  then show ?thesis
    using assms initiate_throw_inv [OF assms(1-3,6,4,5)] go_on_inv [OF assms(1-6)]
    by (cases r) (auto simp: co_goto_def)
next
  case (Co_add_cleanup b')
  then have c: "c = False"
    using assms(7) by simp
  show ?thesis
    using run_gs_inv [OF assms(1-6), of "d" False "add_cleanup (cf_gs f)" b'] gps_ok_add [of d "cf_gs f"]
      frame_okD [OF assms(6)] assms(7,8) Co_add_cleanup c by simp
next
  case (Co_add_parent_cleanup b')
  then show ?thesis
    using add_parent_cleanup_inv [OF assms(1) _ assms(3-6), of b'] assms(2,7,8) by auto
next
  case (Co_scope_begin b')
  then have c: "c = False"
    using assms(7) by simp
  show ?thesis
    using run_gs_inv [OF assms(1-6), of "Suc d" False "gs_push (cf_gs f)" b'] gps_ok_push [of d "cf_gs f"]
      frame_okD [OF assms(6)] assms(7,8) Co_scope_begin c by simp
next
  case (Co_scope_end b')
  then have c: "c = True"
    using assms(7) by simp
  show ?thesis
    using run_gs_inv [OF assms(1-6), of "d - 1" False "gs_guard_end (cf_gs f)" b'] gps_ok_end [of d "cf_gs f"]
      frame_okD [OF assms(6)] assms(7,8) Co_scope_end c by simp
next
  case (Co_scope_clean k)
  then have c: "c = False"
    using assms(7) by simp
  show ?thesis
    using scope_clean_inv [OF assms(1-5), of d k] assms(6-8) Co_scope_clean c by simp
next
  case (Co_query q k)
  obtain x stop where q: "ask q (cf_ss f) (cs_stop s) = (x, stop)"
    by fastforce
  then show ?thesis
    using go_on_inv [of "co_note (O_bool x) (s\<lparr>cs_stop := stop\<rparr>)" f F p d c "k x" failed] assms Co_query
    by (auto simp: co_goto_def co_note_def)
next
  case (Co_get_stop_source k)
  then show ?thesis
    using go_on_inv [of "co_note (O_stop_source (cf_ss f)) s" f F p d c "k (cf_ss f)" failed] assms
    by (auto simp: co_goto_def co_note_def)
next
  case (Co_get_resumer k)
  then show ?thesis
    using go_on_inv [of "co_note (O_resumer (cf_resumer f)) s" f F p d c "k (cf_resumer f)" failed] assms
    by (auto simp: co_goto_def co_note_def)
next
  case (Co_set_stop_source ss b')
  then show ?thesis
    using go_on_inv [of "co_put (f\<lparr>cf_ss := ss\<rparr>) s" "f\<lparr>cf_ss := ss\<rparr>" F p d c b' failed] assms
    by (auto simp: co_goto_def co_put_def frame_ok_put)
next
  case (Co_set_resumer rs b')
  then show ?thesis
    using go_on_inv [of "co_put (f\<lparr>cf_resumer := rs\<rparr>) s" "f\<lparr>cf_resumer := rs\<rparr>" F p d c b' failed] assms
    by (auto simp: co_goto_def co_put_def frame_ok_put)
next
  case (Co_yield v b')
  then show ?thesis
    using assms
    by (auto simp: frames_ok_generator co_updates co_inv_def mode_ok_def split: if_splits intro!: exI [of _ Generator]; blast)
next
  case (Co_await_task b' k)
  then show ?thesis
    using await_task_inv [OF assms(1-6)] assms(7,8) by auto
qed (use assms co_return_inv [OF assms(1-3,6,4,5)] initiate_throw_inv [OF assms(1-3,6,4,5)] in auto)

lemma co_note_finish_simps [simp]:
  "cs_frames (co_note_finish lev s) = cs_frames s" "cs_mode (co_note_finish lev s) = cs_mode s"
  "cs_ok (co_note_finish lev s) = cs_ok s" "cs_resumed (co_note_finish lev s) = cs_resumed s"
  "cs_root (co_note_finish lev s) = cs_root s"
  by (cases lev; simp add: co_note_finish_def co_note_def)+

lemma co_inv_note_finish [simp]: "co_inv failed (co_note_finish lev s) = co_inv failed s"
  by (simp add: co_inv_def split: list.split)

lemma scope_event_inv:
  assumes "cs_frames s = f # F" "frames_ok F p" "cs_ok s" "cs_resumed s = 0" "cs_root s = None"
    "cs_mode s = M_scope k" "mode_ok failed (M_scope k) f p" "scope_event failed lev k f s = Some s'"
  shows "co_inv failed s'"
proof -
  obtain d where f: "frame_live f" "cf_r f = None" and d: "0 < d" "scope_running failed d (gs_gps (cf_gs f))"
    and k: "\<forall>r. scoped (k r) p d True"
    using assms(7) by (auto simp: mode_ok_def)
  then obtain g rest where g: "gs_gps (cf_gs f) = g # rest"
    by (cases "gs_gps (cf_gs f)") (auto simp: scope_running_def)
  have st: "lz_inv failed g" "ch_open (lz_ops g) \<noteq> 0" "lz_Err g = cleanup_failed"
      "\<forall>h \<in> set rest. lz_fresh cleanup_failed h" "length (g # rest) = d \<or> length (g # rest) = Suc d"
    using d(2) by (auto simp: scope_running_def g)
  obtain g' where g': "lz_step failed lev g = Some g'"
    using assms(8) g by (auto simp: scope_event_def split: option.splits)
  note i = lz_step_inv [OF st(1) g']
  note res = lz_step_resumed [OF st(1) g' st(2)]
  show ?thesis
  proof (cases "lz_resumed g < lz_resumed g'")
    case True
    let ?g = "g'\<lparr>lz_ops := []\<rparr>"
    let ?gs = "(cf_gs f)\<lparr>gs_gps := ?g # rest\<rparr>"
    have ok: "gps_ok d True (gs_gps ?gs) \<and> gs_ok ?gs \<and> gs_Err ?gs = cleanup_failed"
      using gps_ok_cleaned [of ?g rest d] i st d(1) f by (simp add: lz_inv_def frame_live_def)
    then have "gs_sound ?gs"
      using gps_ok_sound [of d True ?gs] by simp
    moreover have "frame_ok d True (f\<lparr>cf_gs := ?gs\<rparr>)"
      using ok f by (simp add: frame_ok_def frame_live_def)
    ultimately have "co_inv failed (co_goto (M_run (k (lz_err g'))) (co_put_gs ?gs f s))"
      using go_on_inv [of "co_put_gs ?gs f s" "f\<lparr>cf_gs := ?gs\<rparr>" F p d True "k (lz_err g')" failed] assms(1-5) k
      by (simp add: co_updates)
    then show ?thesis
      using assms(8) g g' True by (auto simp: scope_event_def lz_take_result_def)
  next
    case False
    let ?gs = "(cf_gs f)\<lparr>gs_gps := g' # rest\<rparr>"
    have "scope_running failed d (gs_gps ?gs)"
      using i st res False by (auto simp: scope_running_def)
    then have "mode_ok failed (M_scope k) (f\<lparr>cf_gs := ?gs\<rparr>) p"
      using f d k by (auto simp: mode_ok_def frame_live_def)
    moreover have "gs_sound ?gs"
      using i st(4) f by (auto simp: gs_sound_def lz_inv_def fresh_ok frame_live_def)
    ultimately have "co_inv failed (co_put_gs ?gs f s)"
      using assms(1-6) by (auto simp: co_updates co_inv_def)
    then show ?thesis
      using assms(8) g g' False by (auto simp: scope_event_def)
  qed
qed

lemma cleanup_end:
  assumes "gs_inv failed cleanup_failed G gs" "gs_resumed gs \<noteq> 0"
  shows "gs_gps gs = [] \<and> (gs_err gs = None \<or> gs_err gs = Some cleanup_failed)"
  using assms by (cases "gs_gps gs") (auto simp: gs_inv_def)

lemma gs_group_done_ok: "gs_ok (gs_group_done b s) = gs_ok s"
  by (auto simp: gs_group_done_def Let_def split: prod.splits)

lemma gs_step_ok: "gs_step failed b ev s = Some s' \<Longrightarrow> gs_ok s' = gs_ok s"
  by (auto simp: gs_step_def gs_group_done_ok Let_def split: list.splits option.splits if_splits)

lemma gs_running_sound:
  assumes "gs_inv failed E G gs" "\<forall>h \<in> set G. lz_fresh E h" "gs_ok gs"
  shows "gs_sound gs"
proof (cases "gs_gps gs")
  case Nil
  then show ?thesis
    using assms(3) by (simp add: gs_sound_def)
next
  case (Cons g rest)
  then have "lz_inv failed g" and "set rest \<subseteq> set G"
    using assms(1) by (auto simp: gs_inv_def set_drop_subset [THEN subsetD])
  moreover from this(2) have "\<forall>h \<in> set rest. lz_ok h"
    using assms(2) fresh_ok by blast
  ultimately show ?thesis
    using assms(3) Cons by (simp add: gs_sound_def lz_inv_def)
qed

lemma cleanup_event_inv:
  assumes "cs_frames s = f # F" "frames_ok F p" "cs_ok s" "cs_resumed s = 0" "cs_root s = None"
    "cs_mode s = M_cleanup" "mode_ok failed M_cleanup f p" "cleanup_event ec failed lev f s = Some s'"
  shows "co_inv failed s'"
proof -
  obtain G where f: "frame_live f" "cf_r f \<noteq> None" and G: "gs_inv failed cleanup_failed G (cf_gs f)"
      "\<forall>h \<in> set G. lz_fresh cleanup_failed h" "gs_gps (cf_gs f) \<noteq> []"
    using assms(7) by (auto simp: mode_ok_def cleanup_running_def)
  obtain gs where gs: "gs_step failed False lev (cf_gs f) = Some gs"
    using assms(8) by (auto simp: cleanup_event_def split: option.splits)
  have i: "gs_inv failed cleanup_failed G gs"
    using gs_step_inv [OF G(1,2) gs] by blast
  have ok: "gs_ok gs" "gs_Err gs = cleanup_failed"
    using gs_step_ok [OF gs] f i by (simp_all add: frame_live_def gs_inv_def)
  have r0: "gs_resumed (cf_gs f) = 0"
    using G(1,3) by (auto simp: gs_inv_def neq_Nil_conv)
  show ?thesis
  proof (cases "gs_resumed (cf_gs f) < gs_resumed gs")
    case True
    let ?f = "note_cleanup_err ec (f\<lparr>cf_gs := gs\<rparr>)"
    have e: "gs_gps gs = []"
      using cleanup_end [OF i] True by simp
    have f': "cf_cont ?f" "cf_gs ?f = gs" "cf_r ?f \<noteq> None"
      using f by (auto simp: note_cleanup_err_def frame_live_def split: option.splits)
    have "co_inv failed (destroy_and_resume (co_note_finish lev (co_put ?f s)))"
      using assms(1-5) f' e by (intro destroy_and_resume_inv [where f = ?f and F = F and p = p]) (simp_all add: co_put_def)
    then show ?thesis
      using assms(8) gs True by (simp add: cleanup_event_def)
  next
    case False
    then have "gs_gps gs \<noteq> []"
      using i r0 by (auto simp: gs_inv_def)
    then have "mode_ok failed M_cleanup (f\<lparr>cf_gs := gs\<rparr>) p"
      using f ok i G(2) by (auto simp: mode_ok_def cleanup_running_def frame_live_def)
    moreover have "gs_sound gs"
      using gs_running_sound [OF i G(2) ok(1)] .
    ultimately have "co_inv failed (co_put_gs gs f s)"
      using assms(1-6) by (auto simp: co_updates co_inv_def)
    then have "co_inv failed (co_note_finish lev (co_put_gs gs f s))"
      by simp
    then show ?thesis
      using assms(8) gs False by (simp add: cleanup_event_def del: co_inv_note_finish)
  qed
qed

theorem co_step_inv:
  assumes "co_inv failed s" "co_step ec failed ev s = Some s'"
  shows "co_inv failed s'"
proof (cases "cs_frames s")
  case Nil
  then have "cs_mode s = M_done"
    using assms(1) by (simp add: co_inv_def)
  then show ?thesis
    using assms Nil by (cases ev) (auto simp: co_inv_def)
next
  case (Cons f F)
  then obtain p where p: "cs_ok s" "cs_resumed s = 0" "cs_root s = None" "frames_ok F p" "mode_ok failed (cs_mode s) f p"
    using co_invE [OF assms(1)] by blast
  show ?thesis
  proof (cases ev)
    case Co_tick
    then obtain b where b: "cs_mode s = M_run b" "co_node ec b f s = Some s'"
      using assms(2) Cons by (auto split: co_mode.splits)
    then obtain d c where "frame_ok d c f" "scoped b p d c"
      using p(5) by (auto simp: mode_ok_def)
    then show ?thesis
      using co_node_inv [OF Cons p(4,1,2,3)] b(2) by blast
  next
    case (Co_cleanup_event lev)
    then consider (scope) k where "cs_mode s = M_scope k" "scope_event failed lev k f s = Some s'"
      | (cleanup) "cs_mode s = M_cleanup" "cleanup_event ec failed lev f s = Some s'"
      using assms(2) Cons by (auto split: co_mode.splits)
    then show ?thesis
    proof cases
      case scope
      then show ?thesis
        using scope_event_inv [OF Cons p(4,1,2,3)] p(5) by simp
    next
      case cleanup
      then show ?thesis
        using cleanup_event_inv [OF Cons p(4,1,2,3)] p(5) by simp
    qed
  qed (use assms(2) p Cons in
      \<open>(auto simp: co_inv_def mode_ok_def co_goto_def co_note_def split: co_mode.splits coro.splits; blast)+\<close>)
qed

lemma co_exec_inv: "co_exec ec failed evs s = Some s' \<Longrightarrow> co_inv failed s \<Longrightarrow> co_inv failed s'"
  by (induction evs arbitrary: s) (auto split: option.splits dest: co_step_inv)

lemma co_start_inv: "scoped b p 0 False \<Longrightarrow> p \<noteq> Child \<Longrightarrow> co_inv failed (co_start ss rs stop b)"
  by (auto simp: co_start_def co_inv_def mode_ok_def split: prod.splits dest: frame_ok_new)

end
