(* ===== verification/Coro_Props.thy ===== *)
theory Coro_Props
  imports Coro_Inv
begin

text \<open>
  What a coroutine task computes. \<open>direct\<close> reads a body as ordinary straight-line code in an error
  monad: awaits give the results that were observed, a failed \<open>DSK_TRY\<close> ends the body, the cleanup
  operations added so far are run at the end and a failure of one of them replaces the result. The
  machine of \<open>Coro\<close>, with its suspensions, frames and interleaved cleanup, refines it step by step.
\<close>

section \<open>Direct style\<close>

text \<open>\<open>own\<close> and \<open>par\<close> are the numbers of operations in the scopes of the body and of its awaiter.\<close>

fun take_clean :: "('r \<Rightarrow> bool) \<Rightarrow> nat \<Rightarrow> ('v, 'e, 'r) obs list \<Rightarrow> (bool \<times> ('v, 'e, 'r) obs list) option" where
  "take_clean failed 0 xs = Some (False, xs)"
| "take_clean failed (Suc n) xs =
     (case xs of
        O_clean r # ys \<Rightarrow> map_option (\<lambda>(bad, zs). (failed r \<or> bad, zs)) (take_clean failed n ys)
      | _ \<Rightarrow> None)"

fun bump :: "nat list \<Rightarrow> nat list" where
  "bump [] = [1]"
| "bump (n # ns) = Suc n # ns"

definition direct_end ::
  "(errc \<Rightarrow> 'e) \<Rightarrow> ('r \<Rightarrow> bool) \<Rightarrow> 'e + 'v \<Rightarrow> nat list \<Rightarrow> nat list \<Rightarrow> ('v, 'e, 'r) obs list \<Rightarrow>
   (('e + 'v) \<times> nat list \<times> ('v, 'e, 'r) obs list) option" where
  "direct_end ec failed r own par xs =
     (case take_clean failed (sum_list own) xs of
        None \<Rightarrow> None
      | Some (bad, ys) \<Rightarrow> Some (if bad then Inl (ec cleanup_failed) else r, par, ys))"

primrec direct ::
  "('o, 'v, 'e) coro \<Rightarrow> (errc \<Rightarrow> 'e) \<Rightarrow> ('r \<Rightarrow> bool) \<Rightarrow> nat list \<Rightarrow> nat list \<Rightarrow> ('v, 'e, 'r) obs list \<Rightarrow>
   (('e + 'v) \<times> nat list \<times> ('v, 'e, 'r) obs list) option" where
  "direct (Co_return v) ec failed own par xs = direct_end ec failed (Inr v) own par xs"
| "direct (Co_throw e) ec failed own par xs = direct_end ec failed (Inl e) own par xs"
| "direct Co_fall_off ec failed own par xs = None"
| "direct (Co_check r k) ec failed own par xs =
     (case r of Inl e \<Rightarrow> direct_end ec failed (Inl e) own par xs | Inr v \<Rightarrow> direct (k v) ec failed own par xs)"
| "direct (Co_await op k) ec failed own par xs =
     (case xs of O_res r # ys \<Rightarrow> direct (k r) ec failed own par ys | _ \<Rightarrow> None)"
| "direct (Co_await_task b k) ec failed own par xs =
     (case xs of
        O_started # ys \<Rightarrow>
          (case direct b ec failed [] own ys of
             None \<Rightarrow> None
           | Some (r, own', zs) \<Rightarrow> direct (k r) ec failed own' par zs)
      | O_alloc_failed # ys \<Rightarrow> direct (k (Inl (ec errc_allocation_failed))) ec failed own par ys
      | _ \<Rightarrow> None)"
| "direct (Co_yield v b) ec failed own par xs =
     (case xs of O_yield w # ys \<Rightarrow> (if w = v then direct b ec failed own par ys else None) | _ \<Rightarrow> None)"
| "direct (Co_add_cleanup b) ec failed own par xs = direct b ec failed (bump own) par xs"
| "direct (Co_add_parent_cleanup b) ec failed own par xs = direct b ec failed own (bump par) xs"
| "direct (Co_scope_begin b) ec failed own par xs = direct b ec failed (0 # own) par xs"
| "direct (Co_scope_clean k) ec failed own par xs =
     (case take_clean failed (hd own) xs of
        None \<Rightarrow> None
      | Some (bad, ys) \<Rightarrow> direct (k (if bad then Some cleanup_failed else None)) ec failed (0 # tl own) par ys)"
| "direct (Co_scope_end b) ec failed own par xs = direct b ec failed (tl own) par xs"
| "direct (Co_query q k) ec failed own par xs =
     (case xs of O_bool x # ys \<Rightarrow> direct (k x) ec failed own par ys | _ \<Rightarrow> None)"
| "direct (Co_get_stop_source k) ec failed own par xs =
     (case xs of O_stop_source x # ys \<Rightarrow> direct (k x) ec failed own par ys | _ \<Rightarrow> None)"
| "direct (Co_set_stop_source ss b) ec failed own par xs = direct b ec failed own par xs"
| "direct (Co_get_resumer k) ec failed own par xs =
     (case xs of O_resumer x # ys \<Rightarrow> direct (k x) ec failed own par ys | _ \<Rightarrow> None)"
| "direct (Co_set_resumer rs b) ec failed own par xs = direct b ec failed own par xs"

section \<open>What a state will come to\<close>

definition sizes :: "('o, 'v, 'e, 'r) coro_frame \<Rightarrow> nat list" where
  "sizes f = map (\<lambda>g. length (lz_ops g)) (gs_gps (cf_gs f))"

definition head_sizes :: "('o, 'v, 'e, 'r) coro_frame list \<Rightarrow> nat list" where
  "head_sizes F = (case F of [] \<Rightarrow> [] | f # _ \<Rightarrow> sizes f)"

text \<open>A result handed to the frames that wait.\<close>

fun hand_up ::
  "(errc \<Rightarrow> 'e) \<Rightarrow> ('r \<Rightarrow> bool) \<Rightarrow> ('o, 'v, 'e, 'r) coro_frame list \<Rightarrow> 'e + 'v \<Rightarrow> nat list \<Rightarrow>
   ('v, 'e, 'r) obs list \<Rightarrow> (('e + 'v) \<times> ('v, 'e, 'r) obs list) option" where
  "hand_up ec failed [] r own xs = Some (r, xs)"
| "hand_up ec failed (g # F) r own xs =
     (case direct (cf_k g r) ec failed own (head_sizes F) xs of
        None \<Rightarrow> None
      | Some (r', par, ys) \<Rightarrow> hand_up ec failed F r' par ys)"

definition will_run ::
  "(errc \<Rightarrow> 'e) \<Rightarrow> ('r \<Rightarrow> bool) \<Rightarrow> ('o, 'v, 'e) coro \<Rightarrow> nat list \<Rightarrow> ('o, 'v, 'e, 'r) coro_frame list \<Rightarrow>
   ('v, 'e, 'r) obs list \<Rightarrow> (('e + 'v) \<times> ('v, 'e, 'r) obs list) option" where
  "will_run ec failed b own F xs =
     (case direct b ec failed own (head_sizes F) xs of
        None \<Rightarrow> None
      | Some (r, par, ys) \<Rightarrow> hand_up ec failed F r par ys)"

text \<open>The operations of a group that have not finished.\<close>

definition lz_waiting :: "'r lazy_group \<Rightarrow> nat" where
  "lz_waiting g = length (filter (\<lambda>c. ch_result c = None) (lz_ops g))"

definition lz_bad :: "('r \<Rightarrow> bool) \<Rightarrow> 'r lazy_group \<Rightarrow> bool" where
  "lz_bad failed g \<longleftrightarrow> (\<exists>r \<in> set (lz_handled g). failed r)"

definition gs_waiting :: "'r group_stack \<Rightarrow> nat" where
  "gs_waiting gs = sum_list (map lz_waiting (gs_gps gs))"

definition will_clean ::
  "('r \<Rightarrow> bool) \<Rightarrow> nat \<Rightarrow> bool \<Rightarrow> (bool \<Rightarrow> ('v, 'e, 'r) obs list \<Rightarrow> 'b option) \<Rightarrow> ('v, 'e, 'r) obs list \<Rightarrow> 'b option" where
  "will_clean failed n bad K xs =
     (case take_clean failed n xs of None \<Rightarrow> None | Some (bad', ys) \<Rightarrow> K (bad \<or> bad') ys)"

definition predict ::
  "(errc \<Rightarrow> 'e) \<Rightarrow> ('r \<Rightarrow> bool) \<Rightarrow> ('o, 'v, 'e, 'r) co_state \<Rightarrow> ('v, 'e, 'r) obs list \<Rightarrow>
   (('e + 'v) \<times> ('v, 'e, 'r) obs list) option" where
  "predict ec failed s xs =
     (case cs_frames s of
        [] \<Rightarrow> map_option (\<lambda>r. (r, xs)) (cs_root s)
      | f # F \<Rightarrow>
          (case cs_mode s of
             M_run b \<Rightarrow> will_run ec failed b (sizes f) F xs
           | M_yielded b \<Rightarrow> will_run ec failed b (sizes f) F xs
           | M_await k \<Rightarrow> (case xs of O_res r # ys \<Rightarrow> will_run ec failed (k r) (sizes f) F ys | _ \<Rightarrow> None)
           | M_scope k \<Rightarrow>
               (case gs_gps (cf_gs f) of
                  [] \<Rightarrow> None
                | g # gs \<Rightarrow>
                    will_clean failed (lz_waiting g) (lz_bad failed g)
                      (\<lambda>bad. will_run ec failed (k (if bad then Some cleanup_failed else None)) (0 # tl (sizes f)) F) xs)
           | M_cleanup \<Rightarrow>
               will_clean failed (gs_waiting (cf_gs f)) (gs_bad failed (cf_gs f))
                 (\<lambda>bad. hand_up ec failed F (if bad then Inl (ec cleanup_failed) else the (cf_r f)) (head_sizes F)) xs
           | _ \<Rightarrow> None))"

section \<open>Counting\<close>

lemma will_clean_0 [simp]: "will_clean failed 0 bad K xs = K bad xs"
  by (simp add: will_clean_def)

lemma will_clean_Suc [simp]:
  "will_clean failed (Suc n) bad K (O_clean r # xs) = will_clean failed n (bad \<or> failed r) K xs"
  by (auto simp: will_clean_def disj_assoc split: option.splits)

lemma waiting_update:
  assumes "i < length cs"
  shows "length (filter P (cs[i := c])) + (if P (cs ! i) then 1 else 0) = length (filter P cs) + (if P c then 1 else 0)"
proof -
  have s: "cs = take i cs @ cs ! i # drop (Suc i) cs"
    using assms by (rule id_take_nth_drop)
  have u: "cs[i := c] = take i cs @ c # drop (Suc i) cs"
    using assms by (rule upd_conv_take_nth_drop)
  have "length (filter P cs) = length (filter P (take i cs)) + (if P (cs ! i) then 1 else 0) +
      length (filter P (drop (Suc i) cs))"
    by (subst s) simp
  then show ?thesis
    unfolding u by simp
qed

lemma lz_step_waiting:
  assumes "lz_step failed lev g = Some g'"
  shows "lz_waiting g = (case lev of Lz_finish i r \<Rightarrow> Suc (lz_waiting g') | _ \<Rightarrow> lz_waiting g')"
proof (cases lev)
  case Lz_start
  then obtain i where i: "next_idle (lz_ops g) = Some i" "g' = g\<lparr>lz_ops := (lz_ops g)[i := Ch_running]\<rparr>"
    using assms by (auto split: if_splits)
  then show ?thesis
    using Lz_start waiting_update [of i "lz_ops g" "\<lambda>c. ch_result c = None" Ch_running] next_idle_Some [OF i(1)]
    by (simp add: lz_waiting_def)
next
  case (Lz_finish i r)
  then have "i < length (lz_ops g)" "lz_ops g ! i = Ch_running" "g' = lz_handle i r g"
    using assms by (auto split: if_splits)
  then show ?thesis
    using Lz_finish waiting_update [of i "lz_ops g" "\<lambda>c. ch_result c = None" "Ch_judged r False"]
    by (simp add: lz_waiting_def lz_handle_def)
next
  case (Lz_store i)
  then obtain r w where "i < length (lz_ops g)" "lz_ops g ! i = Ch_judged r w" "g' = lz_store failed i r g"
    using assms by (auto split: if_splits child.splits)
  then show ?thesis
    using Lz_store waiting_update [of i "lz_ops g" "\<lambda>c. ch_result c = None" "Ch_noted r"]
    by (simp add: lz_waiting_def lz_store_def Let_def)
next
  case (Lz_count i)
  then obtain r where "i < length (lz_ops g)" "lz_ops g ! i = Ch_noted r" "g' = lz_count i r g"
    using assms by (auto split: if_splits child.splits)
  then show ?thesis
    using Lz_count waiting_update [of i "lz_ops g" "\<lambda>c. ch_result c = None" "Ch_done r"]
    by (simp add: lz_waiting_def lz_count_def Let_def split: prod.splits)
qed

lemma ch_done_no_result: "ch_result c = None \<Longrightarrow> \<not> ch_done c"
  by (cases c) simp_all

lemma lz_waiting_open:
  assumes "ch_open (lz_ops g) = 0"
  shows "lz_waiting g = 0"
proof -
  have "ch_done c" if "c \<in> set (lz_ops g)" for c
    using assms that by (simp only: ch_open_zero)
  then have "filter (\<lambda>c. ch_result c = None) (lz_ops g) = []"
    by (meson ch_done_no_result filter_False)
  then show ?thesis
    by (simp only: lz_waiting_def list.size)
qed

lemma lz_waiting_fresh: "\<forall>c \<in> set (lz_ops g). c = Ch_idle \<Longrightarrow> lz_waiting g = length (lz_ops g)"
proof -
  assume "\<forall>c \<in> set (lz_ops g). c = Ch_idle"
  then have "filter (\<lambda>c. ch_result c = None) (lz_ops g) = lz_ops g"
    by (intro filter_True) auto
  then show ?thesis
    by (simp add: lz_waiting_def)
qed

lemma lz_waiting_ops: "lz_ops g = lz_ops h \<Longrightarrow> lz_waiting g = lz_waiting h"
  by (simp add: lz_waiting_def)

lemma sum_waiting_ops:
  assumes "map lz_ops gs = map lz_ops hs"
  shows "sum_list (map lz_waiting gs) = sum_list (map lz_waiting hs)"
proof -
  let ?w = "\<lambda>cs. length (filter (\<lambda>c. ch_result c = None) cs)"
  have w: "map lz_waiting xs = map ?w (map lz_ops xs)" for xs :: "'a lazy_group list"
    by (simp add: lz_waiting_def)
  show ?thesis
    unfolding w assms ..
qed

lemma sum_waiting_drop: "sum_list (map lz_waiting (drop_empty gs)) = sum_list (map lz_waiting gs)"
  by (induction gs) (auto simp: lz_empty_def lz_waiting_def)

text \<open>The scope that takes over when the top one has finished.\<close>

lemma gs_group_done_ops:
  assumes "gs_gps s = g # rest" "\<forall>h \<in> set rest. lz_fresh E h"
  shows "map lz_ops (gs_gps (gs_group_done False s)) = map lz_ops (drop_empty rest)"
proof (cases "drop_empty rest")
  case Nil
  then show ?thesis
    using assms(1) by (simp add: gs_group_done_def gs_next.simps Let_def)
next
  case (Cons h hs)
  then have h: "lz_ops h \<noteq> []" "lz_fresh E h"
    using drop_empty_suffix [OF Cons] assms(2) by (auto dest: nth_mem)
  obtain x h' where i: "lz_initiate False h = (x, h')"
    by fastforce
  then have "x" "lz_ops h' = lz_ops h"
    using lz_initiate_inv [OF h(2,1)] by simp_all
  then show ?thesis
    using assms(1) Cons i by (simp add: gs_group_done_def gs_next.simps Let_def)
qed

lemma gs_step_waiting:
  assumes "gs_inv failed cleanup_failed G gs" "\<forall>h \<in> set G. lz_fresh cleanup_failed h"
    "gs_step failed False lev gs = Some gs'"
  shows "gs_waiting gs = (case lev of Lz_finish i r \<Rightarrow> Suc (gs_waiting gs') | _ \<Rightarrow> gs_waiting gs')"
proof -
  obtain g rest where g: "gs_gps gs = g # rest"
    using assms(3) by (cases "gs_gps gs") (simp_all add: gs_step_def)
  obtain g' where g': "lz_step failed lev g = Some g'"
    using assms(3) g by (cases "lz_step failed lev g") (simp_all add: gs_step_def)
  have i: "lz_inv failed g" "ch_open (lz_ops g) \<noteq> 0"
    and rest: "\<forall>h \<in> set rest. lz_fresh cleanup_failed h"
    using assms(1,2) g by (auto simp: gs_inv_def set_drop_subset [THEN subsetD])
  note res = lz_step_resumed [OF i(1) g' i(2)]
  let ?s = "gs\<lparr>gs_gps := g' # rest\<rparr>"
  have w: "gs_waiting gs = (case lev of Lz_finish i r \<Rightarrow> Suc (gs_waiting ?s) | _ \<Rightarrow> gs_waiting ?s)"
    using lz_step_waiting [OF g'] g by (cases lev) (simp_all add: gs_waiting_def)
  show ?thesis
  proof (cases "lz_resumed g < lz_resumed g'")
    case True
    have "gs_waiting (gs_group_done False ?s) = sum_list (map lz_waiting rest)"
      using sum_waiting_ops [OF gs_group_done_ops [of ?s g' rest]] rest sum_waiting_drop [of rest]
      by (simp add: gs_waiting_def)
    moreover have "gs_waiting ?s = sum_list (map lz_waiting rest)"
      using res True lz_waiting_open [of g'] by (simp add: gs_waiting_def)
    ultimately have "gs_waiting ?s = gs_waiting gs'"
      using assms(3) g g' True by (simp add: gs_step_def Let_def)
    then show ?thesis
      using w by (cases lev) simp_all
  next
    case False
    then have "?s = gs'"
      using assms(3) g g' by (simp add: gs_step_def Let_def)
    then show ?thesis
      using w by (cases lev) simp_all
  qed
qed

section \<open>Every step keeps the prediction\<close>

lemma predict_leave:
  assumes "cs_frames s = f # F" "cf_r f = Some r" "frames_ok F p"
  shows "predict ec failed (destroy_and_resume s) xs = hand_up ec failed F r (head_sizes F) xs"
  using assms
  by (cases F) (auto simp: predict_def destroy_and_resume_def co_assert_def will_run_def head_sizes_def Let_def)

lemma destroy_log [simp]: "cs_log (destroy_and_resume s) = cs_log s"
  by (auto simp: destroy_and_resume_def co_assert_def Let_def split: list.split option.split)

lemma sizes_sum:
  assumes "gps_ok d c (gs_gps (cf_gs f))"
  shows "sum_list (sizes f) = sum_list (map lz_waiting (gs_gps (cf_gs f)))"
proof -
  have "\<forall>g \<in> set (gs_gps (cf_gs f)). lz_waiting g = length (lz_ops g)"
    using assms lz_waiting_fresh
    by (cases "gs_gps (cf_gs f)") (auto simp: gps_ok_def lz_fresh_def lz_waiting_def split: if_splits)
  then show ?thesis
    by (simp add: sizes_def cong: map_cong)
qed

lemma predict_end:
  assumes "cs_frames s = f # F" "frame_live f" "gps_ok d c (gs_gps (cf_gs f))" "cf_r f = Some r" "frames_ok F p"
  shows "predict ec failed (initiate_cleanup ec s) xs =
      will_clean failed (sum_list (sizes f)) False
        (\<lambda>bad. hand_up ec failed F (if bad then Inl (ec cleanup_failed) else r) (head_sizes F)) xs \<and>
    cs_log (initiate_cleanup ec s) = cs_log s"
proof -
  obtain b gs where i: "gs_initiate False False (cleanup (cf_gs f)) = (b, gs)"
    by fastforce
  have st: "case (b, gs) of
      (True, gs') \<Rightarrow> cleanup_running failed gs' \<and> gs_ok gs' \<and> gs_Err gs' = cleanup_failed \<and> \<not> gs_bad failed gs' \<and>
        map lz_ops (gs_gps gs') = map lz_ops (drop_empty (gs_gps (cf_gs f))) \<and> drop_empty (gs_gps (cf_gs f)) \<noteq> []
    | (False, gs') \<Rightarrow> gs_gps gs' = [] \<and> drop_empty (gs_gps (cf_gs f)) = [] \<and> gs_err gs' = None \<and> gs_ok gs' \<and> gs_Err gs' = cleanup_failed"
    using cleanup_start [of d c "cf_gs f" failed] assms(2,3) i by (simp add: frame_live_def)
  have w: "sum_list (sizes f) = sum_list (map lz_waiting (drop_empty (gs_gps (cf_gs f))))"
    by (simp add: sizes_sum [OF assms(3)] sum_waiting_drop)
  show ?thesis
  proof (cases b)
    case True
    then have "gs_waiting gs = sum_list (sizes f)"
      using st sum_waiting_ops [of "gs_gps gs" "drop_empty (gs_gps (cf_gs f))"] w by (simp add: gs_waiting_def)
    then show ?thesis
      using True st i assms(1,4) by (simp add: initiate_cleanup_def predict_def co_goto_def co_put_def cong: if_cong)
  next
    case False
    let ?f = "f\<lparr>cf_gs := gs\<rparr>"
    have "note_cleanup_err ec ?f = ?f"
      using st False by (simp add: note_cleanup_err_def gs_is_failed_def has_err_code_def)
    then have "initiate_cleanup ec s = destroy_and_resume (co_put ?f s)"
      using assms(1) False i by (simp add: initiate_cleanup_def)
    moreover have "predict ec failed (destroy_and_resume (co_put ?f s)) xs = hand_up ec failed F r (head_sizes F) xs"
      using assms by (intro predict_leave [where p = p and f = ?f]) (simp_all add: co_put_def)
    moreover have z: "sum_list (sizes f) = 0"
      using w st False by simp
    ultimately show ?thesis
      unfolding z by (simp add: co_put_def)
  qed
qed

text \<open>A step keeps the prediction, with what it has observed put back in front.\<close>

definition keeps ::
  "(errc \<Rightarrow> 'e) \<Rightarrow> ('r \<Rightarrow> bool) \<Rightarrow> ('o, 'v, 'e, 'r) co_state \<Rightarrow> ('o, 'v, 'e, 'r) co_state \<Rightarrow> bool" where
  "keeps ec failed s s' \<longleftrightarrow>
     (\<exists>xs. cs_log s' = cs_log s @ xs \<and> (\<forall>ys. predict ec failed s (xs @ ys) = predict ec failed s' ys))"

lemma keepsI:
  "cs_log s' = cs_log s @ xs \<Longrightarrow> (\<And>ys. predict ec failed s (xs @ ys) = predict ec failed s' ys) \<Longrightarrow> keeps ec failed s s'"
  by (auto simp: keeps_def)

lemma keeps_throw:
  assumes "cs_frames s = f # F" "frame_ok d c f" "frames_ok F p" "cs_mode s = M_run b"
    "\<And>par xs. direct b ec failed (sizes f) par xs = direct_end ec failed (Inl e) (sizes f) par xs"
  shows "keeps ec failed s (initiate_throw ec e s)"
proof (rule keepsI [where xs = "[]"])
  let ?f = "f\<lparr>cf_r := Some (Inl e)\<rparr>"
  have e: "initiate_throw ec e s = initiate_cleanup ec (co_put ?f s)"
    using assms(1) by (simp add: initiate_throw_def)
  have sz: "sizes ?f = sizes f"
    by (simp add: sizes_def)
  have "cs_frames (co_put ?f s) = ?f # F" "frame_live ?f" "gps_ok d c (gs_gps (cf_gs ?f))" "cf_r ?f = Some (Inl e)"
    using assms(1,2) by (simp_all add: co_put_def frame_ok_def frame_live_def)
  note p = predict_end [OF this assms(3), of ec failed]
  show "cs_log (initiate_throw ec e s) = cs_log s @ []"
    using p by (simp add: e co_put_def)
  show "predict ec failed s ([] @ ys) = predict ec failed (initiate_throw ec e s) ys" for ys
    using p [of ys] assms(1,4,5)
    by (simp add: e sz predict_def [of _ _ s] will_run_def direct_end_def will_clean_def split: option.splits)
qed

lemma keeps_return:
  assumes "cs_frames s = f # F" "frame_ok d c f" "frames_ok F p" "cs_mode s = M_run (Co_return v)"
  shows "keeps ec failed s (co_return ec v s)"
proof (rule keepsI [where xs = "[]"])
  let ?f = "f\<lparr>cf_r := Some (Inr v)\<rparr>" and ?s = "co_assert (cf_r f = None) s"
  have e: "co_return ec v s = initiate_cleanup ec (co_put ?f ?s)"
    using assms(1) by (simp add: co_return_def)
  have sz: "sizes ?f = sizes f"
    by (simp add: sizes_def)
  have "cs_frames (co_put ?f ?s) = ?f # F" "frame_live ?f" "gps_ok d c (gs_gps (cf_gs ?f))" "cf_r ?f = Some (Inr v)"
    using assms(1,2) by (simp_all add: co_put_def co_assert_def frame_ok_def frame_live_def)
  note p = predict_end [OF this assms(3), of ec failed]
  show "cs_log (co_return ec v s) = cs_log s @ []"
    using p by (simp add: e co_put_def co_assert_def)
  show "predict ec failed s ([] @ ys) = predict ec failed (co_return ec v s) ys" for ys
    using p [of ys] assms(1,4)
    by (simp add: e sz predict_def [of _ _ s] will_run_def direct_end_def will_clean_def split: option.splits)
qed

text \<open>Nodes after which the chain of frames runs on.\<close>

lemma keeps_run:
  assumes "cs_frames s = f # F" "cs_mode s = M_run b" "cs_frames s' = f' # F'" "cs_mode s' = M_run b'"
    "cs_log s' = cs_log s @ xs"
    "\<And>ys. will_run ec failed b (sizes f) F (xs @ ys) = will_run ec failed b' (sizes f') F' ys"
  shows "keeps ec failed s s'"
  using assms by (intro keepsI [where xs = xs]) (simp_all add: predict_def)

lemma sizes_simps [simp]:
  "sizes (f\<lparr>cf_ss := ss\<rparr>) = sizes f" "sizes (f\<lparr>cf_resumer := rs\<rparr>) = sizes f" "sizes (f\<lparr>cf_k := k\<rparr>) = sizes f"
  "sizes (f\<lparr>cf_r := r\<rparr>) = sizes f"
  "sizes (f\<lparr>cf_gs := (cf_gs f)\<lparr>gs_gps := gps\<rparr>\<rparr>) = map (\<lambda>g. length (lz_ops g)) gps"
  by (simp_all add: sizes_def)

lemma sizes_add: "sizes (f\<lparr>cf_gs := add_cleanup (cf_gs f)\<rparr>) = bump (sizes f)"
  by (cases "gs_gps (cf_gs f)")
    (simp_all add: sizes_def add_cleanup_def gs_empty_def gs_push_def gs_add_def lz_add_def lz_assert_def lz_new_def Let_def)

lemma sizes_push: "sizes (f\<lparr>cf_gs := gs_push (cf_gs f)\<rparr>) = 0 # sizes f"
  by (simp add: sizes_def gs_push_def lz_new_def)

lemma sizes_end: "sizes (f\<lparr>cf_gs := gs_guard_end (cf_gs f)\<rparr>) = tl (sizes f)"
  by (cases "gs_gps (cf_gs f)") (simp_all add: sizes_def gs_guard_end_def gs_pop_def gs_assert_def)

lemma sizes_new: "task_initiate ss rs coro_new = (P, g) \<Longrightarrow> sizes g = []"
  by (auto simp: task_initiate_def coro_new_def gs_new_def sizes_def)

lemma lz_bad_step:
  assumes "lz_inv failed g" "lz_step failed lev g = Some g'"
  shows "lz_bad failed g' \<longleftrightarrow> lz_bad failed g \<or> (case lev of Lz_finish i r \<Rightarrow> failed r | _ \<Rightarrow> False)"
  using lz_step_inv [OF assms] by (cases lev) (auto simp: lz_bad_def)

text \<open>What a step of a group observes.\<close>

definition seen :: "'r lz_event \<Rightarrow> ('v, 'e, 'r) obs list" where
  "seen lev = (case lev of Lz_finish i r \<Rightarrow> [O_clean r] | _ \<Rightarrow> [])"

lemma co_note_finish_log: "cs_log (co_note_finish lev s) = cs_log s @ seen lev"
  by (cases lev) (simp_all add: co_note_finish_def co_note_def seen_def)

lemma predict_log [simp]: "predict ec failed (co_note_finish lev s) = predict ec failed s"
  by (rule ext) (simp add: predict_def cong: list.case_cong)

lemma will_clean_seen:
  assumes "n = (case lev of Lz_finish i r \<Rightarrow> Suc m | _ \<Rightarrow> m)"
    "bad' \<longleftrightarrow> bad \<or> (case lev of Lz_finish i r \<Rightarrow> failed r | _ \<Rightarrow> False)"
  shows "will_clean failed n bad K (seen lev @ xs) = will_clean failed m bad' K xs"
  using assms by (cases lev) (simp_all add: seen_def)

lemma keeps_scope_clean:
  assumes "cs_frames s = f # F" "cs_mode s = M_run (Co_scope_clean k)" "frame_ok d False f" "0 < d"
  shows "keeps ec failed s (scope_clean k f s)"
proof -
  note ok = frame_okD [OF assms(3)]
  obtain g rest where g: "gs_gps (cf_gs f) = g # rest"
    using ok(1) assms(4) by (cases "gs_gps (cf_gs f)") (auto simp: gps_ok_def)
  have fr: "lz_fresh cleanup_failed g"
    using hd_tl_Cons [OF g ok(1)] by blast
  have sz: "sizes f = length (lz_ops g) # map (\<lambda>h. length (lz_ops h)) rest"
    by (simp add: sizes_def g)
  show ?thesis
  proof (cases "lz_ops g = []")
    case True
    then have i: "lz_initiate False g = (False, g)"
      using fr by (simp add: lz_initiate_def lz_assert_def lz_fresh_def has_err_code_def Let_def)
    let ?gs = "(cf_gs f)\<lparr>gs_gps := g\<lparr>lz_ops := []\<rparr> # rest\<rparr>"
    have e: "scope_clean k f s = co_goto (M_run (k None)) (co_put_gs ?gs f s)"
      using g i fr by (simp add: scope_clean_def lz_take_result_def lz_fresh_def)
    show ?thesis
      unfolding e
      by (rule keeps_run [OF assms(1,2), where xs = "[]" and f' = "f\<lparr>cf_gs := ?gs\<rparr>" and F' = F and b' = "k None"])
        (use assms(1) True sz in \<open>simp_all add: co_updates will_run_def\<close>)
  next
    case False
    obtain x g' where i: "lz_initiate False g = (x, g')"
      by fastforce
    then have i': "x" "lz_ops g' = lz_ops g"
      using lz_initiate_inv [OF fr False, of failed] by simp_all
    let ?gs = "(cf_gs f)\<lparr>gs_gps := g' # rest\<rparr>"
    have e: "scope_clean k f s = co_goto (M_scope k) (co_put_gs ?gs f s)"
      using g i i' by (simp add: scope_clean_def)
    have w: "lz_waiting g' = length (lz_ops g)"
      using fr i'(2) lz_waiting_fresh [of g'] by (simp add: lz_fresh_def)
    have b: "\<not> lz_bad failed g'"
      using i i'(1) fr by (auto simp: lz_bad_def lz_initiate_def lz_assert_def lz_fresh_def Let_def split: if_splits)
    have p: "predict ec failed s ys = predict ec failed (scope_clean k f s) ys" for ys
    proof -
      have "predict ec failed s ys = will_clean failed (length (lz_ops g)) False
          (\<lambda>bad. will_run ec failed (k (if bad then Some cleanup_failed else None)) (0 # tl (sizes f)) F) ys"
        using assms(1,2) by (simp add: predict_def will_run_def will_clean_def sz split: option.split prod.split)
      also have "\<dots> = predict ec failed (scope_clean k f s) ys"
        using assms(1) b by (simp add: e predict_def co_updates w sz)
      finally show ?thesis .
    qed
    show ?thesis
      by (rule keepsI [where xs = "[]"]) (use p e in \<open>simp_all add: co_updates\<close>)
  qed
qed

lemma keeps_scope_event:
  assumes "cs_frames s = f # F" "cs_mode s = M_scope k" "scope_running failed d (gs_gps (cf_gs f))"
    "scope_event failed lev k f s = Some s'"
  shows "keeps ec failed s s'"
proof -
  obtain g rest where g: "gs_gps (cf_gs f) = g # rest"
    using assms(3) by (cases "gs_gps (cf_gs f)") (auto simp: scope_running_def)
  have st: "lz_inv failed g" "ch_open (lz_ops g) \<noteq> 0" "lz_Err g = cleanup_failed"
    using assms(3) by (auto simp: scope_running_def g)
  obtain g' where g': "lz_step failed lev g = Some g'"
    using assms(4) g by (auto simp: scope_event_def split: option.splits)
  note i = lz_step_inv [OF st(1) g']
  note w = will_clean_seen [OF lz_step_waiting [OF g'] lz_bad_step [OF st(1) g']]
  let ?K = "\<lambda>bad. will_run ec failed (k (if bad then Some cleanup_failed else None)) (0 # tl (sizes f)) F"
  have sz: "tl (sizes f) = map (\<lambda>h. length (lz_ops h)) rest"
    by (simp add: sizes_def g)
  have p: "predict ec failed s (seen lev @ ys) = will_clean failed (lz_waiting g') (lz_bad failed g') ?K ys" for ys
    using assms(1,2) g w [of ?K ys] by (simp add: predict_def)
  show ?thesis
  proof (cases "lz_resumed g < lz_resumed g'")
    case True
    then have o: "ch_open (lz_ops g') = 0"
      using lz_step_resumed [OF st(1) g' st(2)] by simp
    have err: "lz_err g' = (if lz_bad failed g' then Some cleanup_failed else None)"
      using lz_all_done [OF conjunct1 [OF i] o] i st(3) by (simp add: lz_bad_def)
    let ?gs = "(cf_gs f)\<lparr>gs_gps := g'\<lparr>lz_ops := []\<rparr> # rest\<rparr>"
    let ?s = "co_goto (M_run (k (lz_err g'))) (co_put_gs ?gs f s)"
    have s': "s' = co_note_finish lev ?s"
      using assms(4) g g' True by (simp add: scope_event_def lz_take_result_def)
    have "predict ec failed ?s ys = ?K (lz_bad failed g') ys" for ys
      using assms(1) err sz by (simp add: predict_def co_updates)
    then show ?thesis
      using p lz_waiting_open [OF o]
      by (intro keepsI [where xs = "seen lev"]) (simp_all add: s' co_note_finish_log co_updates)
  next
    case False
    let ?gs = "(cf_gs f)\<lparr>gs_gps := g' # rest\<rparr>"
    let ?s = "co_put_gs ?gs f s"
    have s': "s' = co_note_finish lev ?s"
      using assms(4) g g' False by (simp add: scope_event_def)
    have "predict ec failed ?s ys = will_clean failed (lz_waiting g') (lz_bad failed g') ?K ys" for ys
      using assms(1,2) sz by (simp add: predict_def co_updates)
    then show ?thesis
      using p by (intro keepsI [where xs = "seen lev"]) (simp_all add: s' co_note_finish_log co_updates)
  qed
qed

lemma keeps_cleanup_event:
  assumes "cs_frames s = f # F" "frames_ok F p" "cs_mode s = M_cleanup" "cf_r f = Some r"
    "gs_inv failed cleanup_failed G (cf_gs f)" "\<forall>h \<in> set G. lz_fresh cleanup_failed h" "gs_gps (cf_gs f) \<noteq> []"
    "cleanup_event ec failed lev f s = Some s'"
  shows "keeps ec failed s s'"
proof -
  obtain gs where gs: "gs_step failed False lev (cf_gs f) = Some gs"
    using assms(8) by (auto simp: cleanup_event_def split: option.splits)
  note i = gs_step_inv [OF assms(5,6) gs]
  have bad: "gs_bad failed gs \<longleftrightarrow> gs_bad failed (cf_gs f) \<or> (case lev of Lz_finish i r \<Rightarrow> failed r | _ \<Rightarrow> False)"
    using i by (cases lev) auto
  note w = will_clean_seen [OF gs_step_waiting [OF assms(5,6) gs] bad]
  let ?K = "\<lambda>bad. hand_up ec failed F (if bad then Inl (ec cleanup_failed) else r) (head_sizes F)"
  have p: "predict ec failed s (seen lev @ ys) = will_clean failed (gs_waiting gs) (gs_bad failed gs) ?K ys" for ys
    using assms(1,3,4) w [of ?K ys] by (simp add: predict_def cong: if_cong)
  have r0: "gs_resumed (cf_gs f) = 0"
    using assms(5,7) by (auto simp: gs_inv_def neq_Nil_conv)
  show ?thesis
  proof (cases "gs_resumed (cf_gs f) < gs_resumed gs")
    case True
    let ?f = "note_cleanup_err ec (f\<lparr>cf_gs := gs\<rparr>)"
    have e: "gs_gps gs = []" "gs_err gs = None \<or> gs_err gs = Some cleanup_failed"
      using cleanup_end [OF conjunct1 [OF i]] True by simp_all
    have fr: "cf_r ?f = Some (if gs_bad failed gs then Inl (ec cleanup_failed) else r)"
      using e assms(4)
      by (auto simp: note_cleanup_err_def gs_bad_def gs_is_failed_def gs_take_result_def has_err_code_def)
    let ?s = "co_note_finish lev (co_put ?f s)"
    have s': "s' = destroy_and_resume ?s"
      using assms(8) gs True by (simp add: cleanup_event_def)
    have "predict ec failed s' ys = ?K (gs_bad failed gs) ys" for ys
      unfolding s' using predict_leave [of ?s ?f F _ p ec failed ys] assms(1,2) fr by (simp add: co_put_def)
    moreover have "gs_waiting gs = 0"
      using e by (simp add: gs_waiting_def)
    ultimately show ?thesis
      using p by (intro keepsI [where xs = "seen lev"]) (simp_all add: s' co_note_finish_log co_put_def)
  next
    case False
    let ?s = "co_put_gs gs f s"
    have s': "s' = co_note_finish lev ?s"
      using assms(8) gs False by (simp add: cleanup_event_def)
    have "predict ec failed ?s ys = will_clean failed (gs_waiting gs) (gs_bad failed gs) ?K ys" for ys
      using assms(1,3,4) by (simp add: predict_def co_updates cong: if_cong)
    then show ?thesis
      using p by (intro keepsI [where xs = "seen lev"]) (simp_all add: s' co_note_finish_log co_updates)
  qed
qed

lemma keeps_node:
  assumes "cs_frames s = f # F" "cs_mode s = M_run b" "frames_ok F p" "frame_ok d c f" "scoped b p d c"
    "co_node ec b f s = Some s'"
  shows "keeps ec failed s s'"
proof (cases b)
  case (Co_return v)
  then show ?thesis
    using keeps_return [OF assms(1,4,3), of v ec failed] assms(2,6) by auto
next
  case (Co_throw e)
  then show ?thesis
    using keeps_throw [OF assms(1,4,3,2), of ec failed e] assms(6) by auto
next
  case (Co_check r k)
  show ?thesis
  proof (cases r)
    case (Inl e)
    then show ?thesis
      using keeps_throw [OF assms(1,4,3,2), of ec failed e] assms(6) Co_check by auto
  next
    case (Inr v)
    then have "s' = co_goto (M_run (k v)) s"
      using assms(6) Co_check by simp
    then show ?thesis
      using Co_check Inr assms(1,2)
      by (intro keeps_run [where xs = "[]" and b = b and f' = f]) (auto simp: co_goto_def will_run_def)
  qed
next
  case (Co_await_task b' k)
  obtain P g where g: "task_initiate (cf_ss f) (cf_resumer f) (coro_new :: ('a, 'b, 'c, 'd) coro_frame) = (P, g)"
    by fastforce
  show ?thesis
    using Co_await_task assms(1,2,6) g sizes_new [OF g]
    by (intro keeps_run [where xs = "[O_started]" and b = b and b' = b' and F = F and F' = "f\<lparr>cf_k := k\<rparr> # F"])
      (auto simp: await_task_def co_assert_def co_note_def will_run_def head_sizes_def split: option.splits)
next
  case (Co_add_cleanup b')
  then show ?thesis
    using assms(1,2,6)
    by (intro keeps_run [where xs = "[]" and b = b and b' = b' and f' = "f\<lparr>cf_gs := add_cleanup (cf_gs f)\<rparr>" and F = F and F' = F])
      (auto simp: co_updates will_run_def sizes_add)
next
  case (Co_add_parent_cleanup b')
  then obtain g G where G: "F = g # G"
    using assms(3,5) by (cases F) auto
  show ?thesis
    using Co_add_parent_cleanup assms(1,2,6) G
    by (intro keeps_run [where xs = "[]" and b = b and b' = b' and f' = f and F = F and
          F' = "g\<lparr>cf_gs := add_cleanup (cf_gs g)\<rparr> # G"])
      (auto simp: add_parent_cleanup_def co_updates will_run_def head_sizes_def sizes_add Let_def split: option.splits)
next
  case (Co_scope_begin b')
  then show ?thesis
    using assms(1,2,6)
    by (intro keeps_run [where xs = "[]" and b = b and b' = b' and f' = "f\<lparr>cf_gs := gs_push (cf_gs f)\<rparr>" and F = F and F' = F])
      (auto simp: co_updates will_run_def sizes_push)
next
  case (Co_scope_end b')
  then show ?thesis
    using assms(1,2,6)
    by (intro keeps_run [where xs = "[]" and b = b and b' = b' and f' = "f\<lparr>cf_gs := gs_guard_end (cf_gs f)\<rparr>" and F = F and F' = F])
      (auto simp: co_updates will_run_def sizes_end)
next
  case (Co_yield v b')
  then have s': "s' = co_goto (M_yielded b') (co_note (O_yield v) s)"
    using assms(6) by (simp split: if_splits)
  then have "predict ec failed s (O_yield v # ys) = predict ec failed s' ys" for ys
    using assms(1,2) Co_yield by (simp add: predict_def co_updates will_run_def)
  then show ?thesis
    using s' by (intro keepsI [where xs = "[O_yield v]"]) (simp_all add: co_updates)
next
  case (Co_scope_clean k)
  then show ?thesis
    using assms keeps_scope_clean [OF assms(1)] by auto
next
  case (Co_query q k)
  obtain x stop where q: "ask q (cf_ss f) (cs_stop s) = (x, stop)"
    by fastforce
  then show ?thesis
    using Co_query assms(1,2,6)
    by (intro keeps_run [where xs = "[O_bool x]" and b = b and b' = "k x" and f' = f and F = F and F' = F])
      (auto simp: co_updates will_run_def)
next
  case (Co_get_stop_source k)
  then show ?thesis
    using assms(1,2,6)
    by (intro keeps_run [where xs = "[O_stop_source (cf_ss f)]" and b = b and b' = "k (cf_ss f)" and f' = f and F = F and F' = F])
      (auto simp: co_updates will_run_def)
next
  case (Co_set_stop_source ss b')
  then show ?thesis
    using assms(1,2,6)
    by (intro keeps_run [where xs = "[]" and b = b and b' = b' and f' = "f\<lparr>cf_ss := ss\<rparr>" and F = F and F' = F])
      (auto simp: co_updates will_run_def)
next
  case (Co_get_resumer k)
  then show ?thesis
    using assms(1,2,6)
    by (intro keeps_run [where xs = "[O_resumer (cf_resumer f)]" and b = b and b' = "k (cf_resumer f)" and f' = f and F = F and F' = F])
      (auto simp: co_updates will_run_def)
next
  case (Co_set_resumer rs b')
  then show ?thesis
    using assms(1,2,6)
    by (intro keeps_run [where xs = "[]" and b = b and b' = b' and f' = "f\<lparr>cf_resumer := rs\<rparr>" and F = F and F' = F])
      (auto simp: co_updates will_run_def)
qed (use assms in auto)

lemma keeps_step:
  assumes "co_inv failed s" "co_step ec failed ev s = Some s'"
  shows "keeps ec failed s s'"
proof (cases "cs_frames s")
  case Nil
  then have "cs_mode s = M_done"
    using assms(1) by (simp add: co_inv_def)
  then show ?thesis
    using assms(2) Nil by (cases ev) (auto simp: keeps_def predict_def)
next
  case (Cons f F)
  then obtain p where p: "frames_ok F p" "mode_ok failed (cs_mode s) f p"
    using co_invE [OF assms(1)] by blast
  show ?thesis
  proof (cases ev)
    case Co_tick
    then obtain b where b: "cs_mode s = M_run b" "co_node ec b f s = Some s'"
      using assms(2) Cons by (auto split: co_mode.splits)
    then obtain d c where "frame_ok d c f" "scoped b p d c"
      using p(2) by (auto simp: mode_ok_def)
    then show ?thesis
      using keeps_node [OF Cons b(1) p(1)] b(2) by blast
  next
    case (Co_ready r)
    then obtain op k where k: "cs_mode s = M_run (Co_await op k)" "s' = co_goto (M_run (k r)) (co_note (O_res r) s)"
      using assms(2) by (auto split: co_mode.splits coro.splits)
    then show ?thesis
      using Cons by (intro keeps_run [where xs = "[O_res r]" and f' = f and F = F and F' = F]) (auto simp: co_updates will_run_def)
  next
    case Co_suspend
    then obtain op k where k: "cs_mode s = M_run (Co_await op k)" "s' = co_goto (M_await k) s"
      using assms(2) by (auto split: co_mode.splits coro.splits)
    have "predict ec failed s ys = predict ec failed s' ys" for ys
      unfolding k(2) using Cons k(1)
      by (auto simp: predict_def co_goto_def will_run_def split: list.split obs.split)
    then show ?thesis
      using k by (intro keepsI [where xs = "[]"]) (simp_all add: co_goto_def)
  next
    case (Co_finish r)
    then obtain k where k: "cs_mode s = M_await k" "s' = co_goto (M_run (k r)) (co_note (O_res r) s)"
      using assms(2) by (auto split: co_mode.splits)
    then show ?thesis
      using Cons by (intro keepsI [where xs = "[O_res r]"]) (simp_all add: predict_def co_updates)
  next
    case Co_next
    then obtain b where b: "cs_mode s = M_yielded b" "s' = co_goto (M_run b) s"
      using assms(2) by (auto split: co_mode.splits)
    then show ?thesis
      using Cons by (intro keepsI [where xs = "[]"]) (simp_all add: predict_def co_updates)
  next
    case Co_no_memory
    then obtain b k where k: "cs_mode s = M_run (Co_await_task b k)"
      "s' = co_goto (M_run (k (Inl (ec errc_allocation_failed)))) (co_note O_alloc_failed s)"
      using assms(2) by (auto split: co_mode.splits coro.splits)
    then show ?thesis
      using Cons by (intro keeps_run [where xs = "[O_alloc_failed]" and f' = f and F = F and F' = F]) (auto simp: co_updates will_run_def)
  next
    case (Co_cleanup_event lev)
    then consider (scope) k where "cs_mode s = M_scope k" "scope_event failed lev k f s = Some s'"
      | (cleanup) "cs_mode s = M_cleanup" "cleanup_event ec failed lev f s = Some s'"
      using assms(2) Cons by (auto split: co_mode.splits)
    then show ?thesis
    proof cases
      case scope
      then show ?thesis
        using keeps_scope_event [OF Cons scope(1) _ scope(2)] p(2) by (auto simp: mode_ok_def)
    next
      case cleanup
      then show ?thesis
        using keeps_cleanup_event [OF Cons p(1) cleanup(1) _ _ _ _ cleanup(2)] p(2)
        by (auto simp: mode_ok_def cleanup_running_def)
    qed
  next
    case (Co_stop i)
    have "predict ec failed (s\<lparr>cs_stop := x\<rparr>) = predict ec failed s" for x
      by (rule ext) (simp add: predict_def cong: list.case_cong co_mode.case_cong)
    then show ?thesis
      using assms(2) Co_stop by (auto simp: keeps_def)
  qed
qed

lemma keeps_exec:
  "co_exec ec failed evs s = Some s' \<Longrightarrow> co_inv failed s \<Longrightarrow> keeps ec failed s s'"
proof (induction evs arbitrary: s)
  case Nil
  then show ?case by (auto simp: keeps_def)
next
  case (Cons ev evs)
  then obtain s1 where s1: "co_step ec failed ev s = Some s1" "co_exec ec failed evs s1 = Some s'"
    by (auto split: option.splits)
  then have "keeps ec failed s s1" "keeps ec failed s1 s'"
    using Cons co_step_inv by (blast intro: keeps_step)+
  then show ?case
    unfolding keeps_def by (metis append.assoc)
qed

end
