(* ===== verification/Coro_Live.thy ===== *)
theory Coro_Live
  imports Coro_Props
begin

text \<open>
  A coroutine task ends: when the operations it awaits finish, no run goes on for ever, and a task that
  has not called its continuation has a step left. A body is a well-founded tree, so the proof is by
  induction on it; the cleanup scopes are finite, their operations finish once each.
\<close>

section \<open>States whose runs end\<close>

definition is_stop :: "('v, 'e, 'r) co_event \<Rightarrow> bool" where
  "is_stop ev \<longleftrightarrow> (\<exists>i. ev = Co_stop i)"

text \<open>Runs end from the state, whatever stop requests come in between.\<close>

inductive co_ends :: "(errc \<Rightarrow> 'e) \<Rightarrow> ('r \<Rightarrow> bool) \<Rightarrow> ('o, 'v, 'e, 'r) co_state \<Rightarrow> bool" for ec failed where
  co_endsI: "(\<And>ev stop s'. \<not> is_stop ev \<Longrightarrow> co_step ec failed ev (s\<lparr>cs_stop := stop\<rparr>) = Some s' \<Longrightarrow> co_ends ec failed s') \<Longrightarrow>
    co_ends ec failed s"

inductive_cases co_endsE: "co_ends ec failed s"

lemma co_ends_stop: "co_ends ec failed s \<Longrightarrow> co_ends ec failed (s\<lparr>cs_stop := x\<rparr>)"
  by (rule co_endsI) (auto elim: co_endsE)

lemma co_inv_stop [simp]: "co_inv failed (s\<lparr>cs_stop := x\<rparr>) = co_inv failed s"
  by (simp add: co_inv_def cong: list.case_cong)

text \<open>Control is back in the frame that waited, or the outermost task is over.\<close>

definition returned_to :: "('o, 'v, 'e, 'r) coro_frame list \<Rightarrow> ('o, 'v, 'e, 'r) co_state \<Rightarrow> bool" where
  "returned_to F s \<longleftrightarrow>
     map cf_k (cs_frames s) = map cf_k F \<and>
     (case cs_frames s of [] \<Rightarrow> True | g # G \<Rightarrow> \<exists>r. cs_mode s = M_run (cf_k g r))"

lemma returned_cong: "map cf_k F = map cf_k F' \<Longrightarrow> returned_to F s = returned_to F' s"
  by (simp add: returned_to_def)

lemma destroy_returned:
  assumes "cs_frames s = f # F" "cf_r f \<noteq> None"
  shows "returned_to F (destroy_and_resume s)"
  using assms by (cases F) (auto simp: destroy_and_resume_def returned_to_def co_assert_def Let_def)

lemma note_cleanup_r: "cf_r f \<noteq> None \<Longrightarrow> cf_r (note_cleanup_err ec f) \<noteq> None"
  by (auto simp: note_cleanup_err_def split: option.splits)

section \<open>Cleanup ends\<close>

lemma run_modeD:
  assumes "co_inv failed s" "cs_frames s = f # F"
  shows "cs_mode s \<noteq> M_done" "cs_mode s \<noteq> M_aborted"
    "cs_mode s = M_cleanup \<Longrightarrow> cf_r f \<noteq> None \<and> cleanup_running failed (cf_gs f)"
  using assms by (auto simp: co_inv_def mode_ok_def)

lemma cleanup_ends:
  assumes "co_inv failed s" "cs_frames s = f # F" "cs_mode s = M_cleanup"
    "\<And>s'. co_inv failed s' \<Longrightarrow> returned_to F s' \<Longrightarrow> co_ends ec failed s'"
  shows "co_ends ec failed s"
  using assms(1-3)
proof (induction "gs_work (cf_gs f)" arbitrary: s f rule: less_induct)
  case less
  note run = run_modeD(3) [OF less.prems]
  show ?case
  proof (rule co_endsI)
    fix ev stop s'
    assume st: "co_step ec failed ev (s\<lparr>cs_stop := stop\<rparr>) = Some s'" and "\<not> is_stop ev"
    let ?s = "s\<lparr>cs_stop := stop\<rparr>"
    have inv: "co_inv failed s'"
      using co_step_inv [OF _ st] less.prems(1) by simp
    obtain lev where ev: "ev = Co_cleanup_event lev" "cleanup_event ec failed lev f ?s = Some s'"
      using st \<open>\<not> is_stop ev\<close> less.prems(2,3) by (cases ev) (auto simp: is_stop_def)
    then obtain gs where gs: "gs_step failed False lev (cf_gs f) = Some gs"
      by (auto simp: cleanup_event_def split: option.splits)
    show "co_ends ec failed s'"
    proof (cases "gs_resumed (cf_gs f) < gs_resumed gs")
      case True
      let ?f = "note_cleanup_err ec (f\<lparr>cf_gs := gs\<rparr>)"
      have "s' = destroy_and_resume (co_note_finish lev (co_put ?f ?s))"
        using ev(2) gs True by (simp add: cleanup_event_def)
      then have "returned_to F s'"
        using less.prems(2) run note_cleanup_r [of "f\<lparr>cf_gs := gs\<rparr>" ec]
        by (auto simp: co_put_def intro!: destroy_returned [where f = ?f])
      then show ?thesis
        using assms(4) inv by blast
    next
      case False
      have s': "s' = co_note_finish lev (co_put_gs gs f ?s)"
        using ev(2) gs False by (simp add: cleanup_event_def)
      have "gs_work gs < gs_work (cf_gs f)"
        using gs_step_inv [OF _ _ gs] run by (fastforce simp: cleanup_running_def)
      then show ?thesis
        using less.hyps [of "f\<lparr>cf_gs := gs\<rparr>" s'] inv less.prems(2,3) by (simp add: s' co_updates)
    qed
  qed
qed

lemma initiate_cleanup_ends:
  assumes "co_inv failed (initiate_cleanup ec s)" "cs_frames s = f # F" "cf_r f \<noteq> None"
    "\<And>s'. co_inv failed s' \<Longrightarrow> returned_to F s' \<Longrightarrow> co_ends ec failed s'"
  shows "co_ends ec failed (initiate_cleanup ec s)"
proof -
  obtain b gs where i: "gs_initiate False False (cleanup (cf_gs f)) = (b, gs)"
    by fastforce
  let ?f = "f\<lparr>cf_gs := gs\<rparr>"
  show ?thesis
  proof (cases b)
    case True
    then have "initiate_cleanup ec s = co_goto M_cleanup (co_put ?f s)"
      using assms(2) i by (simp add: initiate_cleanup_def)
    then show ?thesis
      using assms(1,2,4) cleanup_ends [of failed "initiate_cleanup ec s" ?f F ec] by (simp add: co_goto_def co_put_def)
  next
    case False
    then have "initiate_cleanup ec s = destroy_and_resume (co_put (note_cleanup_err ec ?f) s)"
      using assms(2) i by (simp add: initiate_cleanup_def)
    then have "returned_to F (initiate_cleanup ec s)"
      using assms(2,3) note_cleanup_r [of ?f ec] by (auto simp: co_put_def intro!: destroy_returned [where f = "note_cleanup_err ec ?f"])
    then show ?thesis
      using assms(1,4) by blast
  qed
qed

lemma initiate_throw_ends:
  assumes "co_inv failed (initiate_throw ec e s)" "cs_frames s = f # F"
    "\<And>s'. co_inv failed s' \<Longrightarrow> returned_to F s' \<Longrightarrow> co_ends ec failed s'"
  shows "co_ends ec failed (initiate_throw ec e s)"
  using assms initiate_cleanup_ends [of failed ec "co_put (f\<lparr>cf_r := Some (Inl e)\<rparr>) s" "f\<lparr>cf_r := Some (Inl e)\<rparr>" F]
  by (simp add: initiate_throw_def co_put_def)

lemma co_return_ends:
  assumes "co_inv failed (co_return ec v s)" "cs_frames s = f # F"
    "\<And>s'. co_inv failed s' \<Longrightarrow> returned_to F s' \<Longrightarrow> co_ends ec failed s'"
  shows "co_ends ec failed (co_return ec v s)"
  using assms initiate_cleanup_ends [of failed ec "co_put (f\<lparr>cf_r := Some (Inr v)\<rparr>) (co_assert (cf_r f = None) s)"
      "f\<lparr>cf_r := Some (Inr v)\<rparr>" F]
  by (simp add: co_return_def co_put_def co_assert_def)

section \<open>Scopes end\<close>

text \<open>\<open>ends_under F b\<close>: runs of \<open>b\<close> above frames like \<open>F\<close> end if those do when control returns.\<close>

definition ends_under ::
  "(errc \<Rightarrow> 'e) \<Rightarrow> ('r \<Rightarrow> bool) \<Rightarrow> ('o, 'v, 'e) coro \<Rightarrow> bool" where
  "ends_under ec failed b \<longleftrightarrow>
     (\<forall>(s :: ('o, 'v, 'e, 'r) co_state) f F. co_inv failed s \<longrightarrow> cs_frames s = f # F \<longrightarrow> cs_mode s = M_run b \<longrightarrow>
       (\<forall>s'. co_inv failed s' \<longrightarrow> returned_to F s' \<longrightarrow> co_ends ec failed s') \<longrightarrow> co_ends ec failed s)"

lemma ends_underD:
  assumes "ends_under ec failed b" "co_inv failed s" "cs_frames s = f # F" "cs_mode s = M_run b"
    "\<And>s'. co_inv failed s' \<Longrightarrow> returned_to F s' \<Longrightarrow> co_ends ec failed s'"
  shows "co_ends ec failed s"
  using assms by (auto simp: ends_under_def)

lemma scope_ends:
  assumes "co_inv failed s" "cs_frames s = f # F" "cs_mode s = M_scope k" "\<And>err. ends_under ec failed (k err)"
    "\<And>s'. co_inv failed s' \<Longrightarrow> returned_to F s' \<Longrightarrow> co_ends ec failed s'"
  shows "co_ends ec failed s"
  using assms(1-3)
proof (induction "ch_work (lz_ops (hd (gs_gps (cf_gs f))))" arbitrary: s f rule: less_induct)
  case less
  obtain d where d: "scope_running failed d (gs_gps (cf_gs f))"
    using less.prems by (auto simp: co_inv_def mode_ok_def)
  then obtain g rest where g: "gs_gps (cf_gs f) = g # rest" "lz_inv failed g" "ch_open (lz_ops g) \<noteq> 0"
    by (cases "gs_gps (cf_gs f)") (auto simp: scope_running_def)
  show ?case
  proof (rule co_endsI)
    fix ev stop s'
    assume st: "co_step ec failed ev (s\<lparr>cs_stop := stop\<rparr>) = Some s'" and "\<not> is_stop ev"
    let ?s = "s\<lparr>cs_stop := stop\<rparr>"
    have inv: "co_inv failed s'"
      using co_step_inv [OF _ st] less.prems(1) by simp
    obtain lev where ev: "ev = Co_cleanup_event lev" "scope_event failed lev k f ?s = Some s'"
      using st \<open>\<not> is_stop ev\<close> less.prems(2,3) by (cases ev) (auto simp: is_stop_def)
    then obtain g' where g': "lz_step failed lev g = Some g'"
      using g(1) by (auto simp: scope_event_def split: option.splits)
    note i = lz_step_inv [OF g(2) g']
    show "co_ends ec failed s'"
    proof (cases "lz_resumed g < lz_resumed g'")
      case True
      let ?f = "f\<lparr>cf_gs := (cf_gs f)\<lparr>gs_gps := g'\<lparr>lz_ops := []\<rparr> # rest\<rparr>\<rparr>"
      have "cs_frames s' = ?f # F" "cs_mode s' = M_run (k (lz_err g'))"
        using ev(2) g(1) g' True less.prems(2)
        by (auto simp: scope_event_def lz_take_result_def co_updates)
      then show ?thesis
        using ends_underD [OF assms(4) inv _ _ assms(5)] by blast
    next
      case False
      let ?f = "f\<lparr>cf_gs := (cf_gs f)\<lparr>gs_gps := g' # rest\<rparr>\<rparr>"
      have "cs_frames s' = ?f # F" "cs_mode s' = M_scope k"
        using ev(2) g(1) g' False less.prems(2,3) by (auto simp: scope_event_def co_updates)
      then show ?thesis
        using less.hyps [of ?f s'] inv i g(1) by simp
    qed
  qed
qed

lemma scope_clean_ends:
  assumes "co_inv failed (scope_clean k f s)" "cs_frames s = f # F" "gs_gps (cf_gs f) \<noteq> []"
    "\<And>err. ends_under ec failed (k err)"
    "\<And>s'. co_inv failed s' \<Longrightarrow> returned_to F s' \<Longrightarrow> co_ends ec failed s'"
  shows "co_ends ec failed (scope_clean k f s)"
proof -
  obtain g rest where g: "gs_gps (cf_gs f) = g # rest"
    using assms(3) by (meson neq_Nil_conv)
  obtain x g' where i: "lz_initiate False g = (x, g')"
    by fastforce
  show ?thesis
  proof (cases x)
    case True
    have "cs_frames (scope_clean k f s) = f\<lparr>cf_gs := (cf_gs f)\<lparr>gs_gps := g' # rest\<rparr>\<rparr> # F"
      "cs_mode (scope_clean k f s) = M_scope k"
      using assms(2) g i True by (simp_all add: scope_clean_def co_updates)
    then show ?thesis
      using scope_ends [OF assms(1)] assms(4,5) by blast
  next
    case False
    have "cs_frames (scope_clean k f s) = f\<lparr>cf_gs := (cf_gs f)\<lparr>gs_gps := g'\<lparr>lz_ops := []\<rparr> # rest\<rparr>\<rparr> # F"
      "cs_mode (scope_clean k f s) = M_run (k (lz_err g'))"
      using assms(2) g i False by (simp_all add: scope_clean_def lz_take_result_def co_updates)
    then show ?thesis
      using ends_underD [OF assms(4,1)] assms(5) by blast
  qed
qed

section \<open>Bodies end\<close>

text \<open>The step of a node that only runs on: another body of the tree above the same frames.\<close>

lemma ends_underI:
  assumes "\<And>(s :: ('o, 'v, 'e, 'r) co_state) f F ev s' d c p. cs_frames s = f # F \<Longrightarrow> cs_mode s = M_run b \<Longrightarrow>
      co_inv failed s \<Longrightarrow> co_inv failed s' \<Longrightarrow> \<not> is_stop ev \<Longrightarrow> co_step ec failed ev s = Some s' \<Longrightarrow>
      frames_ok F p \<Longrightarrow> frame_ok d c f \<Longrightarrow> scoped b p d c \<Longrightarrow>
      (\<And>s''. co_inv failed s'' \<Longrightarrow> returned_to F s'' \<Longrightarrow> co_ends ec failed s'') \<Longrightarrow> co_ends ec failed s'"
  shows "ends_under ec failed (b :: ('o, 'v, 'e) coro)"
  unfolding ends_under_def
proof (intro allI impI, rule co_endsI)
  fix s :: "('o, 'v, 'e, 'r) co_state" and f F ev stop s'
  assume s: "co_inv failed s" "cs_frames s = f # F" "cs_mode s = M_run b"
    and ret: "\<forall>s'. co_inv failed s' \<longrightarrow> returned_to F s' \<longrightarrow> co_ends ec failed s'"
    and st: "\<not> is_stop ev" "co_step ec failed ev (s\<lparr>cs_stop := stop\<rparr>) = Some s'"
  let ?s = "s\<lparr>cs_stop := stop\<rparr>"
  have inv: "co_inv failed ?s" "co_inv failed s'"
    using co_step_inv [OF _ st(2)] s(1) by simp_all
  obtain p d c where p: "frames_ok F p" "frame_ok d c f" "scoped b p d c"
    using s by (auto simp: co_inv_def mode_ok_def)
  show "co_ends ec failed s'"
  proof (rule assms [of ?s f F s' ev p d c])
    fix s'' assume "co_inv failed s''" "returned_to F s''"
    then show "co_ends ec failed s''"
      using ret by blast
  qed (use s st inv p in simp_all)
qed

lemma runs_on:
  assumes "ends_under ec failed b" "co_inv failed s'" "cs_frames s' = f' # F'" "cs_mode s' = M_run b"
    "map cf_k F' = map cf_k F" "\<And>s''. co_inv failed s'' \<Longrightarrow> returned_to F s'' \<Longrightarrow> co_ends ec failed s''"
  shows "co_ends ec failed s'"
  by (rule ends_underD [OF assms(1-4)]) (use assms(6) returned_cong [OF assms(5)] in blast)

lemma gps_nonempty: "frame_ok d c f \<Longrightarrow> 0 < d \<Longrightarrow> gs_gps (cf_gs f) \<noteq> []"
  by (auto simp: frame_ok_def gps_ok_def)

lemma suspended_ends:
  assumes "co_inv failed s" "cs_frames s = f # F" "cs_mode s = M_await k" "\<And>r. ends_under ec failed (k r)"
    "\<And>s'. co_inv failed s' \<Longrightarrow> returned_to F s' \<Longrightarrow> co_ends ec failed s'"
  shows "co_ends ec failed s"
proof (rule co_endsI)
  fix ev stop s'
  assume st: "co_step ec failed ev (s\<lparr>cs_stop := stop\<rparr>) = Some s'" and "\<not> is_stop ev"
  have inv: "co_inv failed s'"
    using co_step_inv [OF _ st] assms(1) by simp
  obtain r where "cs_frames s' = f # F" "cs_mode s' = M_run (k r)"
    using st \<open>\<not> is_stop ev\<close> assms(2,3) by (cases ev) (auto simp: is_stop_def co_updates)
  then show "co_ends ec failed s'"
    using ends_underD [OF assms(4) inv] assms(5) by blast
qed

text \<open>A node that is no await and after which the frame runs on.\<close>

lemma ends_under_node:
  assumes "\<And>(s :: ('o, 'v, 'e, 'r) co_state) f F s'. cs_frames s = f # F \<Longrightarrow> co_node ec b f s = Some s' \<Longrightarrow>
      \<exists>f' F' b'. cs_frames s' = f' # F' \<and> map cf_k F' = map cf_k F \<and> cs_mode s' = M_run b' \<and> ends_under ec failed b'"
    and "\<And>op k. b \<noteq> Co_await op k" "\<And>b' k. b \<noteq> Co_await_task b' k"
  shows "ends_under ec (failed :: 'r \<Rightarrow> bool) (b :: ('o, 'v, 'e) coro)"
proof (rule ends_underI)
  fix s :: "('o, 'v, 'e, 'r) co_state" and f F ev s' and d :: nat and c p
  assume s: "cs_frames s = f # F" "cs_mode s = M_run b" "co_inv failed s'" "\<not> is_stop ev" "co_step ec failed ev s = Some s'"
    and ret: "\<And>s''. co_inv failed s'' \<Longrightarrow> returned_to F s'' \<Longrightarrow> co_ends ec failed s''"
  have "co_node ec b f s = Some s'"
    using s assms(2,3) by (cases ev) (auto simp: is_stop_def split: coro.splits)
  then obtain f' F' b' where n: "cs_frames s' = f' # F'" "map cf_k F' = map cf_k F" "cs_mode s' = M_run b'" "ends_under ec failed b'"
    using assms(1) [OF s(1)] by blast
  show "co_ends ec failed s'"
    by (rule runs_on [OF n(4) s(3) n(1,3,2) ret])
qed

lemma yielded_ends:
  assumes "co_inv failed s" "cs_frames s = f # F" "cs_mode s = M_yielded b" "ends_under ec failed b"
    "\<And>s'. co_inv failed s' \<Longrightarrow> returned_to F s' \<Longrightarrow> co_ends ec failed s'"
  shows "co_ends ec failed s"
proof (rule co_endsI)
  fix ev stop s'
  assume st: "co_step ec failed ev (s\<lparr>cs_stop := stop\<rparr>) = Some s'" and "\<not> is_stop ev"
  have inv: "co_inv failed s'"
    using co_step_inv [OF _ st] assms(1) by simp
  have "cs_frames s' = f # F" "cs_mode s' = M_run b"
    using st \<open>\<not> is_stop ev\<close> assms(2,3) by (cases ev; auto simp: is_stop_def co_updates)+
  then show "co_ends ec failed s'"
    using ends_underD [OF assms(4) inv] assms(5) by blast
qed

lemma body_ends: "ends_under ec (failed :: 'r \<Rightarrow> bool) (b :: ('o, 'v, 'e) coro)"
proof (induction b)
  case (Co_return v)
  show ?case
    by (rule ends_underI) (auto simp: is_stop_def co_return_ends split: co_event.splits elim!: co_step.elims)
next
  case (Co_throw e)
  show ?case
    by (rule ends_underI) (auto simp: is_stop_def initiate_throw_ends split: co_event.splits elim!: co_step.elims)
next
  case Co_fall_off
  show ?case
    by (rule ends_underI) simp
next
  case (Co_check r k)
  show ?case
  proof (rule ends_underI)
    fix s :: "('o, 'v, 'e, 'r) co_state" and f F ev s' and d :: nat and c p
    assume s: "cs_frames s = f # F" "cs_mode s = M_run (Co_check r k)" "co_inv failed s'" "\<not> is_stop ev"
        "co_step ec failed ev s = Some s'"
      and ret: "\<And>s''. co_inv failed s'' \<Longrightarrow> returned_to F s'' \<Longrightarrow> co_ends ec failed s''"
    show "co_ends ec failed s'"
    proof (cases r)
      case (Inl e)
      then have "s' = initiate_throw ec e s"
        using s by (cases ev) (auto simp: is_stop_def)
      then show ?thesis
        using initiate_throw_ends [OF _ s(1) ret] s(3) by blast
    next
      case (Inr v)
      then have "cs_frames s' = f # F" "cs_mode s' = M_run (k v)"
        using s by (cases ev; auto simp: is_stop_def co_goto_def)+
      moreover have "ends_under ec failed (k v)"
        using Co_check.IH by simp
      ultimately show ?thesis
        using ends_underD [OF _ s(3)] ret by blast
    qed
  qed
next
  case (Co_await op k)
  show ?case
  proof (rule ends_underI)
    fix s :: "('o, 'v, 'e, 'r) co_state" and f F ev s' and d :: nat and c p
    assume s: "cs_frames s = f # F" "cs_mode s = M_run (Co_await op k)" "co_inv failed s'" "\<not> is_stop ev"
        "co_step ec failed ev s = Some s'"
      and ret: "\<And>s''. co_inv failed s'' \<Longrightarrow> returned_to F s'' \<Longrightarrow> co_ends ec failed s''"
    have IH: "ends_under ec failed (k r)" for r
      using Co_await.IH by simp
    consider r where "cs_frames s' = f # F" "cs_mode s' = M_run (k r)" | "cs_frames s' = f # F" "cs_mode s' = M_await k"
      using s by (cases ev) (auto simp: is_stop_def co_updates)
    then show "co_ends ec failed s'"
    proof cases
      case 1
      then show ?thesis
        using ends_underD [OF IH s(3)] ret by blast
    next
      case 2
      show ?thesis
        by (rule suspended_ends [OF s(3) 2 IH ret])
    qed
  qed
next
  case (Co_await_task b k)
  show ?case
  proof (rule ends_underI)
    fix s :: "('o, 'v, 'e, 'r) co_state" and f F ev s' and d :: nat and c p
    assume s: "cs_frames s = f # F" "cs_mode s = M_run (Co_await_task b k)" "co_inv failed s'" "\<not> is_stop ev"
        "co_step ec failed ev s = Some s'"
      and ret: "\<And>s''. co_inv failed s'' \<Longrightarrow> returned_to F s'' \<Longrightarrow> co_ends ec failed s''"
    have IH: "ends_under ec failed b" "ends_under ec failed (k r)" for r
      using Co_await_task.IH by simp_all
    consider (started) g where "cs_frames s' = g # f\<lparr>cf_k := k\<rparr> # F" "cs_mode s' = M_run b"
      | (no_memory) r where "cs_frames s' = f # F" "cs_mode s' = M_run (k r)"
      using s by (cases ev) (auto simp: is_stop_def co_updates await_task_def split: prod.splits)
    then show "co_ends ec failed s'"
    proof cases
      case started
      show ?thesis
      proof (rule ends_underD [OF IH(1) s(3) started])
        fix t :: "('o, 'v, 'e, 'r) co_state"
        assume t: "co_inv failed t" "returned_to (f\<lparr>cf_k := k\<rparr> # F) t"
        then obtain g' G' r where "cs_frames t = g' # G'" "map cf_k G' = map cf_k F" "cs_mode t = M_run (k r)"
          by (cases "cs_frames t") (auto simp: returned_to_def)
        then show "co_ends ec failed t"
          using runs_on [OF IH(2) t(1) _ _ _ ret] by blast
      qed
    next
      case no_memory
      then show ?thesis
        using ends_underD [OF IH(2) s(3)] ret by blast
    qed
  qed
next
  case (Co_yield v b)
  show ?case
  proof (rule ends_underI)
    fix s :: "('o, 'v, 'e, 'r) co_state" and f F ev s' and d :: nat and c p
    assume s: "cs_frames s = f # F" "cs_mode s = M_run (Co_yield v b)" "co_inv failed s'" "\<not> is_stop ev"
        "co_step ec failed ev s = Some s'"
      and ret: "\<And>s''. co_inv failed s'' \<Longrightarrow> returned_to F s'' \<Longrightarrow> co_ends ec failed s''"
    have "cs_frames s' = f # F" "cs_mode s' = M_yielded b"
      using s(1,2,4,5) by (cases ev; auto simp: is_stop_def co_updates split: if_splits)+
    then show "co_ends ec failed s'"
      using yielded_ends [OF s(3) _ _ Co_yield.IH ret] by blast
  qed
next
  case (Co_scope_clean k)
  show ?case
  proof (rule ends_underI)
    fix s :: "('o, 'v, 'e, 'r) co_state" and f F ev s' d c p
    assume s: "cs_frames s = f # F" "cs_mode s = M_run (Co_scope_clean k)" "co_inv failed s'" "\<not> is_stop ev"
        "co_step ec failed ev s = Some s'" "frame_ok d c f" "scoped (Co_scope_clean k) p d c"
      and ret: "\<And>s''. co_inv failed s'' \<Longrightarrow> returned_to F s'' \<Longrightarrow> co_ends ec failed s''"
    have "s' = scope_clean k f s"
      using s(1,2,4,5) by (cases ev) (auto simp: is_stop_def)
    moreover have "gs_gps (cf_gs f) \<noteq> []"
      using gps_nonempty [OF s(6)] s(7) by simp
    ultimately show "co_ends ec failed s'"
      using scope_clean_ends [of failed k f s F ec] s(1,3) Co_scope_clean.IH ret by simp
  qed
next
  case (Co_add_cleanup b)
  then show ?case
    by (intro ends_under_node) (auto simp: co_updates Let_def)
next
  case (Co_add_parent_cleanup b)
  then show ?case
    by (intro ends_under_node) (auto simp: co_updates add_parent_cleanup_def Let_def split: list.splits prod.splits)
next
  case (Co_scope_begin b)
  then show ?case
    by (intro ends_under_node) (auto simp: co_updates Let_def)
next
  case (Co_scope_end b)
  then show ?case
    by (intro ends_under_node) (auto simp: co_updates Let_def)
next
  case (Co_query q k)
  then show ?case
    by (intro ends_under_node) (auto simp: co_updates Let_def split: list.splits prod.splits)
next
  case (Co_get_stop_source k)
  then show ?case
    by (intro ends_under_node) (auto simp: co_updates Let_def)
next
  case (Co_set_stop_source ss b)
  then show ?case
    by (intro ends_under_node) (auto simp: co_updates Let_def)
next
  case (Co_get_resumer k)
  then show ?case
    by (intro ends_under_node) (auto simp: co_updates Let_def)
next
  case (Co_set_resumer rs b)
  then show ?case
    by (intro ends_under_node) (auto simp: co_updates Let_def)
qed

section \<open>Progress\<close>

lemma co_not_stuck:
  fixes ec :: "errc \<Rightarrow> 'e" and s :: "('o, 'v, 'e, 'r) co_state"
  assumes "co_inv failed s" "cs_frames s \<noteq> []"
  shows "\<exists>ev s'. \<not> is_stop ev \<and> co_step ec failed ev s = Some s'"
proof -
  obtain f F where f: "cs_frames s = f # F"
    using assms(2) by (meson neq_Nil_conv)
  then obtain p where m: "mode_ok failed (cs_mode s) f p" and p: "frames_ok F p"
    using co_invE [OF assms(1)] by blast
  have F: "p = Generator \<Longrightarrow> F = []"
    using p by (simp add: frames_ok_generator)
  show ?thesis
  proof (cases "cs_mode s")
    case (M_run b)
    then obtain d c where b: "scoped b p d c"
      using m by (auto simp: mode_ok_def)
    show ?thesis
    proof (cases "co_node ec b f s")
      case None
      then obtain op k where "b = Co_await op k"
        using b f F by (cases b) (auto split: sum.splits prod.splits)
      then show ?thesis
        using M_run by (intro exI [of _ "Co_ready (Inl (ec errc_failed))"]) (simp add: is_stop_def)
    next
      case (Some s')
      then show ?thesis
        using M_run f by (intro exI [of _ Co_tick]) (simp add: is_stop_def)
    qed
  next
    case (M_await k)
    then show ?thesis
      by (intro exI [of _ "Co_finish (Inl (ec errc_failed))"]) (simp add: is_stop_def)
  next
    case (M_yielded b)
    then show ?thesis
      by (intro exI [of _ Co_next]) (simp add: is_stop_def)
  next
    case (M_scope k)
    then obtain d where "scope_running failed d (gs_gps (cf_gs f))"
      using m by (auto simp: mode_ok_def)
    then obtain g rest where g: "gs_gps (cf_gs f) = g # rest" "lz_inv failed g" "ch_open (lz_ops g) \<noteq> 0"
      by (cases "gs_gps (cf_gs f)") (auto simp: scope_running_def)
    then obtain lev g' where "lz_step failed lev g = Some g'"
      using lz_not_stuck ch_work_zero by (metis option.exhaust)
    then show ?thesis
      using M_scope f g by (intro exI [of _ "Co_cleanup_event lev"]) (simp add: is_stop_def scope_event_def)
  next
    case M_cleanup
    then obtain G where "gs_inv failed cleanup_failed G (cf_gs f)" "gs_gps (cf_gs f) \<noteq> []"
      using m by (auto simp: mode_ok_def cleanup_running_def)
    then obtain lev gs where "gs_step failed False lev (cf_gs f) = Some gs"
      using gs_not_stuck by (metis option.exhaust)
    then show ?thesis
      using M_cleanup f by (intro exI [of _ "Co_cleanup_event lev"]) (simp add: is_stop_def cleanup_event_def)
  qed (use m in \<open>auto simp: mode_ok_def\<close>)
qed

lemma cs_stop_self: "s\<lparr>cs_stop := cs_stop s\<rparr> = s"
  by simp

text \<open>An infinite run has only stop requests from some point on.\<close>

lemma co_ends_run:
  assumes "co_ends ec failed s" "\<sigma> 0 = s\<lparr>cs_stop := x\<rparr>" "\<And>n. co_step ec failed (evs n) (\<sigma> n) = Some (\<sigma> (Suc n))"
  shows "\<exists>N. \<forall>n \<ge> N. is_stop (evs n)"
  using assms
proof (induction arbitrary: \<sigma> evs x rule: co_ends.induct)
  case (co_endsI s)
  show ?case
  proof (cases "\<exists>n. \<not> is_stop (evs n)")
    case False
    then show ?thesis by blast
  next
    case True
    then obtain m where m: "\<not> is_stop (evs m)" "\<And>n. n < m \<Longrightarrow> is_stop (evs n)"
      using exists_least_iff [of "\<lambda>n. \<not> is_stop (evs n)"] by blast
    have "n \<le> m \<Longrightarrow> \<exists>y. \<sigma> n = s\<lparr>cs_stop := y\<rparr>" for n
    proof (induction n)
      case 0
      then show ?case using co_endsI.prems(1) by blast
    next
      case (Suc n)
      then obtain y i where "\<sigma> n = s\<lparr>cs_stop := y\<rparr>" "evs n = Co_stop i"
        using m(2) [of n] by (auto simp: is_stop_def)
      then have "\<sigma> (Suc n) = s\<lparr>cs_stop := insert i y\<rparr>"
        using co_endsI.prems(2) [of n] by simp
      then show ?case by blast
    qed
    then obtain y where y: "\<sigma> m = s\<lparr>cs_stop := y\<rparr>"
      by blast
    have "\<exists>N. \<forall>n \<ge> N. is_stop (evs (n + Suc m))"
    proof (rule co_endsI.IH [OF m(1), of y "\<sigma> (Suc m)" "\<lambda>n. \<sigma> (n + Suc m)" "cs_stop (\<sigma> (Suc m))" "\<lambda>n. evs (n + Suc m)"])
      show "co_step ec failed (evs m) (s\<lparr>cs_stop := y\<rparr>) = Some (\<sigma> (Suc m))"
        using co_endsI.prems(2) [of m] y by simp
      show "\<sigma> (0 + Suc m) = (\<sigma> (Suc m))\<lparr>cs_stop := cs_stop (\<sigma> (Suc m))\<rparr>"
        by simp
      show "co_step ec failed (evs (n + Suc m)) (\<sigma> (n + Suc m)) = Some (\<sigma> (Suc n + Suc m))" for n
        using co_endsI.prems(2) [of "n + Suc m"] by simp
    qed
    then obtain N where N: "\<And>n. N \<le> n \<Longrightarrow> is_stop (evs (n + Suc m))"
      by blast
    have "is_stop (evs n)" if "N + Suc m \<le> n" for n
      using N [of "n - Suc m"] that by simp
    then show ?thesis by blast
  qed
qed

lemma co_start_frames: "\<exists>f. cs_frames (co_start ss rs stop b) = [f] \<and> cs_mode (co_start ss rs stop b) = M_run b \<and>
    cs_log (co_start ss rs stop b) = [] \<and> sizes f = []"
  by (auto simp: co_start_def sizes_new split: prod.splits)

lemma co_start_ends:
  fixes ec :: "errc \<Rightarrow> 'e" and failed :: "'r \<Rightarrow> bool" and b :: "('o, 'v, 'e) coro"
  assumes "scoped b p 0 False" and "p \<noteq> Child"
  shows "co_ends ec failed (co_start ss rs stop b)"
proof -
  let ?s0 = "co_start ss rs stop b :: ('o, 'v, 'e, 'r) co_state"
  obtain f where f: "cs_frames ?s0 = [f]" "cs_mode ?s0 = M_run b"
    using co_start_frames by blast
  show ?thesis
  proof (rule ends_underD [OF body_ends co_start_inv [OF assms] f])
    fix s' :: "('o, 'v, 'e, 'r) co_state"
    assume "co_inv failed s'" "returned_to [] s'"
    then have "cs_frames s' = []" "cs_mode s' = M_done"
      by (auto simp: returned_to_def co_inv_def)
    then have none: "co_step ec failed ev (s'\<lparr>cs_stop := x\<rparr>) = None" if "\<not> is_stop ev" for ev x
      using that by (cases ev) (auto simp: is_stop_def)
    show "co_ends ec failed s'"
      by (rule co_endsI) (simp add: none)
  qed
qed

section \<open>The context is handed down\<close>

text \<open>Bodies that set neither a stop source nor a resumer.\<close>

primrec plain_ctx :: "('o, 'v, 'e) coro \<Rightarrow> bool" where
  "plain_ctx (Co_return v) \<longleftrightarrow> True"
| "plain_ctx (Co_throw e) \<longleftrightarrow> True"
| "plain_ctx Co_fall_off \<longleftrightarrow> True"
| "plain_ctx (Co_check r k) \<longleftrightarrow> (\<forall>v. plain_ctx (k v))"
| "plain_ctx (Co_await op k) \<longleftrightarrow> (\<forall>r. plain_ctx (k r))"
| "plain_ctx (Co_await_task b k) \<longleftrightarrow> plain_ctx b \<and> (\<forall>r. plain_ctx (k r))"
| "plain_ctx (Co_yield v b) \<longleftrightarrow> plain_ctx b"
| "plain_ctx (Co_add_cleanup b) \<longleftrightarrow> plain_ctx b"
| "plain_ctx (Co_add_parent_cleanup b) \<longleftrightarrow> plain_ctx b"
| "plain_ctx (Co_scope_begin b) \<longleftrightarrow> plain_ctx b"
| "plain_ctx (Co_scope_clean k) \<longleftrightarrow> (\<forall>r. plain_ctx (k r))"
| "plain_ctx (Co_scope_end b) \<longleftrightarrow> plain_ctx b"
| "plain_ctx (Co_query q k) \<longleftrightarrow> (\<forall>x. plain_ctx (k x))"
| "plain_ctx (Co_get_stop_source k) \<longleftrightarrow> (\<forall>x. plain_ctx (k x))"
| "plain_ctx (Co_set_stop_source ss b) \<longleftrightarrow> False"
| "plain_ctx (Co_get_resumer k) \<longleftrightarrow> (\<forall>x. plain_ctx (k x))"
| "plain_ctx (Co_set_resumer rs b) \<longleftrightarrow> False"

definition plain_mode :: "('o, 'v, 'e) co_mode \<Rightarrow> bool" where
  "plain_mode m \<longleftrightarrow>
     (case m of
        M_run b \<Rightarrow> plain_ctx b
      | M_await k \<Rightarrow> \<forall>r. plain_ctx (k r)
      | M_yielded b \<Rightarrow> plain_ctx b
      | M_scope k \<Rightarrow> \<forall>r. plain_ctx (k r)
      | _ \<Rightarrow> True)"

definition ctx_frame :: "stop_source \<Rightarrow> resumer \<Rightarrow> ('o, 'v, 'e, 'r) coro_frame \<Rightarrow> bool" where
  "ctx_frame ss rs f \<longleftrightarrow> cf_ss f = ss \<and> cf_resumer f = rs \<and> (\<forall>r. plain_ctx (cf_k f r))"

definition ctx_inv :: "stop_source \<Rightarrow> resumer \<Rightarrow> ident set \<Rightarrow> ('o, 'v, 'e, 'r) co_state \<Rightarrow> bool" where
  "ctx_inv ss rs S s \<longleftrightarrow>
     (\<forall>f \<in> set (cs_frames s). ctx_frame ss rs f) \<and> plain_mode (cs_mode s) \<and> S \<subseteq> cs_stop s"

lemma ctx_frame_simps [simp]:
  "ctx_frame ss rs (f\<lparr>cf_gs := gs\<rparr>) = ctx_frame ss rs f" "ctx_frame ss rs (f\<lparr>cf_r := r\<rparr>) = ctx_frame ss rs f"
  "ctx_frame ss rs (note_cleanup_err ec f) = ctx_frame ss rs f"
  by (auto simp: ctx_frame_def note_cleanup_err_def split: option.splits)

lemma ctx_note_finish [simp]: "ctx_inv ss rs S (co_note_finish lev s) = ctx_inv ss rs S s"
  by (cases lev) (simp_all add: ctx_inv_def co_note_finish_def co_note_def)

lemma ctx_destroy: "ctx_inv ss rs S s \<Longrightarrow> ctx_inv ss rs S (destroy_and_resume s)"
  by (auto simp: ctx_inv_def destroy_and_resume_def co_assert_def plain_mode_def ctx_frame_def Let_def
      split: list.split option.split)

lemma ctx_put: "ctx_inv ss rs S s \<Longrightarrow> ctx_frame ss rs f \<Longrightarrow> ctx_inv ss rs S (co_put f s)"
  by (cases "cs_frames s") (auto simp: ctx_inv_def co_put_def)

lemma ctx_put_gs: "ctx_inv ss rs S s \<Longrightarrow> ctx_frame ss rs f \<Longrightarrow> ctx_inv ss rs S (co_put_gs gs f s)"
  using ctx_put [of ss rs S s "f\<lparr>cf_gs := gs\<rparr>"] by (simp add: co_put_gs_def co_assert_def ctx_inv_def)

lemma ctx_goto: "ctx_inv ss rs S s \<Longrightarrow> plain_mode m \<Longrightarrow> ctx_inv ss rs S (co_goto m s)"
  by (simp add: ctx_inv_def co_goto_def)

lemma ctx_note: "ctx_inv ss rs S (co_note x s) = ctx_inv ss rs S s"
  by (simp add: ctx_inv_def co_note_def)

lemma ctx_initiate_cleanup: "ctx_inv ss rs S s \<Longrightarrow> ctx_inv ss rs S (initiate_cleanup ec s)"
  by (auto simp: initiate_cleanup_def plain_mode_def ctx_inv_def [of _ _ _ s]
      intro!: ctx_goto ctx_put ctx_destroy split: list.split prod.split bool.split)

lemma ctx_end:
  assumes "ctx_inv ss rs S s"
  shows "ctx_inv ss rs S (co_return ec v s)" "ctx_inv ss rs S (initiate_throw ec e s)"
proof -
  have "ctx_inv ss rs S (co_assert P s)" for P
    using assms by (simp add: ctx_inv_def co_assert_def)
  moreover have "ctx_frame ss rs f" if "cs_frames s = f # F" for f F
    using assms that by (simp add: ctx_inv_def)
  ultimately show "ctx_inv ss rs S (co_return ec v s)" "ctx_inv ss rs S (initiate_throw ec e s)"
    using assms by (auto simp: co_return_def initiate_throw_def intro!: ctx_initiate_cleanup ctx_put split: list.split)
qed

lemma ctx_scope_clean:
  "ctx_inv ss rs S s \<Longrightarrow> ctx_frame ss rs f \<Longrightarrow> \<forall>r. plain_ctx (k r) \<Longrightarrow> ctx_inv ss rs S (scope_clean k f s)"
  by (auto simp: scope_clean_def plain_mode_def co_assert_def ctx_inv_def [of _ _ _ "s\<lparr>cs_ok := False\<rparr>"] ctx_inv_def [of _ _ _ s]
      intro!: ctx_goto ctx_put_gs split: list.split prod.split bool.split)

lemma ctx_node:
  assumes "ctx_inv ss rs S s" "cs_frames s = f # F" "plain_ctx b" "co_node ec b f s = Some s'"
  shows "ctx_inv ss rs S s'"
proof -
  have f: "ctx_frame ss rs f"
    using assms(1,2) by (simp add: ctx_inv_def)
  show ?thesis
  proof (cases b)
    case (Co_query q k)
    obtain x stop where q: "ask q (cf_ss f) (cs_stop s) = (x, stop)"
      by fastforce
    then have "cs_stop s \<subseteq> stop"
      by (cases q) (auto simp: ask_def split: option.splits)
    then have "ctx_inv ss rs S (s\<lparr>cs_stop := stop\<rparr>)"
      using assms(1) by (auto simp: ctx_inv_def)
    then show ?thesis
      using assms(3,4) Co_query q by (auto simp: plain_mode_def ctx_note intro!: ctx_goto)
  next
    case (Co_await_task b' k)
    then show ?thesis
      using assms f by (auto simp: await_task_def task_initiate_def coro_new_def co_updates ctx_inv_def ctx_frame_def plain_mode_def)
  next
    case (Co_add_parent_cleanup b')
    then show ?thesis
      using assms f by (auto simp: add_parent_cleanup_def co_updates ctx_inv_def plain_mode_def Let_def split: list.splits)
  next
    case (Co_check r k)
    then show ?thesis
      using assms ctx_end(2) [OF assms(1)] by (cases r) (auto simp: plain_mode_def intro: ctx_goto)
  next
    case (Co_return v)
    then show ?thesis
      using assms(4) ctx_end(1) [OF assms(1)] by auto
  next
    case (Co_throw e)
    then show ?thesis
      using assms(4) ctx_end(2) [OF assms(1)] by auto
  next
    case (Co_scope_clean k)
    then show ?thesis
      using assms f ctx_scope_clean by auto
  qed (use assms f in \<open>auto simp: plain_mode_def ctx_note split: if_splits intro!: ctx_goto ctx_put_gs\<close>)
qed

lemma ctx_step:
  assumes "ctx_inv ss rs S s" "co_step ec failed ev s = Some s'"
  shows "ctx_inv ss rs S s'"
proof (cases ev)
  case Co_tick
  then obtain b f F where b: "cs_mode s = M_run b" "cs_frames s = f # F" "co_node ec b f s = Some s'"
    using assms(2) by (auto split: co_mode.splits list.splits)
  then show ?thesis
    using ctx_node [OF assms(1) b(2) _ b(3)] assms(1) by (simp add: ctx_inv_def plain_mode_def)
next
  case (Co_cleanup_event lev)
  then obtain f F where f: "cs_frames s = f # F"
    using assms(2) by (auto split: co_mode.splits list.splits)
  then have c: "ctx_frame ss rs f"
    using assms(1) by (simp add: ctx_inv_def)
  consider (scope) k where "cs_mode s = M_scope k" "scope_event failed lev k f s = Some s'"
    | (cleanup) "cleanup_event ec failed lev f s = Some s'"
    using assms(2) Co_cleanup_event f by (auto split: co_mode.splits)
  then show ?thesis
  proof cases
    case scope
    have "\<forall>r. plain_ctx (k r)"
      using assms(1) scope(1) by (simp add: ctx_inv_def plain_mode_def)
    then show ?thesis
      using scope(2) assms(1) c
      by (auto simp: scope_event_def plain_mode_def split: list.splits option.splits if_splits prod.splits intro!: ctx_goto ctx_put_gs)
  next
    case cleanup
    then show ?thesis
      using assms(1) c
      by (auto simp: cleanup_event_def split: option.splits if_splits intro!: ctx_destroy ctx_put ctx_put_gs)
  qed
next
  case (Co_stop i)
  then show ?thesis
    using assms by (auto simp: ctx_inv_def)
qed (use assms in \<open>(auto simp: ctx_inv_def plain_mode_def co_updates split: co_mode.splits coro.splits)\<close>)

lemma ctx_exec: "co_exec ec failed evs s = Some s' \<Longrightarrow> ctx_inv ss rs S s \<Longrightarrow> ctx_inv ss rs S s'"
  by (induction evs arbitrary: s) (auto split: option.splits dest: ctx_step)

section \<open>A scope is waited for once\<close>

text \<open>
  \<open>take_result\<close> drops the operations of a scope but leaves its counter: a second \<open>until_all_done\<close> on the
  same guard fails the assertion that the counter is 1. When assertions are off and operations have been
  added since, the counter does not fit them.
\<close>

lemma scope_cleaned_twice:
  assumes "lz_inv failed g" "ch_open (lz_ops g) = 0"
  shows "\<not> lz_ok (snd (lz_initiate False (snd (lz_take_result g))))"
proof -
  have "lz_n g = 1 + int (length (lz_ops g))" "lz_ops g \<noteq> []"
    using assms by (simp_all add: lz_inv_def)
  then show ?thesis
    by (simp add: lz_take_result_def lz_initiate_def lz_assert_def Let_def)
qed

section \<open>The claims\<close>

text \<open>
  C5: A coroutine task computes what its body says in direct style. Take a body that uses cleanup scopes
  as the macros do and ends every path by a return or a throw; let its awaits be ready at once, suspend
  and finish later, or be tasks with bodies of their own, to any depth; let calls of coroutines run out of
  memory, cleanup operations finish in any order, stop requests come at any time. No assertion fails
  (a result is set once before it is taken, the continuation is there when it is called, the cleanup
  scopes are empty when the coroutine is destroyed), the continuation is called at most once, after the
  coroutine has been destroyed, and the result the waiter takes is the one of reading the body as code in
  the error monad on what the run observed: a failed \<open>DSK_TRY\<close> skips the rest of its body, and a failed
  cleanup operation replaces the result.
\<close>

theorem task_is_direct_style:
  fixes failed :: "'r \<Rightarrow> bool" and b :: "('o, 'v, 'e) coro"
  assumes "scoped b p 0 False" and "p \<noteq> Child" and "co_exec ec failed evs (co_start ss rs stop b) = Some s"
  shows "cs_ok s \<and> cs_mode s \<noteq> M_aborted \<and> cs_resumed s = (if cs_frames s = [] then 1 else 0) \<and>
    (cs_resumed s = 1 \<longrightarrow>
      (\<exists>r par. sync_wait_result s = Some r \<and> direct b ec failed [] [] (cs_log s) = Some (r, par, [])))"
proof -
  have inv: "co_inv failed s"
    using co_exec_inv [OF assms(3) co_start_inv [OF assms(1,2)]] .
  let ?s0 = "co_start ss rs stop b :: ('o, 'v, 'e, 'r) co_state"
  obtain f where f: "cs_frames ?s0 = [f]" "cs_mode ?s0 = M_run b" "cs_log ?s0 = []" "sizes f = []"
    using co_start_frames by blast
  have "keeps ec failed ?s0 s"
    using keeps_exec [OF assms(3) co_start_inv [OF assms(1,2)]] .
  then have "predict ec failed ?s0 (cs_log s @ []) = predict ec failed s []"
    using f(3) by (simp add: keeps_def) (metis append_Nil append_Nil2)
  then have d: "(case direct b ec failed [] [] (cs_log s) of None \<Rightarrow> None | Some (r, par, ys) \<Rightarrow> Some (r, ys)) =
      predict ec failed s []"
    using f by (simp add: predict_def [of _ _ ?s0] will_run_def head_sizes_def split: option.splits prod.splits)
  show ?thesis
  proof (cases "cs_frames s")
    case Nil
    then obtain r where "cs_root s = Some r" "cs_resumed s = 1" "cs_ok s" "cs_mode s = M_done"
      using inv by (auto simp: co_inv_def)
    then show ?thesis
      using d Nil by (auto simp: predict_def sync_wait_result_def split: option.splits)
  next
    case (Cons g G)
    then show ?thesis
      using inv run_modeD(2) [OF inv Cons] by (auto simp: co_inv_def)
  qed
qed

text \<open>
  A task that awaits a child, which adds a cleanup operation to it, and then runs a cleanup scope; the
  last cleanup operation fails.
\<close>

theorem task_is_direct_style_witness:
  "\<exists>s. co_exec (\<lambda>e. e) (\<lambda>r :: nat. r \<noteq> 0)
     [Co_tick, Co_tick, Co_tick, Co_suspend, Co_stop 5, Co_finish (Inr 41), Co_tick, Co_tick, Co_tick,
      Co_tick, Co_tick, Co_tick, Co_cleanup_event Lz_start, Co_cleanup_event (Lz_finish 0 0),
      Co_cleanup_event (Lz_store 0), Co_cleanup_event (Lz_count 0), Co_tick, Co_tick,
      Co_cleanup_event Lz_start, Co_cleanup_event Lz_start, Co_cleanup_event (Lz_finish 1 7),
      Co_cleanup_event (Lz_store 1), Co_cleanup_event (Lz_count 1),
      Co_cleanup_event (Lz_finish 0 0), Co_cleanup_event (Lz_store 0), Co_cleanup_event (Lz_count (0 :: nat))]
     (co_start (Some 5) None {}
       (Co_add_cleanup
         (dsk_try_task (Co_add_parent_cleanup (dsk_try (1 :: nat) (\<lambda>v. Co_return (v + (1 :: nat)))))
           (\<lambda>v. Co_scope_begin (Co_add_cleanup (cleanup_scope_end (\<lambda>e. e) (Co_return v))))))) = Some s \<and>
   cs_ok s \<and> sync_wait_result s = Some (Inl cleanup_failed)"
proof -
  let ?b = "Co_add_cleanup
         (dsk_try_task (Co_add_parent_cleanup (dsk_try (1 :: nat) (\<lambda>v. Co_return (v + (1 :: nat)))))
           (\<lambda>v. Co_scope_begin (Co_add_cleanup (cleanup_scope_end (\<lambda>e. e) (Co_return v)))))"
  let ?evs = "[Co_tick, Co_tick, Co_tick, Co_suspend, Co_stop 5, Co_finish (Inr 41), Co_tick, Co_tick, Co_tick,
      Co_tick, Co_tick, Co_tick, Co_cleanup_event Lz_start, Co_cleanup_event (Lz_finish 0 0),
      Co_cleanup_event (Lz_store 0), Co_cleanup_event (Lz_count 0), Co_tick, Co_tick,
      Co_cleanup_event Lz_start, Co_cleanup_event Lz_start, Co_cleanup_event (Lz_finish 1 7),
      Co_cleanup_event (Lz_store 1), Co_cleanup_event (Lz_count 1),
      Co_cleanup_event (Lz_finish 0 0), Co_cleanup_event (Lz_store 0), Co_cleanup_event (Lz_count (0 :: nat))]"
  have "map_option sync_wait_result (co_exec (\<lambda>e. e) (\<lambda>r :: nat. r \<noteq> 0) ?evs (co_start (Some 5) None {} ?b)) =
      Some (Some (Inl cleanup_failed))"
    by code_simp
  then obtain s where s: "co_exec (\<lambda>e. e) (\<lambda>r :: nat. r \<noteq> 0) ?evs (co_start (Some 5) None {} ?b) = Some s"
      "sync_wait_result s = Some (Inl cleanup_failed)"
    by blast
  have "scoped ?b Plain 0 False"
    by (simp add: dsk_try_def dsk_try_task_def cleanup_scope_end_def split: option.split)
  then have "cs_ok s"
    using task_is_direct_style [OF _ _ s(1)] by blast
  then show ?thesis
    using s by blast
qed

text \<open>
  C6: A coroutine task finishes. In every run of such a body, as long as its continuation has not been
  called a step other than a stop request is possible, and no run has infinitely many of them: a task
  whose operations all finish calls its continuation.
\<close>

theorem task_always_finishes:
  fixes ec :: "errc \<Rightarrow> 'e" and failed :: "'r \<Rightarrow> bool" and b :: "('o, 'v, 'e) coro"
  assumes "scoped b p 0 False" and "p \<noteq> Child"
  shows "(\<forall>evs s. co_exec ec failed evs (co_start ss rs stop b) = Some s \<longrightarrow>
      cs_resumed s = 1 \<or> (\<exists>ev s'. \<not> is_stop ev \<and> co_step ec failed ev s = Some s')) \<and>
    (\<forall>\<sigma> evs. \<sigma> 0 = co_start ss rs stop b \<longrightarrow>
      (\<forall>n. co_step ec failed (evs n) (\<sigma> n) = Some (\<sigma> (Suc n))) \<longrightarrow> (\<exists>N. \<forall>n \<ge> N. is_stop (evs n)))"
proof (intro conjI allI impI)
  fix evs s assume e: "co_exec ec failed evs (co_start ss rs stop b) = Some s"
  have inv: "co_inv failed s"
    using co_exec_inv [OF e co_start_inv [OF assms]] .
  show "cs_resumed s = 1 \<or> (\<exists>ev s'. \<not> is_stop ev \<and> co_step ec failed ev s = Some s')"
    using co_not_stuck [OF inv, of ec] inv by (cases "cs_frames s") (auto simp: co_inv_def)
next
  fix \<sigma> :: "nat \<Rightarrow> ('o, 'v, 'e, 'r) co_state" and evs
  assume "\<sigma> 0 = co_start ss rs stop b" "\<forall>n. co_step ec failed (evs n) (\<sigma> n) = Some (\<sigma> (Suc n))"
  then show "\<exists>N. \<forall>n \<ge> N. is_stop (evs n)"
    using co_ends_run [OF co_start_ends [OF assms, of ec failed ss rs stop], where \<sigma> = \<sigma> and evs = evs
        and x = "cs_stop (co_start ss rs stop b :: ('o, 'v, 'e, 'r) co_state)"] by (simp add: cs_stop_self)
qed

theorem task_always_finishes_witness:
  "co_exec (\<lambda>e. e) (\<lambda>r :: nat. False) [Co_tick, Co_suspend, Co_stop 3]
     (co_start None None {} (Co_add_cleanup (as_task (1 :: nat) :: (nat, nat, errc) coro))) \<noteq> None \<and>
   (\<exists>ev s'. \<not> is_stop ev \<and>
     co_step (\<lambda>e. e) (\<lambda>r. False) ev
       (the (co_exec (\<lambda>e. e) (\<lambda>r :: nat. False) [Co_tick, Co_suspend, Co_stop 3]
         (co_start None None {} (Co_add_cleanup (as_task (1 :: nat) :: (nat, nat, errc) coro))))) = Some s')"
proof -
  let ?b = "Co_add_cleanup (as_task (1 :: nat) :: (nat, nat, errc) coro)"
  let ?r = "co_exec (\<lambda>e. e) (\<lambda>r :: nat. False) [Co_tick, Co_suspend, Co_stop 3] (co_start None None {} ?b)"
  have "map_option cs_resumed ?r = Some 0"
    by code_simp
  then obtain s where s: "?r = Some s" "cs_resumed s = 0"
    by blast
  have "scoped ?b Plain 0 False"
    by (simp add: as_task_def dsk_try_def)
  from conjunct1 [OF task_always_finishes [OF this role.distinct(3), where ec = "\<lambda>e. e" and failed = "\<lambda>r :: nat. False"
        and ss = None and rs = None and stop = "{}"]] s
  have "\<exists>ev s'. \<not> is_stop ev \<and> co_step (\<lambda>e. e) (\<lambda>r. False) ev s = Some s'"
    by fastforce
  then show ?thesis
    using s by simp
qed

text \<open>
  C13: The context of a task reaches everything below it. If neither the task nor the tasks it awaits set
  a stop source or a resumer of their own, then in every state of every run each coroutine of the chain
  has the stop source and the resumer the outermost task was started with, a stop request is never lost,
  and once it has been made every coroutine of the chain that asks sees it.
\<close>

theorem task_context_is_inherited:
  assumes "plain_ctx b" and "co_exec ec failed evs (co_start ss rs stop b) = Some s"
  shows "(\<forall>f \<in> set (cs_frames s). cf_ss f = ss \<and> cf_resumer f = rs) \<and> stop \<subseteq> cs_stop s \<and>
    (\<forall>i s' evs'. ss = Some i \<longrightarrow> i \<in> cs_stop s \<longrightarrow> co_exec ec failed evs' s = Some s' \<longrightarrow>
      (\<forall>f \<in> set (cs_frames s'). fst (ask Q_stop_requested (cf_ss f) (cs_stop s'))))"
proof -
  have "ctx_inv ss rs stop (co_start ss rs stop b)"
    using assms(1) by (simp add: ctx_inv_def co_start_def task_initiate_def coro_new_def ctx_frame_def plain_mode_def)
  then have i: "ctx_inv ss rs stop s"
    using ctx_exec [OF assms(2)] by blast
  have "fst (ask Q_stop_requested (cf_ss f) (cs_stop s'))"
    if "ss = Some i" "i \<in> cs_stop s" "co_exec ec failed evs' s = Some s'" "f \<in> set (cs_frames s')" for i s' evs' f
  proof -
    have "ctx_inv ss rs {i} s"
      using i that(2) by (simp add: ctx_inv_def)
    then have "ctx_inv ss rs {i} s'"
      using ctx_exec [OF that(3)] by blast
    then show ?thesis
      using that(1,4) by (auto simp: ctx_inv_def ctx_frame_def ask_def)
  qed
  then show ?thesis
    using i by (auto simp: ctx_inv_def ctx_frame_def)
qed

theorem task_context_is_inherited_witness:
  "\<exists>s. co_exec (\<lambda>e. e) (\<lambda>r :: nat. False) [Co_tick, Co_stop 3]
      (co_start (Some 3) (Some 8) {} (dsk_try_task (as_task (1 :: nat)) Co_return :: (nat, nat, errc) coro)) = Some s \<and>
    length (cs_frames s) = 2 \<and> (\<forall>f \<in> set (cs_frames s). cf_ss f = Some 3 \<and> cf_resumer f = Some 8)"
proof -
  let ?b = "dsk_try_task (as_task (1 :: nat)) Co_return :: (nat, nat, errc) coro"
  let ?r = "co_exec (\<lambda>e. e) (\<lambda>r :: nat. False) [Co_tick, Co_stop 3] (co_start (Some 3) (Some 8) {} ?b)"
  have "map_option (\<lambda>s. length (cs_frames s)) ?r = Some 2"
    by code_simp
  then obtain s where s: "?r = Some s" "length (cs_frames s) = 2"
    by blast
  have "plain_ctx ?b"
    by (simp add: dsk_try_task_def as_task_def dsk_try_def)
  then show ?thesis
    using task_context_is_inherited [OF _ s(1)] s by blast
qed

end
