(* ===== verification/Generator.thy ===== *)
theory Generator
  imports Coro_Live
begin

text \<open>
  Asynchronous generators, \<open>include/dsk/generator.hpp\<close>: a coroutine that yields values, and the
  operation \<open>next()\<close> its consumer awaits for each of them. The coroutine is the machine of \<open>Coro\<close>; what
  is added is the host's result, which is taken and reset for every value, the context that the first
  \<open>next()\<close> hands over, and the cleanup operation it registers with the consumer.
\<close>

section \<open>Model\<close>

text \<open>
  \<open>gn_r\<close> is the host's result, a value that is present for every yield and absent at the end;
  \<open>gn_awaited\<close> tells whether the consumer waits in \<open>next()\<close>, \<open>gn_taken\<close> what it has been given.
  \<open>gn_registered\<close> counts the calls of \<open>add_cleanup\<close> on the consumer's context, \<open>gn_cleaning\<close> tells
  whether \<open>parent_cleanup_op\<close> runs.
\<close>

record ('o, 'v, 'e, 'r) gen =
  gn_co :: "('o, 'v, 'e, 'r) co_state"
  gn_r :: "('e + 'v option) option"
  gn_awaited :: bool
  gn_taken :: "('e + 'v option) list"
  gn_registered :: nat
  gn_cleaning :: bool
  gn_ok :: bool

definition gen_new :: "ident set \<Rightarrow> ('o, 'v, 'e) coro \<Rightarrow> ('o, 'v, 'e, 'r) gen" where
  "gen_new stop b =
     \<lparr>gn_co = \<lparr>cs_frames = [coro_new], cs_mode = M_run b, cs_stop = stop, cs_root = None, cs_resumed = 0,
        cs_log = [], cs_ok = True\<rparr>,
      gn_r = None, gn_awaited = False, gn_taken = [], gn_registered = 0, gn_cleaning = False, gn_ok = True\<rparr>"

definition gn_valid :: "('o, 'v, 'e, 'r) gen \<Rightarrow> bool" where
  "gn_valid g \<longleftrightarrow> cs_frames (gn_co g) \<noteq> []"

text \<open>\<open>take_result\<close>: asserts that there is one, and resets it.\<close>

definition gen_take :: "('o, 'v, 'e, 'r) gen \<Rightarrow> ('o, 'v, 'e, 'r) gen" where
  "gen_take g =
     (case gn_r g of
        None \<Rightarrow> g\<lparr>gn_ok := False\<rparr>
      | Some r \<Rightarrow> g\<lparr>gn_r := None, gn_taken := gn_taken g @ [r]\<rparr>)"

text \<open>
  \<open>emplace_val\<close> or \<open>emplace_err\<close> on the host, and the consumer's continuation: it takes the result.
\<close>

definition gen_deliver :: "'e + 'v option \<Rightarrow> ('o, 'v, 'e, 'r) gen \<Rightarrow> ('o, 'v, 'e, 'r) gen" where
  "gen_deliver r g = gen_take (g\<lparr>gn_ok := gn_ok g \<and> gn_r g = None, gn_r := Some r, gn_awaited := False\<rparr>)"

text \<open>The context that \<open>next()\<close> sets when there is no continuation yet: the stop source, not the resumer.\<close>

definition gen_first :: "stop_source \<Rightarrow> ('o, 'v, 'e, 'r) gen \<Rightarrow> ('o, 'v, 'e, 'r) gen" where
  "gen_first ss g =
     (case cs_frames (gn_co g) of
        [] \<Rightarrow> g
      | f # F \<Rightarrow>
          if cf_cont f then g
          else g\<lparr>gn_co := co_put (f\<lparr>cf_ss := ss, cf_cont := True\<rparr>) (gn_co g), gn_registered := Suc (gn_registered g)\<rparr>)"

text \<open>\<open>next()\<close>: at once when the generator is over; otherwise the coroutine goes on.\<close>

definition gen_next :: "stop_source \<Rightarrow> ('o, 'v, 'e, 'r) gen \<Rightarrow> ('o, 'v, 'e, 'r) gen" where
  "gen_next ss g =
     (if \<not> gn_valid g then gen_take g
      else
        (let g1 = gen_first ss g in
         case cs_mode (gn_co g1) of
           M_yielded b \<Rightarrow> g1\<lparr>gn_co := co_goto (M_run b) (gn_co g1), gn_awaited := True\<rparr>
         | _ \<Rightarrow> g1\<lparr>gn_awaited := True\<rparr>))"

text \<open>A result of the coroutine as a result of the generator: \<open>DSK_RETURN()\<close> gives no value.\<close>

definition gen_end :: "'e + 'v \<Rightarrow> 'e + 'v option" where
  "gen_end r = (case r of Inl e \<Rightarrow> Inl e | Inr _ \<Rightarrow> Inr None)"

text \<open>A step of the coroutine while the consumer waits: it yields, ends, or goes on.\<close>

definition gen_step ::
  "(errc \<Rightarrow> 'e) \<Rightarrow> ('r \<Rightarrow> bool) \<Rightarrow> ('v, 'e, 'r) co_event \<Rightarrow> ('o, 'v, 'e, 'r) gen \<Rightarrow> ('o, 'v, 'e, 'r) gen option" where
  "gen_step ec failed ev g =
     (case co_step ec failed ev (gn_co g) of
        None \<Rightarrow> None
      | Some co \<Rightarrow>
          (let g1 = g\<lparr>gn_co := co\<rparr> in
           case (cs_mode (gn_co g), ev) of
             (M_run (Co_yield v b), Co_tick) \<Rightarrow> Some (gen_deliver (Inr (Some v)) g1)
           | _ \<Rightarrow>
               (case cs_frames co of
                  [] \<Rightarrow>
                    (case cs_root co of
                       None \<Rightarrow> Some (g1\<lparr>gn_ok := False\<rparr>)
                     | Some r \<Rightarrow> Some (gen_deliver (gen_end r) g1))
                | _ \<Rightarrow> Some g1)))"

text \<open>
  \<open>parent_cleanup_op\<close>, run by the consumer's cleanup: nothing when the generator is over, otherwise the
  generator's own cleanup scopes. Then the generator is destroyed, and the promise asserts that its
  scopes are empty.
\<close>

definition gen_parent_cleanup :: "('o, 'v, 'e, 'r) gen \<Rightarrow> ('o, 'v, 'e, 'r) gen" where
  "gen_parent_cleanup g =
     (case cs_frames (gn_co g) of
        [] \<Rightarrow> g
      | f # F \<Rightarrow>
          (case gs_initiate False False (cleanup (cf_gs f)) of
             (b, gs) \<Rightarrow> g\<lparr>gn_co := co_put (f\<lparr>cf_gs := gs\<rparr>) (gn_co g), gn_cleaning := b\<rparr>))"

definition gen_cleanup_step :: "('r \<Rightarrow> bool) \<Rightarrow> 'r lz_event \<Rightarrow> ('o, 'v, 'e, 'r) gen \<Rightarrow> ('o, 'v, 'e, 'r) gen option" where
  "gen_cleanup_step failed lev g =
     (case cs_frames (gn_co g) of
        [] \<Rightarrow> None
      | f # F \<Rightarrow>
          if \<not> gn_cleaning g then None
          else
            (case gs_step failed False lev (cf_gs f) of
               None \<Rightarrow> None
             | Some gs \<Rightarrow>
                 Some (g\<lparr>gn_co := co_put (f\<lparr>cf_gs := gs\<rparr>) (gn_co g), gn_cleaning := (gs_resumed gs = gs_resumed (cf_gs f))\<rparr>)))"

definition gen_destroy :: "('o, 'v, 'e, 'r) gen \<Rightarrow> ('o, 'v, 'e, 'r) gen" where
  "gen_destroy g =
     (case cs_frames (gn_co g) of
        [] \<Rightarrow> g
      | f # F \<Rightarrow> g\<lparr>gn_co := (gn_co g)\<lparr>cs_frames := []\<rparr>, gn_ok := gn_ok g \<and> gs_empty (pop_untill_non_empty (cf_gs f))\<rparr>)"

text \<open>
  A consumer's loop: it awaits \<open>next()\<close>, again until it is given the end or an error; while it waits,
  the coroutine and the operations it awaits take steps.
\<close>

definition is_end :: "'e + 'v option \<Rightarrow> bool" where
  "is_end r = (case r of Inr (Some v) \<Rightarrow> False | _ \<Rightarrow> True)"

datatype ('v, 'e, 'r) gen_event = Gn_next stop_source | Gn_step "('v, 'e, 'r) co_event"

fun gen_exec ::
  "(errc \<Rightarrow> 'e) \<Rightarrow> ('r \<Rightarrow> bool) \<Rightarrow> ('v, 'e, 'r) gen_event list \<Rightarrow> ('o, 'v, 'e, 'r) gen \<Rightarrow> ('o, 'v, 'e, 'r) gen option" where
  "gen_exec ec failed [] g = Some g"
| "gen_exec ec failed (Gn_next ss # evs) g =
     (if gn_awaited g \<or> (gn_taken g \<noteq> [] \<and> is_end (last (gn_taken g))) then None
      else gen_exec ec failed evs (gen_next ss g))"
| "gen_exec ec failed (Gn_step ev # evs) g =
     (if \<not> gn_awaited g then None
      else (case gen_step ec failed ev g of None \<Rightarrow> None | Some g' \<Rightarrow> gen_exec ec failed evs g'))"

section \<open>The values that have been yielded\<close>

fun yielded :: "('v, 'e, 'r) obs list \<Rightarrow> 'v list" where
  "yielded [] = []"
| "yielded (O_yield v # xs) = v # yielded xs"
| "yielded (_ # xs) = yielded xs"

lemma yielded_append: "yielded (xs @ ys) = yielded xs @ yielded ys"
  by (induction xs rule: yielded.induct) simp_all

definition yields_now :: "('o, 'v, 'e) co_mode \<Rightarrow> ('v, 'e, 'r) co_event \<Rightarrow> 'v list" where
  "yields_now m ev = (case (m, ev) of (M_run (Co_yield v b), Co_tick) \<Rightarrow> [v] | _ \<Rightarrow> [])"

lemma cleanup_log [simp]: "cs_log (initiate_cleanup ec s) = cs_log s"
  by (auto simp: initiate_cleanup_def co_goto_def co_put_def split: list.split prod.split bool.split)

lemma end_log [simp]: "cs_log (co_return ec v s) = cs_log s" "cs_log (initiate_throw ec e s) = cs_log s"
  by (simp_all add: co_return_def initiate_throw_def co_put_def co_assert_def split: list.split)

lemma put_gs_log [simp]: "cs_log (co_put_gs gs f s) = cs_log s"
  by (simp add: co_put_gs_def co_put_def co_assert_def)

lemma goto_log [simp]: "cs_log (co_goto m s) = cs_log s"
  by (simp add: co_goto_def)

lemma scope_clean_log [simp]: "cs_log (scope_clean k f s) = cs_log s"
  by (simp add: scope_clean_def co_assert_def split: list.split prod.split bool.split)

lemma note_yield: "yielded (cs_log (co_note x s)) = yielded (cs_log s) @ yielded [x]"
  by (simp add: co_note_def yielded_append)

lemma note_finish_yield [simp]: "yielded (cs_log (co_note_finish lev s)) = yielded (cs_log s)"
  by (cases lev) (simp_all add: co_note_finish_def note_yield)

lemma add_parent_log [simp]: "cs_log (add_parent_cleanup s) = cs_log s"
  by (auto simp: add_parent_cleanup_def co_assert_def Let_def split: list.split)

lemma co_step_yields:
  assumes "co_step ec failed ev s = Some s'"
  shows "yielded (cs_log s') = yielded (cs_log s) @ yields_now (cs_mode s) ev"
proof (cases ev)
  case Co_tick
  then obtain b f F where b: "cs_mode s = M_run b" "co_node ec b f s = Some s'"
    using assms by (auto split: co_mode.splits list.splits)
  show ?thesis
    using b Co_tick
    by (cases b)
      (auto simp: yields_now_def note_yield await_task_def co_assert_def co_put_def
        co_note_def yielded_append split: sum.splits prod.splits if_splits)
next
  case (Co_cleanup_event lev)
  then obtain f F where f: "cs_frames s = f # F"
    using assms by (auto split: co_mode.splits list.splits)
  consider (scope) k where "scope_event failed lev k f s = Some s'"
    | (cleanup) "cleanup_event ec failed lev f s = Some s'"
    using assms Co_cleanup_event f by (auto split: co_mode.splits)
  then have "yielded (cs_log s') = yielded (cs_log s)"
  proof cases
    case scope
    then show ?thesis
      by (auto simp: scope_event_def split: list.splits option.splits if_splits prod.splits)
  next
    case cleanup
    then show ?thesis
      by (auto simp: cleanup_event_def co_put_def split: option.splits if_splits)
  qed
  then show ?thesis
    using Co_cleanup_event by (simp add: yields_now_def split: co_mode.split coro.split)
qed (use assms in \<open>auto simp: yields_now_def note_yield split: co_mode.splits coro.splits\<close>)

section \<open>The invariant\<close>

definition gen_inv ::
  "(errc \<Rightarrow> 'e) \<Rightarrow> ('r \<Rightarrow> bool) \<Rightarrow> ident set \<Rightarrow> ('o, 'v, 'e) coro \<Rightarrow> ('o, 'v, 'e, 'r) gen \<Rightarrow> bool" where
  "gen_inv ec failed stop b g \<longleftrightarrow>
     g = gen_new stop b \<or>
     gn_ok g \<and> gn_r g = None \<and> \<not> gn_cleaning g \<and> gn_registered g = 1 \<and> co_inv failed (gn_co g) \<and>
     (\<exists>ss. keeps ec failed (co_start ss None stop b) (gn_co g)) \<and> (\<not> gn_valid g \<longrightarrow> \<not> gn_awaited g) \<and>
     gn_taken g = map (\<lambda>v. Inr (Some v)) (yielded (cs_log (gn_co g))) @
       (if gn_valid g then [] else [gen_end (the (cs_root (gn_co g)))])"

lemma keeps_refl: "keeps ec failed s s"
  by (auto simp: keeps_def)

lemma keeps_trans: "keeps ec failed s t \<Longrightarrow> keeps ec failed t u \<Longrightarrow> keeps ec failed s u"
  unfolding keeps_def by (metis append.assoc)

lemma gen_first_new: "gen_first ss (gen_new stop b) =
    (gen_new stop b)\<lparr>gn_co := co_start ss None stop b, gn_registered := 1\<rparr>"
  by (simp add: gen_first_def gen_new_def co_start_def task_initiate_def coro_new_def co_put_def)

lemma co_inv_cont: "co_inv failed s \<Longrightarrow> cs_frames s = f # F \<Longrightarrow> cf_cont f"
  by (cases "cs_mode s") (auto simp: co_inv_def mode_ok_def frame_ok_def frame_live_def)

lemma gen_next_inv:
  fixes failed :: "'r \<Rightarrow> bool" and b :: "('o, 'v, 'e) coro"
  assumes "gen_inv ec failed stop b g" "scoped b Generator 0 False"
    "\<not> (gn_taken g \<noteq> [] \<and> is_end (last (gn_taken g)))"
  shows "gen_inv ec failed stop b (gen_next ss g)"
proof (cases "g = gen_new stop b")
  case True
  have "gen_next ss g = (gen_new stop b)\<lparr>gn_co := co_start ss None stop b, gn_registered := 1, gn_awaited := True\<rparr>"
    unfolding True gen_next_def Let_def gen_first_new
    by (simp add: gn_valid_def gen_new_def co_start_def split: prod.split)
  moreover have "co_inv failed (co_start ss None stop b)"
    using co_start_inv [OF assms(2)] by simp
  moreover obtain f where "cs_frames (co_start ss None stop b :: ('o, 'v, 'e, 'r) co_state) = [f]"
      "cs_log (co_start ss None stop b :: ('o, 'v, 'e, 'r) co_state) = []"
    using co_start_frames by blast
  moreover have "keeps ec failed (co_start ss None stop b) (co_start ss None stop b)"
    by (rule keeps_refl)
  ultimately show ?thesis
    by (auto simp: gen_inv_def gen_new_def gn_valid_def)
next
  case False
  then have i: "gn_ok g" "gn_r g = None" "\<not> gn_cleaning g" "gn_registered g = 1" "co_inv failed (gn_co g)"
      "\<exists>ss. keeps ec failed (co_start ss None stop b) (gn_co g)"
      "gn_taken g = map (\<lambda>v. Inr (Some v)) (yielded (cs_log (gn_co g))) @
        (if gn_valid g then [] else [gen_end (the (cs_root (gn_co g)))])"
    using assms(1) by (simp_all add: gen_inv_def)
  have v: "gn_valid g"
  proof (rule ccontr)
    assume "\<not> gn_valid g"
    then have "last (gn_taken g) = gen_end (the (cs_root (gn_co g)))" "gn_taken g \<noteq> []"
      using i(7) by simp_all
    then show False
      using assms(3) by (auto simp: gen_end_def is_end_def split: sum.splits)
  qed
  then have first: "gen_first ss g = g"
    using co_inv_cont [OF i(5)] by (auto simp: gen_first_def gn_valid_def split: list.split)
  show ?thesis
  proof (cases "\<exists>b'. cs_mode (gn_co g) = M_yielded b'")
    case True
    then obtain b' where b': "cs_mode (gn_co g) = M_yielded b'"
      by blast
    let ?co = "co_goto (M_run b') (gn_co g)"
    have st: "co_step ec failed Co_next (gn_co g) = Some ?co"
      using b' by simp
    have "gen_next ss g = g\<lparr>gn_co := ?co, gn_awaited := True\<rparr>"
      using v first b' by (simp add: gen_next_def Let_def)
    moreover have "\<exists>ss. keeps ec failed (co_start ss None stop b) ?co"
      using i(6) keeps_step [OF i(5) st] keeps_trans by blast
    ultimately show ?thesis
      using i v co_step_inv [OF i(5) st] by (auto simp: gen_inv_def gn_valid_def co_goto_def)
  next
    case False
    then have "gen_next ss g = g\<lparr>gn_awaited := True\<rparr>"
      using v first by (auto simp: gen_next_def Let_def split: co_mode.split)
    then show ?thesis
      using i v by (auto simp: gen_inv_def gn_valid_def)
  qed
qed

lemma gen_step_inv:
  assumes "gen_inv ec failed stop b g" "gn_awaited g" "gen_step ec failed ev g = Some g'"
  shows "gen_inv ec failed stop b g'"
proof -
  have i: "gn_ok g" "gn_r g = None" "\<not> gn_cleaning g" "gn_registered g = 1" "co_inv failed (gn_co g)"
      "\<exists>ss. keeps ec failed (co_start ss None stop b) (gn_co g)" "gn_valid g"
      "gn_taken g = map (\<lambda>v. Inr (Some v)) (yielded (cs_log (gn_co g)))"
    using assms(1,2) by (auto simp: gen_inv_def gen_new_def split: if_splits)
  obtain co where co: "co_step ec failed ev (gn_co g) = Some co"
    using assms(3) by (auto simp: gen_step_def split: option.splits)
  note inv = co_step_inv [OF i(5) co]
  have k: "\<exists>ss. keeps ec failed (co_start ss None stop b) co"
    using i(6) keeps_step [OF i(5) co] keeps_trans by blast
  note y = co_step_yields [OF co]
  show ?thesis
  proof (cases "\<exists>v b'. cs_mode (gn_co g) = M_run (Co_yield v b') \<and> ev = Co_tick")
    case True
    then obtain v b' where v: "cs_mode (gn_co g) = M_run (Co_yield v b')" "ev = Co_tick"
      by blast
    then have g': "g' = gen_deliver (Inr (Some v)) (g\<lparr>gn_co := co\<rparr>)"
      using assms(3) co by (simp add: gen_step_def Let_def)
    have "cs_frames co \<noteq> []"
      using co v i(7) by (auto simp: gn_valid_def co_goto_def co_note_def split: list.splits if_splits)
    then show ?thesis
      using i inv k y v by (simp add: g' gen_inv_def gen_deliver_def gen_take_def gn_valid_def yields_now_def)
  next
    case False
    then have g': "Some g' = (case cs_frames co of
        [] \<Rightarrow> (case cs_root co of None \<Rightarrow> Some (g\<lparr>gn_co := co, gn_ok := False\<rparr>) | Some r \<Rightarrow> Some (gen_deliver (gen_end r) (g\<lparr>gn_co := co\<rparr>)))
      | _ \<Rightarrow> Some (g\<lparr>gn_co := co\<rparr>))"
      using assms(3) co by (auto simp: gen_step_def Let_def split: co_mode.splits coro.splits co_event.splits)
    have y0: "yielded (cs_log co) = yielded (cs_log (gn_co g))"
      using y False by (auto simp: yields_now_def split: co_mode.splits coro.splits co_event.splits)
    show ?thesis
    proof (cases "cs_frames co")
      case Nil
      then obtain r where "cs_root co = Some r"
        using inv by (auto simp: co_inv_def)
      then show ?thesis
        using g' Nil i inv k y0 by (simp add: gen_inv_def gen_deliver_def gen_take_def gn_valid_def)
    next
      case (Cons f F)
      then have "g' = g\<lparr>gn_co := co\<rparr>"
        using g' by simp
      then show ?thesis
        using Cons i inv k y0 by (simp add: gen_inv_def gn_valid_def)
    qed
  qed
qed

lemma gen_exec_inv:
  "gen_exec ec failed evs g = Some g' \<Longrightarrow> gen_inv ec failed stop b g \<Longrightarrow> scoped b Generator 0 False \<Longrightarrow>
   gen_inv ec failed stop b g'"
proof (induction ec failed evs g rule: gen_exec.induct)
  case (1 ec failed g)
  then show ?case by simp
next
  case (2 ec failed ss evs g)
  then show ?case
    using gen_next_inv [of ec failed stop b g ss] by (auto split: if_splits)
next
  case (3 ec failed ev evs g)
  then show ?case
    using gen_step_inv [of ec failed stop b g ev] by (auto split: if_splits option.splits)
qed

section \<open>A generator that is left early\<close>

fun gen_cleanup_exec :: "('r \<Rightarrow> bool) \<Rightarrow> 'r lz_event list \<Rightarrow> ('o, 'v, 'e, 'r) gen \<Rightarrow> ('o, 'v, 'e, 'r) gen option" where
  "gen_cleanup_exec failed [] g = Some g"
| "gen_cleanup_exec failed (lev # levs) g =
     (case gen_cleanup_step failed lev g of None \<Rightarrow> None | Some g' \<Rightarrow> gen_cleanup_exec failed levs g')"

text \<open>Its cleanup runs, or has left nothing behind.\<close>

definition gen_cleaned :: "('r \<Rightarrow> bool) \<Rightarrow> ('o, 'v, 'e, 'r) gen \<Rightarrow> bool" where
  "gen_cleaned failed g \<longleftrightarrow>
     gn_ok g \<and>
     (\<exists>f. cs_frames (gn_co g) = [f] \<and>
       (if gn_cleaning g then cleanup_running failed (cf_gs f) else gs_gps (cf_gs f) = []))"

lemma gen_cleanup_step_cleaned:
  assumes "gen_cleaned failed g" "gen_cleanup_step failed lev g = Some g'"
  shows "gen_cleaned failed g'"
proof -
  obtain f where f: "gn_ok g" "cs_frames (gn_co g) = [f]" "gn_cleaning g" "cleanup_running failed (cf_gs f)"
    using assms by (auto simp: gen_cleaned_def gen_cleanup_step_def split: if_splits)
  then obtain gs where gs: "gs_step failed False lev (cf_gs f) = Some gs"
      "g' = g\<lparr>gn_co := co_put (f\<lparr>cf_gs := gs\<rparr>) (gn_co g), gn_cleaning := (gs_resumed gs = gs_resumed (cf_gs f))\<rparr>"
    using assms(2) by (auto simp: gen_cleanup_step_def split: option.splits)
  obtain G where G: "gs_inv failed cleanup_failed G (cf_gs f)" "\<forall>h \<in> set G. lz_fresh cleanup_failed h" "gs_gps (cf_gs f) \<noteq> []"
    using f(4) by (auto simp: cleanup_running_def)
  have i: "gs_inv failed cleanup_failed G gs"
    using gs_step_inv [OF G(1,2) gs(1)] by blast
  have r0: "gs_resumed (cf_gs f) = 0"
    using G(1,3) by (auto simp: gs_inv_def neq_Nil_conv)
  show ?thesis
  proof (cases "gs_resumed gs = 0")
    case True
    then have "gs_gps gs \<noteq> []"
      using i by (auto simp: gs_inv_def)
    then show ?thesis
      using True f gs(2) i G(2) r0 by (auto simp: gen_cleaned_def co_put_def cleanup_running_def)
  next
    case False
    then show ?thesis
      using cleanup_end [OF i] f gs(2) r0 by (simp add: gen_cleaned_def co_put_def)
  qed
qed

lemma gen_cleanup_exec_cleaned:
  "gen_cleanup_exec failed levs g = Some g' \<Longrightarrow> gen_cleaned failed g \<Longrightarrow> gen_cleaned failed g'"
  by (induction levs arbitrary: g) (auto split: option.splits dest: gen_cleanup_step_cleaned)

section \<open>The claims\<close>



text \<open>
  A generator that its consumer leaves early is cleaned up. When the consumer stops after a value and
  its own cleanup runs the operation the generator registered, the generator's scopes run to their end,
  and when they have, the destruction of the suspended coroutine finds them empty.
\<close>

theorem generator_left_early_is_cleaned:
  assumes "scoped b Generator 0 False" and "gen_exec ec failed evs (gen_new stop b) = Some g"
    and "cs_mode (gn_co g) = M_yielded b'"
    and "gen_cleanup_exec failed levs (gen_parent_cleanup g) = Some g'"
  shows "if gn_cleaning g' then \<exists>lev g''. gen_cleanup_step failed lev g' = Some g''
    else gn_ok (gen_destroy g') \<and> \<not> gn_valid (gen_destroy g')"
proof -
  have inv: "gen_inv ec failed stop b g"
    using gen_exec_inv [OF assms(2) _ assms(1)] by (simp add: gen_inv_def)
  then have i: "gn_ok g" "\<not> gn_cleaning g" "co_inv failed (gn_co g)"
    using assms(3) by (auto simp: gen_inv_def gen_new_def)
  then obtain f F d c where f: "cs_frames (gn_co g) = f # F" "frames_ok F Generator" "frame_ok d c f"
    using assms(3) by (cases "cs_frames (gn_co g)") (auto simp: co_inv_def mode_ok_def)
  then have F: "F = []"
    by (simp add: frames_ok_generator)
  obtain x gs where x: "gs_initiate False False (cleanup (cf_gs f)) = (x, gs)"
    by fastforce
  have "gen_cleaned failed (gen_parent_cleanup g)"
    using cleanup_start [OF frame_okD [OF f(3)], of failed] x f(1) F i(1)
    by (cases x) (auto simp: gen_cleaned_def gen_parent_cleanup_def co_put_def)
  then have "gen_cleaned failed g'"
    using gen_cleanup_exec_cleaned [OF assms(4)] by blast
  then obtain h where h: "gn_ok g'" "cs_frames (gn_co g') = [h]"
      "if gn_cleaning g' then cleanup_running failed (cf_gs h) else gs_gps (cf_gs h) = []"
    by (auto simp: gen_cleaned_def)
  show ?thesis
  proof (cases "gn_cleaning g'")
    case True
    then obtain G where G: "gs_inv failed cleanup_failed G (cf_gs h)" "gs_gps (cf_gs h) \<noteq> []"
      using h(3) by (auto simp: cleanup_running_def)
    obtain lev gs' where "gs_step failed False lev (cf_gs h) = Some gs'"
      using gs_not_stuck [OF G, of False] by blast
    then have "gen_cleanup_step failed lev g' \<noteq> None"
      using True h(2) by (simp add: gen_cleanup_step_def)
    then show ?thesis
      using True by auto
  next
    case False
    then show ?thesis
      using h by (simp add: gen_destroy_def gn_valid_def gs_empty_def pop_untill_non_empty_def)
  qed
qed

theorem generator_left_early_is_cleaned_witness:
  "\<exists>g g'. gen_exec (\<lambda>e. e) (\<lambda>r :: nat. r \<noteq> 0) [Gn_next None, Gn_step Co_tick, Gn_step Co_tick]
      (gen_new {} (Co_add_cleanup (Co_yield 3 (Co_return 0))) :: (nat, nat, errc, nat) gen) = Some g \<and>
    gen_cleanup_exec (\<lambda>r. r \<noteq> 0) [Lz_start, Lz_finish 0 0, Lz_store 0, Lz_count 0] (gen_parent_cleanup g) = Some g' \<and>
    gn_ok (gen_destroy g')"
proof -
  let ?b = "Co_add_cleanup (Co_yield 3 (Co_return 0)) :: (nat, nat, errc) coro"
  let ?failed = "\<lambda>r :: nat. r \<noteq> 0"
  let ?levs = "[Lz_start, Lz_finish 0 0, Lz_store 0, Lz_count 0]"
  let ?r = "gen_exec (\<lambda>e. e) ?failed [Gn_next None, Gn_step Co_tick, Gn_step Co_tick] (gen_new {} ?b)"
  have "map_option (\<lambda>g. (case cs_mode (gn_co g) of M_yielded b' \<Rightarrow> True | _ \<Rightarrow> False,
      map_option gn_cleaning (gen_cleanup_exec ?failed ?levs (gen_parent_cleanup g)))) ?r = Some (True, Some False)"
    by code_simp
  then obtain g where r: "?r = Some g" and m: "(case cs_mode (gn_co g) of M_yielded b' \<Rightarrow> True | _ \<Rightarrow> False)"
      and c: "map_option gn_cleaning (gen_cleanup_exec ?failed ?levs (gen_parent_cleanup g)) = Some False"
    unfolding map_option_eq_Some by blast
  obtain b' where b': "cs_mode (gn_co g) = M_yielded b'"
    using m by (cases "cs_mode (gn_co g)") simp_all
  obtain g' where g': "gen_cleanup_exec ?failed ?levs (gen_parent_cleanup g) = Some g'" "\<not> gn_cleaning g'"
    using c unfolding map_option_eq_Some by blast
  note g = r b' g'
  have "scoped ?b Generator 0 False"
    by simp
  then have "gn_ok (gen_destroy g')"
    using generator_left_early_is_cleaned [OF _ g(1,2,3)] g(4) by simp
  then show ?thesis
    using g by blast
qed

end
