(* ===== verification/Async_Op.thy ===== *)
theory Async_Op
  imports Coro
begin

text \<open>
  How an operation is initiated and where its continuation is resumed: \<open>async_op.hpp\<close> (\<open>initiate\<close>,
  \<open>manual_initiate\<close>, the contexts and their overrides), \<open>resumer.hpp\<close> (\<open>resume\<close>, the resumer aware
  continuation), \<open>continuation.hpp\<close>, \<open>start_on.hpp\<close> and \<open>resume_on.hpp\<close>, all of \<open>include/dsk\<close>.

  A place is a scheduler, or \<open>None\<close> for any other thread; a resumer is a scheduler, or \<open>None\<close> for
  the inline resumer, which calls at once. An operation is an expression over the combinators;
  its leaves are operations of the environment.
\<close>

section \<open>Continuations\<close>

text \<open>
  A continuation is a bare coroutine handle, which a move leaves as it was, or a function object (or the
  class \<open>continuation\<close>, whose moves reset their source), which a move takes away. A \<open>resumer_aware_continuation\<close> holds one, and the resumer to post it to.
\<close>

datatype 'k kont = K_coro 'k | K_fn 'k

datatype 'k cont = Cont "'k kont" | Aware resumer "'k kont"

fun get_continuation :: "'k cont \<Rightarrow> 'k kont" where
  "get_continuation (Cont k) = k"
| "get_continuation (Aware r k) = k"

definition bind_resumer :: "'k cont \<Rightarrow> resumer \<Rightarrow> 'k cont" where
  "bind_resumer c r = Aware r (get_continuation c)"

definition bind_resumer_if :: "bool \<Rightarrow> 'k cont \<Rightarrow> resumer \<Rightarrow> 'k cont" where
  "bind_resumer_if b c r = (if b then bind_resumer c r else c)"

text \<open>The continuation variable after its content has been moved away.\<close>

definition moved_from :: "'k cont \<Rightarrow> 'k cont option" where
  "moved_from c = (case get_continuation c of K_coro k \<Rightarrow> Some c | K_fn k \<Rightarrow> None)"

section \<open>Contexts and operations\<close>

record ctx =
  ctx_ss :: stop_source
  ctx_resumer :: resumer

text \<open>\<open>make_async_ctx\<close> over a base: a stop source, a resumer or both take the place of the base's.\<close>

definition override_async_ctx :: "stop_source option \<Rightarrow> resumer option \<Rightarrow> ctx \<Rightarrow> ctx" where
  "override_async_ctx ss rs c =
     c\<lparr>ctx_ss := (case ss of Some x \<Rightarrow> x | None \<Rightarrow> ctx_ss c),
       ctx_resumer := (case rs of Some x \<Rightarrow> x | None \<Rightarrow> ctx_resumer c)\<rparr>"

definition make_async_ctx_if :: "bool \<Rightarrow> ctx \<Rightarrow> resumer \<Rightarrow> ctx" where
  "make_async_ctx_if b c r = (if b then override_async_ctx None (Some r) c else c)"

text \<open>
  \<open>Op_sync\<close> is \<open>sync_async_op\<close>, \<open>Op_finished\<close> an operation whose \<open>is_immediate()\<close> is true, such as a
  task that is over. \<open>Op_start_on overrideCtx solely\<close> is \<open>start_async_op_on_scheduler_op\<close>, \<open>Op_resume_coro\<close>
  the operation of \<open>resume_on(sr)\<close>.
\<close>

datatype 'o aop =
    Op_leaf 'o
  | Op_sync
  | Op_finished
  | Op_override "stop_source option" "resumer option" "'o aop"
  | Op_resume_on resumer "'o aop"
  | Op_resume_coro resumer
  | Op_start_on bool bool resumer "'o aop"

definition start_on :: "resumer \<Rightarrow> 'o aop \<Rightarrow> 'o aop" where
  "start_on sr op = Op_start_on False False sr op"

definition run_on :: "resumer \<Rightarrow> 'o aop \<Rightarrow> 'o aop" where
  "run_on sr op = Op_start_on True False sr op"

definition solely_run_on :: "resumer \<Rightarrow> 'o aop \<Rightarrow> 'o aop" where
  "solely_run_on sr op = Op_start_on True True sr op"

text \<open>\<open>is_immediate\<close>: the wrappers derive from the operation they wrap.\<close>

fun is_immediate :: "'o aop \<Rightarrow> bool" where
  "is_immediate Op_finished = True"
| "is_immediate (Op_override ss rs op) = is_immediate op"
| "is_immediate (Op_resume_on r op) = is_immediate op"
| "is_immediate (Op_start_on ov so r op) = is_immediate op"
| "is_immediate _ = False"

section \<open>The world around\<close>

text \<open>
  What is outstanding: a leaf that runs, with its context and continuation; work posted to a scheduler.
  The log has the places where leaves were initiated and where continuations were called.
\<close>

datatype ('o, 'k) item = It_call "'k kont" | It_start "'o aop" ctx "'k cont"

datatype ('o, 'k) outstanding = Os_leaf 'o ctx "'k cont" | Os_post ident "('o, 'k) item"

datatype ('o, 'k) occurrence = Initiated resumer 'o ctx | Called resumer 'k

record ('o, 'k) world =
  w_out :: "('o, 'k) outstanding list"
  w_log :: "('o, 'k) occurrence list"
  w_stop :: "ident set"
  w_ok :: bool

definition w_new :: "ident set \<Rightarrow> ('o, 'k) world" where
  "w_new stop = \<lparr>w_out = [], w_log = [], w_stop = stop, w_ok = True\<rparr>"

fun kont_id :: "'k kont \<Rightarrow> 'k" where
  "kont_id (K_coro k) = k"
| "kont_id (K_fn k) = k"

definition call :: "resumer \<Rightarrow> 'k kont \<Rightarrow> ('o, 'k) world \<Rightarrow> ('o, 'k) world" where
  "call here k w = w\<lparr>w_log := w_log w @ [Called here (kont_id k)]\<rparr>"

text \<open>\<open>post\<close> of a resumer: the inline one calls, a scheduler queues.\<close>

definition post_kont :: "resumer \<Rightarrow> 'k kont \<Rightarrow> resumer \<Rightarrow> ('o, 'k) world \<Rightarrow> ('o, 'k) world" where
  "post_kont sr k here w =
     (case sr of None \<Rightarrow> call here k w | Some s \<Rightarrow> w\<lparr>w_out := w_out w @ [Os_post s (It_call k)]\<rparr>)"

fun resume :: "'k cont \<Rightarrow> resumer \<Rightarrow> resumer \<Rightarrow> ('o, 'k) world \<Rightarrow> ('o, 'k) world" where
  "resume (Aware r k) sr here w = post_kont r k here w"
| "resume (Cont k) sr here w = post_kont sr k here w"

text \<open>With the identity of the scheduler that runs: a continuation that is at home is called directly.\<close>

fun resume_cur :: "'k cont \<Rightarrow> resumer \<Rightarrow> resumer \<Rightarrow> resumer \<Rightarrow> ('o, 'k) world \<Rightarrow> ('o, 'k) world" where
  "resume_cur (Aware r k) sr cur here w = post_kont r k here w"
| "resume_cur (Cont k) sr cur here w = (if sr = cur then call here k w else post_kont sr k here w)"

definition stop_requested :: "ctx \<Rightarrow> ('o, 'k) world \<Rightarrow> bool" where
  "stop_requested c w = (case ctx_ss c of None \<Rightarrow> False | Some i \<Rightarrow> i \<in> w_stop w)"

text \<open>
  What \<open>manual_initiate\<close> does with the outcome of \<open>initiate\<close>: when it returned false, the continuation is
  resumed; it must not have been moved.
\<close>

fun settle :: "ctx \<Rightarrow> resumer \<Rightarrow> bool \<times> 'k cont option \<times> ('o, 'k) world \<Rightarrow> ('o, 'k) world" where
  "settle c here (True, left, w) = w"
| "settle c here (False, Some k, w) = resume k (ctx_resumer c) here w"
| "settle c here (False, None, w) = w\<lparr>w_ok := False\<rparr>"

text \<open>
  \<open>initiate\<close>: false when the caller is to resume the continuation itself; with it, the caller's
  continuation variable afterwards. \<open>resume_on(sr)\<close> takes coroutine handles only: with another
  continuation the generic \<open>initiate\<close> calls that continuation.
\<close>

primrec initiate ::
  "'o aop \<Rightarrow> ctx \<Rightarrow> 'k cont \<Rightarrow> resumer \<Rightarrow> ('o, 'k) world \<Rightarrow> bool \<times> 'k cont option \<times> ('o, 'k) world" where
  "initiate (Op_leaf x) c k here w =
     (True, moved_from k, w\<lparr>w_out := w_out w @ [Os_leaf x c k], w_log := w_log w @ [Initiated here x c]\<rparr>)"
| "initiate Op_sync c k here w = (False, Some k, w)"
| "initiate Op_finished c k here w = (False, Some k, w)"
| "initiate (Op_override ss rs op) c k here w = initiate op (override_async_ctx ss rs c) k here w"
| "initiate (Op_resume_on r op) c k here w =
     (case initiate op c (bind_resumer k r) here w of (h, left, w') \<Rightarrow> (h, moved_from k, w'))"
| "initiate (Op_resume_coro r) c k here w =
     (case k of
        Cont (K_coro h) \<Rightarrow>
          if stop_requested c w then (False, Some k, w) else (True, Some k, post_kont r (K_coro h) here w)
      | Cont (K_fn f) \<Rightarrow> (True, None, call here (K_fn f) w)
      | Aware r' k' \<Rightarrow> (True, moved_from k, post_kont r' k' here w))"
| "initiate (Op_start_on ov so r op) c k here w =
     (let c' = make_async_ctx_if ov c r; k' = bind_resumer_if so k (ctx_resumer c) in
      (True, moved_from k,
        (case r of
           Some s \<Rightarrow> w\<lparr>w_out := w_out w @ [Os_post s (It_start op c' k')]\<rparr>
         | None \<Rightarrow>
             if is_immediate op then resume k' (ctx_resumer c') here w
             else settle c' here (initiate op c' k' here w))))"

definition manual_initiate :: "'o aop \<Rightarrow> ctx \<Rightarrow> 'k cont \<Rightarrow> resumer \<Rightarrow> ('o, 'k) world \<Rightarrow> ('o, 'k) world" where
  "manual_initiate op c k here w =
     (if is_immediate op then resume k (ctx_resumer c) here w
      else settle c here (initiate op c k here w))"

text \<open>
  \<open>co_await op\<close>, the awaiter of the promise: ready, or initiated with the coroutine's handle; when
  \<open>await_suspend\<close> gives false the coroutine goes on where it is.
\<close>

definition co_await_op :: "'o aop \<Rightarrow> ctx \<Rightarrow> 'k \<Rightarrow> resumer \<Rightarrow> ('o, 'k) world \<Rightarrow> ('o, 'k) world" where
  "co_await_op op c h here w =
     (if is_immediate op then call here (K_coro h) w
      else
        (case initiate op c (Cont (K_coro h)) here w of
           (True, left, w') \<Rightarrow> w'
         | (False, left, w') \<Rightarrow> call here (K_coro h) w'))"

section \<open>Steps\<close>

text \<open>
  A scheduler runs something posted to it. A leaf finishes, at some place, and resumes its continuation
  on the resumer of its context, knowing the place or not.
\<close>

definition run_item :: "ident \<Rightarrow> ('o, 'k) item \<Rightarrow> ('o, 'k) world \<Rightarrow> ('o, 'k) world" where
  "run_item s it w =
     (case it of It_call k \<Rightarrow> call (Some s) k w | It_start op c k \<Rightarrow> manual_initiate op c k (Some s) w)"

datatype w_event = W_run nat | W_finish nat resumer bool

definition drop_nth :: "nat \<Rightarrow> 'a list \<Rightarrow> 'a list" where
  "drop_nth n xs = take n xs @ drop (Suc n) xs"

fun w_step :: "w_event \<Rightarrow> ('o, 'k) world \<Rightarrow> ('o, 'k) world option" where
  "w_step (W_run n) w =
     (if n < length (w_out w)
      then (case w_out w ! n of
              Os_post s it \<Rightarrow> Some (run_item s it (w\<lparr>w_out := drop_nth n (w_out w)\<rparr>))
            | Os_leaf x c k \<Rightarrow> None)
      else None)"
| "w_step (W_finish n place knows) w =
     (if n < length (w_out w)
      then (case w_out w ! n of
              Os_post s it \<Rightarrow> None
            | Os_leaf x c k \<Rightarrow>
                (let w' = w\<lparr>w_out := drop_nth n (w_out w)\<rparr>
                 in Some (if knows then resume_cur k (ctx_resumer c) place place w'
                          else resume k (ctx_resumer c) place w')))
      else None)"

fun w_exec :: "w_event list \<Rightarrow> ('o, 'k) world \<Rightarrow> ('o, 'k) world option" where
  "w_exec [] w = Some w"
| "w_exec (ev # evs) w = (case w_step ev w of None \<Rightarrow> None | Some w' \<Rightarrow> w_exec evs w')"

section \<open>Where a continuation ends up\<close>

text \<open>
  The specification: \<open>None\<close> when the awaiting coroutine goes on without suspending, otherwise the resumer
  on which it is resumed. \<open>b\<close> is the resumer its continuation is bound to, if any.
\<close>

definition on_resumer :: "resumer option \<Rightarrow> ctx \<Rightarrow> resumer" where
  "on_resumer b c = (case b of Some r \<Rightarrow> r | None \<Rightarrow> ctx_resumer c)"

primrec resumed_on :: "'o aop \<Rightarrow> ctx \<Rightarrow> ident set \<Rightarrow> resumer option \<Rightarrow> resumer option" where
  "resumed_on (Op_leaf x) c S b = Some (on_resumer b c)"
| "resumed_on Op_sync c S b = None"
| "resumed_on Op_finished c S b = None"
| "resumed_on (Op_override ss rs op) c S b =
     (if is_immediate op then None else resumed_on op (override_async_ctx ss rs c) S b)"
| "resumed_on (Op_resume_on r op) c S b = (if is_immediate op then None else resumed_on op c S (Some r))"
| "resumed_on (Op_resume_coro r) c S b =
     (case b of
        Some r' \<Rightarrow> Some r'
      | None \<Rightarrow> (case ctx_ss c of Some i \<Rightarrow> (if i \<in> S then None else Some r) | None \<Rightarrow> Some r))"
| "resumed_on (Op_start_on ov so r op) c S b =
     (if is_immediate op then None
      else
        (let c' = make_async_ctx_if ov c r; b' = (if so then Some (ctx_resumer c) else b) in
         case resumed_on op c' S b' of
           None \<Rightarrow> Some (on_resumer b' c')
         | Some x \<Rightarrow> Some x))"

text \<open>The continuation of a coroutine, bound or not.\<close>

definition coro_cont :: "'k \<Rightarrow> resumer option \<Rightarrow> 'k cont" where
  "coro_cont h b = (case b of Some r \<Rightarrow> Aware r (K_coro h) | None \<Rightarrow> Cont (K_coro h))"

lemma coro_cont_simps [simp]:
  "get_continuation (coro_cont h b) = K_coro h" "moved_from (coro_cont h b) = Some (coro_cont h b)"
  "bind_resumer (coro_cont h b) r = coro_cont h (Some r)"
  "bind_resumer_if so (coro_cont h b) r = coro_cont h (if so then Some r else b)"
  by (simp_all add: coro_cont_def moved_from_def bind_resumer_def bind_resumer_if_def split: option.split)

lemma resume_coro_cont: "resume (coro_cont h b) (ctx_resumer c) here w = post_kont (on_resumer b c) (K_coro h) here w"
  by (simp add: coro_cont_def on_resumer_def split: option.split)

text \<open>
  What is outstanding for the coroutine \<open>h\<close> that is to be resumed on \<open>r\<close>: nothing, once it has been
  called (on \<open>r\<close>, when that is a scheduler); or one piece of work that leads there.
\<close>

fun leads_to :: "'k \<Rightarrow> resumer \<Rightarrow> ident set \<Rightarrow> ('o, 'k) outstanding \<Rightarrow> bool" where
  "leads_to h r S (Os_leaf x c k) \<longleftrightarrow> (\<exists>b. k = coro_cont h b \<and> r = on_resumer b c)"
| "leads_to h r S (Os_post s (It_call k)) \<longleftrightarrow> k = K_coro h \<and> r = Some s"
| "leads_to h r S (Os_post s (It_start op c k)) \<longleftrightarrow>
     (\<exists>b. k = coro_cont h b \<and> \<not> is_immediate op \<and>
       r = (case resumed_on op c S b of None \<Rightarrow> on_resumer b c | Some x \<Rightarrow> x))"

definition calls :: "('o, 'k) world \<Rightarrow> (resumer \<times> 'k) list" where
  "calls w = somes (map (\<lambda>x. case x of Called p k \<Rightarrow> Some (p, k) | _ \<Rightarrow> None) (w_log w))"

definition on_its_way :: "'k \<Rightarrow> resumer \<Rightarrow> ('o, 'k) world \<Rightarrow> bool" where
  "on_its_way h r w \<longleftrightarrow>
     w_ok w \<and>
     ((\<exists>x. w_out w = [x] \<and> leads_to h r (w_stop w) x \<and> calls w = []) \<or>
      (\<exists>p. w_out w = [] \<and> calls w = [(p, h)] \<and> (r \<noteq> None \<longrightarrow> p = r)))"

lemma calls_simps [simp]:
  "calls (w\<lparr>w_out := xs\<rparr>) = calls w" "calls (call p k w) = calls w @ [(p, kont_id k)]"
  "calls (w\<lparr>w_out := xs, w_log := w_log w @ [Initiated p x c]\<rparr>) = calls w"
  by (simp_all add: calls_def call_def)

lemma call_simps [simp]: "w_out (call p k w) = w_out w" "w_ok (call p k w) = w_ok w" "w_stop (call p k w) = w_stop w"
  by (simp_all add: call_def)

lemma post_on_its_way:
  assumes "w_ok w" "w_out w = []" "calls w = []"
  shows "on_its_way h r (post_kont r (K_coro h) here w)"
  using assms by (cases r) (auto simp: post_kont_def on_its_way_def)

lemma resume_on_its_way:
  "w_ok w \<Longrightarrow> w_out w = [] \<Longrightarrow> calls w = [] \<Longrightarrow>
   on_its_way h (on_resumer b c) (resume (coro_cont h b) (ctx_resumer c) here w)"
  by (simp add: resume_coro_cont post_on_its_way)

lemma resume_cur_coro_cont: "resume_cur (coro_cont h b) (ctx_resumer c) p p w =
    (if b = None \<and> ctx_resumer c = p then call p (K_coro h) w else post_kont (on_resumer b c) (K_coro h) p w)"
  by (simp add: coro_cont_def on_resumer_def split: option.split)

lemma settle_on_its_way:
  assumes "case x of (True, left, w') \<Rightarrow> (\<exists>r'. res = Some r' \<and> on_its_way h r' w')
      | (False, left, w') \<Rightarrow> res = None \<and> w' = w \<and> left = Some (coro_cont h b)"
    and "w_ok w" "w_out w = []" "calls w = []"
  shows "on_its_way h (case res of None \<Rightarrow> on_resumer b c | Some r \<Rightarrow> r) (settle c here x)"
  using assms resume_on_its_way [OF assms(2-4), of h b c here] by (auto split: prod.splits bool.splits)

lemma initiate_on_its_way:
  assumes "\<not> is_immediate op" "w_ok w" "w_out w = []" "calls w = []"
  shows "case initiate op c (coro_cont h b) here w of
      (True, left, w') \<Rightarrow> (\<exists>r. resumed_on op c (w_stop w) b = Some r \<and> on_its_way h r w')
    | (False, left, w') \<Rightarrow> resumed_on op c (w_stop w) b = None \<and> w' = w \<and> left = Some (coro_cont h b)"
  using assms
proof (induction op arbitrary: c b here w)
  case (Op_leaf x)
  then show ?case
    by (auto simp: on_its_way_def)
next
  case Op_sync
  then show ?case by simp
next
  case Op_finished
  then show ?case by simp
next
  case (Op_override ss rs op)
  obtain x l w' where i: "initiate op (override_async_ctx ss rs c) (coro_cont h b) here w = (x, l, w')"
    using prod_cases3 by blast
  show ?case
    using Op_override.IH [of w "override_async_ctx ss rs c" b here] Op_override.prems i by (cases x) simp_all
next
  case (Op_resume_on r op)
  obtain x l w' where i: "initiate op c (coro_cont h (Some r)) here w = (x, l, w')"
    using prod_cases3 by blast
  show ?case
    using Op_resume_on.IH [of w c "Some r" here] Op_resume_on.prems i by (cases x) simp_all
next
  case (Op_resume_coro r)
  then show ?case
    using post_on_its_way [of w h]
    by (cases b) (auto simp: coro_cont_def stop_requested_def split: option.splits)
next
  case (Op_start_on ov so r op)
  let ?c = "make_async_ctx_if ov c r" and ?b = "if so then Some (ctx_resumer c) else b"
  have imm: "\<not> is_immediate op"
    using Op_start_on.prems(1) by simp
  note IH = Op_start_on.IH [OF imm Op_start_on.prems(2-4), of ?c ?b here]
  have "on_its_way h (case resumed_on op ?c (w_stop w) ?b of None \<Rightarrow> on_resumer ?b ?c | Some r \<Rightarrow> r)
      (settle ?c here (initiate op ?c (coro_cont h ?b) here w))"
    using IH by (rule settle_on_its_way) (use Op_start_on.prems in simp_all)
  then show ?case
    using imm Op_start_on.prems(2-4)
    by (cases r) (auto simp: Let_def on_its_way_def split: option.splits)
qed

lemma calls_out [simp]: "calls (w\<lparr>w_out := xs\<rparr>) = calls w"
  by (simp add: calls_def)

lemma call_done:
  "w_ok w \<Longrightarrow> w_out w = [] \<Longrightarrow> calls w = [] \<Longrightarrow> r = None \<or> p = r \<Longrightarrow> on_its_way h r (call p (K_coro h) w)"
  by (auto simp: on_its_way_def)

lemma step_on_its_way:
  assumes "on_its_way h r w" "w_step ev w = Some w'"
  shows "on_its_way h r w'"
proof -
  have "w_out w \<noteq> []"
    using assms(2) by (cases ev) (auto split: if_splits)
  then obtain x where x: "w_ok w" "w_out w = [x]" "leads_to h r (w_stop w) x" "calls w = []"
    using assms(1) by (auto simp: on_its_way_def)
  let ?w = "w\<lparr>w_out := []\<rparr>"
  have clean: "w_ok ?w" "w_out ?w = []" "calls ?w = []"
    using x by simp_all
  show ?thesis
  proof (cases ev)
    case (W_run n)
    then obtain s it where it: "n = 0" "x = Os_post s it" "w' = run_item s it ?w"
      using assms(2) x(2) by (auto simp: drop_nth_def split: if_splits outstanding.splits)
    show ?thesis
    proof (cases it)
      case (It_call k)
      then show ?thesis
        using it x clean call_done [where w = ?w and r = r and p = "Some s" and h = h] by (simp add: run_item_def)
    next
      case (It_start op c k)
      then obtain b where b: "k = coro_cont h b" "\<not> is_immediate op"
          "r = (case resumed_on op c (w_stop w) b of None \<Rightarrow> on_resumer b c | Some x \<Rightarrow> x)"
        using it x(3) by auto
      have stop: "w_stop ?w = w_stop w"
        by simp
      have "on_its_way h r (settle c (Some s) (initiate op c (coro_cont h b) (Some s) ?w))"
        unfolding b(3) by (rule settle_on_its_way [OF _ clean])
          (use initiate_on_its_way [OF b(2) clean, where c = c and h = h and b = b and here = "Some s", unfolded stop] in assumption)
      then show ?thesis
        using it It_start b by (simp add: run_item_def manual_initiate_def)
    qed
  next
    case (W_finish n p knows)
    then obtain y c k where k: "n = 0" "x = Os_leaf y c k"
        "w' = (if knows then resume_cur k (ctx_resumer c) p p ?w else resume k (ctx_resumer c) p ?w)"
      using assms(2) x(2) by (auto simp: drop_nth_def Let_def split: if_splits outstanding.splits)
    then obtain b where b: "k = coro_cont h b" "r = on_resumer b c"
      using x(3) by auto
    show ?thesis
      using k(3) b resume_on_its_way [OF clean, where h = h and b = b and c = c and here = p]
        post_on_its_way [OF clean, where h = h and r = r and here = p] call_done [OF clean, where h = h and r = r and p = p]
      by (auto simp: resume_cur_coro_cont on_resumer_def)
  qed
qed

lemma exec_on_its_way: "w_exec evs w = Some w' \<Longrightarrow> on_its_way h r w \<Longrightarrow> on_its_way h r w'"
  by (induction evs arbitrary: w) (auto split: option.splits dest: step_on_its_way)

lemma w_exec_done: "w_exec evs w = Some w' \<Longrightarrow> w_out w = [] \<Longrightarrow> w' = w"
proof (cases evs)
  case (Cons ev evs')
  assume "w_exec evs w = Some w'" "w_out w = []"
  then show ?thesis
    using Cons by (cases ev) simp_all
qed simp

lemma on_its_way_not_stuck: "w_out w \<noteq> [] \<Longrightarrow> \<exists>ev w'. w_step ev w = Some w'"
proof -
  assume "w_out w \<noteq> []"
  then obtain x xs where x: "w_out w = x # xs"
    by (meson neq_Nil_conv)
  show ?thesis
  proof (cases x)
    case (Os_leaf y c k)
    then show ?thesis
      using x by (intro exI [of _ "W_finish 0 None False"]) (simp add: Let_def)
  next
    case (Os_post s it)
    then show ?thesis
      using x by (intro exI [of _ "W_run 0"]) simp
  qed
qed

section \<open>What does not hold\<close>

text \<open>
  \<open>resume_on(sr, op)\<close> has no effect when \<open>op\<close> completes at once: the coroutine goes on where it is. The same
  holds for \<open>solely_run_on\<close>, \<open>run_on\<close> and \<open>start_on\<close> of an operation that is over, which never get to the scheduler.
\<close>

lemma resume_on_sync_stays: "co_await_op (Op_resume_on r Op_sync) c h here w = call here (K_coro h) w"
  by (simp add: co_await_op_def)

lemma start_on_finished_stays: "co_await_op (Op_start_on ov so r Op_finished) c h here w = call here (K_coro h) w"
  by (simp add: co_await_op_def)

text \<open>
  The rule of \<open>manual_initiate\<close>, that an operation which returns false has not moved the continuation, is
  broken by \<open>resume_on(sr, op)\<close>: with a function object, the continuation that is then resumed is empty.
\<close>

lemma resume_on_moves_continuation: "\<not> w_ok (manual_initiate (Op_resume_on r Op_sync) c (Cont (K_fn f)) here w)"
  by (simp add: manual_initiate_def moved_from_def)

section \<open>The claim\<close>

text \<open>
  C12: A coroutine that awaits an operation is resumed exactly once, on the scheduler the expression says.
  Take any nesting of \<open>start_on\<close>, \<open>run_on\<close>, \<open>solely_run_on\<close>, \<open>resume_on\<close> and context overrides around
  an operation, and any order and place of what follows. At every moment either one piece of work is
  outstanding and can go on, or the coroutine has been called, once; the continuation is never used after
  a move. It goes on without suspending where the operation completes at once; otherwise it is resumed where the
  innermost \<open>resume_on\<close> or \<open>solely_run_on\<close> around the leaf says (the latter means the resumer of the
  context it is awaited in), else on the resumer of the context in force at the leaf, the scheduler of the
  innermost \<open>run_on\<close> or override.
\<close>

theorem awaited_op_resumes_once:
  assumes "w_exec evs (co_await_op op c h here (w_new S)) = Some w"
  shows "w_ok w \<and> length (w_out w) + length (calls w) = 1 \<and> (w_out w \<noteq> [] \<longrightarrow> (\<exists>ev w'. w_step ev w = Some w')) \<and>
    (\<forall>p k. (p, k) \<in> set (calls w) \<longrightarrow> k = h \<and>
      (case (if is_immediate op then None else resumed_on op c S None) of
         None \<Rightarrow> p = here
       | Some None \<Rightarrow> True
       | Some (Some s) \<Rightarrow> p = Some s))"
proof -
  let ?w0 = "w_new S :: ('a, 'b) world"
  have clean: "w_ok ?w0" "w_out ?w0 = []" "calls ?w0 = []"
    by (simp_all add: w_new_def calls_def)
  consider (now) "co_await_op op c h here ?w0 = call here (K_coro h) ?w0"
      "(if is_immediate op then None else resumed_on op c S None) = None"
    | (later) r where "\<not> is_immediate op" "resumed_on op c S None = Some r" "on_its_way h r (co_await_op op c h here ?w0)"
  proof (cases "is_immediate op")
    case True
    then show ?thesis
      using now by (simp add: co_await_op_def)
  next
    case False
    obtain x l w' where i: "initiate op c (coro_cont h None) here ?w0 = (x, l, w')"
      using prod_cases3 by blast
    have e: "co_await_op op c h here ?w0 = (if x then w' else call here (K_coro h) w')"
      using False i by (simp add: co_await_op_def coro_cont_def)
    have S: "w_stop ?w0 = S"
      by (simp add: w_new_def)
    show ?thesis
      using initiate_on_its_way [OF False clean, where c = c and h = h and b = None and here = here, unfolded i S] e False
        now later by (cases x) auto
  qed
  then show ?thesis
  proof cases
    case now
    then have "w = call here (K_coro h) ?w0"
      using assms w_exec_done [of evs "call here (K_coro h) ?w0" w] clean by simp
    then show ?thesis
      using clean now(2) by simp
  next
    case later
    then have "on_its_way h r w"
      using exec_on_its_way [OF assms] by blast
    then show ?thesis
      using later(1,2) on_its_way_not_stuck [of w] by (cases r) (auto simp: on_its_way_def)
  qed
qed

theorem awaited_op_resumes_once_witness:
  "\<exists>w. w_exec [W_run 0, W_finish 0 (Some 9) True, W_run 0]
      (co_await_op (solely_run_on (Some 2) (Op_leaf (7 :: nat))) \<lparr>ctx_ss = None, ctx_resumer = Some 1\<rparr> (5 :: nat) (Some 1) (w_new {})) =
      Some w \<and>
    w_log w = [Initiated (Some 2) 7 \<lparr>ctx_ss = None, ctx_resumer = Some 2\<rparr>, Called (Some 1) 5] \<and> w_ok w"
proof -
  let ?op = "solely_run_on (Some 2) (Op_leaf (7 :: nat))" and ?c = "\<lparr>ctx_ss = None, ctx_resumer = Some 1\<rparr>"
  let ?evs = "[W_run 0, W_finish 0 (Some 9) True, W_run 0]"
  have "map_option w_log (w_exec ?evs (co_await_op ?op ?c (5 :: nat) (Some 1) (w_new {}))) =
      Some [Initiated (Some 2) 7 \<lparr>ctx_ss = None, ctx_resumer = Some 2\<rparr>, Called (Some 1) 5]"
    by code_simp
  then obtain w where w: "w_exec ?evs (co_await_op ?op ?c (5 :: nat) (Some 1) (w_new {})) = Some w"
      "w_log w = [Initiated (Some 2) 7 \<lparr>ctx_ss = None, ctx_resumer = Some 2\<rparr>, Called (Some 1) 5]"
    unfolding map_option_eq_Some by blast
  have "w_ok w"
    using awaited_op_resumes_once [OF w(1)] by blast
  then show ?thesis
    using w by blast
qed

end
