(* ===== verification/Spec2Isabelle.thy ===== *)
theory Spec2Isabelle
  imports Res_Queue_Props Res_Pool_Props Lru_Props Msgpack_Props Until_Props Async_Group_Props Naive_Pool_Props Http_Range Pq_Props Bom Json_Props Jser_Read_Props Content_Type File_Handler
    Gumbo_Props Compress_Props Generator Async_Op
begin

text \<open>
  dsk (\<open>src/include/dsk\<close>) is a header-only C++ library of asynchronous operations on coroutines: tasks
  and generators, combinators that run several operations, queues and pools on which operations wait,
  thread pools that run them, and around this core formats and protocols: MessagePack, JSON, the data
  formats of PostgreSQL, HTTP. The theories of this development translate the parts that have logic of
  their own, function by function, and prove what makes them correct. This root theory imports them all.
  File names below are relative to \<open>src/include/dsk\<close>.

  \<^bold>\<open>How the code is modelled.\<close> A class is a record of its fields, a member function a function on it, an
  enumeration a datatype. An error is a value: \<open>expected<T, E>\<close> is a sum with the error on the left, a
  variable of type \<open>errc\<close> that may hold no error an option. A \<open>DSK_ASSERT\<close> does not stop the model; it is
  recorded in a field of the state (\<open>rq_ok\<close>, \<open>og_ok\<close>, \<open>cs_ok\<close>, ...), and theorems state that it holds.
  What C++ leaves undefined is an error of its own (\<open>undefined_behaviour\<close>, \<open>Out_of_bounds\<close>). Machine
  integers are \<open>int\<close> with the wrap-around of \<open>c_cast\<close>, or words of their width; \<open>size_t\<close> is a natural
  number below \<open>2 ^ 64\<close> where it can overflow. A pointer to an operation or an iterator is the identity of
  what it points to. Code under a mutex, and every access to an atomic variable, is one step; concurrent
  code is a run of such steps in any order, given as a list of events or as a step relation. A
  continuation that is resumed is an entry of a log or a counter, so that exactly-once resumption is a
  statement on the state.

  \<^bold>\<open>The components.\<close>

  \<^item> \<open>Prelude\<close>, \<open>Err\<close>, \<open>C_Types\<close>: shared vocabulary; \<open>err.hpp\<close> and \<open>expected.hpp\<close>; the arithmetic types of
    C++ and \<open>util/endian.hpp\<close>. \<open>Runs\<close> and \<open>Countdown\<close>: runs of a step relation with the locale
    \<open>comes_to_rest\<close>, and the counters by which the last of several operations is found, with the locale
    \<open>countdown\<close>.
  \<^item> \<open>Coro\<close>, \<open>Coro_Inv\<close>, \<open>Coro_Props\<close>, \<open>Coro_Live\<close> (\<open>task.hpp\<close>, \<open>sync_wait.hpp\<close>): coroutine tasks. The body
    of a coroutine is a finite tree of its awaits; a task that awaits a task is a chain of frames with
    their results, cleanup scopes, stop sources and resumers. The invariant gives the assertions; a
    prediction that every step keeps shows that a task computes what its body says in an error monad
    (\<open>direct\<close>); an induction on bodies shows that it ends. \<open>Generator\<close> (\<open>generator.hpp\<close>) adds \<open>next()\<close>, the
    yielded values and the cleanup in the consumer.
  \<^item> \<open>Async_Op\<close> (\<open>async_op.hpp\<close>, \<open>resumer.hpp\<close>, \<open>continuation.hpp\<close>, \<open>any_resumer.hpp\<close>, \<open>start_on.hpp\<close>,
    \<open>resume_on.hpp\<close>): how an operation is initiated and on which scheduler its awaiter is resumed, for any
    nesting of the combinators.
  \<^item> \<open>Async_Group\<close> (\<open>async_op_group.hpp\<close>) and \<open>Until\<close> (\<open>until.hpp\<close>): operations that run others, as
    interleavings of the steps of the children's completion handlers; a wait ends exactly when all
    children have, the first to finish is the one reported, cleanup scopes run from the inside out.
    The cleanup scopes of \<open>Coro\<close> are those of \<open>Async_Group\<close>.
  \<^item> \<open>Waiter_Queue\<close>, \<open>Res_Queue\<close> (\<open>res_queue.hpp\<close>), \<open>Res_Pool\<close> (\<open>res_pool.hpp\<close>): queues of suspended operations
    (locale \<open>waiter_fifo\<close>, interpreted on both kinds of them), the bounded asynchronous queue, the pool
    of resources. Values come out in the order they went in and none is lost, a resource has one user,
    an operation is resumed once, an idle resource and a waiting operation do not occur together.
  \<^item> \<open>Thread_Pool\<close> (\<open>simple_thread_pool.hpp\<close>): the work-stealing pool and the simple one as step relations;
    no job is lost, no notification is missed, the threads come to rest.
  \<^item> \<open>Lru_Cache\<close> (\<open>util/lru_cache.hpp\<close>): the list and the map of iterators agree, the cost is within the
    capacity, the least recently used entries go.
  \<^item> \<open>Msgpack_Fmt\<close>, \<open>Msgpack_Writer\<close>, \<open>Msgpack_Reader\<close>, \<open>Msgpack_Codec\<close>, \<open>Msgpack_Props\<close> (\<open>jser/msgpack\<close>):
    the codec, with a calculus of reading what was written (\<open>reads\<close>) and of staying in the buffer
    (\<open>mp_safe\<close>).
  \<^item> \<open>Jser_Write\<close>, \<open>Jser_Spec\<close>, \<open>Json_Writer\<close>, \<open>Jser_Msgpack\<close>, \<open>Json_Props\<close> (\<open>jser/write.hpp\<close>, \<open>jser/dsl.hpp\<close>,
    \<open>jser/cpo.hpp\<close>, \<open>jser/json/writer.hpp\<close>): structured data written through any writer that keeps the
    contract \<open>jser_writer\<close>, which the JSON and the MessagePack writers do; a reference reader of JSON texts
    reads the document back.
  \<^item> \<open>Jser_Err\<close>, \<open>Jser_Read\<close>, \<open>Jser_Read_Props\<close> (\<open>jser/err.hpp\<close>, \<open>jser/read.hpp\<close> and the reading half of
    \<open>jser/dsl.hpp\<close> and \<open>jser/cpo.hpp\<close>): structured data read by a definition through the MessagePack reader.
    Whatever fits a definition (\<open>jfits\<close>) is read back as it was written; the last section shows what is not.
  \<^item> \<open>Num_Cast\<close>, \<open>Stringify\<close>, \<open>Ascii\<close>, \<open>Bom\<close>: checked conversions (\<open>util/num_cast.hpp\<close>), numbers as text
    (\<open>util/stringify.hpp\<close>, \<open>util/from_str.hpp\<close>), character classes (\<open>charset/ascii.hpp\<close>), byte order marks.
  \<^item> \<open>Pq_Types\<close>, \<open>Pq_Props\<close> (\<open>pq/data_types.hpp\<close>): parameters and fields of PostgreSQL queries; arrays are
    written into a buffer of exactly their size and read back (locale \<open>pq_element\<close>).
  \<^item> \<open>Http_Range\<close>, \<open>Content_Type\<close>, \<open>Mime\<close>, \<open>File_Handler\<close> over \<open>Str_View\<close> and \<open>Stream_Transfer\<close> (\<open>http\<close>,
    \<open>asio/transfer.hpp\<close>): the Range and Content-Type headers, the table of media types, and the server of
    static files, which parses a range, resolves it, and transfers the bytes of the file it selects.
  \<^item> \<open>Gumbo\<close>, \<open>Gumbo_Props\<close> (\<open>gumbo.hpp\<close>): selectors of HTML elements, the searches in the tree, the text of
    a node. A search finds exactly the nodes its name promises, in document order (locale \<open>g_collector\<close>, one
    interpretation for each kind of callback); the short selector syntax means what it says.
  \<^item> \<open>Decompress\<close>, \<open>Decompress_Props\<close>, \<open>Compress\<close>, \<open>Compress_Props\<close> (\<open>compr\<close>): streaming compression and
    decompression with zlib, bz2 and zstd: the loops that buy output room, call the library and cut what
    was not used, and the detection of the format. Over the contracts of the libraries, feeding a stream
    in pieces gives its content (locale \<open>stream_appender\<close>), concatenated streams give their contents one
    after the other (locale \<open>stream_restarter\<close>), and what was compressed is decompressed.
  The theories whose names end in \<open>_Props\<close> hold the properties of the component; a property is followed
  by a witness, an instance in which its hypotheses hold.

  \<^bold>\<open>Parameters.\<close> Code outside the repository is an argument of the definitions: the byte order functions
  of Boost (\<open>endian_codec\<close>, with their documented behaviour \<open>endian_ok\<close> as hypothesis, instantiated by
  \<open>big_endian\<close> in the witnesses), floating point conversions and texts, base64, the user's callbacks,
  creators and recyclers, the results of operations that are not modelled, and the calls of the
  compression libraries (contracts \<open>decoder_ok\<close>, \<open>decodes_whole\<close> and \<open>encoder_ok\<close>, instantiated in the
  witnesses by a code that ends with a zero byte).

  \<^bold>\<open>Bounds and fuel.\<close> Recursion that follows the input has it as its measure. Runs of concurrent
  components are of any length; the counts in the theorems (four steps for an operation of a group, and
  so on) are exact. The one fuel of the development is that of the reference reader of JSON, which takes
  the length of the text: every call consumes a character. \<open>mp_skip\<close> is a \<open>function\<close> whose measure is the
  number of bytes left in the buffer. The loops of the compression and decompression functions
  are \<open>partial_function (option)\<close>: their theorems state that they return.

  \<^bold>\<open>Not modelled.\<close> The bindings of third-party libraries (Boost.Asio, libcurl, gRPC, libpq, SQLite, MySQL,
  Redis, ICU, TBB, the Windows pool): their logic is that of the library they call. The
  compile-time parts (\<open>util/ct.hpp\<close>, \<open>util/tuple.hpp\<close>, \<open>util/type_traits.hpp\<close>, concepts and customisation
  points): nothing of them runs; a definition here is what is left once they are resolved. Memory
  orders weaker than interleaving, allocation, exceptions thrown by user code. Examples and tests.
\<close>

end
